(* ===== verification/Prelude.thy ===== *)
theory Prelude
  imports Main "HOL-Library.Word" "HOL-Library.Code_Target_Numeral"
begin

text \<open>
  What every component shares: the machine types of the C code, the casts the code writes
  out, the byte order, and the list lemmas about buffers.

  A C buffer that is only read is a \<open>byte list\<close>. A C buffer that is filled from the front
  together with its fill counter is the \<open>byte list\<close> of the bytes written so far, and the
  counter is its length; \<open>buf_put\<close> is the \<open>memcpy\<close> to its end and is \<open>None\<close> when the copy
  would leave the array. \<open>None\<close> in an \<open>option\<close> result of a definition that follows the
  memory of the code always means such an access outside of an object (undefined behaviour
  in C), and never an error code: error codes are values of their own types.
\<close>

unbundle bit_operations_syntax

type_synonym byte = "8 word"
type_synonym u16 = "16 word"
type_synonym u32 = "32 word"
type_synonym u64 = "64 word"

named_theorems cast_simps \<open>casts that do not lose bits\<close>
named_theorems buf_simps \<open>filling and reading buffers\<close>

subsection \<open>Casts\<close>

text \<open>The value that remains of a number when the code casts it to \<open>uint16_t\<close>.\<close>

definition cast16 :: "nat \<Rightarrow> nat" where
  "cast16 n = n mod 65536"

lemma cast16_id [simp, cast_simps]: "n < 65536 \<Longrightarrow> cast16 n = n"
  by (simp add: cast16_def)

lemma cast16_less [simp]: "cast16 n < 65536"
  by (simp add: cast16_def)

lemma cast16_le [simp]: "cast16 n \<le> n"
  by (simp add: cast16_def)

definition UINT16_MAX :: nat where
  "UINT16_MAX = 65535"

subsection \<open>Byte order\<close>

text \<open>
  \<open>(uint16_t)(b[0] | ((uint16_t)b[1] << 8))\<close>, and the little-endian 16-bit and 32-bit loads
  through a packed structure.
\<close>

definition le16 :: "byte \<Rightarrow> byte \<Rightarrow> u16" where
  "le16 b0 b1 = ucast b0 OR push_bit 8 (ucast b1)"

definition le32 :: "byte \<Rightarrow> byte \<Rightarrow> byte \<Rightarrow> byte \<Rightarrow> u32" where
  "le32 b0 b1 b2 b3 = ucast b0 OR push_bit 8 (ucast b1) OR push_bit 16 (ucast b2)
     OR push_bit 24 (ucast b3)"

definition bytes16 :: "u16 \<Rightarrow> byte list" where
  "bytes16 x = [ucast x, ucast (drop_bit 8 x)]"

definition bytes32 :: "u32 \<Rightarrow> byte list" where
  "bytes32 x = [ucast x, ucast (drop_bit 8 x), ucast (drop_bit 16 x), ucast (drop_bit 24 x)]"

lemma length_bytes16 [simp]: "length (bytes16 x) = 2"
  by (simp add: bytes16_def)

lemma length_bytes32 [simp]: "length (bytes32 x) = 4"
  by (simp add: bytes32_def)

lemma le16_bytes16 [simp]: "le16 (ucast x) (ucast (drop_bit 8 x)) = x"
  by (rule bit_word_eqI) (auto simp: le16_def bit_simps)

lemma le32_bytes32 [simp]:
  "le32 (ucast x) (ucast (drop_bit 8 x)) (ucast (drop_bit 16 x)) (ucast (drop_bit 24 x)) = x"
proof (rule bit_word_eqI)
  fix n
  assume "n < LENGTH(32)"
  then have "n < 8 \<or> 8 \<le> n \<and> n < 16 \<or> 16 \<le> n \<and> n < 24 \<or> 24 \<le> n \<and> n < 32"
    by auto
  then show "bit (le32 (ucast x) (ucast (drop_bit 8 x)) (ucast (drop_bit 16 x))
      (ucast (drop_bit 24 x))) n = bit x n"
    by (elim disjE) (auto simp: le32_def bit_simps)
qed

subsection \<open>Buffers\<close>

definition buf_put :: "nat \<Rightarrow> byte list \<Rightarrow> byte list \<Rightarrow> byte list option" where
  "buf_put cap buf xs = (if length buf + length xs \<le> cap then Some (buf @ xs) else None)"

lemma buf_put_Some [buf_simps]:
  "length buf + length xs \<le> cap \<Longrightarrow> buf_put cap buf xs = Some (buf @ xs)"
  by (simp add: buf_put_def)

lemma buf_put_SomeD: "buf_put cap buf xs = Some r \<Longrightarrow> r = buf @ xs \<and> length r \<le> cap"
  by (auto simp: buf_put_def split: if_splits)

text \<open>A load from a buffer: \<open>None\<close> when the index is outside of it.\<close>

definition rd :: "'a list \<Rightarrow> nat \<Rightarrow> 'a option" where
  "rd xs i = (if i < length xs then Some (xs ! i) else None)"

lemma rd_Some [buf_simps]: "i < length xs \<Longrightarrow> rd xs i = Some (xs ! i)"
  by (simp add: rd_def)

text \<open>\<open>n\<close> bytes from offset \<open>i\<close>.\<close>

definition segment :: "nat \<Rightarrow> nat \<Rightarrow> 'a list \<Rightarrow> 'a list" where
  "segment i n xs = take n (drop i xs)"

lemma length_segment [simp]: "length (segment i n xs) = min n (length xs - i)"
  by (simp add: segment_def)

lemma nth_segment [simp]: "j < n \<Longrightarrow> i + j < length xs \<Longrightarrow> segment i n xs ! j = xs ! (i + j)"
  by (simp add: segment_def)

lemma take_segment_append:
  "i + n \<le> length xs \<Longrightarrow> take i xs @ segment i n xs = take (i + n) xs"
  by (simp add: segment_def take_add)

lemma take_segment_append_le:
  "i \<le> j \<Longrightarrow> j \<le> length xs \<Longrightarrow> take i xs @ segment i (j - i) xs = take j xs"
  using take_segment_append [of i "j - i" xs] by simp

lemma segment_0 [simp]: "segment i 0 xs = []"
  by (simp add: segment_def)

lemma segment_append_segment:
  "segment i m xs @ segment (i + m) n xs = segment i (m + n) xs"
  by (simp add: segment_def take_add add.commute)

text \<open>A copy into the middle of a buffer, and the loads and stores of packed structures in a buffer.\<close>

definition blit :: "byte list \<Rightarrow> nat \<Rightarrow> byte list \<Rightarrow> byte list" where
  "blit xs pos ys = take pos xs @ ys @ drop (pos + length ys) xs"

definition rd16 :: "byte list \<Rightarrow> nat \<Rightarrow> nat" where
  "rd16 xs i = unat (le16 (xs ! i) (xs ! (i + 1)))"

definition rd32 :: "byte list \<Rightarrow> nat \<Rightarrow> u32" where
  "rd32 xs i = le32 (xs ! i) (xs ! (i + 1)) (xs ! (i + 2)) (xs ! (i + 3))"

lemma length_blit [simp]: "pos + length ys \<le> length xs \<Longrightarrow> length (blit xs pos ys) = length xs"
  by (simp add: blit_def)

lemma nth_blit: "pos + length ys \<le> length xs \<Longrightarrow> i < length xs \<Longrightarrow>
    blit xs pos ys ! i = (if pos \<le> i \<and> i < pos + length ys then ys ! (i - pos) else xs ! i)"
  by (auto simp: blit_def nth_append min_def)

lemma take_blit: "pos + length ys \<le> length xs \<Longrightarrow> take (pos + length ys) (blit xs pos ys) = take pos xs @ ys"
  by (simp add: blit_def)

text \<open>The bytes of a string literal, without its final zero.\<close>

definition cstr :: "string \<Rightarrow> byte list" where
  "cstr s = map of_char s"

text \<open>A comparison of bytes that does not stop at the first difference.\<close>

lemma or_zero: "(a :: byte) OR b = 0 \<longleftrightarrow> a = 0 \<and> b = 0"
  by (auto simp: bit_eq_iff bit_simps)

lemma xor_zero: "(a :: byte) XOR b = 0 \<longleftrightarrow> a = b"
  by (auto simp: bit_eq_iff bit_simps)

lemma fold_diff: "fold (\<lambda>i d. d OR (xs ! i XOR ys ! i)) is d = (0 :: byte) \<longleftrightarrow> d = 0 \<and> (\<forall>i\<in>set is. xs ! i = ys ! i)"
  by (induction "is" arbitrary: d) (auto simp: or_zero xor_zero)

definition tolower :: "byte \<Rightarrow> byte" where
  "tolower c = (if 65 \<le> c \<and> c \<le> 90 then c + 32 else c)"

end
