(* ===== verification/PicoDict.thy ===== *)
theory PicoDict
  imports Prelude
begin

text \<open>
  The static dictionary of \<open>lib/picocompress/picocompress.c\<close> (\<open>pc_d00\<close> to \<open>pc_d95\<close> and
  \<open>pc_static_dict\<close>): 96 entries of 3 to 8 bytes, each stored with its length. String
  literals of the source are written as \<open>ascii ''...''\<close> (their terminating NUL is outside
  of the entry's length), entries with quotes or control characters byte by byte.
\<close>

record pc_dict_entry =
  de_data :: "byte list"
  de_len :: nat

definition ascii :: "string \<Rightarrow> byte list" where
  "ascii s = map of_char s"

definition dict_entry :: "byte list \<Rightarrow> nat \<Rightarrow> pc_dict_entry" where
  "dict_entry d n = \<lparr>de_data = d, de_len = n\<rparr>"

definition PC_DICT_COUNT :: nat where
  "PC_DICT_COUNT = 96"

definition pc_static_dict :: "pc_dict_entry list" where
  "pc_static_dict = [
   dict_entry [0x22, 0x3A, 0x20, 0x22] 4, dict_entry [0x7D, 0x2C, 0x0A, 0x22] 4,
   dict_entry [0x3C, 0x2F, 0x64, 0x69, 0x76] 5, dict_entry (ascii ''tion'') 4,
   dict_entry (ascii ''ment'') 4, dict_entry (ascii ''ness'') 4,
   dict_entry (ascii ''able'') 4, dict_entry (ascii ''ight'') 4,
   dict_entry [0x22, 0x3A, 0x22] 3, dict_entry [0x3C, 0x2F, 0x64, 0x69] 4,
   dict_entry [0x3D, 0x22, 0x68, 0x74] 4, dict_entry (ascii ''the'') 3,
   dict_entry (ascii ''ing'') 3, dict_entry [0x2C, 0x22, 0x2C] 3,
   dict_entry [0x22, 0x3A, 0x7B] 3, dict_entry [0x22, 0x3A, 0x5B] 3,
   dict_entry (ascii ''ion'') 3, dict_entry (ascii ''ent'') 3,
   dict_entry (ascii ''ter'') 3, dict_entry (ascii ''and'') 3,
   dict_entry [0x2F, 0x3E, 0x0D, 0x0A] 4, dict_entry [0x22, 0x7D, 0x2C] 3,
   dict_entry [0x22, 0x5D, 0x2C] 3, dict_entry (ascii ''have'') 4,
   dict_entry [0x6E, 0x6F, 0x22, 0x3A] 4, dict_entry (ascii ''true'') 4,
   dict_entry (ascii ''null'') 4, dict_entry (ascii ''name'') 4,
   dict_entry (ascii ''data'') 4, dict_entry (ascii ''time'') 4,
   dict_entry (ascii ''type'') 4, dict_entry (ascii ''mode'') 4,
   dict_entry (ascii ''http'') 4, dict_entry (ascii ''tion'') 4,
   dict_entry (ascii ''code'') 4, dict_entry (ascii ''size'') 4,
   dict_entry (ascii ''ment'') 4, dict_entry (ascii ''list'') 4,
   dict_entry (ascii ''item'') 4, dict_entry (ascii ''text'') 4,
   dict_entry (ascii ''false'') 5, dict_entry (ascii ''error'') 5,
   dict_entry (ascii ''value'') 5, dict_entry (ascii ''state'') 5,
   dict_entry (ascii ''alert'') 5, dict_entry (ascii ''input'') 5,
   dict_entry (ascii ''ation'') 5, dict_entry (ascii ''order'') 5,
   dict_entry (ascii ''status'') 6, dict_entry (ascii ''number'') 6,
   dict_entry (ascii ''active'') 6, dict_entry (ascii ''device'') 6,
   dict_entry (ascii ''region'') 6, dict_entry (ascii ''string'') 6,
   dict_entry (ascii ''result'') 6, dict_entry (ascii ''length'') 6,
   dict_entry (ascii ''message'') 7, dict_entry (ascii ''content'') 7,
   dict_entry (ascii ''request'') 7, dict_entry (ascii ''default'') 7,
   dict_entry [0x6E, 0x75, 0x6D, 0x62, 0x65, 0x72, 0x22, 0x3A] 8, dict_entry (ascii ''operator'') 8,
   dict_entry (ascii ''https://'') 8, dict_entry (ascii ''response'') 8,
   dict_entry (ascii ''. The '') 6, dict_entry (ascii ''. It '') 5,
   dict_entry (ascii ''. This '') 7, dict_entry (ascii ''. A '') 4,
   dict_entry (ascii ''HTTP'') 4, dict_entry (ascii ''JSON'') 4,
   dict_entry (ascii ''The '') 4, dict_entry (ascii ''None'') 4,
   dict_entry (ascii ''ment'') 4, dict_entry (ascii ''ness'') 4,
   dict_entry (ascii ''able'') 4, dict_entry (ascii ''ight'') 4,
   dict_entry (ascii ''ation'') 5, dict_entry (ascii ''ould '') 5,
   dict_entry [0x22, 0x3A, 0x20, 0x22] 4, dict_entry [0x22, 0x2C, 0x20, 0x22] 4,
   dict_entry (ascii ''DIM'') 3, dict_entry (ascii ''FOR'') 3,
   dict_entry (ascii ''END'') 3, dict_entry (ascii ''REL'') 3,
   dict_entry (ascii ''EACH'') 4, dict_entry (ascii ''LOAD'') 4,
   dict_entry (ascii ''SAVE'') 4, dict_entry (ascii ''CARD'') 4,
   dict_entry (ascii ''JUMP'') 4, dict_entry (ascii ''PRINT'') 5,
   dict_entry (ascii ''INPUT'') 5, dict_entry (ascii ''GOSUB'') 5,
   dict_entry (ascii ''STREAM'') 6, dict_entry (ascii ''RETURN'') 6,
   dict_entry (ascii ''SWITCH'') 6, dict_entry (ascii ''PROGRAM'') 7]"

text \<open>Every entry's stored length is the length of its data, between 3 and 8.\<close>

definition dict_entry_ok :: "pc_dict_entry \<Rightarrow> bool" where
  "dict_entry_ok e \<longleftrightarrow> length (de_data e) = de_len e \<and> 3 \<le> de_len e \<and> de_len e \<le> 8"

lemma length_pc_static_dict [simp]: "length pc_static_dict = 96"
  by (simp add: pc_static_dict_def)

lemma pc_static_dict_ok: "list_all dict_entry_ok pc_static_dict"
  by (simp add: pc_static_dict_def dict_entry_ok_def dict_entry_def ascii_def)

lemma pc_static_dict_nth_ok: "d < 96 \<Longrightarrow> dict_entry_ok (pc_static_dict ! d)"
  using pc_static_dict_ok by (simp add: list_all_length)

lemma de_len_bounds:
  assumes "d < 96"
  shows "length (de_data (pc_static_dict ! d)) = de_len (pc_static_dict ! d)"
    and "3 \<le> de_len (pc_static_dict ! d)" and "de_len (pc_static_dict ! d) \<le> 8"
  using pc_static_dict_nth_ok [OF assms] by (auto simp: dict_entry_ok_def)

end
