(* ===== verification/PicoMatch.thy ===== *)
theory PicoMatch
  imports Prelude PicoDict
begin

text \<open>
  Match finding of \<open>lib/picocompress/picocompress.c\<close>: the hash of three bytes, the length of
  a common prefix (the portable byte loop and the word-at-a-time loop that the Cortex-M33
  build selects, proved equal), the hash chains, and \<open>pc_find_best\<close>, the search for the best
  repeat, dictionary or Lempel-Ziv candidate at a position. What the encoder needs of that
  search is \<open>find_best_ok\<close>: a candidate with positive savings is a true copy of earlier bytes
  or a dictionary entry, in the ranges its token can express.

  \<open>vbuf\<close> is the history followed by the block; positions are offsets into it, as in the code.
\<close>

subsection \<open>Constants\<close>

definition PC_BLOCK_SIZE :: nat where "PC_BLOCK_SIZE = 508"
definition PC_LITERAL_MAX :: nat where "PC_LITERAL_MAX = 64"
definition PC_MATCH_MIN :: nat where "PC_MATCH_MIN = 2"
definition PC_MATCH_MAX :: nat where "PC_MATCH_MAX = 33"
definition PC_OFFSET_SHORT_MAX :: nat where "PC_OFFSET_SHORT_MAX = 511"
definition PC_LONG_MATCH_MIN :: nat where "PC_LONG_MATCH_MIN = 2"
definition PC_LONG_MATCH_MAX :: nat where "PC_LONG_MATCH_MAX = 17"
definition PC_OFFSET_LONG_MAX :: nat where "PC_OFFSET_LONG_MAX = 65535"
definition PC_BLOCK_MAX_COMPRESSED :: nat where
  "PC_BLOCK_MAX_COMPRESSED = PC_BLOCK_SIZE + PC_BLOCK_SIZE div PC_LITERAL_MAX + 16"
definition PC_LAZY_STEPS :: nat where "PC_LAZY_STEPS = 1"
definition PC_HASH_CHAIN_DEPTH :: nat where "PC_HASH_CHAIN_DEPTH = 2"
definition PC_HISTORY_SIZE :: nat where "PC_HISTORY_SIZE = 504"
definition PC_GOOD_MATCH :: nat where "PC_GOOD_MATCH = 8"
definition PC_REPEAT_CACHE_SIZE :: nat where "PC_REPEAT_CACHE_SIZE = 3"

lemmas pc_consts = PC_BLOCK_SIZE_def PC_LITERAL_MAX_def PC_MATCH_MIN_def PC_MATCH_MAX_def
  PC_OFFSET_SHORT_MAX_def PC_LONG_MATCH_MIN_def PC_LONG_MATCH_MAX_def PC_OFFSET_LONG_MAX_def
  PC_BLOCK_MAX_COMPRESSED_def PC_LAZY_STEPS_def PC_HASH_CHAIN_DEPTH_def PC_HISTORY_SIZE_def
  PC_GOOD_MATCH_def PC_REPEAT_CACHE_SIZE_def UINT16_MAX_def

subsection \<open>Hash of three bytes and the chain table\<close>

text \<open>\<open>PC_HASH_BITS\<close> is 9 for 508-byte blocks; the mask is \<open>PC_HASH_SIZE - 1\<close>.\<close>

definition pc_hash3 :: "byte list \<Rightarrow> nat \<Rightarrow> nat" where
  "pc_hash3 vbuf p =
     unat ((ucast (vbuf ! p) * 251 + ucast (vbuf ! (p + 1)) * 11 + ucast (vbuf ! (p + 2)) * 3 :: u32)
       AND 511)"

text \<open>
  \<open>int16_t head[PC_HASH_CHAIN_DEPTH][PC_HASH_SIZE]\<close>: positions, and \<open>-1\<close> (the bytes
  \<open>0xFF 0xFF\<close>) for an empty chain cell.
\<close>

type_synonym head_table = "nat \<Rightarrow> nat \<Rightarrow> int"

definition cast_s16 :: "nat \<Rightarrow> int" where
  "cast_s16 p = sint (word_of_nat p :: u16)"

definition head_init :: head_table where
  "head_init = (\<lambda>_ _. -1)"

definition head_set :: "head_table \<Rightarrow> nat \<Rightarrow> nat \<Rightarrow> int \<Rightarrow> head_table" where
  "head_set ht d hash v = ht(d := (ht d)(hash := v))"

fun head_shift :: "head_table \<Rightarrow> nat \<Rightarrow> nat \<Rightarrow> head_table" where
  "head_shift ht 0 hash = ht"
| "head_shift ht (Suc d) hash = head_shift (head_set ht (Suc d) hash (ht d hash)) d hash"

definition pc_head_insert :: "head_table \<Rightarrow> nat \<Rightarrow> int \<Rightarrow> head_table" where
  "pc_head_insert ht hash pos =
     head_set (head_shift ht (PC_HASH_CHAIN_DEPTH - 1) hash) 0 hash pos"

subsection \<open>Length of a match\<close>

text \<open>
  The portable loop: \<open>while (m < limit && a[m] == b[m]) ++m\<close>, where \<open>a\<close> and \<open>b\<close> point into
  the same buffer.
\<close>

function match_len_bytes :: "byte list \<Rightarrow> nat \<Rightarrow> nat \<Rightarrow> nat \<Rightarrow> nat \<Rightarrow> nat" where
  "match_len_bytes v a b limit m =
     (if m < limit \<and> v ! (a + m) = v ! (b + m) then match_len_bytes v a b limit (m + 1) else m)"
  by pat_completeness auto
termination
  by (relation "measure (\<lambda>(v, a, b, limit, m). limit - m)") auto

declare match_len_bytes.simps [simp del]

text \<open>\<open>__builtin_ctz\<close> on a nonzero 32-bit value, and the index of the first differing byte.\<close>

definition builtin_ctz :: "u32 \<Rightarrow> nat" where
  "builtin_ctz x = length (takeWhile (\<lambda>i. \<not> bit x i) [0..<32])"

definition pc_first_diff_bytes :: "u32 \<Rightarrow> nat" where
  "pc_first_diff_bytes x = builtin_ctz x div 8"

text \<open>The word-at-a-time loop: four bytes per compare, then the byte loop for the rest.\<close>

definition load32 :: "byte list \<Rightarrow> nat \<Rightarrow> u32" where
  "load32 v p = le32 (v ! p) (v ! (p + 1)) (v ! (p + 2)) (v ! (p + 3))"

function match_len_words :: "byte list \<Rightarrow> nat \<Rightarrow> nat \<Rightarrow> nat \<Rightarrow> nat \<Rightarrow> nat" where
  "match_len_words v a b limit m =
     (if 4 \<le> limit - m then
        let x = load32 v (a + m) XOR load32 v (b + m) in
        if x \<noteq> 0 then m + pc_first_diff_bytes x
        else match_len_words v a b limit (m + 4)
      else match_len_bytes v a b limit m)"
  by pat_completeness auto
termination
  by (relation "measure (\<lambda>(v, a, b, limit, m). limit - m)") auto

declare match_len_words.simps [simp del]

definition pc_match_len :: "byte list \<Rightarrow> nat \<Rightarrow> nat \<Rightarrow> nat \<Rightarrow> nat" where
  "pc_match_len v a b limit = match_len_words v a b limit 0"

definition pc_match_len_portable :: "byte list \<Rightarrow> nat \<Rightarrow> nat \<Rightarrow> nat \<Rightarrow> nat" where
  "pc_match_len_portable v a b limit = match_len_bytes v a b limit 0"

subsection \<open>The two loops agree\<close>

lemma match_len_bytes_range: "m \<le> limit \<Longrightarrow> m \<le> match_len_bytes v a b limit m \<and> match_len_bytes v a b limit m \<le> limit"
proof (induction v a b limit m rule: match_len_bytes.induct)
  case (1 v a b limit m)
  then show ?case by (subst (1 2) match_len_bytes.simps) fastforce
qed

lemma match_len_bytes_eq:
  "m \<le> j \<Longrightarrow> j < match_len_bytes v a b limit m \<Longrightarrow> v ! (a + j) = v ! (b + j)"
proof (induction v a b limit m rule: match_len_bytes.induct)
  case (1 v a b limit m)
  show ?case
  proof (cases "m < limit \<and> v ! (a + m) = v ! (b + m)")
    case True
    with 1 show ?thesis
      by (cases "m = j") (auto simp: match_len_bytes.simps [of v a b limit m])
  next
    case False
    with 1 show ?thesis by (simp add: match_len_bytes.simps [of v a b limit m] split: if_splits)
  qed
qed

lemma match_len_bytes_skip:
  "m + n \<le> limit \<Longrightarrow> \<forall>j<n. v ! (a + (m + j)) = v ! (b + (m + j)) \<Longrightarrow>
   match_len_bytes v a b limit m = match_len_bytes v a b limit (m + n)"
proof (induction n)
  case (Suc n)
  then have "match_len_bytes v a b limit m = match_len_bytes v a b limit (m + n)" by simp
  also have "\<dots> = match_len_bytes v a b limit (m + Suc n)"
    using Suc.prems by (subst match_len_bytes.simps) simp
  finally show ?case .
qed simp

lemma match_len_bytes_stop:
  "v ! (a + m) \<noteq> v ! (b + m) \<Longrightarrow> match_len_bytes v a b limit m = m"
  by (subst match_len_bytes.simps) simp

lemma xor_eq_0_iff: "(a :: 'a::len word) XOR b = 0 \<longleftrightarrow> a = b"
proof
  assume "a XOR b = 0"
  then have "(a XOR b) XOR b = b" by simp
  then show "a = b" by (simp add: xor.assoc)
qed simp

lemma bit_byte_high: "8 \<le> n \<Longrightarrow> \<not> bit (b :: byte) n"
  by (auto dest: bit_imp_le_length)

lemma bit_le32:
  assumes "i < 8"
  shows "bit (le32 b0 b1 b2 b3) i = bit b0 i" and "bit (le32 b0 b1 b2 b3) (i + 8) = bit b1 i"
    and "bit (le32 b0 b1 b2 b3) (i + 16) = bit b2 i" and "bit (le32 b0 b1 b2 b3) (i + 24) = bit b3 i"
  using assms by (simp_all add: le32_def bit_or_iff bit_push_bit_iff bit_ucast_iff bit_byte_high)

lemma bit_load32:
  assumes "j < 4" and "i < 8"
  shows "bit (load32 v p) (8 * j + i) = bit (v ! (p + j)) i"
proof -
  from assms(1) have "j = 0 \<or> j = 1 \<or> j = 2 \<or> j = 3" by auto
  with assms(2) show ?thesis
    by (elim disjE) (simp_all add: load32_def bit_le32 add.commute [of _ i])
qed

lemma builtin_ctz_props:
  assumes "x \<noteq> 0"
  shows "builtin_ctz x < 32" and "bit x (builtin_ctz x)" and "n < builtin_ctz x \<Longrightarrow> \<not> bit x n"
proof -
  let ?P = "\<lambda>i. \<not> bit x i"
  let ?t = "takeWhile ?P [0..<32]"
  have "\<exists>i<32. bit x i"
  proof (rule ccontr)
    assume "\<not> (\<exists>i<32. bit x i)"
    then have "x = 0" by (intro bit_word_eqI) auto
    with assms show False by simp
  qed
  then have ex: "\<exists>i\<in>set [0..<32]. \<not> ?P i" by auto
  have len: "length ?t < length [0..<32]"
  proof (rule ccontr)
    assume "\<not> length ?t < length [0..<32]"
    then have "?t = [0..<32]"
      by (metis length_takeWhile_le nat_less_le takeWhile_eq_take take_all_iff linorder_not_less)
    with ex show False by (metis takeWhile_eq_all_conv)
  qed
  then show "builtin_ctz x < 32" by (simp add: builtin_ctz_def)
  show "bit x (builtin_ctz x)"
    using nth_length_takeWhile [OF len] len by (simp add: builtin_ctz_def)
  show "\<not> bit x n" if "n < builtin_ctz x"
  proof -
    from that have "n < length ?t" by (simp add: builtin_ctz_def)
    then have "?t ! n \<in> set ?t" and "?t ! n = [0..<32] ! n"
      by (rule nth_mem) (rule takeWhile_nth, fact)
    moreover have "n < 32" using that len by (simp add: builtin_ctz_def)
    ultimately show ?thesis by (metis set_takeWhileD add_0 nth_upt)
  qed
qed

lemma first_diff_bytes:
  assumes "load32 v p XOR load32 v q \<noteq> 0"
  defines "k \<equiv> pc_first_diff_bytes (load32 v p XOR load32 v q)"
  shows "k < 4" and "v ! (p + k) \<noteq> v ! (q + k)" and "j < k \<Longrightarrow> v ! (p + j) = v ! (q + j)"
proof -
  let ?x = "load32 v p XOR load32 v q"
  let ?n = "builtin_ctz ?x"
  note ctz = builtin_ctz_props [OF assms(1)]
  show k4: "k < 4" using ctz(1) by (simp add: k_def pc_first_diff_bytes_def)
  have "bit (load32 v p) ?n \<noteq> bit (load32 v q) ?n" using ctz(2) by (simp add: bit_simps)
  moreover have "?n = 8 * k + ?n mod 8" by (simp add: k_def pc_first_diff_bytes_def)
  ultimately have "bit (v ! (p + k)) (?n mod 8) \<noteq> bit (v ! (q + k)) (?n mod 8)"
    using bit_load32 [OF k4, of "?n mod 8"] by (metis mod_less_divisor zero_less_numeral)
  then show "v ! (p + k) \<noteq> v ! (q + k)" by auto
  show "v ! (p + j) = v ! (q + j)" if "j < k"
  proof (rule bit_word_eqI)
    fix i assume "i < LENGTH(8)"
    then have i: "i < 8" by simp
    with that have lt: "8 * j + i < ?n"
      by (simp add: k_def pc_first_diff_bytes_def)
    then have "bit (load32 v p) (8 * j + i) = bit (load32 v q) (8 * j + i)"
      using ctz(3) [OF lt] by (simp add: bit_simps)
    then show "bit (v ! (p + j)) i = bit (v ! (q + j)) i"
      using i that k4 by (simp add: bit_load32)
  qed
qed

lemma load32_eqD: "load32 v p = load32 v q \<Longrightarrow> j < 4 \<Longrightarrow> v ! (p + j) = v ! (q + j)"
proof (rule bit_word_eqI)
  fix i assume eq: "load32 v p = load32 v q" and "j < 4" and "i < LENGTH(8)"
  then have "bit (load32 v p) (8 * j + i) = bit (load32 v q) (8 * j + i)" and "i < 8"
    by simp_all
  with \<open>j < 4\<close> show "bit (v ! (p + j)) i = bit (v ! (q + j)) i" by (simp add: bit_load32)
qed

lemma match_len_words_bytes:
  "m \<le> limit \<Longrightarrow> match_len_words v a b limit m = match_len_bytes v a b limit m"
proof (induction v a b limit m rule: match_len_words.induct)
  case (1 v a b limit m)
  let ?x = "load32 v (a + m) XOR load32 v (b + m)"
  show ?case
  proof (cases "4 \<le> limit - m")
    case False
    then show ?thesis by (simp add: match_len_words.simps [of v a b limit m])
  next
    case len: True
    show ?thesis
    proof (cases "?x = 0")
      case True
      then have "load32 v (a + m) = load32 v (b + m)" by (simp only: xor_eq_0_iff)
      then have "\<forall>j<4. v ! (a + (m + j)) = v ! (b + (m + j))"
        using load32_eqD by (metis add.assoc)
      then have "match_len_bytes v a b limit m = match_len_bytes v a b limit (m + 4)"
        using len by (intro match_len_bytes_skip) auto
      with True len "1.IH" [OF _ refl] show ?thesis
        by (simp add: match_len_words.simps [of v a b limit m])
    next
      case False
      note fd = first_diff_bytes [OF False]
      let ?k = "pc_first_diff_bytes ?x"
      have "match_len_bytes v a b limit m = match_len_bytes v a b limit (m + ?k)"
        using fd(1,3) len by (intro match_len_bytes_skip) (auto simp: add.assoc)
      also have "\<dots> = m + ?k"
        using fd(2) by (intro match_len_bytes_stop) (simp add: add.assoc)
      finally show ?thesis using False len by (simp add: match_len_words.simps [of v a b limit m])
    qed
  qed
qed

lemma pc_match_len_le: "pc_match_len v a b limit \<le> limit"
  by (simp add: pc_match_len_def match_len_words_bytes match_len_bytes_range)

lemma pc_match_len_eq: "j < pc_match_len v a b limit \<Longrightarrow> v ! (a + j) = v ! (b + j)"
  using match_len_bytes_eq [of 0 j v a b limit]
  by (simp add: pc_match_len_def match_len_words_bytes)

subsection \<open>The best candidate at a position\<close>

text \<open>
  The output parameters of \<open>pc_find_best\<close> together with the running \<open>best_savings\<close>.
  \<open>b_dict = UINT16_MAX\<close> means that the candidate is not a dictionary entry.
\<close>

record best =
  b_savings :: int
  b_len :: nat
  b_off :: nat
  b_dict :: nat
  b_rep :: bool

definition best_none :: best where
  "best_none = \<lparr>b_savings = 0, b_len = 0, b_off = 0, b_dict = UINT16_MAX, b_rep = False\<rparr>"

text \<open>
  The function looks at three groups of candidates, each in a loop whose body either skips
  the candidate (\<open>continue\<close>, or no better than what is there), or takes it and then returns
  early when its length is \<open>good_match\<close> or more. \<open>scan_best\<close> is that loop, with the flag
  \<open>True\<close> for the early return; the bodies follow.
\<close>

fun scan_best :: "('c \<Rightarrow> best \<Rightarrow> best option) \<Rightarrow> nat \<Rightarrow> 'c list \<Rightarrow> best \<Rightarrow> best \<times> bool" where
  "scan_best body good [] b = (b, False)"
| "scan_best body good (c # cs) b =
     (case body c b of
        None \<Rightarrow> scan_best body good cs b
      | Some b' \<Rightarrow> if good \<le> b_len b' then (b', True) else scan_best body good cs b')"

text \<open>The repeat-offset cache: slot \<open>d\<close> holds the offset \<open>off\<close>.\<close>

definition rep_body :: "byte list \<Rightarrow> nat \<Rightarrow> nat \<Rightarrow> nat \<times> nat \<Rightarrow> best \<Rightarrow> best option" where
  "rep_body vbuf vpos remaining = (\<lambda>(d, off) b.
     if off = 0 \<or> vpos < off then None
     else if vbuf ! vpos \<noteq> vbuf ! (vpos - off) then None
     else if 2 \<le> remaining \<and> vbuf ! (vpos + 1) \<noteq> vbuf ! (vpos - off + 1) then None
     else
       let max_rep = (if PC_MATCH_MAX < remaining then PC_MATCH_MAX else remaining);
           len = pc_match_len vbuf (vpos - off) vpos max_rep in
       if len < PC_MATCH_MIN then None
       else
         let is_rep = (d = 0 \<and> len \<le> 17);
             token_cost = (if is_rep then 1 else if off \<le> PC_OFFSET_SHORT_MAX then 2 else 3);
             s = int len - token_cost in
         if b_savings b < s
         then Some \<lparr>b_savings = s, b_len = len, b_off = off, b_dict = UINT16_MAX, b_rep = is_rep\<rparr>
         else None)"

text \<open>The dictionary: entry number \<open>d\<close>.\<close>

definition dict_body :: "byte list \<Rightarrow> nat \<Rightarrow> nat \<Rightarrow> nat \<times> pc_dict_entry \<Rightarrow> best \<Rightarrow> best option" where
  "dict_body vbuf vpos remaining = (\<lambda>(d, e) b.
     let dlen = de_len e in
     if remaining < dlen then None
     else if int dlen - 1 \<le> b_savings b then None
     else if de_data e ! 0 \<noteq> vbuf ! vpos then None
     else if segment vpos dlen vbuf \<noteq> take dlen (de_data e) then None
     else Some \<lparr>b_savings = int dlen - 1, b_len = dlen, b_off = 0, b_dict = d, b_rep = False\<rparr>)"

text \<open>
  The hash chains: \<open>prev\<close> is the position in a chain cell. The length of a match is bounded
  by what the token for its offset can hold (\<open>max_len_short\<close>, \<open>max_len_long\<close>).
\<close>

definition lz_max_len :: "nat \<Rightarrow> nat \<Rightarrow> nat" where
  "lz_max_len remaining off =
     (let max_len_short = (if PC_MATCH_MAX < remaining then PC_MATCH_MAX else remaining);
          max_len_long = (if PC_LONG_MATCH_MAX < remaining then PC_LONG_MATCH_MAX else remaining) in
      if off \<le> PC_OFFSET_SHORT_MAX then max_len_short else max_len_long)"

definition lz_cost :: "nat \<Rightarrow> int" where
  "lz_cost off = (if off \<le> PC_OFFSET_SHORT_MAX then 2 else 3)"

text \<open>When a candidate replaces the best one so far.\<close>

definition lz_better :: "best \<Rightarrow> int \<Rightarrow> nat \<Rightarrow> nat \<Rightarrow> bool" where
  "lz_better b s len off \<longleftrightarrow>
     b_savings b < s
     \<or> s = b_savings b \<and> b_len b < len
     \<or> s = b_savings b \<and> len = b_len b \<and> off < b_off b
     \<or> s = b_savings b - 1 \<and> b_len b + 2 \<le> len"

definition lz_body :: "byte list \<Rightarrow> nat \<Rightarrow> nat \<Rightarrow> int \<Rightarrow> best \<Rightarrow> best option" where
  "lz_body vbuf vpos remaining = (\<lambda>prev b.
     if prev < 0 then None
     else if vpos \<le> nat prev then None
     else
       let prev_pos = nat prev; off = vpos - prev_pos in
       if off = 0 \<or> PC_OFFSET_LONG_MAX < off then None
       else if vbuf ! prev_pos \<noteq> vbuf ! vpos then None
       else
         let len = pc_match_len vbuf prev_pos vpos (lz_max_len remaining off) in
         if len < PC_MATCH_MIN then None
         else
           let s = int len - lz_cost off in
           if lz_better b s len off
           then Some \<lparr>b_savings = s, b_len = len, b_off = off, b_dict = UINT16_MAX, b_rep = False\<rparr>
           else None)"

definition pc_find_best :: "byte list \<Rightarrow> nat \<Rightarrow> nat \<Rightarrow> head_table \<Rightarrow> nat list \<Rightarrow> nat \<Rightarrow> bool \<Rightarrow> best" where
  "pc_find_best vbuf vbuf_len vpos head rep_offsets good_match skip_dict =
     (let remaining = cast16 (vbuf_len - vpos);
          (b1, ret1) = (if PC_MATCH_MIN \<le> remaining
             then scan_best (rep_body vbuf vpos remaining) good_match
                    (zip [0..<PC_REPEAT_CACHE_SIZE] rep_offsets) best_none
             else (best_none, False)) in
      if ret1 then b1 else
      let (b2, ret2) = (if \<not> skip_dict
             then scan_best (dict_body vbuf vpos remaining) good_match
                    (zip [0..<PC_DICT_COUNT] pc_static_dict) b1
             else (b1, False)) in
      if ret2 then b2 else
      if 3 \<le> remaining
        then fst (scan_best (lz_body vbuf vpos remaining) good_match
               (map (\<lambda>d. head d (pc_hash3 vbuf vpos)) [0..<PC_HASH_CHAIN_DEPTH]) b2)
        else b2)"

text \<open>
  What the encoder relies on. A candidate with positive savings names bytes that are equal
  to the ones at the position; a dictionary candidate is the entry's own bytes; a repeat
  candidate uses the first cache slot and a length its token can hold.
\<close>

definition copy_ok :: "byte list \<Rightarrow> nat \<Rightarrow> nat \<Rightarrow> nat \<Rightarrow> bool" where
  "copy_ok vbuf vpos off len \<longleftrightarrow>
     0 < off \<and> off \<le> vpos \<and> vpos + len \<le> length vbuf \<and>
     (\<forall>j<len. vbuf ! (vpos - off + j) = vbuf ! (vpos + j))"

definition best_ok :: "byte list \<Rightarrow> nat \<Rightarrow> nat list \<Rightarrow> best \<Rightarrow> bool" where
  "best_ok vbuf vpos reps b \<longleftrightarrow> 0 < b_savings b \<longrightarrow>
     2 \<le> b_len b \<and> b_len b \<le> 33 \<and> vpos + b_len b \<le> length vbuf \<and>
     (if b_dict b = UINT16_MAX
      then copy_ok vbuf vpos (b_off b) (b_len b) \<and>
           (b_rep b \<longrightarrow> b_len b \<le> 17 \<and> reps \<noteq> [] \<and> b_off b = reps ! 0)
      else \<not> b_rep b \<and> b_dict b < 96 \<and> b_len b = de_len (pc_static_dict ! b_dict b) \<and>
           segment vpos (b_len b) vbuf = de_data (pc_static_dict ! b_dict b))"

lemma best_ok_none [simp]: "best_ok vbuf vpos reps best_none"
  by (simp add: best_ok_def best_none_def)

lemma copy_ok_match_len:
  assumes "off \<noteq> 0" and "off \<le> vpos" and "vpos + limit \<le> length vbuf"
  shows "copy_ok vbuf vpos off (pc_match_len vbuf (vpos - off) vpos limit)"
  using assms pc_match_len_le [of vbuf "vpos - off" vpos limit]
    pc_match_len_eq [of _ vbuf "vpos - off" vpos limit]
  by (simp add: copy_ok_def)

lemma scan_best_ok:
  assumes "P b" and "\<And>c b b'. c \<in> set cs \<Longrightarrow> body c b = Some b' \<Longrightarrow> P b'"
  shows "P (fst (scan_best body good cs b))"
  using assms
proof (induction cs arbitrary: b)
  case (Cons c cs)
  then show ?case by (cases "body c b") auto
qed simp

lemma rep_body_ok:
  assumes "rep_body vbuf vpos remaining (d, off) b = Some b'" and "vpos + remaining \<le> length vbuf"
    and "d < length reps" and "off = reps ! d"
  shows "best_ok vbuf vpos reps b'"
proof -
  let ?max = "if PC_MATCH_MAX < remaining then PC_MATCH_MAX else remaining"
  let ?len = "pc_match_len vbuf (vpos - off) vpos ?max"
  from assms(1) have "off \<noteq> 0" "off \<le> vpos" "PC_MATCH_MIN \<le> ?len" and
    b': "b_len b' = ?len" "b_off b' = off" "b_dict b' = UINT16_MAX" "b_rep b' = (d = 0 \<and> ?len \<le> 17)"
    by (auto simp: rep_body_def Let_def not_less not_le split: if_splits)
  moreover have "?len \<le> ?max" by (rule pc_match_len_le)
  moreover have max: "vpos + ?max \<le> length vbuf" "?max \<le> 33" using assms(2) by (auto simp: pc_consts)
  moreover have "copy_ok vbuf vpos off ?len"
    by (rule copy_ok_match_len) (use \<open>off \<noteq> 0\<close> \<open>off \<le> vpos\<close> max in auto)
  ultimately show ?thesis using assms(3,4) by (auto simp: best_ok_def pc_consts simp del: if_split)
qed

lemma dict_body_ok:
  assumes "dict_body vbuf vpos remaining (d, e) b = Some b'" and "vpos + remaining \<le> length vbuf"
    and "d < 96" and "e = pc_static_dict ! d"
  shows "best_ok vbuf vpos reps b'"
  using assms de_len_bounds [OF assms(3)]
  by (auto simp: dict_body_def best_ok_def UINT16_MAX_def Let_def split: if_splits)

lemma lz_body_ok:
  assumes "lz_body vbuf vpos remaining prev b = Some b'" and "vpos + remaining \<le> length vbuf"
  shows "best_ok vbuf vpos reps b'"
proof -
  let ?off = "vpos - nat prev"
  let ?max = "lz_max_len remaining ?off"
  let ?len = "pc_match_len vbuf (nat prev) vpos ?max"
  from assms(1) have "nat prev < vpos" and "PC_MATCH_MIN \<le> ?len" and
    b': "b_len b' = ?len" "b_off b' = ?off" "b_dict b' = UINT16_MAX" "\<not> b_rep b'"
    by (auto simp: lz_body_def Let_def not_less not_le split: if_splits)
  moreover have "?len \<le> ?max" by (rule pc_match_len_le)
  moreover have "vpos + ?max \<le> length vbuf" "?max \<le> 33"
    using assms(2) by (auto simp: lz_max_len_def pc_consts)
  moreover have "copy_ok vbuf vpos ?off ?len"
    using copy_ok_match_len [of ?off vpos ?max vbuf] calculation by simp
  ultimately show ?thesis by (simp add: best_ok_def pc_consts del: if_split)
qed

text \<open>
  A property of candidates that every loop body establishes holds of the result of the search.
\<close>

lemma mem_zip_upt: "(d, x) \<in> set (zip [0..<n] xs) \<Longrightarrow> d < n \<and> d < length xs \<and> x = xs ! d"
  by (auto simp: set_zip)

lemma pc_find_best_induct:
  fixes P :: "best \<Rightarrow> bool"
  assumes none: "P best_none"
    and rep_step: "\<And>d b b'. d < length reps \<Longrightarrow>
      rep_body vbuf vpos (cast16 (vbuf_len - vpos)) (d, reps ! d) b = Some b' \<Longrightarrow> P b'"
    and dict_step: "\<And>d b b'. d < 96 \<Longrightarrow>
      dict_body vbuf vpos (cast16 (vbuf_len - vpos)) (d, pc_static_dict ! d) b = Some b' \<Longrightarrow> P b'"
    and lz_step: "\<And>prev b b'. lz_body vbuf vpos (cast16 (vbuf_len - vpos)) prev b = Some b' \<Longrightarrow> P b'"
  shows "P (pc_find_best vbuf vbuf_len vpos head reps good skip)"
proof -
  let ?rem = "cast16 (vbuf_len - vpos)"
  have rep: "P (fst (scan_best (rep_body vbuf vpos ?rem) good (zip [0..<PC_REPEAT_CACHE_SIZE] reps) best_none))"
  proof (rule scan_best_ok)
    fix c b b'
    assume "c \<in> set (zip [0..<PC_REPEAT_CACHE_SIZE] reps)" and "rep_body vbuf vpos ?rem c b = Some b'"
    then show "P b'" using rep_step mem_zip_upt by (metis surj_pair)
  qed (rule none)
  have dict: "P (fst (scan_best (dict_body vbuf vpos ?rem) good (zip [0..<PC_DICT_COUNT] pc_static_dict) b))"
    if "P b" for b
  proof (rule scan_best_ok)
    fix c b b'
    assume "c \<in> set (zip [0..<PC_DICT_COUNT] pc_static_dict)" and "dict_body vbuf vpos ?rem c b = Some b'"
    then show "P b'" using dict_step mem_zip_upt length_pc_static_dict by (metis surj_pair)
  qed (rule that)
  have lz: "P (fst (scan_best (lz_body vbuf vpos ?rem) good ps b))" if "P b" for b ps
    using that lz_step by (rule scan_best_ok)
  let ?b1 = "fst (if PC_MATCH_MIN \<le> ?rem
    then scan_best (rep_body vbuf vpos ?rem) good (zip [0..<PC_REPEAT_CACHE_SIZE] reps) best_none
    else (best_none, False))"
  let ?b2 = "fst (if \<not> skip
    then scan_best (dict_body vbuf vpos ?rem) good (zip [0..<PC_DICT_COUNT] pc_static_dict) ?b1
    else (?b1, False))"
  have b1: "P ?b1" using rep none by simp
  have b2: "P ?b2" using dict [OF b1] b1 by simp
  show ?thesis
    unfolding pc_find_best_def Let_def case_prod_beta
    using b1 b2 lz [OF b2] by simp
qed

lemma pc_find_best_ok:
  assumes "vpos \<le> vbuf_len" and "vbuf_len \<le> length vbuf"
  shows "best_ok vbuf vpos reps (pc_find_best vbuf vbuf_len vpos head reps good skip)"
proof -
  have rem: "vpos + cast16 (vbuf_len - vpos) \<le> length vbuf"
    using assms cast16_le [of "vbuf_len - vpos"] by linarith
  show ?thesis
    by (rule pc_find_best_induct)
      (auto intro: rep_body_ok [OF _ rem] dict_body_ok [OF _ rem] lz_body_ok [OF _ rem])
qed

lemma rep_body_len: "rep_body vbuf vpos r c b = Some b' \<Longrightarrow> 2 \<le> b_len b'"
  by (auto simp: rep_body_def Let_def pc_consts split: if_splits prod.splits)

lemma dict_body_len:
  "dict_body vbuf vpos r (d, pc_static_dict ! d) b = Some b' \<Longrightarrow> d < 96 \<Longrightarrow> 2 \<le> b_len b'"
  using de_len_bounds(2) [of d] by (auto simp: dict_body_def Let_def split: if_splits)

lemma lz_body_len: "lz_body vbuf vpos r c b = Some b' \<Longrightarrow> 2 \<le> b_len b'"
  unfolding lz_body_def Let_def by (auto simp: PC_MATCH_MIN_def split: if_split_asm)

lemma pc_find_best_len:
  "b_savings (pc_find_best vbuf n vpos head reps good skip) \<le> 0 \<or>
   2 \<le> b_len (pc_find_best vbuf n vpos head reps good skip)"
  by (rule pc_find_best_induct [where P = "\<lambda>b. b_savings b \<le> 0 \<or> 2 \<le> b_len b"])
    (simp add: best_none_def, blast dest: rep_body_len dict_body_len lz_body_len,
     blast dest: rep_body_len dict_body_len lz_body_len, blast dest: lz_body_len)

text \<open>
  C6: the optimised match length. The word-wise loop of \<open>pc_match_len\<close> (four bytes per load,
  the first differing byte found by counting trailing zeros) returns the same length as the
  portable byte loop that the other build compiles, on all inputs.
\<close>

theorem pc_match_len_portable_eq:
  "pc_match_len v a b limit = pc_match_len_portable v a b limit"
  by (simp add: pc_match_len_def pc_match_len_portable_def match_len_words_bytes)

text \<open>
  The match search never lies. A candidate with positive savings is either a true copy: the
  \<open>b_len\<close> bytes at distance \<open>b_off\<close>, which lies inside the data already seen, equal the bytes
  at the position; or a dictionary entry whose bytes stand at the position. Its length fits
  the token formats.
\<close>

theorem pc_find_best_sound:
  assumes "vpos \<le> n" and "n \<le> length vbuf"
    and "pc_find_best vbuf n vpos head reps good skip = b" and "0 < b_savings b"
  shows "2 \<le> b_len b \<and> b_len b \<le> PC_MATCH_MAX \<and> (if b_dict b = UINT16_MAX
    then 0 < b_off b \<and> b_off b \<le> vpos \<and> (\<forall>j<b_len b. vbuf ! (vpos - b_off b + j) = vbuf ! (vpos + j))
    else b_dict b < PC_DICT_COUNT \<and> segment vpos (b_len b) vbuf = de_data (pc_static_dict ! b_dict b))"
  using pc_find_best_ok [OF assms(1,2), of reps head good skip] assms(3,4)
  by (auto simp: best_ok_def copy_ok_def PC_DICT_COUNT_def PC_MATCH_MAX_def split: if_splits)

theorem pc_find_best_sound_witness:
  "0 < b_savings (pc_find_best [7, 7, 7, 8, 7, 7, 7, 8] 8 4 (pc_head_insert head_init (pc_hash3 [7, 7, 7, 8, 7, 7, 7, 8] 0) 0) [0, 0, 0] 8 True)
   \<and> 2 \<le> b_len (pc_find_best [7, 7, 7, 8, 7, 7, 7, 8] 8 4 (pc_head_insert head_init (pc_hash3 [7, 7, 7, 8, 7, 7, 7, 8] 0) 0) [0, 0, 0] 8 True)
   \<and> [7, 7, 7, 8, 7, 7, 7, 8 :: byte] ! (4 - 4 + 3) = [7, 7, 7, 8, 7, 7, 7, 8] ! (4 + 3)"
proof -
  let ?v = "[7, 7, 7, 8, 7, 7, 7, 8 :: byte]"
  have b: "pc_find_best ?v 8 4 (pc_head_insert head_init (pc_hash3 ?v 0) 0) [0, 0, 0] 8 True
    = \<lparr>b_savings = 2, b_len = 4, b_off = 4, b_dict = 65535, b_rep = False\<rparr>" by code_simp
  from pc_find_best_sound [OF _ _ b] show ?thesis unfolding b by (simp add: UINT16_MAX_def)
qed

end
