(* ===== verification/PicoEncode.thy ===== *)
theory PicoEncode
  imports PicoMatch
begin

text \<open>
  The block encoder of \<open>lib/picocompress/picocompress.c\<close>: \<open>pc_emit_literals\<close> and
  \<open>pc_compress_block\<close>. The output buffer with its counter \<open>op\<close> is the list of the bytes
  written; \<open>None\<close> stands for the failure returns (0 of \<open>pc_emit_literals\<close>, \<open>UINT16_MAX\<close> of
  \<open>pc_compress_block\<close>) when the output capacity is exceeded.

  One round of the main loop is \<open>block_step\<close>; the \<open>goto retry_pos\<close> of the lazy match goes to
  the next round at the later position (its loop condition holds there by the lazy match's
  own guard). The loop ends because every round moves to a later position
  (\<open>block_step_progress\<close>).
\<close>

subsection \<open>Literals\<close>

function pc_emit_literals :: "byte list \<Rightarrow> nat \<Rightarrow> byte list \<Rightarrow> byte list option" where
  "pc_emit_literals src dst_cap out =
     (if src = [] then Some out
      else
        let chunk = (if PC_LITERAL_MAX < length src then PC_LITERAL_MAX else length src) in
        if dst_cap < length out + 1 + chunk then None
        else pc_emit_literals (drop chunk src) dst_cap
               (out @ [word_of_nat (chunk - 1)] @ take chunk src))"
  by pat_completeness auto
termination
  by (relation "measure (\<lambda>(src, cap, out). length src)") (auto simp: PC_LITERAL_MAX_def)

declare pc_emit_literals.simps [simp del]

subsection \<open>Preparing the hash table and the dictionary switch\<close>

definition insert_at :: "byte list \<Rightarrow> nat \<Rightarrow> head_table \<Rightarrow> head_table" where
  "insert_at vbuf p head = pc_head_insert head (pc_hash3 vbuf p) (cast_s16 p)"

text \<open>Positions near the block boundary are put back into slot 0, keeping the last slot.\<close>

definition reinject_at :: "byte list \<Rightarrow> nat \<Rightarrow> head_table \<Rightarrow> head_table" where
  "reinject_at vbuf p head =
     (let h = pc_hash3 vbuf p in
      if head 0 h \<noteq> cast_s16 p then
        let save = head (PC_HASH_CHAIN_DEPTH - 1) h in
        head_set (pc_head_insert head h (cast_s16 p)) (PC_HASH_CHAIN_DEPTH - 1) h save
      else head)"

definition seed_history :: "byte list \<Rightarrow> nat \<Rightarrow> head_table" where
  "seed_history vbuf hist_len =
     (if 3 \<le> hist_len then
        let head = fold (insert_at vbuf) [0..<hist_len - 2] head_init;
            tail_start = (if 64 < hist_len then hist_len - 64 else 0) in
        fold (reinject_at vbuf) [tail_start..<hist_len - 2] head
      else head_init)"

definition dict_skip :: "byte list \<Rightarrow> nat \<Rightarrow> nat \<Rightarrow> bool" where
  "dict_skip vbuf hist_len block_len =
     (if 1 \<le> block_len then
        let b0 = vbuf ! hist_len in
        if b0 = 0x7B \<or> b0 = 0x5B \<or> b0 = 0x3C \<or> b0 = 0xEF then False
        else
          let check_len = (if block_len < 4 then block_len else 4) in
          list_ex (\<lambda>ci. vbuf ! (hist_len + ci) < 0x20 \<or> 0x7E < vbuf ! (hist_len + ci)) [0..<check_len]
      else False)"

subsection \<open>Tokens\<close>

text \<open>
  The token for a candidate, with the match length it stands for (a long-offset token holds
  at most \<open>PC_LONG_MATCH_MAX\<close> bytes).
\<close>

definition dict_token :: "nat \<Rightarrow> byte" where
  "dict_token d =
     (if d < 64 then word_of_nat (0x40 OR (d AND 0x3F))
      else if d < 80 then word_of_nat (0xE0 OR ((d - 64) AND 0x0F))
      else word_of_nat (0xD0 OR ((d - 80) AND 0x0F)))"

definition rep_token :: "nat \<Rightarrow> byte" where
  "rep_token len = word_of_nat (0xC0 OR ((len - PC_MATCH_MIN) AND 0x0F))"

definition short_token :: "nat \<Rightarrow> nat \<Rightarrow> byte list" where
  "short_token len off =
     [word_of_nat (0x80 OR push_bit 1 ((len - PC_MATCH_MIN) AND 0x1F) OR (drop_bit 8 off AND 0x01)),
      word_of_nat (off AND 0xFF)]"

definition long_token :: "nat \<Rightarrow> nat \<Rightarrow> byte list" where
  "long_token elen off =
     [word_of_nat (0xF0 OR ((elen - PC_LONG_MATCH_MIN) AND 0x0F)),
      word_of_nat (drop_bit 8 off AND 0xFF), word_of_nat (off AND 0xFF)]"

definition emit_token :: "best \<Rightarrow> nat \<Rightarrow> byte list \<Rightarrow> (byte list \<times> nat) option" where
  "emit_token b out_cap out =
     (if b_dict b \<noteq> UINT16_MAX then
        (if out_cap < length out + 1 then None else Some (out @ [dict_token (b_dict b)], b_len b))
      else if b_rep b then
        (if out_cap < length out + 1 then None else Some (out @ [rep_token (b_len b)], b_len b))
      else if b_off b \<le> PC_OFFSET_SHORT_MAX \<and> b_len b \<le> PC_MATCH_MAX then
        (if out_cap < length out + 2 then None
         else Some (out @ short_token (b_len b) (b_off b), b_len b))
      else
        let elen = (if PC_LONG_MATCH_MAX < b_len b then PC_LONG_MATCH_MAX else b_len b) in
        if out_cap < length out + 3 then None
        else Some (out @ long_token elen (b_off b), elen))"

subsection \<open>One round of the loop\<close>

record block_state =
  e_head :: head_table
  e_reps :: "nat list"
  e_vpos :: nat
  e_anchor :: nat
  e_out :: "byte list"

datatype block_result = Next block_state | Done block_state | Overflow

text \<open>
  The lazy match: is there, 1 to \<open>PC_LAZY_STEPS\<close> bytes further on, a candidate that saves
  more? Then the loop goes on there.
\<close>

fun lazy_probe ::
  "byte list \<Rightarrow> nat \<Rightarrow> bool \<Rightarrow> head_table \<Rightarrow> nat list \<Rightarrow> nat \<Rightarrow> int \<Rightarrow> nat list \<Rightarrow> (nat \<times> head_table) option" where
  "lazy_probe vbuf vbuf_len skip head reps vpos best_savings [] = None"
| "lazy_probe vbuf vbuf_len skip head reps vpos best_savings (step # steps) =
     (let npos = vpos + step in
      if vbuf_len \<le> npos \<or> vbuf_len - npos < PC_MATCH_MIN then None
      else
        let n = pc_find_best vbuf vbuf_len npos head reps PC_GOOD_MATCH skip in
        if best_savings < b_savings n then
          Some (npos, fold (\<lambda>s hd'. if 3 \<le> vbuf_len - (vpos + s) then insert_at vbuf (vpos + s) hd' else hd')
            [0..<step] head)
        else lazy_probe vbuf vbuf_len skip head reps vpos best_savings steps)"

text \<open>Emitting the pending literals and the token, then moving past the match.\<close>

definition take_match :: "byte list \<Rightarrow> nat \<Rightarrow> nat \<Rightarrow> head_table \<Rightarrow> best \<Rightarrow> block_state \<Rightarrow> block_result" where
  "take_match vbuf vbuf_len out_cap head b st =
     (let vpos = e_vpos st; anchor = e_anchor st in
      case pc_emit_literals (segment anchor (vpos - anchor) vbuf) out_cap (e_out st) of
        None \<Rightarrow> Overflow
      | Some out1 \<Rightarrow>
          (case emit_token b out_cap out1 of
             None \<Rightarrow> Overflow
           | Some (out2, best_len) \<Rightarrow>
               let reps = (if \<not> b_rep b \<and> b_off b \<noteq> 0 \<and> b_dict b = UINT16_MAX
                           then [b_off b, e_reps st ! 0, e_reps st ! 1] else e_reps st);
                   head' = fold (\<lambda>k. insert_at vbuf (vpos + k))
                     (takeWhile (\<lambda>k. cast16 (vpos + k + 2) < vbuf_len) [1..<best_len]) head in
               Next \<lparr>e_head = head', e_reps = reps, e_vpos = vpos + best_len,
                     e_anchor = vpos + best_len, e_out = out2\<rparr>))"

definition block_step :: "byte list \<Rightarrow> nat \<Rightarrow> nat \<Rightarrow> bool \<Rightarrow> block_state \<Rightarrow> block_result" where
  "block_step vbuf vbuf_len out_cap skip st =
     (let vpos = e_vpos st in
      if \<not> vpos < vbuf_len then Done st
      else if cast16 (vbuf_len - vpos) < PC_MATCH_MIN then Done st
      else
        let b = pc_find_best vbuf vbuf_len vpos (e_head st) (e_reps st) PC_GOOD_MATCH skip;
            head = (if 3 \<le> cast16 (vbuf_len - vpos) then insert_at vbuf vpos (e_head st) else e_head st);
            best_savings = (if b_savings b \<le> 1 \<and> b_dict b = UINT16_MAX \<and> e_anchor st < vpos
                            then 0 else b_savings b) in
        case (if 0 < best_savings \<and> b_len b < PC_GOOD_MATCH
              then lazy_probe vbuf vbuf_len skip head (e_reps st) vpos best_savings [1..<PC_LAZY_STEPS + 1]
              else None) of
          Some (npos, head') \<Rightarrow> Next (st\<lparr>e_head := head', e_vpos := npos\<rparr>)
        | None \<Rightarrow>
            if 0 < best_savings then take_match vbuf vbuf_len out_cap head b st
            else Next (st\<lparr>e_head := head, e_vpos := vpos + 1\<rparr>))"

subsection \<open>Progress\<close>

lemma emit_token_len:
  "emit_token b cap out = Some (out2, n) \<Longrightarrow> 2 \<le> b_len b \<Longrightarrow> 2 \<le> n"
  by (auto simp: emit_token_def Let_def pc_consts split: if_splits)

lemma lazy_probe_pos:
  "lazy_probe vbuf n skip head reps vpos s steps = Some (npos, head') \<Longrightarrow> 0 \<notin> set steps \<Longrightarrow>
   vpos < npos \<and> npos < n"
  by (induction vbuf n skip head reps vpos s steps rule: lazy_probe.induct)
    (auto simp: Let_def split: if_splits)

text \<open>The three ways a round goes on: a lazy match, a match, or one more literal.\<close>

lemma block_step_Next_cases:
  assumes "block_step vbuf n cap skip st = Next st'"
  defines "b \<equiv> pc_find_best vbuf n (e_vpos st) (e_head st) (e_reps st) PC_GOOD_MATCH skip"
  obtains (lazy) head npos where "st' = st\<lparr>e_head := head, e_vpos := npos\<rparr>" "e_vpos st < npos" "npos < n"
  | (match) head where "take_match vbuf n cap head b st = Next st'" "0 < b_savings b" "e_vpos st < n"
  | (literal) head where "st' = st\<lparr>e_head := head, e_vpos := e_vpos st + 1\<rparr>" "e_vpos st < n"
proof -
  define head where "head = (if 3 \<le> cast16 (n - e_vpos st) then insert_at vbuf (e_vpos st) (e_head st) else e_head st)"
  define sav where "sav = (if b_savings b \<le> 1 \<and> b_dict b = UINT16_MAX \<and> e_anchor st < e_vpos st
    then 0 else b_savings b)"
  define lz where "lz = (if 0 < sav \<and> b_len b < PC_GOOD_MATCH
    then lazy_probe vbuf n skip head (e_reps st) (e_vpos st) sav [1..<PC_LAZY_STEPS + 1] else None)"
  have v: "e_vpos st < n" using assms(1) by (auto simp: block_step_def Let_def split: if_splits)
  have step: "(case lz of Some (npos, head') \<Rightarrow> Next (st\<lparr>e_head := head', e_vpos := npos\<rparr>)
      | None \<Rightarrow> if 0 < sav then take_match vbuf n cap head b st
          else Next (st\<lparr>e_head := head, e_vpos := e_vpos st + 1\<rparr>)) = Next st'"
    using assms(1) v unfolding block_step_def Let_def b_def [symmetric] head_def [symmetric]
      sav_def [symmetric] lz_def [symmetric] by (simp split: if_split_asm)
  show thesis
  proof (cases lz)
    case None
    with step v show thesis
      by (cases "0 < sav") (auto simp: sav_def intro: match literal split: if_split_asm)
  next
    case (Some r)
    obtain npos head' where r: "r = (npos, head')" by (cases r)
    with Some have "lazy_probe vbuf n skip head (e_reps st) (e_vpos st) sav [1..<PC_LAZY_STEPS + 1]
        = Some (npos, head')" by (simp add: lz_def split: if_split_asm)
    from lazy_probe_pos [OF this] Some r step show thesis by (auto intro: lazy)
  qed
qed

lemma block_step_progress:
  assumes "block_step vbuf n cap skip st = Next st'"
  shows "e_vpos st < n" and "e_vpos st < e_vpos st'"
proof -
  from assms have "e_vpos st < n \<and> e_vpos st < e_vpos st'"
  proof (cases rule: block_step_Next_cases)
    case (match head)
    then show ?thesis
      using pc_find_best_len [of vbuf n "e_vpos st" "e_head st" "e_reps st" PC_GOOD_MATCH skip]
      by (fastforce simp: take_match_def Let_def dest: emit_token_len split: option.splits)
  qed auto
  then show "e_vpos st < n" "e_vpos st < e_vpos st'" by auto
qed

subsection \<open>The block\<close>

function block_loop :: "byte list \<Rightarrow> nat \<Rightarrow> nat \<Rightarrow> bool \<Rightarrow> block_state \<Rightarrow> block_state option" where
  "block_loop vbuf vbuf_len out_cap skip st =
     (case block_step vbuf vbuf_len out_cap skip st of
        Next st' \<Rightarrow> block_loop vbuf vbuf_len out_cap skip st'
      | Done st' \<Rightarrow> Some st'
      | Overflow \<Rightarrow> None)"
  by pat_completeness auto
termination
proof (relation "measure (\<lambda>(vbuf, n, cap, skip, st). n - e_vpos st)")
  show "((vbuf, n, cap, skip, st'), vbuf, n, cap, skip, st) \<in> measure (\<lambda>(vbuf, n, cap, skip, st). n - e_vpos st)"
    if "block_step vbuf n cap skip st = Next st'" for vbuf n cap skip st st'
    using block_step_progress [OF that] by simp
qed simp

declare block_loop.simps [simp del]

definition pc_compress_block :: "byte list \<Rightarrow> nat \<Rightarrow> nat \<Rightarrow> nat \<Rightarrow> byte list option" where
  "pc_compress_block vbuf hist_len block_len out_cap =
     (let vbuf_len = cast16 (hist_len + block_len) in
      case block_loop vbuf vbuf_len out_cap (dict_skip vbuf hist_len block_len)
             \<lparr>e_head = seed_history vbuf hist_len, e_reps = [0, 0, 0], e_vpos = hist_len,
              e_anchor = hist_len, e_out = []\<rparr> of
        None \<Rightarrow> None
      | Some st \<Rightarrow>
          if e_anchor st < vbuf_len
          then pc_emit_literals (segment (e_anchor st) (vbuf_len - e_anchor st) vbuf) out_cap (e_out st)
          else Some (e_out st))"

end
