(* ===== verification/PicoDecode.thy ===== *)
theory PicoDecode
  imports PicoMatch
begin

text \<open>
  The block decoder of \<open>lib/picocompress/picocompress.c\<close>: \<open>pc_copy_match\<close> and
  \<open>pc_decompress_block\<close>. The input cursor \<open>ip\<close> is the suffix of the input that is not read
  yet, so \<open>ip + n > in_len\<close> is \<open>length rest < n\<close>; the output cursor \<open>op\<close> is the length of the
  output written so far. A result \<open>None\<close> is a read outside of an array; the safety lemma
  \<open>dec_loop_safe\<close> shows that no input bytes lead there.
\<close>

datatype pc_result = PC_OK | PC_ERR_WRITE | PC_ERR_INPUT | PC_ERR_CORRUPT | PC_ERR_OUTPUT_TOO_SMALL

subsection \<open>Copying a match\<close>

text \<open>\<open>out[op++] = out[src + j]\<close>, for \<open>n\<close> bytes.\<close>

fun copy_within :: "nat \<Rightarrow> nat \<Rightarrow> byte list \<Rightarrow> byte list option" where
  "copy_within src 0 out = Some out"
| "copy_within src (Suc n) out =
     (case rd out src of None \<Rightarrow> None | Some b \<Rightarrow> copy_within (src + 1) n (out @ [b]))"

text \<open>The same where the source starts in the history and may run on into the output.\<close>

fun copy_across :: "byte list \<Rightarrow> nat \<Rightarrow> nat \<Rightarrow> byte list \<Rightarrow> byte list option" where
  "copy_across hist src 0 out = Some out"
| "copy_across hist src (Suc n) out =
     (case (if src < length hist then rd hist src else rd out (src - length hist)) of
        None \<Rightarrow> None
      | Some b \<Rightarrow> copy_across hist (src + 1) n (out @ [b]))"

definition pc_copy_match :: "byte list \<Rightarrow> byte list \<Rightarrow> nat \<Rightarrow> nat \<Rightarrow> byte list option" where
  "pc_copy_match hist out off match_len =
     (if off \<le> length out then copy_within (length out - off) match_len out
      else
        let hist_back = off - length out;
            hist_start = cast16 (length hist + 65536 - hist_back) in
        copy_across hist hist_start match_len out)"

subsection \<open>Tokens\<close>

text \<open>
  A token either ends the block with an error, or continues with the rest of the input, the
  longer output and the last explicit offset.
\<close>

type_synonym dec_next = "byte list \<times> byte list \<times> nat"

definition dec_dict :: "nat \<Rightarrow> nat \<Rightarrow> byte list \<Rightarrow> byte list \<Rightarrow> nat \<Rightarrow> (pc_result + dec_next) option" where
  "dec_dict out_len idx rest out last_offset =
     (if PC_DICT_COUNT \<le> idx then Some (Inl PC_ERR_CORRUPT)
      else
        let dlen = de_len (pc_static_dict ! idx) in
        if out_len < length out + dlen then Some (Inl PC_ERR_CORRUPT)
        else Some (Inr (rest, out @ take dlen (de_data (pc_static_dict ! idx)), last_offset)))"

definition dec_copy :: "byte list \<Rightarrow> nat \<Rightarrow> nat \<Rightarrow> nat \<Rightarrow> byte list \<Rightarrow> byte list \<Rightarrow> (pc_result + dec_next) option" where
  "dec_copy hist out_len off match_len rest out =
     (if off = 0 then Some (Inl PC_ERR_CORRUPT)
      else if cast16 (length out + length hist) < off then Some (Inl PC_ERR_CORRUPT)
      else if out_len < length out + match_len then Some (Inl PC_ERR_CORRUPT)
      else case pc_copy_match hist out off match_len of
             None \<Rightarrow> None
           | Some out' \<Rightarrow> Some (Inr (rest, out', off)))"

definition dec_token ::
  "byte list \<Rightarrow> nat \<Rightarrow> byte \<Rightarrow> byte list \<Rightarrow> byte list \<Rightarrow> nat \<Rightarrow> (pc_result + dec_next) option" where
  "dec_token hist out_len token rest out last_offset =
     (if token < 0x40 then
        let lit_len = unat (token AND 0x3F) + 1 in
        if length rest < lit_len \<or> out_len < length out + lit_len then Some (Inl PC_ERR_CORRUPT)
        else Some (Inr (drop lit_len rest, out @ take lit_len rest, last_offset))
      else if token < 0x80 then
        dec_dict out_len (unat (token AND 0x3F)) rest out last_offset
      else if token < 0xC0 then
        (case rest of
           [] \<Rightarrow> Some (Inl PC_ERR_CORRUPT)
         | b # rest' \<Rightarrow>
             dec_copy hist out_len (unat (push_bit 8 (ucast (token AND 1) :: u16) OR ucast b))
               (unat (drop_bit 1 token AND 0x1F) + PC_MATCH_MIN) rest' out)
      else if token < 0xD0 then
        dec_copy hist out_len last_offset (unat (token AND 0x0F) + PC_MATCH_MIN) rest out
      else if token < 0xE0 then
        dec_dict out_len (80 + unat (token AND 0x0F)) rest out last_offset
      else if token < 0xF0 then
        dec_dict out_len (64 + unat (token AND 0x0F)) rest out last_offset
      else
        (case rest of
           b1 # b0 # rest' \<Rightarrow>
             dec_copy hist out_len (unat (push_bit 8 (ucast b1 :: u16) OR ucast b0))
               (unat (token AND 0x0F) + PC_LONG_MATCH_MIN) rest' out
         | _ \<Rightarrow> Some (Inl PC_ERR_CORRUPT)))"

lemma dec_dict_rest:
  "dec_dict out_len idx rest out l = Some (Inr (rest', out', l')) \<Longrightarrow> rest' = rest"
  by (auto simp: dec_dict_def Let_def split: if_splits)

lemma dec_copy_rest:
  "dec_copy hist out_len off n rest out = Some (Inr (rest', out', l')) \<Longrightarrow> rest' = rest"
  by (auto simp: dec_copy_def split: if_splits option.splits)

lemma dec_token_rest:
  "dec_token hist out_len t rest out l = Some (Inr (rest', out', l')) \<Longrightarrow> length rest' \<le> length rest"
  by (auto simp: dec_token_def Let_def split: if_splits list.splits
      dest!: dec_dict_rest dec_copy_rest)

subsection \<open>The block loop\<close>

function dec_loop ::
  "byte list \<Rightarrow> nat \<Rightarrow> byte list \<Rightarrow> byte list \<Rightarrow> nat \<Rightarrow> (pc_result + byte list) option" where
  "dec_loop hist out_len [] out last_offset =
     (if length out \<noteq> out_len then Some (Inl PC_ERR_CORRUPT) else Some (Inr out))"
| "dec_loop hist out_len (token # rest) out last_offset =
     (case dec_token hist out_len token rest out last_offset of
        None \<Rightarrow> None
      | Some (Inl e) \<Rightarrow> Some (Inl e)
      | Some (Inr (rest', out', last')) \<Rightarrow> dec_loop hist out_len rest' out' last')"
  by pat_completeness auto
termination
  by (relation "measure (\<lambda>(hist, out_len, inp, out, l). length inp)")
    (auto dest!: dec_token_rest)

definition pc_decompress_block :: "byte list \<Rightarrow> byte list \<Rightarrow> nat \<Rightarrow> (pc_result + byte list) option" where
  "pc_decompress_block hist inp out_len = dec_loop hist out_len inp [] 0"

subsection \<open>Copies: in bounds, and what they write\<close>

text \<open>
  Both loops read the history followed by the output, at the distance \<open>off\<close> behind the write
  position. \<open>lz_copy\<close> says so on lists.
\<close>

lemma copy_within_length:
  "copy_within src n out = Some r \<Longrightarrow> length r = length out + n"
  by (induction src n out rule: copy_within.induct) (auto split: option.splits)

lemma copy_across_length:
  "copy_across hist src n out = Some r \<Longrightarrow> length r = length out + n"
  by (induction hist src n out rule: copy_across.induct) (auto split: option.splits if_splits)

lemma copy_within_Some: "src < length out \<or> n = 0 \<Longrightarrow> \<exists>r. copy_within src n out = Some r"
  by (induction src n out rule: copy_within.induct) (auto simp: rd_def)

lemma copy_across_Some:
  "src < length hist + length out \<or> n = 0 \<Longrightarrow> \<exists>r. copy_across hist src n out = Some r"
  by (induction hist src n out rule: copy_across.induct) (auto simp: rd_def split: option.splits)

lemma pc_copy_match_Some:
  assumes "0 < off" and "off \<le> length out + length hist" and "length hist < 65536"
  shows "\<exists>r. pc_copy_match hist out off n = Some r \<and> length r = length out + n"
proof (cases "off \<le> length out")
  case True
  with assms(1) have "length out - off < length out" by linarith
  then obtain r where "copy_within (length out - off) n out = Some r"
    using copy_within_Some [of "length out - off" out n] by blast
  with True show ?thesis by (auto simp: pc_copy_match_def copy_within_length)
next
  case False
  then have "cast16 (length hist + 65536 - (off - length out)) = length hist - (off - length out)"
    using assms by (auto simp: cast16_def mod_if)
  moreover have "length hist - (off - length out) < length hist + length out"
    using False assms by linarith
  ultimately obtain r where
    "copy_across hist (cast16 (length hist + 65536 - (off - length out))) n out = Some r"
    using copy_across_Some by metis
  with False show ?thesis by (auto simp: pc_copy_match_def copy_across_length)
qed

subsection \<open>Memory safety of the decoder\<close>

lemma dec_dict_bound:
  "dec_dict out_len idx rest out l = Some (Inr (rest', out', l')) \<Longrightarrow> length out' \<le> out_len"
  by (auto simp: dec_dict_def PC_DICT_COUNT_def de_len_bounds Let_def split: if_splits)

lemma dec_copy_bound:
  assumes "length hist < 65536" "length out \<le> out_len"
  shows "dec_copy hist out_len off n rest out \<noteq> None \<and>
    (dec_copy hist out_len off n rest out = Some (Inr (rest', out', l')) \<longrightarrow> length out' \<le> out_len)"
proof (cases "off = 0 \<or> cast16 (length out + length hist) < off \<or> out_len < length out + n")
  case True
  then show ?thesis by (auto simp: dec_copy_def)
next
  case False
  then have "0 < off" and "off \<le> cast16 (length out + length hist)" by auto
  then have "0 < off" "off \<le> length out + length hist"
    using cast16_le [of "length out + length hist"] by linarith+
  from pc_copy_match_Some [OF this assms(1), of n] False show ?thesis
    by (auto simp: dec_copy_def)
qed

lemma dec_dict_Some: "dec_dict out_len idx rest out l \<noteq> None"
  by (simp add: dec_dict_def Let_def)

lemma dec_token_safe:
  assumes "length hist < 65536" "length out \<le> out_len"
  shows "dec_token hist out_len t rest out l \<noteq> None"
    and "dec_token hist out_len t rest out l = Some (Inr (rest', out', l')) \<Longrightarrow> length out' \<le> out_len"
proof -
  note copy = dec_copy_bound [OF assms]
  show "dec_token hist out_len t rest out l \<noteq> None"
    using copy dec_dict_Some unfolding dec_token_def Let_def
    by (auto split: list.split simp del: not_None_eq)
  show "length out' \<le> out_len"
    if "dec_token hist out_len t rest out l = Some (Inr (rest', out', l'))"
    using that copy by (auto simp: dec_token_def Let_def split: if_splits list.splits dest: dec_dict_bound)
qed

lemma dec_loop_safe:
  assumes "length hist < 65536" "length out \<le> out_len"
  shows "\<exists>r. dec_loop hist out_len inp out l = Some r \<and> (\<forall>o'. r = Inr o' \<longrightarrow> length o' = out_len)"
  using assms
proof (induction hist out_len inp out l rule: dec_loop.induct)
  case (1 hist out_len out l)
  then show ?case by auto
next
  case (2 hist out_len t rest out l)
  show ?case
  proof (cases "dec_token hist out_len t rest out l")
    case None
    with dec_token_safe(1) [OF "2.prems", of t rest l] show ?thesis by simp
  next
    case (Some res)
    show ?thesis
    proof (cases res)
      case (Inl e)
      with Some show ?thesis by simp
    next
      case (Inr n)
      obtain rest' out' l' where n: "n = (rest', out', l')" by (cases n)
      with Some Inr have tok: "dec_token hist out_len t rest out l = Some (Inr (rest', out', l'))" by simp
      from "2.IH" [OF tok refl refl refl "2.prems"(1) dec_token_safe(2) [OF "2.prems" tok]]
      show ?thesis by (simp add: tok)
    qed
  qed
qed



end
