(* ===== verification/PicoRoundtrip.thy ===== *)
theory PicoRoundtrip
  imports PicoEncode PicoDecode
begin

text \<open>
  What the block encoder writes, the block decoder reads back: first every kind of token,
  then the copies, then the loop of the encoder with the invariant that the decoder, having
  read the output so far, has rebuilt the block up to the anchor and holds the encoder's
  first cached offset as its last offset.
\<close>

lemma list_all_uptD: "list_all P [a..<b] \<Longrightarrow> a \<le> n \<Longrightarrow> n < b \<Longrightarrow> P n"
  by (simp add: list_all_iff)

lemma unat_le16: "unat (le16 b0 b1) = unat b0 + 256 * unat b1"
proof -
  have "unat (le16 b0 b1) = unat b0 OR push_bit 8 (unat b1)"
    by (rule bit_eqI) (auto simp: le16_def bit_simps unsigned_or_eq unsigned_push_bit_eq bit_byte_high dest: bit_imp_le_length)
  also have "\<dots> = unat b0 + push_bit 8 (unat b1)"
    by (rule disjunctive_add_eq_or [symmetric])
      (auto simp: bit_eq_iff bit_simps bit_byte_high dest: bit_imp_le_length)
  finally show ?thesis by (simp add: push_bit_eq_mult)
qed

lemma lit_token_check: "list_all (\<lambda>c. (word_of_nat (c - 1) :: byte) < 0x40 \<and>
    unat ((word_of_nat (c - 1) :: byte) AND 0x3F) + 1 = c) [1..<65]"
  by code_simp

lemma dict_token_check: "list_all (\<lambda>d. let t = dict_token d in
    \<not> t < 0x40 \<and> (if d < 64 then t < 0x80 \<and> unat (t AND 0x3F) = d
      else if d < 80 then \<not> t < 0xE0 \<and> t < 0xF0 \<and> 64 + unat (t AND 0x0F) = d
      else \<not> t < 0xD0 \<and> t < 0xE0 \<and> 80 + unat (t AND 0x0F) = d)) [0..<96]"
  by code_simp

lemma rep_token_check: "list_all (\<lambda>n. \<not> rep_token n < 0xC0 \<and> rep_token n < 0xD0 \<and>
    unat (rep_token n AND 0x0F) + PC_MATCH_MIN = n) [2..<18]"
  by code_simp

lemma short_token_check: "list_all (\<lambda>n. list_all (\<lambda>h.
    let t = (word_of_nat (0x80 OR push_bit 1 ((n - PC_MATCH_MIN) AND 0x1F) OR h) :: byte) in
    \<not> t < 0x80 \<and> t < 0xC0 \<and> t AND 1 = word_of_nat h \<and> unat (drop_bit 1 t AND 0x1F) + PC_MATCH_MIN = n)
    [0, 1]) [2..<34]"
  by code_simp

lemma long_token_check: "list_all (\<lambda>n.
    let t = (word_of_nat (0xF0 OR ((n - PC_LONG_MATCH_MIN) AND 0x0F)) :: byte) in
    \<not> t < 0xF0 \<and> unat (t AND 0x0F) + PC_LONG_MATCH_MIN = n) [2..<18]"
  by code_simp


subsection \<open>Each token is read back\<close>

lemma dec_literal_token:
  assumes "0 < length ls" and "length ls \<le> PC_LITERAL_MAX" and "length out + length ls \<le> out_len"
  shows "dec_token hist out_len (word_of_nat (length ls - 1)) (ls @ rest) out l
    = Some (Inr (rest, out @ ls, l))"
proof -
  have "1 \<le> length ls" "length ls < 65" using assms(1,2) by (auto simp: PC_LITERAL_MAX_def Suc_le_eq)
  note chk = list_all_uptD [OF lit_token_check this]
  define t :: byte where "t = word_of_nat (length ls - 1)"
  from chk have "t < 0x40" "unat (t AND 0x3F) + 1 = length ls" unfolding t_def by blast+
  with assms(3) have "dec_token hist out_len t (ls @ rest) out l = Some (Inr (rest, out @ ls, l))"
    by (simp add: dec_token_def Let_def)
  then show ?thesis unfolding t_def .
qed

lemma dec_dict_ok:
  assumes "d < 96" and "length out + de_len (pc_static_dict ! d) \<le> out_len"
  shows "dec_dict out_len d rest out l = Some (Inr (rest, out @ de_data (pc_static_dict ! d), l))"
  using assms de_len_bounds(1) [OF assms(1)] by (simp add: dec_dict_def PC_DICT_COUNT_def Let_def)

lemma dec_dict_token:
  assumes "d < 96"
  shows "dec_token hist out_len (dict_token d) rest out l = dec_dict out_len d rest out l"
proof -
  have "d \<in> set [0..<96]" using assms by simp
  with dict_token_check have
    "\<not> dict_token d < 0x40 \<and> (if d < 64 then dict_token d < 0x80 \<and> unat (dict_token d AND 0x3F) = d
      else if d < 80 then \<not> dict_token d < 0xE0 \<and> dict_token d < 0xF0 \<and> 64 + unat (dict_token d AND 0x0F) = d
      else \<not> dict_token d < 0xD0 \<and> dict_token d < 0xE0 \<and> 80 + unat (dict_token d AND 0x0F) = d)"
    unfolding list_all_iff Let_def by blast
  moreover have "t < 0xC0 \<Longrightarrow> t < 0xD0" "t < 0xD0 \<Longrightarrow> t < 0xE0" "t < 0x80 \<Longrightarrow> t < 0xC0" for t :: byte
    by unat_arith+
  ultimately show ?thesis
    unfolding dec_token_def Let_def by (auto split: if_splits)
qed

lemma dec_rep_token:
  assumes "2 \<le> n" "n \<le> 17"
  shows "dec_token hist out_len (rep_token n) rest out l = dec_copy hist out_len l n rest out"
proof -
  from list_all_uptD [OF rep_token_check, of n] assms have "\<not> rep_token n < 0xC0 \<and> rep_token n < 0xD0 \<and>
    unat (rep_token n AND 0x0F) + PC_MATCH_MIN = n"
    by simp
  moreover have "t < 0x40 \<Longrightarrow> t < 0xC0" "t < 0x80 \<Longrightarrow> t < 0xC0" for t :: byte
    by unat_arith+
  ultimately show ?thesis unfolding dec_token_def Let_def by auto
qed

lemma unat_byte_and_255: "unat (word_of_nat (n AND 0xFF) :: byte) = n mod 256"
proof -
  have "n AND 0xFF = n mod 256" using take_bit_eq_mask [of 8 n]
    by (simp add: take_bit_eq_mod mask_eq_exp_minus_1)
  then show ?thesis by (simp add: unat_of_nat)
qed

lemma offset_bytes:
  "unat (push_bit 8 (ucast b1 :: u16) OR ucast b0) = 256 * unat b1 + unat b0" for b0 b1 :: byte
  using unat_le16 [of b0 b1] by (simp add: le16_def or.commute)

lemma dec_short_token:
  assumes "2 \<le> n" "n \<le> 33" "off \<le> PC_OFFSET_SHORT_MAX"
  shows "\<exists>t. short_token n off = t # tl (short_token n off) \<and>
    dec_token hist out_len t (tl (short_token n off) @ rest) out l = dec_copy hist out_len off n rest out"
proof -
  let ?h = "drop_bit 8 off AND 1"
  let ?t = "word_of_nat (0x80 OR push_bit 1 ((n - PC_MATCH_MIN) AND 0x1F) OR ?h) :: byte"
  have h: "?h = off div 256" and "?h = 0 \<or> ?h = 1"
    using assms(3) by (auto simp: drop_bit_eq_div and_one_eq PC_OFFSET_SHORT_MAX_def)
  with list_all_uptD [OF short_token_check, of n] assms have t: "\<not> ?t < 0x80 \<and> ?t < 0xC0 \<and> ?t AND 1 = word_of_nat ?h \<and>
      unat (drop_bit 1 ?t AND 0x1F) + PC_MATCH_MIN = n"
    by (auto simp: Let_def)
  have "unat (word_of_nat ?h :: byte) = off div 256"
    using h assms(3) by (simp add: unat_of_nat PC_OFFSET_SHORT_MAX_def)
  then have "unat (push_bit 8 (ucast (?t AND 1) :: u16) OR ucast (word_of_nat (off AND 0xFF) :: byte)) = off"
    using t by (simp add: offset_bytes unat_byte_and_255)
  moreover have "s < 0x40 \<Longrightarrow> s < 0x80" for s :: byte by unat_arith
  ultimately have "dec_token hist out_len ?t ([word_of_nat (off AND 0xFF)] @ rest) out l
      = dec_copy hist out_len off n rest out"
    using t unfolding dec_token_def Let_def by auto
  then show ?thesis by (auto simp: short_token_def)
qed

lemma dec_long_token:
  assumes "2 \<le> n" "n \<le> 17" "off \<le> 65535"
  shows "\<exists>t. long_token n off = t # tl (long_token n off) \<and>
    dec_token hist out_len t (tl (long_token n off) @ rest) out l = dec_copy hist out_len off n rest out"
proof -
  let ?t = "word_of_nat (0xF0 OR ((n - PC_LONG_MATCH_MIN) AND 0x0F)) :: byte"
  from list_all_uptD [OF long_token_check, of n] assms have t: "\<not> ?t < 0xF0 \<and> unat (?t AND 0x0F) + PC_LONG_MATCH_MIN = n"
    by (simp add: Let_def)
  have "unat (push_bit 8 (ucast (word_of_nat (drop_bit 8 off AND 0xFF) :: byte) :: u16)
      OR ucast (word_of_nat (off AND 0xFF) :: byte)) = off"
    using assms(3) by (simp add: offset_bytes unat_byte_and_255 drop_bit_eq_div)
  moreover have "s < 0x40 \<Longrightarrow> s < 0xF0" "s < 0x80 \<Longrightarrow> s < 0xF0" "s < 0xC0 \<Longrightarrow> s < 0xF0"
    "s < 0xD0 \<Longrightarrow> s < 0xF0" "s < 0xE0 \<Longrightarrow> s < 0xF0" for s :: byte by unat_arith+
  ultimately have "dec_token hist out_len ?t
      ([word_of_nat (drop_bit 8 off AND 0xFF), word_of_nat (off AND 0xFF)] @ rest) out l
      = dec_copy hist out_len off n rest out"
    using t unfolding dec_token_def Let_def by auto
  then show ?thesis by (auto simp: long_token_def)
qed

subsection \<open>A copied match is the block's own continuation\<close>

lemma copy_within_take:
  assumes "src < p" "p + n \<le> length blk" "\<forall>j<n. blk ! (src + j) = blk ! (p + j)"
  shows "copy_within src n (take p blk) = Some (take (p + n) blk)"
  using assms
proof (induction n arbitrary: src p)
  case 0
  then show ?case by simp
next
  case (Suc n)
  have "take p blk ! src = blk ! p" using Suc.prems by auto
  moreover have "take p blk @ [blk ! p] = take (Suc p) blk"
    using Suc.prems by (simp add: take_Suc_conv_app_nth)
  moreover have "copy_within (src + 1) n (take (Suc p) blk) = Some (take (Suc p + n) blk)"
    using Suc.prems by (intro Suc.IH) auto
  ultimately show ?case using Suc.prems by (simp add: rd_def)
qed

lemma copy_across_take:
  assumes "src < length hist + p" "p + n \<le> length blk"
    "\<forall>j<n. (hist @ blk) ! (src + j) = blk ! (p + j)"
  shows "copy_across hist src n (take p blk) = Some (take (p + n) blk)"
  using assms
proof (induction n arbitrary: src p)
  case 0
  then show ?case by simp
next
  case (Suc n)
  have "(if src < length hist then rd hist src else rd (take p blk) (src - length hist)) = Some (blk ! p)"
    using Suc.prems spec [OF Suc.prems(3), of 0] by (auto simp: rd_def nth_append)
  moreover have "take p blk @ [blk ! p] = take (Suc p) blk"
    using Suc.prems by (simp add: take_Suc_conv_app_nth)
  moreover have "copy_across hist (src + 1) n (take (Suc p) blk) = Some (take (Suc p + n) blk)"
    using Suc.prems by (intro Suc.IH) auto
  ultimately show ?case by simp
qed

lemma pc_copy_match_take:
  assumes "0 < off" "off \<le> length hist + p" "p + n \<le> length blk" "length hist < 65536"
    "\<forall>j<n. (hist @ blk) ! (length hist + p - off + j) = blk ! (p + j)"
  shows "pc_copy_match hist (take p blk) off n = Some (take (p + n) blk)"
proof (cases "off \<le> p")
  case True
  then have "copy_within (p - off) n (take p blk) = Some (take (p + n) blk)"
  proof (intro copy_within_take allI impI)
    fix j assume "j < n"
    have "length hist + p - off + j = length hist + (p - off + j)" using True by simp
    then show "blk ! (p - off + j) = blk ! (p + j)"
      using assms(5) \<open>j < n\<close> by (metis nth_append_length_plus)
  qed (use True assms in auto)
  with True assms(3) show ?thesis by (simp add: pc_copy_match_def)
next
  case False
  then have "cast16 (length hist + 65536 - (off - p)) = length hist + p - off"
    using assms by (auto simp: cast16_def mod_if)
  moreover have "copy_across hist (length hist + p - off) n (take p blk) = Some (take (p + n) blk)"
    using assms by (intro copy_across_take) auto
  ultimately show ?thesis using False assms(3) by (simp add: pc_copy_match_def)
qed

lemma dec_copy_take:
  assumes "copy_ok (hist @ blk) (length hist + p) off n" "length hist + length blk < 65536"
  shows "dec_copy hist (length blk) off n rest (take p blk) = Some (Inr (rest, take (p + n) blk, off))"
proof -
  from assms(1) have off: "0 < off" "off \<le> length hist + p" and n: "p + n \<le> length blk"
    and eq: "\<forall>j<n. (hist @ blk) ! (length hist + p - off + j) = blk ! (p + j)"
    by (auto simp: copy_ok_def nth_append add.assoc)
  have "pc_copy_match hist (take p blk) off n = Some (take (p + n) blk)"
    using off n eq assms(2) by (intro pc_copy_match_take) auto
  with off n assms(2) show ?thesis by (auto simp: dec_copy_def)
qed

subsection \<open>The encoder's loop\<close>

lemma pc_emit_literals_dec:
  "pc_emit_literals src cap out = Some out' \<Longrightarrow>
   \<exists>enc. out' = out @ enc \<and> length out' \<le> max (length out) cap \<and>
     (\<forall>hist out_len rest o' l. length o' + length src \<le> out_len \<longrightarrow>
        dec_loop hist out_len (enc @ rest) o' l = dec_loop hist out_len rest (o' @ src) l)"
proof (induction src cap out rule: pc_emit_literals.induct)
  case (1 src cap out)
  show ?case
  proof (cases "src = []")
    case True
    with "1.prems" have "out' = out" by (subst (asm) pc_emit_literals.simps) simp
    with True show ?thesis by (intro exI [of _ "[]"]) simp
  next
    case False
    define chunk where "chunk = (if PC_LITERAL_MAX < length src then PC_LITERAL_MAX else length src)"
    define t :: byte where "t = word_of_nat (chunk - 1)"
    have chunk: "0 < chunk" "chunk \<le> PC_LITERAL_MAX" "chunk \<le> length src"
      using False by (auto simp: chunk_def PC_LITERAL_MAX_def)
    from False "1.prems" have cap: "length out + 1 + chunk \<le> cap" and
      rec: "pc_emit_literals (drop chunk src) cap (out @ [t] @ take chunk src) = Some out'"
      unfolding pc_emit_literals.simps [of src cap out] Let_def chunk_def t_def
      by (auto split: if_splits)
    from "1.IH" [OF False chunk_def _ rec [unfolded t_def]] cap obtain enc where
      enc: "out' = (out @ [t] @ take chunk src) @ enc"
      and len: "length out' \<le> max (length out + 1 + chunk) cap" and
      dec: "\<forall>hist out_len rest o' l. length o' + length (drop chunk src) \<le> out_len \<longrightarrow>
        dec_loop hist out_len (enc @ rest) o' l = dec_loop hist out_len rest (o' @ drop chunk src) l"
      using chunk by (auto simp: t_def)
    have "dec_loop hist out_len (([t] @ take chunk src @ enc) @ rest) o' l
        = dec_loop hist out_len rest (o' @ src) l" if "length o' + length src \<le> out_len"
      for hist out_len rest o' l
    proof -
      have "dec_token hist out_len t (take chunk src @ enc @ rest) o' l
          = Some (Inr (enc @ rest, o' @ take chunk src, l))"
        using dec_literal_token [of "take chunk src" o' out_len hist "enc @ rest" l] chunk that
        by (simp add: t_def)
      moreover have "dec_loop hist out_len (enc @ rest) (o' @ take chunk src) l
          = dec_loop hist out_len rest ((o' @ take chunk src) @ drop chunk src) l"
        using dec [rule_format, of "o' @ take chunk src" out_len hist rest l] that chunk by simp
      ultimately show ?thesis by simp
    qed
    with enc len cap show ?thesis by (intro exI [of _ "[t] @ take chunk src @ enc"]) auto
  qed
qed

text \<open>
  A token for a candidate that is good (\<open>best_ok\<close>) at the decoder's position is read back as
  the next bytes of the block, and leaves the new last offset.
\<close>

lemma emit_token_dec:
  assumes ok: "best_ok (hist @ blk) (length hist + p) reps b" and sav: "0 < b_savings b"
    and small: "length hist + length blk < 65536" and reps: "length reps = 3"
    and emit: "emit_token b cap out = Some (out', n)"
  shows "\<exists>enc. out' = out @ enc \<and> length out' \<le> cap \<and> 2 \<le> n \<and> p + n \<le> length blk \<and>
    (\<forall>rest. dec_loop hist (length blk) (enc @ rest) (take p blk) (reps ! 0) =
       dec_loop hist (length blk) rest (take (p + n) blk)
         (if \<not> b_rep b \<and> b_off b \<noteq> 0 \<and> b_dict b = UINT16_MAX then b_off b else reps ! 0))"
proof -
  from ok sav have len: "2 \<le> b_len b" "b_len b \<le> 33" "p + b_len b \<le> length blk"
    by (auto simp: best_ok_def)
  show ?thesis
  proof (cases "b_dict b = UINT16_MAX")
    case False
    with ok sav have d: "b_dict b < 96" and ld: "b_len b = de_len (pc_static_dict ! b_dict b)"
      and data: "segment (length hist + p) (b_len b) (hist @ blk) = de_data (pc_static_dict ! b_dict b)"
      by (auto simp: best_ok_def)
    have data': "take p blk @ de_data (pc_static_dict ! b_dict b) = take (p + b_len b) blk"
      using take_segment_append [OF len(3)] by (simp add: data [symmetric] segment_def)
    from emit False have out': "out' = out @ [dict_token (b_dict b)]" "n = b_len b" "length out' \<le> cap"
      by (auto simp: emit_token_def split: if_splits)
    have "dec_token hist (length blk) (dict_token (b_dict b)) rest (take p blk) (reps ! 0)
        = Some (Inr (rest, take (p + b_len b) blk, reps ! 0))" for rest
      using dec_dict_ok [OF d, of "take p blk" "length blk" rest "reps ! 0"] len ld
      by (simp add: dec_dict_token [OF d] data')
    with out' len False show ?thesis by (intro exI [of _ "[dict_token (b_dict b)]"]) auto
  next
    case True
    with ok sav have copy: "copy_ok (hist @ blk) (length hist + p) (b_off b) (b_len b)"
      and rep: "b_rep b \<longrightarrow> b_len b \<le> 17 \<and> b_off b = reps ! 0"
      by (auto simp: best_ok_def)
    have off: "b_off b \<noteq> 0" "b_off b \<le> 65535" using copy small by (auto simp: copy_ok_def)
    have dec: "dec_copy hist (length blk) (b_off b) k rest (take p blk)
        = Some (Inr (rest, take (p + k) blk, b_off b))" if "k \<le> b_len b" for k rest
      by (rule dec_copy_take) (use copy that small in \<open>auto simp: copy_ok_def\<close>)
    consider (rep) "b_rep b" | (short) "\<not> b_rep b" "b_off b \<le> PC_OFFSET_SHORT_MAX"
      | (long) "\<not> b_rep b" "PC_OFFSET_SHORT_MAX < b_off b" by linarith
    then show ?thesis
    proof cases
      case rep
      with emit True have out': "out' = out @ [rep_token (b_len b)]" "n = b_len b" "length out' \<le> cap"
        by (auto simp: emit_token_def split: if_splits)
      have "dec_token hist (length blk) (rep_token (b_len b)) rest (take p blk) (reps ! 0)
          = Some (Inr (rest, take (p + b_len b) blk, reps ! 0))" for rest
        using dec_rep_token [of "b_len b" hist "length blk" rest "take p blk" "reps ! 0"] rep
          \<open>b_rep b \<longrightarrow> _\<close> len dec [OF order_refl, of rest] by simp
      with out' len rep show ?thesis by (intro exI [of _ "[rep_token (b_len b)]"]) auto
    next
      case short
      with emit True len have out': "out' = out @ short_token (b_len b) (b_off b)" "n = b_len b"
        "length out' \<le> cap"
        by (auto simp: emit_token_def PC_MATCH_MAX_def short_token_def split: if_splits)
      have "dec_loop hist (length blk) (short_token (b_len b) (b_off b) @ rest) (take p blk) (reps ! 0)
          = dec_loop hist (length blk) rest (take (p + b_len b) blk) (b_off b)" for rest
        using dec_short_token [OF len(1,2) short(2), of hist "length blk" rest "take p blk" "reps ! 0"]
          dec [OF order_refl, of rest] by (auto simp: short_token_def)
      with out' len short off True show ?thesis
        by (intro exI [of _ "short_token (b_len b) (b_off b)"]) auto
    next
      case long
      define k where "k = (if PC_LONG_MATCH_MAX < b_len b then PC_LONG_MATCH_MAX else b_len b)"
      have k: "2 \<le> k" "k \<le> 17" "k \<le> b_len b" using len by (auto simp: k_def PC_LONG_MATCH_MAX_def)
      from long emit True have out': "out' = out @ long_token k (b_off b)" "n = k" "length out' \<le> cap"
        by (auto simp: emit_token_def long_token_def k_def Let_def split: if_splits)
      have "dec_loop hist (length blk) (long_token k (b_off b) @ rest) (take p blk) (reps ! 0)
          = dec_loop hist (length blk) rest (take (p + k) blk) (b_off b)" for rest
        using dec_long_token [OF k(1,2) off(2), of hist "length blk" rest "take p blk" "reps ! 0"]
          dec [OF k(3), of rest] by (auto simp: long_token_def)
      with out' len long off True k show ?thesis
        by (intro exI [of _ "long_token k (b_off b)"]) auto
    qed
  qed
qed

definition enc_inv :: "byte list \<Rightarrow> byte list \<Rightarrow> nat \<Rightarrow> block_state \<Rightarrow> bool" where
  "enc_inv hist blk cap st \<longleftrightarrow>
     length hist \<le> e_anchor st \<and> e_anchor st \<le> e_vpos st \<and>
     e_vpos st \<le> length hist + length blk \<and> length (e_reps st) = 3 \<and>
     length (e_out st) \<le> cap \<and>
     (\<forall>rest. dec_loop hist (length blk) (e_out st @ rest) [] 0 =
        dec_loop hist (length blk) rest (take (e_anchor st - length hist) blk) (e_reps st ! 0))"

lemma take_match_inv:
  assumes inv: "enc_inv hist blk cap st" and small: "length hist + length blk < 65536"
    and ok: "best_ok (hist @ blk) (e_vpos st) (e_reps st) b" and sav: "0 < b_savings b"
    and step: "take_match (hist @ blk) n cap head b st = Next st'"
  shows "enc_inv hist blk cap st'"
proof -
  let ?p = "e_vpos st - length hist" and ?a = "e_anchor st - length hist"
  note inv' = inv [unfolded enc_inv_def]
  let ?lits = "segment (e_anchor st) (e_vpos st - e_anchor st) (hist @ blk)"
  from step obtain out1 out2 m where
    lits: "pc_emit_literals ?lits cap (e_out st) = Some out1"
    and tok: "emit_token b cap out1 = Some (out2, m)"
    and st': "e_vpos st' = e_vpos st + m" "e_anchor st' = e_vpos st + m" "e_out st' = out2"
      "e_reps st' = (if \<not> b_rep b \<and> b_off b \<noteq> 0 \<and> b_dict b = UINT16_MAX
        then [b_off b, e_reps st ! 0, e_reps st ! 1] else e_reps st)"
    by (auto simp: take_match_def Let_def split: option.splits)
  have lits_blk: "?lits = segment ?a (?p - ?a) blk" "take ?a blk @ segment ?a (?p - ?a) blk = take ?p blk"
    using inv' take_segment_append_le [of ?a ?p blk] by (auto simp: segment_def)
  from pc_emit_literals_dec [OF lits] obtain e1 where e1: "out1 = e_out st @ e1"
    and d1: "\<forall>hist out_len rest o' l. length o' + length ?lits \<le> out_len \<longrightarrow>
        dec_loop hist out_len (e1 @ rest) o' l = dec_loop hist out_len rest (o' @ ?lits) l"
    by blast
  have ok': "best_ok (hist @ blk) (length hist + ?p) (e_reps st) b" using ok inv' by simp
  have reps: "length (e_reps st) = 3" using inv' by blast
  from emit_token_dec [OF ok' sav small reps tok] obtain e2 where
    e2: "out2 = out1 @ e2" "length out2 \<le> cap" and m: "2 \<le> m" "?p + m \<le> length blk" and
    d2: "\<And>rest. dec_loop hist (length blk) (e2 @ rest) (take ?p blk) (e_reps st ! 0) =
       dec_loop hist (length blk) rest (take (?p + m) blk)
         (if \<not> b_rep b \<and> b_off b \<noteq> 0 \<and> b_dict b = UINT16_MAX then b_off b else e_reps st ! 0)"
    by blast
  have "dec_loop hist (length blk) (e_out st' @ rest) [] 0 =
      dec_loop hist (length blk) rest (take (?p + m) blk) (e_reps st' ! 0)" for rest
  proof -
    have "dec_loop hist (length blk) (e_out st' @ rest) [] 0
        = dec_loop hist (length blk) (e1 @ e2 @ rest) (take ?a blk) (e_reps st ! 0)"
      using inv' by (simp add: st'(3) e1 e2)
    also have "\<dots> = dec_loop hist (length blk) (e2 @ rest) (take ?a blk @ ?lits) (e_reps st ! 0)"
      by (rule d1 [rule_format]) (use inv' in auto)
    also have "\<dots> = dec_loop hist (length blk) rest (take (?p + m) blk)
         (if \<not> b_rep b \<and> b_off b \<noteq> 0 \<and> b_dict b = UINT16_MAX then b_off b else e_reps st ! 0)"
      using d2 by (simp only: lits_blk)
    also have "(if \<not> b_rep b \<and> b_off b \<noteq> 0 \<and> b_dict b = UINT16_MAX then b_off b else e_reps st ! 0)
        = e_reps st' ! 0" by (simp add: st')
    finally show ?thesis .
  qed
  moreover have "e_vpos st + m - length hist = ?p + m" using inv' by simp
  ultimately have "\<forall>rest. dec_loop hist (length blk) (e_out st' @ rest) [] 0 =
      dec_loop hist (length blk) rest (take (e_anchor st' - length hist) blk) (e_reps st' ! 0)"
    by (simp only: st'(2)) blast
  moreover have "length hist \<le> e_anchor st'" "e_anchor st' \<le> e_vpos st'"
    "e_vpos st' \<le> length hist + length blk" "length (e_reps st') = 3" "length (e_out st') \<le> cap"
    using inv' m e2(2) by (simp_all add: st')
  ultimately show ?thesis unfolding enc_inv_def by blast
qed

lemma take_match_not_Done: "take_match v n cap head b st \<noteq> Done st'"
  by (simp add: take_match_def Let_def split: option.split)

lemma block_step_Done: "block_step v n cap skip st = Done st' \<Longrightarrow> st' = st"
  unfolding block_step_def Let_def
  by (simp add: take_match_not_Done split: if_split_asm option.split_asm prod.split_asm)

lemma block_step_inv:
  assumes inv: "enc_inv hist blk cap st" and small: "length hist + length blk < 65536"
  shows "block_step (hist @ blk) (length hist + length blk) cap skip st = Next st' \<Longrightarrow> enc_inv hist blk cap st'"
    and "block_step (hist @ blk) (length hist + length blk) cap skip st = Done st' \<Longrightarrow> st' = st"
proof -
  let ?n = "length hist + length blk" and ?v = "hist @ blk"
  let ?b = "pc_find_best ?v ?n (e_vpos st) (e_head st) (e_reps st) PC_GOOD_MATCH skip"
  have ok: "best_ok ?v (e_vpos st) (e_reps st) ?b"
    using inv by (intro pc_find_best_ok) (auto simp: enc_inv_def)
  have take: "enc_inv hist blk cap st'"
    if "take_match ?v ?n cap h ?b st = Next st'" "0 < b_savings ?b" for h
    using take_match_inv [OF inv small ok that(2,1)] .
  show "enc_inv hist blk cap st'" if "block_step ?v ?n cap skip st = Next st'"
    using that
  proof (cases rule: block_step_Next_cases)
    case (match head)
    then show ?thesis using take by blast
  qed (use inv in \<open>auto simp: enc_inv_def\<close>)
  show "st' = st" if "block_step ?v ?n cap skip st = Done st'"
    using that by (rule block_step_Done)
qed

lemma block_loop_inv:
  assumes "enc_inv hist blk cap st" and "length hist + length blk < 65536"
    and "block_loop (hist @ blk) (length hist + length blk) cap skip st = Some st'"
  shows "enc_inv hist blk cap st'"
  using assms
proof (induction "hist @ blk" "length hist + length blk" cap skip st rule: block_loop.induct)
  case (1 cap skip st)
  from "1.prems"(3) block_step_inv [OF "1.prems"(1,2), of skip] "1.hyps" [OF _ _ "1.prems"(2)]
  show ?case
    using "1.prems"(1)
    by (subst (asm) block_loop.simps) (auto split: block_result.splits)
qed

text \<open>Whatever the encoder produces for a block, the decoder turns back into the block.\<close>

lemma pc_compress_block_dec:
  assumes "pc_compress_block (hist @ blk) (length hist) (length blk) cap = Some enc"
    and "length hist + length blk < 65536"
  shows "pc_decompress_block hist enc (length blk) = Some (Inr blk)" and "length enc \<le> cap"
proof -
  let ?st0 = "\<lparr>e_head = seed_history (hist @ blk) (length hist), e_reps = [0, 0, 0],
    e_vpos = length hist, e_anchor = length hist, e_out = []\<rparr>"
  let ?n = "length hist + length blk"
  have "enc_inv hist blk cap ?st0" by (simp add: enc_inv_def)
  from assms obtain st where loop: "block_loop (hist @ blk) ?n cap
      (dict_skip (hist @ blk) (length hist) (length blk)) ?st0 = Some st"
    and fin: "(if e_anchor st < ?n
      then pc_emit_literals (segment (e_anchor st) (?n - e_anchor st) (hist @ blk)) cap (e_out st)
      else Some (e_out st)) = Some enc"
    by (auto simp: pc_compress_block_def Let_def split: option.splits)
  from block_loop_inv [OF \<open>enc_inv hist blk cap ?st0\<close> assms(2) loop]
  have inv: "enc_inv hist blk cap st" .
  note inv' = inv [unfolded enc_inv_def]
  let ?a = "e_anchor st - length hist"
  have "dec_loop hist (length blk) (enc @ []) [] 0 = Some (Inr blk) \<and> length enc \<le> cap"
  proof (cases "e_anchor st < ?n")
    case False
    with fin inv' have "enc = e_out st" "?a = length blk" by auto
    with inv' have "dec_loop hist (length blk) (enc @ []) [] 0
        = dec_loop hist (length blk) [] (take (length blk) blk) (e_reps st ! 0)" by metis
    with inv' \<open>enc = e_out st\<close> show ?thesis by simp
  next
    case True
    have sl: "segment (e_anchor st) (?n - e_anchor st) (hist @ blk) = drop ?a blk"
      using inv' by (simp add: segment_def)
    from True fin have "pc_emit_literals (drop ?a blk) cap (e_out st) = Some enc" by (simp add: sl)
    from pc_emit_literals_dec [OF this] obtain e where e: "enc = e_out st @ e" "length enc \<le> cap"
      and d: "\<forall>hist out_len rest o' l. length o' + length (drop ?a blk) \<le> out_len \<longrightarrow>
        dec_loop hist out_len (e @ rest) o' l = dec_loop hist out_len rest (o' @ drop ?a blk) l"
      using inv' by auto
    have "dec_loop hist (length blk) (enc @ []) [] 0
        = dec_loop hist (length blk) (e @ []) (take ?a blk) (e_reps st ! 0)"
      using inv' by (simp add: e)
    also have "\<dots> = dec_loop hist (length blk) [] (take ?a blk @ drop ?a blk) (e_reps st ! 0)"
      by (rule d [rule_format]) (use inv' True in auto)
    finally show ?thesis using e by simp
  qed
  then show "pc_decompress_block hist enc (length blk) = Some (Inr blk)" "length enc \<le> cap"
    by (simp_all add: pc_decompress_block_def)
qed

text \<open>
  C2: what \<open>pc_compress_block\<close> produces for a block after a history, \<open>pc_decompress_block\<close> with
  the same history turns back into exactly that block, and the encoder respects its capacity.
\<close>

theorem pc_block_roundtrip:
  assumes "pc_compress_block (hist @ blk) (length hist) (length blk) cap = Some enc"
    and "length hist + length blk < 65536"
  shows "pc_decompress_block hist enc (length blk) = Some (Inr blk) \<and> length enc \<le> cap"
  using pc_compress_block_dec [OF assms] by blast

theorem pc_block_roundtrip_witness:
  "pc_compress_block ([7, 7, 7] @ [7, 7, 7]) (length [7, 7, 7 :: byte]) (length [7, 7, 7 :: byte]) 14 = Some [0x82, 3]
   \<and> pc_decompress_block [7, 7, 7] [0x82, 3] (length [7, 7, 7 :: byte]) = Some (Inr [7, 7, 7])"
proof -
  have c: "pc_compress_block ([7, 7, 7] @ [7, 7, 7]) (length [7, 7, 7 :: byte]) (length [7, 7, 7 :: byte]) 14
    = Some [0x82, 3]" by code_simp
  with pc_block_roundtrip [OF c] show ?thesis by simp
qed

end
