(* ===== verification/PicoStream.thy ===== *)
theory PicoStream
  imports PicoRoundtrip
begin

text \<open>
  The streaming interface of \<open>lib/picocompress/picocompress.c\<close>: the history window, the
  encoder that cuts its input into blocks of \<open>PC_BLOCK_SIZE\<close> bytes and writes each as a frame
  (two little-endian lengths, then the payload), the decoder that reassembles frames from
  chunks of any size, and the two one-shot functions over memory buffers.

  A fixed array with its fill counter is the list of the bytes in use. A pointer argument
  that the code compares with NULL is an \<open>option\<close>. The write callback is a function of the
  caller's own state that returns the C result and the new state.
\<close>

type_synonym 'u pc_write_fn = "'u \<Rightarrow> byte list \<Rightarrow> int \<times> 'u"

text \<open>\<open>size_t\<close> arithmetic (32 bits on the RP2350) of a difference of two lengths.\<close>

definition size_diff :: "nat \<Rightarrow> nat \<Rightarrow> nat" where
  "size_diff a b = nat ((int a - int b) mod 2 ^ 32)"

lemma size_diff_eq [cast_simps]: "b \<le> a \<Longrightarrow> a < 2 ^ 32 \<Longrightarrow> size_diff a b = a - b"
  by (simp add: size_diff_def)

text \<open>\<open>take = len - pos; if (take > room) take = room;\<close>\<close>

definition clamp_take :: "nat \<Rightarrow> nat \<Rightarrow> nat" where
  "clamp_take room avail = (if room < avail then room else avail)"

lemma take_clamp [buf_simps]: "take (clamp_take room (length xs)) xs = take room xs"
  by (simp add: clamp_take_def)

lemma drop_clamp [buf_simps]: "drop (clamp_take room (length xs)) xs = drop room xs"
  by (simp add: clamp_take_def)

subsection \<open>History window and writing\<close>

definition pc_write_all :: "'u pc_write_fn option \<Rightarrow> 'u \<Rightarrow> byte list \<Rightarrow> pc_result \<times> 'u" where
  "pc_write_all write_fn user data =
     (if data = [] then (PC_OK, user)
      else case write_fn of
             None \<Rightarrow> (PC_ERR_INPUT, user)
           | Some f \<Rightarrow> (let (r, user') = f user data in (if r = 0 then PC_OK else PC_ERR_WRITE, user')))"

definition pc_update_history :: "byte list \<Rightarrow> byte list \<Rightarrow> byte list" where
  "pc_update_history hist data =
     (let len = length data; hist_len = length hist in
      if PC_HISTORY_SIZE \<le> len then segment (len - PC_HISTORY_SIZE) PC_HISTORY_SIZE data
      else if cast16 (hist_len + len) \<le> PC_HISTORY_SIZE then hist @ data
      else
        let keep = (if hist_len < PC_HISTORY_SIZE - len then hist_len else PC_HISTORY_SIZE - len) in
        segment (hist_len - keep) keep hist @ data)"

subsection \<open>Encoder\<close>

record pc_encoder =
  enc_block :: "byte list"
  enc_history :: "byte list"

definition pc_encoder_init :: pc_encoder where
  "pc_encoder_init = \<lparr>enc_block = [], enc_history = []\<rparr>"

definition pc_encoder_flush ::
  "pc_encoder \<Rightarrow> 'u pc_write_fn option \<Rightarrow> 'u \<Rightarrow> pc_result \<times> pc_encoder \<times> 'u" where
  "pc_encoder_flush enc write_fn user =
     (if enc_block enc = [] then (PC_OK, enc, user)
      else
        let raw = enc_block enc; raw_len = length raw; hist = enc_history enc;
            comp = pc_compress_block (hist @ raw) (length hist) raw_len PC_BLOCK_MAX_COMPRESSED;
            enc1 = enc\<lparr>enc_history := pc_update_history hist raw\<rparr>;
            (header, body) =
              (case comp of
                 Some tmp \<Rightarrow>
                   (if raw_len \<le> length tmp then (bytes16 (word_of_nat raw_len) @ [0, 0], raw)
                    else (bytes16 (word_of_nat raw_len) @ bytes16 (word_of_nat (length tmp)), tmp))
               | None \<Rightarrow> (bytes16 (word_of_nat raw_len) @ [0, 0], raw));
            (rc, user1) = pc_write_all write_fn user header in
        if rc \<noteq> PC_OK then (rc, enc1, user1)
        else
          let (rc2, user2) = pc_write_all write_fn user1 body in
          if rc2 \<noteq> PC_OK then (rc2, enc1, user2)
          else (PC_OK, enc1\<lparr>enc_block := []\<rparr>, user2))"

text \<open>
  The loop of \<open>pc_encoder_sink\<close>: \<open>data\<close> is what is left of the input. A copy beyond the block
  array is \<open>None\<close>. When the block is full, after a flush that failed earlier, a round copies
  nothing and flushes.
\<close>

function enc_sink_loop ::
  "pc_encoder \<Rightarrow> byte list \<Rightarrow> 'u pc_write_fn \<Rightarrow> 'u \<Rightarrow> (pc_result \<times> pc_encoder \<times> 'u) option" where
  "enc_sink_loop enc data write_fn user =
     (if data = [] then Some (PC_OK, enc, user)
      else
        let room = size_diff PC_BLOCK_SIZE (length (enc_block enc));
            take_n = clamp_take room (length data) in
        case buf_put PC_BLOCK_SIZE (enc_block enc) (take take_n data) of
          None \<Rightarrow> None
        | Some block' \<Rightarrow>
            let enc1 = enc\<lparr>enc_block := block'\<rparr>; data' = drop take_n data in
            if length block' = PC_BLOCK_SIZE then
              (case pc_encoder_flush enc1 (Some write_fn) user of (rc, enc2, user2) \<Rightarrow>
                 if rc \<noteq> PC_OK then Some (rc, enc2, user2)
                 else enc_sink_loop enc2 data' write_fn user2)
            else enc_sink_loop enc1 data' write_fn user)"
  by pat_completeness auto

lemma flush_OK_block:
  "pc_encoder_flush enc wfn user = (PC_OK, enc', user') \<Longrightarrow> enc_block enc' = []"
  by (auto simp: pc_encoder_flush_def Let_def split: if_splits prod.splits)

termination enc_sink_loop
proof (relation "measure (\<lambda>(enc, data, wfn, user). 2 * length data + length (enc_block enc) div PC_BLOCK_SIZE)")
  fix enc :: pc_encoder and data :: "byte list" and write_fn :: "'u pc_write_fn" and user :: 'u
    and room take_n block' enc1 data' rc e2 u2
  assume data: "data \<noteq> []" and room: "room = size_diff PC_BLOCK_SIZE (length (enc_block enc))"
    and take_n: "take_n = clamp_take room (length data)"
    and put: "buf_put PC_BLOCK_SIZE (enc_block enc) (take take_n data) = Some block'"
    and enc1: "enc1 = enc\<lparr>enc_block := block'\<rparr>" and data': "data' = drop take_n data"
  from buf_put_SomeD [OF put] have b': "block' = enc_block enc @ take take_n data"
    and le: "length block' \<le> PC_BLOCK_SIZE" by auto
  then have len: "length (enc_block enc) \<le> PC_BLOCK_SIZE" by simp
  then have room': "room = PC_BLOCK_SIZE - length (enc_block enc)"
    by (simp add: room size_diff_eq PC_BLOCK_SIZE_def)
  show "((enc1, data', write_fn, user), enc, data, write_fn, user)
      \<in> measure (\<lambda>(enc, data, wfn, user). 2 * length data + length (enc_block enc) div PC_BLOCK_SIZE)"
    if "length block' \<noteq> PC_BLOCK_SIZE"
  proof -
    have "length block' < PC_BLOCK_SIZE" using that le by simp
    moreover have "0 < take_n"
      using data room' that len by (auto simp: take_n b' clamp_take_def)
    ultimately have "length data' < length data" "length (enc_block enc1) div PC_BLOCK_SIZE = 0"
      using data by (simp_all add: enc1 data')
    then show ?thesis by simp
  qed
  show "((e2, data', write_fn, u2), enc, data, write_fn, user)
      \<in> measure (\<lambda>(enc, data, wfn, user). 2 * length data + length (enc_block enc) div PC_BLOCK_SIZE)"
    if "length block' = PC_BLOCK_SIZE" and flush: "(rc, x) = pc_encoder_flush enc1 (Some write_fn) user"
      and x: "(e2, u2) = x" and rc: "\<not> rc \<noteq> PC_OK" for x
  proof -
    have "enc_block e2 = []" using flush_OK_block flush x rc by metis
    moreover have "0 < take_n \<or> length (enc_block enc) = PC_BLOCK_SIZE"
      using that(1) by (auto simp: b')
    ultimately have "enc_block e2 = []" and "0 < take_n \<or> length (enc_block enc) div PC_BLOCK_SIZE = 1"
      by (auto simp: PC_BLOCK_SIZE_def)
    moreover have "length data' < length data" if "0 < take_n"
      using data that by (simp add: data')
    moreover have "length data' \<le> length data" by (simp add: data')
    ultimately show ?thesis by (auto simp: PC_BLOCK_SIZE_def)
  qed
qed simp

declare enc_sink_loop.simps [simp del]

definition pc_encoder_sink ::
  "pc_encoder option \<Rightarrow> byte list option \<Rightarrow> nat \<Rightarrow> 'u pc_write_fn option \<Rightarrow> 'u \<Rightarrow>
   (pc_result \<times> pc_encoder option \<times> 'u) option" where
  "pc_encoder_sink enc data len write_fn user =
     (case (enc, write_fn) of
        (Some e, Some f) \<Rightarrow>
          (if 0 < len \<and> data = None then Some (PC_ERR_INPUT, enc, user)
           else map_option (\<lambda>(rc, e', u). (rc, Some e', u))
             (enc_sink_loop e (case data of None \<Rightarrow> [] | Some xs \<Rightarrow> take len xs) f user))
      | _ \<Rightarrow> Some (PC_ERR_INPUT, enc, user))"

definition pc_encoder_finish ::
  "pc_encoder option \<Rightarrow> 'u pc_write_fn option \<Rightarrow> 'u \<Rightarrow> pc_result \<times> pc_encoder option \<times> 'u" where
  "pc_encoder_finish enc write_fn user =
     (case (enc, write_fn) of
        (Some e, Some f) \<Rightarrow>
          (case pc_encoder_flush e (Some f) user of (rc, e', u) \<Rightarrow> (rc, Some e', u))
      | _ \<Rightarrow> (PC_ERR_INPUT, enc, user))"

subsection \<open>Decoder\<close>

record pc_decoder =
  dec_header :: "byte list"
  dec_raw_len :: u16
  dec_comp_len :: u16
  dec_payload :: "byte list"
  dec_history :: "byte list"

definition pc_decoder_init :: pc_decoder where
  "pc_decoder_init = \<lparr>dec_header = [], dec_raw_len = 0, dec_comp_len = 0, dec_payload = [], dec_history = []\<rparr>"

text \<open>
  \<open>pc_decompress_block\<close> writes to the \<open>raw\<close> array of \<open>PC_BLOCK_SIZE\<close> bytes; a block that is
  longer is \<open>None\<close>.
\<close>

definition pc_decoder_emit_block ::
  "pc_decoder \<Rightarrow> 'u pc_write_fn \<Rightarrow> 'u \<Rightarrow> (pc_result \<times> pc_decoder \<times> 'u) option" where
  "pc_decoder_emit_block dec write_fn user =
     (if dec_comp_len dec = 0 then
        let data = take (unat (dec_raw_len dec)) (dec_payload dec);
            (rc, user') = pc_write_all (Some write_fn) user data in
        Some (rc, if rc = PC_OK then dec\<lparr>dec_history := pc_update_history (dec_history dec) data\<rparr> else dec, user')
      else if PC_BLOCK_SIZE < unat (dec_raw_len dec) then None
      else
        case pc_decompress_block (dec_history dec) (take (unat (dec_comp_len dec)) (dec_payload dec))
               (unat (dec_raw_len dec)) of
          None \<Rightarrow> None
        | Some (Inl e) \<Rightarrow> Some (e, dec, user)
        | Some (Inr raw) \<Rightarrow>
            let (rc, user') = pc_write_all (Some write_fn) user raw in
            Some (rc, if rc = PC_OK then dec\<lparr>dec_history := pc_update_history (dec_history dec) raw\<rparr> else dec, user'))"

text \<open>
  One round of the loop of \<open>pc_decoder_sink\<close>: first the header part, which ends the round
  (\<open>Header_More\<close>, the two \<open>continue\<close>s), returns an error, or goes on with the payload part.
\<close>

datatype header_result =
    Header_More pc_decoder "byte list"
  | Header_Error pc_result pc_decoder
  | Header_Ready pc_decoder "byte list"

text \<open>What follows when the fourth header byte has arrived.\<close>

definition dec_header_done :: "pc_decoder \<Rightarrow> byte list \<Rightarrow> header_result" where
  "dec_header_done dec data =
     (let raw_len = le16 (dec_header dec ! 0) (dec_header dec ! 1);
          comp_len = le16 (dec_header dec ! 2) (dec_header dec ! 3);
          dec1 = dec\<lparr>dec_raw_len := raw_len, dec_comp_len := comp_len, dec_payload := []\<rparr> in
      if raw_len = 0 \<and> comp_len = 0 then Header_More (dec1\<lparr>dec_header := []\<rparr>) data
      else if raw_len = 0 \<or> PC_BLOCK_SIZE < unat raw_len then Header_Error PC_ERR_CORRUPT dec1
      else if 0 < comp_len \<and> PC_BLOCK_MAX_COMPRESSED < unat comp_len then Header_Error PC_ERR_CORRUPT dec1
      else Header_Ready dec1 data)"

definition dec_take_header :: "pc_decoder \<Rightarrow> byte list \<Rightarrow> header_result" where
  "dec_take_header dec data =
     (if length (dec_header dec) < 4 then
        let take_n = clamp_take (4 - length (dec_header dec)) (length data);
            header = dec_header dec @ take take_n data in
        if length header < 4 then Header_More (dec\<lparr>dec_header := header\<rparr>) (drop take_n data)
        else dec_header_done (dec\<lparr>dec_header := header\<rparr>) (drop take_n data)
      else Header_Ready dec data)"

lemma dec_header_done_More:
  "dec_header_done d x = Header_More d1 x1 \<Longrightarrow> dec_header d1 = [] \<and> x1 = x"
  by (auto simp: dec_header_done_def Let_def split: if_splits)

lemma dec_header_done_Ready:
  "dec_header_done d x = Header_Ready d1 x1 \<Longrightarrow> dec_header d1 = dec_header d \<and> x1 = x"
  by (auto simp: dec_header_done_def Let_def split: if_splits)

datatype 'u payload_result =
    Sink_More pc_decoder "byte list" 'u
  | Sink_Return pc_result pc_decoder 'u

text \<open>What happens when the payload has arrived: the block is written and the header is reset.\<close>

definition dec_block_done ::
  "pc_decoder \<Rightarrow> byte list \<Rightarrow> 'u pc_write_fn \<Rightarrow> 'u \<Rightarrow> 'u payload_result option" where
  "dec_block_done dec data write_fn user =
     (case pc_decoder_emit_block dec write_fn user of
        None \<Rightarrow> None
      | Some (rc, dec2, user2) \<Rightarrow>
          if rc \<noteq> PC_OK then Some (Sink_Return rc dec2 user2)
          else Some (Sink_More (dec2\<lparr>dec_header := [], dec_raw_len := 0, dec_comp_len := 0, dec_payload := []\<rparr>)
                       data user2))"

definition dec_target :: "pc_decoder \<Rightarrow> nat" where
  "dec_target dec = unat (if dec_comp_len dec = 0 then dec_raw_len dec else dec_comp_len dec)"

definition dec_take_payload ::
  "pc_decoder \<Rightarrow> byte list \<Rightarrow> 'u pc_write_fn \<Rightarrow> 'u \<Rightarrow> 'u payload_result option" where
  "dec_take_payload dec data write_fn user =
     (let take_n = clamp_take (size_diff (dec_target dec) (length (dec_payload dec))) (length data) in
      case buf_put PC_BLOCK_SIZE (dec_payload dec) (take take_n data) of
        None \<Rightarrow> None
      | Some payload' \<Rightarrow>
          if length payload' = dec_target dec
          then dec_block_done (dec\<lparr>dec_payload := payload'\<rparr>) (drop take_n data) write_fn user
          else Some (Sink_More (dec\<lparr>dec_payload := payload'\<rparr>) (drop take_n data) user))"

definition dec_sink_round ::
  "pc_decoder \<Rightarrow> byte list \<Rightarrow> 'u pc_write_fn \<Rightarrow> 'u \<Rightarrow> 'u payload_result option" where
  "dec_sink_round dec data write_fn user =
     (case dec_take_header dec data of
        Header_More dec1 data1 \<Rightarrow> Some (Sink_More dec1 data1 user)
      | Header_Error rc dec1 \<Rightarrow> Some (Sink_Return rc dec1 user)
      | Header_Ready dec1 data1 \<Rightarrow> dec_take_payload dec1 data1 write_fn user)"

lemma size_diff_0:
  assumes "size_diff a b = 0" "a < 2 ^ 32" "b < 2 ^ 32"
  shows "a = b"
proof -
  have "(int a - int b) mod 2 ^ 32 = 0"
    using assms(1) pos_mod_sign [of "2 ^ 32" "int a - int b"] by (simp add: size_diff_def)
  then have "2 ^ 32 dvd int a - int b" by presburger
  moreover have "\<bar>int a - int b\<bar> < 2 ^ 32" using assms(2,3) by simp
  ultimately have "int a - int b = 0" using dvd_imp_le_int [of "int a - int b" "2 ^ 32"] by force
  then show ?thesis by simp
qed

lemma dec_target_less: "dec_target dec < 2 ^ 32"
proof -
  have "unat w < 2 ^ 32" for w :: u16
    using unsigned_less [of w, where 'a = nat] by simp
  then show ?thesis by (simp add: dec_target_def)
qed

lemma dec_take_header_progress:
  assumes "data \<noteq> []"
  shows "dec_take_header dec data = Header_More dec1 data1 \<Longrightarrow>
      length data1 < length data \<and> length (dec_header dec1) < 4"
    and "dec_take_header dec data = Header_Ready dec1 data1 \<Longrightarrow>
      length data1 < length data \<or> 4 \<le> length (dec_header dec) \<and> dec1 = dec \<and> data1 = data"
  using assms
  by (auto simp: dec_take_header_def Let_def clamp_take_def split: if_splits
      dest: dec_header_done_More dec_header_done_Ready)

lemma dec_block_done_header:
  "dec_block_done dec data f u = Some (Sink_More dec1 data1 u1) \<Longrightarrow> dec_header dec1 = [] \<and> data1 = data"
  by (auto simp: dec_block_done_def split: option.splits if_splits)

lemma dec_take_payload_progress:
  assumes "dec_take_payload dec data f u = Some (Sink_More dec1 data1 u1)"
  shows "length data1 \<le> length data \<and> (dec_header dec1 = [] \<or> data = [] \<or> length data1 < length data)"
proof -
  define n where "n = clamp_take (size_diff (dec_target dec) (length (dec_payload dec))) (length data)"
  from assms obtain p where put: "buf_put PC_BLOCK_SIZE (dec_payload dec) (take n data) = Some p"
    by (simp add: dec_take_payload_def n_def [symmetric] split: option.splits)
  then have p: "p = dec_payload dec @ take n data" and pl: "length p \<le> 508"
    by (auto dest!: buf_put_SomeD simp: PC_BLOCK_SIZE_def)
  from assms put have eq: "(if length p = dec_target dec then dec_block_done (dec\<lparr>dec_payload := p\<rparr>) (drop n data) f u
      else Some (Sink_More (dec\<lparr>dec_payload := p\<rparr>) (drop n data) u)) = Some (Sink_More dec1 data1 u1)"
    by (simp add: dec_take_payload_def n_def [symmetric])
  show ?thesis
  proof (cases "length p = dec_target dec")
    case True
    with eq dec_block_done_header show ?thesis by fastforce
  next
    case False
    with size_diff_0 [of "dec_target dec" "length (dec_payload dec)"] pl dec_target_less [of dec]
    have "0 < n \<or> data = []" by (cases "size_diff (dec_target dec) (length (dec_payload dec)) = 0")
        (auto simp: p n_def clamp_take_def)
    with eq False show ?thesis by (cases data) auto
  qed
qed

function dec_sink_loop ::
  "pc_decoder \<Rightarrow> byte list \<Rightarrow> 'u pc_write_fn \<Rightarrow> 'u \<Rightarrow> (pc_result \<times> pc_decoder \<times> 'u) option" where
  "dec_sink_loop dec data write_fn user =
     (if data = [] then Some (PC_OK, dec, user)
      else case dec_sink_round dec data write_fn user of
             None \<Rightarrow> None
           | Some (Sink_Return rc dec' user') \<Rightarrow> Some (rc, dec', user')
           | Some (Sink_More dec' data' user') \<Rightarrow> dec_sink_loop dec' data' write_fn user')"
  by pat_completeness auto

lemma dec_sink_round_progress:
  assumes "dec_sink_round dec data f u = Some (Sink_More dec1 data1 u1)" "data \<noteq> []"
  shows "2 * length data1 + (if length (dec_header dec1) < 4 then 0 else 1)
       < 2 * length data + (if length (dec_header dec) < 4 then 0 else 1)"
proof (cases "dec_take_header dec data")
  case (Header_More d x)
  with dec_take_header_progress(1) [OF assms(2) Header_More] assms(1) show ?thesis
    by (auto simp: dec_sink_round_def)
next
  case (Header_Error r d)
  with assms(1) show ?thesis by (simp add: dec_sink_round_def)
next
  case (Header_Ready d x)
  with assms(1) have "dec_take_payload d x f u = Some (Sink_More dec1 data1 u1)"
    by (simp add: dec_sink_round_def)
  from dec_take_payload_progress [OF this] dec_take_header_progress(2) [OF assms(2) Header_Ready] assms(2)
  show ?thesis by (cases data) auto
qed

termination dec_sink_loop
  by (relation "measure (\<lambda>(dec, data, wfn, user). 2 * length data + (if length (dec_header dec) < 4 then 0 else 1))")
    (use dec_sink_round_progress in fastforce)+

declare dec_sink_loop.simps [simp del]

definition pc_decoder_sink ::
  "pc_decoder option \<Rightarrow> byte list option \<Rightarrow> nat \<Rightarrow> 'u pc_write_fn option \<Rightarrow> 'u \<Rightarrow>
   (pc_result \<times> pc_decoder option \<times> 'u) option" where
  "pc_decoder_sink dec data len write_fn user =
     (case (dec, write_fn) of
        (Some d, Some f) \<Rightarrow>
          (if 0 < len \<and> data = None then Some (PC_ERR_INPUT, dec, user)
           else map_option (\<lambda>(rc, d', u). (rc, Some d', u))
             (dec_sink_loop d (case data of None \<Rightarrow> [] | Some xs \<Rightarrow> take len xs) f user))
      | _ \<Rightarrow> Some (PC_ERR_INPUT, dec, user))"

definition pc_decoder_finish :: "pc_decoder option \<Rightarrow> pc_result" where
  "pc_decoder_finish dec =
     (case dec of
        None \<Rightarrow> PC_ERR_INPUT
      | Some d \<Rightarrow>
          if dec_header d \<noteq> [] \<or> dec_raw_len d \<noteq> 0 \<or> dec_comp_len d \<noteq> 0 \<or> dec_payload d \<noteq> []
          then PC_ERR_CORRUPT else PC_OK)"

subsection \<open>Buffers\<close>

definition pc_compress_bound :: "nat \<Rightarrow> nat" where
  "pc_compress_bound input_len =
     (if input_len = 0 then 0
      else
        let blocks = (input_len + PC_BLOCK_SIZE - 1) mod 2 ^ 32 div PC_BLOCK_SIZE in
        (input_len + blocks * 4) mod 2 ^ 32)"

definition pc_mem_write :: "nat \<Rightarrow> byte list pc_write_fn" where
  "pc_mem_write cap out data =
     (if cap < (length out + length data) mod 2 ^ 32 then (1, out) else (0, out @ data))"

text \<open>
  The output buffer is a capacity; the result is \<open>PC_OK\<close> with the bytes written and their
  number, or an error code. \<open>None\<close> for \<open>output\<close> stands for a NULL \<open>output\<close> or \<open>output_len\<close>.
\<close>

definition buffer_error :: "pc_result \<Rightarrow> pc_result" where
  "buffer_error rc = (if rc = PC_ERR_WRITE then PC_ERR_OUTPUT_TOO_SMALL else rc)"

definition pc_compress_buffer ::
  "byte list option \<Rightarrow> nat \<Rightarrow> nat option \<Rightarrow> (pc_result + byte list) option" where
  "pc_compress_buffer input input_len output =
     (case output of
        None \<Rightarrow> Some (Inl PC_ERR_INPUT)
      | Some output_cap \<Rightarrow>
          if 0 < input_len \<and> input = None then Some (Inl PC_ERR_INPUT)
          else case pc_encoder_sink (Some pc_encoder_init) input input_len (Some (pc_mem_write output_cap)) [] of
            None \<Rightarrow> None
          | Some (rc, enc, out) \<Rightarrow>
              if rc \<noteq> PC_OK then Some (Inl (buffer_error rc))
              else (case pc_encoder_finish enc (Some (pc_mem_write output_cap)) out of
                      (rc2, enc2, out2) \<Rightarrow>
                        if rc2 \<noteq> PC_OK then Some (Inl (buffer_error rc2)) else Some (Inr out2)))"

definition pc_decompress_buffer ::
  "byte list option \<Rightarrow> nat \<Rightarrow> nat option \<Rightarrow> (pc_result + byte list) option" where
  "pc_decompress_buffer input input_len output =
     (case output of
        None \<Rightarrow> Some (Inl PC_ERR_INPUT)
      | Some output_cap \<Rightarrow>
          if 0 < input_len \<and> input = None then Some (Inl PC_ERR_INPUT)
          else case pc_decoder_sink (Some pc_decoder_init) input input_len (Some (pc_mem_write output_cap)) [] of
            None \<Rightarrow> None
          | Some (rc, dec, out) \<Rightarrow>
              if rc \<noteq> PC_OK then Some (Inl (buffer_error rc))
              else (case pc_decoder_finish dec of
                      PC_OK \<Rightarrow> Some (Inr out)
                    | rc2 \<Rightarrow> Some (Inl rc2)))"

end
