(* ===== verification/PicoChunks.thy ===== *)
theory PicoChunks
  imports PicoStream
begin

text \<open>
  The decoder of picocompress keeps its state between calls so that the input may arrive in
  pieces of any size. Here: however the input is cut, the result is the same.
\<close>

subsection \<open>Chunks\<close>

text \<open>
  Both sinks keep what they need between calls: a call on the concatenation of two chunks is
  the two calls one after the other, for any callback and any state.
\<close>

lemma size_diff_less: "size_diff a b < 2 ^ 32"
  by (simp add: size_diff_def nat_less_iff)

lemma int_size_diff: "int (size_diff a b) = (int a - int b) mod 2 ^ 32"
  by (simp add: size_diff_def)

lemma size_diff_add:
  assumes "n \<le> size_diff a b"
  shows "size_diff a (b + n) = size_diff a b - n"
proof -
  from assms have n: "int n \<le> (int a - int b) mod 2 ^ 32" using int_size_diff [of a b] by linarith
  have "(int a - int (b + n)) mod 2 ^ 32 = ((int a - int b) mod 2 ^ 32 - int n) mod 2 ^ 32"
    by (simp add: mod_diff_left_eq diff_diff_eq)
  also have "\<dots> = (int a - int b) mod 2 ^ 32 - int n"
    using n pos_mod_bound [of "2 ^ 32" "int a - int b"] by (intro mod_pos_pos_trivial) auto
  finally have "int (size_diff a (b + n)) = int (size_diff a b) - int n" by (simp only: int_size_diff)
  with assms show ?thesis by linarith
qed

lemma size_diff_self [simp]: "size_diff a a = 0"
  by (simp add: size_diff_def)

text \<open>The header part on a chunk and more data after it.\<close>

lemma dec_header_done_append:
  "dec_header_done d (x @ ys) = (case dec_header_done d x of
      Header_Error rc d1 \<Rightarrow> Header_Error rc d1
    | Header_Ready d1 x \<Rightarrow> Header_Ready d1 (x @ ys)
    | Header_More d1 x \<Rightarrow> Header_More d1 (x @ ys))"
  by (simp add: dec_header_done_def Let_def)

lemma dec_take_header_append:
  assumes "xs \<noteq> []"
  shows "dec_take_header d (xs @ ys) = (case dec_take_header d xs of
      Header_Error rc d1 \<Rightarrow> Header_Error rc d1
    | Header_Ready d1 x \<Rightarrow> Header_Ready d1 (x @ ys)
    | Header_More d1 x \<Rightarrow> (if dec_header d1 = [] then Header_More d1 (x @ ys) else dec_take_header d1 ys))"
proof (cases "4 \<le> length (dec_header d)")
  case True
  then show ?thesis by (simp add: dec_take_header_def)
next
  case False
  define need where "need = 4 - length (dec_header d)"
  have n: "0 < need" "length (dec_header d) = 4 - need" "need \<le> 4" using False by (auto simp: need_def)
  show ?thesis
  proof (cases "need \<le> length xs")
    case True
    then have t: "take need (xs @ ys) = take need xs" "drop need (xs @ ys) = drop need xs @ ys" by auto
    have full: "\<not> length (dec_header d @ take need xs) < 4" using True n by simp
    show ?thesis
      unfolding dec_take_header_def need_def [symmetric] Let_def take_clamp drop_clamp t
      using False full dec_header_done_More
      by (fastforce simp: dec_header_done_append simp del: length_append split: header_result.split)
  next
    case short: False
    have t: "take need xs = xs" "drop need xs = []" using short by auto
    have l: "length (dec_header d @ xs) < 4" "dec_header d @ xs \<noteq> []" using short n assms by auto
    have 1: "dec_take_header d xs = Header_More (d\<lparr>dec_header := dec_header d @ xs\<rparr>) []"
      using False l unfolding dec_take_header_def need_def [symmetric] Let_def take_clamp drop_clamp t by simp
    have need': "4 - length (dec_header d @ xs) = need - length xs" using n by simp
    have t': "take need (xs @ ys) = xs @ take (need - length xs) ys"
      "drop need (xs @ ys) = drop (need - length xs) ys" using short by auto
    have "dec_take_header d (xs @ ys) = dec_take_header (d\<lparr>dec_header := dec_header d @ xs\<rparr>) ys"
      using False l(1) unfolding dec_take_header_def need_def [symmetric] Let_def take_clamp drop_clamp t'
      by (simp add: need' del: length_append)
    with l(2) assms show ?thesis by (simp add: 1)
  qed
qed

lemma dec_take_payload_append:
  "dec_take_payload d (xs @ ys) f u = (case dec_take_payload d xs f u of
      None \<Rightarrow> None
    | Some (Sink_Return rc d1 u1) \<Rightarrow> Some (Sink_Return rc d1 u1)
    | Some (Sink_More d1 x u1) \<Rightarrow>
        (if dec_header d1 = [] then Some (Sink_More d1 (x @ ys) u1) else dec_take_payload d1 ys f u1))"
  if "dec_header d \<noteq> []"
proof -
  define need where "need = size_diff (dec_target d) (length (dec_payload d))"
  note unf = dec_take_payload_def Let_def take_clamp drop_clamp
  show ?thesis
  proof (cases "need \<le> length xs")
    case True
    then have t: "take need (xs @ ys) = take need xs" "drop need (xs @ ys) = drop need xs @ ys" by auto
    have done_app: "dec_block_done e (x @ ys) f u = (case dec_block_done e x f u of
        None \<Rightarrow> None | Some (Sink_Return rc d1 u1) \<Rightarrow> Some (Sink_Return rc d1 u1)
      | Some (Sink_More d1 x u1) \<Rightarrow> Some (Sink_More d1 (x @ ys) u1))" for e x
      by (simp add: dec_block_done_def split: option.split)
    show ?thesis
    proof (cases "buf_put PC_BLOCK_SIZE (dec_payload d) (take need xs)")
      case None
      then show ?thesis unfolding unf need_def [symmetric] t by simp
    next
      case (Some p)
      then have p: "p = dec_payload d @ take need xs" "length p \<le> 508"
        by (auto dest!: buf_put_SomeD simp: PC_BLOCK_SIZE_def)
      from size_diff_add [of need "dec_target d" "length (dec_payload d)"] True
      have "size_diff (dec_target d) (length p) = 0" by (simp add: p(1) need_def)
      from size_diff_0 [OF this dec_target_less] p(2) have "dec_target d = length p" by simp
      with Some show ?thesis unfolding unf need_def [symmetric] t
        by (auto simp: done_app dest: dec_block_done_header split: option.split payload_result.split)
    qed
  next
    case short: False
    have t: "take need (xs @ ys) = xs @ take (need - length xs) ys" "take need xs = xs"
      "drop need (xs @ ys) = drop (need - length xs) ys" "drop need xs = []" using short by auto
    show ?thesis
    proof (cases "buf_put PC_BLOCK_SIZE (dec_payload d) xs")
      case None
      then have "buf_put PC_BLOCK_SIZE (dec_payload d) (xs @ take (need - length xs) ys) = None"
        by (auto simp: buf_put_def split: if_splits)
      with None show ?thesis unfolding unf need_def [symmetric] t by simp
    next
      case (Some p)
      then have p: "p = dec_payload d @ xs" by (auto dest: buf_put_SomeD)
      have need': "size_diff (dec_target d) (length p) = need - length xs"
        using size_diff_add [of "length xs" "dec_target d" "length (dec_payload d)"] short
        by (simp add: p need_def)
      then have "length p \<noteq> dec_target d" using short by auto
      then have first: "dec_take_payload d xs f u = Some (Sink_More (d\<lparr>dec_payload := p\<rparr>) [] u)"
        using Some unfolding unf need_def [symmetric] t by simp
      have tg: "dec_target (d\<lparr>dec_payload := p\<rparr>) = dec_target d" by (simp add: dec_target_def)
      have "buf_put PC_BLOCK_SIZE (dec_payload d) (xs @ take (need - length xs) ys)
          = buf_put PC_BLOCK_SIZE p (take (need - length xs) ys)"
        by (simp add: buf_put_def p)
      then have "dec_take_payload d (xs @ ys) f u = dec_take_payload (d\<lparr>dec_payload := p\<rparr>) ys f u"
        unfolding unf tg need_def [symmetric] t by (simp add: need' split: option.split)
      with that show ?thesis by (simp add: first)
    qed
  qed
qed

lemma dec_take_header_Ready:
  "dec_take_header d xs = Header_Ready d1 x \<Longrightarrow> 4 \<le> length (dec_header d1)"
  by (auto simp: dec_take_header_def Let_def split: if_splits dest: dec_header_done_Ready)

lemma dec_take_header_More:
  "dec_take_header d xs = Header_More d1 x \<Longrightarrow> dec_header d1 = [] \<or> x = []"
  by (auto simp: dec_take_header_def Let_def clamp_take_def split: if_splits dest: dec_header_done_More)

lemma dec_take_payload_More:
  assumes "dec_take_payload d xs f u = Some (Sink_More d1 x u1)"
  shows "dec_header d1 = [] \<or> dec_header d1 = dec_header d \<and> x = [] \<and> u1 = u"
proof -
  define need where "need = size_diff (dec_target d) (length (dec_payload d))"
  from assms obtain p where put: "buf_put PC_BLOCK_SIZE (dec_payload d) (take need xs) = Some p"
    unfolding dec_take_payload_def Let_def take_clamp need_def [symmetric] by (auto split: option.splits)
  show ?thesis
  proof (cases "length p = dec_target d")
    case True
    with assms put dec_block_done_header show ?thesis
      unfolding dec_take_payload_def Let_def take_clamp need_def [symmetric] by force
  next
    case False
    with put size_diff_add [of need "dec_target d" "length (dec_payload d)"]
      size_diff_0 [OF _ dec_target_less, of d "length p"]
    have "length xs \<le> need"
      by (auto dest!: buf_put_SomeD simp: need_def PC_BLOCK_SIZE_def min_def split: if_splits)
    with False assms put show ?thesis
      unfolding dec_take_payload_def Let_def take_clamp drop_clamp need_def [symmetric] by auto
  qed
qed

text \<open>A round on \<open>xs @ ys\<close>: the same, or the round on \<open>xs\<close> waits for more and goes on with \<open>ys\<close>.\<close>

lemma dec_sink_round_append:
  assumes "xs \<noteq> []"
  shows "dec_sink_round d (xs @ ys) f u = (case dec_sink_round d xs f u of
      None \<Rightarrow> None
    | Some (Sink_Return rc d1 u1) \<Rightarrow> Some (Sink_Return rc d1 u1)
    | Some (Sink_More d1 x u1) \<Rightarrow>
        (if dec_header d1 = [] then Some (Sink_More d1 (x @ ys) u1) else dec_sink_round d1 ys f u1))"
proof (cases "dec_take_header d xs")
  case (Header_More d1 x)
  then show ?thesis
    by (simp add: dec_sink_round_def dec_take_header_append [OF assms])
next
  case (Header_Error rc d1)
  then show ?thesis by (simp add: dec_sink_round_def dec_take_header_append [OF assms])
next
  case (Header_Ready d1 x)
  then have h: "4 \<le> length (dec_header d1)" by (rule dec_take_header_Ready)
  then have ne: "dec_header d1 \<noteq> []" by auto
  have again: "dec_sink_round d2 ys f u2 = dec_take_payload d2 ys f u2" if "dec_header d2 = dec_header d1" for d2 u2
    using h that by (simp add: dec_sink_round_def dec_take_header_def)
  show ?thesis
    using Header_Ready ne
    by (auto simp: dec_sink_round_def [of d] dec_take_header_append [OF assms] dec_take_payload_append [OF ne] again
        dest: dec_take_payload_More split: option.split payload_result.split)
qed

lemma dec_sink_round_Return:
  assumes "dec_sink_round d xs f u = Some (Sink_Return rc d1 u1)"
  shows "rc \<noteq> PC_OK"
proof -
  have head: "rc \<noteq> PC_OK" if "dec_take_header d xs = Header_Error rc d1" for rc d1
    using that by (auto simp: dec_take_header_def dec_header_done_def Let_def split: if_splits)
  have "rc \<noteq> PC_OK" if "dec_block_done e x f u = Some (Sink_Return rc d1 u1)" for e x
    using that by (auto simp: dec_block_done_def split: option.splits if_splits)
  then have "rc \<noteq> PC_OK" if "dec_take_payload e x f u = Some (Sink_Return rc d1 u1)" for e x
    using that unfolding dec_take_payload_def Let_def
    by (auto split: option.splits if_split_asm simp del: not_None_eq)
  with head assms show ?thesis by (auto simp: dec_sink_round_def split: header_result.splits)
qed

lemma dec_sink_round_More:
  "dec_sink_round d xs f u = Some (Sink_More d1 x u1) \<Longrightarrow> dec_header d1 = [] \<or> x = []"
  using dec_take_header_More [of d xs d1 x] dec_take_payload_More [of _ _ f u d1 x u1]
  unfolding dec_sink_round_def by (cases "dec_take_header d xs") auto

lemma dec_sink_loop_Nil [simp]: "dec_sink_loop d [] f u = Some (PC_OK, d, u)"
  by (subst dec_sink_loop.simps) simp

lemma dec_sink_loop_round:
  assumes "xs \<noteq> []"
  shows "dec_sink_round d xs f u = None \<Longrightarrow> dec_sink_loop d xs f u = None"
    and "dec_sink_round d xs f u = Some (Sink_Return rc d1 u1) \<Longrightarrow> dec_sink_loop d xs f u = Some (rc, d1, u1)"
    and "dec_sink_round d xs f u = Some (Sink_More d1 x u1) \<Longrightarrow> dec_sink_loop d xs f u = dec_sink_loop d1 x f u1"
  using assms by (subst dec_sink_loop.simps, simp)+

lemma dec_sink_loop_append:
  "dec_sink_loop d (xs @ ys) f u = (case dec_sink_loop d xs f u of
      Some (PC_OK, d', u') \<Rightarrow> dec_sink_loop d' ys f u'
    | r \<Rightarrow> r)"
proof (induction d xs f u rule: dec_sink_loop.induct)
  case (1 d xs f u)
  show ?case
  proof (cases "xs = []")
    case True
    then show ?thesis by simp
  next
    case False
    note app = dec_sink_round_append [OF False, of d ys f u]
    have ne: "xs @ ys \<noteq> []" using False by simp
    show ?thesis
    proof (cases "dec_sink_round d xs f u")
      case None
      then have "dec_sink_round d (xs @ ys) f u = None" by (simp only: app) simp
      with None dec_sink_loop_round(1) [OF False None] dec_sink_loop_round(1) [OF ne] show ?thesis by simp
    next
      case (Some r)
      show ?thesis
      proof (cases r)
        case (Sink_Return rc d1 u1)
        with Some have rnd: "dec_sink_round d xs f u = Some (Sink_Return rc d1 u1)" by simp
        then have "dec_sink_round d (xs @ ys) f u = Some (Sink_Return rc d1 u1)" by (simp only: app) simp
        from dec_sink_loop_round(2) [OF ne this] dec_sink_loop_round(2) [OF False rnd] dec_sink_round_Return [OF rnd]
        show ?thesis by (simp split: pc_result.split)
      next
        case (Sink_More d1 x u1)
        with Some have rnd: "dec_sink_round d xs f u = Some (Sink_More d1 x u1)" by simp
        note loop = dec_sink_loop_round(3) [OF False rnd]
        show ?thesis
        proof (cases "dec_header d1 = []")
          case True
          with rnd have "dec_sink_round d (xs @ ys) f u = Some (Sink_More d1 (x @ ys) u1)" by (simp only: app) simp
          note again = dec_sink_loop_round(3) [OF ne this]
          show ?thesis unfolding again loop by (rule "1.IH" [OF False rnd refl])
        next
          case hd: False
          with dec_sink_round_More [OF rnd] have x: "x = []" by simp
          from hd rnd have rnd': "dec_sink_round d (xs @ ys) f u = dec_sink_round d1 ys f u1" by (simp only: app) simp
          have "dec_sink_loop d (xs @ ys) f u = dec_sink_loop d1 ys f u1"
          proof (cases "ys = []")
            case True
            with loop x show ?thesis by simp
          next
            case False
            with rnd' show ?thesis
              unfolding dec_sink_loop.simps [of d "xs @ ys"] dec_sink_loop.simps [of d1 ys] by simp
          qed
          with loop x show ?thesis by simp
        qed
      qed
    qed
  qed
qed

text \<open>
  C4: the decoder does not depend on how its input is cut into chunks. One call of
  \<open>pc_decoder_sink\<close> on two chunks glued together gives the same result, the same decoder state
  and the same written bytes as two calls, for every decoder state, every write callback and
  every error (the second call is made only after \<open>PC_OK\<close>, as a caller does).
\<close>

theorem pc_decoder_sink_chunks:
  "pc_decoder_sink (Some d) (Some (xs @ ys)) (length (xs @ ys)) (Some f) u =
     (case pc_decoder_sink (Some d) (Some xs) (length xs) (Some f) u of
        Some (PC_OK, d', u') \<Rightarrow> pc_decoder_sink d' (Some ys) (length ys) (Some f) u'
      | r \<Rightarrow> r)"
  unfolding pc_decoder_sink_def
  by (auto simp: dec_sink_loop_append split: option.split prod.split pc_result.split)

end
