(* ===== verification/PicoBuffer.thy ===== *)
theory PicoBuffer
  imports PicoChunks
begin

text \<open>
  What the streaming interface of picocompress promises: the history window is the end of
  the data seen so far, the encoder writes frames, the decoder turns frames back into the
  blocks, however the bytes are cut into chunks.

  The write callback is an interface of the code (\<open>pc_write_fn\<close>). The locale \<open>byte_writer\<close>
  states what the code relies on; the memory writer of the one-shot functions provides it.
\<close>

unbundle bit_operations_syntax

subsection \<open>The history window\<close>

lemma segment_end: "n \<le> length xs \<Longrightarrow> segment (length xs - n) n xs = drop (length xs - n) xs"
  by (simp add: segment_def)

lemma pc_update_history_window:
  assumes "length hist \<le> PC_HISTORY_SIZE" "length data \<le> PC_BLOCK_SIZE"
  shows "pc_update_history hist data = drop (length (hist @ data) - PC_HISTORY_SIZE) (hist @ data)"
proof -
  consider (long) "504 \<le> length data" | (fits) "length data < 504" "length hist + length data \<le> 504"
    | (slide) "length data < 504" "504 < length hist + length data" by linarith
  then show ?thesis
  proof cases
    case long
    then show ?thesis
      by (simp add: pc_update_history_def PC_HISTORY_SIZE_def segment_end Let_def)
  next
    case fits
    then show ?thesis by (simp add: pc_update_history_def PC_HISTORY_SIZE_def Let_def)
  next
    case slide
    then have "504 - length data \<le> length hist" by simp
    with slide assms show ?thesis
      by (auto simp: pc_update_history_def PC_HISTORY_SIZE_def PC_BLOCK_SIZE_def Let_def segment_def)
  qed
qed

lemma pc_update_history_length:
  "length hist \<le> PC_HISTORY_SIZE \<Longrightarrow> length data \<le> PC_BLOCK_SIZE \<Longrightarrow>
   length (pc_update_history hist data) \<le> PC_HISTORY_SIZE"
  by (simp add: pc_update_history_window)

subsection \<open>Frames\<close>

text \<open>The frame the encoder writes for a block: the two lengths, and the shorter of the compressed
  and the plain bytes.\<close>

definition pc_frame :: "byte list \<Rightarrow> byte list \<Rightarrow> byte list \<times> byte list" where
  "pc_frame hist raw =
     (case pc_compress_block (hist @ raw) (length hist) (length raw) PC_BLOCK_MAX_COMPRESSED of
        Some tmp \<Rightarrow>
          (if length raw \<le> length tmp then (bytes16 (word_of_nat (length raw)) @ [0, 0], raw)
           else (bytes16 (word_of_nat (length raw)) @ bytes16 (word_of_nat (length tmp)), tmp))
      | None \<Rightarrow> (bytes16 (word_of_nat (length raw)) @ [0, 0], raw))"

abbreviation frame_bytes :: "byte list \<Rightarrow> byte list \<Rightarrow> byte list" where
  "frame_bytes hist raw \<equiv> fst (pc_frame hist raw) @ snd (pc_frame hist raw)"

lemma pc_frame_header_length: "length (fst (pc_frame hist raw)) = 4"
  by (auto simp: pc_frame_def split: option.split)

lemma pc_frame_body_length: "length (snd (pc_frame hist raw)) \<le> length raw"
  by (auto simp: pc_frame_def split: option.split)

lemma pc_compress_block_nonempty:
  assumes "pc_compress_block (hist @ blk) (length hist) (length blk) cap = Some enc"
    and "length hist + length blk < 65536" and "blk \<noteq> []"
  shows "enc \<noteq> []"
proof
  assume "enc = []"
  with pc_compress_block_dec(1) [OF assms(1,2)] assms(3) show False
    by (simp add: pc_decompress_block_def)
qed

lemma pc_encoder_flush_frame:
  "pc_encoder_flush enc write_fn user =
     (if enc_block enc = [] then (PC_OK, enc, user)
      else
        let (header, body) = pc_frame (enc_history enc) (enc_block enc);
            enc1 = enc\<lparr>enc_history := pc_update_history (enc_history enc) (enc_block enc)\<rparr>;
            (rc, user1) = pc_write_all write_fn user header in
        if rc \<noteq> PC_OK then (rc, enc1, user1)
        else
          let (rc2, user2) = pc_write_all write_fn user1 body in
          if rc2 \<noteq> PC_OK then (rc2, enc1, user2)
          else (PC_OK, enc1\<lparr>enc_block := []\<rparr>, user2))"
  unfolding pc_encoder_flush_def pc_frame_def Let_def by (simp split: option.split)

text \<open>The header fields of a frame.\<close>

lemma pc_frame_fields:
  assumes "pc_frame hist raw = (h, b)" "raw \<noteq> []" "length raw \<le> PC_BLOCK_SIZE" "length hist \<le> PC_HISTORY_SIZE"
  shows "length h = 4" and "unat (le16 (h ! 0) (h ! 1)) = length raw"
    and "le16 (h ! 2) (h ! 3) = 0 \<and> b = raw
      \<or> unat (le16 (h ! 2) (h ! 3)) = length b \<and> 0 < length b \<and> length b < length raw
        \<and> pc_decompress_block hist b (length raw) = Some (Inr raw)"
proof -
  show "length h = 4" using pc_frame_header_length [of hist raw] assms(1) by simp
  have lens: "length raw < 65536" "length hist + length raw < 65536"
    using assms by (auto simp: PC_BLOCK_SIZE_def PC_HISTORY_SIZE_def)
  then have ur: "unat (word_of_nat (length raw) :: u16) = length raw" by (simp add: unat_of_nat)
  consider (plain) "h = bytes16 (word_of_nat (length raw)) @ [0, 0]" "b = raw" | (comp)
      "pc_compress_block (hist @ raw) (length hist) (length raw) PC_BLOCK_MAX_COMPRESSED = Some b"
      "length b < length raw" "h = bytes16 (word_of_nat (length raw)) @ bytes16 (word_of_nat (length b))"
  proof (cases "pc_compress_block (hist @ raw) (length hist) (length raw) PC_BLOCK_MAX_COMPRESSED")
    case None
    have "pc_frame hist raw = (bytes16 (word_of_nat (length raw)) @ [0, 0], raw)"
      unfolding pc_frame_def None option.case ..
    with assms(1) show thesis by (intro plain) (metis Pair_inject)+
  next
    case (Some tmp)
    have fr: "pc_frame hist raw = (if length raw \<le> length tmp then (bytes16 (word_of_nat (length raw)) @ [0, 0], raw)
        else (bytes16 (word_of_nat (length raw)) @ bytes16 (word_of_nat (length tmp)), tmp))"
      unfolding pc_frame_def Some option.case ..
    show thesis
    proof (cases "length raw \<le> length tmp")
      case True
      with assms(1) fr show thesis by (intro plain) (metis Pair_inject)+
    next
      case False
      with assms(1) fr have "h = bytes16 (word_of_nat (length raw)) @ bytes16 (word_of_nat (length b))" "b = tmp"
        by (metis Pair_inject)+
      with False Some show thesis by (intro comp) (simp_all only: not_le)
    qed
  qed
  then have "unat (le16 (h ! 0) (h ! 1)) = length raw \<and> (le16 (h ! 2) (h ! 3) = 0 \<and> b = raw
      \<or> unat (le16 (h ! 2) (h ! 3)) = length b \<and> 0 < length b \<and> length b < length raw
        \<and> pc_decompress_block hist b (length raw) = Some (Inr raw))" (is "?A \<and> ?B")
  proof cases
    case plain
    have "le16 (h ! 0) (h ! 1) = word_of_nat (length raw)" "le16 (h ! 2) (h ! 3) = 0"
      by (simp_all add: plain(1) bytes16_def le16_def [of 0 0])
    with ur plain(2) show ?thesis by simp
  next
    case comp
    have "le16 (h ! 0) (h ! 1) = word_of_nat (length raw)" "le16 (h ! 2) (h ! 3) = word_of_nat (length b)"
      by (simp_all add: comp(3) bytes16_def)
    moreover have "unat (word_of_nat (length b) :: u16) = length b"
      using comp(2) lens(1) by (simp add: unat_of_nat)
    moreover have "0 < length b" using pc_compress_block_nonempty [OF comp(1) lens(2) assms(2)] by simp
    ultimately show ?thesis using comp(2) ur pc_compress_block_dec(1) [OF comp(1) lens(2)] by metis
  qed
  then show ?A and ?B by (rule conjunct1, rule conjunct2)
qed

abbreviation dec_idle :: "byte list \<Rightarrow> pc_decoder" where
  "dec_idle hist \<equiv> pc_decoder_init\<lparr>dec_history := hist\<rparr>"

abbreviation dec_loaded :: "byte list \<Rightarrow> byte list \<Rightarrow> byte list \<Rightarrow> pc_decoder" where
  "dec_loaded h b hist \<equiv> \<lparr>dec_header = h, dec_raw_len = le16 (h ! 0) (h ! 1),
     dec_comp_len = le16 (h ! 2) (h ! 3), dec_payload = b, dec_history = hist\<rparr>"

lemma take_header_frame:
  assumes "pc_frame hist raw = (h, b)" "raw \<noteq> []" "length raw \<le> PC_BLOCK_SIZE" "length hist \<le> PC_HISTORY_SIZE"
  shows "dec_take_header (dec_idle hist) (h @ rest) = Header_Ready (dec_loaded h [] hist) rest"
    and "dec_target (dec_loaded h xs hist) = length b"
proof -
  note f = pc_frame_fields [OF assms]
  have n: "clamp_take 4 (length (h @ rest)) = 4" using f(1) by (simp add: clamp_take_def)
  have hd4: "take 4 (h @ rest) = h" "drop 4 (h @ rest) = rest" using f(1) by simp_all
  have "le16 (h ! 0) (h ! 1) \<noteq> 0" using f(2) assms(2) by auto
  moreover have "unat (le16 (h ! 2) (h ! 3)) \<le> PC_BLOCK_MAX_COMPRESSED"
    using f(3) assms(3) by (auto simp: PC_BLOCK_MAX_COMPRESSED_def PC_BLOCK_SIZE_def)
  ultimately show "dec_take_header (dec_idle hist) (h @ rest) = Header_Ready (dec_loaded h [] hist) rest"
    using assms(3) f(1,2) by (simp add: dec_take_header_def dec_header_done_def pc_decoder_init_def Let_def n hd4 del: length_append One_nat_def)
  show "dec_target (dec_loaded h xs hist) = length b"
    using f(2,3) by (auto simp: dec_target_def)
qed

text \<open>The frames of consecutive blocks, each against the history the previous ones leave.\<close>

fun frames :: "byte list \<Rightarrow> byte list list \<Rightarrow> byte list" where
  "frames hist [] = []"
| "frames hist (raw # blocks) = frame_bytes hist raw @ frames (pc_update_history hist raw) blocks"

definition good_blocks :: "byte list list \<Rightarrow> bool" where
  "good_blocks blocks = list_all (\<lambda>raw. raw \<noteq> [] \<and> length raw \<le> PC_BLOCK_SIZE) blocks"

lemma good_blocks_simps [simp]:
  "good_blocks []"
  "good_blocks (raw # blocks) \<longleftrightarrow> raw \<noteq> [] \<and> length raw \<le> PC_BLOCK_SIZE \<and> good_blocks blocks"
  "good_blocks (xs @ ys) \<longleftrightarrow> good_blocks xs \<and> good_blocks ys"
  by (auto simp: good_blocks_def)

lemma frames_append: "frames hist (xs @ ys) = frames hist xs @ frames (foldl pc_update_history hist xs) ys"
  by (induction xs arbitrary: hist) auto

lemma history_foldl:
  "length hist \<le> PC_HISTORY_SIZE \<Longrightarrow> good_blocks blocks \<Longrightarrow>
   length (foldl pc_update_history hist blocks) \<le> PC_HISTORY_SIZE"
  by (induction blocks arbitrary: hist) (auto simp: pc_update_history_length)

text \<open>One round of the encoder's loop.\<close>

lemma enc_sink_loop_Cons:
  assumes "data \<noteq> []" "length (enc_block enc) \<le> PC_BLOCK_SIZE"
  defines "room \<equiv> PC_BLOCK_SIZE - length (enc_block enc)"
  defines "enc1 \<equiv> enc\<lparr>enc_block := enc_block enc @ take room data\<rparr>"
  shows "enc_sink_loop enc data put user =
    (if length (enc_block enc1) = PC_BLOCK_SIZE then
       (case pc_encoder_flush enc1 (Some put) user of (rc, enc2, user2) \<Rightarrow>
          if rc \<noteq> PC_OK then Some (rc, enc2, user2) else enc_sink_loop enc2 (drop room data) put user2)
     else enc_sink_loop enc1 (drop room data) put user)"
proof -
  have "size_diff PC_BLOCK_SIZE (length (enc_block enc)) = room"
    using assms(2) by (simp add: room_def size_diff_eq PC_BLOCK_SIZE_def)
  moreover have "buf_put PC_BLOCK_SIZE (enc_block enc) (take room data) = Some (enc_block enc @ take room data)"
    using assms(2) by (simp add: buf_put_def room_def)
  ultimately show ?thesis
    using assms(1) unfolding enc_sink_loop.simps [of enc data] enc1_def by (simp add: take_clamp drop_clamp)
qed

subsection \<open>Writers\<close>

text \<open>
  What the encoder and the decoder rely on of a write callback: after a success the bytes
  are at the end of what is written, and a write that fits succeeds.
\<close>

locale byte_writer =
  fixes put :: "'u pc_write_fn" and written :: "'u \<Rightarrow> byte list" and room :: "'u \<Rightarrow> nat"
  assumes put_ok: "put u xs = (0, u') \<Longrightarrow> written u' = written u @ xs"
    and put_fits: "xs \<noteq> [] \<Longrightarrow> length xs \<le> room u \<Longrightarrow> fst (put u xs) = 0"
    and put_room: "xs \<noteq> [] \<Longrightarrow> put u xs = (0, u') \<Longrightarrow> room u' = room u - length xs"
begin

lemma write_all_ok:
  "pc_write_all (Some put) u xs = (PC_OK, u') \<Longrightarrow> written u' = written u @ xs"
  using put_ok by (auto simp: pc_write_all_def split: prod.splits if_splits)

lemma write_all_fits:
  assumes "length xs \<le> room u"
  shows "\<exists>u'. pc_write_all (Some put) u xs = (PC_OK, u') \<and> written u' = written u @ xs
    \<and> room u' = room u - length xs"
proof (cases "xs = []")
  case True
  then show ?thesis by (simp add: pc_write_all_def)
next
  case False
  obtain r u' where p: "put u xs = (r, u')" by (cases "put u xs")
  from put_fits [OF False assms] p have "put u xs = (0, u')" by simp
  with False put_ok put_room show ?thesis by (auto simp: pc_write_all_def)
qed

lemma flush_ok:
  assumes "pc_encoder_flush enc (Some put) u = (PC_OK, enc', u')" "enc_block enc \<noteq> []"
  shows "written u' = written u @ frame_bytes (enc_history enc) (enc_block enc)
    \<and> enc' = \<lparr>enc_block = [], enc_history = pc_update_history (enc_history enc) (enc_block enc)\<rparr>"
  using assms
  by (auto simp: pc_encoder_flush_frame Let_def dest!: write_all_ok split: prod.splits if_splits)

lemma flush_fits:
  assumes "length (frame_bytes (enc_history enc) (enc_block enc)) \<le> room u" "enc_block enc \<noteq> []"
  shows "\<exists>enc' u'. pc_encoder_flush enc (Some put) u = (PC_OK, enc', u')
    \<and> room u' = room u - length (frame_bytes (enc_history enc) (enc_block enc))"
proof -
  obtain h b where f: "pc_frame (enc_history enc) (enc_block enc) = (h, b)"
    by (cases "pc_frame (enc_history enc) (enc_block enc)")
  from assms(1) f obtain u1 where 1: "pc_write_all (Some put) u h = (PC_OK, u1)" "room u1 = room u - length h"
    using write_all_fits [of h u] by auto
  from assms(1) f 1 have "length b \<le> room u1" by simp
  from write_all_fits [OF this] obtain u2
    where "pc_write_all (Some put) u1 b = (PC_OK, u2)" "room u2 = room u1 - length b" by blast
  with 1 f assms(2) show ?thesis by (auto simp: pc_encoder_flush_frame)
qed

text \<open>The decoder reads a frame that lies at the front of its input.\<close>

lemma emit_block_frame:
  assumes f: "pc_frame hist raw = (h, b)" "raw \<noteq> []" "length raw \<le> PC_BLOCK_SIZE" "length hist \<le> PC_HISTORY_SIZE"
    and room: "length raw \<le> room u"
  shows "\<exists>u'. pc_decoder_emit_block (dec_loaded h b hist) put u
      = Some (PC_OK, dec_loaded h b (pc_update_history hist raw), u')
    \<and> written u' = written u @ raw \<and> room u' = room u - length raw"
proof -
  from write_all_fits [OF room] obtain u' where
    w: "pc_write_all (Some put) u raw = (PC_OK, u')" "written u' = written u @ raw" "room u' = room u - length raw"
    by blast
  note ff = pc_frame_fields [OF f]
  show ?thesis
  proof (cases "le16 (h ! 2) (h ! 3) = 0 \<and> b = raw")
    case True
    with w ff(2) show ?thesis by (simp add: pc_decoder_emit_block_def)
  next
    case False
    with ff(3) have c: "unat (le16 (h ! 2) (h ! 3)) = length b" "0 < length b"
      "pc_decompress_block hist b (length raw) = Some (Inr raw)" by auto
    then have "le16 (h ! 2) (h ! 3) \<noteq> 0" by (metis less_numeral_extra(3) unat_0)
    with c w ff(2) f(3) show ?thesis by (simp add: pc_decoder_emit_block_def)
  qed
qed

lemma take_payload_frame:
  assumes f: "pc_frame hist raw = (h, b)" "raw \<noteq> []" "length raw \<le> PC_BLOCK_SIZE" "length hist \<le> PC_HISTORY_SIZE"
    and room: "length raw \<le> room u"
  shows "\<exists>u'. dec_take_payload (dec_loaded h [] hist) (b @ rest) put u
      = Some (Sink_More (dec_idle (pc_update_history hist raw)) rest u')
    \<and> written u' = written u @ raw \<and> room u' = room u - length raw"
proof -
  have lb: "length b \<le> 508"
    using pc_frame_body_length [of hist raw] f by (simp add: PC_BLOCK_SIZE_def)
  have n: "clamp_take (size_diff (length b) 0) (length (b @ rest)) = length b"
    using lb by (simp add: clamp_take_def size_diff_def)
  have put: "buf_put PC_BLOCK_SIZE [] (take (length b) (b @ rest)) = Some b"
    using lb by (simp add: buf_put_def PC_BLOCK_SIZE_def)
  from emit_block_frame [OF assms] obtain u' where
    "pc_decoder_emit_block (dec_loaded h b hist) put u = Some (PC_OK, dec_loaded h b (pc_update_history hist raw), u')"
    "written u' = written u @ raw" "room u' = room u - length raw" by blast
  moreover from this(1) have "dec_block_done (dec_loaded h b hist) rest put u
      = Some (Sink_More (dec_idle (pc_update_history hist raw)) rest u')"
    by (simp add: dec_block_done_def pc_decoder_init_def)
  ultimately show ?thesis
    using put by (simp add: dec_take_payload_def take_header_frame(2) [OF f] n del: length_append One_nat_def)
qed

lemma dec_sink_frame:
  assumes f: "pc_frame hist raw = (h, b)" "raw \<noteq> []" "length raw \<le> PC_BLOCK_SIZE" "length hist \<le> PC_HISTORY_SIZE"
    and room: "length raw \<le> room u"
  shows "\<exists>u'. dec_sink_loop (dec_idle hist) (h @ b @ rest) put u
      = dec_sink_loop (dec_idle (pc_update_history hist raw)) rest put u'
    \<and> written u' = written u @ raw \<and> room u' = room u - length raw"
proof -
  from take_payload_frame [OF assms] obtain u' where
    p: "dec_take_payload (dec_loaded h [] hist) (b @ rest) put u
      = Some (Sink_More (dec_idle (pc_update_history hist raw)) rest u')"
    "written u' = written u @ raw" "room u' = room u - length raw" by blast
  then have "dec_sink_round (dec_idle hist) (h @ b @ rest) put u
      = Some (Sink_More (dec_idle (pc_update_history hist raw)) rest u')"
    by (simp add: dec_sink_round_def take_header_frame(1) [OF f])
  moreover have "h @ b @ rest \<noteq> []" using pc_frame_fields(1) [OF f] by auto
  ultimately show ?thesis using p by (auto simp: dec_sink_loop.simps [of _ "h @ b @ rest"])
qed

text \<open>The encoder's loop writes the frames of the full blocks, and keeps the rest.\<close>

lemma enc_sink_loop_frames:
  assumes "enc_sink_loop enc data put u = Some (PC_OK, enc', u')"
    and "length (enc_block enc) < PC_BLOCK_SIZE"
  shows "\<exists>blocks. list_all (\<lambda>raw. length raw = PC_BLOCK_SIZE) blocks
    \<and> enc_block enc @ data = concat blocks @ enc_block enc'
    \<and> length (enc_block enc') < PC_BLOCK_SIZE
    \<and> enc_history enc' = foldl pc_update_history (enc_history enc) blocks
    \<and> written u' = written u @ frames (enc_history enc) blocks"
  using assms
proof (induction "length data" arbitrary: enc data u rule: less_induct)
  case less
  show ?case
  proof (cases "data = []")
    case True
    with less.prems show ?thesis by (intro exI [of _ "[]"]) (simp add: enc_sink_loop.simps)
  next
    case False
    define room where "room = PC_BLOCK_SIZE - length (enc_block enc)"
    define raw where "raw = enc_block enc @ take room data"
    have smaller: "length (drop room data) < length data"
      using False less.prems(2) by (cases data) (simp_all add: room_def)
    note step = enc_sink_loop_Cons [OF False, of enc put u, folded room_def, folded raw_def]
    show ?thesis
    proof (cases "length raw = PC_BLOCK_SIZE")
      case True
      let ?enc1 = "enc\<lparr>enc_block := raw\<rparr>"
      obtain rc enc2 u2 where fl: "pc_encoder_flush ?enc1 (Some put) u = (rc, enc2, u2)"
        by (cases "pc_encoder_flush ?enc1 (Some put) u")
      with step True less.prems have "rc = PC_OK" by (cases "rc = PC_OK") auto
      with fl step True less.prems have loop: "enc_sink_loop enc2 (drop room data) put u2 = Some (PC_OK, enc', u')"
        by simp
      have ne: "enc_block ?enc1 \<noteq> []" using True by (auto simp: PC_BLOCK_SIZE_def)
      from fl \<open>rc = PC_OK\<close> have "pc_encoder_flush ?enc1 (Some put) u = (PC_OK, enc2, u2)" by simp
      from flush_ok [OF this ne] have e2: "written u2 = written u @ frame_bytes (enc_history enc) raw"
        "enc_block enc2 = []" "enc_history enc2 = pc_update_history (enc_history enc) raw" by simp_all
      from less.hyps [OF smaller loop] e2 obtain blocks where
        bl: "list_all (\<lambda>raw. length raw = PC_BLOCK_SIZE) blocks" "drop room data = concat blocks @ enc_block enc'"
        "length (enc_block enc') < PC_BLOCK_SIZE" "enc_history enc' = foldl pc_update_history (enc_history enc2) blocks"
        "written u' = written u2 @ frames (enc_history enc2) blocks" by (auto simp: PC_BLOCK_SIZE_def)
      have "enc_block enc @ data = raw @ drop room data" by (simp add: raw_def)
      then have "enc_block enc @ data = concat (raw # blocks) @ enc_block enc'" using bl(2) by simp
      with bl e2 True show ?thesis by (intro exI [of _ "raw # blocks"]) simp
    next
      case False
      then have "length raw < PC_BLOCK_SIZE" using less.prems(2) unfolding raw_def room_def length_append length_take by linarith
      with False step less.prems have loop:
        "enc_sink_loop (enc\<lparr>enc_block := raw\<rparr>) (drop room data) put u = Some (PC_OK, enc', u')" by simp
      have "enc_block enc @ data = raw @ drop room data" by (simp add: raw_def)
      with less.hyps [OF smaller loop] \<open>length raw < PC_BLOCK_SIZE\<close> show ?thesis by simp
    qed
  qed
qed

text \<open>The loop never leaves the block array, and succeeds when the writer has room for its frames.\<close>

lemma enc_sink_loop_fits:
  assumes "length (enc_block enc) < PC_BLOCK_SIZE"
    and "(length (enc_block enc) + length data) div PC_BLOCK_SIZE * (PC_BLOCK_SIZE + 4) \<le> room u"
  shows "\<exists>enc' u'. enc_sink_loop enc data put u = Some (PC_OK, enc', u')
    \<and> length (enc_block enc') = (length (enc_block enc) + length data) mod PC_BLOCK_SIZE
    \<and> room u - (length (enc_block enc) + length data) div PC_BLOCK_SIZE * (PC_BLOCK_SIZE + 4) \<le> room u'"
  using assms
proof (induction "length data" arbitrary: enc data u rule: less_induct)
  case less
  show ?case
  proof (cases "data = []")
    case True
    with less.prems show ?thesis by (simp add: enc_sink_loop.simps)
  next
    case False
    define rm where "rm = PC_BLOCK_SIZE - length (enc_block enc)"
    define raw where "raw = enc_block enc @ take rm data"
    have smaller: "length (drop rm data) < length data"
      using False less.prems(1) by (cases data) (simp_all add: rm_def)
    note step = enc_sink_loop_Cons [OF False, of enc put u, folded rm_def, folded raw_def]
    have lr: "length raw + length (drop rm data) = length (enc_block enc) + length data"
      by (simp add: raw_def)
    show ?thesis
    proof (cases "length raw = PC_BLOCK_SIZE")
      case True
      let ?enc1 = "enc\<lparr>enc_block := raw\<rparr>"
      let ?n = "length (drop rm data)"
      have n: "(length (enc_block enc) + length data) div PC_BLOCK_SIZE = Suc (?n div PC_BLOCK_SIZE)"
        "(length (enc_block enc) + length data) mod PC_BLOCK_SIZE = ?n mod PC_BLOCK_SIZE"
        using True by (simp_all add: lr [symmetric] PC_BLOCK_SIZE_def del: length_drop)
      have ne: "enc_block ?enc1 \<noteq> []" using True by (auto simp: PC_BLOCK_SIZE_def)
      have fl: "length (frame_bytes (enc_history enc) raw) \<le> PC_BLOCK_SIZE + 4"
        using pc_frame_header_length [of "enc_history enc" raw] pc_frame_body_length [of "enc_history enc" raw] True
        by simp
      with less.prems(2) n(1) have "length (frame_bytes (enc_history ?enc1) (enc_block ?enc1)) \<le> room u" by simp
      from flush_fits [OF this ne] obtain enc2 u2 where
        2: "pc_encoder_flush ?enc1 (Some put) u = (PC_OK, enc2, u2)"
          "room u2 = room u - length (frame_bytes (enc_history enc) raw)" by auto
      then have r2: "room u - (PC_BLOCK_SIZE + 4) \<le> room u2" using fl by simp
      have b2: "enc_block enc2 = []" using flush_OK_block [OF 2(1)] .
      have "?n div PC_BLOCK_SIZE * (PC_BLOCK_SIZE + 4) \<le> room u2" using r2 n(1) less.prems(2) by simp
      with less.hyps [OF smaller, of enc2 u2] b2 obtain enc' u' where
        "enc_sink_loop enc2 (drop rm data) put u2 = Some (PC_OK, enc', u')"
        "length (enc_block enc') = ?n mod PC_BLOCK_SIZE"
        "room u2 - ?n div PC_BLOCK_SIZE * (PC_BLOCK_SIZE + 4) \<le> room u'" by (auto simp: PC_BLOCK_SIZE_def)
      moreover from this(3) r2
      have "room u - Suc (?n div PC_BLOCK_SIZE) * (PC_BLOCK_SIZE + 4) \<le> room u'"
        unfolding mult_Suc by linarith
      ultimately show ?thesis using 2(1) step True n less.prems(1) by simp
    next
      case False
      then have lt: "length raw < PC_BLOCK_SIZE" using less.prems(1) unfolding raw_def rm_def length_append length_take by linarith
      with less.hyps [OF smaller, of "enc\<lparr>enc_block := raw\<rparr>" u] less.prems step lr False
      show ?thesis by simp
    qed
  qed
qed

lemma dec_sink_frames:
  assumes "good_blocks blocks" "length hist \<le> PC_HISTORY_SIZE" "length (concat blocks) \<le> room u"
  shows "\<exists>u'. dec_sink_loop (dec_idle hist) (frames hist blocks @ rest) put u
      = dec_sink_loop (dec_idle (foldl pc_update_history hist blocks)) rest put u'
    \<and> written u' = written u @ concat blocks \<and> room u' = room u - length (concat blocks)"
  using assms
proof (induction blocks arbitrary: hist u)
  case Nil
  then show ?case by auto
next
  case (Cons raw blocks)
  obtain h b where f: "pc_frame hist raw = (h, b)" by (cases "pc_frame hist raw")
  from Cons.prems dec_sink_frame [OF f, of u "frames (pc_update_history hist raw) blocks @ rest"] obtain u1 where
    1: "dec_sink_loop (dec_idle hist) (h @ b @ frames (pc_update_history hist raw) blocks @ rest) put u
      = dec_sink_loop (dec_idle (pc_update_history hist raw)) (frames (pc_update_history hist raw) blocks @ rest) put u1"
    "written u1 = written u @ raw" "room u1 = room u - length raw" by auto
  from Cons.prems 1(3) have "length (concat blocks) \<le> room u1" by simp
  with Cons.prems Cons.IH [of "pc_update_history hist raw" u1] obtain u2 where
    "dec_sink_loop (dec_idle (pc_update_history hist raw)) (frames (pc_update_history hist raw) blocks @ rest) put u1
      = dec_sink_loop (dec_idle (foldl pc_update_history hist (raw # blocks))) rest put u2"
    "written u2 = written u1 @ concat blocks" "room u2 = room u1 - length (concat blocks)"
    by (auto simp: pc_update_history_length simp del: length_concat)
  with 1 f show ?case by (intro exI [of _ u2]) simp
qed

end

interpretation mem: byte_writer "pc_mem_write cap" "\<lambda>out. out" "\<lambda>out. min cap (2 ^ 32 - 1) - length out"
proof
  fix xs u u'
  show "pc_mem_write cap u xs = (0, u') \<Longrightarrow> u' = u @ xs"
    by (simp add: pc_mem_write_def split: if_splits)
  show "xs \<noteq> [] \<Longrightarrow> length xs \<le> min cap (2 ^ 32 - 1) - length u \<Longrightarrow> fst (pc_mem_write cap u xs) = 0"
    by (cases xs) (auto simp: pc_mem_write_def)
  show "xs \<noteq> [] \<Longrightarrow> pc_mem_write cap u xs = (0, u') \<Longrightarrow>
      min cap (2 ^ 32 - 1) - length u' = min cap (2 ^ 32 - 1) - length u - length xs"
    by (auto simp: pc_mem_write_def split: if_splits)
qed


subsection \<open>The one-shot functions\<close>

text \<open>The output of \<open>pc_compress_buffer\<close> is the frames of the input cut into full blocks and a rest.\<close>

lemma pc_compress_buffer_frames:
  assumes "pc_compress_buffer (Some xs) (length xs) (Some cap) = Some (Inr out)"
  shows "\<exists>blocks last. list_all (\<lambda>raw. length raw = PC_BLOCK_SIZE) blocks \<and> length last < PC_BLOCK_SIZE
    \<and> xs = concat blocks @ last \<and> out = frames [] (blocks @ (if last = [] then [] else [last]))"
proof -
  let ?f = "pc_mem_write cap"
  from assms obtain enc out1 where
    sink: "enc_sink_loop pc_encoder_init xs ?f [] = Some (PC_OK, enc, out1)"
    and fin: "\<exists>enc2. pc_encoder_flush enc (Some ?f) out1 = (PC_OK, enc2, out)"
    by (auto simp: pc_compress_buffer_def pc_encoder_sink_def pc_encoder_finish_def
        split: option.splits prod.splits if_splits)
  have "length (enc_block pc_encoder_init) < PC_BLOCK_SIZE" by (simp add: pc_encoder_init_def PC_BLOCK_SIZE_def)
  from mem.enc_sink_loop_frames [OF sink this] obtain blocks where
    b: "list_all (\<lambda>raw. length raw = PC_BLOCK_SIZE) blocks" "xs = concat blocks @ enc_block enc"
      "length (enc_block enc) < PC_BLOCK_SIZE" "enc_history enc = foldl pc_update_history [] blocks"
      "out1 = frames [] blocks" by (auto simp: pc_encoder_init_def)
  have "out = frames [] (blocks @ (if enc_block enc = [] then [] else [enc_block enc]))"
  proof (cases "enc_block enc = []")
    case True
    with fin b(5) show ?thesis by (simp add: pc_encoder_flush_def)
  next
    case False
    from fin mem.flush_ok [OF _ False] have "out = out1 @ frame_bytes (enc_history enc) (enc_block enc)" by metis
    with b False show ?thesis by (simp add: frames_append)
  qed
  with b show ?thesis by blast
qed

lemma full_blocks_good: "list_all (\<lambda>raw. length raw = PC_BLOCK_SIZE) blocks \<Longrightarrow> good_blocks blocks"
  by (induction blocks) (auto simp: PC_BLOCK_SIZE_def)

lemma frames_length:
  "length (frames hist blocks) \<le> length (concat blocks) + 4 * length blocks"
proof (induction blocks arbitrary: hist)
  case (Cons raw blocks)
  from Cons.IH [of "pc_update_history hist raw"] pc_frame_header_length [of hist raw] pc_frame_body_length [of hist raw]
  show ?case by simp
qed simp

lemma full_blocks_length:
  "list_all (\<lambda>raw. length raw = PC_BLOCK_SIZE) blocks \<Longrightarrow> length (concat blocks) = PC_BLOCK_SIZE * length blocks"
  by (induction blocks) auto

lemma pc_compress_bound_eq:
  "n < 2 ^ 31 \<Longrightarrow> pc_compress_bound n = n + 4 * ((n + PC_BLOCK_SIZE - 1) div PC_BLOCK_SIZE)"
  by (auto simp: pc_compress_bound_def PC_BLOCK_SIZE_def Let_def)

lemma block_count:
  "(n + PC_BLOCK_SIZE - 1) div PC_BLOCK_SIZE = n div PC_BLOCK_SIZE + (if n mod PC_BLOCK_SIZE = 0 then 0 else 1)"
proof -
  let ?q = "n div 508" and ?r = "n mod 508"
  have r: "?r < 508" by simp
  have "(n + 507) div 508 = (508 * ?q + (?r + 507)) div 508" by simp
  also have "\<dots> = ?q + (?r + 507) div 508" by (subst div_mult_self4) simp_all
  also have "(?r + 507) div 508 = (if ?r = 0 then 0 else 1)"
    using r by (auto intro!: div_nat_eqI)
  finally show ?thesis by (simp add: PC_BLOCK_SIZE_def)
qed

lemma decompress_compress:
  assumes "pc_compress_buffer (Some xs) (length xs) (Some cap) = Some (Inr out)"
    and "length xs \<le> cap2" and "length xs < 2 ^ 32"
  shows "pc_decompress_buffer (Some out) (length out) (Some cap2) = Some (Inr xs)"
proof -
  from pc_compress_buffer_frames [OF assms(1)] obtain blocks where
    b: "good_blocks blocks" "xs = concat blocks" "out = frames [] blocks"
  proof (elim exE conjE)
    fix bl l
    assume "list_all (\<lambda>raw. length raw = PC_BLOCK_SIZE) bl" "length l < PC_BLOCK_SIZE" "xs = concat bl @ l"
      "out = frames [] (bl @ (if l = [] then [] else [l]))"
    then show thesis
      by (intro that [of "bl @ (if l = [] then [] else [l])"]) (auto intro: full_blocks_good)
  qed
  have "length (concat blocks) \<le> min cap2 (2 ^ 32 - 1) - length ([] :: byte list)"
    using assms(2,3) by (simp add: b(2) del: length_concat)
  from mem.dec_sink_frames [OF b(1) _ this, of "[]" "[]"]
  have "dec_sink_loop pc_decoder_init out (pc_mem_write cap2) []
      = Some (PC_OK, dec_idle (foldl pc_update_history [] blocks), xs)"
    by (auto simp: b(2,3) pc_decoder_init_def)
  then show ?thesis
    by (simp add: pc_decompress_buffer_def pc_decoder_sink_def pc_decoder_finish_def pc_decoder_init_def)
qed

text \<open>
  C1: compression loses nothing. Whatever \<open>pc_compress_buffer\<close> accepts, into a buffer of any
  size, \<open>pc_decompress_buffer\<close> turns back into exactly the input when its own output buffer
  can hold it; in particular it never reads or writes outside its arrays on such data.
\<close>

theorem pc_buffer_roundtrip:
  assumes "pc_compress_buffer (Some xs) (length xs) (Some cap) = Some (Inr out)"
    and "length xs \<le> cap2" and "length xs < 2 ^ 32"
  shows "pc_decompress_buffer (Some out) (length out) (Some cap2) = Some (Inr xs)"
  using assms by (rule decompress_compress)

theorem pc_buffer_roundtrip_witness:
  "pc_compress_buffer (Some (replicate 5 7)) (length (replicate 5 (7 :: byte))) (Some 8) = Some (Inr [5, 0, 4, 0, 0, 7, 0x84, 1])
   \<and> pc_decompress_buffer (Some [5, 0, 4, 0, 0, 7, 0x84, 1]) (length [5, 0, 4, 0, 0, 7, 0x84, 1 :: byte]) (Some 5)
      = Some (Inr (replicate 5 7))"
proof -
  have c: "pc_compress_buffer (Some (replicate 5 7)) (length (replicate 5 (7 :: byte))) (Some 8)
    = Some (Inr [5, 0, 4, 0, 0, 7, 0x84, 1])" by code_simp
  with pc_buffer_roundtrip [OF c] show ?thesis by simp
qed

lemma compress_fits:
  assumes "pc_compress_bound (length xs) \<le> cap" and "length xs < 2 ^ 31"
  shows "\<exists>out. pc_compress_buffer (Some xs) (length xs) (Some cap) = Some (Inr out)
    \<and> length out \<le> pc_compress_bound (length xs)"
proof -
  let ?n = "length xs"
  let ?q = "?n div PC_BLOCK_SIZE" and ?r = "?n mod PC_BLOCK_SIZE"
  have bound: "?q * (PC_BLOCK_SIZE + 4) + (if ?r = 0 then 0 else ?r + 4) \<le> pc_compress_bound ?n"
    using block_count [of ?n] mult_div_mod_eq [of PC_BLOCK_SIZE ?n]
    unfolding pc_compress_bound_eq [OF assms(2)] by (auto simp: algebra_simps)
  have small: "pc_compress_bound ?n < 2 ^ 32"
    by (simp add: pc_compress_bound_def Let_def)
  let ?room = "\<lambda>out :: byte list. min cap (2 ^ 32 - 1) - length out"
  have "?q * (PC_BLOCK_SIZE + 4) + (if ?r = 0 then 0 else ?r + 4) \<le> ?room []"
    using bound small assms(1) by simp
  moreover from this have "(length (enc_block pc_encoder_init) + ?n) div PC_BLOCK_SIZE * (PC_BLOCK_SIZE + 4) \<le> ?room []"
    by (simp add: pc_encoder_init_def)
  with mem.enc_sink_loop_fits [of pc_encoder_init xs cap "[]"] obtain enc out1 where
    1: "enc_sink_loop pc_encoder_init xs (pc_mem_write cap) [] = Some (PC_OK, enc, out1)"
      "length (enc_block enc) = ?r" and "?room [] - ?q * (PC_BLOCK_SIZE + 4) \<le> ?room out1"
    by (auto simp: pc_encoder_init_def PC_BLOCK_SIZE_def)
  ultimately have 3: "?r + 4 \<le> ?room out1" if "?r \<noteq> 0"
    using that by (simp split: if_splits) linarith
  obtain enc2 out where 2: "pc_encoder_flush enc (Some (pc_mem_write cap)) out1 = (PC_OK, enc2, out)"
  proof (cases "enc_block enc = []")
    case True
    then show thesis by (intro that) (simp add: pc_encoder_flush_def)
  next
    case False
    with 1(2) have "?r \<noteq> 0" by (metis length_0_conv)
    then have "?r + 4 \<le> ?room out1" by (rule 3)
    then have "length (frame_bytes (enc_history enc) (enc_block enc)) \<le> ?room out1"
      using 1(2) pc_frame_header_length [of "enc_history enc" "enc_block enc"]
        pc_frame_body_length [of "enc_history enc" "enc_block enc"] by auto
    from mem.flush_fits [OF this False] show thesis using that by blast
  qed
  from 1 2 have comp: "pc_compress_buffer (Some xs) ?n (Some cap) = Some (Inr out)"
    by (simp add: pc_compress_buffer_def pc_encoder_sink_def pc_encoder_finish_def)
  moreover have "length out \<le> pc_compress_bound ?n"
  proof -
    from pc_compress_buffer_frames [OF comp] obtain blocks l where
      b: "list_all (\<lambda>raw. length raw = PC_BLOCK_SIZE) blocks" "length l < PC_BLOCK_SIZE"
        "xs = concat blocks @ l" "out = frames [] (blocks @ (if l = [] then [] else [l]))" by blast
    let ?all = "blocks @ (if l = [] then [] else [l])"
    have "length (concat ?all) = ?n" by (simp add: b(3))
    with b(4) frames_length [of "[]" ?all] have "length out \<le> ?n + 4 * length ?all" by simp
    moreover have "?q = length blocks" "?r = length l"
      using b(2) full_blocks_length [OF b(1)] by (simp_all add: b(3) PC_BLOCK_SIZE_def)
    moreover have "?n = ?q * PC_BLOCK_SIZE + ?r" by simp
    ultimately show ?thesis using bound by (cases "l = []") (simp_all add: algebra_simps)
  qed
  ultimately show ?thesis by blast
qed

text \<open>
  C5: \<open>pc_compress_bound\<close> is an upper bound. A buffer of that many bytes is always enough, and
  the output never exceeds it.
\<close>

theorem pc_compress_bound_enough:
  assumes "pc_compress_bound (length xs) \<le> cap" and "length xs < 2 ^ 31"
  shows "\<exists>out. pc_compress_buffer (Some xs) (length xs) (Some cap) = Some (Inr out)
    \<and> length out \<le> pc_compress_bound (length xs)"
  using assms by (rule compress_fits)

theorem pc_compress_bound_enough_witness:
  "\<exists>out. pc_compress_buffer (Some (replicate 600 7)) (length (replicate 600 (7 :: byte))) (Some 608) = Some (Inr out)
    \<and> length out \<le> 608"
proof -
  have b: "pc_compress_bound (length (replicate 600 (7 :: byte))) = 608"
    by (simp add: pc_compress_bound_def PC_BLOCK_SIZE_def Let_def)
  from pc_compress_bound_enough [of "replicate 600 7" 608] show ?thesis unfolding b by simp
qed

text \<open>
  The history window. \<open>pc_update_history\<close>, in each of its three branches, leaves the last
  \<open>PC_HISTORY_SIZE\<close> bytes of the old window followed by the new data.
\<close>

theorem pc_update_history_recent:
  assumes "length hist \<le> PC_HISTORY_SIZE" "length data \<le> PC_BLOCK_SIZE"
  shows "pc_update_history hist data = drop (length (hist @ data) - PC_HISTORY_SIZE) (hist @ data)"
  using assms by (rule pc_update_history_window)

theorem pc_update_history_recent_witness:
  "pc_update_history (replicate 500 1) (replicate 8 2) = replicate 496 1 @ replicate 8 2"
  using pc_update_history_recent [of "replicate 500 1" "replicate 8 2"]
  by (simp add: PC_HISTORY_SIZE_def PC_BLOCK_SIZE_def)

text \<open>
  C7: the decoder accepts headers whose compressed length exceeds its payload array. A frame
  with a compressed length in \<open>PC_BLOCK_SIZE < clen \<le> PC_BLOCK_MAX_COMPRESSED\<close> passes the header
  checks, and as soon as that many bytes have arrived the decoder has copied them beyond
  \<open>payload[PC_BLOCK_SIZE]\<close>.
\<close>

theorem pc_decoder_payload_overflow:
  assumes "0 < rlen" and "rlen \<le> PC_BLOCK_SIZE" and "PC_BLOCK_SIZE < clen" and "clen \<le> PC_BLOCK_MAX_COMPRESSED"
    and "clen \<le> length data"
  shows "pc_decoder_sink (Some pc_decoder_init)
    (Some (bytes16 (word_of_nat rlen) @ bytes16 (word_of_nat clen) @ data)) (4 + length data) (Some f) u = None"
proof -
  let ?h = "bytes16 (word_of_nat rlen) @ bytes16 (word_of_nat clen)"
  have small: "rlen < 65536" "clen < 65536"
    using assms by (auto simp: PC_BLOCK_SIZE_def PC_BLOCK_MAX_COMPRESSED_def PC_LITERAL_MAX_def)
  then have u: "unat (word_of_nat rlen :: u16) = rlen" "unat (word_of_nat clen :: u16) = clen"
    by (simp_all add: unat_of_nat)
  then have nz: "(word_of_nat rlen :: u16) \<noteq> 0" "(word_of_nat clen :: u16) \<noteq> 0"
    using assms(1,3) by auto
  define h where "h = ?h"
  have h: "length h = 4" "le16 (h ! 0) (h ! 1) = word_of_nat rlen" "le16 (h ! 2) (h ! 3) = word_of_nat clen"
    by (simp_all add: h_def bytes16_def)
  let ?d = "\<lparr>dec_header = h, dec_raw_len = word_of_nat rlen, dec_comp_len = word_of_nat clen, dec_payload = [],
    dec_history = []\<rparr>"
  have "clamp_take 4 (length (h @ data)) = 4" using h(1) by (simp add: clamp_take_def)
  then have ready: "dec_take_header pc_decoder_init (h @ data) = Header_Ready ?d data"
    using assms(1-4) u nz h
    by (simp add: dec_take_header_def dec_header_done_def Let_def pc_decoder_init_def del: length_append One_nat_def)
  have "size_diff (dec_target ?d) 0 = clen"
    using nz u small by (simp add: dec_target_def size_diff_def)
  then have "dec_take_payload ?d data f u = None"
    using assms(3,5) by (simp add: dec_take_payload_def buf_put_def take_clamp Let_def clamp_take_def)
  then have round: "dec_sink_round pc_decoder_init (h @ data) f u = None"
    by (simp add: dec_sink_round_def ready)
  have "h @ data \<noteq> []" using h(1) by auto
  from dec_sink_loop_round(1) [OF this round] have "dec_sink_loop pc_decoder_init (?h @ data) f u = None"
    by (simp add: h_def)
  then show ?thesis by (simp add: pc_decoder_sink_def)
qed

theorem pc_decoder_payload_overflow_witness:
  "pc_decoder_sink (Some pc_decoder_init)
    (Some (bytes16 (word_of_nat 1) @ bytes16 (word_of_nat 509) @ replicate 509 0)) (4 + length (replicate 509 (0::byte)))
    (Some (pc_mem_write 508)) [] = None"
  by (rule pc_decoder_payload_overflow)
    (simp_all add: PC_BLOCK_SIZE_def PC_BLOCK_MAX_COMPRESSED_def PC_LITERAL_MAX_def)

end
