(* ===== verification/KeyMap.thy ===== *)
theory KeyMap
  imports Prelude
begin

text \<open>
  The contract of an index of bounded size: what its callers rely on, stated once.
  A store may refuse a new key when it is full, but never an existing one, and a refused
  store changes nothing that a lookup sees. \<open>key_map\<close> is interpreted by the index of \<open>kv_flash.c\<close> and by the
  hash table of \<open>kv_sd.c\<close>.
\<close>

datatype ('k, 'v) map_op = Put 'k 'v | Del 'k

text \<open>The abstract specification: a finite map where a store of a new key may be refused.\<close>

inductive map_spec :: "('k \<Rightarrow> 'v option) \<Rightarrow> ('k, 'v) map_op \<Rightarrow> ('k \<Rightarrow> 'v option) \<Rightarrow> bool" where
  stored: "map_spec m (Put k v) (m(k \<mapsto> v))"
| refused: "m k = None \<Longrightarrow> map_spec m (Put k v) m"
| deleted: "map_spec m (Del k) (m(k := None))"

inductive_cases map_spec_PutE: "map_spec m (Put k v) m'"
inductive_cases map_spec_DelE: "map_spec m (Del k) m'"

inductive map_runs :: "('k \<Rightarrow> 'v option) \<Rightarrow> ('k, 'v) map_op list \<Rightarrow> ('k \<Rightarrow> 'v option) \<Rightarrow> bool" where
  nil: "map_runs m [] m"
| cons: "map_spec m x m1 \<Longrightarrow> map_runs m1 xs m2 \<Longrightarrow> map_runs m (x # xs) m2"

inductive_simps map_runs_simps [simp]: "map_runs m [] m'" "map_runs m (x # xs) m'"

fun op_key :: "('k, 'v) map_op \<Rightarrow> 'k" where
  "op_key (Put k v) = k"
| "op_key (Del k) = k"

lemma map_spec_other: "map_spec m x m' \<Longrightarrow> k \<noteq> op_key x \<Longrightarrow> m' k = m k"
  by (cases x) (auto elim: map_spec_PutE map_spec_DelE)

lemma map_runs_other: "map_runs m xs m' \<Longrightarrow> k \<notin> op_key ` set xs \<Longrightarrow> m' k = m k"
  by (induction rule: map_runs.induct) (auto dest: map_spec_other)

definition map_step :: "('s \<Rightarrow> 'k \<Rightarrow> 'v \<Rightarrow> bool \<times> 's) \<Rightarrow> ('s \<Rightarrow> 'k \<Rightarrow> 's) \<Rightarrow> ('k, 'v) map_op \<Rightarrow> 's \<Rightarrow> 's" where
  "map_step put del x s = (case x of Put k v \<Rightarrow> snd (put s k v) | Del k \<Rightarrow> del s k)"

locale key_map =
  fixes inv :: "'s \<Rightarrow> bool" and lookup :: "'s \<Rightarrow> 'k \<Rightarrow> 'v option"
    and get :: "'s \<Rightarrow> 'k \<Rightarrow> 'v option" and put :: "'s \<Rightarrow> 'k \<Rightarrow> 'v \<Rightarrow> bool \<times> 's" and del :: "'s \<Rightarrow> 'k \<Rightarrow> 's"
  assumes get_lookup: "inv s \<Longrightarrow> get s k = lookup s k"
    and put_stored: "inv s \<Longrightarrow> put s k v = (True, s') \<Longrightarrow> inv s' \<and> lookup s' = (lookup s)(k \<mapsto> v)"
    and put_refused: "inv s \<Longrightarrow> put s k v = (False, s') \<Longrightarrow> inv s' \<and> lookup s' = lookup s \<and> lookup s k = None"
    and del_deleted: "inv s \<Longrightarrow> inv (del s k) \<and> lookup (del s k) = (lookup s)(k := None)"
begin

lemma get_put: "inv s \<Longrightarrow> put s k v = (True, s') \<Longrightarrow> get s' k' = (if k' = k then Some v else get s k')"
  using put_stored [of s k v s'] by (simp add: get_lookup)

lemma get_del: "inv s \<Longrightarrow> get (del s k) k' = (if k' = k then None else get s k')"
  using del_deleted [of s k] by (simp add: get_lookup)

lemma put_existing: "inv s \<Longrightarrow> get s k \<noteq> None \<Longrightarrow> fst (put s k v)"
  using put_refused [of s k v "snd (put s k v)"] get_lookup [of s k]
  by (cases "fst (put s k v)") (auto simp: prod_eq_iff)

lemma step_refines:
  assumes "inv s"
  shows "inv (map_step put del x s)" and "map_spec (lookup s) x (lookup (map_step put del x s))"
proof -
  have "inv (map_step put del x s) \<and> map_spec (lookup s) x (lookup (map_step put del x s))"
  proof (cases x)
    case (Put k v)
    obtain b s' where p: "put s k v = (b, s')" by (cases "put s k v")
    with Put assms put_stored [OF assms, of k v s'] put_refused [OF assms, of k v s'] show ?thesis
      by (cases b) (auto simp: map_step_def intro: map_spec.intros)
  next
    case (Del k)
    with del_deleted [OF assms, of k] show ?thesis
      by (auto simp: map_step_def intro: map_spec.intros)
  qed
  then show "inv (map_step put del x s)" and "map_spec (lookup s) x (lookup (map_step put del x s))" by auto
qed

lemma run_refines:
  "inv s \<Longrightarrow> inv (fold (map_step put del) xs s) \<and> map_runs (lookup s) xs (lookup (fold (map_step put del) xs s))"
proof (induction xs arbitrary: s)
  case (Cons x xs)
  from step_refines [OF Cons.prems, of x] Cons.IH [of "map_step put del x s"] show ?case by auto
qed simp

end

end
