(* ===== verification/KvIndex.thy ===== *)
theory KvIndex
  imports KeyMap
begin

text \<open>
  The in-memory index of \<open>src/kv_flash.c\<close>: packed record locations, the sorted parallel
  arrays with their binary search, and the per-page reference counts that decide which
  sector may be erased.

  The four parallel arrays \<open>g_keys\<close>, \<open>g_locs\<close>, \<open>g_versions\<close>, \<open>g_flags\<close> with \<open>g_count\<close> are one
  list of records. \<open>kv_state\<close> holds every static variable of the file and the flash itself
  (the bytes seen through XIP).
\<close>

unbundle bit_operations_syntax

subsection \<open>State\<close>

definition KV_INDEX_CAPACITY :: nat where "KV_INDEX_CAPACITY = 4096"
definition KV_SECTOR_SIZE :: nat where "KV_SECTOR_SIZE = 4096"
definition KV_PAGE_SIZE :: nat where "KV_PAGE_SIZE = 256"
definition KV_DEADLOG_SECTORS :: nat where "KV_DEADLOG_SECTORS = 4"
definition KV_FLASH_TOTAL :: nat where "KV_FLASH_TOTAL = 4 * 1024 * 1024"
definition KV_REGION_START :: nat where "KV_REGION_START = 1024 * 1024"
definition KV_REGION_END :: nat where
  "KV_REGION_END = KV_FLASH_TOTAL - KV_SECTOR_SIZE - KV_DEADLOG_SECTORS * KV_SECTOR_SIZE"
definition KV_DEADLOG_START :: nat where "KV_DEADLOG_START = KV_REGION_END"
definition KV_DEADLOG_END :: nat where "KV_DEADLOG_END = KV_FLASH_TOTAL - KV_SECTOR_SIZE"
definition KV_SECTOR_COUNT :: nat where
  "KV_SECTOR_COUNT = (KV_REGION_END - KV_REGION_START) div KV_SECTOR_SIZE"

lemmas kv_layout = KV_SECTOR_SIZE_def KV_PAGE_SIZE_def KV_DEADLOG_SECTORS_def KV_FLASH_TOTAL_def
  KV_REGION_START_def KV_REGION_END_def KV_DEADLOG_START_def KV_DEADLOG_END_def

lemma KV_SECTOR_COUNT_eq: "KV_SECTOR_COUNT = 763"
  by (simp add: KV_SECTOR_COUNT_def kv_layout)

type_synonym flash = "nat \<Rightarrow> byte"

record idx_entry =
  e_key :: u32
  e_loc :: u32
  e_version :: u16
  e_flags :: byte

record kv_state =
  kv_flash :: flash
  g_index :: "idx_entry list"
  g_page_ref_count :: "nat \<Rightarrow> nat"
  g_page_sequence :: u32
  g_mutation_group :: u32
  g_write_page :: nat
  g_write_off :: nat
  g_deadlog_write_page :: nat
  g_deadlog_write_off :: nat
  g_deadlog_read_page :: nat
  g_deadlog_read_off :: nat

subsection \<open>Packed locations\<close>

definition pack_loc :: "nat \<Rightarrow> nat \<Rightarrow> nat \<Rightarrow> u32" where
  "pack_loc page off_bytes len_bytes =
     (let off_q = off_bytes div 4;
          len_q = cast16 ((len_bytes + 3) div 4);
          off_q = (if 0x3FF < off_q then 0x3FF else off_q);
          len_q = (if 0x3FF < len_q then 0x3FF else len_q) in
      push_bit 20 (word_of_nat page AND 0xFFF) OR push_bit 10 (word_of_nat off_q AND 0x3FF)
        OR (word_of_nat len_q AND 0x3FF))"

definition unpack_loc :: "u32 \<Rightarrow> nat \<times> nat \<times> nat" where
  "unpack_loc loc =
     (unat (drop_bit 20 loc AND 0xFFF), cast16 (unat (drop_bit 10 loc AND 0x3FF) * 4),
      cast16 (unat (loc AND 0x3FF) * 4))"

abbreviation loc_page :: "u32 \<Rightarrow> nat" where "loc_page loc \<equiv> fst (unpack_loc loc)"
abbreviation loc_off :: "u32 \<Rightarrow> nat" where "loc_off loc \<equiv> fst (snd (unpack_loc loc))"

lemma mask_eq_take_bit:
  "(w :: u32) AND 0x3FF = take_bit 10 w" "w AND 0xFFF = take_bit 12 w"
  by (simp_all add: take_bit_eq_mask mask_eq_exp_minus_1)

lemma packed_fields:
  fixes p q r :: u32
  defines "w \<equiv> push_bit 20 (take_bit 12 p) OR push_bit 10 (take_bit 10 q) OR take_bit 10 r"
  shows "take_bit 12 (drop_bit 20 w) = take_bit 12 p" "take_bit 10 (drop_bit 10 w) = take_bit 10 q"
    "take_bit 10 w = take_bit 10 r"
  by (auto intro!: bit_word_eqI simp: w_def bit_simps)

lemma unat_take_bit_of_nat: "n < 2 ^ m \<Longrightarrow> m \<le> 32 \<Longrightarrow> unat (take_bit m (word_of_nat n :: u32)) = n"
proof -
  assume n: "n < 2 ^ m" "m \<le> 32"
  then have "n < 2 ^ 32" by (meson less_le_trans one_le_numeral power_increasing)
  with n show ?thesis by (simp add: unsigned_take_bit_eq unat_of_nat take_bit_nat_eq_self)
qed

lemma unpack_pack:
  assumes "page < 4096" "off < 4096" "4 dvd off" "len \<le> 4092"
  shows "unpack_loc (pack_loc page off len) = (page, off, (len + 3) div 4 * 4)"
proof -
  have q: "off div 4 < 2 ^ 10" "(len + 3) div 4 < 2 ^ 10" "page < 2 ^ 12" using assms by auto
  then have pl: "pack_loc page off len = push_bit 20 (take_bit 12 (word_of_nat page))
      OR push_bit 10 (take_bit 10 (word_of_nat (off div 4))) OR take_bit 10 (word_of_nat ((len + 3) div 4))"
    by (simp add: pack_loc_def Let_def mask_eq_take_bit)
  show ?thesis
    unfolding unpack_loc_def mask_eq_take_bit pl packed_fields
    using q assms by (simp add: unat_take_bit_of_nat)
qed

subsection \<open>Binary search\<close>

function idx_search :: "idx_entry list \<Rightarrow> u32 \<Rightarrow> int \<Rightarrow> int \<Rightarrow> int" where
  "idx_search es key lo hi =
     (if lo \<le> hi then
        let mid = lo + (hi - lo) div 2 in
        if e_key (es ! nat mid) = key then mid
        else if e_key (es ! nat mid) < key then idx_search es key (mid + 1) hi
        else idx_search es key lo (mid - 1)
      else - (lo + 1))"
  by pat_completeness auto
termination
  by (relation "measure (\<lambda>(es, key, lo, hi). nat (hi - lo + 1))") auto

declare idx_search.simps [simp del]

definition idx_find_linear :: "idx_entry list \<Rightarrow> u32 \<Rightarrow> int" where
  "idx_find_linear es key = idx_search es key 0 (int (length es) - 1)"

subsection \<open>Reference counts\<close>

definition ref_dec :: "nat \<Rightarrow> (nat \<Rightarrow> nat) \<Rightarrow> nat \<Rightarrow> nat" where
  "ref_dec page refs = (if 0 < refs page \<and> refs page < 255 then refs(page := refs page - 1) else refs)"

definition ref_inc :: "nat \<Rightarrow> (nat \<Rightarrow> nat) \<Rightarrow> nat \<Rightarrow> nat" where
  "ref_inc page refs = (if refs page < 255 then refs(page := refs page + 1) else refs)"

subsection \<open>Index operations\<close>

definition idx_set :: "kv_state \<Rightarrow> u32 \<Rightarrow> u32 \<Rightarrow> u16 \<Rightarrow> byte \<Rightarrow> bool \<times> kv_state" where
  "idx_set s key loc version flags =
     (let es = g_index s; f = idx_find_linear es key in
      if 0 \<le> f then
        let i = nat f;
            refs = ref_dec (loc_page (e_loc (es ! i))) (g_page_ref_count s) in
        (True, s\<lparr>g_index := es[i := (es ! i)\<lparr>e_loc := loc, e_version := version, e_flags := flags\<rparr>],
                 g_page_ref_count := ref_inc (loc_page loc) refs\<rparr>)
      else if KV_INDEX_CAPACITY \<le> length es then (False, s)
      else
        let pos = nat (- f - 1);
            e = \<lparr>e_key = key, e_loc = loc, e_version = version, e_flags = flags\<rparr> in
        (True, s\<lparr>g_index := take pos es @ e # drop pos es,
                 g_page_ref_count := ref_inc (loc_page loc) (g_page_ref_count s)\<rparr>))"

definition idx_remove :: "kv_state \<Rightarrow> u32 \<Rightarrow> kv_state" where
  "idx_remove s key =
     (let es = g_index s; f = idx_find_linear es key in
      if f < 0 then s
      else
        let i = nat f in
        s\<lparr>g_index := take i es @ drop (i + 1) es,
          g_page_ref_count := ref_dec (loc_page (e_loc (es ! i))) (g_page_ref_count s)\<rparr>)"

definition idx_get :: "kv_state \<Rightarrow> u32 \<Rightarrow> (u32 \<times> u16 \<times> byte) option" where
  "idx_get s key =
     (let f = idx_find_linear (g_index s) key in
      if f < 0 then None
      else let e = g_index s ! nat f in Some (e_loc e, e_version e, e_flags e))"

definition page_has_live_refs :: "kv_state \<Rightarrow> nat \<Rightarrow> bool" where
  "page_has_live_refs s page_idx \<longleftrightarrow> 0 < g_page_ref_count s page_idx"


subsection \<open>The index is a finite map\<close>

definition idx_sorted :: "idx_entry list \<Rightarrow> bool" where
  "idx_sorted es = sorted_wrt (<) (map e_key es)"

definition idx_map :: "idx_entry list \<Rightarrow> u32 \<Rightarrow> (u32 \<times> u16 \<times> byte) option" where
  "idx_map es = map_of (map (\<lambda>e. (e_key e, (e_loc e, e_version e, e_flags e))) es)"

lemma idx_sorted_nth: "idx_sorted es \<Longrightarrow> i < j \<Longrightarrow> j < length es \<Longrightarrow> e_key (es ! i) < e_key (es ! j)"
  using sorted_wrt_nth_less [of "(<)" "map e_key es" i j] by (simp add: idx_sorted_def)

lemma idx_search_result:
  assumes "idx_sorted es" "0 \<le> lo" "hi < int (length es)" "lo \<le> hi + 1"
    and "\<forall>i. int i < lo \<longrightarrow> e_key (es ! i) < key"
    and "\<forall>i < length es. hi < int i \<longrightarrow> key < e_key (es ! i)"
  shows "(\<exists>i < length es. idx_search es key lo hi = int i \<and> e_key (es ! i) = key)
    \<or> (\<exists>pos \<le> length es. idx_search es key lo hi = - int pos - 1
        \<and> (\<forall>i < pos. e_key (es ! i) < key) \<and> (\<forall>i < length es. pos \<le> i \<longrightarrow> key < e_key (es ! i)))"
  using assms
proof (induction es key lo hi rule: idx_search.induct)
  case (1 es key lo hi)
  define mid where "mid = lo + (hi - lo) div 2"
  note simps = idx_search.simps [of es key lo hi, unfolded Let_def, folded mid_def]
  show ?case
  proof (cases "lo \<le> hi")
    case False
    with "1.prems" have "lo = hi + 1" by simp
    moreover have "idx_search es key lo hi = - lo - 1" using False by (simp add: simps)
    ultimately show ?thesis using "1.prems"
      by (intro disjI2 exI [of _ "nat lo"]) auto
  next
    case True
    then have m: "lo \<le> mid" "mid \<le> hi" "0 \<le> mid" "nat mid < length es" "int (nat mid) = mid"
      using "1.prems"(2,3) by (auto simp: mid_def)
    have below: "\<forall>i. int i < mid \<longrightarrow> e_key (es ! i) < e_key (es ! nat mid)"
      using idx_sorted_nth [OF "1.prems"(1), of _ "nat mid"] m by auto
    have above: "\<forall>i < length es. mid < int i \<longrightarrow> e_key (es ! nat mid) < e_key (es ! i)"
    proof (intro allI impI)
      fix i assume "i < length es" "mid < int i"
      with idx_sorted_nth [OF "1.prems"(1), of "nat mid" i] m(3) show "e_key (es ! nat mid) < e_key (es ! i)"
        by (simp add: nat_less_iff)
    qed
    consider "e_key (es ! nat mid) = key" | "e_key (es ! nat mid) < key" | "key < e_key (es ! nat mid)"
      by (metis linorder_neqE)
    then show ?thesis
    proof cases
      case 1
      with True m show ?thesis by (intro disjI1 exI [of _ "nat mid"]) (simp add: simps)
    next
      case 2
      then have ne: "e_key (es ! nat mid) \<noteq> key" by auto
      have "\<forall>i. int i < mid + 1 \<longrightarrow> e_key (es ! i) < key"
        using below 2 m by (metis less_trans nat_int zle_add1_eq_le order_le_less)
      from "1.IH"(1) [OF True mid_def ne 2 "1.prems"(1) _ "1.prems"(3) _ this "1.prems"(6)] m True 2 ne
      show ?thesis by (simp add: simps)
    next
      case 3
      then have ne: "e_key (es ! nat mid) \<noteq> key" "\<not> e_key (es ! nat mid) < key" by auto
      have "\<forall>i < length es. mid - 1 < int i \<longrightarrow> key < e_key (es ! i)"
        using above 3 m by (metis less_trans nat_int zle_diff1_eq linorder_not_le order_le_less)
      from "1.IH"(2) [OF True mid_def ne "1.prems"(1,2) _ _ "1.prems"(5) this] m True ne "1.prems"(3)
      show ?thesis by (simp add: simps)
    qed
  qed
qed

lemma idx_find_cases:
  assumes "idx_sorted es"
  obtains (found) i where "i < length es" "idx_find_linear es key = int i" "e_key (es ! i) = key"
  | (missing) pos where "pos \<le> length es" "idx_find_linear es key = - int pos - 1"
      "\<forall>i < pos. e_key (es ! i) < key" "\<forall>i < length es. pos \<le> i \<longrightarrow> key < e_key (es ! i)"
  using idx_search_result [OF assms, of 0 "int (length es) - 1" key]
  by (auto simp: idx_find_linear_def)


lemma idx_map_nth: "idx_sorted es \<Longrightarrow> i < length es \<Longrightarrow>
    idx_map es (e_key (es ! i)) = Some (e_loc (es ! i), e_version (es ! i), e_flags (es ! i))"
proof (induction es arbitrary: i)
  case (Cons e es)
  show ?case
  proof (cases i)
    case 0
    then show ?thesis by (simp add: idx_map_def)
  next
    case (Suc j)
    with idx_sorted_nth [OF Cons.prems(1), of 0 i] Cons.prems(2) have "e_key e \<noteq> e_key (es ! j)" by auto
    with Suc Cons show ?thesis by (auto simp: idx_map_def idx_sorted_def)
  qed
qed simp

lemma idx_map_None: "idx_map es k = None \<longleftrightarrow> (\<forall>i < length es. e_key (es ! i) \<noteq> k)"
proof -
  have "k \<notin> e_key ` set es \<longleftrightarrow> (\<forall>i < length es. e_key (es ! i) \<noteq> k)" by (auto simp: set_conv_nth)
  then show ?thesis by (simp add: idx_map_def map_of_eq_None_iff image_image)
qed

lemma idx_map_None_set: "idx_map es k = None \<longleftrightarrow> (\<forall>e \<in> set es. e_key e \<noteq> k)"
  by (induction es) (auto simp: idx_map_def)

lemma idx_map_append: "idx_map (xs @ ys) = idx_map ys ++ idx_map xs"
  by (simp add: idx_map_def map_of_append)

lemma idx_map_Cons: "idx_map (e # es) = (idx_map es)(e_key e \<mapsto> (e_loc e, e_version e, e_flags e))"
  by (simp add: idx_map_def)

lemma idx_get_map:
  assumes "idx_sorted (g_index s)"
  shows "idx_get s key = idx_map (g_index s) key"
  using assms
proof (cases rule: idx_find_cases [where key = key])
  case (found i)
  then show ?thesis using idx_map_nth [OF assms, of i] by (simp add: idx_get_def Let_def)
next
  case (missing pos)
  then have "idx_map (g_index s) key = None"
    unfolding idx_map_None by (metis linorder_not_less order_less_irrefl)
  with missing show ?thesis by (simp add: idx_get_def Let_def)
qed


lemma idx_sorted_append:
  "idx_sorted (xs @ ys) \<longleftrightarrow> idx_sorted xs \<and> idx_sorted ys
     \<and> (\<forall>x\<in>set xs. \<forall>y\<in>set ys. e_key x < e_key y)"
  by (auto simp: idx_sorted_def sorted_wrt_append)

lemma idx_sorted_Cons: "idx_sorted (e # es) \<longleftrightarrow> (\<forall>y\<in>set es. e_key e < e_key y) \<and> idx_sorted es"
  by (auto simp: idx_sorted_def)

lemma split_at: "i < length es \<Longrightarrow> es = take i es @ es ! i # drop (i + 1) es"
  by (simp add: id_take_nth_drop)

text \<open>Storing into a found slot, inserting at the insertion point, and deleting a slot.\<close>

lemma idx_update_found:
  assumes "idx_sorted es" "i < length es" "e_key e = e_key (es ! i)"
  shows "idx_sorted (es[i := e])"
    and "idx_map (es[i := e]) = (idx_map es)(e_key e \<mapsto> (e_loc e, e_version e, e_flags e))"
proof -
  have map: "map e_key (es[i := e]) = map e_key es"
    using assms(2,3) by (metis list_update_id map_update)
  then show "idx_sorted (es[i := e])" using assms(1) by (simp add: idx_sorted_def)
  obtain xs ys where es: "es = xs @ es ! i # ys" "length xs = i"
    using split_at [OF assms(2)] assms(2) by (metis length_take min.absorb4)
  have upd: "es[i := e] = xs @ e # ys" by (subst es(1)) (simp add: es(2) list_update_append)
  from assms(1) es(1) have "idx_map xs (e_key e) = None"
    by (metis idx_map_None assms(3) idx_sorted_append list.set_intros(1) nth_mem order_less_irrefl)
  then have "e_key e \<notin> dom (idx_map xs)" by auto
  then show "idx_map (es[i := e]) = (idx_map es)(e_key e \<mapsto> (e_loc e, e_version e, e_flags e))"
    by (subst es(1), unfold upd idx_map_append idx_map_Cons)
      (auto simp: map_add_def fun_eq_iff assms(3) split: option.split)
qed

lemma idx_insert_missing:
  assumes "idx_sorted es" "pos \<le> length es" "\<forall>i < pos. e_key (es ! i) < e_key e"
    "\<forall>i < length es. pos \<le> i \<longrightarrow> e_key e < e_key (es ! i)"
  shows "idx_sorted (take pos es @ e # drop pos es)"
    and "idx_map (take pos es @ e # drop pos es) = (idx_map es)(e_key e \<mapsto> (e_loc e, e_version e, e_flags e))"
proof -
  have lo: "\<forall>x\<in>set (take pos es). e_key x < e_key e"
    using assms(2,3) by (auto simp: in_set_conv_nth)
  have hi: "\<forall>x\<in>set (drop pos es). e_key e < e_key x"
    using assms(2,4) by (auto simp: in_set_conv_nth)
  have sp: "idx_sorted (take pos es)" "idx_sorted (drop pos es)"
    using assms(1) idx_sorted_append [of "take pos es" "drop pos es"] by auto
  show "idx_sorted (take pos es @ e # drop pos es)"
    using lo hi sp by (auto simp: idx_sorted_append idx_sorted_Cons intro: less_trans)
  have "idx_map (take pos es) (e_key e) = None"
    unfolding idx_map_None using lo by (metis nth_mem order_less_irrefl)
  then have "idx_map (take pos es @ e # drop pos es)
      = (idx_map (take pos es @ drop pos es))(e_key e \<mapsto> (e_loc e, e_version e, e_flags e))"
    by (auto simp: idx_map_append idx_map_Cons map_add_def fun_eq_iff split: option.split
        simp del: append_take_drop_id)
  then show "idx_map (take pos es @ e # drop pos es) = (idx_map es)(e_key e \<mapsto> (e_loc e, e_version e, e_flags e))"
    by simp
qed

lemma idx_delete_found:
  assumes "idx_sorted es" "i < length es"
  shows "idx_sorted (take i es @ drop (i + 1) es)"
    and "idx_map (take i es @ drop (i + 1) es) = (idx_map es)(e_key (es ! i) := None)"
proof -
  let ?xs = "take i es" and ?ys = "drop (i + 1) es" and ?e = "es ! i"
  have es: "es = ?xs @ ?e # ?ys" by (rule split_at [OF assms(2)])
  with assms(1) have s: "idx_sorted (?xs @ ?e # ?ys)" by simp
  then show "idx_sorted (?xs @ ?ys)" by (auto simp: idx_sorted_append idx_sorted_Cons)
  from s have "idx_map ?xs (e_key ?e) = None" "idx_map ?ys (e_key ?e) = None"
    by (auto simp: idx_map_None_set idx_sorted_append idx_sorted_Cons)
  then have "(idx_map (?xs @ ?e # ?ys))(e_key ?e := None) = idx_map (?xs @ ?ys)"
    by (auto simp: idx_map_append idx_map_Cons map_add_def fun_eq_iff split: option.split)
  with es show "idx_map (?xs @ ?ys) = (idx_map es)(e_key ?e := None)" by metis
qed


subsection \<open>Reference counts\<close>

text \<open>
  The count of a page is the number of index entries on it, until it reaches 255 and stays
  there; so a count of 0 always means that no entry points to the page.
\<close>

definition page_entries :: "idx_entry list \<Rightarrow> nat \<Rightarrow> nat" where
  "page_entries es page = length (filter (\<lambda>e. loc_page (e_loc e) = page) es)"

definition refs_ok :: "idx_entry list \<Rightarrow> (nat \<Rightarrow> nat) \<Rightarrow> bool" where
  "refs_ok es refs \<longleftrightarrow> (\<forall>page. refs page = 255 \<or> refs page < 255 \<and> refs page = page_entries es page)"

lemma refs_ok_inc:
  assumes "refs_ok es refs" "\<And>p. page_entries es' p = page_entries es p + (if p = page then 1 else 0)"
  shows "refs_ok es' (ref_inc page refs)"
  unfolding refs_ok_def
proof
  fix p
  from assms(1) have "refs p = 255 \<or> refs p < 255 \<and> refs p = page_entries es p" by (simp add: refs_ok_def)
  with assms(2) [of p] show "ref_inc page refs p = 255 \<or> ref_inc page refs p < 255 \<and> ref_inc page refs p = page_entries es' p"
    by (auto simp: ref_inc_def)
qed

lemma refs_ok_dec:
  assumes "refs_ok es refs" "\<And>p. page_entries es p = page_entries es' p + (if p = page then 1 else 0)"
  shows "refs_ok es' (ref_dec page refs)"
  unfolding refs_ok_def
proof
  fix p
  from assms(1) have "refs p = 255 \<or> refs p < 255 \<and> refs p = page_entries es p" by (simp add: refs_ok_def)
  with assms(2) [of p] show "ref_dec page refs p = 255 \<or> ref_dec page refs p < 255 \<and> ref_dec page refs p = page_entries es' p"
    by (auto simp: ref_dec_def)
qed

lemma page_entries_append [simp]: "page_entries (xs @ ys) p = page_entries xs p + page_entries ys p"
  by (simp add: page_entries_def)

lemma page_entries_Cons [simp]:
  "page_entries (e # es) p = (if p = loc_page (e_loc e) then 1 else 0) + page_entries es p"
  by (simp add: page_entries_def)

lemma page_entries_delete:
  "i < length es \<Longrightarrow> page_entries es p
     = page_entries (take i es @ drop (i + 1) es) p + (if p = loc_page (e_loc (es ! i)) then 1 else 0)"
  by (subst split_at, assumption) simp

lemma page_entries_insert:
  "page_entries (take i es @ e # drop i es) p = page_entries es p + (if p = loc_page (e_loc e) then 1 else 0)"
  using page_entries_append [of "take i es" "drop i es" p] by simp

definition idx_inv :: "kv_state \<Rightarrow> bool" where
  "idx_inv s \<longleftrightarrow> idx_sorted (g_index s) \<and> length (g_index s) \<le> KV_INDEX_CAPACITY
     \<and> refs_ok (g_index s) (g_page_ref_count s)"

lemma no_live_refs_no_entry:
  assumes "idx_inv s" "\<not> page_has_live_refs s page" "e \<in> set (g_index s)"
  shows "loc_page (e_loc e) \<noteq> page"
proof
  assume "loc_page (e_loc e) = page"
  with assms(3) have "0 < page_entries (g_index s) page"
    by (auto simp: page_entries_def length_greater_0_conv filter_empty_conv)
  moreover have "g_page_ref_count s page = 0" using assms(2) by (simp add: page_has_live_refs_def)
  ultimately show False using assms(1) unfolding idx_inv_def refs_ok_def by (metis less_nat_zero_code
        zero_neq_numeral)
qed

subsection \<open>The operations keep the invariant and refine map updates\<close>

lemma idx_set_spec:
  assumes "idx_inv s" "idx_set s key loc version flags = (ok, s')"
  shows "if ok then idx_inv s' \<and> idx_map (g_index s') = (idx_map (g_index s))(key \<mapsto> (loc, version, flags))
           \<and> s' = s\<lparr>g_index := g_index s', g_page_ref_count := g_page_ref_count s'\<rparr>
         else s' = s \<and> length (g_index s) = KV_INDEX_CAPACITY \<and> idx_map (g_index s) key = None"
proof -
  let ?es = "g_index s" and ?refs = "g_page_ref_count s"
  from assms(1) have inv: "idx_sorted ?es" "length ?es \<le> KV_INDEX_CAPACITY" "refs_ok ?es ?refs"
    by (simp_all add: idx_inv_def)
  from inv(1) show ?thesis
  proof (cases rule: idx_find_cases [where key = key])
    case (found i)
    define e where "e = (?es ! i)\<lparr>e_loc := loc, e_version := version, e_flags := flags\<rparr>"
    have e: "e_key e = key" "e_loc e = loc" "e_version e = version" "e_flags e = flags"
      using found by (simp_all add: e_def)
    define refs' where "refs' = ref_inc (loc_page loc) (ref_dec (loc_page (e_loc (?es ! i))) ?refs)"
    have s': "ok" "s' = s\<lparr>g_index := ?es[i := e], g_page_ref_count := refs'\<rparr>"
      using assms(2) found by (auto simp: idx_set_def Let_def e_def refs'_def)
    have upd: "?es[i := e] = take i ?es @ e # drop (i + 1) ?es"
      using found(1) by (simp add: upd_conv_take_nth_drop)
    have "refs_ok (take i ?es @ drop (i + 1) ?es) (ref_dec (loc_page (e_loc (?es ! i))) ?refs)"
      by (rule refs_ok_dec [OF inv(3)]) (rule page_entries_delete [OF found(1)])
    then have "refs_ok (?es[i := e]) refs'"
      unfolding refs'_def by (rule refs_ok_inc) (simp add: upd e)
    with idx_update_found [OF inv(1) found(1), of e] s' inv(2) e found(3) show ?thesis
      by (simp add: idx_inv_def)
  next
    case (missing pos)
    have none: "idx_map ?es key = None"
      unfolding idx_map_None using missing by (metis linorder_not_less order_less_irrefl)
    show ?thesis
    proof (cases "KV_INDEX_CAPACITY \<le> length ?es")
      case True
      with assms(2) missing inv(2) none show ?thesis by (auto simp: idx_set_def Let_def)
    next
      case False
      define e where "e = \<lparr>e_key = key, e_loc = loc, e_version = version, e_flags = flags\<rparr>"
      have s': "ok" "s' = s\<lparr>g_index := take pos ?es @ e # drop pos ?es,
          g_page_ref_count := ref_inc (loc_page loc) ?refs\<rparr>"
        using assms(2) missing False by (auto simp: idx_set_def Let_def e_def)
      have "refs_ok (take pos ?es @ e # drop pos ?es) (ref_inc (loc_page loc) ?refs)"
        by (rule refs_ok_inc [OF inv(3)]) (unfold page_entries_insert, simp add: e_def)
      with idx_insert_missing [OF inv(1) missing(1), of e] s' missing False show ?thesis
        by (simp add: idx_inv_def e_def)
    qed
  qed
qed

lemma idx_remove_spec:
  assumes "idx_inv s"
  shows "idx_inv (idx_remove s key)"
    and "idx_map (g_index (idx_remove s key)) = (idx_map (g_index s))(key := None)"
    and "idx_remove s key = s\<lparr>g_index := g_index (idx_remove s key),
           g_page_ref_count := g_page_ref_count (idx_remove s key)\<rparr>"
proof -
  let ?es = "g_index s" and ?refs = "g_page_ref_count s"
  from assms have inv: "idx_sorted ?es" "length ?es \<le> KV_INDEX_CAPACITY" "refs_ok ?es ?refs"
    by (simp_all add: idx_inv_def)
  from inv(1) have "idx_inv (idx_remove s key)
      \<and> idx_map (g_index (idx_remove s key)) = (idx_map ?es)(key := None)
      \<and> idx_remove s key = s\<lparr>g_index := g_index (idx_remove s key),
           g_page_ref_count := g_page_ref_count (idx_remove s key)\<rparr>"
  proof (cases rule: idx_find_cases [where key = key])
    case (found i)
    have "refs_ok (take i ?es @ drop (i + 1) ?es) (ref_dec (loc_page (e_loc (?es ! i))) ?refs)"
      by (rule refs_ok_dec [OF inv(3)]) (rule page_entries_delete [OF found(1)])
    with idx_delete_found [OF inv(1) found(1)] found inv(2) show ?thesis
      by (simp add: idx_remove_def Let_def idx_inv_def)
  next
    case (missing pos)
    have "idx_map ?es key = None"
      unfolding idx_map_None using missing by (metis linorder_not_less order_less_irrefl)
    with missing assms show ?thesis by (auto simp: idx_remove_def Let_def fun_upd_idem_iff)
  qed
  then show "idx_inv (idx_remove s key)"
    and "idx_map (g_index (idx_remove s key)) = (idx_map (g_index s))(key := None)"
    and "idx_remove s key = s\<lparr>g_index := g_index (idx_remove s key),
           g_page_ref_count := g_page_ref_count (idx_remove s key)\<rparr>" by blast+
qed


subsection \<open>The contract\<close>

abbreviation idx_put :: "kv_state \<Rightarrow> u32 \<Rightarrow> u32 \<times> u16 \<times> byte \<Rightarrow> bool \<times> kv_state" where
  "idx_put s key v \<equiv> idx_set s key (fst v) (fst (snd v)) (snd (snd v))"

interpretation idx: key_map idx_inv "\<lambda>s. idx_map (g_index s)" idx_get idx_put idx_remove
proof
  fix s :: kv_state and k v s'
  show "idx_inv s \<Longrightarrow> idx_get s k = idx_map (g_index s) k"
    by (simp add: idx_inv_def idx_get_map)
  show "idx_inv s \<Longrightarrow> idx_put s k v = (True, s') \<Longrightarrow> idx_inv s' \<and> idx_map (g_index s') = (idx_map (g_index s))(k \<mapsto> v)"
    using idx_set_spec [of s k "fst v" "fst (snd v)" "snd (snd v)" True s'] by simp
  show "idx_inv s \<Longrightarrow> idx_put s k v = (False, s') \<Longrightarrow> idx_inv s' \<and> idx_map (g_index s') = idx_map (g_index s) \<and> idx_map (g_index s) k = None"
    using idx_set_spec [of s k "fst v" "fst (snd v)" "snd (snd v)" False s'] by simp
  show "idx_inv s \<Longrightarrow> idx_inv (idx_remove s k) \<and> idx_map (g_index (idx_remove s k)) = (idx_map (g_index s))(k := None)"
    using idx_remove_spec [of s k] by simp
qed

definition kv_boot :: kv_state where
  "kv_boot = \<lparr>kv_flash = (\<lambda>_. 0xFF), g_index = [], g_page_ref_count = (\<lambda>_. 0), g_page_sequence = 0,
     g_mutation_group = 0, g_write_page = 0, g_write_off = 16, g_deadlog_write_page = 0,
     g_deadlog_write_off = 4, g_deadlog_read_page = 0, g_deadlog_read_off = 4\<rparr>"

lemma idx_inv_boot: "idx_inv kv_boot"
  by (simp add: idx_inv_def kv_boot_def idx_sorted_def refs_ok_def page_entries_def)

text \<open>
  The flash index refines a finite map. Any sequence of stores and removals on the sorted
  arrays, started in any state that satisfies the invariant (sorted distinct keys, at most
  \<open>KV_INDEX_CAPACITY\<close> entries, correct page reference counts), keeps the invariant, and its
  effect on the contents is that of the same operations on a finite map, where only a store
  of a new key can be refused.
\<close>

theorem idx_refines_map:
  assumes "idx_inv s"
  shows "idx_inv (fold (map_step idx_put idx_remove) xs s)
    \<and> map_runs (idx_map (g_index s)) xs (idx_map (g_index (fold (map_step idx_put idx_remove) xs s)))"
  using assms by (rule idx.run_refines)

theorem idx_refines_map_witness:
  "idx_inv (fold (map_step idx_put idx_remove) [Put 7 (1, 2, 3), Put 5 (4, 5, 6), Del 7] kv_boot)
   \<and> map_runs (idx_map []) [Put 7 (1, 2, 3), Put 5 (4, 5, 6), Del 7]
      (idx_map (g_index (fold (map_step idx_put idx_remove) [Put 7 (1, 2, 3), Put 5 (4, 5, 6), Del 7] kv_boot)))"
  using idx_refines_map [OF idx_inv_boot, of "[Put 7 (1, 2, 3), Put 5 (4, 5, 6), Del 7]"]
  by (simp add: kv_boot_def)

text \<open>
  Lookups. \<open>idx_get\<close> (the binary search) finds a key exactly when it was stored, and
  returns what was stored last; after a removal the key is gone and no other key is affected.
\<close>

theorem idx_lookup:
  assumes "idx_inv s" "idx_set s key loc version flags = (True, s')"
  shows "idx_get s' k = (if k = key then Some (loc, version, flags) else idx_get s k)
    \<and> idx_get (idx_remove s key) k = (if k = key then None else idx_get s k)"
  using idx.get_put [OF assms(1), of key "(loc, version, flags)" s' k] idx.get_del [OF assms(1), of key k] assms(2)
  by simp

theorem idx_lookup_witness:
  "idx_get (snd (idx_set kv_boot 9 4 1 0)) 9 = Some (4, 1, 0)"
proof -
  have "idx_set kv_boot 9 4 1 0 = (True, snd (idx_set kv_boot 9 4 1 0))"
    by (simp add: idx_set_def kv_boot_def idx_find_linear_def idx_search.simps KV_INDEX_CAPACITY_def)
  from idx_lookup [OF idx_inv_boot this, of 9] show ?thesis by simp
qed

text \<open>
  A packed location keeps its fields. A page number below 4096, a 4-byte aligned offset
  inside a sector and a length up to 4092 come back from \<open>unpack_loc\<close> as they went into
  \<open>pack_loc\<close>, the length rounded up to the quantum.
\<close>

theorem pack_loc_roundtrip:
  assumes "page < 4096" "off < 4096" "4 dvd off" "len \<le> 4092"
  shows "unpack_loc (pack_loc page off len) = (page, off, (len + 3) div 4 * 4)"
  using assms by (rule unpack_pack)

theorem pack_loc_roundtrip_witness: "unpack_loc (pack_loc 762 4080 33) = (762, 4080, 36)"
  using pack_loc_roundtrip [of 762 4080 33] by simp

end
