(* ===== verification/KvCrc.thy ===== *)
theory KvCrc
  imports Prelude
begin

text \<open>
  The checksum of \<open>src/kv_flash.c\<close>: the table-driven CRC-32 that protects page headers,
  records and commit markers. The table has twelve entries that differ from the reflected
  CRC-32 of polynomial \<open>0xEDB88320\<close> (\<open>crc32_tab_entries\<close>), so the checksum is not the standard
  one; it still detects every error confined to one byte (\<open>crc32_detects_byte\<close>), because the
  leading bytes of the entries are all different.
\<close>

unbundle bit_operations_syntax

definition crc32_tab :: "u32 list" where
  "crc32_tab = [
    0x00000000, 0x77073096, 0xEE0E612C, 0x990951BA, 0x076DC419, 0x706AF48F, 0xE963A535, 0x9E6495A3,
    0x0EDB8832, 0x79DCB8A4, 0xE0D5E91B, 0x97D2D988, 0x09B64C2B, 0x7EB17CBB, 0xE7B82D09, 0x90BF1D9F,
    0x1DB71064, 0x6AB020F2, 0xF3B97148, 0x84BE41DE, 0x1ADAD47D, 0x6DDDE4EB, 0xF4D4B551, 0x83D385C7,
    0x136C9856, 0x646BA8C0, 0xFD62F97A, 0x8A65C9EC, 0x14015C4F, 0x63066CD9, 0xFA0F3D63, 0x8D080DF5,
    0x3B6E20C8, 0x4C69105E, 0xD56041E4, 0xA2677172, 0x3C03E4D1, 0x4B04D447, 0xD20D85FD, 0xA50AB56B,
    0x35B5A8FA, 0x42B2986C, 0xDBBBB9D6, 0xACBCB9C0, 0x32D86CE3, 0x45DF5C75, 0xDCD60DCF, 0xABD13D59,
    0x26D930AC, 0x51DE003A, 0xC8D75180, 0xBFD06116, 0x21B4F0B5, 0x56B3C423, 0xCFBA9599, 0xB8BDA50F,
    0x2802B89E, 0x5F058808, 0xC60CD9B2, 0xB10BE924, 0x2F6F7C87, 0x58684C11, 0xC1611DAB, 0xB6662D3D,
    0x76DC4190, 0x01DB7106, 0x98D220BC, 0xEFD5102A, 0x71B18589, 0x06B6B51F, 0x9FBFE4A5, 0xE8B8D433,
    0x7807C9A2, 0x0F00F934, 0x9609A88E, 0xE10E9818, 0x7F6A0DBB, 0x086D3D2D, 0x91646C97, 0xE6635C01,
    0x6B6B51F4, 0x1C6C6162, 0x856530D8, 0xF262004E, 0x6C0695ED, 0x1B01A57B, 0x8208F4C1, 0xF50FC457,
    0x65B0D9C6, 0x12B7E950, 0x8BBEB8EA, 0xFCB9887C, 0x62DD1DDF, 0x15DA2D49, 0x8CD37CF3, 0xFBD44C65,
    0x4DB26158, 0x3AB551CE, 0xA3BC0074, 0xD4BB30E2, 0x4ADFA541, 0x3DD895D7, 0xA4D1C46D, 0xD3D6F4FB,
    0x4369E96A, 0x346ED9FC, 0xAD678846, 0xDA60B8D0, 0x44042D73, 0x33031DE5, 0xAA0A4C5F, 0xDD0D7822,
    0x5005713C, 0x270241AA, 0xBE0B1010, 0xC90C2086, 0x5768B525, 0x206F85B3, 0xB966D409, 0xCE61E49F,
    0x5EDEF90E, 0x29D9C998, 0xB0D09822, 0xC7D7A8B4, 0x59B33D17, 0x2EB40D81, 0xB7BD5C3B, 0xC0BA6CFD,
    0xEDB88320, 0x9ABFB3B6, 0x03B6E20C, 0x74B1D29A, 0xEAD54739, 0x9DD277AF, 0x04DB2615, 0x73DC1683,
    0xE3630B12, 0x94643B84, 0x0D6D6A3E, 0x7A6A5AA8, 0xE40ECF0B, 0x9309FF9D, 0x0A00AE27, 0x7D079EB1,
    0xF00F9344, 0x8708A3D2, 0x1E01F268, 0x6906C2FE, 0xF762575D, 0x806567CB, 0x196C3671, 0x6E6B06E7,
    0xFED41B76, 0x89D32BE0, 0x10DA7A5A, 0x67DD4ACC, 0xF9B9DF6F, 0x8EBEEFF9, 0x17B7BE43, 0x60B08ED5,
    0xD6D6A3E8, 0xA1D1937E, 0x38D8C2C4, 0x4FDFF252, 0xD1BB67F1, 0xA6BC5767, 0x3FB506DD, 0x48B2364B,
    0xD80D2BDA, 0xAF0A1B4C, 0x36034AF6, 0x41047A60, 0xDF60EFC3, 0xA867DF55, 0x316E8EEF, 0x4669BE79,
    0xCB61B38C, 0xBC66831A, 0x256FD2A0, 0x5268E236, 0xCC0C7795, 0xBB0B4703, 0x220216B9, 0x5505262F,
    0xC5BA3BBE, 0xB2BD0B28, 0x2BB45A92, 0x5CB36A04, 0xC2D7FFA7, 0xB5D0CF31, 0x2CD99E8B, 0x5BDEAE1D,
    0x9B64C2B0, 0xEC63F226, 0x756AA39C, 0x026D930A, 0x9C0906A9, 0xEB0E363F, 0x72076785, 0x05005713,
    0x95BF4A82, 0xE2B87A14, 0x7BB12BAE, 0x0CB61B38, 0x92D28E9B, 0xE5D5BE0D, 0x7CDCEFB7, 0x0BDBDF21,
    0x86D3D2D4, 0xF1D4E242, 0x68DDB3F6, 0x1FDA836E, 0x81BE16CD, 0xF6B9265B, 0x6FB077E1, 0x18B74777,
    0x88085AE6, 0xFF0F6B70, 0x66063BCA, 0x11010B5C, 0x8F659EFF, 0xF862AE69, 0x616BFFD3, 0x166CCF45,
    0xA00AE278, 0xD70DD2EE, 0x4E048354, 0x3903B3C2, 0xA7672661, 0xD06016F7, 0x4969474D, 0x3E6E77DB,
    0xAED16A4A, 0xD9D65ADC, 0x40DF0B66, 0x37D83BF0, 0xA9BCAE53, 0xDEBB9EC5, 0x47B2CF7F, 0x30B5FFE9,
    0xBDBDF21C, 0xCABAC28A, 0x53B39330, 0x24B4A3A6, 0xBAD03605, 0xCDD706FF, 0x54DE5729, 0x23D967BF,
    0xB3667A2E, 0xC4614AB8, 0x5D681B02, 0x2A6F2B94, 0xB40BBE37, 0xC30C8EA1, 0x5A05DF1B, 0x2D02EF8D]"

definition crc32_byte :: "u32 \<Rightarrow> byte \<Rightarrow> u32" where
  "crc32_byte crc b = crc32_tab ! unat ((crc XOR ucast b) AND 0xFF) XOR drop_bit 8 crc"

definition crc32 :: "byte list \<Rightarrow> u32" where
  "crc32 data = foldl crc32_byte 0xFFFFFFFF data XOR 0xFFFFFFFF"

subsection \<open>The bit-at-a-time CRC\<close>

definition crc_bit :: "u32 \<Rightarrow> u32" where
  "crc_bit c = drop_bit 1 c XOR (if bit c 0 then 0xEDB88320 else 0)"

fun crc_bits :: "nat \<Rightarrow> u32 \<Rightarrow> u32" where
  "crc_bits 0 c = c"
| "crc_bits (Suc n) c = crc_bits n (crc_bit c)"

definition crc32_bitwise :: "byte list \<Rightarrow> u32" where
  "crc32_bitwise data = foldl (\<lambda>crc b. crc_bits 8 (crc XOR ucast b)) 0xFFFFFFFF data XOR 0xFFFFFFFF"

lemma xor_cancel: "(a :: u32) XOR b = a XOR c \<longleftrightarrow> b = c"
  by (metis xor.assoc xor_self_eq xor.left_neutral)

lemma xor_eq_zero: "(a :: u32) XOR b = 0 \<longleftrightarrow> a = b"
  using xor_cancel [of a b a] by auto

lemma crc_bit_xor: "crc_bit (a XOR b) = crc_bit a XOR crc_bit b"
  by (auto intro!: bit_word_eqI simp: crc_bit_def bit_simps)

lemma crc_bits_xor: "crc_bits n (a XOR b) = crc_bits n a XOR crc_bits n b"
  by (induction n arbitrary: a b) (simp_all add: crc_bit_xor)

lemma crc_bits_high: "(\<forall>i<n. \<not> bit c i) \<Longrightarrow> crc_bits n c = drop_bit n c"
proof (induction n arbitrary: c)
  case (Suc n)
  then have "crc_bit c = drop_bit 1 c" by (simp add: crc_bit_def)
  with Suc show ?case by (simp add: bit_simps)
qed simp

lemma crc32_tab_length: "length crc32_tab = 256"
  by (simp add: crc32_tab_def)

text \<open>
  The table of the standard CRC, by linearity: the entry of \<open>i\<close> is the sum of the entries of
  its bits.
\<close>

lemma crc_bits_split: "crc_bits 8 c = crc_bits 8 (take_bit 8 c) XOR drop_bit 8 c"
proof -
  have c: "c = take_bit 8 c XOR push_bit 8 (drop_bit 8 c)"
    by (rule bit_word_eqI) (auto simp: bit_simps)
  have "crc_bits 8 (push_bit 8 (drop_bit 8 c)) = drop_bit 8 (push_bit 8 (drop_bit 8 c))"
    by (rule crc_bits_high) (simp add: bit_simps)
  also have "\<dots> = drop_bit 8 c" by (rule bit_word_eqI) (auto simp: bit_simps dest: bit_imp_le_length)
  finally show ?thesis using c by (metis crc_bits_xor)
qed

definition doubling :: "u32 list \<Rightarrow> u32 list" where
  "doubling bs = fold (\<lambda>b t. t @ map (\<lambda>x. x XOR b) t) bs [0]"

lemma doubling_append: "doubling (bs @ [b]) = doubling bs @ map (\<lambda>x. x XOR b) (doubling bs)"
  by (simp add: doubling_def)

lemma crc_bits_0: "crc_bits n 0 = 0"
  using crc_bits_xor [of n 0 0] by simp

lemma crc_doubling: "map (crc_bits n) (doubling bs) = doubling (map (crc_bits n) bs)"
proof (induction bs rule: rev_induct)
  case Nil
  then show ?case by (simp add: doubling_def crc_bits_0)
next
  case (snoc b bs)
  have "map (crc_bits n) (map (\<lambda>x. x XOR b) t) = map (\<lambda>x. x XOR crc_bits n b) (map (crc_bits n) t)" for t
    by (simp add: crc_bits_xor)
  with snoc show ?case by (simp only: doubling_append map_append list.map)
qed

lemma doubling_bytes: "doubling [1, 2, 4, 8, 16, 32, 64, 128] = map word_of_nat [0..<256]"
  by (simp add: doubling_def upt_conv_Cons)

lemma crc_bits_8: "crc_bits 8 c = crc_bit (crc_bit (crc_bit (crc_bit (crc_bit (crc_bit (crc_bit (crc_bit c)))))))"
  by (simp add: eval_nat_numeral)

lemma crc_basis: "map (crc_bits 8) [1, 2, 4, 8, 16, 32, 64, 128] =
    [0x77073096, 0xEE0E612C, 0x076DC419, 0x0EDB8832, 0x1DB71064, 0x3B6E20C8, 0x76DC4190, 0xEDB88320]"
  by (simp add: crc_bits_8 crc_bit_def)

definition crc32_std :: "u32 list" where
  "crc32_std = [
    0x00000000, 0x77073096, 0xEE0E612C, 0x990951BA, 0x076DC419, 0x706AF48F, 0xE963A535, 0x9E6495A3,
    0x0EDB8832, 0x79DCB8A4, 0xE0D5E91E, 0x97D2D988, 0x09B64C2B, 0x7EB17CBD, 0xE7B82D07, 0x90BF1D91,
    0x1DB71064, 0x6AB020F2, 0xF3B97148, 0x84BE41DE, 0x1ADAD47D, 0x6DDDE4EB, 0xF4D4B551, 0x83D385C7,
    0x136C9856, 0x646BA8C0, 0xFD62F97A, 0x8A65C9EC, 0x14015C4F, 0x63066CD9, 0xFA0F3D63, 0x8D080DF5,
    0x3B6E20C8, 0x4C69105E, 0xD56041E4, 0xA2677172, 0x3C03E4D1, 0x4B04D447, 0xD20D85FD, 0xA50AB56B,
    0x35B5A8FA, 0x42B2986C, 0xDBBBC9D6, 0xACBCF940, 0x32D86CE3, 0x45DF5C75, 0xDCD60DCF, 0xABD13D59,
    0x26D930AC, 0x51DE003A, 0xC8D75180, 0xBFD06116, 0x21B4F4B5, 0x56B3C423, 0xCFBA9599, 0xB8BDA50F,
    0x2802B89E, 0x5F058808, 0xC60CD9B2, 0xB10BE924, 0x2F6F7C87, 0x58684C11, 0xC1611DAB, 0xB6662D3D,
    0x76DC4190, 0x01DB7106, 0x98D220BC, 0xEFD5102A, 0x71B18589, 0x06B6B51F, 0x9FBFE4A5, 0xE8B8D433,
    0x7807C9A2, 0x0F00F934, 0x9609A88E, 0xE10E9818, 0x7F6A0DBB, 0x086D3D2D, 0x91646C97, 0xE6635C01,
    0x6B6B51F4, 0x1C6C6162, 0x856530D8, 0xF262004E, 0x6C0695ED, 0x1B01A57B, 0x8208F4C1, 0xF50FC457,
    0x65B0D9C6, 0x12B7E950, 0x8BBEB8EA, 0xFCB9887C, 0x62DD1DDF, 0x15DA2D49, 0x8CD37CF3, 0xFBD44C65,
    0x4DB26158, 0x3AB551CE, 0xA3BC0074, 0xD4BB30E2, 0x4ADFA541, 0x3DD895D7, 0xA4D1C46D, 0xD3D6F4FB,
    0x4369E96A, 0x346ED9FC, 0xAD678846, 0xDA60B8D0, 0x44042D73, 0x33031DE5, 0xAA0A4C5F, 0xDD0D7CC9,
    0x5005713C, 0x270241AA, 0xBE0B1010, 0xC90C2086, 0x5768B525, 0x206F85B3, 0xB966D409, 0xCE61E49F,
    0x5EDEF90E, 0x29D9C998, 0xB0D09822, 0xC7D7A8B4, 0x59B33D17, 0x2EB40D81, 0xB7BD5C3B, 0xC0BA6CAD,
    0xEDB88320, 0x9ABFB3B6, 0x03B6E20C, 0x74B1D29A, 0xEAD54739, 0x9DD277AF, 0x04DB2615, 0x73DC1683,
    0xE3630B12, 0x94643B84, 0x0D6D6A3E, 0x7A6A5AA8, 0xE40ECF0B, 0x9309FF9D, 0x0A00AE27, 0x7D079EB1,
    0xF00F9344, 0x8708A3D2, 0x1E01F268, 0x6906C2FE, 0xF762575D, 0x806567CB, 0x196C3671, 0x6E6B06E7,
    0xFED41B76, 0x89D32BE0, 0x10DA7A5A, 0x67DD4ACC, 0xF9B9DF6F, 0x8EBEEFF9, 0x17B7BE43, 0x60B08ED5,
    0xD6D6A3E8, 0xA1D1937E, 0x38D8C2C4, 0x4FDFF252, 0xD1BB67F1, 0xA6BC5767, 0x3FB506DD, 0x48B2364B,
    0xD80D2BDA, 0xAF0A1B4C, 0x36034AF6, 0x41047A60, 0xDF60EFC3, 0xA867DF55, 0x316E8EEF, 0x4669BE79,
    0xCB61B38C, 0xBC66831A, 0x256FD2A0, 0x5268E236, 0xCC0C7795, 0xBB0B4703, 0x220216B9, 0x5505262F,
    0xC5BA3BBE, 0xB2BD0B28, 0x2BB45A92, 0x5CB36A04, 0xC2D7FFA7, 0xB5D0CF31, 0x2CD99E8B, 0x5BDEAE1D,
    0x9B64C2B0, 0xEC63F226, 0x756AA39C, 0x026D930A, 0x9C0906A9, 0xEB0E363F, 0x72076785, 0x05005713,
    0x95BF4A82, 0xE2B87A14, 0x7BB12BAE, 0x0CB61B38, 0x92D28E9B, 0xE5D5BE0D, 0x7CDCEFB7, 0x0BDBDF21,
    0x86D3D2D4, 0xF1D4E242, 0x68DDB3F8, 0x1FDA836E, 0x81BE16CD, 0xF6B9265B, 0x6FB077E1, 0x18B74777,
    0x88085AE6, 0xFF0F6A70, 0x66063BCA, 0x11010B5C, 0x8F659EFF, 0xF862AE69, 0x616BFFD3, 0x166CCF45,
    0xA00AE278, 0xD70DD2EE, 0x4E048354, 0x3903B3C2, 0xA7672661, 0xD06016F7, 0x4969474D, 0x3E6E77DB,
    0xAED16A4A, 0xD9D65ADC, 0x40DF0B66, 0x37D83BF0, 0xA9BCAE53, 0xDEBB9EC5, 0x47B2CF7F, 0x30B5FFE9,
    0xBDBDF21C, 0xCABAC28A, 0x53B39330, 0x24B4A3A6, 0xBAD03605, 0xCDD70693, 0x54DE5729, 0x23D967BF,
    0xB3667A2E, 0xC4614AB8, 0x5D681B02, 0x2A6F2B94, 0xB40BBE37, 0xC30C8EA1, 0x5A05DF1B, 0x2D02EF8D]"

lemma crc32_std_eq: "crc32_std = map (\<lambda>i. crc_bits 8 (word_of_nat i)) [0..<256]"
proof -
  have "map (crc_bits 8) (map word_of_nat [0..<256]) = crc32_std"
    unfolding doubling_bytes [symmetric] crc_doubling crc_basis by (simp add: doubling_def crc32_std_def)
  then show ?thesis by (simp add: comp_def)
qed

definition crc32_bad_entries :: "nat list" where
  "crc32_bad_entries = [10, 13, 14, 15, 42, 43, 52, 111, 127, 210, 217, 245]"

text \<open>What the table of the code adds to the standard one.\<close>

definition crc32_diff :: "u32 list" where
  "crc32_diff = [
    0, 0, 0, 0, 0, 0, 0, 0, 0, 0, 0x5, 0, 0, 0x6, 0xE, 0xE,
    0, 0, 0, 0, 0, 0, 0, 0, 0, 0, 0, 0, 0, 0, 0, 0,
    0, 0, 0, 0, 0, 0, 0, 0, 0, 0, 0x7000, 0x4080, 0, 0, 0, 0,
    0, 0, 0, 0, 0x400, 0, 0, 0, 0, 0, 0, 0, 0, 0, 0, 0,
    0, 0, 0, 0, 0, 0, 0, 0, 0, 0, 0, 0, 0, 0, 0, 0,
    0, 0, 0, 0, 0, 0, 0, 0, 0, 0, 0, 0, 0, 0, 0, 0,
    0, 0, 0, 0, 0, 0, 0, 0, 0, 0, 0, 0, 0, 0, 0, 0x4EB,
    0, 0, 0, 0, 0, 0, 0, 0, 0, 0, 0, 0, 0, 0, 0, 0x50,
    0, 0, 0, 0, 0, 0, 0, 0, 0, 0, 0, 0, 0, 0, 0, 0,
    0, 0, 0, 0, 0, 0, 0, 0, 0, 0, 0, 0, 0, 0, 0, 0,
    0, 0, 0, 0, 0, 0, 0, 0, 0, 0, 0, 0, 0, 0, 0, 0,
    0, 0, 0, 0, 0, 0, 0, 0, 0, 0, 0, 0, 0, 0, 0, 0,
    0, 0, 0, 0, 0, 0, 0, 0, 0, 0, 0, 0, 0, 0, 0, 0,
    0, 0, 0xE, 0, 0, 0, 0, 0, 0, 0x100, 0, 0, 0, 0, 0, 0,
    0, 0, 0, 0, 0, 0, 0, 0, 0, 0, 0, 0, 0, 0, 0, 0,
    0, 0, 0, 0, 0, 0x6C, 0, 0, 0, 0, 0, 0, 0, 0, 0, 0]"

lemma crc32_tab_std: "crc32_tab = map2 (XOR) crc32_std crc32_diff"
  by (simp add: crc32_tab_def crc32_std_def crc32_diff_def)

lemma crc32_diff_length: "length crc32_diff = 256"
  by (simp add: crc32_diff_def)

lemma crc32_diff_small: "list_all (\<lambda>d. drop_bit 24 d = 0) crc32_diff"
  by (simp add: crc32_diff_def)

lemma crc32_diff_entries: "list_all (\<lambda>(i, d). (d = 0) = (i \<notin> set crc32_bad_entries)) (zip [0..<256] crc32_diff)"
  by (simp add: crc32_diff_def crc32_bad_entries_def upt_conv_Cons)

lemma crc32_tab_nth:
  assumes "i < 256"
  shows "crc32_tab ! i = crc_bits 8 (word_of_nat i) XOR crc32_diff ! i"
proof -
  have l: "length crc32_std = 256" by (simp add: crc32_std_eq)
  have "crc32_std ! i = crc_bits 8 (word_of_nat i)"
    unfolding crc32_std_eq using assms by (subst nth_map) (simp_all only: length_upt nth_upt add_0 diff_zero)
  moreover have "crc32_tab ! i = crc32_std ! i XOR crc32_diff ! i"
    unfolding crc32_tab_std using assms l crc32_diff_length by (simp only: nth_map nth_zip length_zip prod.case min.idem)
  ultimately show ?thesis by simp
qed

lemma crc32_tab_lead:
  assumes "i < 256"
  shows "drop_bit 24 (crc32_tab ! i) = drop_bit 24 (crc_bits 8 (word_of_nat i))"
proof -
  have "drop_bit 24 (crc32_diff ! i) = 0"
    using crc32_diff_small assms crc32_diff_length by (simp add: list_all_length)
  then show ?thesis unfolding crc32_tab_nth [OF assms] drop_bit_xor by simp
qed

text \<open>
  The leading byte of an entry determines its index: a step of the CRC can be undone, and what
  has left the low byte is in the leading byte.
\<close>

lemma crc_bit_inj: "crc_bit a = 0 \<Longrightarrow> a = 0"
proof -
  assume eq: "crc_bit a = 0"
  have p: "bit (0xEDB88320 :: u32) 31" by simp
  have "bit (crc_bit a) 31 = bit a 0"
    using p bit_imp_le_length [of a 32] by (auto simp: crc_bit_def bit_simps)
  with eq have "\<not> bit a 0" by simp
  with eq have "drop_bit 1 a = 0" by (simp add: crc_bit_def)
  have "a = 0"
  proof (rule bit_word_eqI)
    fix n assume "n < LENGTH(32)"
    show "bit a n = bit (0 :: u32) n"
    proof (cases n)
      case 0
      with \<open>\<not> bit a 0\<close> show ?thesis by simp
    next
      case (Suc m)
      have "bit (drop_bit 1 a) m = bit a (1 + m)" by (simp add: bit_simps)
      with \<open>drop_bit 1 a = 0\<close> Suc show ?thesis by simp
    qed
  qed
  then show ?thesis .
qed

lemma crc_bits_inj: "crc_bits n a = 0 \<Longrightarrow> a = 0"
  by (induction n arbitrary: a) (auto dest: crc_bit_inj)

lemma crc_lead_kernel:
  assumes "drop_bit 24 (crc_bits 8 a) = 0" "take_bit 8 a = a"
  shows "a = 0"
proof -
  let ?r = "crc_bits 8 a"
  have top: "\<not> bit ?r n" if "24 \<le> n" for n
  proof -
    have "bit (drop_bit 24 ?r) (n - 24) = bit ?r n" using that by (simp add: bit_simps)
    with assms(1) show ?thesis by simp
  qed
  have "crc_bits 8 (push_bit 8 ?r) = drop_bit 8 (push_bit 8 ?r)"
    by (rule crc_bits_high) (simp add: bit_simps)
  also have "\<dots> = ?r"
  proof (rule bit_word_eqI)
    fix n assume "n < LENGTH(32)"
    show "bit (drop_bit 8 (push_bit 8 ?r)) n = bit ?r n"
      using top [of n] by (cases "n < 24") (auto simp: bit_simps)
  qed
  finally have "crc_bits 8 (a XOR push_bit 8 ?r) = 0" by (simp add: crc_bits_xor)
  from crc_bits_inj [OF this] have eq: "a = push_bit 8 ?r" by (simp only: xor_eq_zero)
  have "take_bit 8 (push_bit 8 ?r) = 0" by (simp add: take_bit_push_bit)
  with eq assms(2) show ?thesis by metis
qed

lemma crc32_tab_leading:
  fixes x y :: u32
  assumes "unat x < 256" "unat y < 256" "drop_bit 24 (crc32_tab ! unat x) = drop_bit 24 (crc32_tab ! unat y)"
  shows "x = y"
proof -
  have tb: "take_bit 8 w = w" if "unat w < 256" for w :: u32
  proof -
    have "unat (take_bit 8 w) = unat w" using that by (simp add: unsigned_take_bit_eq take_bit_nat_eq_self)
    then show ?thesis by (simp add: word_unat_eq_iff)
  qed
  have "drop_bit 24 (crc_bits 8 (x XOR y)) = 0"
    using assms(3) crc32_tab_lead [OF assms(1)] crc32_tab_lead [OF assms(2)]
    by (simp add: crc_bits_xor drop_bit_xor)
  moreover have "take_bit 8 (x XOR y) = x XOR y" using tb assms(1,2) by (simp add: take_bit_xor)
  ultimately have "x XOR y = 0" by (rule crc_lead_kernel)
  then show ?thesis by (simp add: xor_eq_zero)
qed

lemma low_byte: "(c :: u32) AND 0xFF = take_bit 8 c"
  by (simp add: take_bit_eq_mask mask_eq_exp_minus_1)

lemma leading_byte_shift: "drop_bit 24 (drop_bit 8 (c :: u32)) = 0"
  by (rule bit_word_eqI) (auto simp: bit_simps dest: bit_imp_le_length)

lemma low_byte_index: "unat ((c :: u32) AND 0xFF) < 256"
  using take_bit_nat_less_exp [of 8 "unat c"] by (simp add: low_byte unsigned_take_bit_eq)

text \<open>The table index and the remaining bits can be read back from the new checksum.\<close>

lemma crc32_byte_inj:
  assumes "crc32_byte c b = crc32_byte c' b'"
  shows "(c XOR ucast b) AND 0xFF = (c' XOR ucast b') AND 0xFF" and "drop_bit 8 c = drop_bit 8 c'"
proof -
  let ?i = "unat ((c XOR ucast b) AND 0xFF)" and ?j = "unat ((c' XOR ucast b') AND 0xFF)"
  from assms have eq: "crc32_tab ! ?i XOR drop_bit 8 c = crc32_tab ! ?j XOR drop_bit 8 c'"
    by (simp add: crc32_byte_def)
  then have "drop_bit 24 (crc32_tab ! ?i XOR drop_bit 8 c) = drop_bit 24 (crc32_tab ! ?j XOR drop_bit 8 c')"
    by simp
  then have "drop_bit 24 (crc32_tab ! ?i) = drop_bit 24 (crc32_tab ! ?j)"
    unfolding drop_bit_xor leading_byte_shift by simp
  then show ij: "(c XOR ucast b) AND 0xFF = (c' XOR ucast b') AND 0xFF"
    by (rule crc32_tab_leading [OF low_byte_index low_byte_index])
  from eq show "drop_bit 8 c = drop_bit 8 c'" unfolding ij by (simp add: xor_cancel)
qed

lemma crc32_byte_state_inj: "crc32_byte c b = crc32_byte c' b \<Longrightarrow> c = c'"
proof -
  assume "crc32_byte c b = crc32_byte c' b"
  from crc32_byte_inj [OF this] have low: "(c XOR ucast b) AND 0xFF = (c' XOR ucast b) AND 0xFF"
    and high: "drop_bit 8 c = drop_bit 8 c'" .
  from low have "take_bit 8 c XOR take_bit 8 (ucast b) = take_bit 8 c' XOR take_bit 8 (ucast b)"
    by (simp only: low_byte take_bit_xor)
  then have "take_bit 8 c = take_bit 8 c'" by (metis xor_cancel xor.commute)
  with high show "c = c'" by (metis bits_ident)
qed

lemma foldl_crc_inj: "foldl crc32_byte c xs = foldl crc32_byte c' xs \<Longrightarrow> c = c'"
  by (induction xs rule: rev_induct) (auto dest: crc32_byte_state_inj)


text \<open>
  Error detection. Two byte strings of the same length that differ in exactly one byte have
  different checksums, wherever the byte stands and whatever the difference, although the
  table is not the standard one.
\<close>

theorem crc32_detects_byte:
  assumes "b \<noteq> b'"
  shows "crc32 (xs @ b # ys) \<noteq> crc32 (xs @ b' # ys)"
proof
  let ?c = "foldl crc32_byte 0xFFFFFFFF xs"
  assume "crc32 (xs @ b # ys) = crc32 (xs @ b' # ys)"
  then have "foldl crc32_byte (crc32_byte ?c b) ys = foldl crc32_byte (crc32_byte ?c b') ys"
    by (simp add: crc32_def) (metis xor_cancel xor.commute)
  then have "crc32_byte ?c b = crc32_byte ?c b'" by (rule foldl_crc_inj)
  from crc32_byte_inj(1) [OF this] have "take_bit 8 (?c XOR ucast b) = take_bit 8 (?c XOR ucast b')"
    by (simp only: low_byte)
  then have "take_bit 8 (ucast b :: u32) = take_bit 8 (ucast b')"
    by (simp only: take_bit_xor xor_cancel)
  then have eq: "take_bit 8 (ucast b :: u32) = take_bit 8 (ucast b')" .
  have "b = b'"
  proof (rule bit_word_eqI)
    fix n assume n: "n < LENGTH(8)"
    have "bit (take_bit 8 (ucast x :: u32)) n = bit x n" for x :: byte
      using n by (simp add: bit_simps)
    from this [of b] this [of b'] eq show "bit b n = bit b' n" by simp
  qed
  with assms show False by simp
qed

theorem crc32_detects_byte_witness: "crc32 ([1] @ 2 # [3]) \<noteq> crc32 ([1] @ 7 # [3])"
  by (rule crc32_detects_byte) simp

text \<open>
  The checksum is not CRC-32. Exactly the entries at \<open>crc32_bad_entries\<close> differ from the
  bit-at-a-time CRC the table stands for, and there are inputs, such as the single byte
  \<open>0xF5\<close>, on which \<open>crc32\<close> differs from it.
\<close>

theorem crc32_not_standard:
  "{i. i < 256 \<and> crc32_tab ! i \<noteq> crc_bits 8 (word_of_nat i)} = set crc32_bad_entries
   \<and> crc32 [0xF5] \<noteq> crc32_bitwise [0xF5]"
proof
  have entry: "crc32_tab ! i = crc_bits 8 (word_of_nat i) \<longleftrightarrow> i \<notin> set crc32_bad_entries" if "i < 256" for i
  proof -
    have "(crc32_diff ! i = 0) = (i \<notin> set crc32_bad_entries)"
      using crc32_diff_entries that crc32_diff_length
      by (simp only: list_all_length length_zip length_upt nth_zip nth_upt prod.case) simp
    moreover have "crc32_tab ! i = crc_bits 8 (word_of_nat i) \<longleftrightarrow> crc32_diff ! i = 0"
      unfolding crc32_tab_nth [OF that] by (metis xor_cancel xor.right_neutral)
    ultimately show ?thesis by simp
  qed
  have "i < 256" if "i \<in> set crc32_bad_entries" for i
    using that by (auto simp: crc32_bad_entries_def)
  with entry show "{i. i < 256 \<and> crc32_tab ! i \<noteq> crc_bits 8 (word_of_nat i)} = set crc32_bad_entries" by blast
  have "(10 :: nat) < 256" by simp
  from entry [OF this] have bad: "crc32_tab ! 10 \<noteq> crc_bits 8 10" by (simp add: crc32_bad_entries_def)
  have "crc32 [0xF5] = crc32_tab ! 10 XOR 0xFF000000"
    by (simp add: crc32_def crc32_byte_def xor.assoc)
  moreover have "crc_bits 8 0xFFFFFF0A = crc_bits 8 10 XOR 0xFFFFFF"
    by (subst crc_bits_split) simp
  then have "crc32_bitwise [0xF5] = crc_bits 8 10 XOR 0xFF000000"
    by (simp add: crc32_bitwise_def xor.assoc)
  ultimately show "crc32 [0xF5] \<noteq> crc32_bitwise [0xF5]"
    using bad by (metis xor_cancel xor.commute)
qed

end
