(* ===== verification/KvFlash.thy ===== *)
theory KvFlash
  imports KvIndex KvCrc PicoBuffer
begin

text \<open>
  The flash store of \<open>src/kv_flash.c\<close>: page headers, the choice of the page to append to, the
  log of dead pages, records with their commit markers, reading, and the public operations.

  The flash chip is driven by two functions of the SDK, \<open>flash_range_erase\<close> and
  \<open>flash_range_program\<close>, which are not part of the repository: they are the two fields of
  \<open>flash_dev\<close>, an argument of every operation that writes. \<open>nor_flash\<close> states what the code
  relies on. Reading goes through the memory-mapped flash, \<open>kv_flash\<close>.
\<close>

unbundle bit_operations_syntax

record flash_dev =
  fd_erase :: "flash \<Rightarrow> nat \<Rightarrow> nat \<Rightarrow> flash"
  fd_program :: "flash \<Rightarrow> nat \<Rightarrow> byte list \<Rightarrow> flash"

text \<open>
  The documented behaviour of NOR flash: an erase sets every byte of the range to \<open>0xFF\<close>;
  programming writes erased bytes, leaves a byte alone where \<open>0xFF\<close> is programmed, and neither
  touches anything else.
\<close>

definition nor_flash :: "flash_dev \<Rightarrow> bool" where
  "nor_flash dev \<longleftrightarrow>
     (\<forall>f off n a. fd_erase dev f off n a = (if off \<le> a \<and> a < off + n then 0xFF else f a)) \<and>
     (\<forall>f off xs a. \<not> (off \<le> a \<and> a < off + length xs) \<longrightarrow> fd_program dev f off xs a = f a) \<and>
     (\<forall>f off xs a. off \<le> a \<and> a < off + length xs \<and> f a = 0xFF \<longrightarrow> fd_program dev f off xs a = xs ! (a - off)) \<and>
     (\<forall>f off xs a. off \<le> a \<and> a < off + length xs \<and> xs ! (a - off) = 0xFF \<longrightarrow> fd_program dev f off xs a = f a)"

subsection \<open>Reading the flash\<close>

definition xip :: "flash \<Rightarrow> nat \<Rightarrow> nat \<Rightarrow> byte list" where
  "xip f off n = map f [off..<off + n]"

definition ld16 :: "flash \<Rightarrow> nat \<Rightarrow> u16" where
  "ld16 f off = le16 (f off) (f (off + 1))"

definition ld32 :: "flash \<Rightarrow> nat \<Rightarrow> u32" where
  "ld32 f off = le32 (f off) (f (off + 1)) (f (off + 2)) (f (off + 3))"

definition KV_PAGE_MAGIC_V2 :: u32 where "KV_PAGE_MAGIC_V2 = 0x4B565031"
definition KV_PAGE_VERSION_1 :: byte where "KV_PAGE_VERSION_1 = 1"
definition KV_COMMIT_MAGIC :: u32 where "KV_COMMIT_MAGIC = 0x4B564D43"
definition KV_PAGE_STATE_NEW :: byte where "KV_PAGE_STATE_NEW = 1"
definition KV_MAGIC :: u32 where "KV_MAGIC = 0x4B565331"
definition KV_FREE :: u32 where "KV_FREE = 0xFFFFFFFF"
definition KV_DEADLOG_MAGIC :: u32 where "KV_DEADLOG_MAGIC = 0x444C4731"
definition KV_REC_FLAG_COMP :: byte where "KV_REC_FLAG_COMP = 1"
definition KV_REC_FLAG_TOMB :: byte where "KV_REC_FLAG_TOMB = 2"
definition KV_COMMIT_ALIGNED :: nat where "KV_COMMIT_ALIGNED = 16"
definition KV_COMPRESS_MIN :: nat where "KV_COMPRESS_MIN = 64"
definition KV_MAX_VALUE :: nat where "KV_MAX_VALUE = 508"
definition KV_VERSION_ANY :: u16 where "KV_VERSION_ANY = 0xFFFF"

definition page_addr :: "nat \<Rightarrow> nat" where
  "page_addr page = KV_REGION_START + page * KV_SECTOR_SIZE"

definition deadlog_addr :: "nat \<Rightarrow> nat" where
  "deadlog_addr page = KV_DEADLOG_START + page * KV_SECTOR_SIZE"

text \<open>The fields of \<open>kv_page_hdr_t\<close> in the flash, and the header's own checksum.\<close>

definition ph_magic :: "flash \<Rightarrow> nat \<Rightarrow> u32" where "ph_magic f page = ld32 f (page_addr page)"
definition ph_version :: "flash \<Rightarrow> nat \<Rightarrow> byte" where "ph_version f page = f (page_addr page + 4)"
definition ph_sequence :: "flash \<Rightarrow> nat \<Rightarrow> u32" where "ph_sequence f page = ld32 f (page_addr page + 8)"
definition ph_hdr_crc :: "flash \<Rightarrow> nat \<Rightarrow> u32" where "ph_hdr_crc f page = ld32 f (page_addr page + 12)"

definition page_header_ok :: "flash \<Rightarrow> nat \<Rightarrow> bool" where
  "page_header_ok f page \<longleftrightarrow>
     ph_magic f page = KV_PAGE_MAGIC_V2 \<and> ph_version f page = KV_PAGE_VERSION_1
     \<and> crc32 (xip f (page_addr page) 12) = ph_hdr_crc f page"

definition page_header_bytes :: "u32 \<Rightarrow> byte list" where
  "page_header_bytes seq =
     (let hd = bytes32 KV_PAGE_MAGIC_V2 @ [KV_PAGE_VERSION_1, KV_PAGE_STATE_NEW] @ bytes16 0 @ bytes32 seq in
      hd @ bytes32 (crc32 hd))"

subsection \<open>Programming\<close>

definition flash_program_aligned :: "flash_dev \<Rightarrow> flash \<Rightarrow> nat \<Rightarrow> byte list \<Rightarrow> flash" where
  "flash_program_aligned dev f flash_off data =
     (let intra = flash_off mod KV_PAGE_SIZE;
          page_start = flash_off - intra;
          len = length data;
          prog_len = cast16 ((intra + len + (KV_PAGE_SIZE - 1)) div KV_PAGE_SIZE * KV_PAGE_SIZE) in
      if KV_PAGE_SIZE * 3 < prog_len then f
      else fd_program dev f page_start
             (replicate intra 0xFF @ data @ replicate (prog_len - intra - len) 0xFF))"

subsection \<open>Pages\<close>

definition ensure_page_ready :: "flash_dev \<Rightarrow> kv_state \<Rightarrow> nat \<Rightarrow> bool \<times> kv_state" where
  "ensure_page_ready dev s page =
     (let f = kv_flash s in
      if page_header_ok f page then (True, s)
      else
        let seq = g_page_sequence s + 1;
            hdrbuf = page_header_bytes seq @ replicate (KV_PAGE_SIZE - 16) 0xFF;
            f1 = (if ph_magic f page \<noteq> KV_FREE then fd_erase dev f (page_addr page) KV_SECTOR_SIZE else f) in
        (True, s\<lparr>g_page_sequence := seq, kv_flash := fd_program dev f1 (page_addr page) hdrbuf\<rparr>))"

definition page_is_prepared_empty :: "flash \<Rightarrow> nat \<Rightarrow> bool" where
  "page_is_prepared_empty f page \<longleftrightarrow>
     ph_magic f page = KV_PAGE_MAGIC_V2 \<and> ld32 f (page_addr page + 16) = 0xFFFFFFFF"

definition append_candidate :: "flash \<Rightarrow> nat \<Rightarrow> bool" where
  "append_candidate f cand \<longleftrightarrow>
     ph_magic f cand = KV_FREE \<or> ph_magic f cand \<noteq> KV_PAGE_MAGIC_V2 \<or> page_is_prepared_empty f cand"

definition find_next_append_page :: "flash \<Rightarrow> nat \<Rightarrow> nat option" where
  "find_next_append_page f start_page =
     find (append_candidate f) (map (\<lambda>i. (start_page + i) mod KV_SECTOR_COUNT) [1..<KV_SECTOR_COUNT + 1])"

definition prewarm_next_append_page :: "flash_dev \<Rightarrow> kv_state \<Rightarrow> kv_state" where
  "prewarm_next_append_page dev s =
     (case find_next_append_page (kv_flash s) (g_write_page s) of
        None \<Rightarrow> s
      | Some next_page \<Rightarrow>
          if next_page = g_write_page s then s
          else if ph_magic (kv_flash s) next_page = KV_FREE
          then snd (ensure_page_ready dev s next_page)
          else s)"

definition select_append_page :: "kv_state \<Rightarrow> nat \<Rightarrow> bool \<times> kv_state" where
  "select_append_page s need =
     (let magic = ph_magic (kv_flash s) (g_write_page s) in
      if g_write_off s + need \<le> KV_SECTOR_SIZE \<and> (magic = KV_PAGE_MAGIC_V2 \<or> magic = KV_FREE) then (True, s)
      else case find_next_append_page (kv_flash s) (g_write_page s) of
             None \<Rightarrow> (False, s)
           | Some cand \<Rightarrow> (True, s\<lparr>g_write_page := cand, g_write_off := 16\<rparr>))"

subsection \<open>The log of dead pages\<close>

definition deadlog_magic :: "flash \<Rightarrow> nat \<Rightarrow> u32" where
  "deadlog_magic f p = ld32 f (deadlog_addr p)"

definition deadlog_reset_page :: "flash_dev \<Rightarrow> kv_state \<Rightarrow> nat \<Rightarrow> kv_state" where
  "deadlog_reset_page dev s p = s\<lparr>kv_flash := fd_erase dev (kv_flash s) (deadlog_addr p) KV_SECTOR_SIZE\<rparr>"

definition deadlog_init_page_if_needed :: "flash_dev \<Rightarrow> kv_state \<Rightarrow> nat \<Rightarrow> bool \<times> kv_state" where
  "deadlog_init_page_if_needed dev s p =
     (let magic = deadlog_magic (kv_flash s) p in
      if magic = KV_DEADLOG_MAGIC then (True, s)
      else if magic \<noteq> KV_FREE then (False, s)
      else (True, s\<lparr>kv_flash := fd_program dev (kv_flash s) (deadlog_addr p)
                     (bytes32 KV_DEADLOG_MAGIC @ replicate (KV_PAGE_SIZE - 4) 0xFF)\<rparr>))"

text \<open>The scan for the first unused entry, from \<open>off\<close> on.\<close>

function deadlog_scan :: "flash \<Rightarrow> nat \<Rightarrow> nat \<Rightarrow> nat" where
  "deadlog_scan f base off =
     (if off + 4 \<le> KV_SECTOR_SIZE
      then if ld16 f (base + off) = 0xFFFF then off else deadlog_scan f base (off + 4)
      else off)"
  by pat_completeness auto
termination
  by (relation "measure (\<lambda>(f, base, off). KV_SECTOR_SIZE - off)") auto

declare deadlog_scan.simps [simp del]

definition deadlog_entry :: "nat \<Rightarrow> byte list" where
  "deadlog_entry page_idx = bytes16 (word_of_nat page_idx) @ bytes16 0"

fun deadlog_try :: "flash_dev \<Rightarrow> nat \<Rightarrow> nat list \<Rightarrow> kv_state \<Rightarrow> bool \<times> kv_state" where
  "deadlog_try dev page_idx [] s = (False, s)"
| "deadlog_try dev page_idx (n # ns) s =
     (let p = (g_deadlog_write_page s + n) mod KV_DEADLOG_SECTORS;
          (ok, s1) = deadlog_init_page_if_needed dev s p in
      if \<not> ok then deadlog_try dev page_idx ns s1
      else
        let off = deadlog_scan (kv_flash s1) (deadlog_addr p)
                    (if p = g_deadlog_write_page s1 then g_deadlog_write_off s1 else 4) in
        if off + 4 \<le> KV_SECTOR_SIZE then
          (True, s1\<lparr>kv_flash := flash_program_aligned dev (kv_flash s1) (deadlog_addr p + off) (deadlog_entry page_idx),
                    g_deadlog_write_page := p, g_deadlog_write_off := off + 4\<rparr>)
        else deadlog_try dev page_idx ns s1)"

definition deadlog_append :: "flash_dev \<Rightarrow> kv_state \<Rightarrow> nat \<Rightarrow> bool \<times> kv_state" where
  "deadlog_append dev s page_idx =
     (let (done, s1) = deadlog_try dev page_idx [0..<KV_DEADLOG_SECTORS] s in
      if done then (True, s1)
      else
        let s2 = (deadlog_reset_page dev s1 (g_deadlog_write_page s1))\<lparr>g_deadlog_write_off := 4\<rparr>;
            (ok, s3) = deadlog_init_page_if_needed dev s2 (g_deadlog_write_page s2) in
        if \<not> ok then (False, s3)
        else
          (True, s3\<lparr>kv_flash := flash_program_aligned dev (kv_flash s3)
                      (deadlog_addr (g_deadlog_write_page s3) + g_deadlog_write_off s3) (deadlog_entry page_idx),
                    g_deadlog_write_off := g_deadlog_write_off s3 + 4\<rparr>))"

subsection \<open>Records\<close>

text \<open>
  \<open>kv_rec_prefix_t\<close> (26 bytes), the commit marker \<open>kv_commit_rec_t\<close> (14 bytes, padded to 16), and
  the buffer that \<open>append_record\<close> programs: record, padding, marker.
\<close>

definition rec_prefix_bytes :: "nat \<Rightarrow> u32 \<Rightarrow> u32 \<Rightarrow> nat \<Rightarrow> nat \<Rightarrow> u16 \<Rightarrow> byte \<Rightarrow> u32 \<Rightarrow> byte list" where
  "rec_prefix_bytes rec_len mg key raw_len store_len version flags checksum =
     bytes16 (word_of_nat rec_len) @ bytes32 mg @ bytes32 KV_MAGIC @ bytes32 key
     @ bytes16 (word_of_nat raw_len) @ bytes16 (word_of_nat store_len) @ bytes16 version @ [flags, 0]
     @ bytes32 checksum"

definition commit_bytes :: "u32 \<Rightarrow> byte list" where
  "commit_bytes mg =
     bytes16 (word_of_nat KV_COMMIT_ALIGNED) @ bytes32 mg @ bytes32 KV_COMMIT_MAGIC
     @ bytes32 (crc32 (bytes32 mg @ bytes32 KV_COMMIT_MAGIC))"

definition align4 :: "nat \<Rightarrow> nat" where
  "align4 n = cast16 ((n + 3) div 4 * 4)"

definition record_image :: "u32 \<Rightarrow> nat \<Rightarrow> byte list \<Rightarrow> u16 \<Rightarrow> byte \<Rightarrow> u32 \<Rightarrow> byte list" where
  "record_image key raw_len stored version flags mg =
     (let rec_len = cast16 (26 + length stored) in
      rec_prefix_bytes rec_len mg key raw_len (length stored) version flags (crc32 stored) @ stored
      @ replicate (align4 rec_len - rec_len) 0xFF @ commit_bytes mg @ replicate 2 0xFF)"

text \<open>
  \<open>None\<close>: compression failed, and the caller stores the plain bytes. (It cannot access memory
  out of bounds: see \<open>pc_compress_bound_enough\<close>.)
\<close>

definition encode_picocompress :: "byte list \<Rightarrow> nat \<Rightarrow> byte list option" where
  "encode_picocompress inp cap =
     (case pc_compress_buffer (Some inp) (length inp) (Some cap) of
        Some (Inr out) \<Rightarrow> Some out
      | _ \<Rightarrow> None)"

definition stored_form :: "byte list \<Rightarrow> byte \<Rightarrow> byte list \<times> byte" where
  "stored_form raw flags =
     (case (if KV_COMPRESS_MIN \<le> length raw then encode_picocompress raw (KV_MAX_VALUE + 64) else None) of
        Some enc \<Rightarrow> (if length enc < length raw then (enc, flags OR KV_REC_FLAG_COMP) else (raw, flags))
      | None \<Rightarrow> (raw, flags))"

definition append_record ::
  "flash_dev \<Rightarrow> kv_state \<Rightarrow> u32 \<Rightarrow> byte list \<Rightarrow> u16 \<Rightarrow> byte \<Rightarrow> u32 \<Rightarrow> u32 option \<times> kv_state" where
  "append_record dev s key raw version flags mg =
     (let (stored, rec_flags) = stored_form raw flags;
          rec_len_aligned = align4 (cast16 (26 + length stored));
          total = cast16 (rec_len_aligned + KV_COMMIT_ALIGNED);
          (ok, s1) = select_append_page s total in
      if \<not> ok then (None, s1)
      else
        let (ready, s2) = ensure_page_ready dev s1 (g_write_page s1) in
        if \<not> ready then (None, s2)
        else
          let rec_off = page_addr (g_write_page s2) + g_write_off s2;
              image = record_image key (length raw) stored version rec_flags mg;
              loc = pack_loc (g_write_page s2) (g_write_off s2) rec_len_aligned;
              s3 = s2\<lparr>kv_flash := flash_program_aligned dev (kv_flash s2) rec_off image,
                      g_write_off := cast16 (g_write_off s2 + total)\<rparr> in
          (Some loc, prewarm_next_append_page dev s3))"

subsection \<open>Reading records\<close>

definition rp_rec_len :: "flash \<Rightarrow> nat \<Rightarrow> nat" where "rp_rec_len f a = unat (ld16 f a)"
definition rp_group :: "flash \<Rightarrow> nat \<Rightarrow> u32" where "rp_group f a = ld32 f (a + 2)"
definition rp_magic :: "flash \<Rightarrow> nat \<Rightarrow> u32" where "rp_magic f a = ld32 f (a + 6)"
definition rp_key :: "flash \<Rightarrow> nat \<Rightarrow> u32" where "rp_key f a = ld32 f (a + 10)"
definition rp_raw_len :: "flash \<Rightarrow> nat \<Rightarrow> nat" where "rp_raw_len f a = unat (ld16 f (a + 14))"
definition rp_store_len :: "flash \<Rightarrow> nat \<Rightarrow> nat" where "rp_store_len f a = unat (ld16 f (a + 16))"
definition rp_version :: "flash \<Rightarrow> nat \<Rightarrow> u16" where "rp_version f a = ld16 f (a + 18)"
definition rp_flags :: "flash \<Rightarrow> nat \<Rightarrow> byte" where "rp_flags f a = f (a + 20)"
definition rp_checksum :: "flash \<Rightarrow> nat \<Rightarrow> u32" where "rp_checksum f a = ld32 f (a + 22)"

definition rp_stored :: "flash \<Rightarrow> nat \<Rightarrow> byte list" where
  "rp_stored f a = xip f (a + 26) (rp_store_len f a)"

text \<open>
  The result of a read: \<open>Fault\<close> is an access out of bounds inside the decoder, \<open>Miss\<close> is
  \<open>return false\<close>.
\<close>

datatype 'a read_result = Fault | Miss | Found 'a

definition decode_picocompress :: "byte list \<Rightarrow> nat \<Rightarrow> byte list read_result" where
  "decode_picocompress inp out_len =
     (case pc_decompress_buffer (Some inp) (length inp) (Some out_len) of
        None \<Rightarrow> Fault
      | Some (Inl e) \<Rightarrow> Miss
      | Some (Inr out) \<Rightarrow> if length out = out_len then Found out else Miss)"

definition record_valid :: "flash \<Rightarrow> nat \<Rightarrow> nat \<Rightarrow> u32 \<Rightarrow> bool" where
  "record_valid f a off key \<longleftrightarrow>
     rp_magic f a = KV_MAGIC \<and> rp_key f a = key
     \<and> rp_flags f a AND KV_REC_FLAG_TOMB = 0
     \<and> rp_raw_len f a \<le> KV_MAX_VALUE \<and> rp_store_len f a \<le> KV_MAX_VALUE
     \<and> 26 \<le> rp_rec_len f a \<and> 26 + rp_store_len f a \<le> rp_rec_len f a
     \<and> off + rp_rec_len f a \<le> KV_SECTOR_SIZE
     \<and> crc32 (rp_stored f a) = rp_checksum f a"

text \<open>\<open>out\<close> tells whether an output buffer is given, \<open>cap\<close> is \<open>*len\<close> on entry (\<open>None\<close> for NULL).\<close>

definition read_record ::
  "flash \<Rightarrow> u32 \<Rightarrow> u32 \<Rightarrow> bool \<Rightarrow> nat option \<Rightarrow> (byte list option \<times> nat \<times> u16) read_result" where
  "read_record f loc key out cap =
     (let page = loc_page loc; off = loc_off loc; a = page_addr page + off in
      if KV_SECTOR_COUNT \<le> page then Miss
      else if \<not> record_valid f a off key then Miss
      else if (case cap of None \<Rightarrow> False | Some n \<Rightarrow> n < rp_raw_len f a) then Miss
      else if out \<and> cap \<noteq> None then
        if rp_flags f a AND KV_REC_FLAG_COMP \<noteq> 0 then
          (case decode_picocompress (rp_stored f a) (rp_raw_len f a) of
             Fault \<Rightarrow> Fault
           | Miss \<Rightarrow> Miss
           | Found xs \<Rightarrow> Found (Some xs, rp_raw_len f a, rp_version f a))
        else Found (Some (xip f (a + 26) (rp_raw_len f a)), rp_raw_len f a, rp_version f a)
      else Found (None, rp_raw_len f a, rp_version f a))"

definition kv_get_raw :: "kv_state \<Rightarrow> u32 \<Rightarrow> (byte list \<times> nat \<times> bool) option" where
  "kv_get_raw s key =
     (case idx_get s key of
        None \<Rightarrow> None
      | Some (loc, version, flags) \<Rightarrow>
          let f = kv_flash s; page = loc_page loc; a = page_addr page + loc_off loc in
          if KV_SECTOR_COUNT \<le> page then None
          else if rp_magic f a \<noteq> KV_MAGIC \<or> rp_key f a \<noteq> key then None
          else if rp_flags f a AND KV_REC_FLAG_TOMB \<noteq> 0 then None
          else if crc32 (rp_stored f a) \<noteq> rp_checksum f a then None
          else Some (rp_stored f a, rp_raw_len f a, rp_flags f a AND KV_REC_FLAG_COMP \<noteq> 0))"

subsection \<open>Public operations\<close>

definition kv_get_copy ::
  "kv_state \<Rightarrow> u32 \<Rightarrow> bool \<Rightarrow> nat option \<Rightarrow> (byte list option \<times> nat \<times> u16) read_result" where
  "kv_get_copy s key out cap =
     (case idx_get s key of
        None \<Rightarrow> Miss
      | Some (loc, version, flags) \<Rightarrow> read_record (kv_flash s) loc key out cap)"

definition kv_get :: "kv_state \<Rightarrow> u32 \<Rightarrow> byte list read_result" where
  "kv_get s key =
     (case kv_get_copy s key True (Some KV_MAX_VALUE) of
        Found (Some xs, n, v) \<Rightarrow> Found xs
      | Fault \<Rightarrow> Fault
      | _ \<Rightarrow> Miss)"

definition kv_exists :: "kv_state \<Rightarrow> u32 \<Rightarrow> bool" where
  "kv_exists s key \<longleftrightarrow> 0 \<le> idx_find_linear (g_index s) key"

definition next_version :: "u16 \<Rightarrow> u16" where
  "next_version cur_ver = (if 0xFFFE \<le> cur_ver then 1 else cur_ver + 1)"

text \<open>The result is the new version, \<open>None\<close> for \<open>false\<close>.\<close>

definition kv_put_if_version ::
  "flash_dev \<Rightarrow> kv_state \<Rightarrow> u32 \<Rightarrow> byte list \<Rightarrow> u16 \<Rightarrow> u16 option \<times> kv_state" where
  "kv_put_if_version dev s key val expected_version =
     (if KV_MAX_VALUE < length val then (None, s)
      else
        let old = idx_get s key;
            cur_ver = (case old of None \<Rightarrow> 0 | Some (loc, ver, flags) \<Rightarrow> ver) in
        if expected_version \<noteq> KV_VERSION_ANY \<and> expected_version \<noteq> cur_ver then (None, s)
        else
          let mg = g_mutation_group s + 1; s1 = s\<lparr>g_mutation_group := mg\<rparr>;
              next_ver = next_version cur_ver in
          case append_record dev s1 key val next_ver 0 mg of
            (None, s2) \<Rightarrow> (None, s2)
          | (Some new_loc, s2) \<Rightarrow>
              let (set, s3) = idx_set s2 key new_loc next_ver 0 in
              if \<not> set then (None, s3)
              else
                (Some next_ver,
                 case old of
                   None \<Rightarrow> s3
                 | Some (old_loc, _, _) \<Rightarrow> snd (deadlog_append dev s3 (loc_page old_loc))))"

definition kv_put :: "flash_dev \<Rightarrow> kv_state \<Rightarrow> u32 \<Rightarrow> byte list \<Rightarrow> bool \<times> kv_state" where
  "kv_put dev s key val =
     (case kv_put_if_version dev s key val KV_VERSION_ANY of (r, s') \<Rightarrow> (r \<noteq> None, s'))"

definition kv_delete :: "flash_dev \<Rightarrow> kv_state \<Rightarrow> u32 \<Rightarrow> bool \<times> kv_state" where
  "kv_delete dev s key =
     (case idx_get s key of
        None \<Rightarrow> (False, s)
      | Some (old_loc, cur_ver, flags) \<Rightarrow>
          let mg = g_mutation_group s + 1; s1 = s\<lparr>g_mutation_group := mg\<rparr> in
          case append_record dev s1 key [] (cur_ver + 1) KV_REC_FLAG_TOMB mg of
            (None, s2) \<Rightarrow> (False, s2)
          | (Some tomb_loc, s2) \<Rightarrow>
              (True, snd (deadlog_append dev (idx_remove s2 key) (loc_page old_loc))))"

definition kv_wipe :: "flash_dev \<Rightarrow> kv_state \<Rightarrow> kv_state" where
  "kv_wipe dev s =
     s\<lparr>kv_flash := fold (\<lambda>i f. fd_erase dev f (KV_REGION_START + i * KV_SECTOR_SIZE) KV_SECTOR_SIZE)
         [0..<(KV_DEADLOG_END - KV_REGION_START) div KV_SECTOR_SIZE] (kv_flash s),
       g_index := [], g_write_page := 0, g_write_off := 16, g_page_sequence := 0, g_mutation_group := 0,
       g_page_ref_count := (\<lambda>_. 0)\<rparr>"

subsection \<open>Compaction\<close>

text \<open>
  One turn of the loop of \<open>kv_compact_step\<close>: \<open>None\<close> is \<open>continue\<close>, otherwise the function
  returns.
\<close>

definition compact_try :: "flash_dev \<Rightarrow> kv_state \<Rightarrow> nat \<Rightarrow> (bool \<times> kv_state) option" where
  "compact_try dev s spin =
     (let f = kv_flash s;
          p = (g_deadlog_read_page s + spin) mod KV_DEADLOG_SECTORS;
          off = (if p = g_deadlog_read_page s then g_deadlog_read_off s else 4);
          dead_page = unat (ld16 f (deadlog_addr p + off)) in
      if deadlog_magic f p \<noteq> KV_DEADLOG_MAGIC then None
      else if KV_SECTOR_SIZE < off + 4 then None
      else if dead_page = 0xFFFF then None
      else
        let s1 = s\<lparr>g_deadlog_read_page := p, g_deadlog_read_off := cast16 (off + 4)\<rparr> in
        if KV_SECTOR_COUNT \<le> dead_page then Some (False, s1)
        else if dead_page = g_write_page s then Some (False, s1)
        else if page_has_live_refs s dead_page then Some (False, s1)
        else if ld32 f (page_addr dead_page) = KV_FREE then Some (False, s1)
        else Some (True, s1\<lparr>kv_flash := fd_erase dev f (page_addr dead_page) KV_SECTOR_SIZE\<rparr>))"

fun compact_loop :: "flash_dev \<Rightarrow> kv_state \<Rightarrow> nat list \<Rightarrow> bool \<times> kv_state" where
  "compact_loop dev s [] = (False, s)"
| "compact_loop dev s (spin # spins) =
     (case compact_try dev s spin of None \<Rightarrow> compact_loop dev s spins | Some r \<Rightarrow> r)"

definition kv_compact_step :: "flash_dev \<Rightarrow> kv_state \<Rightarrow> bool \<times> kv_state" where
  "kv_compact_step dev s = compact_loop dev s [0..<KV_DEADLOG_SECTORS]"

text \<open>\<open>None\<close>: the loop does not end (it does, see \<open>kv_reclaim_returns\<close>).\<close>

partial_function (option) reclaim_loop :: "flash_dev \<Rightarrow> kv_state \<Rightarrow> nat \<Rightarrow> (nat \<times> kv_state) option" where
  "reclaim_loop dev s n =
     (let (more, s') = kv_compact_step dev s in
      if more then reclaim_loop dev s' (n + 1) else Some (n, s'))"

definition kv_reclaim :: "flash_dev \<Rightarrow> kv_state \<Rightarrow> (nat \<times> kv_state) option" where
  "kv_reclaim dev s = reclaim_loop dev s 0"

subsection \<open>Statistics and enumeration\<close>

record kv_stats_t =
  st_active :: nat
  st_dead :: nat
  st_free :: nat
  st_total :: nat

definition kv_stats :: "kv_state \<Rightarrow> kv_stats_t" where
  "kv_stats s =
     (let live = fold (\<lambda>e pages. let page = loc_page (e_loc e) in
                     if page < KV_SECTOR_COUNT \<and> page \<notin> set pages then page # pages else pages) (g_index s) [];
          indexed_pages = length live;
          header_pages = length (filter (\<lambda>p. ph_magic (kv_flash s) p = KV_PAGE_MAGIC_V2) [0..<KV_SECTOR_COUNT]);
          used_pages = (if indexed_pages < header_pages then header_pages else indexed_pages) in
      \<lparr>st_active = length (g_index s),
       st_dead = (if indexed_pages < header_pages then header_pages - indexed_pages else 0),
       st_free = (if used_pages \<le> KV_SECTOR_COUNT then KV_SECTOR_COUNT - used_pages else 0),
       st_total = KV_SECTOR_COUNT\<rparr>)"

definition kv_range :: "kv_state \<Rightarrow> u32 \<Rightarrow> u32 \<Rightarrow> nat \<Rightarrow> (u32 \<times> nat) list" where
  "kv_range s key_prefix prefix_mask max_results =
     take max_results (map (\<lambda>e. (e_key e, loc_page (e_loc e)))
       (filter (\<lambda>e. e_key e AND prefix_mask = key_prefix AND prefix_mask) (g_index s)))"

definition kv_record_count :: "kv_state \<Rightarrow> nat" where
  "kv_record_count s = length (g_index s)"

text \<open>The output arrays with their counter \<open>n\<close> are the list of pairs, the current pair last.\<close>

fun type_counts_loop :: "idx_entry list \<Rightarrow> nat \<Rightarrow> u16 \<Rightarrow> (u16 \<times> nat) list \<Rightarrow> (u16 \<times> nat) list" where
  "type_counts_loop [] max_types prev_type out = out"
| "type_counts_loop (e # es) max_types prev_type out =
     (let t = ucast (drop_bit 22 (e_key e)) in
      if t = prev_type \<and> out \<noteq> [] then
        type_counts_loop es max_types prev_type (butlast out @ [(fst (last out), snd (last out) + 1)])
      else if max_types \<le> length out then out
      else type_counts_loop es max_types t (out @ [(t, 1)]))"

definition kv_type_counts :: "kv_state \<Rightarrow> nat \<Rightarrow> (u16 \<times> nat) list" where
  "kv_type_counts s max_types = type_counts_loop (g_index s) max_types 0xFFFF []"

end
