(* ===== verification/KvInit.thy ===== *)
theory KvInit
  imports KvFlash
begin

text \<open>
  \<open>kv_init\<close> of \<open>src/kv_flash.c\<close>: recovery of the index from the flash after a reset. Every page
  with a valid header is scanned record by record; a data record is held as pending, and only
  the commit marker of its mutation group applies it to the index.
\<close>

unbundle bit_operations_syntax

record pending_rec =
  pd_key :: u32
  pd_loc :: u32
  pd_version :: u16
  pd_flags :: byte
  pd_group :: u32

text \<open>Applying a committed record: the higher version wins, a tombstone removes the key.\<close>

definition apply_pending :: "kv_state \<Rightarrow> pending_rec \<Rightarrow> kv_state" where
  "apply_pending s pd =
     (let cur = idx_get s (pd_key pd) in
      if (case cur of None \<Rightarrow> True | Some (loc, ver, flags) \<Rightarrow> ver \<le> pd_version pd) then
        if pd_flags pd AND KV_REC_FLAG_TOMB \<noteq> 0 then idx_remove s (pd_key pd)
        else snd (idx_set s (pd_key pd) (pd_loc pd) (pd_version pd) (pd_flags pd))
      else s)"

text \<open>
  The record at offset \<open>off\<close> of page \<open>p\<close>: \<open>None\<close> ends the scan of the page (the \<open>break\<close>s), else
  the new pending record and the new index. The flash does not change during recovery.
\<close>

definition commit_matches :: "flash \<Rightarrow> nat \<Rightarrow> pending_rec \<Rightarrow> bool" where
  "commit_matches f a pd \<longleftrightarrow> ld32 f (a + 10) = crc32 (xip f (a + 2) 8) \<and> ld32 f (a + 2) = pd_group pd"

definition scan_record ::
  "nat \<Rightarrow> nat \<Rightarrow> pending_rec option \<Rightarrow> kv_state \<Rightarrow> (pending_rec option \<times> kv_state) option" where
  "scan_record p off pending s =
     (let f = kv_flash s; a = page_addr p + off; rec_len = rp_rec_len f a; magic = rp_magic f a in
      if rec_len = 0xFFFF \<or> rec_len = 0 then None
      else if magic = KV_COMMIT_MAGIC then
        if rec_len < 14 \<or> KV_SECTOR_SIZE < off + rec_len then None
        else
          (case pending of
             Some pd \<Rightarrow> if commit_matches f a pd then Some (None, apply_pending s pd) else Some (None, s)
           | None \<Rightarrow> Some (None, s))
      else if magic = KV_MAGIC then
        if rec_len < 26 \<or> KV_SECTOR_SIZE < off + rec_len then None
        else if rec_len < 26 + rp_store_len f a then None
        else if crc32 (rp_stored f a) = rp_checksum f a then
          Some (Some \<lparr>pd_key = rp_key f a, pd_loc = pack_loc p off (align4 rec_len), pd_version = rp_version f a,
                      pd_flags = rp_flags f a, pd_group = rp_group f a\<rparr>, s)
        else Some (pending, s)
      else None)"

text \<open>
  The loop over the records of a page; the result has the offset where it stopped. A record
  fits into the sector, so its aligned length is positive and the offset grows.
\<close>

function scan_page :: "nat \<Rightarrow> nat \<Rightarrow> pending_rec option \<Rightarrow> kv_state \<Rightarrow> nat \<times> kv_state" where
  "scan_page p off pending s =
     (if off + 14 \<le> KV_SECTOR_SIZE then
        (case scan_record p off pending s of
           None \<Rightarrow> (off, s)
         | Some (pending', s') \<Rightarrow>
             scan_page p (cast16 (off + align4 (rp_rec_len (kv_flash s) (page_addr p + off)))) pending' s')
      else (off, s))"
  by pat_completeness auto

lemma scan_record_len:
  "scan_record p off pending s = Some r \<Longrightarrow>
   14 \<le> rp_rec_len (kv_flash s) (page_addr p + off)
   \<and> off + rp_rec_len (kv_flash s) (page_addr p + off) \<le> KV_SECTOR_SIZE"
  by (auto simp: scan_record_def Let_def split: if_split_asm)

lemma scan_record_advance:
  assumes "scan_record p off pending s = Some r"
  shows "off < cast16 (off + align4 (rp_rec_len (kv_flash s) (page_addr p + off)))"
proof -
  let ?n = "rp_rec_len (kv_flash s) (page_addr p + off)"
  from scan_record_len [OF assms] have n: "14 \<le> ?n" "off + ?n \<le> 4096" by (auto simp: KV_SECTOR_SIZE_def)
  then have "align4 ?n = (?n + 3) div 4 * 4" by (simp add: align4_def)
  with n show ?thesis by simp
qed

termination scan_page
  by (relation "measure (\<lambda>(p, off, pending, s). KV_SECTOR_SIZE - off)")
    (auto dest!: scan_record_advance)

declare scan_page.simps [simp del]

definition init_page :: "nat \<Rightarrow> kv_state \<times> (nat \<times> nat) option \<Rightarrow> kv_state \<times> (nat \<times> nat) option" where
  "init_page p st =
     (let (s, last) = st; f = kv_flash s in
      if \<not> page_header_ok f p then st
      else
        let s1 = (if g_page_sequence s < ph_sequence f p then s\<lparr>g_page_sequence := ph_sequence f p\<rparr> else s);
            (off, s2) = scan_page p 16 None s1 in
        (s2, if 16 < off then Some (p, off) else last))"

definition init_deadlog_page :: "nat \<Rightarrow> kv_state \<Rightarrow> kv_state" where
  "init_deadlog_page p s =
     (if deadlog_magic (kv_flash s) p \<noteq> KV_DEADLOG_MAGIC then s
      else s\<lparr>g_deadlog_write_page := p, g_deadlog_write_off := deadlog_scan (kv_flash s) (deadlog_addr p) 4\<rparr>)"

definition kv_init :: "kv_state \<Rightarrow> kv_state" where
  "kv_init s =
     (let s0 = s\<lparr>g_index := [], g_write_page := 0, g_write_off := 16, g_page_sequence := 0,
                 g_mutation_group := 0, g_page_ref_count := (\<lambda>_. 0)\<rparr>;
          (s1, last) = fold init_page [0..<KV_SECTOR_COUNT] (s0, None);
          s2 = s1\<lparr>g_mutation_group := g_page_sequence s1 + 1\<rparr>;
          s3 = (case last of
                  None \<Rightarrow> s2
                | Some (last_page, last_off) \<Rightarrow>
                    if KV_SECTOR_SIZE \<le> last_off
                    then s2\<lparr>g_write_page := (last_page + 1) mod KV_SECTOR_COUNT, g_write_off := 16\<rparr>
                    else s2\<lparr>g_write_page := last_page, g_write_off := last_off\<rparr>);
          s4 = s3\<lparr>g_deadlog_write_page := 0, g_deadlog_write_off := 4, g_deadlog_read_page := 0,
                  g_deadlog_read_off := 4\<rparr> in
      fold init_deadlog_page [0..<KV_DEADLOG_SECTORS] s4)"

end
