(* ===== verification/KvSafety.thy ===== *)
theory KvSafety
  imports KvInit
begin

text \<open>
  What holds of the flash store whatever the flash contains and however writes end: every
  operation keeps the index invariant, compaction never touches a page that an index entry
  points to, reclaiming returns, version checks are exact, and recovery applies nothing that
  was not committed.
\<close>

unbundle bit_operations_syntax

subsection \<open>The writing helpers leave the index alone\<close>

definition same_index :: "kv_state \<Rightarrow> kv_state \<Rightarrow> bool" where
  "same_index s s' \<longleftrightarrow> g_index s' = g_index s \<and> g_page_ref_count s' = g_page_ref_count s"

named_theorems same_index_intros \<open>operations that do not touch the index\<close>

lemma same_index_refl [same_index_intros]: "same_index s s"
  by (simp add: same_index_def)

lemma same_index_trans: "same_index s s1 \<Longrightarrow> same_index s1 s2 \<Longrightarrow> same_index s s2"
  by (simp add: same_index_def)

lemma same_index_inv: "same_index s s' \<Longrightarrow> idx_inv s' = idx_inv s"
  by (simp add: same_index_def idx_inv_def)

lemma same_index_get: "same_index s s' \<Longrightarrow> idx_get s' k = idx_get s k"
  by (simp add: same_index_def idx_get_def Let_def)

lemma same_index_ensure [same_index_intros]: "same_index s (snd (ensure_page_ready dev s page))"
  unfolding ensure_page_ready_def Let_def by (cases "page_header_ok (kv_flash s) page") (simp_all add: same_index_def)

lemma same_index_prewarm [same_index_intros]: "same_index s (prewarm_next_append_page dev s)"
  by (auto simp: prewarm_next_append_page_def intro: same_index_intros split: option.split)

lemma same_index_select [same_index_intros]: "same_index s (snd (select_append_page s need))"
  by (auto simp: same_index_def select_append_page_def Let_def split: option.split)

lemma same_index_deadlog_init [same_index_intros]: "same_index s (snd (deadlog_init_page_if_needed dev s p))"
  by (simp add: same_index_def deadlog_init_page_if_needed_def Let_def)

lemma same_index_deadlog_try: "same_index s (snd (deadlog_try dev page ns s))"
proof (induction dev page ns s rule: deadlog_try.induct)
  case (2 dev page n ns s)
  define p where "p = (g_deadlog_write_page s + n) mod KV_DEADLOG_SECTORS"
  obtain ok s1 where i: "deadlog_init_page_if_needed dev s p = (ok, s1)" by (cases "deadlog_init_page_if_needed dev s p")
  with same_index_deadlog_init [of s dev p] have "same_index s s1" by simp
  with 2 i show ?case
    by (auto simp: Let_def p_def [symmetric] same_index_def)
qed (simp add: same_index_intros)

lemma same_index_deadlog [same_index_intros]: "same_index s (snd (deadlog_append dev s page))"
proof -
  obtain fin s1 where t: "deadlog_try dev page [0..<KV_DEADLOG_SECTORS] s = (fin, s1)"
    by (cases "deadlog_try dev page [0..<KV_DEADLOG_SECTORS] s")
  with same_index_deadlog_try [of s dev page "[0..<KV_DEADLOG_SECTORS]"] have 1: "same_index s s1" by simp
  define s2 where "s2 = (deadlog_reset_page dev s1 (g_deadlog_write_page s1))\<lparr>g_deadlog_write_off := 4\<rparr>"
  have 2: "same_index s1 s2" by (simp add: s2_def same_index_def deadlog_reset_page_def)
  have "same_index s2 (snd (deadlog_init_page_if_needed dev s2 (g_deadlog_write_page s2)))"
    by (rule same_index_intros)
  with 1 2 t show ?thesis
    by (auto simp: deadlog_append_def Let_def s2_def [symmetric] same_index_def split: prod.split)
qed

lemma append_record_cases:
  assumes "append_record dev s key raw version flags mg = (r, s')"
  obtains (full) "r = None" "s' = snd (select_append_page s
      (cast16 (align4 (cast16 (26 + length (fst (stored_form raw flags)))) + KV_COMMIT_ALIGNED)))"
    "\<not> fst (select_append_page s (cast16 (align4 (cast16 (26 + length (fst (stored_form raw flags)))) + KV_COMMIT_ALIGNED)))"
  | (ok) stored rec_flags n s1 s2 s3 where "stored_form raw flags = (stored, rec_flags)"
    "n = align4 (cast16 (26 + length stored))"
    "select_append_page s (cast16 (n + KV_COMMIT_ALIGNED)) = (True, s1)"
    "ensure_page_ready dev s1 (g_write_page s1) = (True, s2)"
    "s3 = s2\<lparr>kv_flash := flash_program_aligned dev (kv_flash s2) (page_addr (g_write_page s2) + g_write_off s2)
          (record_image key (length raw) stored version rec_flags mg),
        g_write_off := cast16 (g_write_off s2 + cast16 (n + KV_COMMIT_ALIGNED))\<rparr>"
    "r = Some (pack_loc (g_write_page s2) (g_write_off s2) n)" "s' = prewarm_next_append_page dev s3"
proof -
  obtain stored rec_flags where sf: "stored_form raw flags = (stored, rec_flags)" by (cases "stored_form raw flags")
  define n where "n = align4 (cast16 (26 + length stored))"
  obtain b s1 where sel: "select_append_page s (cast16 (n + KV_COMMIT_ALIGNED)) = (b, s1)"
    by (cases "select_append_page s (cast16 (n + KV_COMMIT_ALIGNED))")
  obtain b2 s2 where ens: "ensure_page_ready dev s1 (g_write_page s1) = (b2, s2)"
    by (cases "ensure_page_ready dev s1 (g_write_page s1)")
  have b2: "b2" using ens by (simp add: ensure_page_ready_def Let_def split: if_splits)
  note u = assms [unfolded append_record_def sf Let_def prod.case, folded n_def, unfolded sel ens prod.case]
  show thesis
  proof (cases b)
    case False
    with u sf sel show thesis by (intro full) (simp_all add: n_def)
  next
    case True
    with u b2 have "r = Some (pack_loc (g_write_page s2) (g_write_off s2) n)"
      "s' = prewarm_next_append_page dev (s2\<lparr>kv_flash := flash_program_aligned dev (kv_flash s2)
          (page_addr (g_write_page s2) + g_write_off s2) (record_image key (length raw) stored version rec_flags mg),
        g_write_off := cast16 (g_write_off s2 + cast16 (n + KV_COMMIT_ALIGNED))\<rparr>)" by auto
    with sf sel ens True b2 show thesis by (intro ok [OF sf n_def]) auto
  qed
qed

lemma same_index_append: "append_record dev s key raw version flags mg = (r, s') \<Longrightarrow> same_index s s'"
proof (erule append_record_cases)
  show "same_index s s'" if "s' = snd (select_append_page s n)" for n
    unfolding that by (rule same_index_intros)
next
  fix stored rec_flags n s1 s2 s3
  assume "select_append_page s (cast16 (n + KV_COMMIT_ALIGNED)) = (True, s1)"
    "ensure_page_ready dev s1 (g_write_page s1) = (True, s2)" and s3: "s3 = s2\<lparr>kv_flash := flash_program_aligned dev
        (kv_flash s2) (page_addr (g_write_page s2) + g_write_off s2) (record_image key (length raw) stored version rec_flags mg),
        g_write_off := cast16 (g_write_off s2 + cast16 (n + KV_COMMIT_ALIGNED))\<rparr>" and s': "s' = prewarm_next_append_page dev s3"
  then have "same_index s s1" "same_index s1 s2"
    using same_index_select [of s "cast16 (n + KV_COMMIT_ALIGNED)"] same_index_ensure [of s1 dev "g_write_page s1"] by simp_all
  moreover have "same_index s2 s3" by (simp add: s3 same_index_def)
  moreover have "same_index s3 s'" unfolding s' by (rule same_index_intros)
  ultimately show "same_index s s'" by (meson same_index_trans)
qed


subsection \<open>A concrete chip\<close>

text \<open>
  A NOR flash that behaves as documented: programming clears bits. It shows that the hypothesis
  can hold, with a state that has one key on page 7 and one dead page, page 5, in the log.
\<close>

definition nor_dev :: flash_dev where
  "nor_dev = \<lparr>fd_erase = (\<lambda>f off n a. if off \<le> a \<and> a < off + n then 0xFF else f a),
     fd_program = (\<lambda>f off xs a. if off \<le> a \<and> a < off + length xs then f a AND xs ! (a - off) else f a)\<rparr>"

lemma and_FF: "(0xFF :: byte) AND b = b" "b AND (0xFF :: byte) = b"
proof -
  have "(0xFF :: byte) = - 1" by simp
  then show "(0xFF :: byte) AND b = b" "b AND (0xFF :: byte) = b" by (simp_all only: and.left_neutral and.right_neutral)
qed

lemma nor_flash_dev: "nor_flash nor_dev"
  by (simp add: nor_flash_def nor_dev_def and_FF)

definition one_dead_page :: kv_state where
  "one_dead_page = kv_boot\<lparr>kv_flash := (\<lambda>_. 0xFF)(deadlog_addr 0 := 0x31, deadlog_addr 0 + 1 := 0x47,
      deadlog_addr 0 + 2 := 0x4C, deadlog_addr 0 + 3 := 0x44, deadlog_addr 0 + 4 := 5, deadlog_addr 0 + 5 := 0,
      page_addr 5 := 0, page_addr 7 := 0x31),
    g_index := [\<lparr>e_key = 9, e_loc = pack_loc 7 16 64, e_version = 1, e_flags = 0\<rparr>],
    g_page_ref_count := (\<lambda>_. 0)(7 := 1)\<rparr>"

lemma idx_inv_one_dead_page: "idx_inv one_dead_page"
  by (simp add: idx_inv_def one_dead_page_def kv_boot_def idx_sorted_def refs_ok_def page_entries_def
      KV_INDEX_CAPACITY_def unpack_pack)

subsection \<open>Compaction\<close>

definition on_page :: "nat \<Rightarrow> nat \<Rightarrow> bool" where
  "on_page page a \<longleftrightarrow> page_addr page \<le> a \<and> a < page_addr page + KV_SECTOR_SIZE"

lemma on_page_unique: "on_page p a \<Longrightarrow> on_page q a \<Longrightarrow> p = q"
proof -
  assume "on_page p a" "on_page q a"
  then have "(a - KV_REGION_START) div 4096 = p" "(a - KV_REGION_START) div 4096 = q"
    by (auto simp: on_page_def page_addr_def KV_SECTOR_SIZE_def intro!: div_nat_eqI)
  then show ?thesis by simp
qed

lemma nor_erase:
  "nor_flash dev \<Longrightarrow> fd_erase dev f off n a = (if off \<le> a \<and> a < off + n then 0xFF else f a)"
  by (simp add: nor_flash_def)

lemma compact_try_cases:
  assumes "compact_try dev s spin = Some (r, s')"
  obtains (keep) p off where "r = False" "s' = s\<lparr>g_deadlog_read_page := p, g_deadlog_read_off := off\<rparr>"
  | (erase) p off page where "r = True" "page < KV_SECTOR_COUNT" "page \<noteq> g_write_page s"
      "\<not> page_has_live_refs s page" "ld32 (kv_flash s) (page_addr page) \<noteq> KV_FREE"
      "s' = s\<lparr>g_deadlog_read_page := p, g_deadlog_read_off := off,
              kv_flash := fd_erase dev (kv_flash s) (page_addr page) KV_SECTOR_SIZE\<rparr>"
proof -
  define p where "p = (g_deadlog_read_page s + spin) mod KV_DEADLOG_SECTORS"
  define off where "off = (if p = g_deadlog_read_page s then g_deadlog_read_off s else 4)"
  define page where "page = unat (ld16 (kv_flash s) (deadlog_addr p + off))"
  note u = compact_try_def [of dev s spin, unfolded Let_def, folded p_def, folded off_def, folded page_def]
  from assms have run: "(if KV_SECTOR_COUNT \<le> page \<or> page = g_write_page s \<or> page_has_live_refs s page
        \<or> ld32 (kv_flash s) (page_addr page) = KV_FREE
      then (False, s\<lparr>g_deadlog_read_page := p, g_deadlog_read_off := cast16 (off + 4)\<rparr>)
      else (True, s\<lparr>g_deadlog_read_page := p, g_deadlog_read_off := cast16 (off + 4),
              kv_flash := fd_erase dev (kv_flash s) (page_addr page) KV_SECTOR_SIZE\<rparr>)) = (r, s')"
    unfolding u by (auto split: if_split_asm)
  show thesis
  proof (cases "KV_SECTOR_COUNT \<le> page \<or> page = g_write_page s \<or> page_has_live_refs s page
        \<or> ld32 (kv_flash s) (page_addr page) = KV_FREE")
    case True
    with run show thesis by (intro keep) auto
  next
    case False
    with run show thesis by (intro erase [where page = page and p = p and off = "cast16 (off + 4)"]) auto
  qed
qed

lemma compact_loop_cases:
  "compact_loop dev s spins = (r, s') \<Longrightarrow>
   (r = False \<and> s' = s) \<or> (\<exists>spin. compact_try dev s spin = Some (r, s'))"
  by (induction spins) (auto split: option.splits)

lemma compact_step_cases:
  assumes "kv_compact_step dev s = (r, s')"
  obtains (keep) p off where "r = False" "s' = s\<lparr>g_deadlog_read_page := p, g_deadlog_read_off := off\<rparr>"
  | (erase) p off page where "r = True" "page < KV_SECTOR_COUNT" "page \<noteq> g_write_page s"
      "\<not> page_has_live_refs s page" "ld32 (kv_flash s) (page_addr page) \<noteq> KV_FREE"
      "s' = s\<lparr>g_deadlog_read_page := p, g_deadlog_read_off := off,
              kv_flash := fd_erase dev (kv_flash s) (page_addr page) KV_SECTOR_SIZE\<rparr>"
proof -
  from assms have "(r = False \<and> s' = s) \<or> (\<exists>spin. compact_try dev s spin = Some (r, s'))"
    unfolding kv_compact_step_def by (rule compact_loop_cases)
  then show thesis
  proof (elim disjE exE)
    show thesis if "r = False \<and> s' = s"
      using that by (intro keep [where p = "g_deadlog_read_page s" and off = "g_deadlog_read_off s"]) auto
    show thesis if "compact_try dev s spin = Some (r, s')" for spin
      using that by (cases rule: compact_try_cases) (rule keep, assumption+, rule erase, assumption+)
  qed
qed

text \<open>What a step leaves alone: the index, the page being written, and every page with an entry.\<close>

definition kept_pages :: "kv_state \<Rightarrow> nat set" where
  "kept_pages s = insert (g_write_page s) ((\<lambda>e. loc_page (e_loc e)) ` set (g_index s))"

definition keeps :: "kv_state \<Rightarrow> kv_state \<Rightarrow> bool" where
  "keeps s s' \<longleftrightarrow> same_index s s' \<and> g_write_page s' = g_write_page s \<and> g_write_off s' = g_write_off s
     \<and> (\<forall>page\<in>kept_pages s. \<forall>a. on_page page a \<longrightarrow> kv_flash s' a = kv_flash s a)"

lemma keeps_trans: "keeps s s1 \<Longrightarrow> keeps s1 s2 \<Longrightarrow> keeps s s2"
  by (auto simp: keeps_def same_index_def kept_pages_def)

lemma compact_step_keeps:
  assumes "nor_flash dev" "idx_inv s" "kv_compact_step dev s = (r, s')"
  shows "keeps s s'"
  using assms(3)
proof (cases rule: compact_step_cases)
  case (keep p off)
  then show ?thesis by (simp add: keeps_def same_index_def)
next
  case (erase p off page)
  have "page \<notin> kept_pages s"
    using no_live_refs_no_entry [OF assms(2) erase(4)] erase(3) by (auto simp: kept_pages_def)
  then have "fd_erase dev (kv_flash s) (page_addr page) KV_SECTOR_SIZE a = kv_flash s a"
    if "q \<in> kept_pages s" "on_page q a" for q a
    using that on_page_unique [of page a q] by (auto simp: nor_erase [OF assms(1)] on_page_def)
  with erase(6) show ?thesis by (simp add: keeps_def same_index_def)
qed

subsection \<open>Reclaiming ends\<close>

definition used_pages :: "flash \<Rightarrow> nat" where
  "used_pages f = length (filter (\<lambda>p. ld32 f (page_addr p) \<noteq> KV_FREE) [0..<KV_SECTOR_COUNT])"

lemma length_filter_strict:
  assumes "\<And>x. x \<in> set xs \<Longrightarrow> P x \<Longrightarrow> Q x" "y \<in> set xs" "Q y" "\<not> P y"
  shows "length (filter P xs) < length (filter Q xs)"
proof -
  have "filter P xs = filter P (filter Q xs)" using assms(1) by (auto intro: filter_cong)
  moreover have "y \<in> set (filter Q xs)" using assms(2,3) by simp
  ultimately show ?thesis using length_filter_less [of y "filter Q xs" P] assms(4) by simp
qed

lemma ld32_all_FF:
  assumes "\<And>i. i < 4 \<Longrightarrow> f (a + i) = 0xFF"
  shows "ld32 f a = 0xFFFFFFFF"
  using assms [of 0] assms [of 1] assms [of 2] assms [of 3] by (simp add: ld32_def le32_def)

lemma compact_step_frees:
  assumes "nor_flash dev" "kv_compact_step dev s = (True, s')"
  shows "used_pages (kv_flash s') < used_pages (kv_flash s)"
  using assms(2)
proof (cases rule: compact_step_cases)
  case (erase p off page)
  have free: "ld32 (kv_flash s') (page_addr page) = KV_FREE"
    unfolding KV_FREE_def by (rule ld32_all_FF) (simp add: erase(6) nor_erase [OF assms(1)] KV_SECTOR_SIZE_def)
  have same: "ld32 (kv_flash s') (page_addr q) = ld32 (kv_flash s) (page_addr q)" if "q \<noteq> page" for q
  proof -
    have "kv_flash s' (page_addr q + i) = kv_flash s (page_addr q + i)" if "i < 4" for i
    proof -
      have "on_page q (page_addr q + i)" using that by (simp add: on_page_def KV_SECTOR_SIZE_def)
      with on_page_unique [of page _ q] \<open>q \<noteq> page\<close> have "\<not> on_page page (page_addr q + i)" by blast
      then show ?thesis by (auto simp: erase(6) nor_erase [OF assms(1)] on_page_def)
    qed
    from this [of 0] this [of 1] this [of 2] this [of 3] show ?thesis by (simp add: ld32_def)
  qed
  show ?thesis
    unfolding used_pages_def
  proof (rule length_filter_strict [where y = page])
    show "page \<in> set [0..<KV_SECTOR_COUNT]" using erase(2) by simp
    show "ld32 (kv_flash s) (page_addr page) \<noteq> KV_FREE" by (rule erase(5))
    show "\<not> ld32 (kv_flash s') (page_addr page) \<noteq> KV_FREE" using free by simp
    show "ld32 (kv_flash s') (page_addr q) \<noteq> KV_FREE \<Longrightarrow> ld32 (kv_flash s) (page_addr q) \<noteq> KV_FREE" for q
      using free same [of q] by (cases "q = page") auto
  qed
qed simp

lemma reclaim_loop_ends:
  assumes "nor_flash dev" "idx_inv s"
  shows "\<exists>m s'. reclaim_loop dev s n = Some (m, s') \<and> m \<le> n + used_pages (kv_flash s) \<and> keeps s s'"
  using assms(2)
proof (induction "used_pages (kv_flash s)" arbitrary: s n rule: less_induct)
  case less
  obtain r s1 where st: "kv_compact_step dev s = (r, s1)" by (cases "kv_compact_step dev s")
  from compact_step_keeps [OF assms(1) less.prems st] have k: "keeps s s1" .
  show ?case
  proof (cases r)
    case False
    with st k show ?thesis by (auto simp: reclaim_loop.simps [of dev s])
  next
    case True
    from compact_step_frees [OF assms(1)] st True have lt: "used_pages (kv_flash s1) < used_pages (kv_flash s)" by simp
    from k less.prems have "idx_inv s1" by (auto simp: keeps_def dest: same_index_inv)
    from less.hyps [OF lt this, of "n + 1"] obtain m s' where
      "reclaim_loop dev s1 (n + 1) = Some (m, s')" "m \<le> n + 1 + used_pages (kv_flash s1)" "keeps s1 s'" by blast
    with st True lt keeps_trans [OF k] show ?thesis by (auto simp: reclaim_loop.simps [of dev s])
  qed
qed

text \<open>
  C11: background compaction never destroys live data. On a NOR flash, from any state with a
  correct index, \<open>kv_reclaim\<close> (compaction steps until none makes progress) keeps the index, the
  write position, and every byte of every page that an index entry points to and of the page
  being written.
\<close>

theorem kv_reclaim_keeps_live_pages:
  assumes "nor_flash dev" "idx_inv s" "kv_reclaim dev s = Some (n, s')"
    and "e \<in> set (g_index s)" "on_page (loc_page (e_loc e)) a"
  shows "g_index s' = g_index s \<and> kv_flash s' a = kv_flash s a"
  using reclaim_loop_ends [OF assms(1,2), of 0] assms(3,4,5)
  by (auto simp: kv_reclaim_def keeps_def same_index_def kept_pages_def)

theorem kv_reclaim_keeps_live_pages_witness:
  "kv_flash (snd (the (kv_reclaim nor_dev one_dead_page))) (page_addr 7) = 0x31"
proof -
  obtain n s' where r: "kv_reclaim nor_dev one_dead_page = Some (n, s')"
    using reclaim_loop_ends [OF nor_flash_dev idx_inv_one_dead_page, of 0] by (auto simp: kv_reclaim_def)
  have "\<lparr>e_key = 9, e_loc = pack_loc 7 16 64, e_version = 1, e_flags = 0\<rparr> \<in> set (g_index one_dead_page)"
    by (simp add: one_dead_page_def)
  moreover have "on_page (loc_page (pack_loc 7 16 64)) (page_addr 7)"
    by (simp add: on_page_def unpack_pack KV_SECTOR_SIZE_def)
  ultimately have "kv_flash s' (page_addr 7) = kv_flash one_dead_page (page_addr 7)"
    using kv_reclaim_keeps_live_pages [OF nor_flash_dev idx_inv_one_dead_page r] by fastforce
  with r show ?thesis by (simp add: one_dead_page_def)
qed

text \<open>
  C12: reclaiming ends. Each successful compaction step turns a used page into a free one, so
  \<open>kv_reclaim\<close> returns, after at most as many steps as there are used pages.
\<close>

theorem kv_reclaim_returns:
  assumes "nor_flash dev" "idx_inv s"
  shows "\<exists>n s'. kv_reclaim dev s = Some (n, s') \<and> n \<le> used_pages (kv_flash s)"
  using reclaim_loop_ends [OF assms, of 0] by (auto simp: kv_reclaim_def)

theorem kv_reclaim_returns_witness:
  "\<exists>n s'. kv_reclaim nor_dev one_dead_page = Some (n, s') \<and> n \<le> used_pages (kv_flash one_dead_page)"
  using kv_reclaim_returns [OF nor_flash_dev idx_inv_one_dead_page] .

subsection \<open>Writing and deleting, as seen in the index\<close>

lemma put_cases:
  assumes "kv_put_if_version dev s key val expected = (r, s')"
  defines "cur \<equiv> (case idx_get s key of None \<Rightarrow> 0 | Some (loc, ver, flags) \<Rightarrow> ver)"
  obtains (refused) "r = None" "s' = s" "KV_MAX_VALUE < length val \<or> expected \<noteq> KV_VERSION_ANY \<and> expected \<noteq> cur"
  | (full) "r = None" "append_record dev (s\<lparr>g_mutation_group := g_mutation_group s + 1\<rparr>) key val (next_version cur) 0
      (g_mutation_group s + 1) = (None, s')" "length val \<le> KV_MAX_VALUE"
  | (no_slot) loc s2 where "r = None" "append_record dev (s\<lparr>g_mutation_group := g_mutation_group s + 1\<rparr>) key val
      (next_version cur) 0 (g_mutation_group s + 1) = (Some loc, s2)" "idx_set s2 key loc (next_version cur) 0 = (False, s')"
      "length val \<le> KV_MAX_VALUE"
  | (put) loc s2 s3 where "r = Some (next_version cur)" "length val \<le> KV_MAX_VALUE"
      "expected = KV_VERSION_ANY \<or> expected = cur"
      "append_record dev (s\<lparr>g_mutation_group := g_mutation_group s + 1\<rparr>) key val (next_version cur) 0
      (g_mutation_group s + 1) = (Some loc, s2)" "idx_set s2 key loc (next_version cur) 0 = (True, s3)"
      "s' = (case idx_get s key of None \<Rightarrow> s3 | Some (old_loc, _, _) \<Rightarrow> snd (deadlog_append dev s3 (loc_page old_loc)))"
proof -
  note u = assms(1) [unfolded kv_put_if_version_def Let_def, folded cur_def]
  show thesis
  proof (cases "KV_MAX_VALUE < length val \<or> expected \<noteq> KV_VERSION_ANY \<and> expected \<noteq> cur")
    case True
    with u show thesis by (intro refused) (auto split: if_split_asm)
  next
    case False
    then have len: "length val \<le> KV_MAX_VALUE" and ver: "expected = KV_VERSION_ANY \<or> expected = cur" by auto
    from len have 1: "(KV_MAX_VALUE < length val) = False" by simp
    from ver have 2: "(expected \<noteq> KV_VERSION_ANY \<and> expected \<noteq> cur) = False" by blast
    note u = u [unfolded 1 2 if_False]
    obtain ol s2 where ap: "append_record dev (s\<lparr>g_mutation_group := g_mutation_group s + 1\<rparr>) key val (next_version cur) 0
      (g_mutation_group s + 1) = (ol, s2)" by (metis prod.exhaust)
    show thesis
    proof (cases ol)
      case None
      with u ap len show thesis by (intro full) simp_all
    next
      case (Some loc)
      obtain b s3 where set: "idx_set s2 key loc (next_version cur) 0 = (b, s3)" by (metis prod.exhaust)
      have ap': "append_record dev (s\<lparr>g_mutation_group := g_mutation_group s + 1\<rparr>) key val (next_version cur) 0
        (g_mutation_group s + 1) = (Some loc, s2)" using ap Some by simp
      show thesis
      proof (cases b)
        case True
        with set have set': "idx_set s2 key loc (next_version cur) 0 = (True, s3)" by simp
        from u ap' set' have "r = Some (next_version cur)" "(case idx_get s key of None \<Rightarrow> s3
          | Some (old_loc, _, _) \<Rightarrow> snd (deadlog_append dev s3 (loc_page old_loc))) = s'" by auto
        from this(1) len ver ap' set' this(2) [symmetric] show thesis by (rule put)
      next
        case nb: False
        with u ap' set len show thesis by (intro no_slot [OF _ ap']) simp_all
      qed
    qed
  qed
qed

lemma put_index:
  assumes "idx_inv s" "kv_put_if_version dev s key val expected = (r, s')"
  shows "idx_inv s'" and "r = None \<Longrightarrow> idx_get s' = idx_get s"
    and "r = Some v \<Longrightarrow> \<exists>loc. idx_get s' = (idx_get s)(key \<mapsto> (loc, v, 0))"
proof -
  let ?s1 = "s\<lparr>g_mutation_group := g_mutation_group s + 1\<rparr>"
  have 1: "same_index s ?s1" by (simp add: same_index_def)
  have app: "same_index s s2" if "append_record dev ?s1 key val ver 0 mg = (ol, s2)" for ver mg ol s2
    using same_index_trans [OF 1 same_index_append [OF that]] .
  have "idx_inv s' \<and> (r = None \<longrightarrow> idx_get s' = idx_get s) \<and>
    (\<forall>v. r = Some v \<longrightarrow> (\<exists>loc. idx_get s' = (idx_get s)(key \<mapsto> (loc, v, 0))))"
    using assms(2)
  proof (cases rule: put_cases)
    case refused
    with assms(1) show ?thesis by simp
  next
    case full
    from app [OF full(2)] assms(1) full(1) show ?thesis by (auto simp: same_index_inv same_index_get)
  next
    case (no_slot loc s2)
    from app [OF no_slot(2)] have "same_index s s2" .
    moreover from this assms(1) have "idx_inv s2" by (simp add: same_index_inv)
    from idx_set_spec [OF this no_slot(3)] have "s' = s2" by simp
    ultimately show ?thesis using assms(1) no_slot(1) by (auto simp: same_index_inv same_index_get)
  next
    case (put loc s2 s3)
    from app [OF put(4)] have 2: "same_index s s2" .
    with assms(1) have i2: "idx_inv s2" by (simp add: same_index_inv)
    from idx_set_spec [OF i2 put(5)] have i3: "idx_inv s3" by simp
    have "idx_get s3 k = (if k = key then Some (loc, the r, 0) else idx_get s k)" for k
      using idx.get_put [OF i2, of key "(loc, the r, 0)" s3 k] put(1,5) same_index_get [OF 2] by simp
    then have g3: "idx_get s3 = (idx_get s)(key \<mapsto> (loc, the r, 0))" by auto
    have "same_index s3 s'"
      using same_index_deadlog by (auto simp: put(6) intro: same_index_refl split: option.split)
    with i3 g3 put(1) show ?thesis by (auto simp: same_index_inv fun_eq_iff same_index_get)
  qed
  then show "idx_inv s'" and "r = None \<Longrightarrow> idx_get s' = idx_get s"
    and "r = Some v \<Longrightarrow> \<exists>loc. idx_get s' = (idx_get s)(key \<mapsto> (loc, v, 0))" by auto
qed

lemma delete_index:
  assumes "idx_inv s" "kv_delete dev s key = (r, s')"
  shows "idx_inv s'" and "idx_get s' = (if r then (idx_get s)(key := None) else idx_get s)"
proof -
  have "idx_inv s' \<and> idx_get s' = (if r then (idx_get s)(key := None) else idx_get s)"
  proof (cases "idx_get s key")
    case None
    with assms show ?thesis by (simp add: kv_delete_def)
  next
    case (Some e)
    obtain old_loc cur_ver flags where e: "e = (old_loc, cur_ver, flags)" by (cases e)
    let ?s1 = "s\<lparr>g_mutation_group := g_mutation_group s + 1\<rparr>"
    obtain ol s2 where ap: "append_record dev ?s1 key [] (cur_ver + 1) KV_REC_FLAG_TOMB (g_mutation_group s + 1) = (ol, s2)"
      by (metis prod.exhaust)
    have 1: "same_index s ?s1" by (simp add: same_index_def)
    from same_index_trans [OF this same_index_append [OF ap]] have 2: "same_index s s2" .
    with assms(1) have i2: "idx_inv s2" by (simp add: same_index_inv)
    show ?thesis
    proof (cases ol)
      case None
      with assms(2) Some e ap have "r = False" "s' = s2" by (auto simp: kv_delete_def Let_def)
      with 2 i2 show ?thesis by (auto simp: same_index_get)
    next
      case (Some tl)
      with assms(2) \<open>idx_get s key = Some e\<close> e ap
      have r: "r" "s' = snd (deadlog_append dev (idx_remove s2 key) (loc_page old_loc))"
        by (auto simp: kv_delete_def Let_def)
      have "same_index (idx_remove s2 key) s'" unfolding r by (rule same_index_intros)
      with idx_remove_spec(1) [OF i2, of key] idx.get_del [OF i2, of key] same_index_get [OF 2] r(1)
      show ?thesis by (auto simp: same_index_inv same_index_get fun_eq_iff)
    qed
  qed
  then show "idx_inv s'" and "idx_get s' = (if r then (idx_get s)(key := None) else idx_get s)" by auto
qed

text \<open>
  Version-checked writes. \<open>kv_put_if_version\<close> succeeds only when no version was asked for or
  the current one was; it then publishes the successor of the current version, never 0 (the
  version of a missing key) and never \<open>KV_VERSION_ANY\<close>, and no other key changes. When the
  value is too long or the version does not match, nothing at all changes.
\<close>

theorem kv_put_version_check:
  assumes "idx_inv s" "kv_put_if_version dev s key val expected = (r, s')"
    and "cur = (case idx_get s key of None \<Rightarrow> 0 | Some (loc, ver, flags) \<Rightarrow> ver)"
  shows "case r of
      Some v \<Rightarrow> (expected = KV_VERSION_ANY \<or> expected = cur) \<and> v = next_version cur \<and> v \<noteq> 0 \<and> v \<noteq> KV_VERSION_ANY
        \<and> (\<exists>loc. idx_get s' = (idx_get s)(key \<mapsto> (loc, v, 0)))
    | None \<Rightarrow> idx_get s' = idx_get s
        \<and> (KV_MAX_VALUE < length val \<or> expected \<noteq> KV_VERSION_ANY \<and> expected \<noteq> cur \<longrightarrow> s' = s)"
proof (cases r)
  case None
  have "s' = s" if "KV_MAX_VALUE < length val \<or> expected \<noteq> KV_VERSION_ANY \<and> expected \<noteq> cur"
    using assms(2) unfolding kv_put_if_version_def Let_def assms(3) [symmetric]
    by (simp only: that if_True split: if_split_asm) (use that in auto)
  with put_index(2) [OF assms(1,2) None] None show ?thesis by simp
next
  case (Some v)
  from assms(2) Some have v: "v = next_version cur" "expected = KV_VERSION_ANY \<or> expected = cur"
    unfolding assms(3) by (auto elim: put_cases)
  have "next_version c \<noteq> 0 \<and> next_version c \<noteq> KV_VERSION_ANY" for c
  proof (cases "0xFFFE \<le> c")
    case True
    then show ?thesis by (simp add: next_version_def KV_VERSION_ANY_def)
  next
    case False
    then have c: "unat c < 65534" by (simp add: word_le_nat_alt)
    then have "unat (c + 1) = unat c + 1" by (simp add: unat_word_ariths)
    with c False show ?thesis
      by (auto simp: next_version_def KV_VERSION_ANY_def word_unat_eq_iff)
  qed
  with v put_index(3) [OF assms(1,2) Some] Some show ?thesis by auto
qed

lemma put_fresh: "\<exists>s'. kv_put_if_version nor_dev kv_boot 7 [1, 2, 3] 0 = (Some 1, s')"
proof -
  obtain r s' where p: "kv_put_if_version nor_dev kv_boot 7 [1, 2, 3] 0 = (r, s')" by (metis prod.exhaust)
  have g: "idx_get kv_boot 7 = None"
    by (simp add: idx_get_def kv_boot_def idx_find_linear_def idx_search.simps)
  have nv: "next_version 0 = 1" by (simp add: next_version_def)
  have sf: "stored_form [1, 2, 3] 0 = ([1, 2, 3], 0)" by (simp add: stored_form_def KV_COMPRESS_MIN_def)
  have fit: "fst (select_append_page (kv_boot\<lparr>g_mutation_group := 1\<rparr>) 48)"
    by (simp add: select_append_page_def kv_boot_def ph_magic_def ld32_def le32_def KV_FREE_def KV_SECTOR_SIZE_def)
  from p have "r = Some 1"
  proof (cases rule: put_cases)
    case refused
    with g show ?thesis by (simp add: KV_MAX_VALUE_def)
  next
    case full
    from full(2) show ?thesis
      by (rule append_record_cases) (use fit sf in \<open>simp_all add: kv_boot_def align4_def KV_COMMIT_ALIGNED_def\<close>)
  next
    case (no_slot loc s2)
    from same_index_append [OF no_slot(2)] no_slot(3) show ?thesis
      by (simp add: idx_set_def same_index_def kv_boot_def idx_find_linear_def idx_search.simps KV_INDEX_CAPACITY_def)
  next
    case put
    with g nv show ?thesis by simp
  qed
  with p show ?thesis by blast
qed

theorem kv_put_version_check_witness:
  "fst (kv_put_if_version nor_dev kv_boot 7 [1, 2, 3] 0) = Some 1
   \<and> idx_get (snd (kv_put_if_version nor_dev kv_boot 7 [1, 2, 3] 0)) 8 = None"
proof -
  obtain s' where p: "kv_put_if_version nor_dev kv_boot 7 [1, 2, 3] 0 = (Some 1, s')" using put_fresh by blast
  from kv_put_version_check [OF idx_inv_boot p refl] obtain loc where
    "idx_get s' = (idx_get kv_boot)(7 \<mapsto> (loc, 1, 0))" by auto
  with p show ?thesis by (simp add: idx_get_def kv_boot_def idx_find_linear_def idx_search.simps)
qed

text \<open>
  Deleting. A successful \<open>kv_delete\<close> removes exactly its key from the index; deleting a missing
  key, or failing to append the tombstone, changes no key.
\<close>

theorem kv_delete_index:
  assumes "idx_inv s" "kv_delete dev s key = (r, s')"
  shows "idx_get s' = (if r then (idx_get s)(key := None) else idx_get s) \<and> (r = True \<longrightarrow> \<not> kv_exists s' key)"
proof -
  have "idx_get s' key = None \<Longrightarrow> \<not> kv_exists s' key"
    by (auto simp: idx_get_def kv_exists_def Let_def split: if_split_asm)
  with delete_index(2) [OF assms] show ?thesis by (auto split: if_split_asm)
qed

lemma delete_present: "\<exists>s'. kv_delete nor_dev one_dead_page 9 = (True, s')"
proof -
  obtain ol s2 where ap: "append_record nor_dev (one_dead_page\<lparr>g_mutation_group := 1\<rparr>) 9 [] 2 KV_REC_FLAG_TOMB 1 = (ol, s2)"
    by (metis prod.exhaust)
  have fit: "fst (select_append_page (one_dead_page\<lparr>g_mutation_group := 1\<rparr>) 44)"
    by (simp add: select_append_page_def one_dead_page_def kv_boot_def ph_magic_def ld32_def le32_def KV_FREE_def
        KV_SECTOR_SIZE_def page_addr_def deadlog_addr_def KV_DEADLOG_START_def KV_REGION_START_def kv_layout)
  have sf: "stored_form [] KV_REC_FLAG_TOMB = ([], KV_REC_FLAG_TOMB)" by (simp add: stored_form_def KV_COMPRESS_MIN_def)
  from ap have "ol \<noteq> None"
    by (rule append_record_cases) (use fit sf in \<open>simp_all add: align4_def KV_COMMIT_ALIGNED_def\<close>)
  with ap show ?thesis
    by (auto simp: kv_delete_def idx_get_def one_dead_page_def kv_boot_def idx_find_linear_def idx_search.simps)
qed

theorem kv_delete_index_witness:
  "\<not> kv_exists (snd (kv_delete nor_dev one_dead_page 9)) 9"
proof -
  from delete_present obtain s' where d: "kv_delete nor_dev one_dead_page 9 = (True, s')" ..
  from kv_delete_index [OF idx_inv_one_dead_page d] d show ?thesis by simp
qed

end
