(* ===== verification/KvFlashLemmas.thy ===== *)
theory KvFlashLemmas
  imports KvSafety
begin

text \<open>
  What programming and erasing do to the bytes of the store on a NOR flash: aligned programming
  touches the bytes of the data only, preparing a page leaves every other page alone, and the log
  of dead pages never reaches the record area. The reading functions depend only on the bytes
  of their record.
\<close>

unbundle bit_operations_syntax

subsection \<open>Loads depend on the bytes they load\<close>

definition agree :: "flash \<Rightarrow> flash \<Rightarrow> nat \<Rightarrow> nat \<Rightarrow> bool" where
  "agree f f' lo hi \<longleftrightarrow> (\<forall>a. lo \<le> a \<and> a < hi \<longrightarrow> f' a = f a)"

definition erased :: "flash \<Rightarrow> nat \<Rightarrow> nat \<Rightarrow> bool" where
  "erased f lo hi \<longleftrightarrow> (\<forall>a. lo \<le> a \<and> a < hi \<longrightarrow> f a = 0xFF)"

named_theorems agree_intros \<open>loads from two memories that agree\<close>

lemma agreeD: "agree f f' lo hi \<Longrightarrow> lo \<le> a \<Longrightarrow> a < hi \<Longrightarrow> f' a = f a"
  by (simp add: agree_def)

lemma agree_mono: "agree f f' lo hi \<Longrightarrow> lo \<le> lo' \<Longrightarrow> hi' \<le> hi \<Longrightarrow> agree f f' lo' hi'"
  by (simp add: agree_def)

lemma agree_trans: "agree f f1 lo hi \<Longrightarrow> agree f1 f2 lo hi \<Longrightarrow> agree f f2 lo hi"
  by (simp add: agree_def)

lemma agree_refl [simp]: "agree f f lo hi"
  by (simp add: agree_def)

lemma agree_ld16: "agree f f' lo hi \<Longrightarrow> lo \<le> a \<Longrightarrow> a + 2 \<le> hi \<Longrightarrow> ld16 f' a = ld16 f a"
  by (simp add: ld16_def agree_def)

lemma agree_ld32: "agree f f' lo hi \<Longrightarrow> lo \<le> a \<Longrightarrow> a + 4 \<le> hi \<Longrightarrow> ld32 f' a = ld32 f a"
  by (simp add: ld32_def agree_def)

lemma agree_xip: "agree f f' lo hi \<Longrightarrow> lo \<le> a \<Longrightarrow> a + n \<le> hi \<Longrightarrow> xip f' a n = xip f a n"
  by (simp add: xip_def agree_def)

lemma agree_header: "agree f f' (page_addr p) (page_addr p + 16) \<Longrightarrow> page_header_ok f' p = page_header_ok f p"
  by (simp add: page_header_ok_def ph_magic_def ph_version_def ph_hdr_crc_def agree_xip agree_ld32 agree_def)

lemma agree_magic: "agree f f' (page_addr p) (page_addr p + 16) \<Longrightarrow> ph_magic f' p = ph_magic f p"
  by (simp add: ph_magic_def agree_ld32)

lemma erased_agree: "erased f lo hi \<Longrightarrow> agree f f' lo hi \<Longrightarrow> erased f' lo hi"
  by (simp add: erased_def agree_def)

lemma erased_mono: "erased f lo hi \<Longrightarrow> lo \<le> lo' \<Longrightarrow> hi' \<le> hi \<Longrightarrow> erased f lo' hi'"
  by (simp add: erased_def)

lemma erased_ld32: "erased f a (a + 4) \<Longrightarrow> ld32 f a = 0xFFFFFFFF"
  by (rule ld32_all_FF) (simp add: erased_def)

lemma erased_ld16: "erased f a (a + 2) \<Longrightarrow> ld16 f a = 0xFFFF"
  by (simp add: erased_def ld16_def le16_def)

lemma ld32_FF_erased: "ld32 f a = 0xFFFFFFFF \<Longrightarrow> erased f a (a + 4)"
proof -
  assume eq: "ld32 f a = 0xFFFFFFFF"
  have b: "bytes32 (ld32 f a) = [f a, f (a + 1), f (a + 2), f (a + 3)]"
    unfolding bytes32_def ld32_def le32_def list.inject
    by (intro conjI refl; rule bit_word_eqI; auto simp: bit_simps dest: bit_imp_le_length)
  have "bytes32 (0xFFFFFFFF) = [0xFF, 0xFF, 0xFF, 0xFF]" by (simp add: bytes32_def)
  with b eq have F: "f a = 0xFF" "f (a + 1) = 0xFF" "f (a + 2) = 0xFF" "f (a + 3) = 0xFF" by auto
  have "\<And>x. a \<le> x \<Longrightarrow> x < a + 4 \<Longrightarrow> x = a \<or> x = a + 1 \<or> x = a + 2 \<or> x = a + 3" by auto
  with F show ?thesis unfolding erased_def by metis
qed

lemma length_xip [simp]: "length (xip f a n) = n"
  by (simp add: xip_def)

lemma nth_xip [simp]: "i < n \<Longrightarrow> xip f a n ! i = f (a + i)"
  by (simp add: xip_def)

lemma xip_append: "xip f a (m + n) = xip f a m @ xip f (a + m) n"
  by (rule nth_equalityI) (auto simp: nth_append add.assoc)

lemma xip_at: "xip f a (length xs) = xs \<Longrightarrow> i < length xs \<Longrightarrow> f (a + i) = xs ! i"
  by (metis nth_xip)

lemma xip_part:
  assumes "xip f a (length zs) = zs" "zs = xs @ ys @ us"
  shows "xip f (a + length xs) (length ys) = ys"
proof (rule nth_equalityI)
  fix i
  assume "i < length (xip f (a + length xs) (length ys))"
  then have "i < length ys" by simp
  with xip_at [OF assms(1), of "length xs + i"] show "xip f (a + length xs) (length ys) ! i = ys ! i"
    by (simp add: assms(2) nth_append add.assoc)
qed simp

lemma ld16_bytes: "xip f a 2 = bytes16 x \<Longrightarrow> ld16 f a = x"
  by (simp add: ld16_def xip_def bytes16_def upt_rec [of _ "_ + _"] numeral_2_eq_2)

lemma ld32_bytes: "xip f a 4 = bytes32 x \<Longrightarrow> ld32 f a = x"
proof -
  assume "xip f a 4 = bytes32 x"
  then have "xip f a 4 ! i = bytes32 x ! i" for i by simp
  from this [of 0] this [of 1] this [of 2] this [of 3] show ?thesis
    by (simp add: ld32_def bytes32_def numeral_2_eq_2 numeral_3_eq_3)
qed

subsection \<open>Programming\<close>

lemma nor_program_outside:
  "nor_flash dev \<Longrightarrow> \<not> (off \<le> a \<and> a < off + length xs) \<Longrightarrow> fd_program dev f off xs a = f a"
  by (simp add: nor_flash_def)

lemma nor_program_skip:
  "nor_flash dev \<Longrightarrow> off \<le> a \<Longrightarrow> a < off + length xs \<Longrightarrow> xs ! (a - off) = 0xFF \<Longrightarrow> fd_program dev f off xs a = f a"
  by (simp add: nor_flash_def)

lemma nor_program_erased:
  "nor_flash dev \<Longrightarrow> off \<le> a \<Longrightarrow> a < off + length xs \<Longrightarrow> f a = 0xFF \<Longrightarrow> fd_program dev f off xs a = xs ! (a - off)"
  by (simp add: nor_flash_def)

lemma nor_program_padded:
  assumes "nor_flash dev" "\<not> (off + m \<le> a \<and> a < off + m + length xs)"
  shows "fd_program dev f off (replicate m 0xFF @ xs @ replicate n 0xFF) a = f a"
proof (cases "off \<le> a \<and> a < off + length (replicate m (0xFF :: byte) @ xs @ replicate n 0xFF)")
  case True
  then have "(replicate m (0xFF :: byte) @ xs @ replicate n 0xFF) ! (a - off) = 0xFF"
    using assms(2) by (auto simp: nth_append)
  with True show ?thesis by (intro nor_program_skip [OF assms(1)]) auto
qed (rule nor_program_outside [OF assms(1)])

lemma program_aligned_outside:
  assumes "nor_flash dev" "\<not> (off \<le> a \<and> a < off + length xs)"
  shows "flash_program_aligned dev f off xs a = f a"
  using nor_program_padded [OF assms(1), of "off - off mod KV_PAGE_SIZE" "off mod KV_PAGE_SIZE" a xs] assms(2)
  by (simp add: flash_program_aligned_def Let_def)

lemma fits_program:
  "length xs \<le> 1000 \<Longrightarrow> (cast16 ((off mod KV_PAGE_SIZE + length xs + (KV_PAGE_SIZE - 1)) div KV_PAGE_SIZE * KV_PAGE_SIZE)
     \<le> KV_PAGE_SIZE * 3) = (off mod KV_PAGE_SIZE + length xs \<le> 768)"
proof -
  assume len: "length xs \<le> 1000"
  define t where "t = off mod 256 + length xs"
  have "t < 256 + 1001" using len by (simp add: t_def add_less_le_mono)
  then show ?thesis by (simp add: KV_PAGE_SIZE_def t_def [symmetric]) (auto simp: cast16_def)
qed

lemma program_aligned_inside:
  assumes "nor_flash dev" "length xs \<le> 1000" "off mod KV_PAGE_SIZE + length xs \<le> 768"
    and "off \<le> a" "a < off + length xs" "f a = 0xFF"
  shows "flash_program_aligned dev f off xs a = xs ! (a - off)"
proof -
  define i where "i = off mod KV_PAGE_SIZE"
  have i: "i \<le> off" by (simp add: i_def)
  define n where "n = cast16 ((i + length xs + (KV_PAGE_SIZE - 1)) div KV_PAGE_SIZE * KV_PAGE_SIZE) - i - length xs"
  have "flash_program_aligned dev f off xs a
      = fd_program dev f (off - i) (replicate i 0xFF @ xs @ replicate n 0xFF) a"
    using fits_program [OF assms(2), of off] assms(3)
    by (simp add: flash_program_aligned_def Let_def i_def n_def)
  also have "\<dots> = (replicate i 0xFF @ xs @ replicate n 0xFF) ! (a - (off - i))"
    by (rule nor_program_erased [OF assms(1)]) (use assms(4-6) i in auto)
  also have "\<dots> = xs ! (a - off)"
    using assms(4,5) i by (auto simp: nth_append intro: arg_cong [where f = "nth xs"])
  finally show ?thesis .
qed

lemma program_aligned_xip:
  assumes "nor_flash dev" "length xs \<le> 1000" "off mod KV_PAGE_SIZE + length xs \<le> 768"
    and "erased f off (off + length xs)"
  shows "xip (flash_program_aligned dev f off xs) off (length xs) = xs"
  using assms(4) by (auto intro!: nth_equalityI simp: program_aligned_inside [OF assms(1-3)] erased_def)

lemma program_aligned_skipped:
  assumes "length xs \<le> 1000" "\<not> off mod KV_PAGE_SIZE + length xs \<le> 768"
  shows "flash_program_aligned dev f off xs = f"
  using fits_program [OF assms(1), of off] assms(2)
  by (simp add: flash_program_aligned_def Let_def)

subsection \<open>Preparing a page\<close>

definition page_erased :: "flash \<Rightarrow> nat \<Rightarrow> nat \<Rightarrow> bool" where
  "page_erased f p off \<longleftrightarrow> erased f (page_addr p + off) (page_addr p + KV_SECTOR_SIZE)"

lemma page_erased_mono: "page_erased f p off \<Longrightarrow> off \<le> off' \<Longrightarrow> page_erased f p off'"
  by (simp add: page_erased_def erased_mono)

lemma length_page_header [simp]: "length (page_header_bytes seq) = 16"
  by (simp add: page_header_bytes_def Let_def)

lemma header_bytes_ok:
  assumes "xip f (page_addr p) 16 = page_header_bytes seq"
  shows "page_header_ok f p"
proof -
  define hd where "hd = bytes32 KV_PAGE_MAGIC_V2 @ [KV_PAGE_VERSION_1, KV_PAGE_STATE_NEW] @ bytes16 0 @ bytes32 seq"
  have hdr: "page_header_bytes seq = hd @ bytes32 (crc32 hd)"
    by (simp add: page_header_bytes_def hd_def)
  have len: "length hd = 12" by (simp add: hd_def)
  have x: "xip f (page_addr p) (length (page_header_bytes seq)) = page_header_bytes seq" using assms by simp
  have "xip f (page_addr p) 12 = hd"
    using xip_part [OF x, of "[]" hd "bytes32 (crc32 hd)"] by (simp add: hdr len)
  moreover have "ld32 f (page_addr p + 12) = crc32 hd"
    using xip_part [OF x, of hd "bytes32 (crc32 hd)" "[]"] by (simp add: hdr len ld32_bytes)
  moreover have "ld32 f (page_addr p) = KV_PAGE_MAGIC_V2"
    using xip_part [OF x, of "[]" "bytes32 KV_PAGE_MAGIC_V2"] by (simp add: hdr hd_def ld32_bytes)
  moreover have "f (page_addr p + 4) = KV_PAGE_VERSION_1"
    using xip_at [OF x, of 4] by (simp add: hdr hd_def nth_append)
  ultimately show ?thesis by (simp add: page_header_ok_def ph_magic_def ph_version_def ph_hdr_crc_def)
qed

lemma not_free_header: "page_header_ok f p \<Longrightarrow> ph_magic f p \<noteq> KV_FREE"
  by (simp add: page_header_ok_def KV_PAGE_MAGIC_V2_def KV_FREE_def)

lemma ensure_spec:
  assumes nor: "nor_flash dev" and free: "ph_magic (kv_flash s) p = KV_FREE \<Longrightarrow> page_erased (kv_flash s) p 0"
    and run: "ensure_page_ready dev s p = (b, s')"
  shows "b" and "page_header_ok (kv_flash s') p"
    and "\<not> on_page p a \<Longrightarrow> kv_flash s' a = kv_flash s a"
    and "page_header_ok (kv_flash s) p \<Longrightarrow> s' = s"
    and "\<not> page_header_ok (kv_flash s) p \<Longrightarrow> page_erased (kv_flash s') p 16"
    and "\<exists>seq. s' = s\<lparr>g_page_sequence := seq, kv_flash := kv_flash s'\<rparr>"
proof -
  let ?f = "kv_flash s"
  have "b \<and> page_header_ok (kv_flash s') p \<and> (\<forall>a. \<not> on_page p a \<longrightarrow> kv_flash s' a = ?f a)
    \<and> (page_header_ok ?f p \<longrightarrow> s' = s) \<and> (\<not> page_header_ok ?f p \<longrightarrow> page_erased (kv_flash s') p 16)
    \<and> (\<exists>seq. s' = s\<lparr>g_page_sequence := seq, kv_flash := kv_flash s'\<rparr>)"
  proof (cases "page_header_ok ?f p")
    case True
    with run show ?thesis by (auto simp: ensure_page_ready_def intro: exI [of _ "g_page_sequence s"])
  next
    case False
    define hdr where "hdr = page_header_bytes (g_page_sequence s + 1)"
    define f1 where "f1 = (if ph_magic ?f p \<noteq> KV_FREE then fd_erase dev ?f (page_addr p) KV_SECTOR_SIZE else ?f)"
    define f2 where "f2 = fd_program dev f1 (page_addr p) (hdr @ replicate (KV_PAGE_SIZE - 16) 0xFF)"
    have s': "b" "s' = s\<lparr>g_page_sequence := g_page_sequence s + 1, kv_flash := f2\<rparr>"
      using run False by (auto simp: ensure_page_ready_def Let_def f1_def f2_def hdr_def)
    have f1: "f1 a = (if on_page p a then 0xFF else ?f a)" for a
      using free by (auto simp: f1_def nor_erase [OF nor] on_page_def page_erased_def erased_def)
    have out: "f2 a = f1 a" if "\<not> (page_addr p \<le> a \<and> a < page_addr p + 16)" for a
      using nor_program_padded [OF nor, of "page_addr p" 0 a hdr] that by (simp add: f2_def hdr_def)
    have inside: "f2 (page_addr p + i) = hdr ! i" if "i < 16" for i
    proof -
      have "f1 (page_addr p + i) = 0xFF" using that by (simp add: f1 on_page_def KV_SECTOR_SIZE_def)
      with that show ?thesis
        by (simp add: f2_def nor_program_erased [where f = f1, OF nor] nth_append hdr_def)
    qed
    then have "xip f2 (page_addr p) 16 = hdr"
      by (intro nth_equalityI) (auto simp: hdr_def)
    then have "page_header_ok f2 p" unfolding hdr_def by (rule header_bytes_ok)
    moreover have "page_erased f2 p 16"
      by (auto simp: page_erased_def erased_def out f1 on_page_def)
    moreover have "f2 a = ?f a" if "\<not> on_page p a" for a
      using that out [of a] f1 [of a] by (auto simp: on_page_def KV_SECTOR_SIZE_def)
    ultimately show ?thesis using s' False by auto
  qed
  then show "b" and "page_header_ok (kv_flash s') p"
    and "\<not> on_page p a \<Longrightarrow> kv_flash s' a = kv_flash s a"
    and "page_header_ok (kv_flash s) p \<Longrightarrow> s' = s"
    and "\<not> page_header_ok (kv_flash s) p \<Longrightarrow> page_erased (kv_flash s') p 16"
    and "\<exists>seq. s' = s\<lparr>g_page_sequence := seq, kv_flash := kv_flash s'\<rparr>" by auto
qed

subsection \<open>The log of dead pages stays in its region\<close>

definition log_only :: "kv_state \<Rightarrow> kv_state \<Rightarrow> bool" where
  "log_only s s' \<longleftrightarrow> same_index s s' \<and> g_write_page s' = g_write_page s \<and> g_write_off s' = g_write_off s
     \<and> (g_deadlog_write_page s < KV_DEADLOG_SECTORS \<longrightarrow> g_deadlog_write_page s' < KV_DEADLOG_SECTORS)
     \<and> agree (kv_flash s) (kv_flash s') 0 KV_DEADLOG_START"

lemma log_only_trans: "log_only s s1 \<Longrightarrow> log_only s1 s2 \<Longrightarrow> log_only s s2"
  by (auto simp: log_only_def same_index_def intro: agree_trans)

lemma log_only_init:
  assumes "nor_flash dev" "deadlog_init_page_if_needed dev s p = (ok, s')"
  shows "log_only s s'"
proof -
  have "fd_program dev (kv_flash s) (deadlog_addr p) xs a = kv_flash s a" if "a < KV_DEADLOG_START" for xs a
    using that by (intro nor_program_outside [OF assms(1)]) (auto simp: deadlog_addr_def)
  with assms(2) show ?thesis
    by (auto simp: deadlog_init_page_if_needed_def Let_def log_only_def same_index_def agree_def split: if_split_asm)
qed

lemma agree_program_log:
  assumes "nor_flash dev"
  shows "agree f (flash_program_aligned dev f (deadlog_addr p + off) xs) 0 KV_DEADLOG_START"
  by (auto simp: agree_def deadlog_addr_def program_aligned_outside [OF assms])

lemma log_only_program:
  assumes "nor_flash dev" "p < KV_DEADLOG_SECTORS"
  shows "log_only s (s\<lparr>kv_flash := flash_program_aligned dev (kv_flash s) (deadlog_addr p + off) xs,
    g_deadlog_write_page := p, g_deadlog_write_off := n\<rparr>)"
  using assms agree_program_log [OF assms(1)] by (simp add: log_only_def same_index_def)

lemma log_only_try:
  assumes nor: "nor_flash dev"
  shows "log_only s (snd (deadlog_try dev page ns s))"
proof (induction ns arbitrary: s)
  case (Cons n ns)
  define p where "p = (g_deadlog_write_page s + n) mod KV_DEADLOG_SECTORS"
  have p: "p < KV_DEADLOG_SECTORS" by (simp add: p_def KV_DEADLOG_SECTORS_def)
  obtain ok s1 where i: "deadlog_init_page_if_needed dev s p = (ok, s1)" by (cases "deadlog_init_page_if_needed dev s p")
  note 1 = log_only_init [OF nor i]
  define off where "off = deadlog_scan (kv_flash s1) (deadlog_addr p)
    (if p = g_deadlog_write_page s1 then g_deadlog_write_off s1 else 4)"
  have "log_only s1 (if ok \<and> off + 4 \<le> KV_SECTOR_SIZE
      then s1\<lparr>kv_flash := flash_program_aligned dev (kv_flash s1) (deadlog_addr p + off) (deadlog_entry page),
              g_deadlog_write_page := p, g_deadlog_write_off := off + 4\<rparr>
      else snd (deadlog_try dev page ns s1))"
    using log_only_program [OF nor p, where s = s1 and off = off and xs = "deadlog_entry page" and n = "off + 4"] Cons.IH [of s1] by simp
  from log_only_trans [OF 1 this] i show ?case
    by (cases "ok \<and> off + 4 \<le> KV_SECTOR_SIZE") (auto simp: Let_def p_def [symmetric] off_def [symmetric])
qed (simp add: log_only_def same_index_intros)

lemma log_only_append:
  assumes nor: "nor_flash dev" and page: "g_deadlog_write_page s < KV_DEADLOG_SECTORS"
  shows "log_only s (snd (deadlog_append dev s pg))"
proof -
  obtain fin s1 where t: "deadlog_try dev pg [0..<KV_DEADLOG_SECTORS] s = (fin, s1)"
    by (cases "deadlog_try dev pg [0..<KV_DEADLOG_SECTORS] s")
  with log_only_try [OF nor, of s pg "[0..<KV_DEADLOG_SECTORS]"] have 1: "log_only s s1" by simp
  define s2 where "s2 = (deadlog_reset_page dev s1 (g_deadlog_write_page s1))\<lparr>g_deadlog_write_off := 4\<rparr>"
  have "log_only s1 s2"
    by (auto simp: s2_def log_only_def same_index_def deadlog_reset_page_def agree_def deadlog_addr_def nor_erase [OF nor])
  moreover obtain ok s3 where i: "deadlog_init_page_if_needed dev s2 (g_deadlog_write_page s2) = (ok, s3)"
    by (cases "deadlog_init_page_if_needed dev s2 (g_deadlog_write_page s2)")
  ultimately have 3: "log_only s s3" using log_only_trans 1 log_only_init [OF nor i] by blast
  then have p3: "g_deadlog_write_page s3 < KV_DEADLOG_SECTORS" using page by (simp add: log_only_def)
  have "log_only s3 (s3\<lparr>kv_flash := flash_program_aligned dev (kv_flash s3)
      (deadlog_addr (g_deadlog_write_page s3) + g_deadlog_write_off s3) (deadlog_entry pg),
      g_deadlog_write_off := g_deadlog_write_off s3 + 4\<rparr>)"
    using log_only_program [OF nor p3, where s = s3] by simp
  with log_only_trans [OF 3 this] 1 3 t i show ?thesis
    by (simp add: deadlog_append_def Let_def s2_def [symmetric])
qed

subsection \<open>A record is read from its own bytes\<close>

definition rec_extent :: "flash \<Rightarrow> nat \<Rightarrow> nat" where
  "rec_extent f a =
     26 + max (rp_store_len f a) (if rp_flags f a AND KV_REC_FLAG_COMP = 0 then rp_raw_len f a else 0)"

lemmas rp_defs = rp_rec_len_def rp_group_def rp_magic_def rp_key_def rp_raw_len_def rp_store_len_def rp_version_def
  rp_flags_def rp_checksum_def

lemma agree_fields:
  assumes "agree f f' a (a + 26)"
  shows "rp_rec_len f' a = rp_rec_len f a" "rp_group f' a = rp_group f a" "rp_magic f' a = rp_magic f a"
    "rp_key f' a = rp_key f a" "rp_raw_len f' a = rp_raw_len f a" "rp_store_len f' a = rp_store_len f a"
    "rp_version f' a = rp_version f a" "rp_flags f' a = rp_flags f a" "rp_checksum f' a = rp_checksum f a"
  using agreeD [OF assms, of "a + 20"]
  by (simp_all add: rp_defs agree_ld16 [OF assms] agree_ld32 [OF assms])

lemma agree_read_record:
  assumes "agree f f' a (a + 26)" "a = page_addr (loc_page loc) + loc_off loc"
    and "rp_magic f a = KV_MAGIC \<Longrightarrow> agree f f' a (a + rec_extent f a)"
  shows "read_record f' loc key out cap = read_record f loc key out cap"
proof (cases "rp_magic f a = KV_MAGIC")
  case True
  note ag = assms(3) [OF True]
  have "rp_stored f' a = rp_stored f a"
    using agree_xip [OF ag, of "a + 26" "rp_store_len f a"] agree_fields [OF assms(1)]
    by (simp add: rp_stored_def rec_extent_def)
  moreover have "xip f' (a + 26) (rp_raw_len f a) = xip f (a + 26) (rp_raw_len f a)"
    if "rp_flags f a AND KV_REC_FLAG_COMP = 0"
    using that agree_xip [OF ag, of "a + 26" "rp_raw_len f a"] by (simp add: rec_extent_def)
  ultimately show ?thesis
    unfolding read_record_def Let_def assms(2) [symmetric] record_valid_def
    by (cases cap) (simp_all add: agree_fields [OF assms(1)] cong: read_result.case_cong)
next
  case False
  with agree_fields(3) [OF assms(1)] show ?thesis
    unfolding read_record_def Let_def assms(2) [symmetric] record_valid_def by simp
qed

subsection \<open>The fields of a programmed record\<close>

lemma align4_le: "n \<le> 60000 \<Longrightarrow> n \<le> align4 n \<and> align4 n < n + 4 \<and> 4 dvd align4 n"
proof -
  assume n: "n \<le> 60000"
  have "(n + 3) div 4 * 4 \<le> n + 3" by simp
  moreover have "n < (n + 3) div 4 * 4 + 1" by presburger
  ultimately show ?thesis using n by (simp add: align4_def)
qed

lemma length_record_image:
  "length stored \<le> 508 \<Longrightarrow> length (record_image key raw_len stored version flags mg) = align4 (26 + length stored) + 16"
  using align4_le [of "26 + length stored"] by (simp add: record_image_def Let_def rec_prefix_bytes_def commit_bytes_def)

lemma image_fields:
  assumes x: "xip f a (length img) = img" and img: "img = record_image key raw_len stored version flags mg"
    and len: "length stored \<le> 508" "raw_len \<le> 508"
  shows "rp_rec_len f a = 26 + length stored" "rp_group f a = mg" "rp_magic f a = KV_MAGIC" "rp_key f a = key"
    "rp_raw_len f a = raw_len" "rp_store_len f a = length stored" "rp_version f a = version" "rp_flags f a = flags"
    "rp_checksum f a = crc32 stored" "rp_stored f a = stored"
proof -
  define tl where "tl = replicate (align4 (26 + length stored) - (26 + length stored)) 0xFF @ commit_bytes mg @ replicate 2 (0xFF :: byte)"
  have im: "img = bytes16 (word_of_nat (26 + length stored)) @ bytes32 mg @ bytes32 KV_MAGIC @ bytes32 key
     @ bytes16 (word_of_nat raw_len) @ bytes16 (word_of_nat (length stored)) @ bytes16 version @ [flags, 0]
     @ bytes32 (crc32 stored) @ stored @ tl"
    using len by (simp add: img record_image_def Let_def rec_prefix_bytes_def tl_def)
  note part = xip_part [OF x]
  have small: "unat (word_of_nat n :: u16) = n" if "n \<le> 600" for n
    using that by (simp add: unat_of_nat)
  show "rp_rec_len f a = 26 + length stored"
    using part [of "[]" "bytes16 (word_of_nat (26 + length stored))"] len(1) small [of "26 + length stored"]
    by (simp add: im rp_rec_len_def ld16_bytes)
  show "rp_group f a = mg"
    using part [of "bytes16 (word_of_nat (26 + length stored))" "bytes32 mg"]
    by (simp add: im rp_group_def ld32_bytes)
  show "rp_magic f a = KV_MAGIC"
    using part [of "bytes16 (word_of_nat (26 + length stored)) @ bytes32 mg" "bytes32 KV_MAGIC"]
    by (simp add: im rp_magic_def ld32_bytes)
  show "rp_key f a = key"
    using part [of "bytes16 (word_of_nat (26 + length stored)) @ bytes32 mg @ bytes32 KV_MAGIC" "bytes32 key"]
    by (simp add: im rp_key_def ld32_bytes)
  show "rp_raw_len f a = raw_len"
    using part [of "bytes16 (word_of_nat (26 + length stored)) @ bytes32 mg @ bytes32 KV_MAGIC @ bytes32 key"
        "bytes16 (word_of_nat raw_len)"] len(2)
    by (simp add: im rp_raw_len_def ld16_bytes small)
  show st: "rp_store_len f a = length stored"
    using part [of "bytes16 (word_of_nat (26 + length stored)) @ bytes32 mg @ bytes32 KV_MAGIC @ bytes32 key
        @ bytes16 (word_of_nat raw_len)" "bytes16 (word_of_nat (length stored))"] len(1)
    by (simp add: im rp_store_len_def ld16_bytes small)
  show "rp_version f a = version"
    using part [of "bytes16 (word_of_nat (26 + length stored)) @ bytes32 mg @ bytes32 KV_MAGIC @ bytes32 key
        @ bytes16 (word_of_nat raw_len) @ bytes16 (word_of_nat (length stored))" "bytes16 version"]
    by (simp add: im rp_version_def ld16_bytes)
  show "rp_flags f a = flags"
    using xip_at [OF x, of 20] by (simp add: im rp_flags_def nth_append)
  show "rp_checksum f a = crc32 stored"
    using part [of "bytes16 (word_of_nat (26 + length stored)) @ bytes32 mg @ bytes32 KV_MAGIC @ bytes32 key
        @ bytes16 (word_of_nat raw_len) @ bytes16 (word_of_nat (length stored)) @ bytes16 version @ [flags, 0]"
        "bytes32 (crc32 stored)"]
    by (simp add: im rp_checksum_def ld32_bytes)
  show "rp_stored f a = stored"
    using part [of "bytes16 (word_of_nat (26 + length stored)) @ bytes32 mg @ bytes32 KV_MAGIC @ bytes32 key
        @ bytes16 (word_of_nat raw_len) @ bytes16 (word_of_nat (length stored)) @ bytes16 version @ [flags, 0]
        @ bytes32 (crc32 stored)" stored tl]
    by (simp add: im rp_stored_def st)
qed

end
