(* ===== verification/KvRefine.thy ===== *)
theory KvRefine
  imports KvFlashLemmas
begin

text \<open>
  The flash store as a map. \<open>store_inv\<close> relates the index, the write position and the pages; every
  operation keeps it, and what \<open>kv_get\<close> returns for a key changes only when that key is
  written or deleted.
\<close>

unbundle bit_operations_syntax

subsection \<open>The invariant\<close>

text \<open>
  A page is clean when a free page is completely erased and a prepared page without records is
  erased behind its header.
\<close>

definition page_clean :: "flash \<Rightarrow> nat \<Rightarrow> bool" where
  "page_clean f p \<longleftrightarrow>
     (ph_magic f p = KV_FREE \<longrightarrow> page_erased f p 0) \<and>
     (page_header_ok f p \<and> ld32 f (page_addr p + 16) = 0xFFFFFFFF \<longrightarrow> page_erased f p 16)"

definition write_ok :: "kv_state \<Rightarrow> bool" where
  "write_ok s \<longleftrightarrow>
     (let f = kv_flash s; wp = g_write_page s; wo = g_write_off s in
      wp < KV_SECTOR_COUNT \<and> 16 \<le> wo \<and> wo \<le> KV_SECTOR_SIZE \<and> 4 dvd wo \<and> g_deadlog_write_page s < KV_DEADLOG_SECTORS
      \<and> (if page_header_ok f wp
         then page_erased f wp wo \<and> (16 < wo \<longrightarrow> ld32 f (page_addr wp + 16) \<noteq> 0xFFFFFFFF)
         else wo = 16))"

text \<open>A location below \<open>bound\<close> on a page with records; what has a record's magic ends below \<open>bound\<close>.\<close>

definition loc_ok :: "flash \<Rightarrow> nat \<Rightarrow> nat \<Rightarrow> nat \<Rightarrow> bool" where
  "loc_ok f p off bound \<longleftrightarrow>
     p < KV_SECTOR_COUNT \<and> 16 \<le> off \<and> off + 26 \<le> bound \<and> bound \<le> KV_SECTOR_SIZE
     \<and> page_header_ok f p \<and> ld32 f (page_addr p + 16) \<noteq> 0xFFFFFFFF
     \<and> (rp_magic f (page_addr p + off) = KV_MAGIC \<longrightarrow> off + rec_extent f (page_addr p + off) \<le> bound)"

definition written :: "kv_state \<Rightarrow> nat \<Rightarrow> nat" where
  "written s p = (if p = g_write_page s then g_write_off s else KV_SECTOR_SIZE)"

definition live_loc :: "kv_state \<Rightarrow> u32 \<Rightarrow> bool" where
  "live_loc s loc \<longleftrightarrow> loc_ok (kv_flash s) (loc_page loc) (loc_off loc) (written s (loc_page loc))"

definition pages_inv :: "kv_state \<Rightarrow> bool" where
  "pages_inv s \<longleftrightarrow> write_ok s \<and> (\<forall>p < KV_SECTOR_COUNT. page_clean (kv_flash s) p)"

definition store_inv :: "kv_state \<Rightarrow> bool" where
  "store_inv s \<longleftrightarrow> idx_inv s \<and> pages_inv s \<and> (\<forall>k loc v fl. idx_get s k = Some (loc, v, fl) \<longrightarrow> live_loc s loc)"

subsection \<open>Moving on from one state to another\<close>

lemma page_addr_mono: "p < q \<Longrightarrow> page_addr p + KV_SECTOR_SIZE \<le> page_addr q"
  by (simp add: page_addr_def KV_SECTOR_SIZE_def)

lemma page_below_log: "p < KV_SECTOR_COUNT \<Longrightarrow> page_addr p + KV_SECTOR_SIZE \<le> KV_DEADLOG_START"
  by (simp add: page_addr_def KV_SECTOR_COUNT_eq kv_layout)

definition agree_page :: "flash \<Rightarrow> flash \<Rightarrow> nat \<Rightarrow> nat \<Rightarrow> bool" where
  "agree_page f f' p n \<longleftrightarrow> agree f f' (page_addr p) (page_addr p + n)"

lemma agree_page_mono: "agree_page f f' p n \<Longrightarrow> m \<le> n \<Longrightarrow> agree_page f f' p m"
  by (simp add: agree_page_def agree_mono)

lemma agree_page_refl [simp]: "agree_page f f p n"
  by (simp add: agree_page_def)

lemma agree_page_trans: "agree_page f f1 p n \<Longrightarrow> agree_page f1 f2 p n \<Longrightarrow> agree_page f f2 p n"
  by (auto simp: agree_page_def intro: agree_trans)

lemma agree_page_off:
  "(\<And>a. \<not> on_page q a \<Longrightarrow> f' a = f a) \<Longrightarrow> p \<noteq> q \<Longrightarrow> agree_page f f' p KV_SECTOR_SIZE"
  unfolding agree_page_def agree_def using on_page_unique by (auto simp: on_page_def)

lemma page_clean_agree: "agree_page f f' p KV_SECTOR_SIZE \<Longrightarrow> page_clean f' p = page_clean f p"
proof -
  assume ag: "agree_page f f' p KV_SECTOR_SIZE"
  then have h: "agree f f' (page_addr p) (page_addr p + 16)"
    by (auto simp: agree_page_def KV_SECTOR_SIZE_def intro: agree_mono)
  have "ld32 f' (page_addr p + 16) = ld32 f (page_addr p + 16)"
    using ag by (auto simp: agree_page_def KV_SECTOR_SIZE_def intro: agree_ld32)
  moreover have "page_erased f' p n = page_erased f p n" for n
    using ag by (auto simp: page_erased_def erased_def agree_page_def agree_def)
  ultimately show ?thesis
    using agree_header [OF h] agree_magic [OF h] by (simp add: page_clean_def)
qed

lemma loc_ok_agree:
  assumes "loc_ok f p off bound" "agree_page f f' p bound" "bound \<le> bound'" "bound' \<le> KV_SECTOR_SIZE"
  shows "loc_ok f' p off bound'"
    and "loc_page loc = p \<Longrightarrow> loc_off loc = off \<Longrightarrow> read_record f' loc key out cap = read_record f loc key out cap"
proof -
  let ?a = "page_addr p + off"
  note ag = assms(2) [unfolded agree_page_def] and ok = assms(1) [unfolded loc_ok_def]
  have h: "agree f f' (page_addr p) (page_addr p + 16)" using ok by (intro agree_mono [OF ag]) auto
  have w: "ld32 f' (page_addr p + 16) = ld32 f (page_addr p + 16)" using ok by (intro agree_ld32 [OF ag]) auto
  have r: "agree f f' ?a (?a + 26)" using ok by (intro agree_mono [OF ag]) auto
  have x: "rp_magic f ?a = KV_MAGIC \<Longrightarrow> agree f f' ?a (?a + rec_extent f ?a)"
    using ok by (intro agree_mono [OF ag]) auto
  have "rec_extent f' ?a = rec_extent f ?a" using agree_fields [OF r] by (simp add: rec_extent_def)
  with ok assms(3,4) agree_fields(3) [OF r] agree_header [OF h] w show "loc_ok f' p off bound'"
    by (auto simp: loc_ok_def)
  show "read_record f' loc key out cap = read_record f loc key out cap" if "loc_page loc = p" "loc_off loc = off"
    using that by (intro agree_read_record [OF r _ x]) auto
qed

text \<open>What an operation does to the pages may only extend what is written.\<close>

definition extends :: "kv_state \<Rightarrow> kv_state \<Rightarrow> bool" where
  "extends s s' \<longleftrightarrow> (\<forall>loc. live_loc s loc \<longrightarrow> live_loc s' loc
     \<and> (\<forall>key out cap. read_record (kv_flash s') loc key out cap = read_record (kv_flash s) loc key out cap))"

lemma extends_refl [simp]: "extends s s"
  by (simp add: extends_def)

lemma extends_trans: "extends s s1 \<Longrightarrow> extends s1 s2 \<Longrightarrow> extends s s2"
  by (simp add: extends_def)

lemma extendsI:
  assumes "\<And>loc. live_loc s loc \<Longrightarrow> agree_page (kv_flash s) (kv_flash s') (loc_page loc) (written s (loc_page loc))
      \<and> written s (loc_page loc) \<le> written s' (loc_page loc) \<and> written s' (loc_page loc) \<le> KV_SECTOR_SIZE"
  shows "extends s s'"
  unfolding extends_def
proof (intro allI impI)
  fix loc
  assume l: "live_loc s loc"
  note a = assms [OF l] and ok = l [unfolded live_loc_def]
  show "live_loc s' loc \<and> (\<forall>key out cap. read_record (kv_flash s') loc key out cap = read_record (kv_flash s) loc key out cap)"
    using loc_ok_agree [OF ok, of "kv_flash s'" "written s' (loc_page loc)"] a by (simp add: live_loc_def)
qed

lemma written_same: "g_write_page s' = g_write_page s \<Longrightarrow> g_write_off s' = g_write_off s \<Longrightarrow> written s' p = written s p"
  by (simp add: written_def)

lemma written_le: "write_ok s \<Longrightarrow> written s p \<le> KV_SECTOR_SIZE"
  by (simp add: written_def write_ok_def Let_def)

lemma pages_inv_write: "pages_inv s \<Longrightarrow> write_ok s"
  by (simp add: pages_inv_def)

lemma pages_inv_clean: "pages_inv s \<Longrightarrow> p < KV_SECTOR_COUNT \<Longrightarrow> page_clean (kv_flash s) p"
  by (simp add: pages_inv_def)

subsection \<open>Choosing and preparing a page\<close>

lemma find_next_append_page_cand:
  "find_next_append_page f p = Some c \<Longrightarrow> c < KV_SECTOR_COUNT \<and> append_candidate f c"
  by (auto simp: find_next_append_page_def find_Some_iff KV_SECTOR_COUNT_eq)

lemma candidate_not_live:
  assumes "append_candidate (kv_flash s) p"
  shows "\<not> (live_loc s loc \<and> loc_page loc = p)"
  using assms not_free_header [of "kv_flash s" p]
  by (auto simp: append_candidate_def live_loc_def loc_ok_def page_is_prepared_empty_def page_header_ok_def)

text \<open>What \<open>append_record\<close> has before it programs: a page with a header, erased from the write offset on.\<close>

definition append_ready :: "kv_state \<Rightarrow> nat \<Rightarrow> bool" where
  "append_ready s need \<longleftrightarrow> pages_inv s \<and> page_header_ok (kv_flash s) (g_write_page s) \<and> g_write_off s + need \<le> KV_SECTOR_SIZE"

lemma append_readyD:
  assumes "append_ready s need"
  shows "pages_inv s" "g_write_page s < KV_SECTOR_COUNT" "16 \<le> g_write_off s" "4 dvd g_write_off s"
    "g_write_off s + need \<le> KV_SECTOR_SIZE" "page_header_ok (kv_flash s) (g_write_page s)"
    "page_erased (kv_flash s) (g_write_page s) (g_write_off s)"
    "16 < g_write_off s \<Longrightarrow> ld32 (kv_flash s) (page_addr (g_write_page s) + 16) \<noteq> 0xFFFFFFFF"
    "g_deadlog_write_page s < KV_DEADLOG_SECTORS"
  using assms by (simp_all add: append_ready_def pages_inv_def write_ok_def Let_def)

lemma ensure_pages:
  assumes nor: "nor_flash dev" and wp: "p < KV_SECTOR_COUNT"
    and clean: "\<forall>q < KV_SECTOR_COUNT. page_clean (kv_flash s) q"
    and run: "ensure_page_ready dev s p = (b, s')"
  shows "\<forall>q < KV_SECTOR_COUNT. page_clean (kv_flash s') q" and "page_header_ok (kv_flash s') p"
    and "q \<noteq> p \<Longrightarrow> agree_page (kv_flash s) (kv_flash s') q KV_SECTOR_SIZE"
    and "page_header_ok (kv_flash s) p \<Longrightarrow> s' = s"
    and "\<not> page_header_ok (kv_flash s) p \<Longrightarrow> page_erased (kv_flash s') p 16"
    and "\<exists>seq. s' = s\<lparr>g_page_sequence := seq, kv_flash := kv_flash s'\<rparr>"
proof -
  have free: "ph_magic (kv_flash s) p = KV_FREE \<Longrightarrow> page_erased (kv_flash s) p 0"
    using clean wp by (simp add: page_clean_def)
  note e = ensure_spec [OF nor free run]
  show hdr: "page_header_ok (kv_flash s') p" using e(2) by blast
  show ag: "q \<noteq> p \<Longrightarrow> agree_page (kv_flash s) (kv_flash s') q KV_SECTOR_SIZE" for q
    using e(3) by (auto intro: agree_page_off)
  show same: "page_header_ok (kv_flash s) p \<Longrightarrow> s' = s" using e(4) by blast
  show fresh: "\<not> page_header_ok (kv_flash s) p \<Longrightarrow> page_erased (kv_flash s') p 16" using e(5) by blast
  show "\<exists>seq. s' = s\<lparr>g_page_sequence := seq, kv_flash := kv_flash s'\<rparr>" using e(6) by blast
  show "\<forall>q < KV_SECTOR_COUNT. page_clean (kv_flash s') q"
  proof (intro allI impI)
    fix q
    assume q: "q < KV_SECTOR_COUNT"
    show "page_clean (kv_flash s') q"
    proof (cases "q = p")
      case True
      show ?thesis
      proof (cases "page_header_ok (kv_flash s) p")
        case True
        with clean q same show ?thesis by simp
      next
        case False
        with fresh hdr not_free_header [OF hdr] \<open>q = p\<close> show ?thesis by (simp add: page_clean_def)
      qed
    next
      case False
      with page_clean_agree [OF ag] clean q show ?thesis by simp
    qed
  qed
qed

lemma prepare_spec:
  assumes nor: "nor_flash dev" and inv: "pages_inv s" and need: "16 + need \<le> KV_SECTOR_SIZE"
    and sel: "select_append_page s need = (True, s1)" and ens: "ensure_page_ready dev s1 (g_write_page s1) = (b, s2)"
  shows "append_ready s2 need" and "extends s s2"
proof -
  let ?f = "kv_flash s" and ?p = "g_write_page s1"
  have w: "write_ok s" using inv by (simp add: pages_inv_def)
  have sel_cases: "(s1 = s \<and> g_write_off s + need \<le> KV_SECTOR_SIZE)
      \<or> (\<exists>c. c < KV_SECTOR_COUNT \<and> append_candidate ?f c \<and> s1 = s\<lparr>g_write_page := c, g_write_off := 16\<rparr>)"
    using sel by (auto simp: select_append_page_def Let_def dest: find_next_append_page_cand split: if_split_asm option.splits)
  have f1: "kv_flash s1 = ?f" using sel_cases by auto
  have p: "?p < KV_SECTOR_COUNT" using sel_cases w by (auto simp: write_ok_def Let_def)
  have clean1: "\<forall>q < KV_SECTOR_COUNT. page_clean (kv_flash s1) q" using inv f1 by (simp add: pages_inv_def)
  note e = ensure_pages [OF nor p clean1 ens]
  from e(6) obtain seq where s2: "s2 = s1\<lparr>g_page_sequence := seq, kv_flash := kv_flash s2\<rparr>" ..
  have wp2: "g_write_page s2 = ?p" "g_write_off s2 = g_write_off s1" "g_deadlog_write_page s2 = g_deadlog_write_page s1"
    by (subst s2, simp)+
  have "16 \<le> g_write_off s1 \<and> g_write_off s1 + need \<le> KV_SECTOR_SIZE \<and> 4 dvd g_write_off s1
      \<and> g_deadlog_write_page s1 < KV_DEADLOG_SECTORS
      \<and> page_erased (kv_flash s2) ?p (g_write_off s1)
      \<and> (16 < g_write_off s1 \<longrightarrow> ld32 (kv_flash s2) (page_addr ?p + 16) \<noteq> 0xFFFFFFFF)"
    using sel_cases
  proof (elim disjE exE conjE)
    assume same: "s1 = s" "g_write_off s + need \<le> KV_SECTOR_SIZE"
    show ?thesis
    proof (cases "page_header_ok ?f ?p")
      case True
      with e(4) same w show ?thesis by (simp add: write_ok_def Let_def)
    next
      case False
      with e(5) same w show ?thesis by (simp add: write_ok_def Let_def)
    qed
  next
    fix c
    assume c: "c < KV_SECTOR_COUNT" "append_candidate ?f c" "s1 = s\<lparr>g_write_page := c, g_write_off := 16\<rparr>"
    have "page_erased (kv_flash s2) ?p 16"
    proof (cases "page_header_ok ?f ?p")
      case True
      with c not_free_header [OF True] have "ld32 ?f (page_addr c + 16) = 0xFFFFFFFF"
        by (auto simp: append_candidate_def page_is_prepared_empty_def page_header_ok_def)
      with True c inv e(4) f1 show ?thesis by (simp add: pages_inv_def page_clean_def)
    qed (use e(5) f1 in simp)
    with c w need show ?thesis by (simp add: write_ok_def Let_def)
  qed
  with e(1,2) p wp2 show "append_ready s2 need"
    by (simp add: append_ready_def pages_inv_def write_ok_def Let_def)
  show "extends s s2"
  proof (rule extendsI)
    fix loc
    assume l: "live_loc s loc"
    let ?q = "loc_page loc"
    show "agree_page ?f (kv_flash s2) ?q (written s ?q) \<and> written s ?q \<le> written s2 ?q \<and> written s2 ?q \<le> KV_SECTOR_SIZE"
    proof (cases "?q = ?p")
      case True
      with l candidate_not_live [of s ?p loc] sel_cases have "s1 = s" by auto
      moreover have "page_header_ok ?f ?p" using l True by (simp add: live_loc_def loc_ok_def)
      ultimately show ?thesis using e(4) written_le [OF w] by simp
    next
      case False
      with e(3) [OF False] f1 agree_page_mono written_le [OF w] show ?thesis
        by (auto simp: written_def wp2)
    qed
  qed
qed

subsection \<open>Programming a record\<close>

lemma page_addr_mod: "(page_addr p + n) mod KV_PAGE_SIZE = n mod KV_PAGE_SIZE"
proof -
  have "page_addr p + n = n + (4096 + p * 16) * 256" by (simp add: page_addr_def kv_layout)
  then show ?thesis by (simp only: KV_PAGE_SIZE_def mod_mult_self1)
qed

definition programmed :: "flash_dev \<Rightarrow> kv_state \<Rightarrow> byte list \<Rightarrow> kv_state" where
  "programmed dev s xs =
     s\<lparr>kv_flash := flash_program_aligned dev (kv_flash s) (page_addr (g_write_page s) + g_write_off s) xs,
       g_write_off := g_write_off s + length xs\<rparr>"

lemma programmed_spec:
  assumes nor: "nor_flash dev" and ready: "append_ready s (length xs)"
    and xs: "xs = record_image key raw_len stored version flags mg" and len: "length stored \<le> 508" "raw_len \<le> 508"
    and plain: "flags AND KV_REC_FLAG_COMP = 0 \<Longrightarrow> raw_len = length stored"
  defines "p \<equiv> g_write_page s" and "o' \<equiv> g_write_off s" and "s' \<equiv> programmed dev s xs"
  shows "pages_inv s'" and "extends s s'" and "loc_ok (kv_flash s') p o' (written s' p)"
    and "o' mod 256 + length xs \<le> 768 \<Longrightarrow> xip (kv_flash s') (page_addr p + o') (length xs) = xs"
    and "\<not> o' mod 256 + length xs \<le> 768 \<Longrightarrow> rp_magic (kv_flash s') (page_addr p + o') \<noteq> KV_MAGIC"
proof -
  let ?f = "kv_flash s" and ?f' = "kv_flash s'" and ?a = "page_addr p + o'"
  note r = append_readyD [OF ready, folded p_def o'_def]
  have f': "?f' = flash_program_aligned dev ?f ?a xs" by (simp add: s'_def programmed_def p_def o'_def)
  have lx: "length xs = align4 (26 + length stored) + 16" using length_record_image [OF len(1)] xs by simp
  with align4_le [of "26 + length stored"] len(1) have lb: "26 + length stored + 16 \<le> length xs" "length xs \<le> 560" "4 dvd length xs"
    by (auto simp: dvd_add_right_iff)
  have out: "?f' a = ?f a" if "\<not> (?a \<le> a \<and> a < ?a + length xs)" for a
    using program_aligned_outside [OF nor that] by (simp add: f')
  have er: "erased ?f ?a (?a + length xs)"
    using r(5,7) by (auto simp: page_erased_def intro: erased_mono)
  have mod: "?a mod KV_PAGE_SIZE = o' mod 256" using page_addr_mod [of p o'] by (simp add: KV_PAGE_SIZE_def)
  show stored: "xip ?f' ?a (length xs) = xs" if "o' mod 256 + length xs \<le> 768"
    unfolding f' using lb(2) that mod by (intro program_aligned_xip [OF nor _ _ er]) auto
  have skipped: "?f' = ?f" if "\<not> o' mod 256 + length xs \<le> 768"
    unfolding f' using lb(2) that mod by (intro program_aligned_skipped) auto
  have erm: "rp_magic ?f ?a = 0xFFFFFFFF"
    unfolding rp_magic_def by (rule erased_ld32) (use er lb(1) in \<open>auto intro: erased_mono\<close>)
  show no: "rp_magic ?f' ?a \<noteq> KV_MAGIC" if "\<not> o' mod 256 + length xs \<le> 768"
    unfolding skipped [OF that] erm by (simp add: KV_MAGIC_def)
  have hdr: "page_header_ok ?f' p"
    using r(3,6) agree_header [of ?f ?f' p] out by (simp add: agree_def)
  have first: "ld32 ?f' (page_addr p + 16) \<noteq> 0xFFFFFFFF"
  proof (cases "16 < o'")
    case True
    with r(4) r(3) have "20 \<le> o'" by presburger
    then have "ld32 ?f' (page_addr p + 16) = ld32 ?f (page_addr p + 16)"
      by (intro agree_ld32 [of _ _ "page_addr p + 16" "page_addr p + 20"]) (auto simp: agree_def intro!: out)
    with r(8) True show ?thesis by simp
  next
    case False
    with r(3) have o: "o' = 16" by simp
    then have "xip ?f' ?a (length xs) = xs" using lb(2) by (intro stored) simp
    from image_fields(1) [OF this xs len] have "ld16 ?f' ?a \<noteq> 0xFFFF"
      using len(1) by (auto simp: rp_rec_len_def)
    moreover have "erased ?f' ?a (?a + 4) \<Longrightarrow> erased ?f' ?a (?a + 2)" by (erule erased_mono) simp_all
    ultimately have "\<not> erased ?f' ?a (?a + 4)" using erased_ld16 by blast
    with ld32_FF_erased [of ?f' ?a] show ?thesis unfolding o by blast
  qed
  have tail: "page_erased ?f' p (o' + length xs)"
    using r(7) out by (auto simp: page_erased_def erased_def)
  have s': "g_write_page s' = p" "g_write_off s' = o' + length xs" "g_deadlog_write_page s' = g_deadlog_write_page s"
    by (simp_all add: s'_def programmed_def p_def o'_def)
  have other: "agree_page ?f ?f' q KV_SECTOR_SIZE" if "q \<noteq> p" for q
    using r(3,5) that by (intro agree_page_off [of p ?f' ?f q] out) (auto simp: on_page_def)
  have clean: "page_clean ?f' q" if "q < KV_SECTOR_COUNT" for q
  proof (cases "q = p")
    case True
    with hdr first not_free_header show ?thesis by (simp add: page_clean_def)
  next
    case False
    from page_clean_agree [OF other [OF this]] pages_inv_clean [OF r(1) that] show ?thesis by simp
  qed
  show inv: "pages_inv s'"
    using clean hdr tail first r lb s' by (simp add: pages_inv_def write_ok_def Let_def)
  show "extends s s'"
  proof (rule extendsI)
    fix loc
    assume "live_loc s loc"
    have w: "written s (loc_page loc) \<le> KV_SECTOR_SIZE" using pages_inv_write [OF r(1)] by (rule written_le)
    have "agree_page ?f ?f' q (written s q)" for q
    proof (cases "q = p")
      case True
      then show ?thesis using out by (auto simp: agree_page_def agree_def written_def p_def o'_def)
    next
      case False
      from agree_page_mono [OF other [OF this]] show ?thesis using pages_inv_write [OF r(1)] written_le by blast
    qed
    then show "agree_page ?f ?f' (loc_page loc) (written s (loc_page loc))
        \<and> written s (loc_page loc) \<le> written s' (loc_page loc) \<and> written s' (loc_page loc) \<le> KV_SECTOR_SIZE"
      using w written_le [OF pages_inv_write [OF inv]] by (auto simp: written_def s' p_def o'_def)
  qed
  have ext: "rp_magic ?f' ?a = KV_MAGIC \<Longrightarrow> o' + rec_extent ?f' ?a \<le> o' + length xs"
  proof -
    assume "rp_magic ?f' ?a = KV_MAGIC"
    with no have "xip ?f' ?a (length xs) = xs" by (intro stored) blast
    note im = image_fields [OF this xs len]
    show ?thesis using lb(1) plain by (simp add: rec_extent_def im)
  qed
  show "loc_ok ?f' p o' (written s' p)"
    using r(2,3,5) hdr first ext lb(1) by (simp add: loc_ok_def written_def s')
qed

subsection \<open>Appending\<close>

lemma write_ok_agree:
  assumes "write_ok s" "agree_page (kv_flash s) (kv_flash s') (g_write_page s) KV_SECTOR_SIZE"
    and "g_write_page s' = g_write_page s" "g_write_off s' = g_write_off s" "g_deadlog_write_page s' < KV_DEADLOG_SECTORS"
  shows "write_ok s'"
proof -
  let ?p = "g_write_page s"
  have "agree (kv_flash s) (kv_flash s') (page_addr ?p) (page_addr ?p + 16)"
    using assms(2) by (auto simp: agree_page_def KV_SECTOR_SIZE_def intro: agree_mono)
  note h = agree_header [OF this]
  have l: "ld32 (kv_flash s') (page_addr ?p + 16) = ld32 (kv_flash s) (page_addr ?p + 16)"
    using assms(2) by (auto simp: agree_page_def KV_SECTOR_SIZE_def intro: agree_ld32)
  have e: "page_erased (kv_flash s') ?p n = page_erased (kv_flash s) ?p n" for n
    using assms(2) by (auto simp: page_erased_def erased_def agree_page_def agree_def)
  from assms(1) show ?thesis
    unfolding write_ok_def Let_def assms(3,4) h l e using assms(5) by auto
qed

lemma prewarm_spec:
  assumes nor: "nor_flash dev" and inv: "pages_inv s" and hdr: "page_header_ok (kv_flash s) (g_write_page s)"
  defines "s' \<equiv> prewarm_next_append_page dev s"
  shows "pages_inv s'" and "extends s s'" and "agree_page (kv_flash s) (kv_flash s') (g_write_page s) KV_SECTOR_SIZE"
    and "g_write_page s' = g_write_page s" and "g_write_off s' = g_write_off s"
proof -
  have "pages_inv s' \<and> extends s s' \<and> agree_page (kv_flash s) (kv_flash s') (g_write_page s) KV_SECTOR_SIZE
    \<and> g_write_page s' = g_write_page s \<and> g_write_off s' = g_write_off s"
  proof (cases "\<exists>np. find_next_append_page (kv_flash s) (g_write_page s) = Some np \<and> np \<noteq> g_write_page s
      \<and> ph_magic (kv_flash s) np = KV_FREE")
    case False
    then have "s' = s" by (auto simp: s'_def prewarm_next_append_page_def split: option.split)
    with inv show ?thesis by simp
  next
    case True
    then obtain np where np: "find_next_append_page (kv_flash s) (g_write_page s) = Some np" "np \<noteq> g_write_page s"
      "ph_magic (kv_flash s) np = KV_FREE" by blast
    from find_next_append_page_cand [OF np(1)] have c: "np < KV_SECTOR_COUNT" ..
    obtain b where run: "ensure_page_ready dev s np = (b, s')"
      using np by (cases "ensure_page_ready dev s np") (simp add: s'_def prewarm_next_append_page_def)
    have clean: "\<forall>q < KV_SECTOR_COUNT. page_clean (kv_flash s) q" using inv by (simp add: pages_inv_def)
    note e = ensure_pages [OF nor c clean run]
    from e(6) obtain seq where s': "s' = s\<lparr>g_page_sequence := seq, kv_flash := kv_flash s'\<rparr>" ..
    have same: "g_write_page s' = g_write_page s" "g_write_off s' = g_write_off s"
      "g_deadlog_write_page s' = g_deadlog_write_page s" by (subst s', simp)+
    have ag: "agree_page (kv_flash s) (kv_flash s') (g_write_page s) KV_SECTOR_SIZE"
      using np(2) by (intro e(3)) simp
    with pages_inv_write [OF inv] have "write_ok s'"
      by (rule write_ok_agree) (use pages_inv_write [OF inv] in \<open>simp_all add: same write_ok_def Let_def\<close>)
    with e(1) have "pages_inv s'" by (simp add: pages_inv_def)
    moreover have "extends s s'"
    proof (rule extendsI)
      fix loc
      assume "live_loc s loc"
      then have "loc_page loc \<noteq> np" using np(3) not_free_header by (auto simp: live_loc_def loc_ok_def)
      from agree_page_mono [OF e(3) [OF this] written_le [OF pages_inv_write [OF inv]]]
      show "agree_page (kv_flash s) (kv_flash s') (loc_page loc) (written s (loc_page loc))
        \<and> written s (loc_page loc) \<le> written s' (loc_page loc) \<and> written s' (loc_page loc) \<le> KV_SECTOR_SIZE"
        using written_le [OF pages_inv_write [OF inv]] by (simp add: written_same [OF same(1,2)])
    qed
    ultimately show ?thesis using ag same by simp
  qed
  then show "pages_inv s'" and "extends s s'" and "agree_page (kv_flash s) (kv_flash s') (g_write_page s) KV_SECTOR_SIZE"
    and "g_write_page s' = g_write_page s" and "g_write_off s' = g_write_off s" by blast+
qed

lemma stored_form_spec:
  assumes "stored_form raw flags = (stored, rf)"
  shows "length stored \<le> length raw"
    and "(stored = raw \<and> rf = flags)
      \<or> (encode_picocompress raw (KV_MAX_VALUE + 64) = Some stored \<and> rf = flags OR KV_REC_FLAG_COMP)"
  using assms by (auto simp: stored_form_def split: if_split_asm option.split_asm)

lemma append_spec:
  assumes nor: "nor_flash dev" and inv: "pages_inv s" and len: "length raw \<le> 508"
    and run: "append_record dev s key raw version flags mg = (r, s')" and sf: "stored_form raw flags = (stored, rf)"
    and fl: "flags AND KV_REC_FLAG_COMP = 0"
  obtains (full) "r = None" "s' = s"
  | (ok) loc where "r = Some loc" "pages_inv s'" "extends s s'" "live_loc s' loc" "loc_page loc < KV_SECTOR_COUNT"
      "loc_off loc + 26 + length stored \<le> KV_SECTOR_SIZE"
      "loc_off loc mod 256 + align4 (26 + length stored) + 16 \<le> 768 \<Longrightarrow>
         xip (kv_flash s') (page_addr (loc_page loc) + loc_off loc) (length (record_image key (length raw) stored version rf mg))
           = record_image key (length raw) stored version rf mg"
      "\<not> loc_off loc mod 256 + align4 (26 + length stored) + 16 \<le> 768 \<Longrightarrow>
         rp_magic (kv_flash s') (page_addr (loc_page loc) + loc_off loc) \<noteq> KV_MAGIC"
  using run
proof (cases rule: append_record_cases)
  case full
  then have "s' = s" by (auto simp: select_append_page_def Let_def split: if_split_asm option.splits)
  with full that(1) show thesis by blast
next
  case (ok stored' rec_flags n s1 s2 s3)
  from ok(1) sf have eq: "stored' = stored" "rec_flags = rf" by simp_all
  have sl: "length stored \<le> 508" using stored_form_spec(1) [OF sf] len by simp
  define xs where "xs = record_image key (length raw) stored version rf mg"
  have al: "26 + length stored \<le> align4 (26 + length stored)" "align4 (26 + length stored) < 30 + length stored"
    using align4_le [of "26 + length stored"] sl by auto
  have n: "n = align4 (26 + length stored)" using ok(2) sl by (simp add: eq)
  have lx: "length xs = n + 16" using length_record_image [OF sl] by (simp add: xs_def n)
  have c: "cast16 (n + KV_COMMIT_ALIGNED) = length xs" using al sl lx by (simp add: KV_COMMIT_ALIGNED_def n)
  have "16 + length xs \<le> KV_SECTOR_SIZE" using al sl lx by (simp add: n KV_SECTOR_SIZE_def)
  note pr = prepare_spec [OF nor inv this ok(3) [unfolded c] ok(4)]
  note rd = append_readyD [OF pr(1)]
  have s3: "s3 = programmed dev s2 xs"
    using rd(5) by (simp add: ok(5) programmed_def eq xs_def [symmetric] c KV_SECTOR_SIZE_def)
  have plain: "rf AND KV_REC_FLAG_COMP = 0 \<Longrightarrow> length raw = length stored"
    using stored_form_spec(2) [OF sf] fl by (auto simp: KV_REC_FLAG_COMP_def word_ao_dist)
  note pg = programmed_spec [OF nor pr(1) xs_def sl len plain]
  let ?p = "g_write_page s2" and ?o = "g_write_off s2"
  have w3: "g_write_page s3 = ?p" by (simp add: s3 programmed_def)
  have hdr3: "page_header_ok (kv_flash s3) (g_write_page s3)" using pg(3) w3 by (simp add: loc_ok_def s3)
  have inv3: "pages_inv s3" using pg(1) by (simp add: s3)
  note pw = prewarm_spec [OF nor inv3 hdr3, folded ok(7)]
  have o: "?o + length xs \<le> 4096" "?o < 4096" using rd(5) lx by (simp_all add: KV_SECTOR_SIZE_def)
  have loc: "loc_page (pack_loc ?p ?o n) = ?p" "loc_off (pack_loc ?p ?o n) = ?o"
    using unpack_pack [of ?p ?o n] rd(2,4) o al sl by (simp_all add: KV_SECTOR_COUNT_eq n)
  show thesis
  proof (rule that(2) [OF ok(6)])
    show "pages_inv s'" by (rule pw(1))
    show "extends s s'" using pr(2) pg(2) pw(2) by (auto simp: s3 intro: extends_trans)
    show "live_loc s' (pack_loc ?p ?o n)"
    proof -
      have "live_loc s3 (pack_loc ?p ?o n)" using pg(3) by (simp add: live_loc_def loc s3)
      with pw(2) show ?thesis by (simp add: extends_def)
    qed
    show "loc_page (pack_loc ?p ?o n) < KV_SECTOR_COUNT" using rd(2) by (simp add: loc)
    show "loc_off (pack_loc ?p ?o n) + 26 + length stored \<le> KV_SECTOR_SIZE"
      unfolding loc using o al lx by (simp add: KV_SECTOR_SIZE_def n)
    have ag: "agree (kv_flash s3) (kv_flash s') (page_addr ?p + ?o) (page_addr ?p + ?o + length xs)"
      using pw(3) o by (auto simp: agree_page_def w3 KV_SECTOR_SIZE_def intro: agree_mono)
    show "xip (kv_flash s') (page_addr (loc_page (pack_loc ?p ?o n)) + loc_off (pack_loc ?p ?o n))
        (length (record_image key (length raw) stored version rf mg)) = record_image key (length raw) stored version rf mg"
      if "loc_off (pack_loc ?p ?o n) mod 256 + align4 (26 + length stored) + 16 \<le> 768"
      using that [unfolded loc, folded n] pg(4) agree_xip [OF ag, of "page_addr ?p + ?o" "length xs"]
      unfolding loc xs_def [symmetric] by (simp add: s3 lx)
    have "rp_magic (kv_flash s') (page_addr ?p + ?o) = rp_magic (kv_flash s3) (page_addr ?p + ?o)"
      unfolding rp_magic_def using lx al by (intro agree_ld32 [OF ag]) (auto simp: n)
    then show "rp_magic (kv_flash s') (page_addr (loc_page (pack_loc ?p ?o n)) + loc_off (pack_loc ?p ?o n)) \<noteq> KV_MAGIC"
      if "\<not> loc_off (pack_loc ?p ?o n) mod 256 + align4 (26 + length stored) + 16 \<le> 768"
      using that [unfolded loc, folded n] pg(5) unfolding loc by (simp add: s3 lx)
  qed
qed

subsection \<open>The store operations\<close>

lemma store_invD: "store_inv s \<Longrightarrow> idx_get s k = Some (loc, v, fl) \<Longrightarrow> live_loc s loc"
  unfolding store_inv_def by blast

lemma store_extends:
  assumes "store_inv s" "pages_inv s'" "extends s s'" "same_index s s'"
  shows "store_inv s'" and "kv_get_copy s' k out cap = kv_get_copy s k out cap"
proof -
  have g: "idx_get s' k = idx_get s k" for k using assms(4) by (rule same_index_get)
  show "store_inv s'"
    using assms by (auto simp: store_inv_def g same_index_inv extends_def)
  show "kv_get_copy s' k out cap = kv_get_copy s k out cap"
    using assms(3) store_invD [OF assms(1)] by (auto simp: kv_get_copy_def g extends_def split: option.split)
qed

lemma log_only_extends:
  assumes "pages_inv s" "log_only s s'"
  shows "pages_inv s'" and "extends s s'"
proof -
  have ag: "agree_page (kv_flash s) (kv_flash s') p n" if "p < KV_SECTOR_COUNT" "n \<le> KV_SECTOR_SIZE" for p n
    using assms(2) page_below_log [OF that(1)] that(2) by (auto simp: log_only_def agree_page_def intro: agree_mono)
  have same: "g_write_page s' = g_write_page s" "g_write_off s' = g_write_off s" using assms(2) by (simp_all add: log_only_def)
  note w = pages_inv_write [OF assms(1)]
  then have p: "g_write_page s < KV_SECTOR_COUNT" by (simp add: write_ok_def Let_def)
  have full: "agree_page (kv_flash s) (kv_flash s') (g_write_page s) KV_SECTOR_SIZE" using ag [OF p] by simp
  with w have "write_ok s'"
    by (rule write_ok_agree) (use assms(2) w in \<open>simp_all add: log_only_def write_ok_def Let_def\<close>)
  then show "pages_inv s'"
    using assms(1) page_clean_agree [OF ag] by (simp add: pages_inv_def)
  show "extends s s'"
  proof (rule extendsI)
    fix loc
    assume "live_loc s loc"
    then have "loc_page loc < KV_SECTOR_COUNT" by (simp add: live_loc_def loc_ok_def)
    with ag written_le [OF w] show "agree_page (kv_flash s) (kv_flash s') (loc_page loc) (written s (loc_page loc))
        \<and> written s (loc_page loc) \<le> written s' (loc_page loc) \<and> written s' (loc_page loc) \<le> KV_SECTOR_SIZE"
      by (simp add: written_same [OF same(1,2)])
  qed
qed

text \<open>Two states with the same flash and the same write position.\<close>

definition same_pages :: "kv_state \<Rightarrow> kv_state \<Rightarrow> bool" where
  "same_pages s s' \<longleftrightarrow> kv_flash s' = kv_flash s \<and> g_write_page s' = g_write_page s \<and> g_write_off s' = g_write_off s
     \<and> g_deadlog_write_page s' = g_deadlog_write_page s"

lemma same_pages_inv: "same_pages s s' \<Longrightarrow> pages_inv s' = pages_inv s"
  by (simp add: same_pages_def pages_inv_def write_ok_def)

lemma same_pages_live: "same_pages s s' \<Longrightarrow> live_loc s' loc = live_loc s loc"
  by (simp add: same_pages_def live_loc_def written_def)

lemma same_pages_extends: "same_pages s s' \<Longrightarrow> extends s s'"
  by (simp add: extends_def same_pages_live) (simp add: same_pages_def)

lemma idx_set_pages: "idx_inv s \<Longrightarrow> idx_set s key loc v fl = (True, s') \<Longrightarrow> same_pages s s'"
proof -
  assume "idx_inv s" "idx_set s key loc v fl = (True, s')"
  from idx_set_spec [OF this] have eq: "s' = s\<lparr>g_index := g_index s', g_page_ref_count := g_page_ref_count s'\<rparr>" by simp
  show ?thesis unfolding same_pages_def by (intro conjI) (subst eq, simp)+
qed

lemma idx_remove_pages: "idx_inv s \<Longrightarrow> same_pages s (idx_remove s key)"
proof -
  assume "idx_inv s"
  note eq = idx_remove_spec(3) [OF this, of key]
  show ?thesis unfolding same_pages_def by (intro conjI) (subst eq, simp)+
qed

definition fits :: "byte list \<Rightarrow> u32 \<Rightarrow> bool" where
  "fits val loc \<longleftrightarrow> loc_off loc mod 256 + align4 (26 + length (fst (stored_form val 0))) + 16 \<le> 768"

lemma read_back:
  assumes sf: "stored_form val 0 = (stored, rf)" and len: "length val \<le> 508" and p: "loc_page loc < KV_SECTOR_COUNT"
    and off: "loc_off loc + 26 + length stored \<le> KV_SECTOR_SIZE"
    and x: "xip f (page_addr (loc_page loc) + loc_off loc) (length (record_image key (length val) stored version rf mg))
      = record_image key (length val) stored version rf mg"
  shows "read_record f loc key True (Some 508) = Found (Some val, length val, version)"
proof -
  have sl: "length stored \<le> 508" using stored_form_spec(1) [OF sf] len by simp
  note im = image_fields [OF x refl sl len]
  have rf: "rf AND KV_REC_FLAG_TOMB = 0"
    using stored_form_spec(2) [OF sf] by (auto simp: KV_REC_FLAG_TOMB_def KV_REC_FLAG_COMP_def)
  let ?a = "page_addr (loc_page loc) + loc_off loc"
  have valid: "record_valid f ?a (loc_off loc) key"
    using sl len off rf by (simp add: record_valid_def im KV_MAX_VALUE_def)
  from stored_form_spec(2) [OF sf] show ?thesis
  proof (elim disjE conjE)
    assume s: "stored = val" "rf = 0"
    have "xip f (?a + 26) (length val) = val" using im(10) s by (simp add: rp_stored_def im(6))
    then show ?thesis using valid p len s by (simp add: read_record_def Let_def im)
  next
    assume s: "encode_picocompress val (KV_MAX_VALUE + 64) = Some stored" "rf = 0 OR KV_REC_FLAG_COMP"
    then have "pc_compress_buffer (Some val) (length val) (Some (KV_MAX_VALUE + 64)) = Some (Inr stored)"
      by (auto simp: encode_picocompress_def split: option.split_asm sum.split_asm)
    from decompress_compress [OF this, of "length val"] len
    have "decode_picocompress stored (length val) = Found val" by (simp add: decode_picocompress_def)
    then show ?thesis using valid p len s by (simp add: read_record_def Let_def im KV_REC_FLAG_COMP_def)
  qed
qed

text \<open>What an appended record means for the store, before the index learns of it.\<close>

lemma append_store:
  assumes nor: "nor_flash dev" and inv: "store_inv s" and len: "length raw \<le> 508" and fl: "flags AND KV_REC_FLAG_COMP = 0"
    and run: "append_record dev (s\<lparr>g_mutation_group := mg\<rparr>) key raw ver flags mg' = (ol, s')"
  shows "store_inv s'" and "extends s s'" and "same_index s s'"
    and "ol = Some loc \<Longrightarrow> live_loc s' loc"
    and "ol = Some loc \<Longrightarrow> flags = 0 \<Longrightarrow> read_record (kv_flash s') loc key True (Some 508)
      = (if fits raw loc then Found (Some raw, length raw, ver) else Miss)"
proof -
  let ?s1 = "s\<lparr>g_mutation_group := mg\<rparr>"
  have sp1: "same_pages s ?s1" and si1: "same_index s ?s1" by (simp_all add: same_pages_def same_index_def)
  have pg: "pages_inv ?s1" using inv same_pages_inv [OF sp1] by (simp add: store_inv_def)
  have si: "same_index s s'" by (rule same_index_trans [OF si1 same_index_append [OF run]])
  obtain stored rf where sf: "stored_form raw flags = (stored, rf)" by (cases "stored_form raw flags")
  have "pages_inv s' \<and> extends ?s1 s' \<and> (\<forall>loc. ol = Some loc \<longrightarrow> live_loc s' loc \<and> (flags = 0 \<longrightarrow>
    read_record (kv_flash s') loc key True (Some 508) = (if fits raw loc then Found (Some raw, length raw, ver) else Miss)))"
  proof (rule append_spec [OF nor pg len run sf fl])
    fix loc
    assume ok: "ol = Some loc" "pages_inv s'" "extends ?s1 s'" "live_loc s' loc" and page: "loc_page loc < KV_SECTOR_COUNT"
      and off: "loc_off loc + 26 + length stored \<le> KV_SECTOR_SIZE"
      and yes: "loc_off loc mod 256 + align4 (26 + length stored) + 16 \<le> 768 \<Longrightarrow>
         xip (kv_flash s') (page_addr (loc_page loc) + loc_off loc) (length (record_image key (length raw) stored ver rf mg'))
           = record_image key (length raw) stored ver rf mg'"
      and no: "\<not> loc_off loc mod 256 + align4 (26 + length stored) + 16 \<le> 768 \<Longrightarrow>
         rp_magic (kv_flash s') (page_addr (loc_page loc) + loc_off loc) \<noteq> KV_MAGIC"
    have "read_record (kv_flash s') loc key True (Some 508) = (if fits raw loc then Found (Some raw, length raw, ver) else Miss)"
      if "flags = 0"
    proof (cases "fits raw loc")
      case True
      with that sf have "loc_off loc mod 256 + align4 (26 + length stored) + 16 \<le> 768" by (simp add: fits_def)
      from read_back [OF sf [unfolded that] len page off yes [OF this]] True show ?thesis by simp
    next
      case False
      with that sf no show ?thesis by (simp add: fits_def read_record_def Let_def record_valid_def)
    qed
    with ok show ?thesis by simp
  qed (use pg in simp)
  then have a: "pages_inv s'" "extends ?s1 s'" "ol = Some loc \<Longrightarrow> live_loc s' loc"
    "ol = Some loc \<Longrightarrow> flags = 0 \<Longrightarrow> read_record (kv_flash s') loc key True (Some 508)
      = (if fits raw loc then Found (Some raw, length raw, ver) else Miss)" for loc by blast+
  show ex: "extends s s'" by (rule extends_trans [OF same_pages_extends [OF sp1] a(2)])
  show "store_inv s'" by (rule store_extends(1) [OF inv a(1) ex si])
  show "same_index s s'" by (rule si)
  show "ol = Some loc \<Longrightarrow> live_loc s' loc" by (rule a(3))
  show "ol = Some loc \<Longrightarrow> flags = 0 \<Longrightarrow> read_record (kv_flash s') loc key True (Some 508)
      = (if fits raw loc then Found (Some raw, length raw, ver) else Miss)" by (rule a(4))
qed

text \<open>
  Writing: every other key keeps its value; a refused write changes no value; an accepted one makes
  the new value readable, unless the record does not fit into the staging buffer of
  \<open>flash_program_aligned\<close>.
\<close>

lemma put_store:
  assumes nor: "nor_flash dev" and inv: "store_inv s" and run: "kv_put_if_version dev s key val expected = (r, s')"
  shows "store_inv s'" and "k \<noteq> key \<or> r = None \<Longrightarrow> kv_get_copy s' k out cap = kv_get_copy s k out cap"
    and "r = Some v \<Longrightarrow> \<exists>loc. idx_get s' key = Some (loc, v, 0)
      \<and> kv_get_copy s' key True (Some KV_MAX_VALUE) = (if fits val loc then Found (Some val, length val, v) else Miss)"
proof -
  have idx: "idx_inv s" and pg: "pages_inv s" using inv by (simp_all add: store_inv_def)
  have "store_inv s' \<and> (\<forall>k out cap. k \<noteq> key \<or> r = None \<longrightarrow> kv_get_copy s' k out cap = kv_get_copy s k out cap)
    \<and> (\<forall>v. r = Some v \<longrightarrow> (\<exists>loc. idx_get s' key = Some (loc, v, 0)
      \<and> kv_get_copy s' key True (Some KV_MAX_VALUE) = (if fits val loc then Found (Some val, length val, v) else Miss)))"
    using run
  proof (cases rule: put_cases)
    case refused
    with inv show ?thesis by simp
  next
    case full
    note a = append_store [OF nor inv full(3) [unfolded KV_MAX_VALUE_def] _ full(2), simplified]
    from store_extends(2) [OF inv _ a(2,3)] a(1) full(1) show ?thesis by (auto simp: store_inv_def)
  next
    case (no_slot loc s2)
    note a = append_store [OF nor inv no_slot(4) [unfolded KV_MAX_VALUE_def] _ no_slot(2), simplified]
    from a(1) have i2: "idx_inv s2" by (simp add: store_inv_def)
    from idx_set_spec [OF this no_slot(3)] have "s' = s2" by simp
    with store_extends(2) [OF inv _ a(2,3)] a(1) no_slot(1) show ?thesis by (auto simp: store_inv_def)
  next
    case (put loc s2 s3)
    note a = append_store [OF nor inv put(2) [unfolded KV_MAX_VALUE_def] _ put(4), simplified]
    define v where "v = the r"
    have v: "r = Some v" using put(1) by (simp add: v_def)
    have set: "idx_set s2 key loc v 0 = (True, s3)" using put(1,5) by (simp add: v_def)
    from a(1) have i2: "idx_inv s2" and p2: "pages_inv s2" by (simp_all add: store_inv_def)
    from idx_set_spec [OF i2 set] have i3: "idx_inv s3" by simp
    have sp: "same_pages s2 s3" by (rule idx_set_pages [OF i2 set])
    have g3: "idx_get s3 k = (if k = key then Some (loc, v, 0) else idx_get s k)" for k
      using idx.get_put [OF i2, of key "(loc, v, 0)" s3 k] set same_index_get [OF a(3)] by simp
    have ex3: "extends s s3" by (rule extends_trans [OF a(2) same_pages_extends [OF sp]])
    have live3: "live_loc s3 loc" using a(4) [OF refl] same_pages_live [OF sp] by simp
    have inv3: "store_inv s3"
      using i3 same_pages_inv [OF sp] p2 live3 ex3 store_invD [OF inv]
      by (auto simp: store_inv_def g3 extends_def split: if_split_asm)
    have other: "kv_get_copy s3 k out cap = kv_get_copy s k out cap" if "k \<noteq> key" for k out cap
      using that ex3 store_invD [OF inv] by (auto simp: kv_get_copy_def g3 extends_def split: option.split)
    have new: "kv_get_copy s3 key True (Some KV_MAX_VALUE) = (if fits val loc then Found (Some val, length val, v) else Miss)"
      using a(5) [OF refl] sp put(1) by (simp add: kv_get_copy_def g3 same_pages_def v_def KV_MAX_VALUE_def)
    have dl: "g_deadlog_write_page s3 < KV_DEADLOG_SECTORS"
      using inv3 by (simp add: store_inv_def pages_inv_def write_ok_def Let_def)
    have "log_only s3 s'"
      using log_only_append [OF nor dl] by (auto simp: put(6) log_only_def same_index_def split: option.split)
    note l = log_only_extends [OF _ this] and si = \<open>log_only s3 s'\<close> [unfolded log_only_def, THEN conjunct1]
    have p3: "pages_inv s3" using inv3 by (simp add: store_inv_def)
    note f = store_extends [OF inv3 l(1) [OF p3] l(2) [OF p3] si]
    have "idx_get s' key = Some (loc, v, 0)" using same_index_get [OF si] g3 by simp
    with f other new v show ?thesis by auto
  qed
  then show "store_inv s'" and "k \<noteq> key \<or> r = None \<Longrightarrow> kv_get_copy s' k out cap = kv_get_copy s k out cap"
    and "r = Some v \<Longrightarrow> \<exists>loc. idx_get s' key = Some (loc, v, 0)
      \<and> kv_get_copy s' key True (Some KV_MAX_VALUE) = (if fits val loc then Found (Some val, length val, v) else Miss)"
    by blast+
qed

end
