(* ===== verification/KvStore.thy ===== *)
theory KvStore
  imports KvRefine
begin

text \<open>
  The operations of the flash store seen from outside: deleting, compacting, wiping, and sequences of
  operations against a map. The contract is the locale \<open>key_store\<close>, interpreted by the operations
  of \<open>kv_flash.c\<close> on any NOR flash.
\<close>

unbundle bit_operations_syntax

subsection \<open>Deleting, compacting, wiping\<close>

lemma store_same_gets:
  assumes "store_inv s" "extends s s'" "idx_get s' k = idx_get s k"
  shows "kv_get_copy s' k out cap = kv_get_copy s k out cap"
  using assms(2,3) store_invD [OF assms(1)] by (auto simp: kv_get_copy_def extends_def split: option.split)

lemma delete_store:
  assumes nor: "nor_flash dev" and inv: "store_inv s" and run: "kv_delete dev s key = (r, s')"
  shows "store_inv s'" and "kv_get_copy s' k out cap = (if r \<and> k = key then Miss else kv_get_copy s k out cap)"
proof -
  have idx: "idx_inv s" using inv by (simp add: store_inv_def)
  have "store_inv s' \<and> extends s s'"
  proof (cases "idx_get s key")
    case None
    with run inv show ?thesis by (simp add: kv_delete_def)
  next
    case (Some e)
    obtain old_loc cur_ver flags where e: "e = (old_loc, cur_ver, flags)" by (cases e)
    obtain ol s2 where ap: "append_record dev (s\<lparr>g_mutation_group := g_mutation_group s + 1\<rparr>) key [] (cur_ver + 1)
      KV_REC_FLAG_TOMB (g_mutation_group s + 1) = (ol, s2)" by (metis prod.exhaust)
    have "KV_REC_FLAG_TOMB AND KV_REC_FLAG_COMP = 0" by (simp add: KV_REC_FLAG_TOMB_def KV_REC_FLAG_COMP_def)
    note a = append_store [OF nor inv _ this ap, simplified]
    show ?thesis
    proof (cases ol)
      case None
      with run Some e ap have "s' = s2" by (auto simp: kv_delete_def Let_def)
      with a(1,2) show ?thesis by simp
    next
      case (Some tl)
      define s3 where "s3 = idx_remove s2 key"
      from a(1) have i2: "idx_inv s2" and p2: "pages_inv s2" by (simp_all add: store_inv_def)
      have sp: "same_pages s2 s3" unfolding s3_def by (rule idx_remove_pages [OF i2])
      have s': "s' = snd (deadlog_append dev s3 (loc_page old_loc))"
        using run \<open>idx_get s key = Some e\<close> e ap Some by (auto simp: kv_delete_def Let_def s3_def)
      have ex3: "extends s s3" by (rule extends_trans [OF a(2) same_pages_extends [OF sp]])
      have g3: "idx_get s3 k = (if k = key then None else idx_get s k)" for k
        using idx.get_del [OF i2, of key] same_index_get [OF a(3)] by (simp add: s3_def)
      have inv3: "store_inv s3"
        using idx_remove_spec(1) [OF i2, of key] same_pages_inv [OF sp] p2 ex3 store_invD [OF inv]
        by (auto simp: store_inv_def g3 extends_def s3_def [symmetric] split: if_split_asm)
      then have p3: "pages_inv s3" and dl: "g_deadlog_write_page s3 < KV_DEADLOG_SECTORS"
        by (simp_all add: store_inv_def pages_inv_def write_ok_def Let_def)
      have lo: "log_only s3 s'" unfolding s' by (rule log_only_append [OF nor dl])
      note l = log_only_extends [OF p3 lo]
      have "same_index s3 s'" using lo by (simp add: log_only_def)
      from store_extends(1) [OF inv3 l this] extends_trans [OF ex3 l(2)] show ?thesis by simp
    qed
  qed
  then have si: "store_inv s'" and ex: "extends s s'" by simp_all
  show "store_inv s'" by (rule si)
  note g = delete_index(2) [OF idx run]
  show "kv_get_copy s' k out cap = (if r \<and> k = key then Miss else kv_get_copy s k out cap)"
  proof (cases "r \<and> k = key")
    case True
    with g show ?thesis by (simp add: kv_get_copy_def)
  next
    case False
    with g have "idx_get s' k = idx_get s k" by auto
    from store_same_gets [OF inv ex this] False show ?thesis by auto
  qed
qed

lemma idx_get_entry:
  assumes "idx_inv s" "idx_get s k = Some (loc, v, fl)"
  shows "\<exists>e \<in> set (g_index s). e_loc e = loc"
proof -
  have "idx_sorted (g_index s)" using assms(1) by (simp add: idx_inv_def)
  from idx_get_map [OF this, of k] assms(2) have "idx_map (g_index s) k = Some (loc, v, fl)" by simp
  then have "(k, loc, v, fl) \<in> set (map (\<lambda>e. (e_key e, e_loc e, e_version e, e_flags e)) (g_index s))"
    unfolding idx_map_def by (rule map_of_SomeD)
  then show ?thesis by auto
qed

lemma compact_store:
  assumes nor: "nor_flash dev" and inv: "store_inv s" and run: "kv_compact_step dev s = (r, s')"
  shows "store_inv s' \<and> (\<forall>k out cap. kv_get_copy s' k out cap = kv_get_copy s k out cap)"
proof -
  have idx: "idx_inv s" and pg: "pages_inv s" using inv by (simp_all add: store_inv_def)
  have k: "keeps s s'" by (rule compact_step_keeps [OF nor idx run])
  have si: "same_index s s'" using k by (simp add: keeps_def)
  have wp: "g_write_page s' = g_write_page s" "g_write_off s' = g_write_off s" using k by (simp_all add: keeps_def)
  have kept: "agree_page (kv_flash s) (kv_flash s') p n" if "p \<in> kept_pages s" "n \<le> KV_SECTOR_SIZE" for p n
    using k that by (auto simp: keeps_def agree_page_def agree_def on_page_def)
  from run have "pages_inv s'"
  proof (cases rule: compact_step_cases)
    case (keep p off)
    then have "same_pages s s'" by (simp add: same_pages_def)
    from same_pages_inv [OF this] pg show ?thesis by simp
  next
    case (erase p off page)
    have er: "kv_flash s' a = (if on_page page a then 0xFF else kv_flash s a)" for a
      by (simp add: erase(6) nor_erase [OF nor] on_page_def)
    have clean: "page_clean (kv_flash s') q" if "q < KV_SECTOR_COUNT" for q
    proof (cases "q = page")
      case True
      have "page_erased (kv_flash s') q 0" by (simp add: page_erased_def erased_def er True on_page_def)
      with page_erased_mono [OF this, of 16] show ?thesis by (simp add: page_clean_def)
    next
      case False
      have "agree_page (kv_flash s) (kv_flash s') q KV_SECTOR_SIZE"
        by (rule agree_page_off [of page _ _ q]) (use er False in auto)
      from page_clean_agree [OF this] pages_inv_clean [OF pg that] show ?thesis by simp
    qed
    have "g_write_page s \<in> kept_pages s" by (simp add: kept_pages_def)
    note ag = kept [OF this le_refl]
    have "write_ok s'"
      using pages_inv_write [OF pg] by (rule write_ok_agree [OF _ ag wp])
        (use pages_inv_write [OF pg] in \<open>simp add: erase(6) write_ok_def Let_def\<close>)
    with clean show ?thesis by (simp add: pages_inv_def)
  qed
  moreover have "idx_get s k = Some (loc, v, fl) \<Longrightarrow> loc_page loc \<in> kept_pages s" for k loc v fl
    using idx_get_entry [OF idx] by (force simp: kept_pages_def)
  then have live: "idx_get s k = Some (loc, v, fl) \<Longrightarrow> live_loc s' loc
      \<and> read_record (kv_flash s') loc key out cap = read_record (kv_flash s) loc key out cap" for k loc v fl key out cap
    using loc_ok_agree [OF store_invD [OF inv, unfolded live_loc_def], of k loc v fl "kv_flash s'" "written s (loc_page loc)"]
      kept written_le [OF pages_inv_write [OF pg]] by (auto simp: live_loc_def written_same [OF wp])
  moreover have g: "idx_get s' k = idx_get s k" for k by (rule same_index_get [OF si])
  ultimately have "store_inv s'" using idx same_index_inv [OF si] by (auto simp: store_inv_def)
  moreover have "kv_get_copy s' k out cap = kv_get_copy s k out cap" for k out cap
    using live by (auto simp: kv_get_copy_def g split: option.split)
  ultimately show ?thesis by blast
qed

lemma reclaim_store:
  assumes nor: "nor_flash dev"
  shows "reclaim_loop dev s n = Some (m, s') \<Longrightarrow> store_inv s \<Longrightarrow>
    store_inv s' \<and> (\<forall>k out cap. kv_get_copy s' k out cap = kv_get_copy s k out cap)"
proof (induction "used_pages (kv_flash s)" arbitrary: s n rule: less_induct)
  case less
  obtain r s1 where st: "kv_compact_step dev s = (r, s1)" by (cases "kv_compact_step dev s")
  note c = compact_store [OF nor less.prems(2) st]
  show ?case
  proof (cases r)
    case False
    with less.prems(1) st c show ?thesis by (auto simp: reclaim_loop.simps [of dev s])
  next
    case True
    with compact_step_frees [OF nor] st have lt: "used_pages (kv_flash s1) < used_pages (kv_flash s)" by simp
    from less.prems(1) st True have "reclaim_loop dev s1 (n + 1) = Some (m, s')" by (simp add: reclaim_loop.simps [of dev s])
    from less.hyps [OF lt this] c show ?thesis by simp
  qed
qed

lemma fold_erase:
  assumes nor: "nor_flash dev"
  shows "fold (\<lambda>i f. fd_erase dev f (start + i * KV_SECTOR_SIZE) KV_SECTOR_SIZE) [0..<n] f a
    = (if start \<le> a \<and> a < start + n * KV_SECTOR_SIZE then 0xFF else f a)"
  by (induction n) (auto simp: nor_erase [OF nor] KV_SECTOR_SIZE_def)

lemma wipe_store:
  assumes nor: "nor_flash dev" and dl: "g_deadlog_write_page s < KV_DEADLOG_SECTORS"
  shows "store_inv (kv_wipe dev s)" and "kv_get_copy (kv_wipe dev s) k out cap = Miss"
proof -
  let ?s = "kv_wipe dev s"
  have f: "kv_flash ?s a = 0xFF" if "page_addr p \<le> a" "a < page_addr p + KV_SECTOR_SIZE" "p < KV_SECTOR_COUNT" for p a
  proof -
    have "kv_flash ?s a = (if KV_REGION_START \<le> a
        \<and> a < KV_REGION_START + (KV_DEADLOG_END - KV_REGION_START) div KV_SECTOR_SIZE * KV_SECTOR_SIZE then 0xFF else kv_flash s a)"
      by (simp add: kv_wipe_def fold_erase [OF nor])
    with that show ?thesis by (simp add: page_addr_def KV_SECTOR_COUNT_eq kv_layout)
  qed
  have er: "page_erased (kv_flash ?s) p n" if "p < KV_SECTOR_COUNT" for p n
    using f [OF _ _ that] by (auto simp: page_erased_def erased_def)
  have p0: "0 < KV_SECTOR_COUNT" by (simp add: KV_SECTOR_COUNT_eq)
  have "ph_magic (kv_flash ?s) 0 = 0xFFFFFFFF"
    unfolding ph_magic_def by (rule erased_ld32) (use er [OF p0, of 0] in \<open>auto simp: page_erased_def KV_SECTOR_SIZE_def intro: erased_mono\<close>)
  then have "\<not> page_header_ok (kv_flash ?s) 0" by (simp add: page_header_ok_def KV_PAGE_MAGIC_V2_def)
  moreover have g: "g_index ?s = []" "g_page_ref_count ?s = (\<lambda>_. 0)" "g_write_page ?s = 0" "g_write_off ?s = 16"
    "g_deadlog_write_page ?s = g_deadlog_write_page s" by (simp_all add: kv_wipe_def)
  ultimately have "pages_inv ?s"
    using er dl by (simp add: pages_inv_def write_ok_def p0 page_clean_def KV_SECTOR_SIZE_def)
  moreover have n: "idx_get ?s k = None" for k by (simp add: idx_get_def g idx_find_linear_def idx_search.simps)
  moreover have "idx_inv ?s" by (simp add: idx_inv_def g idx_sorted_def refs_ok_def page_entries_def)
  ultimately show "store_inv ?s" by (simp add: store_inv_def)
  show "kv_get_copy ?s k out cap = Miss" by (simp add: kv_get_copy_def n)
qed

lemma store_inv_boot: "store_inv kv_boot"
proof -
  have er: "page_erased (kv_flash kv_boot) p n" for p n by (simp add: page_erased_def erased_def kv_boot_def)
  have "ph_magic (kv_flash kv_boot) 0 = 0xFFFFFFFF"
    unfolding ph_magic_def by (rule erased_ld32) (simp add: erased_def kv_boot_def)
  then have "\<not> page_header_ok (kv_flash kv_boot) 0" by (simp add: page_header_ok_def KV_PAGE_MAGIC_V2_def)
  moreover have g: "g_index kv_boot = []" "g_write_page kv_boot = 0" "g_write_off kv_boot = 16" "g_deadlog_write_page kv_boot = 0"
    by (simp_all add: kv_boot_def)
  ultimately have "pages_inv kv_boot"
    using er by (simp add: pages_inv_def write_ok_def page_clean_def KV_SECTOR_SIZE_def KV_SECTOR_COUNT_eq KV_DEADLOG_SECTORS_def)
  moreover have "idx_get kv_boot k = None" for k by (simp add: idx_get_def g idx_find_linear_def idx_search.simps)
  ultimately show ?thesis using idx_inv_boot by (simp add: store_inv_def)
qed

subsection \<open>The contract of a key-value store\<close>

text \<open>
  A store on a medium: writes and deletions may fail, and then nothing a reader sees has changed;
  values that satisfy \<open>okv\<close> are stored exactly. \<open>store_run\<close> collects the results the store
  gave; given these, what the store holds is determined.
\<close>

definition store_step :: "('s \<Rightarrow> 'k \<Rightarrow> 'v \<Rightarrow> bool \<times> 's) \<Rightarrow> ('s \<Rightarrow> 'k \<Rightarrow> bool \<times> 's) \<Rightarrow> ('k, 'v) map_op \<Rightarrow> 's \<Rightarrow> bool \<times> 's" where
  "store_step put del x s = (case x of Put k v \<Rightarrow> put s k v | Del k \<Rightarrow> del s k)"

fun store_run :: "('s \<Rightarrow> 'k \<Rightarrow> 'v \<Rightarrow> bool \<times> 's) \<Rightarrow> ('s \<Rightarrow> 'k \<Rightarrow> bool \<times> 's) \<Rightarrow> ('k, 'v) map_op list \<Rightarrow> 's \<Rightarrow> bool list \<times> 's" where
  "store_run put del [] s = ([], s)"
| "store_run put del (x # xs) s =
     (let (b, s1) = store_step put del x s; (bs, s2) = store_run put del xs s1 in (b # bs, s2))"

fun spec_step :: "('k, 'v) map_op \<times> bool \<Rightarrow> ('k \<Rightarrow> 'v option) \<Rightarrow> ('k \<Rightarrow> 'v option)" where
  "spec_step (Put k v, b) m = (if b then m(k \<mapsto> v) else m)"
| "spec_step (Del k, b) m = (if b then m(k := None) else m)"

fun op_value_ok :: "('v \<Rightarrow> bool) \<Rightarrow> ('k, 'v) map_op \<Rightarrow> bool" where
  "op_value_ok okv (Put k v) = okv v"
| "op_value_ok okv (Del k) = True"

locale key_store =
  fixes inv :: "'s \<Rightarrow> bool" and contents :: "'s \<Rightarrow> 'k \<Rightarrow> 'v option" and okv :: "'v \<Rightarrow> bool"
    and put :: "'s \<Rightarrow> 'k \<Rightarrow> 'v \<Rightarrow> bool \<times> 's" and del :: "'s \<Rightarrow> 'k \<Rightarrow> bool \<times> 's"
  assumes put_law: "inv s \<Longrightarrow> okv v \<Longrightarrow> put s k v = (b, s') \<Longrightarrow>
      inv s' \<and> contents s' = (if b then (contents s)(k \<mapsto> v) else contents s)"
    and del_law: "inv s \<Longrightarrow> del s k = (b, s') \<Longrightarrow>
      inv s' \<and> contents s' = (if b then (contents s)(k := None) else contents s)"
begin

lemma step_simulates:
  assumes "inv s" "op_value_ok okv x" "store_step put del x s = (b, s')"
  shows "inv s' \<and> contents s' = spec_step (x, b) (contents s)"
proof (cases x)
  case (Put k v)
  with put_law [OF assms(1), of v k b s'] assms(2,3) show ?thesis by (simp add: store_step_def)
next
  case (Del k)
  with del_law [OF assms(1), of k b s'] assms(3) show ?thesis by (simp add: store_step_def)
qed

lemma run_simulates:
  "inv s \<Longrightarrow> list_all (op_value_ok okv) xs \<Longrightarrow> store_run put del xs s = (bs, s') \<Longrightarrow>
   inv s' \<and> contents s' = fold spec_step (zip xs bs) (contents s)"
proof (induction xs arbitrary: s bs)
  case (Cons x xs)
  obtain b s1 where st: "store_step put del x s = (b, s1)" by (cases "store_step put del x s")
  with Cons.prems(3) obtain bs' where run: "store_run put del xs s1 = (bs', s')" "bs = b # bs'"
    by (auto split: prod.split_asm)
  from step_simulates [OF Cons.prems(1) _ st] Cons.prems(2) Cons.IH [OF _ _ run(1)] run(2) show ?case by simp
qed simp

lemma failed_run: "inv s \<Longrightarrow> list_all (op_value_ok okv) xs \<Longrightarrow> store_run put del xs s = (bs, s') \<Longrightarrow> True \<notin> set bs \<Longrightarrow>
  contents s' = contents s"
proof (induction xs arbitrary: s bs)
  case (Cons x xs)
  obtain b s1 where st: "store_step put del x s = (b, s1)" by (cases "store_step put del x s")
  with Cons.prems(3) obtain bs' where run: "store_run put del xs s1 = (bs', s')" "bs = b # bs'"
    by (auto split: prod.split_asm)
  with step_simulates [OF Cons.prems(1) _ st] Cons.prems(2,4) have "inv s1" "contents s1 = contents s"
    by (cases x; auto)+
  with Cons.IH [OF _ _ run(1)] Cons.prems(2,4) run(2) show ?case by simp
qed simp

end

subsection \<open>The flash store is such a store\<close>

definition kv_contents :: "kv_state \<Rightarrow> u32 \<Rightarrow> byte list option" where
  "kv_contents s key = (case kv_get s key of Found v \<Rightarrow> Some v | _ \<Rightarrow> None)"

definition kv_small :: "byte list \<Rightarrow> bool" where
  "kv_small v \<longleftrightarrow> length v \<le> 474"

lemma kv_contents_cong: "kv_get_copy s' key True (Some KV_MAX_VALUE) = kv_get_copy s key True (Some KV_MAX_VALUE) \<Longrightarrow>
    kv_contents s' key = kv_contents s key"
  by (simp add: kv_contents_def kv_get_def)

lemma kv_contents_Miss: "kv_get_copy s key True (Some KV_MAX_VALUE) = Miss \<Longrightarrow> kv_contents s key = None"
  by (simp add: kv_contents_def kv_get_def)

lemma kv_contents_Found: "kv_get_copy s key True (Some KV_MAX_VALUE) = Found (Some v, n, ver) \<Longrightarrow> kv_contents s key = Some v"
  by (simp add: kv_contents_def kv_get_def)

lemma loc_off_dvd: "4 dvd loc_off loc"
proof -
  have "unat (take_bit 10 (drop_bit 10 loc) :: u32) < 2 ^ 10"
    by (metis take_bit_nat_less_exp unsigned_take_bit_eq)
  then show ?thesis by (simp add: unpack_loc_def mask_eq_take_bit)
qed

lemma small_fits: "kv_small v \<Longrightarrow> fits v loc"
proof -
  assume "kv_small v"
  then have l: "length (fst (stored_form v 0)) \<le> 474"
    using stored_form_spec(1) [of v 0 "fst (stored_form v 0)" "snd (stored_form v 0)"] by (simp add: kv_small_def)
  define n where "n = align4 (26 + length (fst (stored_form v 0)))"
  define m where "m = loc_off loc"
  have "n < 504" "4 dvd n"
    using align4_le [of "26 + length (fst (stored_form v 0))"] l by (simp_all add: n_def)
  then have n: "n \<le> 500" by presburger
  have "4 dvd m" unfolding m_def by (rule loc_off_dvd)
  then have "4 dvd m mod 256" by (rule dvd_mod) simp
  moreover have "m mod 256 < 256" by simp
  ultimately have "m mod 256 \<le> 252" by (elim dvdE) auto
  with n show ?thesis by (simp add: fits_def n_def [symmetric] m_def [symmetric])
qed

text \<open>What was read into a buffer is read into every buffer that holds it.\<close>

lemma read_record_cap:
  "read_record f loc key True (Some c) = Found (Some v, n, ver) \<Longrightarrow> n \<le> c' \<Longrightarrow>
     read_record f loc key True (Some c') = Found (Some v, n, ver)"
  by (auto simp: read_record_def Let_def split: if_split_asm read_result.split_asm)

lemma kv_put_law:
  assumes nor: "nor_flash dev" and inv: "store_inv s" and v: "kv_small v" and run: "kv_put dev s k v = (b, s')"
  shows "store_inv s' \<and> kv_contents s' = (if b then (kv_contents s)(k \<mapsto> v) else kv_contents s)"
proof -
  obtain r where r: "kv_put_if_version dev s k v KV_VERSION_ANY = (r, s')" "b = (r \<noteq> None)"
    using run by (auto simp: kv_put_def split: prod.split_asm)
  note p = put_store [OF nor inv r(1)]
  have "kv_contents s' k' = (if b \<and> k' = k then Some v else kv_contents s k')" for k'
  proof (cases "b \<and> k' = k")
    case True
    with r(2) obtain ver where ver: "r = Some ver" by auto
    from p(3) [OF ver] small_fits [OF v] True show ?thesis by (auto intro: kv_contents_Found)
  next
    case False
    with p(2) r(2) show ?thesis by (auto intro: kv_contents_cong)
  qed
  with p(1) show ?thesis by auto
qed

lemma kv_delete_law:
  assumes nor: "nor_flash dev" and inv: "store_inv s" and run: "kv_delete dev s k = (b, s')"
  shows "store_inv s' \<and> kv_contents s' = (if b then (kv_contents s)(k := None) else kv_contents s)"
proof -
  note d = delete_store [OF nor inv run]
  have "kv_contents s' k' = (if b \<and> k' = k then None else kv_contents s k')" for k'
  proof (cases "b \<and> k' = k")
    case True
    with d(2) [of k' True "Some KV_MAX_VALUE"] show ?thesis by (simp add: kv_contents_Miss)
  next
    case False
    with d(2) [of k' True "Some KV_MAX_VALUE"] have "kv_contents s' k' = kv_contents s k'"
      by (intro kv_contents_cong) (simp only: False if_False)
    with False show ?thesis by auto
  qed
  with d(1) show ?thesis by auto
qed

text \<open>
  The chip is a parameter of the operations, so the contract is interpreted on the part of the
  state it does not change: the pair of the chip and the state of the store.
\<close>

definition chip_put :: "flash_dev \<times> kv_state \<Rightarrow> u32 \<Rightarrow> byte list \<Rightarrow> bool \<times> flash_dev \<times> kv_state" where
  "chip_put cs k v = (case kv_put (fst cs) (snd cs) k v of (b, s') \<Rightarrow> (b, fst cs, s'))"

definition chip_delete :: "flash_dev \<times> kv_state \<Rightarrow> u32 \<Rightarrow> bool \<times> flash_dev \<times> kv_state" where
  "chip_delete cs k = (case kv_delete (fst cs) (snd cs) k of (b, s') \<Rightarrow> (b, fst cs, s'))"

definition chip_inv :: "flash_dev \<times> kv_state \<Rightarrow> bool" where
  "chip_inv cs \<longleftrightarrow> nor_flash (fst cs) \<and> store_inv (snd cs)"

interpretation kvs: key_store chip_inv "\<lambda>cs. kv_contents (snd cs)" kv_small chip_put chip_delete
proof
  fix cs cs' :: "flash_dev \<times> kv_state" and k v b
  assume inv: "chip_inv cs"
  show "chip_inv cs' \<and> kv_contents (snd cs') = (if b then (kv_contents (snd cs))(k \<mapsto> v) else kv_contents (snd cs))"
    if "kv_small v" "chip_put cs k v = (b, cs')"
    using inv that kv_put_law [of "fst cs" "snd cs" v k b "snd cs'"]
    by (auto simp: chip_put_def chip_inv_def split: prod.split_asm)
  show "chip_inv cs' \<and> kv_contents (snd cs') = (if b then (kv_contents (snd cs))(k := None) else kv_contents (snd cs))"
    if "chip_delete cs k = (b, cs')"
    using inv that kv_delete_law [of "fst cs" "snd cs" k b "snd cs'"]
    by (auto simp: chip_delete_def chip_inv_def split: prod.split_asm)
qed

text \<open>An erased chip takes every value.\<close>

lemma put_boot:
  assumes "length val \<le> KV_MAX_VALUE"
  shows "\<exists>s'. kv_put nor_dev kv_boot key val = (True, s')"
proof -
  obtain r s' where p: "kv_put_if_version nor_dev kv_boot key val KV_VERSION_ANY = (r, s')" by (metis prod.exhaust)
  have l: "length (fst (stored_form val 0)) \<le> 508"
    using assms stored_form_spec(1) [of val 0 "fst (stored_form val 0)" "snd (stored_form val 0)"] by (simp add: KV_MAX_VALUE_def)
  define n where "n = cast16 (align4 (cast16 (26 + length (fst (stored_form val 0)))) + KV_COMMIT_ALIGNED)"
  have "n \<le> 4000" using l align4_le [of "26 + length (fst (stored_form val 0))"] by (simp add: n_def KV_COMMIT_ALIGNED_def)
  then have fit: "fst (select_append_page (kv_boot\<lparr>g_mutation_group := 1\<rparr>) n)"
    by (simp add: select_append_page_def kv_boot_def ph_magic_def ld32_def le32_def KV_FREE_def KV_SECTOR_SIZE_def)
  from p have "r \<noteq> None"
  proof (cases rule: put_cases)
    case full
    from full(2) show ?thesis
      by (rule append_record_cases) (use fit in \<open>simp_all add: kv_boot_def n_def\<close>)
  next
    case (no_slot loc s2)
    from same_index_append [OF no_slot(2)] no_slot(3) show ?thesis
      by (simp add: idx_set_def same_index_def kv_boot_def idx_find_linear_def idx_search.simps KV_INDEX_CAPACITY_def)
  qed (use assms in simp_all)
  with p show ?thesis by (simp add: kv_put_def)
qed

subsection \<open>Properties\<close>

text \<open>
  C8: the flash store refines a map. Starting from any state that satisfies the store's invariant
  (in particular an erased chip), any sequence of \<open>kv_put\<close> of values of at most 474 bytes and
  \<open>kv_delete\<close> leaves the store with exactly the contents that the successful operations give a
  map, as read back by \<open>kv_get\<close> through index, flash, checksum and decompression; a failed
  operation changes nothing a reader can see.
\<close>

theorem kv_flash_refines_map:
  assumes "nor_flash dev" "store_inv s" "list_all (op_value_ok kv_small) ops"
    and "store_run chip_put chip_delete ops (dev, s) = (results, dev', s')"
  shows "store_inv s' \<and> kv_contents s' = fold spec_step (zip ops results) (kv_contents s)"
  using kvs.run_simulates [of "(dev, s)" ops results "(dev', s')"] assms by (simp add: chip_inv_def)

theorem kv_flash_refines_map_witness:
  "case store_run chip_put chip_delete [Put 7 [1, 2, 3], Del 7, Put 8 [4]] (nor_dev, kv_boot) of
     (results, dev', s') \<Rightarrow> kv_contents s' = fold spec_step (zip [Put 7 [1, 2, 3], Del 7, Put 8 [4]] results) (kv_contents kv_boot)"
proof -
  obtain results dev' s' where r: "store_run chip_put chip_delete [Put 7 [1, 2, 3], Del 7, Put 8 [4]] (nor_dev, kv_boot)
      = (results, dev', s')" by (metis prod.exhaust)
  have "list_all (op_value_ok kv_small) [Put (7 :: u32) [1, 2, 3], Del 7, Put 8 [4]]" by (simp add: kv_small_def)
  from kv_flash_refines_map [OF nor_flash_dev store_inv_boot this r] r show ?thesis by simp
qed

text \<open>
  C9: what \<open>kv_put\<close> stores. When a write succeeds, reading the key back gives exactly the value and
  its new version if the record fits into the 768-byte staging buffer of \<open>flash_program_aligned\<close>
  at its offset; otherwise nothing was programmed, and although \<open>kv_put_if_version\<close> returned
  true the key reads as missing. Every other key reads as before.
\<close>

theorem kv_put_reads_back:
  assumes "nor_flash dev" "store_inv s" "kv_put_if_version dev s key val expected = (Some v, s')"
  shows "\<exists>loc. idx_get s' key = Some (loc, v, 0)
    \<and> kv_get_copy s' key True (Some KV_MAX_VALUE)
      = (if loc_off loc mod 256 + align4 (26 + length (fst (stored_form val 0))) + 16 \<le> 768
         then Found (Some val, length val, v) else Miss)
    \<and> (k \<noteq> key \<longrightarrow> kv_get_copy s' k out cap = kv_get_copy s k out cap)"
  using put_store(2) [OF assms, of k] put_store(3) [OF assms refl] by (simp add: fits_def)

theorem kv_put_reads_back_witness:
  "kv_get (snd (kv_put_if_version nor_dev kv_boot 7 [1, 2, 3] 0)) 7 = Found [1, 2, 3]"
proof -
  from put_fresh obtain s' where p: "kv_put_if_version nor_dev kv_boot 7 [1, 2, 3] 0 = (Some 1, s')" ..
  from kv_put_reads_back [OF nor_flash_dev store_inv_boot p, of 8 True None] obtain loc where
    g: "kv_get_copy s' 7 True (Some KV_MAX_VALUE)
      = (if loc_off loc mod 256 + align4 (26 + length (fst (stored_form [1, 2, 3] 0))) + 16 \<le> 768
         then Found (Some [1, 2, 3], length [1 :: byte, 2, 3], 1) else Miss)" by blast
  have "loc_off loc mod 256 + align4 (26 + length (fst (stored_form [1, 2, 3] 0))) + 16 \<le> 768"
    using small_fits [of "[1, 2, 3]" loc] by (simp add: kv_small_def fits_def)
  with g p show ?thesis by (simp add: kv_get_def)
qed

text \<open>
  Background work is invisible. \<open>kv_reclaim\<close> keeps the store's invariant, and every key reads as
  before; \<open>kv_wipe\<close> establishes the invariant from any state and empties the store.
\<close>

theorem kv_reclaim_invisible:
  assumes "nor_flash dev" "store_inv s" "kv_reclaim dev s = Some (n, s')"
  shows "store_inv s' \<and> kv_get_copy s' key out cap = kv_get_copy s key out cap
    \<and> (store_inv (kv_wipe dev s) \<and> kv_get_copy (kv_wipe dev s) key out cap = Miss)"
proof -
  have "g_deadlog_write_page s < KV_DEADLOG_SECTORS"
    using assms(2) by (simp add: store_inv_def pages_inv_def write_ok_def Let_def)
  with reclaim_store [OF assms(1), of s 0 n s'] assms wipe_store [OF assms(1)] show ?thesis
    by (simp add: kv_reclaim_def)
qed

theorem kv_reclaim_invisible_witness:
  "\<exists>n s'. kv_reclaim nor_dev kv_boot = Some (n, s') \<and> store_inv s'"
proof -
  obtain n s' where r: "kv_reclaim nor_dev kv_boot = Some (n, s')"
    using reclaim_loop_ends [OF nor_flash_dev idx_inv_boot, of 0] by (auto simp: kv_reclaim_def)
  from kv_reclaim_invisible [OF nor_flash_dev store_inv_boot this] r show ?thesis by blast
qed

end
