(* ===== verification/KvRecovery.thy ===== *)
theory KvRecovery
  imports KvStore
begin

text \<open>
  Recovery (\<open>kv_init\<close>) on arbitrary flash contents: it always ends, leaves the flash alone, builds a
  correct index, and indexes nothing but records whose payload checksum is right and whose
  commit marker follows on the same page, the power-loss guarantee of the store.
\<close>

unbundle bit_operations_syntax

subsection \<open>Committed records\<close>

text \<open>An intact data record at offset \<open>off\<close> of page \<open>p\<close>.\<close>

definition intact_record :: "flash \<Rightarrow> nat \<Rightarrow> nat \<Rightarrow> pending_rec \<Rightarrow> bool" where
  "intact_record f p off pd \<longleftrightarrow>
     (let a = page_addr p + off in
      p < KV_SECTOR_COUNT \<and> page_header_ok f p \<and> off + rp_rec_len f a \<le> KV_SECTOR_SIZE
      \<and> rp_magic f a = KV_MAGIC \<and> crc32 (rp_stored f a) = rp_checksum f a
      \<and> pd = \<lparr>pd_key = rp_key f a, pd_loc = pack_loc p off (align4 (rp_rec_len f a)), pd_version = rp_version f a,
              pd_flags = rp_flags f a, pd_group = rp_group f a\<rparr>)"

definition commit_marker :: "flash \<Rightarrow> nat \<Rightarrow> u32 \<Rightarrow> bool" where
  "commit_marker f a mg \<longleftrightarrow> rp_magic f a = KV_COMMIT_MAGIC \<and> ld32 f (a + 10) = crc32 (xip f (a + 2) 8) \<and> ld32 f (a + 2) = mg"

definition committed :: "flash \<Rightarrow> u32 \<Rightarrow> u32 \<times> u16 \<times> byte \<Rightarrow> bool" where
  "committed f key e \<longleftrightarrow>
     (\<exists>p off off' pd. intact_record f p off pd \<and> off < off' \<and> off' + 14 \<le> KV_SECTOR_SIZE
        \<and> commit_marker f (page_addr p + off') (pd_group pd)
        \<and> pd_key pd = key \<and> e = (pd_loc pd, pd_version pd, pd_flags pd) \<and> pd_flags pd AND KV_REC_FLAG_TOMB = 0)"

definition recovered :: "flash \<Rightarrow> kv_state \<Rightarrow> bool" where
  "recovered f s \<longleftrightarrow> kv_flash s = f \<and> idx_inv s \<and> (\<forall>k e. idx_get s k = Some e \<longrightarrow> committed f k e)"

lemma recoveredD: "recovered f s \<Longrightarrow> idx_get s k = Some e \<Longrightarrow> committed f k e"
  unfolding recovered_def by blast

lemma recovered_same_index: "recovered f s \<Longrightarrow> same_index s s' \<Longrightarrow> kv_flash s' = kv_flash s \<Longrightarrow> recovered f s'"
  by (simp add: recovered_def same_index_inv same_index_get)

subsection \<open>Scanning a page\<close>

lemma apply_pending_recovered:
  assumes "recovered f s" and "pd_flags pd AND KV_REC_FLAG_TOMB = 0 \<Longrightarrow> committed f (pd_key pd) (pd_loc pd, pd_version pd, pd_flags pd)"
  shows "recovered f (apply_pending s pd)"
proof -
  let ?k = "pd_key pd" and ?e = "(pd_loc pd, pd_version pd, pd_flags pd)"
  have inv: "idx_inv s" using assms(1) by (simp add: recovered_def)
  have rem: "recovered f (idx_remove s ?k)"
    using assms(1) idx_remove_spec(1) [OF inv, of ?k] idx.get_del [OF inv, of ?k] idx_remove_pages [OF inv, of ?k]
    by (auto simp: recovered_def same_pages_def split: if_split_asm)
  have set: "recovered f (snd (idx_set s ?k (pd_loc pd) (pd_version pd) (pd_flags pd)))"
    if "pd_flags pd AND KV_REC_FLAG_TOMB = 0"
  proof -
    obtain b s' where st: "idx_set s ?k (pd_loc pd) (pd_version pd) (pd_flags pd) = (b, s')" by (metis prod.exhaust)
    show ?thesis
    proof (cases b)
      case True
      with st have st: "idx_set s ?k (pd_loc pd) (pd_version pd) (pd_flags pd) = (True, s')" by simp
      from idx_set_spec [OF inv st] have "idx_inv s'" by simp
      moreover have "idx_get s' k = (if k = ?k then Some ?e else idx_get s k)" for k
        using idx.get_put [OF inv, of ?k ?e s' k] st by simp
      ultimately show ?thesis
        using assms(1) assms(2) [OF that] idx_set_pages [OF inv st] st
        by (auto simp: recovered_def same_pages_def split: if_split_asm)
    next
      case False
      with idx_set_spec [OF inv st] assms(1) st show ?thesis by simp
    qed
  qed
  show ?thesis
    using assms(1) rem set by (auto simp: apply_pending_def Let_def)
qed

definition pending_ok :: "flash \<Rightarrow> nat \<Rightarrow> nat \<Rightarrow> pending_rec option \<Rightarrow> bool" where
  "pending_ok f p off pending \<longleftrightarrow> (case pending of None \<Rightarrow> True | Some pd \<Rightarrow> \<exists>o'<off. intact_record f p o' pd)"

lemma pending_ok_mono: "pending_ok f p off pending \<Longrightarrow> off \<le> off' \<Longrightarrow> pending_ok f p off' pending"
  by (auto simp: pending_ok_def intro: less_le_trans split: option.splits)

lemma scan_record_recovered:
  assumes rec: "recovered f s" and p: "p < KV_SECTOR_COUNT" "page_header_ok f p" and pend: "pending_ok f p off pending"
    and run: "scan_record p off pending s = Some (pending', s')" and off: "off < off'"
    and room: "off + 14 \<le> KV_SECTOR_SIZE"
  shows "recovered f s' \<and> pending_ok f p off' pending'"
proof -
  have f: "kv_flash s = f" using rec by (simp add: recovered_def)
  let ?a = "page_addr p + off"
  show ?thesis
  proof (cases "rp_magic f ?a = KV_COMMIT_MAGIC")
    case True
    show ?thesis
    proof (cases pending)
      case None
      with run True f rec show ?thesis
        by (auto simp: scan_record_def Let_def pending_ok_def split: if_split_asm)
    next
      case (Some pd)
      with pend obtain o1 where o1: "o1 < off" "intact_record f p o1 pd" by (auto simp: pending_ok_def)
      show ?thesis
      proof (cases "commit_matches f ?a pd")
        case m: True
        then have "committed f (pd_key pd) (pd_loc pd, pd_version pd, pd_flags pd)" if "pd_flags pd AND KV_REC_FLAG_TOMB = 0"
          using o1 room True that by (auto simp: committed_def commit_marker_def commit_matches_def intro!: exI)
        from apply_pending_recovered [OF rec this] Some m run True f show ?thesis
          by (auto simp: scan_record_def Let_def pending_ok_def split: if_split_asm)
      next
        case False
        with Some run True f rec show ?thesis
          by (auto simp: scan_record_def Let_def pending_ok_def split: if_split_asm)
      qed
    qed
  next
    case False
    from run False f have data: "rp_magic f ?a = KV_MAGIC" "off + rp_rec_len f ?a \<le> KV_SECTOR_SIZE" "s' = s"
      "pending' = (if crc32 (rp_stored f ?a) = rp_checksum f ?a then Some \<lparr>pd_key = rp_key f ?a,
          pd_loc = pack_loc p off (align4 (rp_rec_len f ?a)), pd_version = rp_version f ?a, pd_flags = rp_flags f ?a,
          pd_group = rp_group f ?a\<rparr> else pending)"
      by (auto simp: scan_record_def Let_def split: if_split_asm)
    show ?thesis
    proof (cases "crc32 (rp_stored f ?a) = rp_checksum f ?a")
      case True
      with data p off rec show ?thesis by (auto simp: pending_ok_def intact_record_def Let_def)
    next
      case False
      with data rec pending_ok_mono [OF pend, of off'] off show ?thesis by simp
    qed
  qed
qed

lemma scan_page_recovered:
  "recovered f s \<Longrightarrow> p < KV_SECTOR_COUNT \<Longrightarrow> page_header_ok f p \<Longrightarrow> pending_ok f p off pending \<Longrightarrow>
   recovered f (snd (scan_page p off pending s))"
proof (induction p off pending s rule: scan_page.induct)
  case (1 p off pending s)
  show ?case
  proof (cases "off + 14 \<le> KV_SECTOR_SIZE")
    case False
    with 1 show ?thesis by (simp add: scan_page.simps [of p off])
  next
    case room: True
    show ?thesis
    proof (cases "scan_record p off pending s")
      case None
      with 1 room show ?thesis by (simp add: scan_page.simps [of p off])
    next
      case (Some r)
      obtain pending' s' where r: "r = (pending', s')" by (cases r)
      let ?off' = "cast16 (off + align4 (rp_rec_len (kv_flash s) (page_addr p + off)))"
      from scan_record_advance [OF Some] have adv: "off < ?off'" .
      from scan_record_recovered [OF 1(2-5) Some [unfolded r] adv room] have step: "recovered f s'" "pending_ok f p ?off' pending'" by simp_all
      from 1(1) [OF room Some r [symmetric] step(1) 1(3,4) step(2)] Some r room show ?thesis
        by (simp add: scan_page.simps [of p off])
    qed
  qed
qed

lemma init_page_recovered: "recovered f (fst st) \<Longrightarrow> p < KV_SECTOR_COUNT \<Longrightarrow> recovered f (fst (init_page p st))"
proof -
  assume rec: "recovered f (fst st)" and p: "p < KV_SECTOR_COUNT"
  obtain s last where st: "st = (s, last)" by (cases st)
  with rec have f: "kv_flash s = f" and rec: "recovered f s" by (simp_all add: recovered_def)
  define s1 where "s1 = (if g_page_sequence s < ph_sequence f p then s\<lparr>g_page_sequence := ph_sequence f p\<rparr> else s)"
  have rec1: "recovered f s1"
    using rec by (auto simp: s1_def intro: recovered_same_index simp: same_index_def)
  show ?thesis
  proof (cases "page_header_ok f p")
    case False
    with st f rec show ?thesis by (simp add: init_page_def)
  next
    case True
    obtain off s2 where sp: "scan_page p 16 None s1 = (off, s2)" by (metis prod.exhaust)
    have "fst (init_page p st) = s2"
      unfolding init_page_def st Let_def prod.case f s1_def [symmetric] sp using True by simp
    with scan_page_recovered [OF rec1 p True, of 16 None] sp show ?thesis by (simp add: pending_ok_def)
  qed
qed

lemma fold_init_recovered:
  "recovered f (fst st) \<Longrightarrow> list_all (\<lambda>p. p < KV_SECTOR_COUNT) ps \<Longrightarrow> recovered f (fst (fold init_page ps st))"
  by (induction ps arbitrary: st) (simp_all add: init_page_recovered)

lemma fold_deadlog_same: "same_index s (fold init_deadlog_page ps s) \<and> kv_flash (fold init_deadlog_page ps s) = kv_flash s"
proof (induction ps arbitrary: s)
  case (Cons p ps)
  have "same_index s (init_deadlog_page p s)" "kv_flash (init_deadlog_page p s) = kv_flash s"
    by (auto simp: init_deadlog_page_def same_index_def)
  with Cons.IH [of "init_deadlog_page p s"] show ?case by (auto intro: same_index_trans)
qed (simp add: same_index_refl)

lemma kv_init_recovered: "recovered (kv_flash s) (kv_init s)"
proof -
  define s0 where "s0 = s\<lparr>g_index := [], g_write_page := 0, g_write_off := 16, g_page_sequence := 0,
                 g_mutation_group := 0, g_page_ref_count := (\<lambda>_. 0)\<rparr>"
  have "recovered (kv_flash s) s0"
    by (simp add: recovered_def s0_def idx_inv_def idx_sorted_def refs_ok_def page_entries_def idx_get_def
        idx_find_linear_def idx_search.simps)
  then have 1: "recovered (kv_flash s) (fst (fold init_page [0..<KV_SECTOR_COUNT] (s0, None)))"
    by (intro fold_init_recovered) (simp_all add: list_all_iff)
  obtain s1 last where f: "fold init_page [0..<KV_SECTOR_COUNT] (s0, None) = (s1, last)" by (metis prod.exhaust)
  obtain s2 where s2: "kv_init s = fold init_deadlog_page [0..<KV_DEADLOG_SECTORS] s2" "same_index s1 s2" "kv_flash s2 = kv_flash s1"
  proof -
    have "\<exists>s2. kv_init s = fold init_deadlog_page [0..<KV_DEADLOG_SECTORS] s2 \<and> same_index s1 s2 \<and> kv_flash s2 = kv_flash s1"
      unfolding kv_init_def Let_def s0_def [symmetric] f prod.case
      by (rule exI, rule conjI, rule refl) (simp add: same_index_def split: option.split)
    then show thesis using that by blast
  qed
  have "recovered (kv_flash s) s2"
    using recovered_same_index [OF _ s2(2,3)] 1 f by simp
  with fold_deadlog_same [of s2 "[0..<KV_DEADLOG_SECTORS]"] recovered_same_index s2(1) show ?thesis by simp
qed

subsection \<open>Scanning what \<open>append_record\<close> wrote\<close>

lemma commit_fields:
  assumes "xip f a 16 = commit_bytes mg @ [0xFF, 0xFF]"
  shows "rp_rec_len f a = 16" "rp_magic f a = KV_COMMIT_MAGIC" "ld32 f (a + 2) = mg" "ld32 f (a + 10) = crc32 (xip f (a + 2) 8)"
proof -
  define c where "c = crc32 (bytes32 mg @ bytes32 KV_COMMIT_MAGIC)"
  define zs where "zs = bytes16 16 @ bytes32 mg @ bytes32 KV_COMMIT_MAGIC @ bytes32 c @ [0xFF, 0xFF]"
  have x: "xip f a (length zs) = zs" using assms by (simp add: zs_def commit_bytes_def KV_COMMIT_ALIGNED_def c_def)
  show "rp_rec_len f a = 16"
    using xip_part [OF x, of "[]" "bytes16 16"] by (simp add: zs_def rp_rec_len_def ld16_bytes)
  show m: "rp_magic f a = KV_COMMIT_MAGIC"
    using xip_part [OF x, of "bytes16 16 @ bytes32 mg" "bytes32 KV_COMMIT_MAGIC"] by (simp add: zs_def rp_magic_def ld32_bytes)
  show "ld32 f (a + 2) = mg"
    using xip_part [OF x, of "bytes16 16" "bytes32 mg"] by (simp add: zs_def ld32_bytes)
  have "xip f (a + 2) 8 = bytes32 mg @ bytes32 KV_COMMIT_MAGIC"
    using xip_part [OF x, of "bytes16 16" "bytes32 mg @ bytes32 KV_COMMIT_MAGIC" "bytes32 c @ [0xFF, 0xFF]"] by (simp add: zs_def)
  moreover have "ld32 f (a + 10) = c"
    using xip_part [OF x, of "bytes16 16 @ bytes32 mg @ bytes32 KV_COMMIT_MAGIC" "bytes32 c"] by (simp add: zs_def ld32_bytes)
  ultimately show "ld32 f (a + 10) = crc32 (xip f (a + 2) 8)" by (simp add: c_def)
qed

lemma scan_image:
  assumes f: "kv_flash s = f" and img: "img = record_image key raw_len stored version flags mg"
    and len: "length stored \<le> 508" "raw_len \<le> 508"
    and x: "xip f (page_addr p + off) (length img) = img" and room: "off + length img \<le> KV_SECTOR_SIZE"
  shows "scan_page p off None s = scan_page p (off + length img) None (apply_pending s
    \<lparr>pd_key = key, pd_loc = pack_loc p off (align4 (26 + length stored)), pd_version = version, pd_flags = flags, pd_group = mg\<rparr>)"
proof -
  let ?n = "26 + length stored" and ?a = "page_addr p + off"
  let ?pd = "\<lparr>pd_key = key, pd_loc = pack_loc p off (align4 ?n), pd_version = version, pd_flags = flags, pd_group = mg\<rparr>"
  have n: "length img = align4 ?n + 16" using length_record_image [OF len(1)] by (simp add: img)
  have al: "?n \<le> align4 ?n" "align4 ?n \<le> 600" using align4_le [of ?n] len(1) by auto
  have r: "off + align4 ?n + 16 \<le> 4096" using room n by (simp add: KV_SECTOR_SIZE_def)
  note fields = image_fields [OF x img len]
  have one: "scan_record p off None s = Some (Some ?pd, s)"
    using fields f al r len(1)
    by (simp add: scan_record_def Let_def KV_MAGIC_def KV_COMMIT_MAGIC_def KV_SECTOR_SIZE_def)
  have off1: "cast16 (off + align4 (rp_rec_len f ?a)) = off + align4 ?n" using fields(1) r by simp
  define pre where "pre = rec_prefix_bytes ?n mg key raw_len (length stored) version flags (crc32 stored) @ stored
    @ replicate (align4 ?n - ?n) 0xFF"
  have "img = pre @ (commit_bytes mg @ [0xFF, 0xFF]) @ []"
    using len(1) by (simp add: img record_image_def Let_def pre_def numeral_2_eq_2)
  moreover have "length pre = align4 ?n" using al by (simp add: pre_def rec_prefix_bytes_def)
  ultimately have "xip f (?a + align4 ?n) 16 = commit_bytes mg @ [0xFF, 0xFF]"
    using xip_part [OF x, of pre "commit_bytes mg @ [0xFF, 0xFF]" "[]"] by (simp add: commit_bytes_def)
  then have c: "xip f (page_addr p + (off + align4 ?n)) 16 = commit_bytes mg @ [0xFF, 0xFF]" by (simp add: add.assoc)
  note cf = commit_fields [OF c]
  have two: "scan_record p (off + align4 ?n) (Some ?pd) s = Some (None, apply_pending s ?pd)"
    using cf f r by (simp add: scan_record_def Let_def KV_SECTOR_SIZE_def commit_matches_def)
  have off2: "cast16 (off + align4 ?n + align4 (rp_rec_len f (page_addr p + (off + align4 ?n)))) = off + length img"
    using cf(1) r by (simp add: n align4_def)
  have "scan_page p off None s = scan_page p (off + align4 ?n) (Some ?pd) s"
    using one off1 r al f by (simp add: scan_page.simps [of p off] KV_SECTOR_SIZE_def)
  also have "\<dots> = scan_page p (off + length img) None (apply_pending s ?pd)"
    using two off2 r f by (simp add: scan_page.simps [of p "off + align4 ?n"] KV_SECTOR_SIZE_def)
  finally show ?thesis .
qed

lemma scan_end:
  assumes "erased (kv_flash s) (page_addr p + off) (page_addr p + off + 2)"
  shows "scan_page p off pending s = (off, s)"
proof -
  have "ld16 (kv_flash s) (page_addr p + off) = 0xFFFF" using assms by (rule erased_ld16)
  then have "scan_record p off pending s = None" by (simp add: scan_record_def Let_def rp_rec_len_def)
  then show ?thesis by (simp add: scan_page.simps [of p off])
qed

text \<open>
  C10: recovery after a power loss applies only committed records. Whatever the flash holds,
  \<open>kv_init\<close> returns with a correct index, does not change the flash, and a key is indexed only if
  on some page with a valid header there is a data record for it with this version and a right
  payload checksum, followed on the same page by a commit marker with a right checksum and the
  same mutation group, and the record is not a tombstone.
\<close>

theorem kv_init_only_committed:
  assumes "idx_get (kv_init s) key = Some (loc, version, flags)"
  shows "idx_inv (kv_init s) \<and> kv_flash (kv_init s) = kv_flash s \<and>
    (\<exists>p off off' pd. intact_record (kv_flash s) p off pd \<and> off < off' \<and> off' + 14 \<le> KV_SECTOR_SIZE
       \<and> commit_marker (kv_flash s) (page_addr p + off') (pd_group pd)
       \<and> pd_key pd = key \<and> pd_loc pd = loc \<and> pd_version pd = version \<and> pd_flags pd AND KV_REC_FLAG_TOMB = 0)"
proof -
  note r = kv_init_recovered [of s]
  from recoveredD [OF r assms] r show ?thesis unfolding committed_def recovered_def by blast
qed

text \<open>A flash with one page that holds one committed record, key 7 with value \<open>[5, 6]\<close>.\<close>

definition one_record :: kv_state where
  "one_record = kv_boot\<lparr>kv_flash := (\<lambda>a. let img = page_header_bytes 1 @ record_image 7 2 [5, 6] 3 0 9 in
     if page_addr 0 \<le> a \<and> a < page_addr 0 + length img then img ! (a - page_addr 0) else 0xFF)\<rparr>"

lemma one_record_len: "length (record_image 7 2 [5, 6] 3 0 9) = 44"
  using length_record_image [of "[5, 6]" 7 2 3 0 9] by (simp add: align4_def)

lemma one_record_init:
  "idx_get (kv_init one_record) 7 = Some (pack_loc 0 16 28, 3, 0)"
proof -
  let ?img = "record_image 7 2 [5, 6] 3 0 9" and ?f = "kv_flash one_record"
  have f: "?f a = (if page_addr 0 \<le> a \<and> a < page_addr 0 + 60 then (page_header_bytes 1 @ ?img) ! (a - page_addr 0) else 0xFF)" for a
    by (simp add: one_record_def Let_def one_record_len)
  have hdr: "page_header_ok ?f 0"
    by (rule header_bytes_ok [of _ _ 1]) (auto intro!: nth_equalityI simp: f nth_append)
  have img: "xip ?f (page_addr 0 + 16) (length ?img) = ?img"
    by (auto intro!: nth_equalityI simp: f nth_append one_record_len)
  have no: "\<not> page_header_ok ?f p" if "0 < p" for p
  proof -
    have "page_addr 0 + 60 \<le> page_addr p" using that by (simp add: page_addr_def KV_SECTOR_SIZE_def)
    then have "erased ?f (page_addr p) (page_addr p + 4)" by (auto simp: erased_def f)
    then show ?thesis by (simp add: page_header_ok_def ph_magic_def erased_ld32 KV_PAGE_MAGIC_V2_def)
  qed
  define s0 where "s0 = one_record\<lparr>g_index := [], g_write_page := 0, g_write_off := 16, g_page_sequence := 0,
                 g_mutation_group := 0, g_page_ref_count := (\<lambda>_. 0)\<rparr>"
  define s1 where "s1 = (if g_page_sequence s0 < ph_sequence ?f 0 then s0\<lparr>g_page_sequence := ph_sequence ?f 0\<rparr> else s0)"
  define pd where "pd = \<lparr>pd_key = 7, pd_loc = pack_loc 0 16 28, pd_version = 3, pd_flags = 0, pd_group = 9\<rparr>"
  define s2 where "s2 = apply_pending s1 pd"
  have f1: "kv_flash s1 = ?f" "g_index s1 = []" by (simp_all add: s1_def s0_def)
  have g1: "idx_get s1 7 = None" by (simp add: idx_get_def f1 idx_find_linear_def idx_search.simps)
  have s2: "s2 = snd (idx_set s1 7 (pack_loc 0 16 28) 3 0)" by (simp add: s2_def apply_pending_def g1 pd_def)
  also have "\<dots> = s1\<lparr>g_index := [\<lparr>e_key = 7, e_loc = pack_loc 0 16 28, e_version = 3, e_flags = 0\<rparr>],
      g_page_ref_count := ref_inc 0 (g_page_ref_count s1)\<rparr>"
    by (simp add: idx_set_def f1 idx_find_linear_def idx_search.simps KV_INDEX_CAPACITY_def unpack_pack)
  finally have s2': "kv_flash s2 = ?f" "g_index s2 = [\<lparr>e_key = 7, e_loc = pack_loc 0 16 28, e_version = 3, e_flags = 0\<rparr>]"
    by (simp_all add: f1)
  have "scan_page 0 16 None s1 = scan_page 0 60 None s2"
    using scan_image [OF f1(1) refl _ _ img] by (simp add: one_record_len KV_SECTOR_SIZE_def s2_def pd_def align4_def)
  also have "\<dots> = (60, s2)" by (rule scan_end) (simp add: s2' erased_def f)
  finally have scan: "scan_page 0 16 None s1 = (60, s2)" .
  have p0: "init_page 0 (s0, None) = (s2, Some (0, 60))"
  proof -
    have "kv_flash s0 = ?f" by (simp add: s0_def)
    then show ?thesis
      unfolding init_page_def Let_def prod.case by (simp only: hdr not_True_eq_False if_False s1_def [symmetric] scan prod.case) simp
  qed
  have rest: "fold init_page ps (s2, last) = (s2, last)" if "list_all (\<lambda>p. 0 < p) ps" for ps last
    using that by (induction ps) (auto simp: init_page_def s2' no)
  have upt: "[0..<KV_SECTOR_COUNT] = 0 # [Suc 0..<KV_SECTOR_COUNT]"
    by (rule upt_conv_Cons) (simp add: KV_SECTOR_COUNT_eq)
  have "fold init_page [0..<KV_SECTOR_COUNT] (s0, None) = (s2, Some (0, 60))"
    unfolding upt fold.simps o_apply p0 by (rule rest) (simp add: list_all_iff)
  then have "\<exists>s3. kv_init one_record = fold init_deadlog_page [0..<KV_DEADLOG_SECTORS] s3 \<and> same_index s2 s3 \<and> kv_flash s3 = kv_flash s2"
    unfolding kv_init_def Let_def s0_def [symmetric]
    by (simp only: prod.case option.case) (rule exI, rule conjI, rule refl, simp add: same_index_def)
  then obtain s3 where s3: "kv_init one_record = fold init_deadlog_page [0..<KV_DEADLOG_SECTORS] s3" "same_index s2 s3" by blast
  with fold_deadlog_same [of s3 "[0..<KV_DEADLOG_SECTORS]"] have "same_index s2 (kv_init one_record)"
    by (auto intro: same_index_trans)
  from same_index_get [OF this] show ?thesis
    by (simp add: idx_get_def s2' idx_find_linear_def idx_search.simps)
qed

theorem kv_init_only_committed_witness:
  "\<exists>p off off' pd. intact_record (kv_flash one_record) p off pd \<and> off < off'
     \<and> commit_marker (kv_flash one_record) (page_addr p + off') (pd_group pd) \<and> pd_key pd = 7 \<and> pd_version pd = 3"
  using kv_init_only_committed [OF one_record_init] by blast

end
