(* ===== verification/ChaCha.thy ===== *)
theory ChaCha
  imports Prelude
begin

text \<open>
  The stream cipher of \<open>src/crypto.c\<close>: the ChaCha20 quarter round and block function, and the
  encryption loop. Arrays of fixed size are lists; the callers pass 32-byte keys and 12-byte
  nonces. The loop consumes its input 64 bytes at a time, as the counter \<open>off\<close> does; the code's
  \<open>off += 64\<close> can only wrap for an input within 64 bytes of 4 GB, which no buffer of the device
  can hold.
\<close>

unbundle bit_operations_syntax

definition ROTL32 :: "u32 \<Rightarrow> nat \<Rightarrow> u32" where
  "ROTL32 v n = push_bit n v OR drop_bit (32 - n) v"

text \<open>One half of the macro \<open>QR\<close> after another, on four words.\<close>

definition quarter :: "u32 \<Rightarrow> u32 \<Rightarrow> u32 \<Rightarrow> u32 \<Rightarrow> u32 \<times> u32 \<times> u32 \<times> u32" where
  "quarter a b c d =
     (let a = a + b; d = d XOR a; d = ROTL32 d 16;
          c = c + d; b = b XOR c; b = ROTL32 b 12;
          a = a + b; d = d XOR a; d = ROTL32 d 8;
          c = c + d; b = b XOR c; b = ROTL32 b 7 in (a, b, c, d))"

definition QR :: "nat \<Rightarrow> nat \<Rightarrow> nat \<Rightarrow> nat \<Rightarrow> u32 list \<Rightarrow> u32 list" where
  "QR i j k l s =
     (let (a, b, c, d) = quarter (s ! i) (s ! j) (s ! k) (s ! l) in s[i := a, j := b, k := c, l := d])"

definition double_round :: "u32 list \<Rightarrow> u32 list" where
  "double_round s =
     (let s = QR 0 4 8 12 s; s = QR 1 5 9 13 s; s = QR 2 6 10 14 s; s = QR 3 7 11 15 s;
          s = QR 0 5 10 15 s; s = QR 1 6 11 12 s; s = QR 2 7 8 13 s in QR 3 4 9 14 s)"

definition chacha20_state :: "u32 list \<Rightarrow> u32 \<Rightarrow> u32 list \<Rightarrow> u32 list" where
  "chacha20_state key counter nonce =
     [0x61707865, 0x3320646e, 0x79622d32, 0x6b206574] @ map (nth key) [0..<8] @ [counter] @ map (nth nonce) [0..<3]"

definition chacha20_block :: "u32 list \<Rightarrow> u32 \<Rightarrow> u32 list \<Rightarrow> u32 list" where
  "chacha20_block key counter nonce =
     (let s = chacha20_state key counter nonce in map2 (+) ((double_round ^^ 10) s) s)"

text \<open>\<open>memcpy\<close> between bytes and words on the little-endian core.\<close>

definition words_of :: "byte list \<Rightarrow> nat \<Rightarrow> u32 list" where
  "words_of bs n = map (\<lambda>i. le32 (bs ! (4 * i)) (bs ! (4 * i + 1)) (bs ! (4 * i + 2)) (bs ! (4 * i + 3))) [0..<n]"

function chacha20_loop :: "byte list \<Rightarrow> u32 list \<Rightarrow> u32 \<Rightarrow> u32 list \<Rightarrow> byte list" where
  "chacha20_loop inp k counter n =
     (if inp = [] then []
      else map2 (XOR) (take 64 inp) (concat (map bytes32 (chacha20_block k counter n)))
           @ chacha20_loop (drop 64 inp) k (counter + 1) n)"
  by pat_completeness auto
termination
  by (relation "measure (\<lambda>(inp, k, counter, n). length inp)") auto

declare chacha20_loop.simps [simp del]

definition chacha20_encrypt :: "byte list \<Rightarrow> byte list \<Rightarrow> u32 \<Rightarrow> byte list \<Rightarrow> byte list" where
  "chacha20_encrypt inp key counter nonce = chacha20_loop inp (words_of key 8) counter (words_of nonce 3)"

subsection \<open>Lengths\<close>

lemma length_QR [simp]: "length (QR i j k l s) = length s"
  by (simp add: QR_def split: prod.split)

lemma length_double_round [simp]: "length (double_round s) = length s"
  by (simp add: double_round_def Let_def)

lemma length_rounds [simp]: "length ((double_round ^^ n) s) = length s"
  by (induction n) auto

lemma length_chacha20_block [simp]: "length (chacha20_block key counter nonce) = 16"
  by (simp add: chacha20_block_def chacha20_state_def Let_def)

lemma length_keystream [simp]: "length (concat (map bytes32 (chacha20_block key counter nonce))) = 64"
proof -
  have "length (concat (map bytes32 ws)) = 4 * length ws" for ws by (induction ws) auto
  then show ?thesis by simp
qed

lemma chacha20_loop_Nil [simp]: "chacha20_loop [] k counter n = []"
  by (simp add: chacha20_loop.simps)

lemma length_chacha20_loop [simp]: "length (chacha20_loop inp k counter n) = length inp"
proof (induction inp k counter n rule: chacha20_loop.induct)
  case (1 inp k counter n)
  then show ?case by (cases "inp = []") (simp_all add: chacha20_loop.simps [of inp] min_def)
qed

lemma length_chacha20_encrypt [simp]: "length (chacha20_encrypt inp key counter nonce) = length inp"
  by (simp add: chacha20_encrypt_def)

subsection \<open>Decryption\<close>

lemma map2_xor_twice: "length xs \<le> length ks \<Longrightarrow> map2 (XOR) (map2 (XOR) xs ks) ks = (xs :: byte list)"
proof (induction xs arbitrary: ks)
  case (Cons x xs)
  then obtain k ks' where "ks = k # ks'" by (cases ks) auto
  with Cons show ?case by (simp add: xor.assoc)
qed simp

lemma chacha20_loop_twice: "chacha20_loop (chacha20_loop inp k counter n) k counter n = inp"
proof (induction inp k counter n rule: chacha20_loop.induct)
  case (1 inp k counter n)
  show ?case
  proof (cases "inp = []")
    case True
    then show ?thesis by (simp add: chacha20_loop.simps [of inp])
  next
    case False
    let ?ks = "concat (map bytes32 (chacha20_block k counter n))"
    define out where "out = chacha20_loop inp k counter n"
    have out: "out = map2 (XOR) (take 64 inp) ?ks @ chacha20_loop (drop 64 inp) k (counter + 1) n"
      using False by (simp add: out_def chacha20_loop.simps [of inp])
    have len: "length (map2 (XOR) (take 64 inp) ?ks) = min 64 (length inp)" by simp
    have tk: "take 64 out = map2 (XOR) (take 64 inp) ?ks"
      by (cases "64 \<le> length inp") (simp_all add: out)
    have dr: "drop 64 out = chacha20_loop (drop 64 inp) k (counter + 1) n"
      by (cases "64 \<le> length inp") (simp_all add: out)
    have "out \<noteq> []" using False by (simp add: out_def flip: length_greater_0_conv)
    then have "chacha20_loop out k counter n = map2 (XOR) (take 64 out) ?ks @ chacha20_loop (drop 64 out) k (counter + 1) n"
      by (simp add: chacha20_loop.simps [of out])
    also have "\<dots> = take 64 inp @ drop 64 inp"
      unfolding tk dr 1 [OF False] by (subst map2_xor_twice) simp_all
    finally show ?thesis by (simp add: out_def)
  qed
qed

lemma chacha20_encrypt_twice:
  "chacha20_encrypt (chacha20_encrypt inp key counter nonce) key counter nonce = inp"
  by (simp add: chacha20_encrypt_def chacha20_loop_twice)

lemma quarter_rfc8439:
  "quarter 0x11111111 0x01020304 0x9b8d6f43 0x01234567 = (0xea2a92f4, 0xcb1cf8ce, 0x4581472e, 0x5881c4bb)"
  by (simp add: quarter_def ROTL32_def)

end
