(* ===== verification/PolySpec.thy ===== *)
theory PolySpec
  imports Poly1305
begin

text \<open>
  The limb arithmetic of \<open>crypto.c\<close> computes Poly1305: \<open>lval\<close> is the number that five limbs
  stand for, each routine is described by what it does to that number modulo \<open>2 ^ 130 - 5\<close>, and
  \<open>poly1305_spec\<close> is the definition of RFC 8439. The bounds on the limbs (\<open>h_ok\<close>, \<open>sum_ok\<close>,
  \<open>r_ok\<close>, \<open>reduced\<close>) are what rules out overflow.
\<close>

unbundle bit_operations_syntax

subsection \<open>Values and bounds\<close>


definition P1305 :: nat where "P1305 = 2 ^ 130 - 5"

definition lval :: "limbs \<Rightarrow> nat" where
  "lval h = unat (l0 h) + 2 ^ 26 * unat (l1 h) + 2 ^ 52 * unat (l2 h) + 2 ^ 78 * unat (l3 h) + 2 ^ 104 * unat (l4 h)"

definition h_ok :: "limbs \<Rightarrow> bool" where
  "h_ok h \<longleftrightarrow> unat (l0 h) < 2 ^ 26 \<and> unat (l1 h) < 2 ^ 26 + 64 \<and> unat (l2 h) < 2 ^ 26 \<and> unat (l3 h) < 2 ^ 26 \<and> unat (l4 h) < 2 ^ 26"

definition sum_ok :: "limbs \<Rightarrow> bool" where
  "sum_ok h \<longleftrightarrow> unat (l0 h) < 2 ^ 27 + 64 \<and> unat (l1 h) < 2 ^ 27 + 64 \<and> unat (l2 h) < 2 ^ 27 + 64 \<and> unat (l3 h) < 2 ^ 27 + 64 \<and> unat (l4 h) < 2 ^ 27 + 64"

definition r_ok :: "limbs \<Rightarrow> bool" where
  "r_ok r \<longleftrightarrow> unat (l0 r) < 2 ^ 26 \<and> unat (l1 r) < 2 ^ 26 \<and> unat (l2 r) < 2 ^ 26 \<and> unat (l3 r) < 2 ^ 26 \<and> unat (l4 r) < 2 ^ 26"

lemma unat_ucast_u64 [simp]: "unat (ucast (a :: u32) :: u64) = unat a"
proof -
  have "unat a < 2 ^ 32" using unsigned_less [of a] by simp
  then show ?thesis unfolding unsigned_ucast_eq take_bit_eq_mod by simp
qed

lemma unat_prod: "unat (ucast a * ucast b :: u64) = unat (a :: u32) * unat (b :: u32)"
proof -
  have "unat a < 2 ^ 32" "unat b < 2 ^ 32" using unsigned_less [of a] unsigned_less [of b] by simp_all
  then have "unat a * unat b < 2 ^ 32 * 2 ^ 32" by (intro mult_strict_mono) auto
  then show ?thesis by (simp add: unat_word_ariths unat_ucast_u64)
qed

lemma unat_sum5:
  fixes a b c d e :: u64
  assumes "unat a \<le> 2 ^ 60" "unat b \<le> 2 ^ 60" "unat c \<le> 2 ^ 60" "unat d \<le> 2 ^ 60" "unat e \<le> 2 ^ 60"
  shows "unat (a + b + c + d + e) = unat a + unat b + unat c + unat d + unat e"
proof -
  have "(unat a + unat b + unat c + unat d + unat e) mod 2 ^ 64 = unat a + unat b + unat c + unat d + unat e"
    using assms by simp
  then show ?thesis by (simp add: unat_word_ariths mod_simps)
qed

lemma unat_times5: "unat (a :: u32) < 2 ^ 26 \<Longrightarrow> unat (a * 5) = 5 * unat a"
  by (simp add: unat_word_ariths)

lemma unat_carry64: "unat d < 2 ^ 58 \<Longrightarrow> unat (carry64 d) = unat d div 2 ^ 26"
proof -
  assume "unat d < 2 ^ 58"
  then have "unat d div 2 ^ 26 < 2 ^ 32" by (simp add: less_mult_imp_div_less)
  then show ?thesis
    unfolding carry64_def unsigned_ucast_eq unat_drop_bit_eq drop_bit_eq_div take_bit_eq_mod by (simp add: unat_div)
qed

lemma and_mask26: "(w :: u32) AND 0x3ffffff = take_bit 26 w"
  by (simp add: take_bit_eq_mask mask_eq_exp_minus_1)

lemma unat_and26: "unat ((w :: u32) AND 0x3ffffff) = unat w mod 2 ^ 26"
  unfolding and_mask26 take_bit_eq_mod by (simp add: unat_mod)

lemma unat_low26: "unat (low26 d) = unat d mod 2 ^ 26"
  unfolding low26_def unat_and26 unsigned_ucast_eq take_bit_eq_mod by (simp add: mod_mod_cancel)

lemma unat_drop26: "unat (drop_bit 26 (w :: u32)) = unat w div 2 ^ 26"
  unfolding drop_bit_eq_div by (simp add: unat_div)

lemma prod_bound: "(a :: nat) < 2 ^ 27 + 64 \<Longrightarrow> b < 5 * 2 ^ 26 \<Longrightarrow> a * b \<le> (2 ^ 27 + 64) * (5 * 2 ^ 26)"
  by (intro mult_le_mono) auto

text \<open>The sums on natural numbers.\<close>

definition nat_products :: "limbs \<Rightarrow> limbs \<Rightarrow> nat \<times> nat \<times> nat \<times> nat \<times> nat" where
  "nat_products h r =
     (let r0 = unat (l0 r); r1 = unat (l1 r); r2 = unat (l2 r); r3 = unat (l3 r); r4 = unat (l4 r);
          h0 = unat (l0 h); h1 = unat (l1 h); h2 = unat (l2 h); h3 = unat (l3 h); h4 = unat (l4 h) in
      (h0 * r0 + h1 * (5 * r4) + h2 * (5 * r3) + h3 * (5 * r2) + h4 * (5 * r1),
       h0 * r1 + h1 * r0 + h2 * (5 * r4) + h3 * (5 * r3) + h4 * (5 * r2),
       h0 * r2 + h1 * r1 + h2 * r0 + h3 * (5 * r4) + h4 * (5 * r3),
       h0 * r3 + h1 * r2 + h2 * r1 + h3 * r0 + h4 * (5 * r4),
       h0 * r4 + h1 * r3 + h2 * r2 + h3 * r1 + h4 * r0))"

fun unat5 :: "u64 \<times> u64 \<times> u64 \<times> u64 \<times> u64 \<Rightarrow> nat \<times> nat \<times> nat \<times> nat \<times> nat" where
  "unat5 (a, b, c, d, e) = (unat a, unat b, unat c, unat d, unat e)"

lemma sum5_products:
  fixes a0 a1 a2 a3 a4 b0 b1 b2 b3 b4 :: u32
  assumes "unat a0 < 2 ^ 27 + 64" "unat a1 < 2 ^ 27 + 64" "unat a2 < 2 ^ 27 + 64" "unat a3 < 2 ^ 27 + 64" "unat a4 < 2 ^ 27 + 64"
    and "unat b0 < 5 * 2 ^ 26" "unat b1 < 5 * 2 ^ 26" "unat b2 < 5 * 2 ^ 26" "unat b3 < 5 * 2 ^ 26" "unat b4 < 5 * 2 ^ 26"
  shows "unat (ucast a0 * ucast b0 + ucast a1 * ucast b1 + ucast a2 * ucast b2 + ucast a3 * ucast b3 + ucast a4 * ucast b4 :: u64)
    = unat a0 * unat b0 + unat a1 * unat b1 + unat a2 * unat b2 + unat a3 * unat b3 + unat a4 * unat b4"
  using prod_bound [OF assms(1,6)] prod_bound [OF assms(2,7)] prod_bound [OF assms(3,8)]
    prod_bound [OF assms(4,9)] prod_bound [OF assms(5,10)]
  by (subst unat_sum5) (simp_all add: unat_prod)

lemma products_unat:
  assumes "sum_ok h" "r_ok r"
  shows "unat5 (products h r) = nat_products h r"
proof -
  note a = assms [unfolded sum_ok_def r_ok_def]
  have r5: "unat (l1 r * 5) = 5 * unat (l1 r)" "unat (l2 r * 5) = 5 * unat (l2 r)" "unat (l3 r * 5) = 5 * unat (l3 r)"
    "unat (l4 r * 5) = 5 * unat (l4 r)" using a by (simp_all add: unat_times5)
  show ?thesis
    unfolding products_def nat_products_def Let_def unat5.simps prod.inject
    using a by (intro conjI) (subst sum5_products; simp add: r5)+
qed

lemma small_products:
  assumes "sum_ok h" "r_ok r"
  shows "case nat_products h r of (d0, d1, d2, d3, d4) \<Rightarrow>
    d0 \<le> 22 * 2 ^ 53 \<and> d1 \<le> 22 * 2 ^ 53 \<and> d2 \<le> 22 * 2 ^ 53 \<and> d3 \<le> 22 * 2 ^ 53 \<and> d4 \<le> 5 * 2 ^ 53 + 2 ^ 40"
proof -
  have p: "a < 2 ^ 27 + 64 \<Longrightarrow> b < 2 ^ 26 \<Longrightarrow> a * b \<le> (2 ^ 27 + 64) * 2 ^ 26" for a b :: nat
    by (intro mult_le_mono) auto
  note a = assms [unfolded sum_ok_def r_ok_def]
  note bounds = p [of "unat (l0 h)" "unat (l0 r)"]
    p [of "unat (l0 h)" "unat (l1 r)"]
    p [of "unat (l0 h)" "unat (l2 r)"]
    p [of "unat (l0 h)" "unat (l3 r)"]
    p [of "unat (l0 h)" "unat (l4 r)"]
    p [of "unat (l1 h)" "unat (l0 r)"]
    p [of "unat (l1 h)" "unat (l1 r)"]
    p [of "unat (l1 h)" "unat (l2 r)"]
    p [of "unat (l1 h)" "unat (l3 r)"]
    p [of "unat (l1 h)" "unat (l4 r)"]
    p [of "unat (l2 h)" "unat (l0 r)"]
    p [of "unat (l2 h)" "unat (l1 r)"]
    p [of "unat (l2 h)" "unat (l2 r)"]
    p [of "unat (l2 h)" "unat (l3 r)"]
    p [of "unat (l2 h)" "unat (l4 r)"]
    p [of "unat (l3 h)" "unat (l0 r)"]
    p [of "unat (l3 h)" "unat (l1 r)"]
    p [of "unat (l3 h)" "unat (l2 r)"]
    p [of "unat (l3 h)" "unat (l3 r)"]
    p [of "unat (l3 h)" "unat (l4 r)"]
    p [of "unat (l4 h)" "unat (l0 r)"]
    p [of "unat (l4 h)" "unat (l1 r)"]
    p [of "unat (l4 h)" "unat (l2 r)"]
    p [of "unat (l4 h)" "unat (l3 r)"]
    p [of "unat (l4 h)" "unat (l4 r)"]
  show ?thesis
    unfolding nat_products_def Let_def prod.case mult.left_commute [of _ 5]
    using bounds a by (intro conjI) simp_all
qed

lemma add_carry64: "unat (d :: u64) \<le> 2 ^ 62 \<Longrightarrow> unat (d + ucast (c :: u32)) = unat d + unat c"
proof -
  assume d: "unat d \<le> 2 ^ 62"
  have "unat c < 2 ^ 32" using unsigned_less [of c] by simp
  with d have "unat d + unat c < 2 ^ 64" by simp
  then show ?thesis by (simp add: unat_word_ariths)
qed

lemma value_mod_P: "a + 2 ^ 130 * c = b \<Longrightarrow> (a + 5 * c) mod P1305 = b mod P1305"
proof -
  assume b: "a + 2 ^ 130 * c = b"
  have "b = (a + 5 * c) + c * P1305" unfolding b [symmetric] by (simp add: P1305_def)
  then show ?thesis by simp
qed

lemma telescope:
  fixes d0 d1 d2 d3 d4 m0 m1 m2 m3 m4 q0 q1 q2 q3 q4 :: nat
  assumes "m0 + 2 ^ 26 * q0 = d0" "m1 + 2 ^ 26 * q1 = d1 + q0" "m2 + 2 ^ 26 * q2 = d2 + q1" "m3 + 2 ^ 26 * q3 = d3 + q2"
    "m4 + 2 ^ 26 * q4 = d4 + q3"
  shows "m0 + 2 ^ 26 * m1 + 2 ^ 52 * m2 + 2 ^ 78 * m3 + 2 ^ 104 * m4 + 2 ^ 130 * q4
    = d0 + 2 ^ 26 * d1 + 2 ^ 52 * d2 + 2 ^ 78 * d3 + 2 ^ 104 * d4"
  using assms by simp

lemma carry_products_spec:
  assumes d: "unat d0 \<le> 22 * 2 ^ 53" "unat d1 \<le> 22 * 2 ^ 53" "unat d2 \<le> 22 * 2 ^ 53" "unat d3 \<le> 22 * 2 ^ 53" "unat d4 \<le> 5 * 2 ^ 53 + 2 ^ 40"
  defines "h \<equiv> carry_products (d0, d1, d2, d3, d4)"
  shows "h_ok h" and "lval h mod P1305 = (unat d0 + 2 ^ 26 * unat d1 + 2 ^ 52 * unat d2 + 2 ^ 78 * unat d3 + 2 ^ 104 * unat d4) mod P1305"
proof -
  define c0 where "c0 = carry64 d0"
  have c0: "unat c0 = unat d0 div 2 ^ 26" unfolding c0_def using d by (intro unat_carry64) simp
  define e1 where "e1 = d1 + ucast c0"
  have e1: "unat e1 = unat d1 + unat d0 div 2 ^ 26" unfolding e1_def c0 [symmetric] using d by (intro add_carry64) simp
  have b1: "unat e1 \<le> 23 * 2 ^ 53" using d e1 by simp
  define c1 where "c1 = carry64 e1"
  have c1: "unat c1 = unat e1 div 2 ^ 26" unfolding c1_def using b1 by (intro unat_carry64) simp
  define e2 where "e2 = d2 + ucast c1"
  have e2: "unat e2 = unat d2 + unat e1 div 2 ^ 26" unfolding e2_def c1 [symmetric] using d by (intro add_carry64) simp
  have b2: "unat e2 \<le> 23 * 2 ^ 53" using d b1 e2 by simp
  define c2 where "c2 = carry64 e2"
  have c2: "unat c2 = unat e2 div 2 ^ 26" unfolding c2_def using b2 by (intro unat_carry64) simp
  define e3 where "e3 = d3 + ucast c2"
  have e3: "unat e3 = unat d3 + unat e2 div 2 ^ 26" unfolding e3_def c2 [symmetric] using d by (intro add_carry64) simp
  have b3: "unat e3 \<le> 23 * 2 ^ 53" using d b2 e3 by simp
  define c3 where "c3 = carry64 e3"
  have c3: "unat c3 = unat e3 div 2 ^ 26" unfolding c3_def using b3 by (intro unat_carry64) simp
  define e4 where "e4 = d4 + ucast c3"
  have e4: "unat e4 = unat d4 + unat e3 div 2 ^ 26" unfolding e4_def c3 [symmetric] using d by (intro add_carry64) simp
  have b4: "unat e4 \<le> 6 * 2 ^ 53" using d b3 e4 by simp
  define c4 where "c4 = carry64 e4"
  have c4: "unat c4 = unat e4 div 2 ^ 26" unfolding c4_def using b4 by (intro unat_carry64) simp
  have c4b: "unat c4 * 5 \<le> 2 ^ 32 - 2 ^ 27" unfolding c4 using b4 by simp
  define g0 where "g0 = low26 d0 + c4 * 5"
  have g0: "unat g0 = unat d0 mod 2 ^ 26 + 5 * unat c4"
  proof -
    have "unat (low26 d0) + unat c4 * 5 < 2 ^ 32" using c4b by (simp add: unat_low26)
    then show ?thesis by (simp add: g0_def unat_word_ariths unat_low26 mod_simps)
  qed
  define g1 where "g1 = low26 e1 + drop_bit 26 g0"
  have g1: "unat g1 = unat e1 mod 2 ^ 26 + unat g0 div 2 ^ 26"
  proof -
    have "unat g0 < 2 ^ 32" using unsigned_less [of g0] by simp
    then have "unat g0 div 2 ^ 26 < 64" by simp
    then have "unat (low26 e1) + unat (drop_bit 26 g0) < 2 ^ 32" by (simp add: unat_low26 unat_drop26)
    then show ?thesis by (simp add: g1_def unat_word_ariths unat_low26 unat_drop26 mod_simps)
  qed
  have h: "h = \<lparr>l0 = g0 AND 0x3ffffff, l1 = g1, l2 = low26 e2, l3 = low26 e3, l4 = low26 e4\<rparr>"
    by (simp add: h_def carry_products_def Let_def c0_def e1_def c1_def e2_def c2_def e3_def c3_def e4_def c4_def g0_def g1_def)
  have "unat g0 < 2 ^ 32" using unsigned_less [of g0] by simp
  then show "h_ok h" by (simp add: h_ok_def h unat_and26 unat_low26 g1)
  have "lval h = unat d0 mod 2 ^ 26 + 5 * unat c4 + 2 ^ 26 * (unat e1 mod 2 ^ 26) + 2 ^ 52 * (unat e2 mod 2 ^ 26)
      + 2 ^ 78 * (unat e3 mod 2 ^ 26) + 2 ^ 104 * (unat e4 mod 2 ^ 26)"
    using mod_mult_div_eq [of "unat g0" "2 ^ 26"]
    by (simp add: lval_def h unat_and26 unat_low26 g1 g0)
  moreover have "unat d0 mod 2 ^ 26 + 2 ^ 26 * (unat e1 mod 2 ^ 26) + 2 ^ 52 * (unat e2 mod 2 ^ 26)
      + 2 ^ 78 * (unat e3 mod 2 ^ 26) + 2 ^ 104 * (unat e4 mod 2 ^ 26) + 2 ^ 130 * unat c4
    = unat d0 + 2 ^ 26 * unat d1 + 2 ^ 52 * unat d2 + 2 ^ 78 * unat d3 + 2 ^ 104 * unat d4"
    unfolding c4
    by (rule telescope [where ?q0.0 = "unat d0 div 2 ^ 26" and ?q1.0 = "unat e1 div 2 ^ 26" and ?q2.0 = "unat e2 div 2 ^ 26"
          and ?q3.0 = "unat e3 div 2 ^ 26"])
      (simp_all only: mod_mult_div_eq e1 [symmetric] e2 [symmetric] e3 [symmetric] e4 [symmetric])
  ultimately show "lval h mod P1305 = (unat d0 + 2 ^ 26 * unat d1 + 2 ^ 52 * unat d2 + 2 ^ 78 * unat d3 + 2 ^ 104 * unat d4) mod P1305"
    using value_mod_P [of "unat d0 mod 2 ^ 26 + 2 ^ 26 * (unat e1 mod 2 ^ 26) + 2 ^ 52 * (unat e2 mod 2 ^ 26)
      + 2 ^ 78 * (unat e3 mod 2 ^ 26) + 2 ^ 104 * (unat e4 mod 2 ^ 26)" "unat c4"] by (simp add: ac_simps)
qed

lemma product_value:
  "lval h * lval r mod P1305 = (case nat_products h r of (d0, d1, d2, d3, d4) \<Rightarrow>
     d0 + 2 ^ 26 * d1 + 2 ^ 52 * d2 + 2 ^ 78 * d3 + 2 ^ 104 * d4) mod P1305"
proof -
  let ?h0 = "unat (l0 h)" and ?h1 = "unat (l1 h)" and ?h2 = "unat (l2 h)" and ?h3 = "unat (l3 h)" and ?h4 = "unat (l4 h)"
  let ?r0 = "unat (l0 r)" and ?r1 = "unat (l1 r)" and ?r2 = "unat (l2 r)" and ?r3 = "unat (l3 r)" and ?r4 = "unat (l4 r)"
  define k where "k = ?h1 * ?r4 + ?h2 * ?r3 + ?h3 * ?r2 + ?h4 * ?r1 + 2 ^ 26 * (?h2 * ?r4 + ?h3 * ?r3 + ?h4 * ?r2)
    + 2 ^ 52 * (?h3 * ?r4 + ?h4 * ?r3) + 2 ^ 78 * (?h4 * ?r4)"
  define l where "l = ?h0 * ?r0 + 2 ^ 26 * (?h0 * ?r1 + ?h1 * ?r0) + 2 ^ 52 * (?h0 * ?r2 + ?h1 * ?r1 + ?h2 * ?r0)
    + 2 ^ 78 * (?h0 * ?r3 + ?h1 * ?r2 + ?h2 * ?r1 + ?h3 * ?r0)
    + 2 ^ 104 * (?h0 * ?r4 + ?h1 * ?r3 + ?h2 * ?r2 + ?h3 * ?r1 + ?h4 * ?r0)"
  have "l + 2 ^ 130 * k = lval h * lval r"
    by (simp add: lval_def l_def k_def algebra_simps)
  moreover have "(case nat_products h r of (d0, d1, d2, d3, d4) \<Rightarrow>
     d0 + 2 ^ 26 * d1 + 2 ^ 52 * d2 + 2 ^ 78 * d3 + 2 ^ 104 * d4) = l + 5 * k"
    by (simp add: nat_products_def Let_def l_def k_def algebra_simps)
  ultimately show ?thesis using value_mod_P [of l k] by simp
qed

subsection \<open>Splitting words into limbs\<close>

lemma or_add_nat: "(a :: nat) < 2 ^ n \<Longrightarrow> a OR push_bit n b = a + 2 ^ n * b"
proof -
  assume a: "a < 2 ^ n"
  have "a AND push_bit n b = 0"
  proof (rule bit_eqI)
    fix m
    have "bit a m \<Longrightarrow> m < n" using a by (metis bit_take_bit_iff take_bit_nat_eq_self)
    then show "bit (a AND push_bit n b) m = bit (0 :: nat) m" by (auto simp: bit_simps)
  qed
  from disjunctive_add_eq_or [OF this] show ?thesis by (simp add: push_bit_eq_mult ac_simps)
qed

lemma unat_or_push:
  fixes a b :: u32
  assumes "unat a < 2 ^ n" "2 ^ n * unat b < 2 ^ 32"
  shows "unat (a OR push_bit n b) = unat a + 2 ^ n * unat b"
proof -
  have "unat (push_bit n b) = push_bit n (unat b)"
    unfolding unsigned_push_bit_eq using assms(2) by (intro take_bit_nat_eq_self) (simp add: push_bit_eq_mult mult.commute)
  with or_add_nat [OF assms(1), of "unat b"] show ?thesis by (simp add: unsigned_or_eq)
qed

lemma split_word:
  fixes t u :: u32
  assumes "6 \<le> k" "k \<le> 32"
  shows "unat ((drop_bit k t OR push_bit (32 - k) u) AND 0x3ffffff)
    = unat t div 2 ^ k + 2 ^ (32 - k) * (unat u mod 2 ^ (k - 6))"
proof -
  have "(drop_bit k t OR push_bit (32 - k) u) AND 0x3ffffff = drop_bit k t OR push_bit (32 - k) (take_bit (k - 6) u)"
  proof (rule bit_word_eqI)
    fix n
    assume n: "n < LENGTH(32)"
    have t: "bit t (k + n) \<Longrightarrow> n < 26" using assms by (auto dest!: bit_imp_le_length)
    show "bit ((drop_bit k t OR push_bit (32 - k) u) AND 0x3ffffff) n
        = bit (drop_bit k t OR push_bit (32 - k) (take_bit (k - 6) u)) n"
    proof (cases "n < 26")
      case True
      then have "32 - k \<le> n \<Longrightarrow> n - (32 - k) < k - 6" using assms by arith
      with True n show ?thesis unfolding and_mask26 by (auto simp: bit_simps)
    next
      case False
      then have "\<not> n - (32 - k) < k - 6" using assms by arith
      with False n t show ?thesis unfolding and_mask26 by (auto simp: bit_simps)
    qed
  qed
  moreover have "unat (drop_bit k t) = unat t div 2 ^ k"
    by (subst unat_drop_bit_eq) (rule drop_bit_eq_div)
  moreover have "unat (take_bit (k - 6) u) = unat u mod 2 ^ (k - 6)"
    by (subst unsigned_take_bit_eq) (rule take_bit_eq_mod)
  moreover have "unat t div 2 ^ k < 2 ^ (32 - k)"
  proof -
    have "unat t < 2 ^ 32" using unsigned_less [of t] by simp
    also have "(2 :: nat) ^ 32 = 2 ^ (32 - k) * 2 ^ k" using assms(2) by (simp flip: power_add)
    finally show ?thesis by (rule less_mult_imp_div_less)
  qed
  moreover have "2 ^ (32 - k) * (unat u mod 2 ^ (k - 6)) < 2 ^ 32"
  proof -
    have "unat u mod 2 ^ (k - 6) < 2 ^ (k - 6)" by simp
    then have "2 ^ (32 - k) * (unat u mod 2 ^ (k - 6)) < 2 ^ (32 - k) * 2 ^ (k - 6)" by simp
    also have "\<dots> = 2 ^ 26" using assms by (simp flip: power_add)
    finally show ?thesis by simp
  qed
  ultimately show ?thesis using unat_or_push [of "drop_bit k t" "32 - k" "take_bit (k - 6) u"] by simp
qed

lemma unat_byte_less: "unat (b :: byte) < 256"
proof -
  have "unat b < 2 ^ LENGTH(8)" by (rule unsigned_less)
  then show ?thesis by simp
qed

lemma unat_ucast_byte: "unat (ucast (b :: byte) :: u32) = unat b"
  unfolding unsigned_ucast_eq using unat_byte_less [of b] by (intro take_bit_nat_eq_self) simp

lemma split_top: "unat (drop_bit 8 (t :: u32) OR push_bit 24 (ucast (b :: byte))) = unat t div 2 ^ 8 + 2 ^ 24 * unat b"
proof -
  note b = unat_ucast_byte [of b] unat_byte_less [of b]
  have "unat (drop_bit 8 t) = unat t div 2 ^ 8" by (subst unat_drop_bit_eq) (rule drop_bit_eq_div)
  moreover have "unat t < 2 ^ 32" using unsigned_less [of t] by simp
  ultimately show ?thesis using unat_or_push [of "drop_bit 8 t" 24 "ucast b"] b by simp
qed

lemma unat_le32: "unat (le32 b0 b1 b2 b3) = unat b0 + 2 ^ 8 * unat b1 + 2 ^ 16 * unat b2 + 2 ^ 24 * unat b3"
proof -
  note b = unat_ucast_byte unat_byte_less
  have 1: "unat (ucast b0 OR push_bit 8 (ucast b1) :: u32) = unat b0 + 2 ^ 8 * unat b1"
    using unat_or_push [of "ucast b0" 8 "ucast b1"] b(2) [of b0] b(2) [of b1] by (simp add: b(1))
  have 2: "unat (ucast b0 OR push_bit 8 (ucast b1) OR push_bit 16 (ucast b2) :: u32) = unat b0 + 2 ^ 8 * unat b1 + 2 ^ 16 * unat b2"
    using unat_or_push [of "(ucast b0 OR push_bit 8 (ucast b1))" 16 "ucast b2"] b(2) [of b0] b(2) [of b1] b(2) [of b2]
    by (simp add: b(1) 1 or.assoc)
  show ?thesis
    using unat_or_push [of "ucast b0 OR push_bit 8 (ucast b1) OR push_bit 16 (ucast b2)" 24 "ucast b3"]
      b(2) [of b0] b(2) [of b1] b(2) [of b2] b(2) [of b3]
    by (simp add: le32_def b(1) 2 or.assoc)
qed

fun le_num :: "byte list \<Rightarrow> nat" where
  "le_num [] = 0"
| "le_num (b # bs) = unat b + 256 * le_num bs"

lemma list_16: "length m = 16 \<Longrightarrow> \<exists>a b c d e f g h i j k l x n p q. m = [a, b, c, d, e, f, g, h, i, j, k, l, x, n, p, q]"
  by (auto simp: numeral_eq_Suc length_Suc_conv)

lemma le_num_words:
  assumes "length m = 16"
  shows "le_num m = unat (ld_at m 0) + 2 ^ 32 * unat (ld_at m 4) + 2 ^ 64 * unat (ld_at m 8) + 2 ^ 96 * unat (ld_at m 12)"
proof -
  from list_16 [OF assms] obtain a b c d e f g h i j k l x n p q where
    m: "m = [a, b, c, d, e, f, g, h, i, j, k, l, x, n, p, q]" by blast
  have ld: "ld_at m 0 = le32 a b c d" "ld_at m 4 = le32 e f g h" "ld_at m 8 = le32 i j k l" "ld_at m 12 = le32 x n p q"
    by (simp_all add: m ld_at_def)
  show ?thesis unfolding ld unat_le32 by (simp add: m algebra_simps)
qed

lemma limb_telescope:
  fixes t0 t1 t2 t3 a0 a1 a2 a3 b0 b1 b2 b3 :: nat
  assumes "a0 + 2 ^ 26 * b0 = t0" "a1 + 2 ^ 20 * b1 = t1" "a2 + 2 ^ 14 * b2 = t2" "a3 + 2 ^ 8 * b3 = t3"
  shows "a0 + 2 ^ 26 * (b0 + 2 ^ 6 * a1) + 2 ^ 52 * (b1 + 2 ^ 12 * a2) + 2 ^ 78 * (b2 + 2 ^ 18 * a3) + 2 ^ 104 * b3
    = t0 + 2 ^ 32 * t1 + 2 ^ 64 * t2 + 2 ^ 96 * t3"
  using assms by simp

lemma add_block_spec:
  assumes h: "h_ok h" and m: "length m = 16" and hb: "unat hibit \<le> 1"
  shows "sum_ok (add_block h m hibit)" and "lval (add_block h m hibit) = lval h + le_num m + 2 ^ 128 * unat hibit"
proof -
  let ?t0 = "ld_at m 0" and ?t1 = "ld_at m 4" and ?t2 = "ld_at m 8" and ?t3 = "ld_at m 12"
  have t: "unat t < 2 ^ 32" for t :: u32 using unsigned_less [of t] by simp
  define x0 where "x0 = ?t0 AND 0x3ffffff"
  define x1 where "x1 = (drop_bit 26 ?t0 OR push_bit 6 ?t1) AND 0x3ffffff"
  define x2 where "x2 = (drop_bit 20 ?t1 OR push_bit 12 ?t2) AND 0x3ffffff"
  define x3 where "x3 = (drop_bit 14 ?t2 OR push_bit 18 ?t3) AND 0x3ffffff"
  define x4 where "x4 = drop_bit 8 ?t3 OR push_bit 24 (ucast hibit)"
  have x: "unat x0 = unat ?t0 mod 2 ^ 26" "unat x1 = unat ?t0 div 2 ^ 26 + 2 ^ 6 * (unat ?t1 mod 2 ^ 20)"
    "unat x2 = unat ?t1 div 2 ^ 20 + 2 ^ 12 * (unat ?t2 mod 2 ^ 14)"
    "unat x3 = unat ?t2 div 2 ^ 14 + 2 ^ 18 * (unat ?t3 mod 2 ^ 8)" "unat x4 = unat ?t3 div 2 ^ 8 + 2 ^ 24 * unat hibit"
    using split_word [of 26 ?t0 ?t1] split_word [of 20 ?t1 ?t2] split_word [of 14 ?t2 ?t3]
    by (simp_all add: x0_def x1_def x2_def x3_def x4_def split_top unat_and26 [of ?t0, simplified])
  have b1: "unat x1 < 2 ^ 26" "unat x2 < 2 ^ 26" "unat x3 < 2 ^ 26"
    unfolding x1_def x2_def x3_def unat_and26 by simp_all
  have b: "unat x0 < 2 ^ 26" "unat x4 \<le> 2 ^ 26" using x(1,5) t [of ?t3] hb by simp_all
  have ab: "add_block h m hibit = \<lparr>l0 = l0 h + x0, l1 = l1 h + x1, l2 = l2 h + x2, l3 = l3 h + x3, l4 = l4 h + x4\<rparr>"
    by (simp add: add_block_def Let_def x0_def x1_def x2_def x3_def x4_def)
  have s: "unat (l0 h + x0) = unat (l0 h) + unat x0" "unat (l1 h + x1) = unat (l1 h) + unat x1"
    "unat (l2 h + x2) = unat (l2 h) + unat x2" "unat (l3 h + x3) = unat (l3 h) + unat x3" "unat (l4 h + x4) = unat (l4 h) + unat x4"
    using h b b1 by (simp_all add: h_ok_def unat_word_ariths)
  show "sum_ok (add_block h m hibit)" using h b b1 by (simp add: sum_ok_def h_ok_def ab s)
  have "unat x0 + 2 ^ 26 * unat x1 + 2 ^ 52 * unat x2 + 2 ^ 78 * unat x3 + 2 ^ 104 * unat x4 = le_num m + 2 ^ 128 * unat hibit"
    unfolding x le_num_words [OF m]
    using limb_telescope [OF mod_mult_div_eq mod_mult_div_eq mod_mult_div_eq mod_mult_div_eq,
        of "unat ?t0" "unat ?t1" "unat ?t2" "unat ?t3"]
    by (simp add: algebra_simps)
  then show "lval (add_block h m hibit) = lval h + le_num m + 2 ^ 128 * unat hibit"
    by (simp add: lval_def ab s distrib_left)
qed

subsection \<open>The final reduction\<close>

definition reduced :: "limbs \<Rightarrow> bool" where
  "reduced h \<longleftrightarrow> unat (l0 h) < 2 ^ 26 \<and> unat (l1 h) < 2 ^ 26 \<and> unat (l2 h) < 2 ^ 26 \<and> unat (l3 h) < 2 ^ 26 \<and> unat (l4 h) < 2 ^ 26"

lemma add32: "unat (a :: u32) + unat b < 2 ^ 32 \<Longrightarrow> unat (a + b) = unat a + unat b"
  by (simp add: unat_word_ariths)

text \<open>A carry out of limb 0 can only happen when limb 1 has just been emptied.\<close>

lemma carry_out_bound:
  fixes x0 x1 x2 x3 x4 :: nat
  assumes "x0 < 2 ^ 26" "x1 < 2 ^ 26 + 64" "x2 < 2 ^ 26" "x3 < 2 ^ 26" "x4 < 2 ^ 26"
  shows "x1 mod 2 ^ 26 + (x0 + 5 * ((x4 + (x3 + (x2 + x1 div 2 ^ 26) div 2 ^ 26) div 2 ^ 26) div 2 ^ 26)) div 2 ^ 26 < 2 ^ 26"
proof (cases "x1 < 2 ^ 26")
  case True
  with assms show ?thesis by simp
next
  case False
  with assms(2) have 1: "x1 mod 2 ^ 26 < 64" "x1 div 2 ^ 26 = 1"
    by (auto simp: mod_if div_if)
  have "(x2 + 1) div 2 ^ 26 \<le> 1" using assms(3) by simp
  then have "(x3 + (x2 + 1) div 2 ^ 26) div 2 ^ 26 \<le> 1" using assms(4) by simp
  then have "(x4 + (x3 + (x2 + 1) div 2 ^ 26) div 2 ^ 26) div 2 ^ 26 \<le> 1" using assms(5) by simp
  then have "(x0 + 5 * ((x4 + (x3 + (x2 + 1) div 2 ^ 26) div 2 ^ 26) div 2 ^ 26)) div 2 ^ 26 \<le> 1" using assms(1) by simp
  with 1 show ?thesis by simp
qed

lemma full_carry_spec:
  assumes "h_ok h"
  shows "reduced (full_carry h)" and "lval (full_carry h) mod P1305 = lval h mod P1305"
proof -
  let ?x0 = "unat (l0 h)" and ?x1 = "unat (l1 h)" and ?x2 = "unat (l2 h)" and ?x3 = "unat (l3 h)" and ?x4 = "unat (l4 h)"
  have x: "?x0 < 2 ^ 26" "?x1 < 2 ^ 26 + 64" "?x2 < 2 ^ 26" "?x3 < 2 ^ 26" "?x4 < 2 ^ 26"
    using assms by (simp_all add: h_ok_def)
  define e2 where "e2 = l2 h + drop_bit 26 (l1 h)"
  have e2: "unat e2 = ?x2 + ?x1 div 2 ^ 26" unfolding e2_def using x by (subst add32) (simp_all add: unat_drop26)
  define e3 where "e3 = l3 h + drop_bit 26 e2"
  have e3: "unat e3 = ?x3 + unat e2 div 2 ^ 26" unfolding e3_def using x e2 by (subst add32) (simp_all add: unat_drop26)
  have b3: "unat e3 \<le> 2 ^ 26" using x e2 e3 by simp
  define e4 where "e4 = l4 h + drop_bit 26 e3"
  have e4: "unat e4 = ?x4 + unat e3 div 2 ^ 26" unfolding e4_def using x b3 by (subst add32) (simp_all add: unat_drop26)
  have b4: "unat e4 \<le> 2 ^ 26" using x b3 e4 by simp
  have c4: "unat (drop_bit 26 e4 * 5) = 5 * (unat e4 div 2 ^ 26)" using b4
    by (subst unat_times5) (simp_all add: unat_drop26)
  define g0 where "g0 = l0 h + drop_bit 26 e4 * 5"
  have g0: "unat g0 = ?x0 + 5 * (unat e4 div 2 ^ 26)" unfolding g0_def using x b4 c4 by (subst add32) simp_all
  define g1 where "g1 = (l1 h AND 0x3ffffff) + drop_bit 26 g0"
  have cb: "?x1 mod 2 ^ 26 + unat g0 div 2 ^ 26 < 2 ^ 26"
    using carry_out_bound [OF x] by (simp only: g0 e4 e3 e2)
  have g1: "unat g1 = ?x1 mod 2 ^ 26 + unat g0 div 2 ^ 26"
    unfolding g1_def using cb by (subst add32) (simp_all add: unat_drop26 unat_and26 [simplified])
  have h: "full_carry h = \<lparr>l0 = g0 AND 0x3ffffff, l1 = g1, l2 = e2 AND 0x3ffffff, l3 = e3 AND 0x3ffffff, l4 = e4 AND 0x3ffffff\<rparr>"
    by (simp add: full_carry_def Let_def e2_def e3_def e4_def g0_def g1_def)
  show "reduced (full_carry h)" using cb by (simp add: reduced_def h unat_and26 g1)
  have "lval (full_carry h) = ?x0 + 2 ^ 26 * (?x1 mod 2 ^ 26) + 2 ^ 52 * (unat e2 mod 2 ^ 26) + 2 ^ 78 * (unat e3 mod 2 ^ 26)
      + 2 ^ 104 * (unat e4 mod 2 ^ 26) + 5 * (unat e4 div 2 ^ 26)"
    unfolding lval_def h limbs.simps unat_and26 g1
    using mod_mult_div_eq [of "unat g0" "2 ^ 26"] g0 by (simp add: distrib_left)
  moreover have "?x0 + 2 ^ 26 * (?x1 mod 2 ^ 26) + 2 ^ 52 * (unat e2 mod 2 ^ 26) + 2 ^ 78 * (unat e3 mod 2 ^ 26)
      + 2 ^ 104 * (unat e4 mod 2 ^ 26) + 2 ^ 130 * (unat e4 div 2 ^ 26) = lval h"
    unfolding lval_def
    by (rule telescope [where ?q0.0 = 0 and ?q1.0 = "?x1 div 2 ^ 26" and ?q2.0 = "unat e2 div 2 ^ 26" and ?q3.0 = "unat e3 div 2 ^ 26"])
      (simp_all only: mod_mult_div_eq e2 [symmetric] e3 [symmetric] e4 [symmetric] mult_0_right add_0_right)
  ultimately show "lval (full_carry h) mod P1305 = lval h mod P1305"
    using value_mod_P [of "?x0 + 2 ^ 26 * (?x1 mod 2 ^ 26) + 2 ^ 52 * (unat e2 mod 2 ^ 26) + 2 ^ 78 * (unat e3 mod 2 ^ 26)
      + 2 ^ 104 * (unat e4 mod 2 ^ 26)" "unat e4 div 2 ^ 26"] by (simp add: ac_simps)
qed

lemma plus5_sum:
  fixes e0 e1 e2 e3 e4 m0 m1 m2 m3 q0 q1 q2 q3 x0 x1 x2 x3 x4 :: nat
  assumes "m0 + 2 ^ 26 * q0 = e0" "m1 + 2 ^ 26 * q1 = e1" "m2 + 2 ^ 26 * q2 = e2" "m3 + 2 ^ 26 * q3 = e3"
    and "e0 = x0 + 5" "e1 = x1 + q0" "e2 = x2 + q1" "e3 = x3 + q2" "e4 = x4 + q3"
  shows "m0 + 2 ^ 26 * m1 + 2 ^ 52 * m2 + 2 ^ 78 * m3 + 2 ^ 104 * e4
    = x0 + 2 ^ 26 * x1 + 2 ^ 52 * x2 + 2 ^ 78 * x3 + 2 ^ 104 * x4 + 5"
  using assms by simp

lemma plus5_select:
  assumes "reduced h"
  shows "reduced (select_limbs h (plus5 h))" and "lval (select_limbs h (plus5 h)) = lval h mod P1305"
proof -
  let ?x0 = "unat (l0 h)" and ?x1 = "unat (l1 h)" and ?x2 = "unat (l2 h)" and ?x3 = "unat (l3 h)" and ?x4 = "unat (l4 h)"
  have x: "?x0 < 2 ^ 26" "?x1 < 2 ^ 26" "?x2 < 2 ^ 26" "?x3 < 2 ^ 26" "?x4 < 2 ^ 26"
    using assms by (simp_all add: reduced_def)
  define e0 where "e0 = l0 h + 5"
  have e0: "unat e0 = ?x0 + 5" unfolding e0_def using x by (subst add32) simp_all
  define e1 where "e1 = l1 h + drop_bit 26 e0"
  have e1: "unat e1 = ?x1 + unat e0 div 2 ^ 26" unfolding e1_def using x e0 by (subst add32) (simp_all add: unat_drop26)
  have b1: "unat e1 \<le> 2 ^ 26" using x e0 e1 by simp
  define e2 where "e2 = l2 h + drop_bit 26 e1"
  have e2: "unat e2 = ?x2 + unat e1 div 2 ^ 26" unfolding e2_def using x b1 by (subst add32) (simp_all add: unat_drop26)
  have b2: "unat e2 \<le> 2 ^ 26" using x b1 e2 by simp
  define e3 where "e3 = l3 h + drop_bit 26 e2"
  have e3: "unat e3 = ?x3 + unat e2 div 2 ^ 26" unfolding e3_def using x b2 by (subst add32) (simp_all add: unat_drop26)
  have b3: "unat e3 \<le> 2 ^ 26" using x b2 e3 by simp
  define e4 where "e4 = l4 h + drop_bit 26 e3"
  have e4: "unat e4 = ?x4 + unat e3 div 2 ^ 26" unfolding e4_def using x b3 by (subst add32) (simp_all add: unat_drop26)
  have b4: "unat e4 \<le> 2 ^ 26" using x b3 e4 by simp
  have g: "plus5 h = \<lparr>l0 = e0 AND 0x3ffffff, l1 = e1 AND 0x3ffffff, l2 = e2 AND 0x3ffffff, l3 = e3 AND 0x3ffffff,
      l4 = e4 - 0x4000000\<rparr>"
    by (simp add: plus5_def Let_def e0_def e1_def e2_def e3_def e4_def)
  define lo where "lo = unat e0 mod 2 ^ 26 + 2 ^ 26 * (unat e1 mod 2 ^ 26) + 2 ^ 52 * (unat e2 mod 2 ^ 26) + 2 ^ 78 * (unat e3 mod 2 ^ 26)"
  have lo: "lo < 2 ^ 104"
    unfolding lo_def using mod_less_divisor [of "2 ^ 26" "unat e0"] mod_less_divisor [of "2 ^ 26" "unat e1"]
      mod_less_divisor [of "2 ^ 26" "unat e2"] mod_less_divisor [of "2 ^ 26" "unat e3"] by simp
  have sum: "lo + 2 ^ 104 * unat e4 = lval h + 5"
    unfolding lo_def lval_def
    using mod_mult_div_eq [of "unat e0" "2 ^ 26"] mod_mult_div_eq [of "unat e1" "2 ^ 26"] mod_mult_div_eq [of "unat e2" "2 ^ 26"]
      mod_mult_div_eq [of "unat e3" "2 ^ 26"] e0 e1 e2 e3 e4 by (rule plus5_sum)
  have hl: "lval h < 2 ^ 130" using x by (simp add: lval_def)
  have "reduced (select_limbs h (plus5 h)) \<and> lval (select_limbs h (plus5 h)) = lval h mod P1305"
  proof (cases "unat e4 = 2 ^ 26")
    case True
    then have "e4 = 0x4000000" by (simp add: word_unat_eq_iff)
    then have sel: "select_limbs h (plus5 h) = \<lparr>l0 = e0 AND 0x3ffffff, l1 = e1 AND 0x3ffffff, l2 = e2 AND 0x3ffffff,
        l3 = e3 AND 0x3ffffff, l4 = 0\<rparr>"
      by (simp add: select_limbs_def g)
    have "lval (select_limbs h (plus5 h)) = lo" by (simp add: sel lval_def lo_def unat_and26 [simplified])
    moreover have "lo = lval h - P1305" "P1305 \<le> lval h" "lval h < 2 * P1305"
      using sum True hl by (simp_all add: P1305_def)
    ultimately show ?thesis by (simp add: sel reduced_def unat_and26 [simplified] le_mod_geq)
  next
    case False
    with b4 have lt: "unat e4 < 2 ^ 26" by simp
    have "unat (e4 - 0x4000000) = 2 ^ 32 + unat e4 - 2 ^ 26"
      using lt by (simp add: unat_sub_if')
    then have "unat (e4 - 0x4000000) div 2 ^ 31 = 1" using lt by simp
    moreover have "unat (drop_bit 31 (e4 - 0x4000000)) = unat (e4 - 0x4000000) div 2 ^ 31"
      by (subst unat_drop_bit_eq) (rule drop_bit_eq_div)
    ultimately have "drop_bit 31 (e4 - 0x4000000) = 1" by (simp only: word_unat_eq_iff unat_1)
    then have sel: "select_limbs h (plus5 h) = h"
      by (simp add: select_limbs_def g)
    have "lval h < P1305" using sum lo lt by (simp add: P1305_def)
    with sel assms show ?thesis by simp
  qed
  then show "reduced (select_limbs h (plus5 h))" "lval (select_limbs h (plus5 h)) = lval h mod P1305" by simp_all
qed

lemma unat_or_shl:
  fixes a b :: u32
  assumes "unat a < 2 ^ n" "n \<le> 32"
  shows "unat (a OR push_bit n b) = unat a + 2 ^ n * (unat b mod 2 ^ (32 - n))"
proof -
  have "push_bit n b = push_bit n (take_bit (32 - n) b)"
    using assms(2) by (auto intro!: bit_word_eqI simp: bit_simps)
  moreover have "unat (take_bit (32 - n) b) = unat b mod 2 ^ (32 - n)"
    by (subst unsigned_take_bit_eq) (rule take_bit_eq_mod)
  moreover have "2 ^ n * (unat b mod 2 ^ (32 - n)) < 2 ^ 32"
  proof -
    have "unat b mod 2 ^ (32 - n) < 2 ^ (32 - n)" by simp
    then have "2 ^ n * (unat b mod 2 ^ (32 - n)) < 2 ^ n * 2 ^ (32 - n)" by simp
    also have "\<dots> = 2 ^ 32" using assms(2) by (simp flip: power_add)
    finally show ?thesis .
  qed
  ultimately show ?thesis using unat_or_push [OF assms(1), of "take_bit (32 - n) b"] by simp
qed

lemma add_carry_chain:
  fixes w0 w1 w2 w3 p0 p1 p2 p3 f0 f1 f2 f3 :: nat
  assumes "f0 = w0 + p0" "f1 = w1 + p1 + f0 div 2 ^ 32" "f2 = w2 + p2 + f1 div 2 ^ 32" "f3 = w3 + p3 + f2 div 2 ^ 32"
  shows "f0 mod 2 ^ 32 + 2 ^ 32 * (f1 mod 2 ^ 32) + 2 ^ 64 * (f2 mod 2 ^ 32) + 2 ^ 96 * (f3 mod 2 ^ 32)
    = (w0 + 2 ^ 32 * w1 + 2 ^ 64 * w2 + 2 ^ 96 * w3 + (p0 + 2 ^ 32 * p1 + 2 ^ 64 * p2 + 2 ^ 96 * p3)) mod 2 ^ 128"
proof -
  let ?t = "f0 mod 2 ^ 32 + 2 ^ 32 * (f1 mod 2 ^ 32) + 2 ^ 64 * (f2 mod 2 ^ 32) + 2 ^ 96 * (f3 mod 2 ^ 32)"
  have chain: "m0 + 2 ^ 32 * m1 + 2 ^ 64 * m2 + 2 ^ 96 * m3 + 2 ^ 128 * q3
      = w0 + 2 ^ 32 * w1 + 2 ^ 64 * w2 + 2 ^ 96 * w3 + (p0 + 2 ^ 32 * p1 + 2 ^ 64 * p2 + 2 ^ 96 * p3)"
    if "m0 + 2 ^ 32 * q0 = f0" "m1 + 2 ^ 32 * q1 = f1" "m2 + 2 ^ 32 * q2 = f2" "m3 + 2 ^ 32 * q3 = f3"
      "f0 = w0 + p0" "f1 = w1 + p1 + q0" "f2 = w2 + p2 + q1" "f3 = w3 + p3 + q2" for m0 m1 m2 m3 q0 q1 q2 q3
    using that by simp
  have "?t + 2 ^ 128 * (f3 div 2 ^ 32)
      = w0 + 2 ^ 32 * w1 + 2 ^ 64 * w2 + 2 ^ 96 * w3 + (p0 + 2 ^ 32 * p1 + 2 ^ 64 * p2 + 2 ^ 96 * p3)"
    by (rule chain [OF mod_mult_div_eq mod_mult_div_eq mod_mult_div_eq mod_mult_div_eq assms])
  then have "(w0 + 2 ^ 32 * w1 + 2 ^ 64 * w2 + 2 ^ 96 * w3 + (p0 + 2 ^ 32 * p1 + 2 ^ 64 * p2 + 2 ^ 96 * p3)) mod 2 ^ 128 = ?t mod 2 ^ 128"
    by (metis mod_mult_self2)
  moreover have "?t < 2 ^ 128"
    using mod_less_divisor [of "2 ^ 32" f0] mod_less_divisor [of "2 ^ 32" f1] mod_less_divisor [of "2 ^ 32" f2]
      mod_less_divisor [of "2 ^ 32" f3] by simp
  ultimately show ?thesis by simp
qed

lemma word_telescope:
  fixes x0 x1 x2 x3 x4 a1 a2 a3 a4 b1 b2 b3 b4 :: nat
  assumes "a1 + 2 ^ 6 * b1 = x1" "a2 + 2 ^ 12 * b2 = x2" "a3 + 2 ^ 18 * b3 = x3" "a4 + 2 ^ 24 * b4 = x4"
  shows "(x0 + 2 ^ 26 * a1) + 2 ^ 32 * (b1 + 2 ^ 20 * a2) + 2 ^ 64 * (b2 + 2 ^ 14 * a3) + 2 ^ 96 * (b3 + 2 ^ 8 * a4) + 2 ^ 128 * b4
    = x0 + 2 ^ 26 * x1 + 2 ^ 52 * x2 + 2 ^ 78 * x3 + 2 ^ 104 * x4"
  using assms by simp

fun words_num :: "u32 list \<Rightarrow> nat" where
  "words_num [] = 0"
| "words_num (w # ws) = unat w + 2 ^ 32 * words_num ws"

definition pad_num :: "u32 \<times> u32 \<times> u32 \<times> u32 \<Rightarrow> nat" where
  "pad_num pad = (case pad of (p0, p1, p2, p3) \<Rightarrow> unat p0 + 2 ^ 32 * unat p1 + 2 ^ 64 * unat p2 + 2 ^ 96 * unat p3)"

lemma unat_low32: "unat (ucast (f :: u64) :: u32) = unat f mod 2 ^ 32"
  by (simp add: unsigned_ucast_eq take_bit_eq_mod)

lemma tag_words_spec:
  assumes "reduced h"
  shows "words_num (tag_words h pad) = (lval h + pad_num pad) mod 2 ^ 128"
proof -
  obtain p0 p1 p2 p3 where pad: "pad = (p0, p1, p2, p3)" by (cases pad)
  let ?x0 = "unat (l0 h)" and ?x1 = "unat (l1 h)" and ?x2 = "unat (l2 h)" and ?x3 = "unat (l3 h)" and ?x4 = "unat (l4 h)"
  have x: "?x0 < 2 ^ 26" "?x1 < 2 ^ 26" "?x2 < 2 ^ 26" "?x3 < 2 ^ 26" "?x4 < 2 ^ 26"
    using assms by (simp_all add: reduced_def)
  have dr: "unat (drop_bit n w) = unat w div 2 ^ n" for n and w :: u32
    by (subst unat_drop_bit_eq) (rule drop_bit_eq_div)
  define w0 where "w0 = l0 h OR push_bit 26 (l1 h)"
  have w0: "unat w0 = ?x0 + 2 ^ 26 * (?x1 mod 2 ^ 6)" unfolding w0_def using x by (subst unat_or_shl) simp_all
  define w1 where "w1 = drop_bit 6 (l1 h) OR push_bit 20 (l2 h)"
  have w1: "unat w1 = ?x1 div 2 ^ 6 + 2 ^ 20 * (?x2 mod 2 ^ 12)"
    unfolding w1_def using x dr [of 6 "l1 h"] by (subst unat_or_shl) simp_all
  define w2 where "w2 = drop_bit 12 (l2 h) OR push_bit 14 (l3 h)"
  have w2: "unat w2 = ?x2 div 2 ^ 12 + 2 ^ 14 * (?x3 mod 2 ^ 18)"
    unfolding w2_def using x dr [of 12 "l2 h"] by (subst unat_or_shl) simp_all
  define w3 where "w3 = drop_bit 18 (l3 h) OR push_bit 8 (l4 h)"
  have w3: "unat w3 = ?x3 div 2 ^ 18 + 2 ^ 8 * (?x4 mod 2 ^ 24)"
    unfolding w3_def using x dr [of 18 "l3 h"] by (subst unat_or_shl) simp_all
  have u: "unat w < 2 ^ 32" for w :: u32 using unsigned_less [of w] by simp
  define f0 where "f0 = (ucast w0 + ucast p0 :: u64)"
  have f0: "unat f0 = unat w0 + unat p0" using u [of w0] u [of p0] by (simp add: f0_def unat_word_ariths)
  have hi: "unat (drop_bit 32 f) = unat f div 2 ^ 32" for f :: u64
    by (subst unat_drop_bit_eq) (rule drop_bit_eq_div)
  have step: "unat (ucast w + ucast p + drop_bit 32 f :: u64) = unat w + unat p + unat f div 2 ^ 32" for w p :: u32 and f
  proof -
    have "unat f < 2 ^ 64" using unsigned_less [of f] by simp
    then have "unat f div 2 ^ 32 < 2 ^ 32" by simp
    then have "(unat w + unat p + unat f div 2 ^ 32) mod 2 ^ 64 = unat w + unat p + unat f div 2 ^ 32"
      using u [of w] u [of p] by simp
    then show ?thesis using hi [of f] by (simp add: unat_word_ariths mod_simps)
  qed
  define f1 where "f1 = (ucast w1 + ucast p1 + drop_bit 32 f0 :: u64)"
  define f2 where "f2 = (ucast w2 + ucast p2 + drop_bit 32 f1 :: u64)"
  define f3 where "f3 = (ucast w3 + ucast p3 + drop_bit 32 f2 :: u64)"
  note fs = f0 step [of w1 p1 f0, folded f1_def] step [of w2 p2 f1, folded f2_def] step [of w3 p3 f2, folded f3_def]
  have "tag_words h pad = [ucast f0, ucast f1, ucast f2, ucast f3]"
    by (simp add: tag_words_def pad Let_def f0_def f1_def f2_def f3_def w0_def w1_def w2_def w3_def)
  then have "words_num (tag_words h pad) = unat f0 mod 2 ^ 32 + 2 ^ 32 * (unat f1 mod 2 ^ 32) + 2 ^ 64 * (unat f2 mod 2 ^ 32)
      + 2 ^ 96 * (unat f3 mod 2 ^ 32)"
    by (simp add: unat_low32 [simplified] distrib_left)
  then have sum: "words_num (tag_words h pad)
      = (unat w0 + 2 ^ 32 * unat w1 + 2 ^ 64 * unat w2 + 2 ^ 96 * unat w3 + pad_num pad) mod 2 ^ 128"
    unfolding pad_num_def pad prod.case using add_carry_chain [OF fs] by (rule trans)
  define W where "W = unat w0 + 2 ^ 32 * unat w1 + 2 ^ 64 * unat w2 + 2 ^ 96 * unat w3"
  have "W + 2 ^ 128 * (?x4 div 2 ^ 24) = lval h"
    unfolding W_def w0 w1 w2 w3 lval_def
    by (rule word_telescope [OF mod_mult_div_eq mod_mult_div_eq mod_mult_div_eq mod_mult_div_eq])
  then have "lval h + pad_num pad = W + pad_num pad + 2 ^ 128 * (?x4 div 2 ^ 24)" by linarith
  then have "(lval h + pad_num pad) mod 2 ^ 128 = (W + pad_num pad) mod 2 ^ 128" by (simp only: mod_mult_self2)
  with sum show ?thesis by (simp only: W_def)
qed

subsection \<open>The key\<close>

definition clamp :: "byte list \<Rightarrow> byte list" where
  "clamp k = k[3 := k ! 3 AND 15, 7 := k ! 7 AND 15, 11 := k ! 11 AND 15, 15 := k ! 15 AND 15,
               4 := k ! 4 AND 252, 8 := k ! 8 AND 252, 12 := k ! 12 AND 252]"

lemma bits32:
  assumes "list_all (\<lambda>n. bit x n = bit y n) [0, 1, 2, 3, 4, 5, 6, 7, 8, 9, 10, 11, 12, 13, 14, 15, 16, 17, 18, 19, 20, 21, 22, 23, 24, 25, 26, 27, 28, 29, 30, 31]"
  shows "x = (y :: u32)"
proof (rule bit_word_eqI)
  fix n
  assume "n < LENGTH(32)"
  then have "n \<in> set [0..<32]" by simp
  also have "[0..<32] = [0, 1, 2, 3, 4, 5, 6, 7, 8, 9, 10, 11, 12, 13, 14, 15, 16, 17, 18, 19, 20, 21, 22, 23, 24, 25, 26, 27, 28, 29, 30, 31]" by (simp add: upt_rec)
  finally show "bit x n = bit y n" using assms unfolding list_all_iff by blast
qed

lemma bit_past: "8 \<le> n \<Longrightarrow> \<not> bit (b :: byte) n" "32 \<le> n \<Longrightarrow> \<not> bit (w :: u32) n"
  by (auto dest: bit_imp_le_length)

lemma clamp_low: "le32 a b c (d AND 15) = le32 a b c d AND 0x0fffffff"
  by (rule bits32) (simp add: le32_def bit_simps bit_past)

lemma clamp_high: "le32 (a AND 252) b c (d AND 15) = le32 a b c d AND 0x0ffffffc"
  by (rule bits32) (simp add: le32_def bit_simps bit_past)

lemma clamp_limbs:
  fixes t0 t1 t2 t3 :: u32
  shows "t0 AND 0x3ffffff = (t0 AND 0x0fffffff) AND 0x3ffffff"
    and "(drop_bit 26 t0 OR push_bit 6 t1) AND 0x3ffff03
      = (drop_bit 26 (t0 AND 0x0fffffff) OR push_bit 6 (t1 AND 0x0ffffffc)) AND 0x3ffffff"
    and "(drop_bit 20 t1 OR push_bit 12 t2) AND 0x3ffc0ff
      = (drop_bit 20 (t1 AND 0x0ffffffc) OR push_bit 12 (t2 AND 0x0ffffffc)) AND 0x3ffffff"
    and "(drop_bit 14 t2 OR push_bit 18 t3) AND 0x3f03fff
      = (drop_bit 14 (t2 AND 0x0ffffffc) OR push_bit 18 (t3 AND 0x0ffffffc)) AND 0x3ffffff"
    and "drop_bit 8 t3 AND 0x00fffff = drop_bit 8 (t3 AND 0x0ffffffc)"
  by (rule bits32, simp add: bit_simps bit_past)+

lemma drop8_bound: "unat (drop_bit 8 (t AND 0x0ffffffc :: u32)) < 2 ^ 20"
proof -
  have "drop_bit 8 (t AND 0x0ffffffc) = take_bit 20 (drop_bit 8 t)"
    by (rule bits32) (simp add: bit_simps bit_past)
  then show ?thesis by (simp only: unsigned_take_bit_eq take_bit_nat_less_exp)
qed

lemma clamped_value:
  fixes u0 u1 u2 u3 :: u32
  assumes "unat u3 div 2 ^ 8 < 2 ^ 24"
  shows "unat (u0 AND 0x3ffffff) + 2 ^ 26 * unat ((drop_bit 26 u0 OR push_bit 6 u1) AND 0x3ffffff)
    + 2 ^ 52 * unat ((drop_bit 20 u1 OR push_bit 12 u2) AND 0x3ffffff)
    + 2 ^ 78 * unat ((drop_bit 14 u2 OR push_bit 18 u3) AND 0x3ffffff) + 2 ^ 104 * unat (drop_bit 8 u3)
    = unat u0 + 2 ^ 32 * unat u1 + 2 ^ 64 * unat u2 + 2 ^ 96 * unat u3"
proof -
  have d: "unat (drop_bit 8 u3) = unat u3 div 2 ^ 8" by (subst unat_drop_bit_eq) (rule drop_bit_eq_div)
  have s: "unat ((drop_bit 26 u0 OR push_bit 6 u1) AND 0x3ffffff) = unat u0 div 2 ^ 26 + 2 ^ 6 * (unat u1 mod 2 ^ 20)"
    "unat ((drop_bit 20 u1 OR push_bit 12 u2) AND 0x3ffffff) = unat u1 div 2 ^ 20 + 2 ^ 12 * (unat u2 mod 2 ^ 14)"
    "unat ((drop_bit 14 u2 OR push_bit 18 u3) AND 0x3ffffff) = unat u2 div 2 ^ 14 + 2 ^ 18 * (unat u3 mod 2 ^ 8)"
    using split_word [of 26 u0 u1] split_word [of 20 u1 u2] split_word [of 14 u2 u3] by (simp_all only: diff_nat_numeral) simp_all
  show ?thesis
    unfolding s d unat_and26 [of u0] by (rule limb_telescope [OF mod_mult_div_eq mod_mult_div_eq mod_mult_div_eq mod_mult_div_eq])
qed

lemma list_32:
  assumes "length k = 32"
  obtains a b where "k = a @ b" "length a = 16" "length b = 16"
  using assms by (intro that [of "take 16 k" "drop 16 k"]) auto

lemma ld_at_append: "length a = 16 \<Longrightarrow> i < 13 \<Longrightarrow> ld_at (a @ b) i = ld_at a i"
  "length a = 16 \<Longrightarrow> ld_at (a @ b) (16 + i) = ld_at b i"
  by (simp_all add: ld_at_def nth_append add.assoc add.commute)

lemma clamp_words:
  assumes "length k = 16"
  shows "ld_at (clamp k) 0 = ld_at k 0 AND 0x0fffffff" "ld_at (clamp k) 4 = ld_at k 4 AND 0x0ffffffc"
    "ld_at (clamp k) 8 = ld_at k 8 AND 0x0ffffffc" "ld_at (clamp k) 12 = ld_at k 12 AND 0x0ffffffc"
    "length (clamp k) = 16"
  using assms by (simp_all add: clamp_def ld_at_def) (rule clamp_low, (rule clamp_high)+)

lemma init_spec:
  assumes "length key = 32"
  shows "r_ok (ctx_r (poly1305_init key))" and "lval (ctx_r (poly1305_init key)) = le_num (clamp (take 16 key))"
    and "pad_num (ctx_pad (poly1305_init key)) = le_num (drop 16 key)"
    and "h_ok (ctx_h (poly1305_init key))" and "lval (ctx_h (poly1305_init key)) = 0"
proof -
  obtain a b where k: "key = a @ b" "length a = 16" "length b = 16" using assms by (rule list_32)
  have ld: "ld_at key 0 = ld_at a 0" "ld_at key 4 = ld_at a 4" "ld_at key 8 = ld_at a 8" "ld_at key 12 = ld_at a 12"
    "ld_at key 16 = ld_at b 0" "ld_at key 20 = ld_at b 4" "ld_at key 24 = ld_at b 8" "ld_at key 28 = ld_at b 12"
    using k(2) ld_at_append(2) [of a b 0] ld_at_append(2) [of a b 4] ld_at_append(2) [of a b 8] ld_at_append(2) [of a b 12]
    by (simp_all add: k(1) ld_at_append(1))
  define u0 where "u0 = ld_at (clamp a) 0"
  define u1 where "u1 = ld_at (clamp a) 4"
  define u2 where "u2 = ld_at (clamp a) 8"
  define u3 where "u3 = ld_at (clamp a) 12"
  note cw = clamp_words [OF k(2)]
  have r: "ctx_r (poly1305_init key) = \<lparr>l0 = u0 AND 0x3ffffff, l1 = (drop_bit 26 u0 OR push_bit 6 u1) AND 0x3ffffff,
      l2 = (drop_bit 20 u1 OR push_bit 12 u2) AND 0x3ffffff, l3 = (drop_bit 14 u2 OR push_bit 18 u3) AND 0x3ffffff,
      l4 = drop_bit 8 u3\<rparr>"
    unfolding poly1305_init_def Let_def poly1305_ctx.simps limbs.simps u0_def u1_def u2_def u3_def cw ld
    using clamp_limbs by blast
  have b4: "unat (drop_bit 8 u3) < 2 ^ 20" unfolding u3_def cw by (rule drop8_bound)
  show "r_ok (ctx_r (poly1305_init key))"
    unfolding r r_ok_def limbs.simps unat_and26 using b4 by (intro conjI) simp_all
  have "unat u3 < 2 ^ 32" using unsigned_less [of u3] by simp
  then have "unat u3 div 2 ^ 8 < 2 ^ 24" by simp
  from clamped_value [OF this, of u0 u1 u2] show "lval (ctx_r (poly1305_init key)) = le_num (clamp (take 16 key))"
    unfolding r lval_def limbs.simps using le_num_words [OF cw(5)] by (simp only: k u0_def u1_def u2_def u3_def) (simp add: k)
  show "pad_num (ctx_pad (poly1305_init key)) = le_num (drop 16 key)"
    using le_num_words [OF k(3)] by (simp add: poly1305_init_def Let_def pad_num_def ld) (simp add: k)
  show "h_ok (ctx_h (poly1305_init key))" "lval (ctx_h (poly1305_init key)) = 0"
    by (simp_all add: poly1305_init_def Let_def h_ok_def lval_def)
qed

subsection \<open>Messages\<close>

text \<open>The standard: every block of at most 16 bytes, with a one byte on top, is added and multiplied.\<close>

function poly_acc :: "nat \<Rightarrow> nat \<Rightarrow> byte list \<Rightarrow> nat" where
  "poly_acc r acc m =
     (if m = [] then acc else poly_acc r ((acc + le_num (take 16 m @ [1])) * r mod P1305) (drop 16 m))"
  by pat_completeness auto
termination
  by (relation "measure (\<lambda>(r, acc, m). length m)") auto

declare poly_acc.simps [simp del]

definition poly1305_spec :: "byte list \<Rightarrow> byte list \<Rightarrow> nat" where
  "poly1305_spec msg key = (poly_acc (le_num (clamp (take 16 key))) 0 msg + le_num (drop 16 key)) mod 2 ^ 128"

definition ctx_ok :: "poly1305_ctx \<Rightarrow> bool" where
  "ctx_ok ctx \<longleftrightarrow> h_ok (ctx_h ctx) \<and> r_ok (ctx_r ctx)"

abbreviation ctx_val :: "poly1305_ctx \<Rightarrow> nat" where
  "ctx_val ctx \<equiv> lval (ctx_h ctx) mod P1305"

lemma le_num_append: "le_num (xs @ ys) = le_num xs + 256 ^ length xs * le_num ys"
  by (induction xs) (simp_all add: algebra_simps)

lemma le_num_zeros [simp]: "le_num (replicate n 0) = 0"
  by (induction n) auto

lemma one_block:
  assumes "ctx_ok ctx" "length m = 16" "unat hibit \<le> 1"
  defines "h \<equiv> carry_products (products (add_block (ctx_h ctx) m hibit) (ctx_r ctx))"
  shows "h_ok h" and "lval h mod P1305 = (ctx_val ctx + (le_num m + 2 ^ 128 * unat hibit)) * lval (ctx_r ctx) mod P1305"
proof -
  let ?s = "add_block (ctx_h ctx) m hibit" and ?r = "ctx_r ctx"
  have hr: "h_ok (ctx_h ctx)" "r_ok ?r" using assms(1) by (simp_all add: ctx_ok_def)
  note ab = add_block_spec [OF hr(1) assms(2,3)]
  obtain d0 d1 d2 d3 d4 where d: "products ?s ?r = (d0, d1, d2, d3, d4)" by (metis prod.exhaust)
  have np: "nat_products ?s ?r = (unat d0, unat d1, unat d2, unat d3, unat d4)"
    using products_unat [OF ab(1) hr(2)] by (simp add: d)
  from small_products [OF ab(1) hr(2)] np have "unat d0 \<le> 22 * 2 ^ 53" "unat d1 \<le> 22 * 2 ^ 53" "unat d2 \<le> 22 * 2 ^ 53"
    "unat d3 \<le> 22 * 2 ^ 53" "unat d4 \<le> 5 * 2 ^ 53 + 2 ^ 40" by simp_all
  note cp = carry_products_spec [OF this, folded d, folded h_def]
  show "h_ok h" by (rule cp(1))
  have "lval h mod P1305 = lval ?s * lval ?r mod P1305"
    using cp(2) product_value [of ?s ?r] np by simp
  also have "\<dots> = (ctx_val ctx + (le_num m + 2 ^ 128 * unat hibit)) * lval ?r mod P1305"
    unfolding ab(2) add.assoc by (metis mod_add_left_eq mod_mult_left_eq)
  finally show "lval h mod P1305 = (ctx_val ctx + (le_num m + 2 ^ 128 * unat hibit)) * lval (ctx_r ctx) mod P1305" .
qed

lemma blocks_ok:
  "ctx_ok ctx \<Longrightarrow> unat hibit \<le> 1 \<Longrightarrow> ctx_ok (poly1305_blocks ctx m hibit)
    \<and> ctx_r (poly1305_blocks ctx m hibit) = ctx_r ctx \<and> ctx_pad (poly1305_blocks ctx m hibit) = ctx_pad ctx"
proof (induction ctx m hibit rule: poly1305_blocks.induct)
  case (1 ctx m hibit)
  show ?case
  proof (cases "16 \<le> length m")
    case True
    with one_block(1) [OF 1(2) _ 1(3), of "take 16 m"] 1 show ?thesis
      by (simp add: poly1305_blocks.simps [of ctx m] ctx_ok_def)
  next
    case False
    with 1 show ?thesis by (simp add: poly1305_blocks.simps [of ctx m])
  qed
qed

lemma whole_blocks:
  "ctx_ok ctx \<Longrightarrow> 16 dvd length m \<Longrightarrow>
   poly_acc (lval (ctx_r ctx)) (ctx_val ctx) (m @ rest)
     = poly_acc (lval (ctx_r ctx)) (ctx_val (poly1305_blocks ctx m 1)) rest"
proof (induction ctx m "1 :: byte" rule: poly1305_blocks.induct)
  case (1 ctx m)
  show ?case
  proof (cases "16 \<le> length m")
    case True
    define ctx' where "ctx' = ctx\<lparr>ctx_h := carry_products (products (add_block (ctx_h ctx) (take 16 m) 1) (ctx_r ctx))\<rparr>"
    note ob = one_block [OF 1(2), of "take 16 m" 1]
    have ok: "ctx_ok ctx'" using ob(1) 1(2) True by (simp add: ctx'_def ctx_ok_def)
    have v: "ctx_val ctx' = (ctx_val ctx + le_num (take 16 m @ [1])) * lval (ctx_r ctx) mod P1305"
      using ob(2) True by (simp add: ctx'_def le_num_append)
    have ne: "m \<noteq> []" using True by auto
    have "poly_acc (lval (ctx_r ctx)) (ctx_val ctx) (m @ rest)
        = poly_acc (lval (ctx_r ctx')) (ctx_val ctx') (drop 16 m @ rest)"
      using True ne by (simp add: poly_acc.simps [of _ _ "m @ rest"] v) (simp add: ctx'_def)
    also have "\<dots> = poly_acc (lval (ctx_r ctx')) (ctx_val (poly1305_blocks ctx' (drop 16 m) 1)) rest"
      using 1(1) [OF True] ok 1(3) True unfolding ctx'_def by simp
    also have "poly1305_blocks ctx' (drop 16 m) 1 = poly1305_blocks ctx m 1"
      using True by (simp add: poly1305_blocks.simps [of ctx m] ctx'_def)
    finally show ?thesis by (simp add: ctx'_def)
  next
    case False
    have "length m = 0" using dvd_imp_le [OF 1(3)] False by (cases "length m = 0") auto
    then have "m = []" by simp
    then show ?thesis by (simp add: poly1305_blocks.simps [of ctx "[]"])
  qed
qed

lemma bytes_of_words: "le_num (concat (map bytes32 ws)) = words_num ws"
proof (induction ws)
  case (Cons w ws)
  have "le32 (ucast w) (ucast (drop_bit 8 w)) (ucast (drop_bit 16 w)) (ucast (drop_bit 24 w)) = w" by simp
  then have "unat w = unat (ucast w :: byte) + 2 ^ 8 * unat (ucast (drop_bit 8 w) :: byte)
      + 2 ^ 16 * unat (ucast (drop_bit 16 w) :: byte) + 2 ^ 24 * unat (ucast (drop_bit 24 w) :: byte)"
    using unat_le32 by metis
  with Cons show ?case by (simp only: concat.simps list.map le_num_append length_bytes32 words_num.simps) (simp add: bytes32_def)
qed simp

lemma finish_spec:
  assumes "ctx_ok ctx"
  shows "le_num (poly1305_finish ctx) = (ctx_val ctx + pad_num (ctx_pad ctx)) mod 2 ^ 128"
    and "length (poly1305_finish ctx) = 16"
proof -
  have h: "h_ok (ctx_h ctx)" using assms by (simp add: ctx_ok_def)
  note fc = full_carry_spec [OF h]
  note ps = plus5_select [OF fc(1)]
  show "le_num (poly1305_finish ctx) = (ctx_val ctx + pad_num (ctx_pad ctx)) mod 2 ^ 128"
    using tag_words_spec [OF ps(1), of "ctx_pad ctx"] ps(2) fc(2)
    by (simp add: poly1305_finish_def Let_def bytes_of_words)
  show "length (poly1305_finish ctx) = 16"
    by (simp add: poly1305_finish_def Let_def tag_words_def split: prod.split)
qed

lemma mac_value:
  assumes "length key = 32"
  shows "le_num (poly1305_mac msg key) = poly1305_spec msg key" and "length (poly1305_mac msg key) = 16"
proof -
  define n where "n = length msg - length msg mod 16"
  define c0 where "c0 = poly1305_init key"
  define c1 where "c1 = poly1305_blocks c0 (take n msg) 1"
  define rest where "rest = drop n msg"
  define c2 where "c2 = (if rest \<noteq> [] then poly1305_blocks c1 (rest @ [1] @ replicate (15 - length rest) 0) 0 else c1)"
  note init = init_spec [OF assms, folded c0_def]
  have ok0: "ctx_ok c0" using init by (simp add: ctx_ok_def)
  have ok1: "ctx_ok c1" "ctx_r c1 = ctx_r c0" "ctx_pad c1 = ctx_pad c0"
    using blocks_ok [OF ok0, of 1 "take n msg"] by (simp_all add: c1_def)
  have lr: "length rest < 16" by (simp add: rest_def n_def)
  have n16: "16 dvd length (take n msg)" by (simp add: n_def dvd_minus_mod)
  have "poly_acc (lval (ctx_r c0)) (ctx_val c0) (take n msg @ rest) = poly_acc (lval (ctx_r c0)) (ctx_val c1) rest"
    unfolding c1_def by (rule whole_blocks [OF ok0 n16])
  then have acc1: "poly_acc (lval (ctx_r c0)) 0 msg = poly_acc (lval (ctx_r c0)) (ctx_val c1) rest"
    using init(5) by (simp add: rest_def)
  have c2: "ctx_ok c2 \<and> ctx_pad c2 = ctx_pad c0 \<and> ctx_val c2 = poly_acc (lval (ctx_r c0)) (ctx_val c1) rest"
  proof (cases "rest = []")
    case True
    with ok1 show ?thesis by (simp add: c2_def poly_acc.simps [of _ _ "[]"])
  next
    case False
    let ?pad = "rest @ [1] @ replicate (15 - length rest) 0"
    have len: "length ?pad = 16" using lr by simp
    have c2: "c2 = c1\<lparr>ctx_h := carry_products (products (add_block (ctx_h c1) ?pad 0) (ctx_r c1))\<rparr>"
      using False len by (simp add: c2_def poly1305_blocks.simps [of c1] poly1305_blocks.simps [of _ "[]"])
    note ob = one_block [OF ok1(1) len, of 0]
    have "le_num ?pad = le_num (rest @ [1])" by (simp add: le_num_append)
    then have "ctx_val c2 = (ctx_val c1 + le_num (rest @ [1])) * lval (ctx_r c0) mod P1305"
      using ob(2) ok1(2) by (simp add: c2)
    moreover have "poly_acc (lval (ctx_r c0)) (ctx_val c1) rest = (ctx_val c1 + le_num (rest @ [1])) * lval (ctx_r c0) mod P1305"
      using False lr by (simp add: poly_acc.simps [of _ _ rest] poly_acc.simps [of _ _ "[]"])
    moreover have "ctx_ok c2" using ob(1) ok1(1) by (simp add: c2 ctx_ok_def)
    ultimately show ?thesis using ok1(3) by (simp add: c2)
  qed
  have mac: "poly1305_mac msg key = poly1305_finish c2"
    by (simp add: poly1305_mac_def Let_def n_def c0_def c1_def c2_def rest_def)
  note fin = finish_spec [OF conjunct1 [OF c2]]
  show "le_num (poly1305_mac msg key) = poly1305_spec msg key"
    unfolding mac fin(1) poly1305_spec_def init(2) [symmetric] using c2 acc1 init(3) by simp
  show "length (poly1305_mac msg key) = 16" unfolding mac by (rule fin(2))
qed

text \<open>
  C13: the authenticator is Poly1305. For every message and every 32-byte key, the tag computed with
  26-bit limbs in 32-bit words and 64-bit products is the 128-bit number that RFC 8439 defines by
  arithmetic modulo \<open>2 ^ 130 - 5\<close>, in 16 little-endian bytes. In particular no intermediate sum,
  product or carry overflows its word.
\<close>

theorem poly1305_mac_correct:
  assumes "length key = 32"
  shows "le_num (poly1305_mac msg key) = poly1305_spec msg key \<and> length (poly1305_mac msg key) = 16"
  using mac_value [OF assms] by blast

theorem poly1305_mac_correct_witness:
  "le_num (poly1305_mac [1, 2, 3] (replicate 32 7)) = poly1305_spec [1, 2, 3] (replicate 32 7)"
  using poly1305_mac_correct [of "replicate 32 7" "[1, 2, 3]"] by simp

end
