(* ===== verification/Aead.thy ===== *)
theory Aead
  imports ChaCha PolySpec
begin

text \<open>
  \<open>aead_encrypt\<close>, \<open>aead_decrypt\<close> and the key derivation of \<open>src/crypto.c\<close>. SHA-256 comes from mbedTLS,
  which is not in the repository: it is the parameter \<open>sha\<close> of the last group, the function from
  the bytes given to the update calls to the digest.
\<close>

unbundle bit_operations_syntax

subsection \<open>Authenticated encryption\<close>

text \<open>One run of whole blocks and, when bytes remain, one block padded with zeros.\<close>

definition mac_part :: "poly1305_ctx \<Rightarrow> byte list \<Rightarrow> poly1305_ctx" where
  "mac_part ctx data =
     (let n = length data - length data mod 16;
          ctx = poly1305_blocks ctx (take n data) 1;
          rest = drop n data in
      if rest \<noteq> [] then poly1305_blocks ctx (rest @ replicate (16 - length rest) 0) 1 else ctx)"

definition aead_lens :: "nat \<Rightarrow> nat \<Rightarrow> byte list" where
  "aead_lens aad_len pt_len =
     bytes32 (word_of_nat aad_len) @ replicate 4 0 @ bytes32 (word_of_nat pt_len) @ replicate 4 0"

definition aead_tag :: "byte list \<Rightarrow> byte list \<Rightarrow> byte list \<Rightarrow> byte list" where
  "aead_tag poly_key aad ct =
     (let ctx = poly1305_init poly_key;
          ctx = (if aad \<noteq> [] then mac_part ctx aad else ctx);
          ctx = mac_part ctx ct in
      poly1305_finish (poly1305_blocks ctx (aead_lens (length aad) (length ct)) 1))"

definition aead_poly_key :: "byte list \<Rightarrow> byte list \<Rightarrow> byte list" where
  "aead_poly_key key nonce = chacha20_encrypt (replicate 32 0) key 0 nonce"

definition aead_encrypt :: "byte list \<Rightarrow> byte list \<Rightarrow> byte list \<Rightarrow> byte list \<Rightarrow> byte list" where
  "aead_encrypt plaintext aad key nonce =
     (let ct = chacha20_encrypt plaintext key 1 nonce in ct @ aead_tag (aead_poly_key key nonce) aad ct)"

text \<open>
  The comparison of the tags, in constant time: the disjunction of all differences. The result
  of \<open>aead_decrypt\<close> is the returned length, and \<open>out\<close> when it was written.
\<close>

definition tag_diff :: "byte list \<Rightarrow> byte list \<Rightarrow> byte" where
  "tag_diff computed tag = fold (\<lambda>i diff. diff OR (computed ! i XOR tag ! i)) [0..<16] 0"

definition aead_decrypt :: "byte list \<Rightarrow> byte list \<Rightarrow> byte list \<Rightarrow> byte list \<Rightarrow> nat \<times> byte list option" where
  "aead_decrypt ciphertext aad key nonce =
     (if length ciphertext < 16 then (0, None)
      else
        let pt_len = length ciphertext - 16;
            ct = take pt_len ciphertext; tag = drop pt_len ciphertext in
        if tag_diff (aead_tag (aead_poly_key key nonce) aad ct) tag \<noteq> 0 then (0, None)
        else (pt_len, Some (chacha20_encrypt ct key 1 nonce)))"

lemma tag_diff_zero:
  assumes "length xs = 16" "length ys = 16"
  shows "tag_diff xs ys = 0 \<longleftrightarrow> xs = ys"
  using assms by (auto simp: tag_diff_def fold_diff list_eq_iff_nth_eq)

subsection \<open>What is authenticated\<close>

definition zero_pad :: "byte list \<Rightarrow> byte list" where
  "zero_pad xs = xs @ replicate ((16 - length xs mod 16) mod 16) 0"

text \<open>The message of RFC 8439, section 2.8: both strings padded to 16 bytes, then their lengths.\<close>

definition aead_message :: "byte list \<Rightarrow> byte list \<Rightarrow> byte list" where
  "aead_message aad ct = zero_pad aad @ zero_pad ct @ aead_lens (length aad) (length ct)"

lemma zero_pad_dvd: "16 dvd length (zero_pad xs)"
proof -
  define r where "r = length xs mod 16"
  define q where "q = length xs div 16"
  have n: "length xs = 16 * q + r" by (simp add: q_def r_def)
  have "r < 16" by (simp add: r_def)
  then have "r + (16 - r) mod 16 = 0 \<or> r + (16 - r) mod 16 = 16" by (cases "r = 0") auto
  then have "16 dvd r + (16 - r) mod 16" by auto
  then have "16 dvd 16 * q + (r + (16 - r) mod 16)" by (rule dvd_add [OF dvd_triv_left])
  then show ?thesis unfolding zero_pad_def r_def [symmetric] by (simp add: n add.assoc)
qed

lemma zero_pad_Nil [simp]: "zero_pad [] = []"
  by (simp add: zero_pad_def)

lemma blocks_Nil [simp]: "poly1305_blocks ctx [] hibit = ctx"
  by (simp add: poly1305_blocks.simps)

lemma blocks_append:
  "16 dvd length xs \<Longrightarrow> poly1305_blocks ctx (xs @ ys) hibit = poly1305_blocks (poly1305_blocks ctx xs hibit) ys hibit"
proof (induction ctx xs hibit rule: poly1305_blocks.induct)
  case (1 ctx m hibit)
  show ?case
  proof (cases "16 \<le> length m")
    case True
    have "16 dvd length (drop 16 m)" using 1(2) True by simp
    from 1(1) [OF True this] True show ?thesis
      by (simp add: poly1305_blocks.simps [of ctx m] poly1305_blocks.simps [of ctx "m @ ys"])
  next
    case False
    have "length m = 0" using dvd_imp_le [OF 1(2)] False by (cases "length m = 0") auto
    then show ?thesis by (simp add: poly1305_blocks.simps [of ctx "[]"])
  qed
qed

lemma mac_part_pad: "mac_part ctx xs = poly1305_blocks ctx (zero_pad xs) 1"
proof -
  define n where "n = length xs - length xs mod 16"
  have n: "16 dvd length (take n xs)" by (simp add: n_def dvd_minus_mod)
  have lr: "length (drop n xs) = length xs mod 16" by (simp add: n_def)
  show ?thesis
  proof (cases "length xs mod 16 = 0")
    case True
    then show ?thesis by (simp add: mac_part_def Let_def zero_pad_def)
  next
    case False
    have lt: "length xs mod 16 < 16" by simp
    have "drop n xs \<noteq> []" using False lr by (metis list.size(3))
    then have "mac_part ctx xs = poly1305_blocks (poly1305_blocks ctx (take n xs) 1)
        (drop n xs @ replicate (16 - length xs mod 16) 0) 1"
      by (simp add: mac_part_def Let_def n_def [symmetric] lr [simplified])
    also have "\<dots> = poly1305_blocks ctx (take n xs @ drop n xs @ replicate (16 - length xs mod 16) 0) 1"
      by (rule blocks_append [OF n, symmetric])
    also have "take n xs @ drop n xs @ replicate (16 - length xs mod 16) 0 = zero_pad xs"
      using False lt by (simp add: zero_pad_def)
    finally show ?thesis .
  qed
qed

lemma aead_tag_value:
  assumes "length pk = 32"
  shows "le_num (aead_tag pk aad ct) = poly1305_spec (aead_message aad ct) pk" and "length (aead_tag pk aad ct) = 16"
proof -
  let ?m = "aead_message aad ct"
  have "length (aead_lens a c) = 16" for a c by (simp add: aead_lens_def)
  then have l16: "16 dvd length ?m"
    using zero_pad_dvd [of aad] zero_pad_dvd [of ct] by (simp add: aead_message_def)
  have nil: "mac_part ctx [] = ctx" for ctx
    by (simp add: mac_part_def poly1305_blocks.simps)
  have tag: "aead_tag pk aad ct = poly1305_finish (poly1305_blocks (poly1305_init pk) ?m 1)"
    unfolding aead_tag_def aead_message_def Let_def
    by (cases "aad = []") (simp_all add: nil mac_part_pad blocks_append zero_pad_dvd)
  have "poly1305_mac ?m pk = poly1305_finish (poly1305_blocks (poly1305_init pk) ?m 1)"
    using l16 by (simp add: poly1305_mac_def Let_def dvd_imp_mod_0)
  with tag have eq: "aead_tag pk aad ct = poly1305_mac ?m pk" by simp
  show "le_num (aead_tag pk aad ct) = poly1305_spec ?m pk" "length (aead_tag pk aad ct) = 16"
    unfolding eq by (rule mac_value [OF assms])+
qed

lemma length_poly_key [simp]: "length (aead_poly_key key nonce) = 32"
  by (simp add: aead_poly_key_def)

lemma le_num_inj: "length xs = length ys \<Longrightarrow> le_num xs = le_num ys \<Longrightarrow> xs = ys"
proof (induction xs arbitrary: ys)
  case (Cons x xs)
  then obtain y ys' where ys: "ys = y # ys'" by (cases ys) auto
  with Cons.prems(2) have eq: "unat x + 256 * le_num xs = unat y + 256 * le_num ys'" by simp
  have "unat x = unat y"
    using arg_cong [OF eq, of "\<lambda>n. n mod 256"] unat_byte_less [of x] unat_byte_less [of y] by simp
  with eq Cons ys show ?case by (simp add: word_unat_eq_iff)
qed simp

text \<open>
  C14: decryption inverts encryption. For every plaintext, associated data, key and nonce,
  \<open>aead_decrypt\<close> accepts what \<open>aead_encrypt\<close> produced, which is 16 bytes longer, and returns the
  plaintext and its length.
\<close>

theorem aead_roundtrip:
  "aead_decrypt (aead_encrypt pt aad key nonce) aad key nonce = (length pt, Some pt)
   \<and> length (aead_encrypt pt aad key nonce) = length pt + 16"
proof -
  let ?ct = "chacha20_encrypt pt key 1 nonce" and ?pk = "aead_poly_key key nonce"
  have t: "length (aead_tag ?pk aad ?ct) = 16" by (rule aead_tag_value) simp
  then have "tag_diff (aead_tag ?pk aad ?ct) (aead_tag ?pk aad ?ct) = 0" by (simp add: tag_diff_zero)
  with t show ?thesis
    by (simp add: aead_encrypt_def aead_decrypt_def Let_def chacha20_encrypt_twice)
qed

text \<open>
  C15: what \<open>aead_decrypt\<close> accepts. It returns a plaintext exactly when the input has a 16-byte tag
  and this tag is the Poly1305 of RFC 8439 over the padded associated data, the padded
  ciphertext and their lengths, under the one-time key from ChaCha20 block 0. Anything
  else, in particular every input shorter than a tag, gives 0 and writes no output.
\<close>

theorem aead_decrypt_authentic:
  "aead_decrypt input aad key nonce =
     (if 16 \<le> length input \<and> le_num (drop (length input - 16) input)
           = poly1305_spec (aead_message aad (take (length input - 16) input)) (aead_poly_key key nonce)
      then (length input - 16, Some (chacha20_encrypt (take (length input - 16) input) key 1 nonce))
      else (0, None))"
proof (cases "length input < 16")
  case True
  then show ?thesis by (simp add: aead_decrypt_def)
next
  case False
  define n where "n = length input - 16"
  let ?tag = "aead_tag (aead_poly_key key nonce) aad (take n input)"
  have t: "le_num ?tag = poly1305_spec (aead_message aad (take n input)) (aead_poly_key key nonce)" "length ?tag = 16"
    by (simp_all add: aead_tag_value)
  have d: "length (drop n input) = 16" using False by (simp add: n_def)
  have "tag_diff ?tag (drop n input) = 0 \<longleftrightarrow> le_num (drop n input) = le_num ?tag"
    using tag_diff_zero [OF t(2) d] le_num_inj [of "drop n input" ?tag] t(2) d by auto
  with False t(1) show ?thesis
    by (simp add: aead_decrypt_def Let_def n_def [symmetric])
qed

subsection \<open>Key derivation\<close>

definition xor_key :: "byte \<Rightarrow> byte list \<Rightarrow> byte list" where
  "xor_key c key = map (\<lambda>i. if i < length key then c XOR key ! i else c) [0..<64]"

definition hmac_sha256 :: "(byte list \<Rightarrow> byte list) \<Rightarrow> byte list \<Rightarrow> byte list \<Rightarrow> byte list" where
  "hmac_sha256 sha key msg =
     (let key = (if 64 < length key then sha key else key) in
      sha (xor_key 0x5c key @ sha (xor_key 0x36 key @ msg)))"

text \<open>
  The expansion loop, with the bytes \<open>n\<close> still to write; \<open>t\<close> holds the previous block.
\<close>

function hkdf_expand :: "(byte list \<Rightarrow> byte list) \<Rightarrow> byte list \<Rightarrow> byte list \<Rightarrow> byte list \<Rightarrow> byte \<Rightarrow> nat \<Rightarrow> byte list" where
  "hkdf_expand sha prk info t counter n =
     (if n = 0 then []
      else
        let buf = t @ (if 0 < length info \<and> length info \<le> 256 then info else []) @ [counter];
            t' = hmac_sha256 sha prk buf in
        take (min 32 n) t' @ hkdf_expand sha prk info t' (counter + 1) (n - min 32 n))"
  by pat_completeness auto
termination
  by (relation "measure (\<lambda>(sha, prk, info, t, counter, n). n)") auto

declare hkdf_expand.simps [simp del]

definition hkdf_sha256 :: "(byte list \<Rightarrow> byte list) \<Rightarrow> nat \<Rightarrow> byte list \<Rightarrow> byte list option \<Rightarrow> byte list \<Rightarrow> byte list" where
  "hkdf_sha256 sha out_len ikm salt info =
     (let prk = (case salt of
                   Some s \<Rightarrow> if s = [] then hmac_sha256 sha (replicate 32 0) ikm else hmac_sha256 sha s ikm
                 | None \<Rightarrow> hmac_sha256 sha (replicate 32 0) ikm) in
      hkdf_expand sha prk info [] 1 out_len)"

definition sha256_len :: "(byte list \<Rightarrow> byte list) \<Rightarrow> bool" where
  "sha256_len sha \<longleftrightarrow> (\<forall>xs. length (sha xs) = 32)"

lemma length_hmac: "sha256_len sha \<Longrightarrow> length (hmac_sha256 sha key msg) = 32"
  by (simp add: hmac_sha256_def Let_def sha256_len_def)

lemma expand_prefix:
  "sha256_len sha \<Longrightarrow> m \<le> n \<Longrightarrow> length (hkdf_expand sha prk info t c m) = m
     \<and> take m (hkdf_expand sha prk info t c n) = hkdf_expand sha prk info t c m"
proof (induction sha prk info t c m arbitrary: n rule: hkdf_expand.induct)
  case (1 sha prk info t c m)
  show ?case
  proof (cases "m = 0")
    case True
    then show ?thesis by (simp add: hkdf_expand.simps [of _ _ _ _ _ 0])
  next
    case False
    define buf where "buf = t @ (if 0 < length info \<and> length info \<le> 256 then info else []) @ [c]"
    define t' where "t' = hmac_sha256 sha prk buf"
    have t': "length t' = 32" unfolding t'_def by (rule length_hmac [OF 1(2)])
    have n: "n \<noteq> 0" using False 1(3) by simp
    have ih: "length (hkdf_expand sha prk info t' (c + 1) (m - min 32 m)) = m - min 32 m
        \<and> take (m - min 32 m) (hkdf_expand sha prk info t' (c + 1) k) = hkdf_expand sha prk info t' (c + 1) (m - min 32 m)"
      if "m - min 32 m \<le> k" for k
      using 1(1) [OF False buf_def t'_def 1(2) that] .
    have em: "hkdf_expand sha prk info t c m = take (min 32 m) t' @ hkdf_expand sha prk info t' (c + 1) (m - min 32 m)"
      using False by (simp add: hkdf_expand.simps [of _ _ _ _ _ m] Let_def buf_def t'_def)
    have en: "hkdf_expand sha prk info t c n = take (min 32 n) t' @ hkdf_expand sha prk info t' (c + 1) (n - min 32 n)"
      using n by (simp add: hkdf_expand.simps [of _ _ _ _ _ n] Let_def buf_def t'_def)
    show ?thesis
    proof (cases "m \<le> 32")
      case True
      then have m0: "m - min 32 m = 0" by simp
      from True t' 1(3) show ?thesis
        unfolding em en m0 by (simp add: hkdf_expand.simps [of _ _ _ _ _ 0] min_def)
    next
      case False
      with ih [of "n - min 32 n"] 1(3) t' show ?thesis unfolding em en by simp
    qed
  qed
qed

text \<open>
  Derived keys are consistent. With a 32-byte hash, \<open>hkdf_sha256\<close> writes exactly the number of
  bytes asked for, and asking for fewer bytes gives a prefix of asking for more, so the two
  ends of a session that derive different amounts of key material agree on what they share.
\<close>

theorem hkdf_prefix:
  assumes "sha256_len sha" "m \<le> n"
  shows "length (hkdf_sha256 sha n ikm salt info) = n
    \<and> take m (hkdf_sha256 sha n ikm salt info) = hkdf_sha256 sha m ikm salt info"
  using expand_prefix [OF assms(1) assms(2)] expand_prefix [OF assms(1) order_refl] by (simp add: hkdf_sha256_def Let_def)

theorem hkdf_prefix_witness:
  "take 5 (hkdf_sha256 (\<lambda>xs. take 32 (xs @ replicate 32 0)) 40 [1, 2] (Some [3]) [4])
     = hkdf_sha256 (\<lambda>xs. take 32 (xs @ replicate 32 0)) 5 [1, 2] (Some [3]) [4]"
proof -
  have "sha256_len (\<lambda>xs. take 32 (xs @ replicate 32 0))" by (simp add: sha256_len_def min_def)
  from hkdf_prefix [OF this, of 5 40 "[1, 2]" "Some [3]" "[4]"] show ?thesis by simp
qed

end
