(* ===== verification/MetaDict.thy ===== *)
theory MetaDict
  imports KvStore
begin

text \<open>
  The dictionary of record types, fields and schemas of \<open>src/metadata_dict.c\<close>: three caches over the
  flash store, each updated for one entry after a write. The three copies of the cache code
  share one contract, the locale \<open>ordinal_cache\<close>.

  C strings are the bytes before the terminating zero; \<open>name\<close> arrays are the whole 32 bytes.
  \<open>m_junk\<close> is what the stack held where a short record leaves a local buffer uninitialised.
\<close>

unbundle bit_operations_syntax

subsection \<open>State\<close>

definition META_NAME_MAX :: nat where "META_NAME_MAX = 31"
definition META_MAX_ITEMS :: nat where "META_MAX_ITEMS = 64"
definition META_TYPE_RECORD_TYPE :: u16 where "META_TYPE_RECORD_TYPE = 1022"
definition META_FIELD_RECORD_TYPE :: u16 where "META_FIELD_RECORD_TYPE = 1023"
definition META_SCHEMA_RECORD_TYPE :: u16 where "META_SCHEMA_RECORD_TYPE = 0"

record metadata_type_def_t =
  td_ordinal :: u16
  td_name :: "byte list"

record metadata_field_def_t =
  mf_ordinal :: u16
  mf_name :: "byte list"
  mf_field_type :: byte
  mf_max_len :: byte

record metadata_type_schema_t =
  ts_ordinal :: u16
  ts_fields :: "u16 list"

record meta_state =
  m_kv :: kv_state
  m_junk :: "nat \<Rightarrow> byte"
  g_type_cache :: "metadata_type_def_t list"
  g_field_cache :: "metadata_field_def_t list"
  g_schema_cache :: "metadata_type_schema_t list"

definition metadata_key :: "u16 \<Rightarrow> u16 \<Rightarrow> u32" where
  "metadata_key record_type ordinal = push_bit 22 (ucast record_type) OR ucast ordinal"

subsection \<open>Names\<close>

definition name_valid :: "byte list \<Rightarrow> bool" where
  "name_valid name \<longleftrightarrow> 0 < length name \<and> length name \<le> META_NAME_MAX"

fun ascii_ieq :: "byte list \<Rightarrow> byte list \<Rightarrow> bool" where
  "ascii_ieq (a # as) (b # bs) = (if tolower a \<noteq> tolower b then False else ascii_ieq as bs)"
| "ascii_ieq as bs = (as = [] \<and> bs = [])"

definition g_field_type_names :: "byte list list" where
  "g_field_type_names = map cstr
     [''bool'', ''char'', ''char[]'', ''byte'', ''byte[]'', ''uint8'', ''int8'', ''int16'', ''int32'', ''uint16'',
      ''uint32'', ''isodate'', ''isotime'', ''isodatetime'', ''utf8'', ''latin1'', ''array_u16'', ''blob'', ''lookup'']"

definition META_FT_UTF8 :: byte where "META_FT_UTF8 = 14"
definition META_FT_LATIN1 :: byte where "META_FT_LATIN1 = 15"

definition metadata_field_type_name :: "byte \<Rightarrow> byte list" where
  "metadata_field_type_name field_type =
     (if length g_field_type_names \<le> unat field_type then cstr ''unknown''
      else g_field_type_names ! unat field_type)"

definition metadata_field_type_parse :: "byte list \<Rightarrow> byte option" where
  "metadata_field_type_parse name =
     (case find (\<lambda>i. ascii_ieq name (g_field_type_names ! i)) [0..<length g_field_type_names] of
        Some i \<Rightarrow> Some (word_of_nat i)
      | None \<Rightarrow>
          if ascii_ieq name (cstr ''utf-8'') then Some META_FT_UTF8
          else if ascii_ieq name (cstr ''latin-1'') then Some META_FT_LATIN1
          else None)"

text \<open>The string in a zero-terminated array.\<close>

definition array_str :: "byte list \<Rightarrow> byte list" where
  "array_str name = takeWhile (\<lambda>c. c \<noteq> 0) name"

subsection \<open>Loading from the store\<close>

definition kv_load :: "kv_state \<Rightarrow> u32 \<Rightarrow> nat \<Rightarrow> byte list option" where
  "kv_load s key cap =
     (case kv_get_copy s key True (Some cap) of Found (Some data, n, version) \<Rightarrow> Some data | _ \<Rightarrow> None)"

definition stack_byte :: "meta_state \<Rightarrow> byte list \<Rightarrow> nat \<Rightarrow> byte" where
  "stack_byte s data i = (if i < length data then data ! i else m_junk s i)"

definition load_type_from_store :: "meta_state \<Rightarrow> u16 \<Rightarrow> metadata_type_def_t option" where
  "load_type_from_store s ordinal =
     (case kv_load (m_kv s) (metadata_key META_TYPE_RECORD_TYPE ordinal) (META_NAME_MAX + 1) of
        None \<Rightarrow> None
      | Some data \<Rightarrow>
          Some \<lparr>td_ordinal = ordinal, td_name = map (stack_byte s data) [0..<META_NAME_MAX] @ [0]\<rparr>)"

definition load_field_from_store :: "meta_state \<Rightarrow> u16 \<Rightarrow> metadata_field_def_t option" where
  "load_field_from_store s ordinal =
     (case kv_load (m_kv s) (metadata_key META_FIELD_RECORD_TYPE ordinal) (2 + (META_NAME_MAX + 1)) of
        None \<Rightarrow> None
      | Some data \<Rightarrow>
          if length data < 2 then None
          else Some \<lparr>mf_ordinal = ordinal, mf_name = map (\<lambda>i. stack_byte s data (2 + i)) [0..<META_NAME_MAX] @ [0],
                     mf_field_type = stack_byte s data 0, mf_max_len = stack_byte s data 1\<rparr>)"

definition load_schema_from_store :: "meta_state \<Rightarrow> u16 \<Rightarrow> metadata_type_schema_t option" where
  "load_schema_from_store s type_ordinal =
     (case kv_load (m_kv s) (metadata_key META_SCHEMA_RECORD_TYPE type_ordinal) (2 + META_MAX_ITEMS * 2) of
        None \<Rightarrow> None
      | Some buf \<Rightarrow>
          if length buf < 1 then None
          else
            let count = unat (buf ! 0) in
            if META_MAX_ITEMS < count then None
            else if length buf < 1 + count * 2 then None
            else Some \<lparr>ts_ordinal = type_ordinal,
                       ts_fields = map (\<lambda>i. le16 (buf ! (1 + i * 2)) (buf ! (2 + i * 2))) [0..<count]\<rparr>)"

subsection \<open>The caches\<close>

fun cache_get :: "('e \<Rightarrow> u16) \<Rightarrow> u16 \<Rightarrow> 'e list \<Rightarrow> 'e option" where
  "cache_get ord ordinal [] = None"
| "cache_get ord ordinal (e # es) = (if ord e = ordinal then Some e else cache_get ord ordinal es)"

text \<open>
  The body of the three \<open>cache_upsert\<close> functions: the first entry with the ordinal is loaded again
  (it stays as it is when loading fails); without one, a loaded entry goes to the end.
\<close>

fun cache_replace :: "('e \<Rightarrow> u16) \<Rightarrow> 'e option \<Rightarrow> u16 \<Rightarrow> 'e list \<Rightarrow> 'e list option" where
  "cache_replace ord loaded ordinal [] = None"
| "cache_replace ord loaded ordinal (e # es) =
     (if ord e = ordinal then Some ((case loaded of Some e' \<Rightarrow> e' | None \<Rightarrow> e) # es)
      else map_option ((#) e) (cache_replace ord loaded ordinal es))"

definition cache_upsert :: "('e \<Rightarrow> u16) \<Rightarrow> 'e option \<Rightarrow> u16 \<Rightarrow> 'e list \<Rightarrow> 'e list" where
  "cache_upsert ord loaded ordinal es =
     (case cache_replace ord loaded ordinal es of
        Some es' \<Rightarrow> es'
      | None \<Rightarrow>
          if length es < META_MAX_ITEMS then (case loaded of Some e \<Rightarrow> es @ [e] | None \<Rightarrow> es) else es)"

definition cache_upsert_type :: "meta_state \<Rightarrow> u16 \<Rightarrow> meta_state" where
  "cache_upsert_type s ordinal =
     s\<lparr>g_type_cache := cache_upsert td_ordinal (load_type_from_store s ordinal) ordinal (g_type_cache s)\<rparr>"

definition cache_upsert_field :: "meta_state \<Rightarrow> u16 \<Rightarrow> meta_state" where
  "cache_upsert_field s ordinal =
     s\<lparr>g_field_cache := cache_upsert mf_ordinal (load_field_from_store s ordinal) ordinal (g_field_cache s)\<rparr>"

definition cache_upsert_schema :: "meta_state \<Rightarrow> u16 \<Rightarrow> meta_state" where
  "cache_upsert_schema s ordinal =
     s\<lparr>g_schema_cache := cache_upsert ts_ordinal (load_schema_from_store s ordinal) ordinal (g_schema_cache s)\<rparr>"

text \<open>One of the three loops of \<open>metadata_reload_cache\<close>: the keys of one record type, at most 64.\<close>

definition reload_one :: "kv_state \<Rightarrow> u16 \<Rightarrow> (u16 \<Rightarrow> 'e option) \<Rightarrow> 'e list" where
  "reload_one kv record_type load =
     (let keys = map fst (kv_range kv (metadata_key record_type 0) 0xFFC00000 META_MAX_ITEMS) in
      fold (\<lambda>key es. if length es < META_MAX_ITEMS
                     then (case load (ucast (key AND 0x3FFFFF)) of Some e \<Rightarrow> es @ [e] | None \<Rightarrow> es) else es) keys [])"

definition metadata_reload_cache :: "meta_state \<Rightarrow> meta_state" where
  "metadata_reload_cache s =
     s\<lparr>g_type_cache := reload_one (m_kv s) META_TYPE_RECORD_TYPE (load_type_from_store s),
       g_field_cache := reload_one (m_kv s) META_FIELD_RECORD_TYPE (load_field_from_store s),
       g_schema_cache := reload_one (m_kv s) META_SCHEMA_RECORD_TYPE (load_schema_from_store s)\<rparr>"

subsection \<open>Public operations\<close>

definition metadata_set_type :: "flash_dev \<Rightarrow> meta_state \<Rightarrow> u16 \<Rightarrow> byte list \<Rightarrow> bool \<times> meta_state" where
  "metadata_set_type dev s ordinal name =
     (if \<not> name_valid name then (False, s)
      else
        let buf = name @ replicate (META_NAME_MAX + 1 - length name) 0;
            (ok, kv) = kv_put dev (m_kv s) (metadata_key META_TYPE_RECORD_TYPE ordinal) buf;
            s1 = s\<lparr>m_kv := kv\<rparr> in
        if \<not> ok then (False, s1) else (True, cache_upsert_type s1 ordinal))"

definition metadata_get_type :: "meta_state \<Rightarrow> u16 \<Rightarrow> metadata_type_def_t option" where
  "metadata_get_type s ordinal = cache_get td_ordinal ordinal (g_type_cache s)"

definition metadata_find_type :: "meta_state \<Rightarrow> byte list \<Rightarrow> metadata_type_def_t option" where
  "metadata_find_type s name = find (\<lambda>e. ascii_ieq name (array_str (td_name e))) (g_type_cache s)"

definition metadata_list_types :: "meta_state \<Rightarrow> nat \<Rightarrow> nat \<times> metadata_type_def_t list" where
  "metadata_list_types s max_items = (length (g_type_cache s), take max_items (g_type_cache s))"

definition metadata_set_field ::
  "flash_dev \<Rightarrow> meta_state \<Rightarrow> u16 \<Rightarrow> byte list \<Rightarrow> byte \<Rightarrow> byte \<Rightarrow> bool \<times> meta_state" where
  "metadata_set_field dev s ordinal name field_type max_len =
     (if \<not> name_valid name then (False, s)
      else if metadata_field_type_name field_type = cstr ''unknown'' then (False, s)
      else
        let rec = [field_type, max_len] @ name @ replicate (META_NAME_MAX + 1 - length name) 0;
            (ok, kv) = kv_put dev (m_kv s) (metadata_key META_FIELD_RECORD_TYPE ordinal) rec;
            s1 = s\<lparr>m_kv := kv\<rparr> in
        if \<not> ok then (False, s1) else (True, cache_upsert_field s1 ordinal))"

definition metadata_get_field :: "meta_state \<Rightarrow> u16 \<Rightarrow> metadata_field_def_t option" where
  "metadata_get_field s ordinal = cache_get mf_ordinal ordinal (g_field_cache s)"

definition metadata_find_field :: "meta_state \<Rightarrow> byte list \<Rightarrow> metadata_field_def_t option" where
  "metadata_find_field s name = find (\<lambda>e. ascii_ieq name (array_str (mf_name e))) (g_field_cache s)"

definition metadata_list_fields :: "meta_state \<Rightarrow> nat \<Rightarrow> nat \<times> metadata_field_def_t list" where
  "metadata_list_fields s max_items = (length (g_field_cache s), take max_items (g_field_cache s))"

definition metadata_set_schema :: "flash_dev \<Rightarrow> meta_state \<Rightarrow> u16 \<Rightarrow> u16 list \<Rightarrow> bool \<times> meta_state" where
  "metadata_set_schema dev s type_ordinal field_ordinals =
     (if META_MAX_ITEMS < length field_ordinals then (False, s)
      else
        let buf = word_of_nat (length field_ordinals) # concat (map bytes16 field_ordinals);
            (ok, kv) = kv_put dev (m_kv s) (metadata_key META_SCHEMA_RECORD_TYPE type_ordinal) buf;
            s1 = s\<lparr>m_kv := kv\<rparr> in
        if \<not> ok then (False, s1) else (True, cache_upsert_schema s1 type_ordinal))"

definition metadata_get_schema :: "meta_state \<Rightarrow> u16 \<Rightarrow> metadata_type_schema_t option" where
  "metadata_get_schema s ordinal = cache_get ts_ordinal ordinal (g_schema_cache s)"

definition metadata_list_schemas :: "meta_state \<Rightarrow> nat \<Rightarrow> nat \<times> metadata_type_schema_t list" where
  "metadata_list_schemas s max_items = (length (g_schema_cache s), take max_items (g_schema_cache s))"

subsection \<open>One cache over the store\<close>

definition coherent :: "('e \<Rightarrow> u16) \<Rightarrow> (u16 \<Rightarrow> 'e option) \<Rightarrow> 'e list \<Rightarrow> bool" where
  "coherent ord load es \<longleftrightarrow> distinct (map ord es) \<and> length es \<le> META_MAX_ITEMS \<and> (\<forall>e \<in> set es. load (ord e) = Some e)"

lemma cache_get_None: "cache_get ord ordinal es = None \<longleftrightarrow> ordinal \<notin> ord ` set es"
  by (induction es) auto

lemma cache_get_SomeD: "cache_get ord ordinal es = Some e \<Longrightarrow> e \<in> set es \<and> ord e = ordinal"
  by (induction es) (auto split: if_split_asm)

lemma cache_get_append: "cache_get ord ordinal (es @ es') =
    (case cache_get ord ordinal es of Some e \<Rightarrow> Some e | None \<Rightarrow> cache_get ord ordinal es')"
  by (induction es) auto

lemma cache_replace_None: "cache_replace ord loaded ordinal es = None \<longleftrightarrow> ordinal \<notin> ord ` set es"
  by (induction es) auto

lemma cache_replace_Some:
  "cache_replace ord (Some e) ordinal es = Some es' \<Longrightarrow> ord e = ordinal \<Longrightarrow>
     map ord es' = map ord es \<and> cache_get ord ordinal es' = Some e
     \<and> (\<forall>o'. o' \<noteq> ordinal \<longrightarrow> cache_get ord o' es' = cache_get ord o' es)
     \<and> (\<forall>x \<in> set es'. x = e \<or> x \<in> set es)"
  by (induction es arbitrary: es') (auto split: if_split_asm)

text \<open>
  What the three caches share: loading an ordinal gives an entry with that ordinal. The state \<open>'s\<close>
  is what the entries are loaded from.
\<close>

locale ordinal_cache =
  fixes ord :: "'e \<Rightarrow> u16" and load :: "'s \<Rightarrow> u16 \<Rightarrow> 'e option"
  assumes load_ord: "load s ordinal = Some e \<Longrightarrow> ord e = ordinal"
begin

lemma get_loads:
  "coherent ord (load s) es \<Longrightarrow> cache_get ord ordinal es = Some e \<Longrightarrow> load s ordinal = Some e"
  using cache_get_SomeD by (fastforce simp: coherent_def)

lemma get_upsert:
  assumes "load s ordinal = Some e"
  shows "cache_get ord o' (cache_upsert ord (load s ordinal) ordinal es) =
    (if o' = ordinal \<and> (ordinal \<in> ord ` set es \<or> length es < META_MAX_ITEMS) then Some e else cache_get ord o' es)"
proof -
  have o: "ord e = ordinal" by (rule load_ord [OF assms])
  show ?thesis
  proof (cases "cache_replace ord (Some e) ordinal es")
    case None
    then have n: "ordinal \<notin> ord ` set es" by (simp add: cache_replace_None)
    have u: "cache_upsert ord (load s ordinal) ordinal es = (if length es < META_MAX_ITEMS then es @ [e] else es)"
      by (simp add: cache_upsert_def assms None)
    have g: "cache_get ord ordinal es = None" using n by (simp add: cache_get_None)
    show ?thesis
    proof (cases "o' = ordinal")
      case True
      with n g show ?thesis by (simp add: u cache_get_append o)
    next
      case False
      with o show ?thesis by (auto simp: u cache_get_append split: option.split)
    qed
  next
    case (Some es')
    then have "ordinal \<in> ord ` set es" using cache_replace_None [of ord "Some e" ordinal es] by auto
    with cache_replace_Some [OF Some o] show ?thesis by (simp add: cache_upsert_def assms Some)
  qed
qed

lemma upsert_coherent:
  assumes co: "coherent ord (load s) es" and l: "load s' ordinal = Some e"
    and same: "\<And>o'. o' \<noteq> ordinal \<Longrightarrow> load s' o' = load s o'"
  shows "coherent ord (load s') (cache_upsert ord (load s' ordinal) ordinal es)"
proof -
  have o: "ord e = ordinal" by (rule load_ord [OF l])
  have keep: "load s' (ord x) = Some x" if "x \<in> set es" "ord x \<noteq> ordinal" for x
    using co that same by (simp add: coherent_def)
  show ?thesis
  proof (cases "cache_replace ord (Some e) ordinal es")
    case None
    then have n: "ordinal \<notin> ord ` set es" by (simp add: cache_replace_None)
    then have a: "\<forall>x \<in> set es. load s' (ord x) = Some x" using keep by (metis imageI)
    have u: "cache_upsert ord (load s' ordinal) ordinal es = (if length es < META_MAX_ITEMS then es @ [e] else es)"
      by (simp add: cache_upsert_def l None)
    from co a n o l show ?thesis unfolding u by (simp add: coherent_def)
  next
    case (Some es')
    note r = cache_replace_Some [OF Some o]
    from r have "length es' = length es" by (metis length_map)
    with r co have d: "distinct (map ord es')" "length es' \<le> META_MAX_ITEMS" by (simp_all add: coherent_def)
    have "x = e" if "x \<in> set es'" "ord x = ordinal" for x
    proof -
      from r have "e \<in> set es'" using cache_get_SomeD by fast
      with d(1) that o show ?thesis by (simp add: distinct_map inj_on_def)
    qed
    then have "load s' (ord x) = Some x" if "x \<in> set es'" for x
      using that r keep l o by (cases "ord x = ordinal") auto
    with d show ?thesis by (simp add: coherent_def cache_upsert_def l Some)
  qed
qed

lemma same_coherent: "coherent ord (load s) es \<Longrightarrow> (\<And>o'. load s' o' = load s o') \<Longrightarrow> coherent ord (load s') es"
  by (simp add: coherent_def)

end

interpretation types: ordinal_cache td_ordinal load_type_from_store
  by unfold_locales (auto simp: load_type_from_store_def split: option.split_asm)

interpretation fields: ordinal_cache mf_ordinal load_field_from_store
  by unfold_locales (auto simp: load_field_from_store_def split: option.split_asm if_split_asm)

interpretation schemas: ordinal_cache ts_ordinal load_schema_from_store
  by unfold_locales (auto simp: load_schema_from_store_def Let_def split: option.split_asm if_split_asm)

subsection \<open>The caches and the store\<close>

lemma high_bit16: "16 \<le> m \<Longrightarrow> \<not> bit (x :: u16) m"
  using bit_imp_le_length [of x m] by auto

lemma metadata_key_ordinal: "take_bit 22 (metadata_key t ordinal) = ucast ordinal"
  by (rule bit_word_eqI) (use high_bit16 [of _ ordinal] in \<open>auto simp: metadata_key_def bit_simps\<close>)

lemma metadata_key_type: "drop_bit 22 (metadata_key t ordinal) = take_bit 10 (ucast t)"
  by (rule bit_word_eqI) (use high_bit16 [of _ ordinal] in \<open>auto simp: metadata_key_def bit_simps\<close>)

lemma metadata_key_eq:
  "metadata_key t ordinal = metadata_key t' ordinal' \<Longrightarrow> ordinal = ordinal' \<and> (take_bit 10 (ucast t) :: u32) = take_bit 10 (ucast t')"
proof -
  assume e: "metadata_key t ordinal = metadata_key t' ordinal'"
  have "(ucast ordinal :: u32) = ucast ordinal'"
    using arg_cong [OF e, of "take_bit 22"] by (simp only: metadata_key_ordinal)
  then have "unat (ucast ordinal :: u32) = unat (ucast ordinal' :: u32)" by simp
  moreover have "unat (ucast x :: u32) = unat x" for x :: u16
  proof -
    have "unat x < 2 ^ LENGTH(16)" by (rule unsigned_less)
    then show ?thesis by (simp add: unsigned_ucast_eq take_bit_nat_eq_self)
  qed
  ultimately have "unat ordinal = unat ordinal'" by (simp only:)
  then have "ordinal = ordinal'" by (simp add: word_unat_eq_iff)
  with arg_cong [OF e, of "drop_bit 22"] show ?thesis by (simp only: metadata_key_type)
qed

lemma put_load:
  assumes nor: "nor_flash dev" and inv: "store_inv s" and v: "kv_small val" and run: "kv_put dev s key val = (b, s')"
  shows "store_inv s'" and "b \<Longrightarrow> length val \<le> cap \<Longrightarrow> kv_load s' key cap = Some val"
    and "k \<noteq> key \<or> \<not> b \<Longrightarrow> kv_load s' k cap = kv_load s k cap"
proof -
  obtain r where r: "kv_put_if_version dev s key val KV_VERSION_ANY = (r, s')" "b = (r \<noteq> None)"
    using run by (auto simp: kv_put_def split: prod.split_asm)
  note p = put_store [OF nor inv r(1)]
  show "store_inv s'" by (rule p(1))
  show "kv_load s' k cap = kv_load s k cap" if "k \<noteq> key \<or> \<not> b"
    using p(2) that r(2) by (simp add: kv_load_def)
  show "kv_load s' key cap = Some val" if b: "b" and l: "length val \<le> cap"
  proof -
    from b r(2) obtain ver where "r = Some ver" by auto
    from p(3) [OF this] small_fits [OF v] obtain loc where g: "idx_get s' key = Some (loc, ver, 0)"
      and c: "kv_get_copy s' key True (Some KV_MAX_VALUE) = Found (Some val, length val, ver)" by auto
    from c g have "read_record (kv_flash s') loc key True (Some KV_MAX_VALUE) = Found (Some val, length val, ver)"
      by (simp add: kv_get_copy_def)
    from read_record_cap [OF this l] g show ?thesis by (simp add: kv_load_def kv_get_copy_def)
  qed
qed

definition meta_inv :: "meta_state \<Rightarrow> bool" where
  "meta_inv s \<longleftrightarrow> store_inv (m_kv s)
     \<and> coherent td_ordinal (load_type_from_store s) (g_type_cache s)
     \<and> coherent mf_ordinal (load_field_from_store s) (g_field_cache s)
     \<and> coherent ts_ordinal (load_schema_from_store s) (g_schema_cache s)"

lemmas meta_types = META_TYPE_RECORD_TYPE_def META_FIELD_RECORD_TYPE_def META_SCHEMA_RECORD_TYPE_def

lemma metadata_key_types [simp]:
  "metadata_key META_TYPE_RECORD_TYPE a \<noteq> metadata_key META_FIELD_RECORD_TYPE b"
  "metadata_key META_TYPE_RECORD_TYPE a \<noteq> metadata_key META_SCHEMA_RECORD_TYPE b"
  "metadata_key META_FIELD_RECORD_TYPE a \<noteq> metadata_key META_TYPE_RECORD_TYPE b"
  "metadata_key META_FIELD_RECORD_TYPE a \<noteq> metadata_key META_SCHEMA_RECORD_TYPE b"
  "metadata_key META_SCHEMA_RECORD_TYPE a \<noteq> metadata_key META_TYPE_RECORD_TYPE b"
  "metadata_key META_SCHEMA_RECORD_TYPE a \<noteq> metadata_key META_FIELD_RECORD_TYPE b"
  by (auto dest!: metadata_key_eq simp: meta_types take_bit_eq_mod)

lemma metadata_key_same [simp]: "metadata_key t a = metadata_key t b \<longleftrightarrow> a = b"
  by (auto dest: metadata_key_eq)

lemma load_cong:
  "kv_load (m_kv s') (metadata_key META_TYPE_RECORD_TYPE o') (META_NAME_MAX + 1) = kv_load (m_kv s) (metadata_key META_TYPE_RECORD_TYPE o') (META_NAME_MAX + 1)
     \<Longrightarrow> m_junk s' = m_junk s \<Longrightarrow> load_type_from_store s' o' = load_type_from_store s o'"
  "kv_load (m_kv s') (metadata_key META_FIELD_RECORD_TYPE o') (2 + (META_NAME_MAX + 1)) = kv_load (m_kv s) (metadata_key META_FIELD_RECORD_TYPE o') (2 + (META_NAME_MAX + 1))
     \<Longrightarrow> m_junk s' = m_junk s \<Longrightarrow> load_field_from_store s' o' = load_field_from_store s o'"
  "kv_load (m_kv s') (metadata_key META_SCHEMA_RECORD_TYPE o') (2 + META_MAX_ITEMS * 2) = kv_load (m_kv s) (metadata_key META_SCHEMA_RECORD_TYPE o') (2 + META_MAX_ITEMS * 2)
     \<Longrightarrow> load_schema_from_store s' o' = load_schema_from_store s o'"
  by (auto simp: load_type_from_store_def load_field_from_store_def load_schema_from_store_def stack_byte_def fun_eq_iff
      split: option.split)

subsection \<open>What the writes store\<close>

lemma map_stack_byte: "i + n \<le> length d \<Longrightarrow> map (\<lambda>j. stack_byte s d (i + j)) [0..<n] = segment i n d"
  by (rule nth_equalityI) (auto simp: stack_byte_def)

definition pad_name :: "byte list \<Rightarrow> byte list" where
  "pad_name name = name @ replicate (META_NAME_MAX + 1 - length name) 0"

lemma pad_name_take: "length name \<le> META_NAME_MAX \<Longrightarrow> take META_NAME_MAX (pad_name name) @ [0] = pad_name name"
  by (simp add: pad_name_def Suc_diff_le replicate_append_same flip: replicate_Suc)

lemma length_pad_name [simp]: "length name \<le> META_NAME_MAX \<Longrightarrow> length (pad_name name) = META_NAME_MAX + 1"
  by (simp add: pad_name_def)

lemma schema_bytes: "i < length fs \<Longrightarrow>
    concat (map bytes16 fs) ! (2 * i) = ucast (fs ! i) \<and> concat (map bytes16 fs) ! Suc (2 * i) = ucast (drop_bit 8 (fs ! i))"
  by (induction fs arbitrary: i) (auto simp: bytes16_def nth_Cons' less_Suc_eq_0_disj)

lemma length_schema_bytes: "length (concat (map bytes16 fs)) = 2 * length fs"
  by (induction fs) auto

lemma load_type_pad:
  assumes "length name \<le> META_NAME_MAX"
    and "kv_load (m_kv s) (metadata_key META_TYPE_RECORD_TYPE ordinal) (META_NAME_MAX + 1) = Some (pad_name name)"
  shows "load_type_from_store s ordinal = Some \<lparr>td_ordinal = ordinal, td_name = pad_name name\<rparr>"
  using assms map_stack_byte [of 0 META_NAME_MAX "pad_name name" s] pad_name_take [OF assms(1)]
  by (simp add: load_type_from_store_def segment_def)

lemma load_field_pad:
  assumes "length name \<le> META_NAME_MAX"
    and "kv_load (m_kv s) (metadata_key META_FIELD_RECORD_TYPE ordinal) (2 + (META_NAME_MAX + 1)) = Some (ft # ml # pad_name name)"
  shows "load_field_from_store s ordinal
    = Some \<lparr>mf_ordinal = ordinal, mf_name = pad_name name, mf_field_type = ft, mf_max_len = ml\<rparr>"
  using assms map_stack_byte [of 2 META_NAME_MAX "ft # ml # pad_name name" s] pad_name_take [OF assms(1)]
  by (simp add: load_field_from_store_def segment_def stack_byte_def)

lemma load_schema_bytes:
  assumes "length fs \<le> META_MAX_ITEMS"
    and "kv_load (m_kv s) (metadata_key META_SCHEMA_RECORD_TYPE ordinal) (2 + META_MAX_ITEMS * 2)
      = Some (word_of_nat (length fs) # concat (map bytes16 fs))"
  shows "load_schema_from_store s ordinal = Some \<lparr>ts_ordinal = ordinal, ts_fields = fs\<rparr>"
proof -
  have n: "unat (word_of_nat (length fs) :: byte) = length fs"
    using assms(1) by (simp add: META_MAX_ITEMS_def unat_of_nat take_bit_nat_eq_self)
  have "map (\<lambda>i. le16 ((b # concat (map bytes16 fs)) ! (1 + i * 2)) ((b # concat (map bytes16 fs)) ! (2 + i * 2))) [0..<length fs] = fs"
    for b using schema_bytes [of _ fs] by (intro nth_equalityI) (auto simp: mult.commute)
  with assms n show ?thesis
    by (simp add: load_schema_from_store_def Let_def length_schema_bytes)
qed

lemma load_upsert [simp]:
  "load_type_from_store (s\<lparr>g_type_cache := ts\<rparr>) = load_type_from_store s"
  "load_type_from_store (s\<lparr>g_field_cache := fs\<rparr>) = load_type_from_store s"
  "load_type_from_store (s\<lparr>g_schema_cache := cs\<rparr>) = load_type_from_store s"
  "load_field_from_store (s\<lparr>g_type_cache := ts\<rparr>) = load_field_from_store s"
  "load_field_from_store (s\<lparr>g_field_cache := fs\<rparr>) = load_field_from_store s"
  "load_field_from_store (s\<lparr>g_schema_cache := cs\<rparr>) = load_field_from_store s"
  "load_schema_from_store (s\<lparr>g_type_cache := ts\<rparr>) = load_schema_from_store s"
  "load_schema_from_store (s\<lparr>g_field_cache := fs\<rparr>) = load_schema_from_store s"
  "load_schema_from_store (s\<lparr>g_schema_cache := cs\<rparr>) = load_schema_from_store s"
  by (auto simp: fun_eq_iff intro!: load_cong)

text \<open>The write that the three operations share, and what it leaves of the caches.\<close>

lemma meta_put:
  assumes nor: "nor_flash dev" and inv: "meta_inv s" and v: "kv_small val"
    and put: "kv_put dev (m_kv s) key val = (ok, kv)" and s1: "s1 = s\<lparr>m_kv := kv\<rparr>"
  shows "store_inv (m_kv s1)" and "ok \<Longrightarrow> length val \<le> cap \<Longrightarrow> kv_load (m_kv s1) key cap = Some val"
    and "metadata_key META_TYPE_RECORD_TYPE o' \<noteq> key \<or> \<not> ok \<Longrightarrow> load_type_from_store s1 o' = load_type_from_store s o'"
    and "metadata_key META_FIELD_RECORD_TYPE o' \<noteq> key \<or> \<not> ok \<Longrightarrow> load_field_from_store s1 o' = load_field_from_store s o'"
    and "metadata_key META_SCHEMA_RECORD_TYPE o' \<noteq> key \<or> \<not> ok \<Longrightarrow> load_schema_from_store s1 o' = load_schema_from_store s o'"
    and "\<not> ok \<Longrightarrow> meta_inv s1"
proof -
  have si: "store_inv (m_kv s)" using inv by (simp add: meta_inv_def)
  note p = put_load [OF nor si v put]
  show i: "store_inv (m_kv s1)" using p(1) by (simp add: s1)
  show "ok \<Longrightarrow> length val \<le> cap \<Longrightarrow> kv_load (m_kv s1) key cap = Some val" using p(2) by (simp add: s1)
  have t: "load_type_from_store s1 o' = load_type_from_store s o'" if "metadata_key META_TYPE_RECORD_TYPE o' \<noteq> key \<or> \<not> ok" for o'
    using that by (intro load_cong) (simp_all add: s1 p(3))
  have f: "load_field_from_store s1 o' = load_field_from_store s o'" if "metadata_key META_FIELD_RECORD_TYPE o' \<noteq> key \<or> \<not> ok" for o'
    using that by (intro load_cong) (simp_all add: s1 p(3))
  have c: "load_schema_from_store s1 o' = load_schema_from_store s o'" if "metadata_key META_SCHEMA_RECORD_TYPE o' \<noteq> key \<or> \<not> ok" for o'
    using that by (intro load_cong) (simp_all add: s1 p(3))
  show "metadata_key META_TYPE_RECORD_TYPE o' \<noteq> key \<or> \<not> ok \<Longrightarrow> load_type_from_store s1 o' = load_type_from_store s o'" by (rule t)
  show "metadata_key META_FIELD_RECORD_TYPE o' \<noteq> key \<or> \<not> ok \<Longrightarrow> load_field_from_store s1 o' = load_field_from_store s o'" by (rule f)
  show "metadata_key META_SCHEMA_RECORD_TYPE o' \<noteq> key \<or> \<not> ok \<Longrightarrow> load_schema_from_store s1 o' = load_schema_from_store s o'" by (rule c)
  show "\<not> ok \<Longrightarrow> meta_inv s1" using i t f c inv by (simp add: meta_inv_def coherent_def s1)
qed

lemma set_type_spec:
  assumes nor: "nor_flash dev" and inv: "meta_inv s" and run: "metadata_set_type dev s ordinal name = (b, s')"
  shows "meta_inv s' \<and> (b \<longrightarrow> load_type_from_store s' ordinal = Some \<lparr>td_ordinal = ordinal, td_name = pad_name name\<rparr>
    \<and> g_type_cache s' = cache_upsert td_ordinal (load_type_from_store s' ordinal) ordinal (g_type_cache s))"
proof (cases "name_valid name")
  case True
  then have l: "length name \<le> META_NAME_MAX" by (simp add: name_valid_def)
  then have sm: "kv_small (pad_name name)" by (simp add: kv_small_def META_NAME_MAX_def)
  obtain ok kv where put: "kv_put dev (m_kv s) (metadata_key META_TYPE_RECORD_TYPE ordinal) (pad_name name) = (ok, kv)"
    by (cases "kv_put dev (m_kv s) (metadata_key META_TYPE_RECORD_TYPE ordinal) (pad_name name)")
  define s1 where "s1 = s\<lparr>m_kv := kv\<rparr>"
  note p = meta_put [OF nor inv sm put s1_def]
  have r: "(b, s') = (if ok then (True, cache_upsert_type s1 ordinal) else (False, s1))"
    using run True put by (simp add: metadata_set_type_def pad_name_def s1_def Let_def split: if_splits)
  show ?thesis
  proof (cases ok)
    case True
    with l have ld: "load_type_from_store s1 ordinal = Some \<lparr>td_ordinal = ordinal, td_name = pad_name name\<rparr>"
      by (intro load_type_pad p(2)) simp_all
    have co: "coherent td_ordinal (load_type_from_store s) (g_type_cache s)" using inv by (simp add: meta_inv_def)
    have "coherent td_ordinal (load_type_from_store s1) (cache_upsert td_ordinal (load_type_from_store s1 ordinal) ordinal (g_type_cache s))"
      by (rule types.upsert_coherent [OF co ld]) (simp add: p(3))
    moreover have "b" "s' = cache_upsert_type s1 ordinal" using r True by simp_all
    moreover have "g_type_cache s1 = g_type_cache s" "g_field_cache s1 = g_field_cache s" "g_schema_cache s1 = g_schema_cache s"
      by (simp_all add: s1_def)
    ultimately show ?thesis using p(1) inv ld by (simp add: meta_inv_def cache_upsert_type_def coherent_def p(4,5))
  qed (use r p(6) in simp)
qed (use run inv in \<open>auto simp: metadata_set_type_def\<close>)

lemma set_field_spec:
  assumes nor: "nor_flash dev" and inv: "meta_inv s" and run: "metadata_set_field dev s ordinal name ft ml = (b, s')"
  shows "meta_inv s' \<and> (b \<longrightarrow> load_field_from_store s' ordinal
      = Some \<lparr>mf_ordinal = ordinal, mf_name = pad_name name, mf_field_type = ft, mf_max_len = ml\<rparr>
    \<and> g_field_cache s' = cache_upsert mf_ordinal (load_field_from_store s' ordinal) ordinal (g_field_cache s))"
proof (cases "name_valid name \<and> metadata_field_type_name ft \<noteq> cstr ''unknown''")
  case True
  then have l: "length name \<le> META_NAME_MAX" by (simp add: name_valid_def)
  let ?v = "ft # ml # pad_name name"
  have sm: "kv_small ?v" using l by (simp add: kv_small_def META_NAME_MAX_def)
  obtain ok kv where put: "kv_put dev (m_kv s) (metadata_key META_FIELD_RECORD_TYPE ordinal) ?v = (ok, kv)"
    by (cases "kv_put dev (m_kv s) (metadata_key META_FIELD_RECORD_TYPE ordinal) ?v")
  define s1 where "s1 = s\<lparr>m_kv := kv\<rparr>"
  note p = meta_put [OF nor inv sm put s1_def]
  have r: "(b, s') = (if ok then (True, cache_upsert_field s1 ordinal) else (False, s1))"
    using run True put by (simp add: metadata_set_field_def pad_name_def s1_def Let_def split: if_splits)
  show ?thesis
  proof (cases ok)
    case True
    with l have ld: "load_field_from_store s1 ordinal
        = Some \<lparr>mf_ordinal = ordinal, mf_name = pad_name name, mf_field_type = ft, mf_max_len = ml\<rparr>"
      by (intro load_field_pad p(2)) simp_all
    have co: "coherent mf_ordinal (load_field_from_store s) (g_field_cache s)" using inv by (simp add: meta_inv_def)
    have "coherent mf_ordinal (load_field_from_store s1) (cache_upsert mf_ordinal (load_field_from_store s1 ordinal) ordinal (g_field_cache s))"
      by (rule fields.upsert_coherent [OF co ld]) (simp add: p(4))
    moreover have "b" "s' = cache_upsert_field s1 ordinal" using r True by simp_all
    moreover have "g_type_cache s1 = g_type_cache s" "g_field_cache s1 = g_field_cache s" "g_schema_cache s1 = g_schema_cache s"
      by (simp_all add: s1_def)
    ultimately show ?thesis using p(1) inv ld by (simp add: meta_inv_def cache_upsert_field_def coherent_def p(3,5))
  qed (use r p(6) in simp)
qed (use run inv in \<open>auto simp: metadata_set_field_def split: if_splits\<close>)

lemma set_schema_spec:
  assumes nor: "nor_flash dev" and inv: "meta_inv s" and run: "metadata_set_schema dev s ordinal fs = (b, s')"
  shows "meta_inv s' \<and> (b \<longrightarrow> load_schema_from_store s' ordinal = Some \<lparr>ts_ordinal = ordinal, ts_fields = fs\<rparr>
    \<and> g_schema_cache s' = cache_upsert ts_ordinal (load_schema_from_store s' ordinal) ordinal (g_schema_cache s))"
proof (cases "length fs \<le> META_MAX_ITEMS")
  case True
  let ?v = "word_of_nat (length fs) # concat (map bytes16 fs)"
  have sm: "kv_small ?v" using True by (simp add: kv_small_def META_MAX_ITEMS_def length_schema_bytes)
  obtain ok kv where put: "kv_put dev (m_kv s) (metadata_key META_SCHEMA_RECORD_TYPE ordinal) ?v = (ok, kv)"
    by (cases "kv_put dev (m_kv s) (metadata_key META_SCHEMA_RECORD_TYPE ordinal) ?v")
  define s1 where "s1 = s\<lparr>m_kv := kv\<rparr>"
  note p = meta_put [OF nor inv sm put s1_def]
  have r: "(b, s') = (if ok then (True, cache_upsert_schema s1 ordinal) else (False, s1))"
    using run True put by (simp add: metadata_set_schema_def s1_def Let_def split: if_splits)
  show ?thesis
  proof (cases ok)
    case ok: True
    with True have ld: "load_schema_from_store s1 ordinal = Some \<lparr>ts_ordinal = ordinal, ts_fields = fs\<rparr>"
      by (intro load_schema_bytes p(2)) (simp_all add: length_schema_bytes)
    have co: "coherent ts_ordinal (load_schema_from_store s) (g_schema_cache s)" using inv by (simp add: meta_inv_def)
    have "coherent ts_ordinal (load_schema_from_store s1) (cache_upsert ts_ordinal (load_schema_from_store s1 ordinal) ordinal (g_schema_cache s))"
      by (rule schemas.upsert_coherent [OF co ld]) (simp add: p(5))
    moreover have "b" "s' = cache_upsert_schema s1 ordinal" using r ok by simp_all
    moreover have "g_type_cache s1 = g_type_cache s" "g_field_cache s1 = g_field_cache s" "g_schema_cache s1 = g_schema_cache s"
      by (simp_all add: s1_def)
    ultimately show ?thesis using p(1) inv ld by (simp add: meta_inv_def cache_upsert_schema_def coherent_def p(3,4))
  qed (use r p(6) in simp)
qed (use run inv in \<open>auto simp: metadata_set_schema_def\<close>)

subsection \<open>Reloading\<close>

lemma reload_fold:
  assumes "\<And>o' e. load o' = Some e \<Longrightarrow> ord e = o'"
  shows "coherent ord load es \<Longrightarrow> distinct os \<Longrightarrow> set os \<inter> ord ` set es = {} \<Longrightarrow>
    coherent ord load (fold (\<lambda>ordinal es. if length es < META_MAX_ITEMS
      then (case load ordinal of Some e \<Rightarrow> es @ [e] | None \<Rightarrow> es) else es) os es)"
proof (induction os arbitrary: es)
  case (Cons x os)
  show ?case
  proof (cases "length es < META_MAX_ITEMS \<and> load x \<noteq> None")
    case False
    with Cons show ?thesis by auto
  next
    case True
    then obtain e where e: "load x = Some e" by auto
    have x: "ord e = x" by (rule assms [OF e])
    have "coherent ord load (es @ [e])"
      using Cons.prems True e x by (auto simp: coherent_def)
    from Cons.IH [OF this] Cons.prems True e x show ?thesis by auto
  qed
qed simp

text \<open>The keys that the program itself writes under a record type: the record number has 16 bits.\<close>

definition short_ids :: "kv_state \<Rightarrow> u16 \<Rightarrow> bool" where
  "short_ids s record_type \<longleftrightarrow> list_all (\<lambda>e. drop_bit 22 (e_key e) = drop_bit 22 (metadata_key record_type 0)
     \<longrightarrow> unat (e_key e AND 0x3FFFFF) < 65536) (g_index s)"

lemma key_parts_eq: "drop_bit 22 a = drop_bit 22 b \<Longrightarrow> take_bit 22 a = take_bit 22 b \<Longrightarrow> a = (b :: u32)"
  by (metis bits_ident)

lemma key_prefix: "a AND 0xFFC00000 = b AND 0xFFC00000 \<longleftrightarrow> drop_bit 22 a = drop_bit 22 (b :: u32)"
proof -
  have m: "(0xFFC00000 :: u32) = push_bit 22 (mask 10)" by (simp add: mask_eq_exp_minus_1)
  have k: "x AND 0xFFC00000 = push_bit 22 (drop_bit 22 x)" for x :: u32
    unfolding m by (rule bit_word_eqI) (auto simp: bit_simps)
  have "drop_bit 22 (push_bit 22 (drop_bit 22 x)) = drop_bit 22 x" for x :: u32
    by (rule bit_word_eqI) (auto simp: bit_simps dest: bit_imp_le_length)
  then show ?thesis unfolding k by metis
qed

lemma unat_cast16: "unat (w :: u32) < 65536 \<Longrightarrow> unat (ucast w :: u16) = unat w"
  by (simp add: unsigned_ucast_eq take_bit_nat_eq_self)

lemma reload_coherent:
  assumes inv: "idx_inv s" and short: "short_ids s t" and ord: "\<And>o' e. load o' = Some e \<Longrightarrow> ord e = o'"
  shows "coherent ord load (reload_one s t load)"
proof -
  let ?p = "\<lambda>e. e_key e AND 0xFFC00000 = metadata_key t 0 AND 0xFFC00000"
  let ?o = "\<lambda>key. ucast (key AND 0x3FFFFF) :: u16"
  define ks where "ks = map fst (kv_range s (metadata_key t 0) 0xFFC00000 META_MAX_ITEMS)"
  have ks: "ks = take META_MAX_ITEMS (map e_key (filter ?p (g_index s)))"
    by (simp add: ks_def kv_range_def take_map comp_def)
  have "distinct (map e_key (g_index s))"
    using inv by (auto simp: idx_inv_def idx_sorted_def strict_sorted_iff)
  then have d: "distinct ks" unfolding ks by (intro distinct_take) (simp add: distinct_map_filter)
  have k: "drop_bit 22 x = drop_bit 22 (metadata_key t 0) \<and> unat (x AND 0x3FFFFF) < 65536" if "x \<in> set ks" for x
  proof -
    from that obtain e where e: "e \<in> set (g_index s)" "?p e" "x = e_key e"
      unfolding ks using set_take_subset by fastforce
    then have "drop_bit 22 x = drop_bit 22 (metadata_key t 0)" using key_prefix by blast
    with short e show ?thesis by (auto simp: short_ids_def list_all_iff)
  qed
  have "x = y" if "x \<in> set ks" "y \<in> set ks" "?o x = ?o y" for x y
  proof -
    have "unat (?o z) = unat (z AND 0x3FFFFF)" if "z \<in> set ks" for z
      by (rule unat_cast16) (rule k [OF that, THEN conjunct2])
    with that have "unat (x AND 0x3FFFFF) = unat (y AND 0x3FFFFF)" by metis
    then have a: "x AND 0x3FFFFF = y AND 0x3FFFFF" by (simp only: word_unat_eq_iff)
    have "(0x3FFFFF :: u32) = mask 22" by (simp add: mask_eq_exp_minus_1)
    with a have "take_bit 22 x = take_bit 22 y" by (simp only: flip: take_bit_eq_mask)
    moreover have "drop_bit 22 x = drop_bit 22 y" using k that by metis
    ultimately show ?thesis by (rule key_parts_eq [rotated])
  qed
  then have "distinct (map ?o ks)" using d by (simp add: distinct_map inj_on_def)
  from reload_fold [of load ord "[]" "map ?o ks", OF ord _ this]
  show ?thesis by (simp add: reload_one_def ks_def [symmetric] fold_map comp_def coherent_def)
qed

subsection \<open>The names of the field types\<close>

lemma ascii_ieq_iff: "ascii_ieq a b \<longleftrightarrow> map tolower a = map tolower b"
  by (induction a b rule: ascii_ieq.induct) auto

lemma type_names_length [simp]: "length g_field_type_names = 19"
  by (simp add: g_field_type_names_def)

lemma type_names_lower: "name \<in> set g_field_type_names \<Longrightarrow> map tolower name = name"
  by (auto simp: g_field_type_names_def cstr_def tolower_def)

lemma type_names_distinct: "distinct g_field_type_names"
  by (simp add: g_field_type_names_def cstr_def)

lemma parse_type_name:
  assumes "i < length g_field_type_names"
  shows "metadata_field_type_parse (g_field_type_names ! i) = Some (word_of_nat i)"
proof -
  have "ascii_ieq (g_field_type_names ! i) (g_field_type_names ! j) \<longleftrightarrow> j = i" if "j < 19" for j
    using that assms type_names_lower [OF nth_mem] nth_eq_iff_index_eq [OF type_names_distinct, of i j]
    by (auto simp: ascii_ieq_iff)
  then have "find (\<lambda>j. ascii_ieq (g_field_type_names ! i) (g_field_type_names ! j)) [0..<19] = Some i"
    using assms by (auto simp: find_Some_iff)
  then show ?thesis by (simp add: metadata_field_type_parse_def)
qed

lemma parse_unknown: "metadata_field_type_parse (cstr ''unknown'') = None"
proof -
  have "cstr ''unknown'' \<notin> set g_field_type_names" by (simp add: g_field_type_names_def cstr_def)
  moreover have l: "map tolower (cstr ''unknown'') = cstr ''unknown''" by (simp add: cstr_def tolower_def)
  ultimately have "\<not> ascii_ieq (cstr ''unknown'') (g_field_type_names ! j)" if "j < 19" for j
    using that type_names_lower [OF nth_mem, of j] nth_mem [of j g_field_type_names] by (auto simp: ascii_ieq_iff)
  then have "find (\<lambda>j. ascii_ieq (cstr ''unknown'') (g_field_type_names ! j)) [0..<19] = None"
    by (simp add: find_None_iff)
  moreover have "\<not> ascii_ieq (cstr ''unknown'') (cstr ''utf-8'')" "\<not> ascii_ieq (cstr ''unknown'') (cstr ''latin-1'')"
    by (simp_all add: cstr_def tolower_def)
  ultimately show ?thesis by (simp add: metadata_field_type_parse_def)
qed

subsection \<open>Properties\<close>

text \<open>The dictionary on an erased chip.\<close>

definition meta_boot :: meta_state where
  "meta_boot = \<lparr>m_kv = kv_boot, m_junk = \<lambda>_. 0, g_type_cache = [], g_field_cache = [], g_schema_cache = []\<rparr>"

lemma meta_inv_boot: "meta_inv meta_boot"
  by (simp add: meta_inv_def meta_boot_def store_inv_boot coherent_def)

text \<open>
  C16: the caches stay coherent with the flash store. When every entry of the three caches is what
  loading its ordinal from the store gives, with no ordinal twice and at most 64 entries, then this holds
  again after each of \<open>metadata_set_type\<close>, \<open>metadata_set_field\<close> and \<open>metadata_set_schema\<close>, whether
  the operation succeeds or fails.
\<close>

theorem metadata_caches_coherent:
  assumes "nor_flash dev" "meta_inv s"
  shows "meta_inv (snd (metadata_set_type dev s ordinal name))
    \<and> meta_inv (snd (metadata_set_field dev s ordinal name field_type max_len))
    \<and> meta_inv (snd (metadata_set_schema dev s ordinal fs))"
proof (intro conjI)
  show "meta_inv (snd (metadata_set_type dev s ordinal name))"
    using set_type_spec [OF assms, of ordinal name] by (cases "metadata_set_type dev s ordinal name") simp
  show "meta_inv (snd (metadata_set_field dev s ordinal name field_type max_len))"
    using set_field_spec [OF assms, of ordinal name field_type max_len]
    by (cases "metadata_set_field dev s ordinal name field_type max_len") simp
  show "meta_inv (snd (metadata_set_schema dev s ordinal fs))"
    using set_schema_spec [OF assms, of ordinal fs] by (cases "metadata_set_schema dev s ordinal fs") simp
qed

theorem metadata_caches_coherent_witness:
  "meta_inv (snd (metadata_set_type nor_dev meta_boot 5 [65, 66]))"
  using metadata_caches_coherent [OF nor_flash_dev meta_inv_boot, of 5 "[65, 66]" 0 0 "[]"] by blast

text \<open>
  A type that was set is what \<open>metadata_get_type\<close> answers, with its name padded to the whole array,
  if the ordinal was in the cache or the cache had room; every other ordinal answers as before.
\<close>

theorem metadata_type_reads_back:
  assumes "nor_flash dev" "meta_inv s" "metadata_set_type dev s ordinal name = (True, s')"
    and "length (g_type_cache s) < META_MAX_ITEMS \<or> metadata_get_type s ordinal \<noteq> None"
  shows "metadata_get_type s' o' =
    (if o' = ordinal then Some \<lparr>td_ordinal = ordinal, td_name = name @ replicate (META_NAME_MAX + 1 - length name) 0\<rparr>
     else metadata_get_type s o')"
proof -
  from set_type_spec [OF assms(1-3)] have l: "load_type_from_store s' ordinal = Some \<lparr>td_ordinal = ordinal, td_name = pad_name name\<rparr>"
    and c: "g_type_cache s' = cache_upsert td_ordinal (load_type_from_store s' ordinal) ordinal (g_type_cache s)" by simp_all
  have "ordinal \<in> td_ordinal ` set (g_type_cache s) \<or> length (g_type_cache s) < META_MAX_ITEMS"
    using assms(4) cache_get_None [of td_ordinal ordinal "g_type_cache s"] by (auto simp: metadata_get_type_def)
  with types.get_upsert [OF l, of o' "g_type_cache s"] show ?thesis
    by (simp add: metadata_get_type_def c pad_name_def)
qed

theorem metadata_type_reads_back_witness:
  "metadata_get_type (snd (metadata_set_type nor_dev meta_boot 5 [65, 66])) 5 = Some \<lparr>td_ordinal = 5, td_name = [65, 66] @ replicate 30 0\<rparr>"
proof -
  obtain s' where r: "metadata_set_type nor_dev meta_boot 5 [65, 66] = (True, s')"
    using put_boot [of "[65, 66] @ replicate 30 0" "metadata_key META_TYPE_RECORD_TYPE 5"]
    by (auto simp: metadata_set_type_def name_valid_def META_NAME_MAX_def KV_MAX_VALUE_def meta_boot_def Let_def)
  have "length (g_type_cache meta_boot) < META_MAX_ITEMS" by (simp add: meta_boot_def META_MAX_ITEMS_def)
  from metadata_type_reads_back [OF nor_flash_dev meta_inv_boot r disjI1 [OF this], of 5] r show ?thesis
    by (simp add: META_NAME_MAX_def)
qed

text \<open>
  A schema that was set is what \<open>metadata_get_schema\<close> answers, with exactly its list of field ordinals,
  if the ordinal was in the cache or the cache had room; every other ordinal answers as before.
\<close>

theorem metadata_schema_reads_back:
  assumes "nor_flash dev" "meta_inv s" "metadata_set_schema dev s ordinal fs = (True, s')"
    and "length (g_schema_cache s) < META_MAX_ITEMS \<or> metadata_get_schema s ordinal \<noteq> None"
  shows "metadata_get_schema s' o' =
    (if o' = ordinal then Some \<lparr>ts_ordinal = ordinal, ts_fields = fs\<rparr> else metadata_get_schema s o')"
proof -
  from set_schema_spec [OF assms(1-3)] have l: "load_schema_from_store s' ordinal = Some \<lparr>ts_ordinal = ordinal, ts_fields = fs\<rparr>"
    and c: "g_schema_cache s' = cache_upsert ts_ordinal (load_schema_from_store s' ordinal) ordinal (g_schema_cache s)" by simp_all
  have "ordinal \<in> ts_ordinal ` set (g_schema_cache s) \<or> length (g_schema_cache s) < META_MAX_ITEMS"
    using assms(4) cache_get_None [of ts_ordinal ordinal "g_schema_cache s"] by (auto simp: metadata_get_schema_def)
  with schemas.get_upsert [OF l, of o' "g_schema_cache s"] show ?thesis
    by (simp add: metadata_get_schema_def c)
qed

theorem metadata_schema_reads_back_witness:
  "metadata_get_schema (snd (metadata_set_schema nor_dev meta_boot 9 [3, 260])) 9 = Some \<lparr>ts_ordinal = 9, ts_fields = [3, 260]\<rparr>"
proof -
  obtain s' where r: "metadata_set_schema nor_dev meta_boot 9 [3, 260] = (True, s')"
    using put_boot [of "2 # bytes16 3 @ bytes16 260" "metadata_key META_SCHEMA_RECORD_TYPE 9"]
    by (auto simp: metadata_set_schema_def META_MAX_ITEMS_def KV_MAX_VALUE_def meta_boot_def Let_def)
  have "length (g_schema_cache meta_boot) < META_MAX_ITEMS" by (simp add: meta_boot_def META_MAX_ITEMS_def)
  from metadata_schema_reads_back [OF nor_flash_dev meta_inv_boot r disjI1 [OF this], of 9] r show ?thesis by simp
qed

text \<open>
  Reloading. \<open>metadata_reload_cache\<close> makes all three caches coherent with the store, whatever they
  held before, when the record numbers of the dictionary's keys have at most 16 bits (as all keys that
  the program writes have); a key with a wider number would be loaded under its truncated ordinal.
\<close>

theorem metadata_reload_coherent:
  assumes "store_inv (m_kv s)" "short_ids (m_kv s) META_TYPE_RECORD_TYPE" "short_ids (m_kv s) META_FIELD_RECORD_TYPE"
    "short_ids (m_kv s) META_SCHEMA_RECORD_TYPE"
  shows "meta_inv (metadata_reload_cache s)"
proof -
  have i: "idx_inv (m_kv s)" using assms(1) by (simp add: store_inv_def)
  note c = reload_coherent [where load = "load_type_from_store s" and ord = td_ordinal, OF i assms(2) types.load_ord]
    reload_coherent [where load = "load_field_from_store s" and ord = mf_ordinal, OF i assms(3) fields.load_ord]
    reload_coherent [where load = "load_schema_from_store s" and ord = ts_ordinal, OF i assms(4) schemas.load_ord]
  from c assms(1) show ?thesis by (simp add: metadata_reload_cache_def meta_inv_def)
qed

theorem metadata_reload_coherent_witness:
  "meta_inv (metadata_reload_cache (meta_boot\<lparr>g_type_cache := [\<lparr>td_ordinal = 1, td_name = []\<rparr>]\<rparr>))"
proof -
  have "m_kv (meta_boot\<lparr>g_type_cache := [\<lparr>td_ordinal = 1, td_name = []\<rparr>]\<rparr>) = kv_boot" by (simp add: meta_boot_def)
  moreover have "short_ids kv_boot t" for t by (simp add: short_ids_def kv_boot_def)
  ultimately show ?thesis using store_inv_boot by (intro metadata_reload_coherent) simp_all
qed

text \<open>
  The names of the field types. Parsing the name of a type code gives the code back, and
  every other code has the name \<open>unknown\<close>, which does not parse.
\<close>

theorem metadata_field_type_roundtrip:
  "metadata_field_type_parse (metadata_field_type_name t) = (if t < 19 then Some t else None)"
proof (cases "t < 19")
  case False
  then have "metadata_field_type_name t = cstr ''unknown''"
    by (simp add: metadata_field_type_name_def word_less_nat_alt)
  then show ?thesis using False parse_unknown by simp
next
  case True
  then have "unat t < length g_field_type_names" by (simp add: word_less_nat_alt)
  with parse_type_name [OF this] True show ?thesis by (simp add: metadata_field_type_name_def)
qed

end
