(* ===== verification/Wal.thy ===== *)
theory Wal
  imports KvStore
begin

text \<open>
  The write-ahead engine of \<open>src/wal_engine.c\<close> over the state that \<open>src/wal_defs.h\<close> declares: the
  pool of buffer slots, the log of deltas, the request ring that the two cores share, the merge of
  a delta into the stored record, and the compaction of the log.

  Core 1 runs this code. What it gets from Core 0 is in the state: the requests, and \<open>fifo_in\<close>,
  the words waiting in the forward FIFO. \<open>fifo_ready n\<close> says whether the reverse FIFO takes the
  \<open>n\<close>-th word before the deadline of \<open>fifo_push_timeout\<close>. The opaque pbuf pointer of a request, which
  only Core 0 uses, the fences and the log output are left out.

  The result \<open>Inl Oob\<close> is an access outside of an object, \<open>Inl Hang\<close> a loop that never ends.
\<close>

unbundle bit_operations_syntax

datatype wal_error = Oob | Hang

subsection \<open>State\<close>

definition SLOT_COUNT :: nat where "SLOT_COUNT = 32"
definition SLOT_SIZE :: nat where "SLOT_SIZE = 512"
definition REQ_RING_SIZE :: nat where "REQ_RING_SIZE = 32"
definition WAL_MAX_ENTRIES :: nat where "WAL_MAX_ENTRIES = 32"
definition WAL_OP_NOOP :: byte where "WAL_OP_NOOP = 0"
definition WAL_OP_APPEND :: byte where "WAL_OP_APPEND = 1"
definition WAL_OP_READ :: byte where "WAL_OP_READ = 2"
definition WAL_OP_KV_GET :: byte where "WAL_OP_KV_GET = 3"
definition WAL_OP_KV_PUT :: byte where "WAL_OP_KV_PUT = 4"
definition REQ_EMPTY :: byte where "REQ_EMPTY = 0"
definition REQ_PENDING :: byte where "REQ_PENDING = 1"
definition REQ_DONE :: byte where "REQ_DONE = 2"
definition WAL_RESP_OK :: byte where "WAL_RESP_OK = 0"
definition WAL_RESP_ERR :: byte where "WAL_RESP_ERR = 1"
definition WAL_ENTRY_ACTIVE :: byte where "WAL_ENTRY_ACTIVE = 1"
definition WAL_ENTRY_COMPACTED :: byte where "WAL_ENTRY_COMPACTED = 2"
definition WAL_ENTRY_TOMBSTONE :: byte where "WAL_ENTRY_TOMBSTONE = 4"
definition DELTA_OP_SET :: byte where "DELTA_OP_SET = 0"
definition DELTA_OP_DELETE :: byte where "DELTA_OP_DELETE = 1"

text \<open>\<open>sizeof(delta_header_t)\<close>.\<close>

definition DELTA_HEADER :: nat where "DELTA_HEADER = 8"

record wal_request_t =
  req_ready :: byte
  req_op :: byte
  req_slot :: byte
  req_len :: u16
  req_key_hash :: u32
  req_zc_data :: "byte list option"
  req_zc_len :: u16

record wal_response_t =
  resp_status :: byte
  resp_result_slot :: byte
  resp_result_len :: u16
  resp_seq :: u32
  resp_delta_count :: u32

record wal_entry_t =
  we_seq :: u32
  we_key_hash :: u32
  we_slot :: byte
  we_len :: u16
  we_flags :: byte

record wal_state =
  w_data :: "byte list list"
  slot_free :: "byte list"
  w_entries :: "wal_entry_t list"
  entry_count :: u32
  next_seq :: u32
  requests :: "wal_request_t list"
  responses :: "wal_response_t list"
  compactions :: u32
  slots_reclaimed :: u32
  req_appends :: u32
  req_reads :: u32
  req_total :: u32
  core1_heartbeat :: u32
  ota_halt_core1 :: bool
  ota_core1_halted :: bool
  compact_cursor :: nat
  w_kv :: kv_state
  fifo_in :: "u32 list"
  fifo_out :: "u32 list"
  fifo_ready :: "nat \<Rightarrow> bool"
  fifo_pushes :: nat

text \<open>What \<open>main\<close> sets up before it starts Core 1.\<close>

definition wal_boot :: "kv_state \<Rightarrow> (nat \<Rightarrow> bool) \<Rightarrow> wal_state" where
  "wal_boot kv ready =
     \<lparr>w_data = replicate SLOT_COUNT (replicate SLOT_SIZE 0), slot_free = replicate SLOT_COUNT 1,
      w_entries = replicate WAL_MAX_ENTRIES \<lparr>we_seq = 0, we_key_hash = 0, we_slot = 0, we_len = 0, we_flags = 0\<rparr>,
      entry_count = 0, next_seq = 1,
      requests = replicate REQ_RING_SIZE \<lparr>req_ready = 0, req_op = 0, req_slot = 0, req_len = 0, req_key_hash = 0,
        req_zc_data = None, req_zc_len = 0\<rparr>,
      responses = replicate REQ_RING_SIZE \<lparr>resp_status = 0, resp_result_slot = 0, resp_result_len = 0, resp_seq = 0,
        resp_delta_count = 0\<rparr>,
      compactions = 0, slots_reclaimed = 0, req_appends = 0, req_reads = 0, req_total = 0, core1_heartbeat = 0,
      ota_halt_core1 = False, ota_core1_halted = False, compact_cursor = 0, w_kv = kv,
      fifo_in = [], fifo_out = [], fifo_ready = ready, fifo_pushes = 0\<rparr>"

subsection \<open>Signals between the cores\<close>

definition fifo_signal :: "nat \<Rightarrow> u32" where
  "fifo_signal req_id = word_of_nat req_id"

definition fifo_req_id :: "u32 \<Rightarrow> nat" where
  "fifo_req_id word = unat (word AND 0xFF)"

definition fifo_push_timeout :: "wal_state \<Rightarrow> u32 \<Rightarrow> bool \<times> wal_state" where
  "fifo_push_timeout s word =
     (let s1 = s\<lparr>fifo_pushes := fifo_pushes s + 1\<rparr> in
      if fifo_ready s (fifo_pushes s) then (True, s1\<lparr>fifo_out := fifo_out s @ [word]\<rparr>) else (False, s1))"

definition resp_zero :: wal_response_t where
  "resp_zero = \<lparr>resp_status = 0, resp_result_slot = 0, resp_result_len = 0, resp_seq = 0, resp_delta_count = 0\<rparr>"

text \<open>The end of every handler: the response is stored, the request handed back, Core 0 signalled.\<close>

definition wal_finish :: "nat \<Rightarrow> wal_response_t \<Rightarrow> wal_state \<Rightarrow> wal_state" where
  "wal_finish req_id resp s =
     snd (fifo_push_timeout
       (s\<lparr>responses := (responses s)[req_id := resp],
          requests := (requests s)[req_id := (requests s ! req_id)\<lparr>req_ready := REQ_DONE\<rparr>]\<rparr>)
       (fifo_signal req_id))"

subsection \<open>The log and the slots\<close>

definition wal_alloc_entry :: "wal_state \<Rightarrow> nat option" where
  "wal_alloc_entry s = find (\<lambda>i. we_seq (w_entries s ! i) = 0) [0..<WAL_MAX_ENTRIES]"

definition wal_alloc_slot :: "wal_state \<Rightarrow> (nat \<times> wal_state) option" where
  "wal_alloc_slot s =
     map_option (\<lambda>i. (i, s\<lparr>slot_free := (slot_free s)[i := 0]\<rparr>)) (find (\<lambda>i. slot_free s ! i \<noteq> 0) [0..<SLOT_COUNT])"

definition free_slot :: "nat \<Rightarrow> wal_state \<Rightarrow> wal_state" where
  "free_slot slot s = s\<lparr>slot_free := (slot_free s)[slot := 1]\<rparr>"

definition slot_write :: "wal_state \<Rightarrow> nat \<Rightarrow> nat \<Rightarrow> byte list \<Rightarrow> wal_error + wal_state" where
  "slot_write s slot pos ys =
     (if SLOT_COUNT \<le> slot \<or> SLOT_SIZE < pos + length ys then Inl Oob
      else Inr (s\<lparr>w_data := (w_data s)[slot := blit (w_data s ! slot) pos ys]\<rparr>))"

text \<open>An entry that compaction and reading look at.\<close>

definition we_live :: "wal_entry_t \<Rightarrow> bool" where
  "we_live e \<longleftrightarrow> we_seq e \<noteq> 0 \<and> we_flags e AND WAL_ENTRY_ACTIVE \<noteq> 0 \<and> we_flags e AND WAL_ENTRY_COMPACTED = 0"

subsection \<open>Merging a delta into a record\<close>

text \<open>
  A record is a sequence of fields, each with a 16-bit number, a 16-bit length and its data.
  \<open>merged\<close> is the part of the buffer before \<open>merged_len\<close>.
\<close>

definition field_bytes :: "nat \<Rightarrow> byte list \<Rightarrow> byte list" where
  "field_bytes field_id data = bytes16 (word_of_nat field_id) @ bytes16 (word_of_nat (length data)) @ data"

text \<open>The search loop; the positions are 16-bit numbers, so it need not end.\<close>

partial_function (option) find_stored :: "byte list \<Rightarrow> nat \<Rightarrow> nat \<Rightarrow> nat option option" where
  "find_stored merged field_id mpos =
     (if length merged < mpos + 4 then Some None
      else if rd16 merged mpos = field_id then Some (Some mpos)
      else find_stored merged field_id (cast16 (mpos + cast16 (4 + rd16 merged (mpos + 2)))))"

definition int16 :: "int \<Rightarrow> int" where
  "int16 x = sint (word_of_int x :: u16)"

text \<open>Replacing the field at \<open>mpos\<close>; \<open>Inr None\<close> is the \<open>break\<close> when the result would be too long.\<close>

definition replace_field :: "byte list \<Rightarrow> nat \<Rightarrow> nat \<Rightarrow> byte list \<Rightarrow> nat \<Rightarrow> nat \<Rightarrow> wal_error + byte list option" where
  "replace_field merged mpos field_id delta dpos data_len =
     (let merged_len = length merged;
          old_entry_size = cast16 (4 + rd16 merged (mpos + 2));
          new_entry_size = cast16 (4 + data_len);
          size_diff = int16 (int16 (int new_entry_size) - int16 (int old_entry_size));
          tail_start = cast16 (mpos + old_entry_size);
          tail_len = cast16 (merged_len + 65536 - tail_start) in
      if int KV_MAX_VALUE < int merged_len + size_diff then Inr None
      else if 0 < tail_len \<and> size_diff \<noteq> 0
           \<and> (KV_MAX_VALUE < tail_start + tail_len \<or> KV_MAX_VALUE < mpos + new_entry_size + tail_len) then Inl Oob
      else if KV_MAX_VALUE < mpos + 4 + data_len \<or> length delta < dpos + data_len then Inl Oob
      else Inr (Some (take (nat ((int16 (int merged_len) + size_diff) mod 65536))
             (take mpos merged @ field_bytes field_id (segment dpos data_len delta) @ drop tail_start merged))))"

definition append_field :: "byte list \<Rightarrow> nat \<Rightarrow> byte list \<Rightarrow> nat \<Rightarrow> nat \<Rightarrow> wal_error + byte list" where
  "append_field merged field_id delta dpos data_len =
     (if length merged + 4 + data_len \<le> KV_MAX_VALUE
      then if length delta < dpos + data_len then Inl Oob
           else Inr (merged @ field_bytes field_id (segment dpos data_len delta))
      else Inr merged)"

definition merge_field :: "byte list \<Rightarrow> nat \<Rightarrow> byte list \<Rightarrow> nat \<Rightarrow> nat \<Rightarrow> wal_error + byte list" where
  "merge_field merged field_id delta dpos data_len =
     (case find_stored merged field_id 0 of
        None \<Rightarrow> Inl Hang
      | Some None \<Rightarrow> append_field merged field_id delta dpos data_len
      | Some (Some mpos) \<Rightarrow>
          (case replace_field merged mpos field_id delta dpos data_len of
             Inl e \<Rightarrow> Inl e
           | Inr (Some merged') \<Rightarrow> Inr merged'
           | Inr None \<Rightarrow> append_field merged field_id delta dpos data_len))"

text \<open>The loop over the fields of the delta; \<open>delta\<close> is what follows the header in its slot.\<close>

function merge_loop :: "byte list \<Rightarrow> byte list \<Rightarrow> nat \<Rightarrow> nat \<Rightarrow> wal_error + byte list" where
  "merge_loop merged delta delta_len dpos =
     (if delta_len < dpos + 4 then Inr merged
      else if length delta < dpos + 4 then Inl Oob
      else
        let field_id = rd16 delta dpos; data_len = rd16 delta (dpos + 2) in
        if delta_len < dpos + 4 + data_len then Inr merged
        else case merge_field merged field_id delta (dpos + 4) data_len of
               Inl e \<Rightarrow> Inl e
             | Inr merged' \<Rightarrow> merge_loop merged' delta delta_len (dpos + 4 + data_len))"
  by pat_completeness auto
termination by (relation "measure (\<lambda>(merged, delta, delta_len, dpos). delta_len - dpos)") auto

declare merge_loop.simps [simp del]

subsection \<open>The handlers\<close>

record delta_header_t =
  dh_key_hash :: u32
  dh_value_len :: nat
  dh_op :: byte

definition delta_header :: "byte list \<Rightarrow> delta_header_t" where
  "delta_header b = \<lparr>dh_key_hash = le32 (b ! 0) (b ! 1) (b ! 2) (b ! 3), dh_value_len = rd16 b 4, dh_op = b ! 6\<rparr>"

text \<open>The record as stored before the delta; a read fault is one of the decompressor.\<close>

definition existing_record :: "kv_state \<Rightarrow> u32 \<Rightarrow> wal_error + byte list" where
  "existing_record kv key =
     (case kv_get_copy kv key True (Some KV_MAX_VALUE) of
        Fault \<Rightarrow> Inl Oob
      | Found (Some xs, n, v) \<Rightarrow> Inr (if 0 < n \<and> n \<le> KV_MAX_VALUE then take n xs else [])
      | _ \<Rightarrow> Inr [])"

text \<open>The flash part of an append: delete, or read, merge and write.\<close>

definition append_to_flash :: "flash_dev \<Rightarrow> kv_state \<Rightarrow> delta_header_t \<Rightarrow> byte list \<Rightarrow> wal_error + kv_state" where
  "append_to_flash dev kv hdr delta =
     (if dh_op hdr = DELTA_OP_DELETE then Inr (snd (kv_delete dev kv (dh_key_hash hdr)))
      else case existing_record kv (dh_key_hash hdr) of
             Inl e \<Rightarrow> Inl e
           | Inr old \<Rightarrow>
               (case merge_loop old delta (dh_value_len hdr) 0 of
                  Inl e \<Rightarrow> Inl e
                | Inr merged \<Rightarrow> Inr (snd (kv_put dev kv (dh_key_hash hdr) merged))))"

text \<open>Registering the delta in the log.\<close>

definition log_append :: "wal_state \<Rightarrow> nat \<Rightarrow> wal_request_t \<Rightarrow> delta_header_t \<Rightarrow> wal_state" where
  "log_append s req_id req hdr =
     (case wal_alloc_entry s of
        None \<Rightarrow>
          wal_finish req_id (resp_zero\<lparr>resp_status := WAL_RESP_OK, resp_seq := next_seq s\<rparr>)
            ((free_slot (unat (req_slot req)) s)\<lparr>next_seq := next_seq s + 1\<rparr>)
      | Some idx \<Rightarrow>
          let e = \<lparr>we_seq = next_seq s, we_key_hash = dh_key_hash hdr, we_slot = req_slot req, we_len = req_len req,
                   we_flags = (if dh_op hdr = DELTA_OP_DELETE then WAL_ENTRY_ACTIVE OR WAL_ENTRY_TOMBSTONE
                               else WAL_ENTRY_ACTIVE)\<rparr> in
          wal_finish req_id (resp_zero\<lparr>resp_status := WAL_RESP_OK, resp_seq := we_seq e\<rparr>)
            (s\<lparr>next_seq := next_seq s + 1, w_entries := (w_entries s)[idx := e], entry_count := entry_count s + 1\<rparr>))"

definition wal_do_append :: "flash_dev \<Rightarrow> wal_state \<Rightarrow> nat \<Rightarrow> wal_error + wal_state" where
  "wal_do_append dev s req_id =
     (let req = requests s ! req_id; slot = unat (req_slot req) in
      if unat (req_len req) < DELTA_HEADER then Inr (wal_finish req_id (resp_zero\<lparr>resp_status := WAL_RESP_ERR\<rparr>) s)
      else
        case (case req_zc_data req of
                None \<Rightarrow> Inr s
              | Some zc \<Rightarrow>
                  if 0 < req_zc_len req then
                    if length zc < unat (req_zc_len req) then Inl Oob
                    else slot_write s slot DELTA_HEADER (take (unat (req_zc_len req)) zc)
                  else Inr s) of
          Inl e \<Rightarrow> Inl e
        | Inr s1 \<Rightarrow>
            if SLOT_COUNT \<le> slot then Inl Oob
            else
              let buf = w_data s1 ! slot; hdr = delta_header buf in
              (case append_to_flash dev (w_kv s1) hdr (drop DELTA_HEADER buf) of
                 Inl e \<Rightarrow> Inl e
               | Inr kv \<Rightarrow> Inr (log_append (s1\<lparr>w_kv := kv\<rparr>) req_id req hdr)))"

text \<open>The selected entries as pairs of sequence number and index, in the order of the log.\<close>

definition wal_matches :: "wal_state \<Rightarrow> u32 \<Rightarrow> (u32 \<times> nat) list" where
  "wal_matches s key_hash =
     map (\<lambda>i. (we_seq (w_entries s ! i), i))
       (filter (\<lambda>i. we_live (w_entries s ! i) \<and> we_key_hash (w_entries s ! i) = key_hash) [0..<WAL_MAX_ENTRIES])"

text \<open>The insertion sort: one element is moved to the left past all larger ones.\<close>

function shift_insert :: "(u32 \<times> nat) list \<Rightarrow> u32 \<times> nat \<Rightarrow> (u32 \<times> nat) list" where
  "shift_insert ms x =
     (if ms \<noteq> [] \<and> fst x < fst (last ms) then shift_insert (butlast ms) x @ [last ms] else ms @ [x])"
  by pat_completeness auto
termination by (relation "measure (\<lambda>(ms, x). length ms)") auto

declare shift_insert.simps [simp del]

definition wal_sort :: "(u32 \<times> nat) list \<Rightarrow> (u32 \<times> nat) list" where
  "wal_sort ms = foldl shift_insert [] ms"

text \<open>Packing the deltas into the result slot, as many as fit.\<close>

fun pack_deltas :: "wal_state \<Rightarrow> nat \<Rightarrow> nat list \<Rightarrow> nat \<Rightarrow> wal_error + nat \<times> wal_state" where
  "pack_deltas s rslot [] out_pos = Inr (out_pos, s)"
| "pack_deltas s rslot (i # is) out_pos =
     (let e = w_entries s ! i; elen = unat (we_len e) in
      if SLOT_SIZE < out_pos + elen then Inr (out_pos, s)
      else if SLOT_COUNT \<le> unat (we_slot e) then Inl Oob
      else case slot_write s rslot out_pos (take elen (w_data s ! unat (we_slot e))) of
             Inl err \<Rightarrow> Inl err
           | Inr s1 \<Rightarrow> pack_deltas s1 rslot is (cast16 (out_pos + elen)))"

definition wal_do_read :: "wal_state \<Rightarrow> nat \<Rightarrow> wal_error + wal_state" where
  "wal_do_read s req_id =
     (let ms = wal_matches s (req_key_hash (requests s ! req_id)) in
      if ms = [] then Inr (wal_finish req_id resp_zero s)
      else
        let sorted = wal_sort ms in
        case wal_alloc_slot s of
          None \<Rightarrow> Inr (wal_finish req_id (resp_zero\<lparr>resp_status := WAL_RESP_ERR\<rparr>) s)
        | Some (rslot, s1) \<Rightarrow>
            (case pack_deltas s1 rslot (map snd sorted) 0 of
               Inl e \<Rightarrow> Inl e
             | Inr (out_pos, s2) \<Rightarrow>
                 Inr (wal_finish req_id
                   \<lparr>resp_status = WAL_RESP_OK, resp_result_slot = word_of_nat rslot, resp_result_len = word_of_nat out_pos,
                    resp_seq = fst (last sorted), resp_delta_count = word_of_nat (length sorted)\<rparr> s2)))"

definition wal_do_kv_get :: "wal_state \<Rightarrow> nat \<Rightarrow> wal_error + wal_state" where
  "wal_do_kv_get s req_id =
     (case wal_alloc_slot s of
        None \<Rightarrow> Inr (wal_finish req_id (resp_zero\<lparr>resp_status := WAL_RESP_ERR\<rparr>) s)
      | Some (rslot, s1) \<Rightarrow>
          (case kv_get_copy (w_kv s1) (req_key_hash (requests s ! req_id)) True (Some SLOT_SIZE) of
             Fault \<Rightarrow> Inl Oob
           | Found (Some xs, n, v) \<Rightarrow>
               (case slot_write s1 rslot 0 xs of
                  Inl e \<Rightarrow> Inl e
                | Inr s2 \<Rightarrow>
                    Inr (wal_finish req_id (resp_zero\<lparr>resp_status := WAL_RESP_OK, resp_result_slot := word_of_nat rslot,
                      resp_result_len := word_of_nat n\<rparr>) s2))
           | _ \<Rightarrow> Inr (wal_finish req_id (resp_zero\<lparr>resp_status := WAL_RESP_ERR\<rparr>) (free_slot rslot s1))))"

definition wal_do_kv_put :: "flash_dev \<Rightarrow> wal_state \<Rightarrow> nat \<Rightarrow> wal_error + wal_state" where
  "wal_do_kv_put dev s req_id =
     (let req = requests s ! req_id; slot = unat (req_slot req); len = unat (req_len req) in
      if SLOT_COUNT \<le> slot then Inl Oob
      else
        let (ok, kv) = (if KV_MAX_VALUE < len then (False, w_kv s)
                        else kv_put dev (w_kv s) (req_key_hash req) (take len (w_data s ! slot))) in
        Inr (wal_finish req_id (resp_zero\<lparr>resp_status := (if ok then WAL_RESP_OK else WAL_RESP_ERR)\<rparr>)
          (free_slot slot (s\<lparr>w_kv := kv\<rparr>))))"

subsection \<open>Compaction\<close>

definition find_anchor :: "wal_state \<Rightarrow> nat option" where
  "find_anchor s =
     find (\<lambda>idx. we_live (w_entries s ! idx))
       (map (\<lambda>i. (compact_cursor s + i) mod WAL_MAX_ENTRIES) [0..<WAL_MAX_ENTRIES])"

definition same_key :: "wal_state \<Rightarrow> u32 \<Rightarrow> nat list" where
  "same_key s key = filter (\<lambda>i. we_live (w_entries s ! i) \<and> we_key_hash (w_entries s ! i) = key) [0..<WAL_MAX_ENTRIES]"

text \<open>The loop that looks for the newest entry: the index and sequence number so far, from (0, 0).\<close>

definition latest_of :: "wal_state \<Rightarrow> nat list \<Rightarrow> nat \<times> u32" where
  "latest_of s is = fold (\<lambda>i (latest_idx, latest_seq).
     if latest_seq < we_seq (w_entries s ! i) then (i, we_seq (w_entries s ! i)) else (latest_idx, latest_seq)) is (0, 0)"

definition drop_entry :: "nat \<Rightarrow> wal_state \<Rightarrow> wal_state" where
  "drop_entry i s =
     (let e = w_entries s ! i in
      (free_slot (unat (we_slot e)) s)\<lparr>
        w_entries := (w_entries s)[i := e\<lparr>we_flags := WAL_ENTRY_COMPACTED, we_seq := 0\<rparr>],
        entry_count := entry_count s - 1, slots_reclaimed := slots_reclaimed s + 1\<rparr>)"

definition drop_superseded :: "nat \<Rightarrow> wal_state \<Rightarrow> wal_state" where
  "drop_superseded i s = (drop_entry i s)\<lparr>compactions := compactions s + 1\<rparr>"

definition wal_compact_step :: "wal_state \<Rightarrow> wal_state" where
  "wal_compact_step s =
     (case find_anchor s of
        None \<Rightarrow> s\<lparr>compact_cursor := 0\<rparr>
      | Some anchor_idx \<Rightarrow>
          let s1 = s\<lparr>compact_cursor := (anchor_idx + 1) mod WAL_MAX_ENTRIES\<rparr>;
              dups = same_key s1 (we_key_hash (w_entries s1 ! anchor_idx));
              latest_idx = fst (latest_of s1 dups) in
          if length dups \<le> 1 then s1
          else
            let s2 = fold drop_superseded (filter (\<lambda>i. i \<noteq> latest_idx) dups) s1 in
            if we_flags (w_entries s2 ! latest_idx) AND WAL_ENTRY_TOMBSTONE \<noteq> 0 then drop_entry latest_idx s2 else s2)"

subsection \<open>The engine\<close>

definition count_append :: "wal_state \<Rightarrow> wal_state" where
  "count_append s = s\<lparr>req_appends := req_appends s + 1, req_total := req_total s + 1\<rparr>"

definition count_read :: "wal_state \<Rightarrow> wal_state" where
  "count_read s = s\<lparr>req_reads := req_reads s + 1, req_total := req_total s + 1\<rparr>"

definition wal_dispatch :: "flash_dev \<Rightarrow> wal_state \<Rightarrow> nat \<Rightarrow> wal_error + wal_state" where
  "wal_dispatch dev s req_id =
     (let op = req_op (requests s ! req_id) in
      if op = WAL_OP_APPEND then map_sum id count_append (wal_do_append dev s req_id)
      else if op = WAL_OP_READ then map_sum id count_read (wal_do_read s req_id)
      else if op = WAL_OP_KV_GET then map_sum id count_read (wal_do_kv_get s req_id)
      else if op = WAL_OP_KV_PUT then map_sum id count_append (wal_do_kv_put dev s req_id)
      else
        let s1 = wal_finish req_id ((responses s ! req_id)\<lparr>resp_status := WAL_RESP_OK\<rparr>) s in
        Inr (s1\<lparr>req_total := req_total s1 + 1\<rparr>))"

text \<open>Draining the forward FIFO; the flag is \<open>did_work\<close>.\<close>

fun wal_drain :: "flash_dev \<Rightarrow> u32 list \<Rightarrow> bool \<Rightarrow> wal_state \<Rightarrow> wal_error + bool \<times> wal_state" where
  "wal_drain dev [] did_work s = Inr (did_work, s)"
| "wal_drain dev (word # words) did_work s =
     (let req_id = fifo_req_id word in
      if REQ_RING_SIZE \<le> req_id then wal_drain dev words did_work s
      else case wal_dispatch dev s req_id of
             Inl e \<Rightarrow> Inl e
           | Inr s1 \<Rightarrow> wal_drain dev words True s1)"

text \<open>
  One round of the endless loop of \<open>wal_engine_run\<close> on the words that wait at its start. While Core 0
  keeps \<open>ota_halt_core1\<close> set, a round only reports that Core 1 has halted.
\<close>

definition wal_engine_round :: "flash_dev \<Rightarrow> wal_state \<Rightarrow> wal_error + wal_state" where
  "wal_engine_round dev s =
     (if ota_halt_core1 s then Inr (s\<lparr>ota_core1_halted := True\<rparr>)
      else
        case wal_drain dev (fifo_in s) False
               (s\<lparr>ota_core1_halted := False, core1_heartbeat := core1_heartbeat s + 1, fifo_in := []\<rparr>) of
          Inl e \<Rightarrow> Inl e
        | Inr (did_work, s1) \<Rightarrow>
            if did_work then Inr s1
            else
              let s2 = wal_compact_step s1 in
              Inr (s2\<lparr>w_kv := snd (kv_compact_step dev (w_kv s2))\<rparr>))"

end
