(* ===== verification/WalMerge.thy ===== *)
theory WalMerge
  imports Wal
begin

text \<open>
  What the merge of a delta into a record does: on records that are sequences of whole fields the
  byte-level code with its 16-bit positions refines an update of a list of fields, and always
  ends; on other records its search can loop forever.
\<close>

unbundle bit_operations_syntax

subsection \<open>Fields as data\<close>

type_synonym field = "nat \<times> byte list"

definition encode_fields :: "field list \<Rightarrow> byte list" where
  "encode_fields fs = concat (map (\<lambda>(i, d). field_bytes i d) fs)"

definition field_ids_ok :: "field list \<Rightarrow> bool" where
  "field_ids_ok fs \<longleftrightarrow> list_all (\<lambda>(i, d). i < 65536) fs"

fun replace_first :: "nat \<Rightarrow> byte list \<Rightarrow> field list \<Rightarrow> field list" where
  "replace_first i d [] = []"
| "replace_first i d ((j, x) # fs) = (if j = i then (j, d) # fs else (j, x) # replace_first i d fs)"

text \<open>A field that would make the record longer than \<open>KV_MAX_VALUE\<close> is left out.\<close>

definition put_field :: "field \<Rightarrow> field list \<Rightarrow> field list" where
  "put_field f fs = (case f of (i, d) \<Rightarrow>
     let fs' = (if i \<in> fst ` set fs then replace_first i d fs else fs @ [(i, d)]) in
     if length (encode_fields fs') \<le> KV_MAX_VALUE then fs' else fs)"

lemma encode_fields_simps [simp]:
  "encode_fields [] = []"
  "encode_fields ((i, d) # fs) = field_bytes i d @ encode_fields fs"
  "encode_fields (fs @ gs) = encode_fields fs @ encode_fields gs"
  by (simp_all add: encode_fields_def)

lemma length_field_bytes [simp]: "length (field_bytes i d) = 4 + length d"
  by (simp add: field_bytes_def)

lemma field_ids_simps [simp]:
  "field_ids_ok []" "field_ids_ok ((i, d) # fs) \<longleftrightarrow> i < 65536 \<and> field_ids_ok fs"
  "field_ids_ok (fs @ gs) \<longleftrightarrow> field_ids_ok fs \<and> field_ids_ok gs"
  by (simp_all add: field_ids_ok_def)

lemma rd16_bytes16: "n < 65536 \<Longrightarrow> i = length pre \<Longrightarrow> rd16 (pre @ bytes16 (word_of_nat n) @ post) i = n"
  by (simp add: rd16_def bytes16_def nth_append unat_of_nat take_bit_nat_eq_self)

lemma rd16_field:
  assumes "j < 65536" "length d < 65536"
  shows "rd16 (pre @ field_bytes j d @ post) (length pre) = j"
    and "rd16 (pre @ field_bytes j d @ post) (length pre + 2) = length d"
  using rd16_bytes16 [OF assms(1), of "length pre" pre "bytes16 (word_of_nat (length d)) @ d @ post"]
    rd16_bytes16 [OF assms(2), of "length pre + 2" "pre @ bytes16 (word_of_nat j)" "d @ post"]
  by (simp_all add: field_bytes_def)

lemma split_first: "i \<in> fst ` set fs \<Longrightarrow>
    \<exists>fs1 x fs2. fs = fs1 @ (i, x) # fs2 \<and> i \<notin> fst ` set fs1 \<and> (\<forall>d. replace_first i d fs = fs1 @ (i, d) # fs2)"
proof (induction fs)
  case (Cons f fs)
  obtain j x where f: "f = (j, x)" by (cases f)
  show ?case
  proof (cases "j = i")
    case True
    with f show ?thesis by (intro exI [of _ "[]"] exI [of _ x] exI [of _ fs]) simp
  next
    case False
    with Cons f obtain fs1 y fs2 where s: "fs = fs1 @ (i, y) # fs2" "i \<notin> fst ` set fs1"
      "\<forall>d. replace_first i d fs = fs1 @ (i, d) # fs2" by auto
    with False f show ?thesis by (intro exI [of _ "(j, x) # fs1"]) auto
  qed
qed simp

subsection \<open>The search\<close>

lemma find_field_skip:
  "length pre + length (encode_fields fs) + length post \<le> KV_MAX_VALUE \<Longrightarrow> field_ids_ok fs \<Longrightarrow> i \<notin> fst ` set fs \<Longrightarrow>
    find_stored (pre @ encode_fields fs @ post) i (length pre)
      = find_stored (pre @ encode_fields fs @ post) i (length pre + length (encode_fields fs))"
proof (induction fs arbitrary: pre)
  case (Cons f fs)
  obtain j x where f: "f = (j, x)" by (cases f)
  from Cons.prems f have j: "j < 65536" "length x < 65536" "j \<noteq> i" by (auto simp: KV_MAX_VALUE_def)
  note r = rd16_field [OF j(1,2), of pre "encode_fields fs @ post"]
  have "find_stored (pre @ encode_fields (f # fs) @ post) i (length pre)
      = find_stored ((pre @ field_bytes j x) @ encode_fields fs @ post) i (length (pre @ field_bytes j x))"
    using Cons.prems f r j by (subst find_stored.simps) (simp add: KV_MAX_VALUE_def add.commute add.left_commute)
  also have "\<dots> = find_stored ((pre @ field_bytes j x) @ encode_fields fs @ post) i
      (length (pre @ field_bytes j x) + length (encode_fields fs))"
    by (rule Cons.IH) (use Cons.prems f in auto)
  finally show ?case using f by (simp add: add.assoc)
qed simp

lemma find_field_missing:
  "length (encode_fields fs) \<le> KV_MAX_VALUE \<Longrightarrow> field_ids_ok fs \<Longrightarrow> i \<notin> fst ` set fs \<Longrightarrow>
    find_stored (encode_fields fs) i 0 = Some None"
  using find_field_skip [of "[]" fs "[]" i] by (simp add: find_stored.simps [of _ _ "length (encode_fields fs)"])

lemma find_field_present:
  assumes "length (encode_fields (fs1 @ (i, x) # fs2)) \<le> KV_MAX_VALUE" "field_ids_ok (fs1 @ (i, x) # fs2)" "i \<notin> fst ` set fs1"
  shows "find_stored (encode_fields (fs1 @ (i, x) # fs2)) i 0 = Some (Some (length (encode_fields fs1)))"
proof -
  have "i < 65536" "length x < 65536" using assms by (simp_all add: KV_MAX_VALUE_def)
  from rd16_field(1) [OF this, of "encode_fields fs1" "encode_fields fs2"] find_field_skip [of "[]" fs1 "field_bytes i x @ encode_fields fs2" i] assms
  show ?thesis by (simp add: find_stored.simps [of _ _ "length (encode_fields fs1)"])
qed

subsection \<open>One field\<close>

lemma int16_id [simp]: "- 32768 \<le> x \<Longrightarrow> x < 32768 \<Longrightarrow> int16 x = x"
  by (simp add: int16_def sint_sbintrunc' signed_take_bit_int_eq_self)

lemma replace_field_encoded:
  assumes len: "length (encode_fields (fs1 @ (i, x) # fs2)) \<le> KV_MAX_VALUE" and i: "i < 65536"
    and d: "d = segment dpos n delta" "dpos + n \<le> length delta" "length delta \<le> 504"
  shows "replace_field (encode_fields (fs1 @ (i, x) # fs2)) (length (encode_fields fs1)) i delta dpos n
    = Inr (if length (encode_fields (fs1 @ (i, d) # fs2)) \<le> KV_MAX_VALUE then Some (encode_fields (fs1 @ (i, d) # fs2)) else None)"
proof -
  let ?m = "encode_fields fs1 @ field_bytes i x @ encode_fields fs2"
  have ld: "length d = n" using d by simp
  have lx: "length x < 65536" using len by (simp add: KV_MAX_VALUE_def)
  have r: "rd16 ?m (length (encode_fields fs1) + 2) = length x" by (rule rd16_field(2) [OF i lx])
  define a where "a = length (encode_fields fs1)"
  define b where "b = length (encode_fields fs2)"
  have l: "a + 4 + length x + b \<le> 508" using len by (simp add: a_def b_def KV_MAX_VALUE_def)
  have n: "n \<le> 504" using d by simp
  have lm: "length ?m = a + 4 + length x + b" by (simp add: a_def b_def)
  have diff: "int16 (int16 (int (cast16 (4 + n))) - int16 (int (cast16 (4 + length x)))) = int n - int (length x)"
    using l n by simp
  have tail: "cast16 (a + cast16 (4 + length x)) = a + 4 + length x" using l by simp
  have "a + 4 + length x + b + 65536 - (a + 4 + length x) = b + 65536" by simp
  then have tl: "cast16 (a + 4 + length x + b + 65536 - (a + 4 + length x)) = b"
    using l by (simp only:) (simp add: cast16_def)
  have new: "(int16 (int (a + 4 + length x + b)) + (int n - int (length x))) mod 65536 = int (a + 4 + n + b)"
    using l n by simp
  have dr: "drop (a + 4 + length x) ?m = encode_fields fs2" "take a ?m = encode_fields fs1" by (simp_all add: a_def)
  have seg: "segment dpos n delta = d" by (simp add: d)
  have ln: "length (encode_fields (fs1 @ (i, d) # fs2)) = a + 4 + n + b" by (simp add: a_def b_def ld)
  have big: "int KV_MAX_VALUE < int (a + 4 + length x + b) + (int n - int (length x)) \<longleftrightarrow> \<not> a + 4 + n + b \<le> KV_MAX_VALUE"
    by linarith
  have c: "cast16 (4 + n) = 4 + n" using n by simp
  have e: "replace_field ?m a i delta dpos n =
      (if \<not> a + 4 + n + b \<le> KV_MAX_VALUE then Inr None
       else if 0 < b \<and> int n - int (length x) \<noteq> 0
            \<and> (KV_MAX_VALUE < a + 4 + length x + b \<or> KV_MAX_VALUE < a + (4 + n) + b) then Inl Oob
       else if KV_MAX_VALUE < a + 4 + n \<or> length delta < dpos + n then Inl Oob
       else Inr (Some (take (nat (int (a + 4 + n + b))) (encode_fields fs1 @ field_bytes i d @ encode_fields fs2))))"
    unfolding replace_field_def Let_def r [folded a_def] lm diff [unfolded c] tail tl big new dr seg c by (rule refl)
  show ?thesis
  proof (cases "a + 4 + n + b \<le> KV_MAX_VALUE")
    case False
    with ln have "\<not> length (encode_fields (fs1 @ (i, d) # fs2)) \<le> KV_MAX_VALUE" by (simp only: simp_thms)
    with False e show ?thesis by (simp only: encode_fields_simps a_def [symmetric] if_False if_True simp_thms)
  next
    case True
    then have ok: "\<not> KV_MAX_VALUE < a + 4 + length x + b" "\<not> KV_MAX_VALUE < a + (4 + n) + b"
      "\<not> KV_MAX_VALUE < a + 4 + n" "\<not> length delta < dpos + n"
      using l d(2) by (simp_all add: KV_MAX_VALUE_def)
    have t: "take (nat (int (a + 4 + n + b))) (encode_fields fs1 @ field_bytes i d @ encode_fields fs2)
        = encode_fields (fs1 @ (i, d) # fs2)"
      using ln by (simp only: encode_fields_simps nat_int) simp
    from True ln have "length (encode_fields (fs1 @ (i, d) # fs2)) \<le> KV_MAX_VALUE" by (simp only: simp_thms)
    moreover from e have "replace_field ?m a i delta dpos n = Inr (Some (encode_fields (fs1 @ (i, d) # fs2)))"
      using True ok t by (simp only: if_False if_True simp_thms)
    ultimately show ?thesis by (simp only: encode_fields_simps a_def [symmetric] if_True simp_thms)
  qed
qed

lemma merge_field_encoded:
  assumes len: "length (encode_fields fs) \<le> KV_MAX_VALUE" and ids: "field_ids_ok fs" "i < 65536"
    and d: "d = segment dpos n delta" "dpos + n \<le> length delta" "length delta \<le> 504"
  shows "merge_field (encode_fields fs) i delta dpos n = Inr (encode_fields (put_field (i, d) fs))"
proof (cases "i \<in> fst ` set fs")
  case False
  have "length d = n" using d by simp
  with False find_field_missing [OF len ids(1) False] d show ?thesis
    by (simp add: merge_field_def append_field_def put_field_def)
next
  case True
  then obtain fs1 x fs2 where s: "fs = fs1 @ (i, x) # fs2" "i \<notin> fst ` set fs1" "replace_first i d fs = fs1 @ (i, d) # fs2"
    using split_first [OF True] by blast
  have l: "length d = n" using d by simp
  note f = find_field_present [OF len [unfolded s] ids(1) [unfolded s] s(2)]
  note r = replace_field_encoded [OF len [unfolded s] ids(2) d]
  show ?thesis
  proof (cases "length (encode_fields (fs1 @ (i, d) # fs2)) \<le> KV_MAX_VALUE")
    case True
    with f r s \<open>i \<in> fst ` set fs\<close> show ?thesis by (simp add: merge_field_def put_field_def)
  next
    case False
    then have "KV_MAX_VALUE < length (encode_fields fs) + 4 + n" using l by (simp add: s(1))
    with False f r s \<open>i \<in> fst ` set fs\<close> show ?thesis by (simp add: merge_field_def put_field_def append_field_def)
  qed
qed

subsection \<open>The whole delta\<close>

lemma put_field_fits: "length (encode_fields fs) \<le> KV_MAX_VALUE \<Longrightarrow> length (encode_fields (put_field f fs)) \<le> KV_MAX_VALUE"
  by (simp add: put_field_def Let_def split: prod.split)

lemma put_field_ids: "field_ids_ok fs \<Longrightarrow> i < 65536 \<Longrightarrow> field_ids_ok (put_field (i, d) fs)"
proof (cases "i \<in> fst ` set fs")
  case True
  then obtain fs1 x fs2 where "fs = fs1 @ (i, x) # fs2" "replace_first i d fs = fs1 @ (i, d) # fs2"
    using split_first [OF True] by blast
  then show "field_ids_ok fs \<Longrightarrow> i < 65536 \<Longrightarrow> ?thesis" by (simp add: put_field_def Let_def)
qed (simp add: put_field_def Let_def)

lemma merge_loop_encoded:
  "length (encode_fields fs) \<le> KV_MAX_VALUE \<Longrightarrow> field_ids_ok fs \<Longrightarrow> field_ids_ok ds \<Longrightarrow>
   length (pre @ encode_fields ds @ post) \<le> 504 \<Longrightarrow>
   merge_loop (encode_fields fs) (pre @ encode_fields ds @ post) (length pre + length (encode_fields ds)) (length pre)
     = Inr (encode_fields (fold put_field ds fs))"
proof (induction ds arbitrary: pre fs)
  case Nil
  then show ?case by (simp add: merge_loop.simps)
next
  case (Cons f ds)
  obtain i d where f: "f = (i, d)" by (cases f)
  let ?delta = "pre @ field_bytes i d @ encode_fields ds @ post"
  from Cons.prems f have i: "i < 65536" "length d < 65536" by auto
  note r = rd16_field [OF i, of pre "encode_fields ds @ post"]
  have seg: "d = segment (length pre + 4) (length d) ?delta"
    by (simp add: segment_def field_bytes_def)
  have m: "merge_field (encode_fields fs) i ?delta (length pre + 4) (length d) = Inr (encode_fields (put_field (i, d) fs))"
    by (rule merge_field_encoded [OF Cons.prems(1,2) i(1) seg]) (use Cons.prems f in auto)
  have "merge_loop (encode_fields fs) ?delta (length pre + length (encode_fields (f # ds))) (length pre)
      = merge_loop (encode_fields (put_field (i, d) fs)) ?delta (length pre + length (encode_fields (f # ds))) (length pre + 4 + length d)"
    using m r f by (subst merge_loop.simps) (simp add: Let_def)
  also have "\<dots> = merge_loop (encode_fields (put_field (i, d) fs)) ((pre @ field_bytes i d) @ encode_fields ds @ post)
      (length (pre @ field_bytes i d) + length (encode_fields ds)) (length (pre @ field_bytes i d))"
    by (simp add: f add.assoc)
  also have "\<dots> = Inr (encode_fields (fold put_field ds (put_field (i, d) fs)))"
    by (rule Cons.IH) (use Cons.prems f i put_field_fits put_field_ids in auto)
  finally show ?case by (simp add: f)
qed

lemma map_of_replace_first:
  "map_of (replace_first i d fs) j = (if j = i \<and> i \<in> fst ` set fs then Some d else map_of fs j)"
proof (induction fs)
  case (Cons f fs)
  obtain a b where f: "f = (a, b)" by (cases f)
  show ?case using Cons.IH by (cases "j = i") (simp_all add: f)
qed simp

lemma length_replace_first:
  "length (encode_fields (replace_first i d fs)) \<le> length (encode_fields fs) + length d"
  by (induction i d fs rule: replace_first.induct) auto

lemma map_of_put_field:
  assumes "length (encode_fields fs) + 4 + length d \<le> KV_MAX_VALUE"
  shows "map_of (put_field (i, d) fs) = (map_of fs)(i \<mapsto> d)"
    and "length (encode_fields (put_field (i, d) fs)) \<le> length (encode_fields fs) + 4 + length d"
proof -
  have "length (encode_fields (replace_first i d fs)) \<le> KV_MAX_VALUE" using assms length_replace_first [of i d fs] by simp
  then show "map_of (put_field (i, d) fs) = (map_of fs)(i \<mapsto> d)"
    using assms map_of_replace_first [of i d fs] map_of_eq_None_iff [of fs i]
    by (cases "i \<in> fst ` set fs") (auto simp: put_field_def Let_def fun_eq_iff map_add_def split: option.split)
  show "length (encode_fields (put_field (i, d) fs)) \<le> length (encode_fields fs) + 4 + length d"
    using length_replace_first [of i d fs] by (simp add: put_field_def Let_def)
qed

lemma map_of_fold_put:
  "length (encode_fields fs) + length (encode_fields ds) \<le> KV_MAX_VALUE \<Longrightarrow>
     map_of (fold put_field ds fs) = map_of fs ++ map_of (rev ds)"
proof (induction ds arbitrary: fs)
  case (Cons f ds)
  obtain i d where f: "f = (i, d)" by (cases f)
  with Cons.prems have "length (encode_fields fs) + 4 + length d \<le> KV_MAX_VALUE" by simp
  note p = map_of_put_field [OF this, of i]
  from Cons.IH [of "put_field f fs"] Cons.prems p(2) f
  have "map_of (fold put_field (f # ds) fs) = map_of (put_field (i, d) fs) ++ map_of (rev ds)" by simp
  also have "\<dots> = map_of fs ++ map_of (rev (f # ds))" unfolding p(1) by (simp add: f)
  finally show ?case .
qed simp

subsection \<open>The search that does not end\<close>

lemma find_field_loop:
  assumes "4 \<le> length m" "rd16 m 0 \<noteq> i" "rd16 m 2 = 65532"
  shows "find_stored m i 0 = None"
proof -
  let ?P = "\<lambda>m' i' p (r :: nat option). \<not> (m' = m \<and> i' = i \<and> p = (0 :: nat))"
  have "?P m i 0 r" if "find_stored m i 0 = Some r" for r
  proof (rule find_stored.raw_induct [of ?P, OF _ that])
    fix ff :: "byte list \<Rightarrow> nat \<Rightarrow> nat \<Rightarrow> nat option option" and m' i' p r
    assume ih: "\<And>m' i' p r. ff m' i' p = Some r \<Longrightarrow> ?P m' i' p r"
      and run: "(if length m' < p + 4 then Some None else if rd16 m' p = i' then Some (Some p)
        else ff m' i' (cast16 (p + cast16 (4 + rd16 m' (p + 2))))) = Some r"
    show "?P m' i' p r"
    proof
      assume e: "m' = m \<and> i' = i \<and> p = 0"
      have "ff m i 0 = Some r" using run e assms by (simp add: cast16_def numeral_2_eq_2)
      from ih [OF this] show False by simp
    qed
  qed
  then show ?thesis by (cases "find_stored m i 0") auto
qed

subsection \<open>Properties\<close>

text \<open>
  C18: merging a delta. When the stored record and the delta are sequences of whole fields (record at most
  508 bytes, delta within its slot), the merge of \<open>wal_do_append\<close> ends, stays inside its
  buffers and yields exactly the record in which each field of the delta has replaced the field of
  its number or was added at the end, leaving out those that would exceed 508 bytes. When
  everything fits, the merged record maps each field number to its newest data.
\<close>

theorem wal_merge_refines:
  assumes "length (encode_fields fs) \<le> KV_MAX_VALUE" "field_ids_ok fs" "field_ids_ok ds"
    "length (encode_fields ds @ rest) \<le> SLOT_SIZE - DELTA_HEADER"
  shows "merge_loop (encode_fields fs) (encode_fields ds @ rest) (length (encode_fields ds)) 0 = Inr (encode_fields (fold put_field ds fs))
    \<and> (length (encode_fields fs) + length (encode_fields ds) \<le> KV_MAX_VALUE \<longrightarrow>
        map_of (fold put_field ds fs) = map_of fs ++ map_of (rev ds))"
  using merge_loop_encoded [of fs ds "[]" rest] assms map_of_fold_put [of fs ds]
  by (simp add: SLOT_SIZE_def DELTA_HEADER_def)

theorem wal_merge_refines_witness:
  "merge_loop (field_bytes 1 [7] @ field_bytes 2 [8, 9]) (field_bytes 2 [5] @ [0, 0]) 5 0 = Inr (field_bytes 1 [7] @ field_bytes 2 [5])"
  using wal_merge_refines [of "[(1, [7]), (2, [8, 9])]" "[(2, [5])]" "[0, 0]"]
  by (simp add: KV_MAX_VALUE_def SLOT_SIZE_def DELTA_HEADER_def put_field_def)

text \<open>
  C19: a stored record whose first field carries the length 0xFFFC makes the merge hang. The 16-bit position
  of the search comes back to where it was, so an append to that key of any delta that starts with a field of
  another number never returns.
\<close>

theorem wal_merge_hangs:
  assumes "4 \<le> length old" "rd16 old 2 = 0xFFFC" "rd16 old 0 \<noteq> rd16 delta 0"
    and "4 + rd16 delta 2 \<le> delta_len" "4 \<le> length delta"
  shows "merge_loop old delta delta_len 0 = Inl Hang"
  using find_field_loop [of old "rd16 delta 0"] assms
  by (subst merge_loop.simps) (simp add: merge_field_def Let_def numeral_2_eq_2)

theorem wal_merge_hangs_witness:
  "merge_loop [1, 0, 0xFC, 0xFF] (field_bytes 2 [9]) 5 0 = Inl Hang"
  by (rule wal_merge_hangs) (simp_all add: rd16_def le16_def field_bytes_def bytes16_def)

end
