(* ===== verification/WalLog.thy ===== *)
theory WalLog
  imports WalMerge "HOL-Library.Multiset"
begin

text \<open>
  The engine around the merge: every request that was taken is answered once, the slots and the log
  stay consistent, compaction keeps the newest delta of every key, and a read returns the deltas
  of a key in the order of their sequence numbers.
\<close>

unbundle bit_operations_syntax

subsection \<open>Answers\<close>

definition same_ring :: "wal_state \<Rightarrow> wal_state \<Rightarrow> bool" where
  "same_ring s t \<longleftrightarrow> requests t = requests s \<and> responses t = responses s \<and> fifo_out t = fifo_out s
     \<and> fifo_pushes t = fifo_pushes s \<and> fifo_ready t = fifo_ready s \<and> fifo_in t = fifo_in s"

lemma same_ring_refl [simp]: "same_ring s s"
  by (simp add: same_ring_def)

lemma same_ring_trans: "same_ring s t \<Longrightarrow> same_ring t u \<Longrightarrow> same_ring s u"
  by (simp add: same_ring_def)

lemma same_ring_slot_write: "slot_write s slot pos ys = Inr t \<Longrightarrow> same_ring s t"
  by (auto simp: slot_write_def same_ring_def split: if_split_asm)

lemma same_ring_free [simp]: "same_ring s (free_slot i t) \<longleftrightarrow> same_ring s t"
  by (simp add: same_ring_def free_slot_def)

lemma same_ring_alloc: "wal_alloc_slot s = Some (i, t) \<Longrightarrow> same_ring s t"
  by (auto simp: wal_alloc_slot_def same_ring_def)

lemma same_ring_pack: "pack_deltas s rslot ids pos = Inr (n, t) \<Longrightarrow> same_ring s t"
proof (induction ids arbitrary: s pos)
  case (Cons i ids)
  then show ?case
    by (auto simp: Let_def split: if_split_asm sum.split_asm intro: same_ring_trans dest: same_ring_slot_write)
qed simp

text \<open>The result of a handler is the answer to its request.\<close>

definition answers :: "wal_state \<Rightarrow> nat \<Rightarrow> wal_state \<Rightarrow> bool" where
  "answers s req_id s' \<longleftrightarrow>
     requests s' = (requests s)[req_id := (requests s ! req_id)\<lparr>req_ready := REQ_DONE\<rparr>]
     \<and> fifo_pushes s' = fifo_pushes s + 1 \<and> fifo_ready s' = fifo_ready s
     \<and> fifo_out s' = fifo_out s @ (if fifo_ready s (fifo_pushes s) then [fifo_signal req_id] else [])
     \<and> (\<forall>j. j \<noteq> req_id \<longrightarrow> responses s' ! j = responses s ! j)"

lemma finish_answers: "same_ring s t \<Longrightarrow> answers s req_id (wal_finish req_id resp t)"
  by (simp add: same_ring_def answers_def wal_finish_def fifo_push_timeout_def Let_def)

lemma append_answers: "wal_do_append dev s req_id = Inr s' \<Longrightarrow> answers s req_id s'"
  unfolding wal_do_append_def Let_def log_append_def
  by (auto split: if_split_asm option.split_asm sum.split_asm intro!: finish_answers dest!: same_ring_slot_write
      simp: same_ring_def free_slot_def)

lemma read_answers: "wal_do_read s req_id = Inr s' \<Longrightarrow> answers s req_id s'"
  unfolding wal_do_read_def Let_def
  by (auto split: if_split_asm option.split_asm sum.split_asm prod.split_asm intro!: finish_answers
      dest!: same_ring_alloc same_ring_pack intro: same_ring_trans)

lemma kv_get_answers: "wal_do_kv_get s req_id = Inr s' \<Longrightarrow> answers s req_id s'"
  unfolding wal_do_kv_get_def
  by (auto split: option.split_asm sum.split_asm prod.split_asm read_result.split_asm intro!: finish_answers
      dest!: same_ring_alloc same_ring_slot_write intro: same_ring_trans)

lemma kv_put_answers: "wal_do_kv_put dev s req_id = Inr s' \<Longrightarrow> answers s req_id s'"
  unfolding wal_do_kv_put_def Let_def
  by (auto split: if_split_asm prod.split_asm intro!: finish_answers simp: same_ring_def free_slot_def)

lemma map_sum_Inr: "map_sum id f x = Inr t \<longleftrightarrow> (\<exists>u. x = Inr u \<and> t = f u)"
  by (cases x) auto

lemma answers_count: "answers s req_id (count_append t) \<longleftrightarrow> answers s req_id t" "answers s req_id (count_read t) \<longleftrightarrow> answers s req_id t"
  "answers s req_id (t\<lparr>req_total := n\<rparr>) \<longleftrightarrow> answers s req_id t"
  by (simp_all add: answers_def count_append_def count_read_def)

lemma dispatch_answers: "wal_dispatch dev s req_id = Inr s' \<Longrightarrow> answers s req_id s'"
  unfolding wal_dispatch_def Let_def
  by (auto split: if_split_asm simp: map_sum_Inr answers_count
      intro: append_answers read_answers kv_get_answers kv_put_answers finish_answers [OF same_ring_refl])

lemma drain_answers:
  "wal_drain dev words did_work s = Inr (w', s') \<Longrightarrow> length (requests s) = REQ_RING_SIZE \<Longrightarrow>
   length (requests s') = REQ_RING_SIZE
   \<and> fifo_pushes s' = fifo_pushes s + length (filter (\<lambda>w. fifo_req_id w < REQ_RING_SIZE) words)
   \<and> fifo_ready s' = fifo_ready s
   \<and> (\<forall>j. req_ready (requests s ! j) = REQ_DONE \<longrightarrow> req_ready (requests s' ! j) = REQ_DONE)
   \<and> (\<forall>w \<in> set words. fifo_req_id w < REQ_RING_SIZE \<longrightarrow> req_ready (requests s' ! fifo_req_id w) = REQ_DONE)
   \<and> ((\<forall>n. fifo_ready s n) \<longrightarrow> fifo_out s' = fifo_out s
        @ map (\<lambda>w. fifo_signal (fifo_req_id w)) (filter (\<lambda>w. fifo_req_id w < REQ_RING_SIZE) words))"
proof (induction words arbitrary: s did_work)
  case (Cons w words)
  let ?r = "fifo_req_id w"
  show ?case
  proof (cases "?r < REQ_RING_SIZE")
    case False
    with Cons.prems Cons.IH [of did_work s] show ?thesis by (simp add: Let_def)
  next
    case True
    then obtain s1 where d: "wal_dispatch dev s ?r = Inr s1" "wal_drain dev words True s1 = Inr (w', s')"
      using Cons.prems by (auto simp: Let_def split: sum.split_asm)
    note a = dispatch_answers [OF d(1), unfolded answers_def]
    have l: "length (requests s1) = REQ_RING_SIZE" using a Cons.prems(2) by simp
    have "req_ready (requests s1 ! j) = REQ_DONE" if "req_ready (requests s ! j) = REQ_DONE \<or> j = ?r" for j
      using a that True Cons.prems(2) by (cases "j = ?r") auto
    with Cons.IH [OF d(2) l] a True show ?thesis by auto
  qed
qed simp

subsection \<open>Slots and log\<close>

definition used :: "wal_state \<Rightarrow> nat \<Rightarrow> bool" where
  "used s i \<longleftrightarrow> i < WAL_MAX_ENTRIES \<and> we_seq (w_entries s ! i) \<noteq> 0"

definition slot_of :: "wal_state \<Rightarrow> nat \<Rightarrow> nat" where
  "slot_of s i = unat (we_slot (w_entries s ! i))"

definition wal_sizes :: "wal_state \<Rightarrow> bool" where
  "wal_sizes s \<longleftrightarrow> length (w_data s) = SLOT_COUNT \<and> list_all (\<lambda>b. length b = SLOT_SIZE) (w_data s)
     \<and> length (slot_free s) = SLOT_COUNT \<and> length (w_entries s) = WAL_MAX_ENTRIES
     \<and> length (requests s) = REQ_RING_SIZE \<and> length (responses s) = REQ_RING_SIZE"

text \<open>
  Every used entry is live and owns its slot alone, a used slot is not free, and the counter is the
  number of used entries.
\<close>

definition wal_inv :: "wal_state \<Rightarrow> bool" where
  "wal_inv s \<longleftrightarrow> wal_sizes s
     \<and> (\<forall>i. used s i \<longrightarrow> we_live (w_entries s ! i) \<and> slot_of s i < SLOT_COUNT \<and> slot_free s ! slot_of s i = 0)
     \<and> (\<forall>i j. used s i \<longrightarrow> used s j \<longrightarrow> slot_of s i = slot_of s j \<longrightarrow> i = j)
     \<and> entry_count s = word_of_nat (card {i. used s i})"

text \<open>A slot that Core 0 holds: taken from the pool, and not in the log.\<close>

definition owned :: "wal_state \<Rightarrow> nat \<Rightarrow> bool" where
  "owned s slot \<longleftrightarrow> slot < SLOT_COUNT \<and> slot_free s ! slot = 0 \<and> (\<forall>i. used s i \<longrightarrow> slot_of s i \<noteq> slot)"

lemma finite_used [simp]: "finite {i. used s i}"
  by (rule finite_subset [of _ "{..<WAL_MAX_ENTRIES}"]) (auto simp: used_def)

text \<open>What the invariant depends on.\<close>

lemma wal_inv_cong:
  assumes "w_entries t = w_entries s" "slot_free t = slot_free s" "entry_count t = entry_count s" "wal_sizes t"
  shows "wal_inv s \<Longrightarrow> wal_inv t"
  using assms by (simp add: wal_inv_def used_def slot_of_def)

lemma wal_inv_finish:
  assumes "wal_inv s"
  shows "wal_inv (wal_finish req_id resp s)"
proof -
  have "w_entries (wal_finish req_id resp s) = w_entries s \<and> slot_free (wal_finish req_id resp s) = slot_free s
      \<and> entry_count (wal_finish req_id resp s) = entry_count s \<and> wal_sizes (wal_finish req_id resp s)"
    using assms by (simp add: wal_finish_def fifo_push_timeout_def Let_def wal_inv_def wal_sizes_def)
  then show ?thesis using wal_inv_cong [OF _ _ _ _ assms] by blast
qed

lemma wal_inv_write:
  assumes "wal_inv s" "slot_write s slot pos ys = Inr t"
  shows "wal_inv t \<and> w_entries t = w_entries s \<and> slot_free t = slot_free s \<and> w_kv t = w_kv s \<and> next_seq t = next_seq s"
proof -
  from assms have l: "length (w_data s ! slot) = SLOT_SIZE" "slot < SLOT_COUNT" "pos + length ys \<le> SLOT_SIZE"
    and t: "t = s\<lparr>w_data := (w_data s)[slot := blit (w_data s ! slot) pos ys]\<rparr>"
    by (auto simp: slot_write_def wal_inv_def wal_sizes_def list_all_length split: if_split_asm)
  have "length (blit (w_data s ! slot) pos ys) = SLOT_SIZE" using l by (simp add: blit_def)
  with assms(1) l(2) have "wal_sizes t"
    by (auto simp: t wal_inv_def wal_sizes_def list_all_length nth_list_update)
  with wal_inv_cong [of t s] assms(1) show ?thesis by (simp add: t)
qed

lemma wal_inv_alloc:
  assumes "wal_inv s" "wal_alloc_slot s = Some (i, t)"
  shows "wal_inv t \<and> i < SLOT_COUNT \<and> owned t i \<and> w_entries t = w_entries s \<and> w_data t = w_data s"
proof -
  from assms(2) have i: "i < SLOT_COUNT" "slot_free s ! i \<noteq> 0" and t: "t = s\<lparr>slot_free := (slot_free s)[i := 0]\<rparr>"
    by (auto simp: wal_alloc_slot_def find_Some_iff)
  have u: "used t = used s" "slot_of t = slot_of s" by (simp_all add: t used_def slot_of_def fun_eq_iff)
  have n: "slot_of s j \<noteq> i" if "used s j" for j using assms(1) that i(2) by (auto simp: wal_inv_def)
  have "(slot_free s)[i := 0] ! slot_of s j = 0" if "used s j" for j
    using assms(1) n [OF that] that by (simp add: wal_inv_def)
  then have "wal_inv t" using assms(1) by (simp add: wal_inv_def u) (simp add: t wal_sizes_def)
  then show ?thesis using i n by (auto simp: owned_def u) (simp_all add: t wal_inv_def wal_sizes_def)
qed

lemma wal_inv_free:
  assumes "wal_inv s" "\<And>j. used s j \<Longrightarrow> slot_of s j \<noteq> i"
  shows "wal_inv (free_slot i s)"
proof -
  have u: "used (free_slot i s) = used s" "slot_of (free_slot i s) = slot_of s"
    by (simp_all add: free_slot_def used_def slot_of_def fun_eq_iff)
  have "(slot_free s)[i := 1] ! slot_of s j = 0" if "used s j" for j
    using assms(1) assms(2) [OF that] that by (simp add: wal_inv_def)
  then show ?thesis using assms(1) by (simp add: wal_inv_def u) (simp add: free_slot_def wal_sizes_def)
qed

lemma log_append_inv:
  assumes inv: "wal_inv s" and own: "owned s (unat (req_slot req))" and seq: "next_seq s \<noteq> 0"
  shows "wal_inv (log_append s req_id req hdr)"
proof (cases "wal_alloc_entry s")
  case None
  have f: "wal_inv (free_slot (unat (req_slot req)) s)"
    by (rule wal_inv_free [OF inv]) (use own in \<open>auto simp: owned_def\<close>)
  have "wal_inv ((free_slot (unat (req_slot req)) s)\<lparr>next_seq := next_seq s + 1\<rparr>)"
    by (rule wal_inv_cong [OF _ _ _ _ f]) (use f in \<open>simp_all add: wal_inv_def wal_sizes_def\<close>)
  with None show ?thesis by (simp add: log_append_def wal_inv_finish)
next
  case (Some idx)
  then have i: "idx < WAL_MAX_ENTRIES" "we_seq (w_entries s ! idx) = 0"
    by (auto simp: wal_alloc_entry_def find_Some_iff)
  define fl where "fl = (if dh_op hdr = DELTA_OP_DELETE then WAL_ENTRY_ACTIVE OR WAL_ENTRY_TOMBSTONE else WAL_ENTRY_ACTIVE)"
  define e where "e = \<lparr>we_seq = next_seq s, we_key_hash = dh_key_hash hdr, we_slot = req_slot req, we_len = req_len req, we_flags = fl\<rparr>"
  define t where "t = s\<lparr>next_seq := next_seq s + 1, w_entries := (w_entries s)[idx := e], entry_count := entry_count s + 1\<rparr>"
  have live: "we_live e"
    using seq by (simp add: e_def fl_def we_live_def WAL_ENTRY_ACTIVE_def WAL_ENTRY_TOMBSTONE_def WAL_ENTRY_COMPACTED_def)
  have len: "length (w_entries s) = WAL_MAX_ENTRIES" using inv by (simp add: wal_inv_def wal_sizes_def)
  have nu: "\<not> used s idx" using i by (simp add: used_def)
  have u: "used t j \<longleftrightarrow> used s j \<or> j = idx" for j
    using i len seq by (cases "j = idx") (simp_all add: used_def t_def e_def)
  have sl: "slot_of t j = (if j = idx then unat (req_slot req) else slot_of s j)" for j
    using i len by (simp add: slot_of_def t_def e_def nth_list_update)
  have en: "w_entries t ! j = (if j = idx then e else w_entries s ! j)" for j
    using i len by (simp add: t_def nth_list_update)
  have "{j. used t j} = insert idx {j. used s j}" using u by auto
  then have "card {j. used t j} = card {j. used s j} + 1" using nu by simp
  then have c: "entry_count t = word_of_nat (card {j. used t j})"
    using inv by (simp add: t_def wal_inv_def)
  have "wal_inv t"
    using inv own nu live c unfolding wal_inv_def u sl en owned_def
    by (auto simp: t_def wal_sizes_def)
  with Some show ?thesis by (simp add: log_append_def Let_def wal_inv_finish t_def e_def fl_def)
qed

lemma drop_entry_spec:
  assumes inv: "wal_inv s" and us: "used s i"
  shows "wal_inv (drop_entry i s)" and "used (drop_entry i s) j \<longleftrightarrow> used s j \<and> j \<noteq> i"
    and "j \<noteq> i \<Longrightarrow> w_entries (drop_entry i s) ! j = w_entries s ! j"
    and "length (w_entries (drop_entry i s)) = length (w_entries s)"
    and "w_data (drop_entry i s) = w_data s" and "w_kv (drop_entry i s) = w_kv s"
proof -
  let ?t = "drop_entry i s"
  have i: "i < WAL_MAX_ENTRIES" using us by (simp add: used_def)
  have len: "length (w_entries s) = WAL_MAX_ENTRIES" using inv by (simp add: wal_inv_def wal_sizes_def)
  have f: "slot_free ?t = (slot_free s)[slot_of s i := 1]" by (simp add: drop_entry_def free_slot_def slot_of_def Let_def)
  show u: "used ?t j \<longleftrightarrow> used s j \<and> j \<noteq> i" for j
    using i len by (cases "j = i") (simp_all add: used_def drop_entry_def free_slot_def Let_def)
  show e: "j \<noteq> i \<Longrightarrow> w_entries ?t ! j = w_entries s ! j" for j
    by (simp add: drop_entry_def free_slot_def Let_def)
  show "length (w_entries ?t) = length (w_entries s)" "w_data ?t = w_data s" "w_kv ?t = w_kv s"
    by (simp_all add: drop_entry_def free_slot_def Let_def)
  have sl: "j \<noteq> i \<Longrightarrow> slot_of ?t j = slot_of s j" for j using e by (simp add: slot_of_def)
  have fr: "slot_free ?t ! slot_of s j = 0" if "used s j" "j \<noteq> i" for j
  proof -
    have "slot_of s j \<noteq> slot_of s i" using inv us that unfolding wal_inv_def by blast
    then show ?thesis using inv that by (simp add: f wal_inv_def)
  qed
  have "{j. used ?t j} = {j. used s j} - {i}" using u by auto
  then have "card {j. used s j} = Suc (card {j. used ?t j})" using us card_Suc_Diff1 [of "{j. used s j}" i] by simp
  moreover have "entry_count s = word_of_nat (card {j. used s j})" using inv by (simp add: wal_inv_def)
  moreover have "entry_count ?t = entry_count s - 1" by (simp add: drop_entry_def free_slot_def Let_def)
  ultimately have c: "entry_count ?t = word_of_nat (card {j. used ?t j})" by (simp only: of_nat_Suc) simp
  have "wal_sizes ?t" using inv by (simp add: drop_entry_def free_slot_def Let_def wal_inv_def wal_sizes_def)
  moreover have "we_live (w_entries ?t ! j) \<and> slot_of ?t j < SLOT_COUNT \<and> slot_free ?t ! slot_of ?t j = 0" if "used ?t j" for j
    using that inv u e sl fr by (simp add: wal_inv_def)
  moreover have "slot_of ?t j = slot_of ?t k \<Longrightarrow> j = k" if "used ?t j" "used ?t k" for j k
    using that inv u sl unfolding wal_inv_def by metis
  ultimately show "wal_inv ?t" using c unfolding wal_inv_def by blast
qed

lemma drop_superseded_inv: "wal_inv (drop_superseded i s) \<longleftrightarrow> wal_inv (drop_entry i s)"
  by (simp add: drop_superseded_def wal_inv_def wal_sizes_def used_def slot_of_def)

lemma fold_drop:
  "distinct is' \<Longrightarrow> wal_inv s \<Longrightarrow> \<forall>i \<in> set is'. used s i \<Longrightarrow>
   wal_inv (fold drop_superseded is' s)
   \<and> (\<forall>j. used (fold drop_superseded is' s) j \<longleftrightarrow> used s j \<and> j \<notin> set is')
   \<and> (\<forall>j. j \<notin> set is' \<longrightarrow> w_entries (fold drop_superseded is' s) ! j = w_entries s ! j)"
proof (induction is' arbitrary: s)
  case (Cons i is')
  have us: "used s i" using Cons.prems by simp
  note d = drop_entry_spec [OF Cons.prems(2) us]
  have q: "wal_inv (drop_superseded i s)" using d(1) by (simp add: drop_superseded_inv)
  have u: "used (drop_superseded i s) j \<longleftrightarrow> used s j \<and> j \<noteq> i" for j
    using d(2) by (simp add: drop_superseded_def used_def)
  have e: "j \<noteq> i \<Longrightarrow> w_entries (drop_superseded i s) ! j = w_entries s ! j" for j
    using d(3) by (simp add: drop_superseded_def)
  have "distinct is'" "\<forall>j \<in> set is'. used (drop_superseded i s) j" using Cons.prems u by auto
  note ih = Cons.IH [OF this(1) q this(2)]
  show ?case using ih u e by (auto simp: Cons.prems)
qed simp

subsection \<open>The handlers keep the invariant\<close>

lemma wal_inv_kv: "wal_inv (s\<lparr>w_kv := kv\<rparr>) \<longleftrightarrow> wal_inv s"
  by (simp add: wal_inv_def wal_sizes_def used_def slot_of_def)

lemma owned_cong: "slot_free t = slot_free s \<Longrightarrow> w_entries t = w_entries s \<Longrightarrow> owned t = owned s"
  by (simp add: owned_def used_def slot_of_def fun_eq_iff)

lemma append_inv:
  assumes inv: "wal_inv s" and own: "owned s (unat (req_slot (requests s ! req_id)))" and seq: "next_seq s \<noteq> 0"
    and run: "wal_do_append dev s req_id = Inr s'"
  shows "wal_inv s'"
proof (cases "unat (req_len (requests s ! req_id)) < DELTA_HEADER")
  case True
  with run inv show ?thesis by (auto simp: wal_do_append_def Let_def wal_inv_finish)
next
  case False
  with run obtain s1 kv hdr where s': "s' = log_append (s1\<lparr>w_kv := kv\<rparr>) req_id (requests s ! req_id) hdr"
    and s1: "s1 = s \<or> (\<exists>slot pos ys. slot_write s slot pos ys = Inr s1)"
    by (auto simp: wal_do_append_def Let_def split: if_split_asm option.split_asm sum.split_asm) blast
  from s1 have i: "wal_inv s1" "w_entries s1 = w_entries s" "slot_free s1 = slot_free s" "next_seq s1 = next_seq s"
    using inv wal_inv_write [OF inv] by blast+
  have "owned (s1\<lparr>w_kv := kv\<rparr>) = owned s" by (rule owned_cong) (simp_all add: i)
  with i own seq show ?thesis unfolding s' by (intro log_append_inv) (simp_all add: wal_inv_kv)
qed

lemma pack_inv: "pack_deltas s rslot ids pos = Inr (n, t) \<Longrightarrow> wal_inv s \<Longrightarrow> wal_inv t"
proof (induction ids arbitrary: s pos)
  case (Cons i ids)
  then show ?case
    by (auto simp: Let_def split: if_split_asm sum.split_asm dest: wal_inv_write)
qed simp

lemma read_inv:
  assumes inv: "wal_inv s" and run: "wal_do_read s req_id = Inr s'"
  shows "wal_inv s'"
proof (cases "wal_matches s (req_key_hash (requests s ! req_id)) = [] \<or> wal_alloc_slot s = None")
  case True
  with run inv show ?thesis by (auto simp: wal_do_read_def Let_def wal_inv_finish split: if_split_asm)
next
  case False
  then obtain r s1 where a: "wal_alloc_slot s = Some (r, s1)" by auto
  with run False obtain n s2 resp where "pack_deltas s1 r (map snd (wal_sort (wal_matches s (req_key_hash (requests s ! req_id))))) 0 = Inr (n, s2)"
    "s' = wal_finish req_id resp s2"
    by (auto simp: wal_do_read_def Let_def split: sum.split_asm)
  with pack_inv [OF this(1)] wal_inv_alloc [OF inv a] show ?thesis by (simp add: wal_inv_finish)
qed

lemma kv_get_inv:
  assumes inv: "wal_inv s" and run: "wal_do_kv_get s req_id = Inr s'"
  shows "wal_inv s'"
proof (cases "wal_alloc_slot s")
  case None
  with run inv show ?thesis by (auto simp: wal_do_kv_get_def wal_inv_finish)
next
  case (Some a)
  then obtain r s1 where a: "wal_alloc_slot s = Some (r, s1)" by (cases a) auto
  note i = wal_inv_alloc [OF inv a]
  have "wal_inv (free_slot r s1)" by (rule wal_inv_free) (use i in \<open>auto simp: owned_def\<close>)
  with run a i wal_inv_write [of s1 r 0] show ?thesis
    by (auto simp: wal_do_kv_get_def wal_inv_finish split: read_result.split_asm option.split_asm sum.split_asm)
qed

lemma kv_put_inv:
  assumes inv: "wal_inv s" and own: "owned s (unat (req_slot (requests s ! req_id)))"
    and run: "wal_do_kv_put dev s req_id = Inr s'"
  shows "wal_inv s'"
proof -
  let ?req = "requests s ! req_id"
  obtain ok kv where p: "(if KV_MAX_VALUE < unat (req_len ?req) then (False, w_kv s)
      else kv_put dev (w_kv s) (req_key_hash ?req) (take (unat (req_len ?req)) (w_data s ! unat (req_slot ?req)))) = (ok, kv)"
    by (metis prod.exhaust)
  from run [unfolded wal_do_kv_put_def Let_def p prod.case] obtain resp where
    s': "s' = wal_finish req_id resp (free_slot (unat (req_slot ?req)) (s\<lparr>w_kv := kv\<rparr>))"
    by (auto split: if_split_asm)
  have "owned (s\<lparr>w_kv := kv\<rparr>) = owned s" by (rule owned_cong) simp_all
  with own have "owned (s\<lparr>w_kv := kv\<rparr>) (unat (req_slot ?req))" by simp
  then have "wal_inv (free_slot (unat (req_slot ?req)) (s\<lparr>w_kv := kv\<rparr>))"
    using inv by (intro wal_inv_free) (auto simp: wal_inv_kv owned_def)
  then show ?thesis by (simp add: s' wal_inv_finish)
qed

lemma wal_inv_counters:
  "wal_inv (count_append s) \<longleftrightarrow> wal_inv s" "wal_inv (count_read s) \<longleftrightarrow> wal_inv s" "wal_inv (s\<lparr>req_total := n\<rparr>) \<longleftrightarrow> wal_inv s"
  "wal_inv (s\<lparr>compact_cursor := c\<rparr>) \<longleftrightarrow> wal_inv s"
  by (simp_all add: wal_inv_def wal_sizes_def used_def slot_of_def count_append_def count_read_def)

subsection \<open>Compaction\<close>

lemma used_live: "wal_inv s \<Longrightarrow> i < WAL_MAX_ENTRIES \<Longrightarrow> we_live (w_entries s ! i) \<longleftrightarrow> used s i"
  by (auto simp: wal_inv_def used_def we_live_def)

lemma same_key_used: "wal_inv s \<Longrightarrow> i \<in> set (same_key s k) \<longleftrightarrow> used s i \<and> we_key_hash (w_entries s ! i) = k"
  using used_live [of s i] by (auto simp: same_key_def used_def)

lemma find_anchor_Some: "find_anchor s = Some a \<Longrightarrow> a < WAL_MAX_ENTRIES \<and> we_live (w_entries s ! a)"
  by (auto simp: find_anchor_def find_Some_iff WAL_MAX_ENTRIES_def)

lemma latest_fold:
  fixes q :: u32
  assumes "fold (\<lambda>i (latest_idx, latest_seq).
     if latest_seq < we_seq (w_entries s ! i) then (i, we_seq (w_entries s ! i)) else (latest_idx, latest_seq)) ids (a, q) = (b, r)"
  shows "q \<le> r \<and> (\<forall>j \<in> set ids. we_seq (w_entries s ! j) \<le> r) \<and> ((b, r) = (a, q) \<or> b \<in> set ids \<and> r = we_seq (w_entries s ! b))"
  using assms
proof (induction ids arbitrary: a q)
  case (Cons i ids)
  show ?case
  proof (cases "q < we_seq (w_entries s ! i)")
    case True
    with Cons.prems Cons.IH [of i "we_seq (w_entries s ! i)"] show ?thesis by auto
  next
    case False
    with Cons.prems Cons.IH [of a q] show ?thesis by (auto simp: not_less)
  qed
qed simp

lemma latest_spec:
  assumes inv: "wal_inv s" and ne: "same_key s k \<noteq> []"
  shows "fst (latest_of s (same_key s k)) \<in> set (same_key s k)
    \<and> (\<forall>j \<in> set (same_key s k). we_seq (w_entries s ! j) \<le> we_seq (w_entries s ! fst (latest_of s (same_key s k))))"
proof -
  obtain b r where f: "latest_of s (same_key s k) = (b, r)" by (cases "latest_of s (same_key s k)")
  note l = latest_fold [OF f [unfolded latest_of_def]]
  obtain j where j: "j \<in> set (same_key s k)" using ne by (cases "same_key s k") auto
  then have "we_seq (w_entries s ! j) \<noteq> 0" using same_key_used [OF inv] by (simp add: used_def)
  moreover have "we_seq (w_entries s ! j) \<le> r" using l j by blast
  ultimately have "r \<noteq> 0" by auto
  with l f show ?thesis by auto
qed

lemma same_key_drop:
  assumes "wal_inv s" "wal_inv t" "\<And>j. used t j \<longleftrightarrow> used s j \<and> j \<notin> D" "\<And>j. used t j \<Longrightarrow> w_entries t ! j = w_entries s ! j"
  shows "same_key t k = filter (\<lambda>j. j \<notin> D) (same_key s k)"
  unfolding same_key_def filter_filter
  by (rule filter_cong) (use assms used_live [OF assms(1)] used_live [OF assms(2)] in auto)

lemma filter_single: "distinct xs \<Longrightarrow> n \<in> set xs \<Longrightarrow> filter (\<lambda>j. j = n) xs = [n]"
  by (induction xs) (auto simp: filter_empty_conv)

lemma compact_cases:
  assumes inv: "wal_inv s"
  obtains (idle) c where "wal_compact_step s = s\<lparr>compact_cursor := c\<rparr>"
  | (drop) k n D where "n \<in> set (same_key s k)" "\<forall>j \<in> set (same_key s k). we_seq (w_entries s ! j) \<le> we_seq (w_entries s ! n)"
      "D = (if we_flags (w_entries s ! n) AND WAL_ENTRY_TOMBSTONE \<noteq> 0 then set (same_key s k) else set (same_key s k) - {n})"
      "wal_inv (wal_compact_step s)" "\<And>j. used (wal_compact_step s) j \<longleftrightarrow> used s j \<and> j \<notin> D"
      "\<And>j. used (wal_compact_step s) j \<Longrightarrow> w_entries (wal_compact_step s) ! j = w_entries s ! j"
proof (cases "find_anchor s")
  case None
  then have "wal_compact_step s = s\<lparr>compact_cursor := 0\<rparr>" by (simp add: wal_compact_step_def)
  then show thesis by (rule idle)
next
  case (Some a)
  define s1 where "s1 = s\<lparr>compact_cursor := (a + 1) mod WAL_MAX_ENTRIES\<rparr>"
  define k where "k = we_key_hash (w_entries s ! a)"
  define n where "n = fst (latest_of s (same_key s k))"
  define s2 where "s2 = fold drop_superseded (filter (\<lambda>i. i \<noteq> n) (same_key s k)) s1"
  have sk: "same_key s1 = same_key s" and ls: "latest_of s1 = latest_of s" and en: "w_entries s1 = w_entries s" and us: "used s1 = used s"
    by (simp_all add: s1_def same_key_def latest_of_def used_def fun_eq_iff cong: if_cong)
  have i1: "wal_inv s1" using inv by (simp add: s1_def wal_inv_def wal_sizes_def used_def slot_of_def)
  have r: "wal_compact_step s = (if length (same_key s k) \<le> 1 then s1
      else if we_flags (w_entries s2 ! n) AND WAL_ENTRY_TOMBSTONE \<noteq> 0 then drop_entry n s2 else s2)"
    unfolding wal_compact_step_def Some option.case Let_def s1_def [symmetric] sk ls en k_def [symmetric] n_def [symmetric] s2_def [symmetric]
    by (rule refl)
  show thesis
  proof (cases "length (same_key s k) \<le> 1")
    case True
    with r show thesis by (intro idle) (simp add: s1_def)
  next
    case False
    then have ne: "same_key s k \<noteq> []" by auto
    note l = latest_spec [OF inv ne, folded n_def]
    have n: "used s n" using l same_key_used [OF inv] by blast
    have "distinct (filter (\<lambda>i. i \<noteq> n) (same_key s k))" by (simp add: same_key_def)
    moreover have "\<forall>i \<in> set (filter (\<lambda>i. i \<noteq> n) (same_key s k)). used s1 i" using same_key_used [OF inv] us by auto
    ultimately have f: "wal_inv s2" "used s2 j \<longleftrightarrow> used s j \<and> \<not> (j \<in> set (same_key s k) \<and> j \<noteq> n)"
      "\<not> (j \<in> set (same_key s k) \<and> j \<noteq> n) \<Longrightarrow> w_entries s2 ! j = w_entries s ! j" for j
      using fold_drop [OF _ i1] us en by (auto simp: s2_def)
    have n2: "used s2 n" "w_entries s2 ! n = w_entries s ! n" using f(2,3) [of n] n by auto
    note d = drop_entry_spec [OF f(1) n2(1)]
    show thesis
    proof (cases "we_flags (w_entries s ! n) AND WAL_ENTRY_TOMBSTONE \<noteq> 0")
      case True
      with r False n2 have e: "wal_compact_step s = drop_entry n s2" by simp
      show thesis by (rule drop [OF conjunct1 [OF l] conjunct2 [OF l] refl]) (use True d f l n in \<open>auto simp: e\<close>)
    next
      case t: False
      with r False n2 have e: "wal_compact_step s = s2" by simp
      show thesis by (rule drop [OF conjunct1 [OF l] conjunct2 [OF l] refl]) (use t f in \<open>auto simp: e\<close>)
    qed
  qed
qed

subsection \<open>Reading\<close>

lemma shift_insert_snoc:
  "shift_insert [] x = [x]"
  "shift_insert (ms @ [m]) x = (if fst x < fst m then shift_insert ms x @ [m] else ms @ [m, x])"
  by (simp_all add: shift_insert.simps)

lemma shift_insert_spec:
  "sorted (map fst ms) \<Longrightarrow> sorted (map fst (shift_insert ms x)) \<and> mset (shift_insert ms x) = add_mset x (mset ms)
    \<and> set (shift_insert ms x) = insert x (set ms)"
proof (induction ms rule: rev_induct)
  case Nil
  show ?case by (simp add: shift_insert_snoc)
next
  case (snoc m ms)
  then have "\<forall>a \<in> set ms. fst a \<le> fst m" by (auto simp: sorted_append)
  with snoc show ?case by (auto simp: shift_insert_snoc sorted_append not_less intro: order_trans)
qed

lemma wal_sort_spec: "sorted (map fst (wal_sort ms)) \<and> mset (wal_sort ms) = mset ms"
proof (induction ms rule: rev_induct)
  case (snoc m ms)
  with shift_insert_spec [of "wal_sort ms" m] show ?case by (simp add: wal_sort_def)
qed (simp add: wal_sort_def)

text \<open>The bytes of one delta in the log.\<close>

definition delta_bytes :: "wal_state \<Rightarrow> nat \<Rightarrow> byte list" where
  "delta_bytes s i = take (unat (we_len (w_entries s ! i))) (w_data s ! slot_of s i)"

lemma pack_spec:
  "wal_sizes s \<Longrightarrow> r < SLOT_COUNT \<Longrightarrow> \<forall>i \<in> set ids. slot_of s i < SLOT_COUNT \<and> slot_of s i \<noteq> r \<Longrightarrow>
   pos + sum_list (map (\<lambda>i. unat (we_len (w_entries s ! i))) ids) \<le> SLOT_SIZE \<Longrightarrow>
   \<exists>t. pack_deltas s r ids pos = Inr (pos + sum_list (map (\<lambda>i. unat (we_len (w_entries s ! i))) ids), t)
     \<and> take (pos + sum_list (map (\<lambda>i. unat (we_len (w_entries s ! i))) ids)) (w_data t ! r)
       = take pos (w_data s ! r) @ concat (map (delta_bytes s) ids)"
proof (induction ids arbitrary: s pos)
  case (Cons i ids)
  let ?n = "unat (we_len (w_entries s ! i))" and ?sum = "sum_list (map (\<lambda>i. unat (we_len (w_entries s ! i))) ids)"
  let ?ys = "delta_bytes s i"
  define t where "t = s\<lparr>w_data := (w_data s)[r := blit (w_data s ! r) pos ?ys]\<rparr>"
  have sz: "length (w_data s) = SLOT_COUNT" "\<And>j. j < SLOT_COUNT \<Longrightarrow> length (w_data s ! j) = SLOT_SIZE"
    using Cons.prems(1) by (auto simp: wal_sizes_def list_all_length)
  have ly: "length ?ys = ?n" using Cons.prems sz by (simp add: delta_bytes_def)
  have pn: "pos + ?n \<le> SLOT_SIZE" using Cons.prems by simp
  have w: "slot_write s r pos ?ys = Inr t" using Cons.prems ly by (simp add: slot_write_def t_def)
  have c: "cast16 (pos + ?n) = pos + ?n" using pn by (simp add: SLOT_SIZE_def)
  have p: "pack_deltas s r (i # ids) pos = pack_deltas t r ids (pos + ?n)"
    using Cons.prems w c by (simp add: Let_def delta_bytes_def slot_of_def)
  have st: "slot_of t = slot_of s" "w_entries t = w_entries s" by (simp_all add: t_def slot_of_def fun_eq_iff)
  have dt: "w_data t ! j = w_data s ! j" if "j \<noteq> r" for j using that by (simp add: t_def)
  have db: "delta_bytes t j = delta_bytes s j" if "j \<in> set ids" for j
    using Cons.prems(3) that dt by (simp add: delta_bytes_def st)
  have "length (blit (w_data s ! r) pos ?ys) = SLOT_SIZE" using ly pn sz(2) [OF Cons.prems(2)] by (simp add: blit_def)
  then have "wal_sizes t" using Cons.prems(1,2) by (auto simp: t_def wal_sizes_def list_all_length nth_list_update)
  then obtain t' where t': "pack_deltas t r ids (pos + ?n) = Inr (pos + ?n + ?sum, t')"
    "take (pos + ?n + ?sum) (w_data t' ! r) = take (pos + ?n) (w_data t ! r) @ concat (map (delta_bytes t) ids)"
    using Cons.IH [of t "pos + ?n"] Cons.prems by (auto simp: st)
  have "take (pos + ?n) (w_data t ! r) = take pos (w_data s ! r) @ ?ys"
    using take_blit [of pos ?ys "w_data s ! r"] ly pn sz Cons.prems(2) by (simp add: t_def)
  with t' p db show ?case by (simp add: add.assoc cong: map_cong)
qed simp

subsection \<open>A log with two deltas of one key\<close>

definition wal_two :: wal_state where
  "wal_two = (wal_boot kv_boot (\<lambda>_. True))\<lparr>
     w_entries := [\<lparr>we_seq = 2, we_key_hash = 0, we_slot = 0, we_len = 8, we_flags = 1\<rparr>,
        \<lparr>we_seq = 1, we_key_hash = 0, we_slot = 1, we_len = 8, we_flags = 1\<rparr>]
        @ replicate 30 \<lparr>we_seq = 0, we_key_hash = 0, we_slot = 0, we_len = 0, we_flags = 0\<rparr>,
     slot_free := [0, 0] @ replicate 30 1, entry_count := 2, next_seq := 3\<rparr>"

lemma wal_two_entries:
  "w_entries wal_two ! 0 = \<lparr>we_seq = 2, we_key_hash = 0, we_slot = 0, we_len = 8, we_flags = 1\<rparr>"
  "w_entries wal_two ! Suc 0 = \<lparr>we_seq = 1, we_key_hash = 0, we_slot = 1, we_len = 8, we_flags = 1\<rparr>"
  "1 < i \<Longrightarrow> i < WAL_MAX_ENTRIES \<Longrightarrow> we_seq (w_entries wal_two ! i) = 0"
  by (auto simp: wal_two_def WAL_MAX_ENTRIES_def nth_append nth_Cons' )

lemma wal_two_used: "used wal_two i \<longleftrightarrow> i = 0 \<or> i = 1"
proof -
  have "i = 0 \<or> i = 1 \<or> 1 < i" by linarith
  then show ?thesis using wal_two_entries by (auto simp: used_def WAL_MAX_ENTRIES_def)
qed

lemma wal_two_inv: "wal_inv wal_two"
proof -
  have "{i. used wal_two i} = {0, 1}" using wal_two_used by auto
  then have "card {i. used wal_two i} = 2" by simp
  moreover have "wal_sizes wal_two"
    by (simp add: wal_two_def wal_boot_def wal_sizes_def list_all_iff SLOT_COUNT_def SLOT_SIZE_def WAL_MAX_ENTRIES_def REQ_RING_SIZE_def)
  moreover have "slot_free wal_two ! 0 = 0" "slot_free wal_two ! Suc 0 = 0" "entry_count wal_two = 2" by (simp_all add: wal_two_def)
  ultimately show ?thesis unfolding wal_inv_def wal_two_used slot_of_def
    by (auto simp: wal_two_entries we_live_def WAL_ENTRY_ACTIVE_def WAL_ENTRY_COMPACTED_def SLOT_COUNT_def)
qed

lemma upt_32: "[0..<32] = 0 # 1 # [2..<32]"
  by (simp add: upt_conv_Cons numeral_2_eq_2)

lemma wal_two_rest: "filter (\<lambda>i. we_live (w_entries wal_two ! i) \<and> P i) [2..<32] = []"
  using wal_two_entries(3) by (auto simp: filter_empty_conv we_live_def WAL_MAX_ENTRIES_def)

lemma wal_two_matches: "wal_matches wal_two 0 = [(2, 0), (1, 1)]" "same_key wal_two 0 = [0, 1]"
  by (simp_all add: wal_matches_def same_key_def WAL_MAX_ENTRIES_def upt_32 wal_two_entries wal_two_rest we_live_def
      WAL_ENTRY_ACTIVE_def WAL_ENTRY_COMPACTED_def)

lemma wal_two_alloc: "\<exists>t. wal_alloc_slot wal_two = Some (2, t)"
proof -
  have z: "slot_free wal_two ! j = 0" if "j < 2" for j
    using that by (auto simp: less_2_cases_iff wal_two_def)
  have "slot_free wal_two ! Suc (Suc 0) \<noteq> 0" by (simp add: wal_two_def)
  with z have "find (\<lambda>i. slot_free wal_two ! i \<noteq> 0) [0..<SLOT_COUNT] = Some 2"
    unfolding find_Some_iff by (intro exI [of _ 2]) (simp add: SLOT_COUNT_def)
  then show ?thesis by (simp add: wal_alloc_slot_def)
qed

subsection \<open>Properties\<close>



text \<open>
  C20: the log and the slots stay consistent. Every used log entry is live, owns its slot alone, its slot is
  not free, and \<open>entry_count\<close> is the number of used entries: every handler keeps this (for an append or a
  put when Core 0 owns the slot of its request and the sequence numbers have not wrapped), and
  so does every compaction step.
\<close>

theorem wal_log_consistent:
  assumes "wal_inv s" "wal_dispatch dev s req_id = Inr s'"
    and "req_op (requests s ! req_id) \<in> {WAL_OP_APPEND, WAL_OP_KV_PUT} \<longrightarrow>
      owned s (unat (req_slot (requests s ! req_id))) \<and> next_seq s \<noteq> 0"
  shows "wal_inv s' \<and> wal_inv (wal_compact_step s)"
proof (intro conjI)
  show "wal_inv s'"
    using assms(2,3) append_inv [OF assms(1), of req_id dev] read_inv [OF assms(1), of req_id] kv_get_inv [OF assms(1), of req_id]
      kv_put_inv [OF assms(1), of req_id dev] wal_inv_finish [OF assms(1), of req_id]
    unfolding wal_dispatch_def Let_def by (auto simp: map_sum_Inr wal_inv_counters split: if_split_asm)
  show "wal_inv (wal_compact_step s)"
    by (cases rule: compact_cases [OF assms(1)]) (simp_all add: wal_inv_counters assms(1))
qed

theorem wal_log_consistent_witness: "wal_inv (wal_compact_step wal_two)"
proof -
  have op: "req_op (requests wal_two ! 3) = 0" by (simp add: wal_two_def wal_boot_def REQ_RING_SIZE_def)
  obtain s' where "wal_dispatch nor_dev wal_two 3 = Inr s'"
    by (simp add: op wal_dispatch_def Let_def WAL_OP_APPEND_def WAL_OP_READ_def WAL_OP_KV_GET_def WAL_OP_KV_PUT_def)
  from wal_log_consistent [OF wal_two_inv this] op show ?thesis by (simp add: WAL_OP_APPEND_def WAL_OP_KV_PUT_def)
qed

text \<open>
  C21: compaction keeps what matters. After a compaction step every key has the same live deltas as before, or only the
  newest of them, or, when the newest is a deletion, none; the surviving entries are unchanged.
\<close>

theorem wal_compact_keeps_newest:
  assumes "wal_inv s"
  shows "(\<forall>i. used (wal_compact_step s) i \<longrightarrow> w_entries (wal_compact_step s) ! i = w_entries s ! i)
    \<and> (same_key (wal_compact_step s) key = same_key s key
      \<or> (\<exists>n \<in> set (same_key s key). (\<forall>j \<in> set (same_key s key). we_seq (w_entries s ! j) \<le> we_seq (w_entries s ! n))
          \<and> same_key (wal_compact_step s) key = (if we_flags (w_entries s ! n) AND WAL_ENTRY_TOMBSTONE \<noteq> 0 then [] else [n])))"
  using assms
proof (cases rule: compact_cases)
  case (idle c)
  then show ?thesis by (simp add: same_key_def used_def)
next
  case (drop k n D)
  have sk: "same_key (wal_compact_step s) key = filter (\<lambda>j. j \<notin> D) (same_key s key)"
    by (rule same_key_drop [OF assms drop(4-6)])
  show ?thesis
  proof (cases "key = k")
    case True
    have "distinct (same_key s key)" by (simp add: same_key_def)
    then have "filter (\<lambda>j. j = n) (same_key s key) = [n]" using drop(1) True by (intro filter_single) simp_all
    with sk drop True show ?thesis by (auto intro!: bexI [of _ n] simp: filter_empty_conv cong: filter_cong)
  next
    case False
    have "j \<notin> D" if "j \<in> set (same_key s key)" for j
      using that False drop(3) by (auto simp: same_key_def split: if_split_asm)
    with sk drop(6) show ?thesis by (simp cong: filter_cong)
  qed
qed

theorem wal_compact_keeps_newest_witness: "same_key (wal_compact_step wal_two) 0 \<in> {[0, 1], [0]}"
  using wal_compact_keeps_newest [OF wal_two_inv, of 0] by (auto simp: wal_two_matches wal_two_entries WAL_ENTRY_TOMBSTONE_def word_le_nat_alt)

text \<open>
  Reading a key's deltas. When a slot is free and the live deltas of the key fit into it together, a read answers
  with exactly these deltas, in ascending order of their sequence numbers, one after the other in the result
  slot, with their number and the newest sequence number.
\<close>

theorem wal_read_ordered:
  assumes "wal_inv s" "req_id < REQ_RING_SIZE" "wal_matches s (req_key_hash (requests s ! req_id)) = m # ms"
    and "wal_alloc_slot s = Some (r, s1)"
    and "sum_list (map (\<lambda>x. unat (we_len (w_entries s ! snd x))) (wal_sort (m # ms))) \<le> SLOT_SIZE"
  shows "\<exists>s'. wal_do_read s req_id = Inr s' \<and> resp_status (responses s' ! req_id) = WAL_RESP_OK
    \<and> resp_seq (responses s' ! req_id) = fst (last (wal_sort (m # ms)))
    \<and> take (unat (resp_result_len (responses s' ! req_id))) (w_data s' ! unat (resp_result_slot (responses s' ! req_id)))
      = concat (map (\<lambda>x. delta_bytes s (snd x)) (wal_sort (m # ms)))
    \<and> sorted (map fst (wal_sort (m # ms))) \<and> mset (wal_sort (m # ms)) = mset (m # ms)"
proof -
  let ?ms = "wal_sort (m # ms)"
  note a = wal_inv_alloc [OF assms(1,4)]
  have mem: "set ?ms = set (m # ms)" using wal_sort_spec [of "m # ms"] mset_eq_setD by blast
  have "used s (snd x)" if "x \<in> set ?ms" for x
    using that mem assms(1,3) used_live [OF assms(1)] by (force simp: wal_matches_def simp flip: assms(3))
  moreover have us: "used s1 = used s" "slot_of s1 = slot_of s" using a by (simp_all add: used_def slot_of_def fun_eq_iff)
  ultimately have sl: "\<forall>i \<in> set (map snd ?ms). slot_of s1 i < SLOT_COUNT \<and> slot_of s1 i \<noteq> r"
    using a assms(1) us by (fastforce simp: wal_inv_def owned_def)
  have sz: "wal_sizes s1" using a by (simp add: wal_inv_def)
  have sum: "0 + sum_list (map (\<lambda>i. unat (we_len (w_entries s1 ! i))) (map snd ?ms)) \<le> SLOT_SIZE"
    using assms(5) a by (simp add: comp_def)
  from pack_spec [OF sz _ sl sum] a obtain t n where t: "pack_deltas s1 r (map snd ?ms) 0 = Inr (n, t)" "n \<le> SLOT_SIZE"
    "take n (w_data t ! r) = concat (map (delta_bytes s1) (map snd ?ms))" using sum by auto
  have db: "delta_bytes s1 = delta_bytes s" using a by (simp add: delta_bytes_def slot_of_def fun_eq_iff)
  have rt: "unat (word_of_nat r :: byte) = r" using a by (simp add: unat_of_nat SLOT_COUNT_def)
  have nt: "unat (word_of_nat n :: u16) = n" using t(2) by (simp add: unat_of_nat SLOT_SIZE_def)
  have lr: "length (responses t) = REQ_RING_SIZE"
    using pack_inv [OF t(1) conjunct1 [OF a]] unfolding wal_inv_def wal_sizes_def by blast
  define resp where "resp = \<lparr>resp_status = WAL_RESP_OK, resp_result_slot = word_of_nat r, resp_result_len = word_of_nat n,
    resp_seq = fst (last ?ms), resp_delta_count = word_of_nat (length ?ms)\<rparr>"
  have run: "wal_do_read s req_id = Inr (wal_finish req_id resp t)"
    by (simp add: wal_do_read_def assms(3,4) Let_def t(1) resp_def)
  have fin: "responses (wal_finish req_id resp t) ! req_id = resp" "w_data (wal_finish req_id resp t) = w_data t"
    using assms(2) lr by (simp_all add: wal_finish_def fifo_push_timeout_def Let_def)
  have rs: "resp_status resp = WAL_RESP_OK" "resp_seq resp = fst (last ?ms)" "unat (resp_result_len resp) = n"
    "unat (resp_result_slot resp) = r" by (simp_all only: resp_def wal_response_t.simps rt nt)
  have "concat (map (delta_bytes s1) (map snd ?ms)) = concat (map (\<lambda>x. delta_bytes s (snd x)) ?ms)"
    by (simp add: db comp_def)
  with t(3) have "take n (w_data t ! r) = concat (map (\<lambda>x. delta_bytes s (snd x)) ?ms)" by (simp only:)
  with run wal_sort_spec [of "m # ms"] show ?thesis
    by (intro exI [of _ "wal_finish req_id resp t"] conjI) (simp_all add: fin rs)
qed

theorem wal_read_ordered_witness:
  "\<exists>s'. wal_do_read wal_two 0 = Inr s' \<and> resp_seq (responses s' ! 0) = 2"
proof -
  obtain t where al: "wal_alloc_slot wal_two = Some (2, t)" using wal_two_alloc by blast
  have so: "wal_sort [(2, 0), (1, Suc 0)] = [(1 :: u32, Suc 0), (2, 0)]"
    by (simp add: wal_sort_def shift_insert.simps)
  have "req_key_hash (requests wal_two ! 0) = 0" by (simp add: wal_two_def wal_boot_def REQ_RING_SIZE_def)
  then have "wal_matches wal_two (req_key_hash (requests wal_two ! 0)) = [(2, 0), (1, 1)]" by (simp add: wal_two_matches)
  from wal_read_ordered [OF wal_two_inv _ this al] show ?thesis
    by (auto simp: so wal_two_entries REQ_RING_SIZE_def SLOT_SIZE_def)
qed

text \<open>A log whose live deltas all have different keys is never shortened, whatever it holds.\<close>

lemma wal_compact_idle:
  assumes "\<And>key. length (same_key s key) \<le> 1"
  shows "w_entries (wal_compact_step s) = w_entries s \<and> slot_free (wal_compact_step s) = slot_free s"
  using assms by (simp add: wal_compact_step_def Let_def same_key_def split: option.split)

end
