(* ===== verification/SdStore.thy ===== *)
theory SdStore
  imports KvFlash
begin

text \<open>
  The lower half of the SD card store \<open>src/kv_sd.c\<close>: the card, the superblock and the bitmap, the cache
  lines that the block cache and the bucket cache share, the sorted SRAM index (tier 1) and the
  flash index (tier 2).

  The driver of the card (\<open>drivers/sd\<close>) is a block array with an oracle: \<open>sd_ok n\<close> says whether the
  \<open>n\<close>-th transfer succeeds. Pairs of parallel arrays are lists of pairs. Addresses and slots keep
  their 32 bits; the results that the code compares with 0 as \<open>int32_t\<close> are \<open>int\<close>.
\<close>

unbundle bit_operations_syntax

subsection \<open>State\<close>

definition KVSD_MAX_PAYLOAD :: nat where "KVSD_MAX_PAYLOAD = 508"
definition KVSD_MAGIC_LO :: byte where "KVSD_MAGIC_LO = 0x7D"
definition KVSD_MAGIC_HI :: byte where "KVSD_MAGIC_HI = 0xCA"
definition KVSD_SB_VERSION :: u32 where "KVSD_SB_VERSION = 1"
definition PACKED_BLK_HDR :: nat where "PACKED_BLK_HDR = 8"
definition PACKED_ENTRY_HDR :: nat where "PACKED_ENTRY_HDR = 8"
definition PACKED_DATA_MAX :: nat where "PACKED_DATA_MAX = 504"
definition KVSD_OTA_BLOCKS :: u32 where "KVSD_OTA_BLOCKS = 1200"
definition SDRING_GUARD_BLOCKS :: u32 where "SDRING_GUARD_BLOCKS = 256"
definition HT_BUCKET_HDR_SIZE :: nat where "HT_BUCKET_HDR_SIZE = 8"
definition HT_ENTRIES_PER_BKT :: nat where "HT_ENTRIES_PER_BKT = 63"
definition HT_MAGIC_CRC_SEED :: u16 where "HT_MAGIC_CRC_SEED = 0xA5B6"
definition KVSD_INDEX_MAX :: nat where "KVSD_INDEX_MAX = 512"
definition FIDX_SECTOR_SIZE :: nat where "FIDX_SECTOR_SIZE = 4096"
definition FIDX_SECTORS :: nat where "FIDX_SECTORS = 64"
definition FIDX_FLASH_OFFSET :: nat where "FIDX_FLASH_OFFSET = 0x0C0000"
definition FIDX_ENTRY_SIZE :: nat where "FIDX_ENTRY_SIZE = 8"
definition FIDX_MAGIC :: u32 where "FIDX_MAGIC = 0x46494458"
definition FIDX_VERSION :: byte where "FIDX_VERSION = 1"
definition FIDX_ENTRY_OFFSET :: nat where "FIDX_ENTRY_OFFSET = 256"

definition FIDX_MAX_ENTRIES :: nat where
  "FIDX_MAX_ENTRIES = (FIDX_SECTORS * FIDX_SECTOR_SIZE - FIDX_ENTRY_OFFSET) div FIDX_ENTRY_SIZE"

definition DATA_CACHE_SLOTS :: nat where "DATA_CACHE_SLOTS = 4"
definition HT_CACHE_SLOTS :: nat where "HT_CACHE_SLOTS = 16"

definition SD_MAGIC :: "byte list" where
  "SD_MAGIC = [0x31, 0x41, 0x59, 0x26, 0x50, 0x69, 0x63, 0x6F]"

record kvsd_superblock_t =
  sb_magic :: "byte list"
  sb_version :: u32
  sb_total_cards :: u32
  sb_index_start :: u32
  sb_index_blocks :: u32
  sb_bitmap_start :: u32
  sb_bitmap_blocks :: u32
  sb_hashtab_start :: u32
  sb_hashtab_blocks :: u32
  sb_reserved_start :: u32
  sb_reserved_blocks :: u32
  sb_data_start :: u32
  sb_data_blocks :: u32
  sb_max_cards :: u32
  sb_next_free_hint :: u32
  sb_dirty :: u32
  sb_open_block :: u32
  sb_open_used :: u16
  sb_open_count :: byte
  sb_pad2 :: byte
  sb_ota_start :: u32
  sb_ota_blocks :: u32

record cache_line =
  cl_num :: u32
  cl_data :: "byte list"
  cl_age :: byte
  cl_valid :: bool

record sd_state =
  sd_blocks :: "u32 \<Rightarrow> byte list"
  sd_ok :: "nat \<Rightarrow> bool"
  sd_ops :: nat
  sd_info :: "(u32 \<times> u32) option"
  sd_flash :: flash
  g_fidx_sequence :: u32
  g_fidx_count :: u32
  g_sb :: kvsd_superblock_t
  g_sram :: "(u32 \<times> u32) list"
  g_ready :: bool
  g_open_blk :: "byte list"
  g_open_cached :: bool
  g_data_cache :: "cache_line list"
  g_ht_cache :: "cache_line list"

subsection \<open>The card\<close>

definition sd_read_block :: "sd_state \<Rightarrow> u32 \<Rightarrow> byte list option \<times> sd_state" where
  "sd_read_block s blk =
     (if sd_ok s (sd_ops s) then Some (sd_blocks s blk) else None, s\<lparr>sd_ops := sd_ops s + 1\<rparr>)"

definition sd_write_block :: "sd_state \<Rightarrow> u32 \<Rightarrow> byte list \<Rightarrow> bool \<times> sd_state" where
  "sd_write_block s blk buf =
     (let s1 = s\<lparr>sd_ops := sd_ops s + 1\<rparr> in
      if sd_ok s (sd_ops s) then (True, s1\<lparr>sd_blocks := (sd_blocks s)(blk := buf)\<rparr>) else (False, s1))"

subsection \<open>The superblock\<close>

definition sb_bytes :: "kvsd_superblock_t \<Rightarrow> byte list" where
  "sb_bytes b = sb_magic b @ concat (map bytes32 [sb_version b, sb_total_cards b, sb_index_start b, sb_index_blocks b,
     sb_bitmap_start b, sb_bitmap_blocks b, sb_hashtab_start b, sb_hashtab_blocks b, sb_reserved_start b, sb_reserved_blocks b,
     sb_data_start b, sb_data_blocks b, sb_max_cards b, sb_next_free_hint b, sb_dirty b, sb_open_block b])
     @ bytes16 (sb_open_used b) @ [sb_open_count b, sb_pad2 b] @ bytes32 (sb_ota_start b) @ bytes32 (sb_ota_blocks b)"

definition sb_of_bytes :: "byte list \<Rightarrow> kvsd_superblock_t" where
  "sb_of_bytes xs =
     \<lparr>sb_magic = take 8 xs, sb_version = rd32 xs 8, sb_total_cards = rd32 xs 12, sb_index_start = rd32 xs 16,
      sb_index_blocks = rd32 xs 20, sb_bitmap_start = rd32 xs 24, sb_bitmap_blocks = rd32 xs 28, sb_hashtab_start = rd32 xs 32,
      sb_hashtab_blocks = rd32 xs 36, sb_reserved_start = rd32 xs 40, sb_reserved_blocks = rd32 xs 44, sb_data_start = rd32 xs 48,
      sb_data_blocks = rd32 xs 52, sb_max_cards = rd32 xs 56, sb_next_free_hint = rd32 xs 60, sb_dirty = rd32 xs 64,
      sb_open_block = rd32 xs 68, sb_open_used = le16 (xs ! 72) (xs ! 73), sb_open_count = xs ! 74, sb_pad2 = xs ! 75,
      sb_ota_start = rd32 xs 76, sb_ota_blocks = rd32 xs 80\<rparr>"

text \<open>A wrong layout is refused after the superblock has been copied.\<close>

definition sb_read :: "sd_state \<Rightarrow> bool \<times> sd_state" where
  "sb_read s =
     (case sd_read_block s 0 of
        (None, s1) \<Rightarrow> (False, s1)
      | (Some buf, s1) \<Rightarrow>
          if take 8 buf \<noteq> SD_MAGIC then (False, s1)
          else
            let b = sb_of_bytes buf; s2 = s1\<lparr>g_sb := b\<rparr> in
            if sb_data_start b = 0 \<or> sb_data_blocks b = 0 then (False, s2)
            else if sb_data_start b < sb_bitmap_start b then (False, s2)
            else if sb_data_start b < sb_hashtab_start b then (False, s2)
            else (True, s2))"

definition sb_write :: "sd_state \<Rightarrow> bool \<times> sd_state" where
  "sb_write s = sd_write_block s 0 (sb_bytes (g_sb s) @ replicate (512 - length (sb_bytes (g_sb s))) 0)"

subsection \<open>The bitmap\<close>

definition bitmap_block :: "sd_state \<Rightarrow> u32 \<Rightarrow> u32" where
  "bitmap_block s slot = sb_bitmap_start (g_sb s) + slot div 4096"

definition byte_off :: "u32 \<Rightarrow> nat" where
  "byte_off slot = unat ((slot mod 4096) div 8)"

definition slot_bit :: "u32 \<Rightarrow> byte" where
  "slot_bit slot = push_bit (unat (slot mod 8)) 1"

definition bitmap_get :: "sd_state \<Rightarrow> u32 \<Rightarrow> bool \<times> sd_state" where
  "bitmap_get s slot =
     (case sd_read_block s (bitmap_block s slot) of
        (None, s1) \<Rightarrow> (False, s1)
      | (Some buf, s1) \<Rightarrow> (buf ! byte_off slot AND slot_bit slot \<noteq> 0, s1))"

definition bitmap_set :: "sd_state \<Rightarrow> u32 \<Rightarrow> bool \<Rightarrow> bool \<times> sd_state" where
  "bitmap_set s slot used =
     (case sd_read_block s (bitmap_block s slot) of
        (None, s1) \<Rightarrow> (False, s1)
      | (Some buf, s1) \<Rightarrow>
          let b = buf ! byte_off slot;
              b' = (if used then b OR slot_bit slot else b AND NOT (slot_bit slot)) in
          sd_write_block s1 (bitmap_block s slot) (buf[byte_off slot := b']))"

subsection \<open>Cache lines\<close>

definition cache_find :: "cache_line list \<Rightarrow> u32 \<Rightarrow> nat option" where
  "cache_find cs num = find (\<lambda>i. cl_valid (cs ! i) \<and> cl_num (cs ! i) = num) [0..<length cs]"

definition cache_touch :: "cache_line list \<Rightarrow> nat \<Rightarrow> cache_line list" where
  "cache_touch cs slot =
     (let old_age = cl_age (cs ! slot);
          older = map (\<lambda>c. if cl_valid c \<and> cl_age c < old_age then c\<lparr>cl_age := cl_age c + 1\<rparr> else c) cs in
      older[slot := (older ! slot)\<lparr>cl_age := 0\<rparr>])"

text \<open>The line to evict: the first invalid one, otherwise the first of the greatest age.\<close>

fun cache_evict :: "cache_line list \<Rightarrow> nat \<Rightarrow> nat \<Rightarrow> byte \<Rightarrow> nat" where
  "cache_evict [] i evict max_age = evict"
| "cache_evict (c # cs) i evict max_age =
     (if \<not> cl_valid c then i
      else if max_age < cl_age c then cache_evict cs (i + 1) i (cl_age c)
      else cache_evict cs (i + 1) evict max_age)"

definition data_cache_read :: "sd_state \<Rightarrow> u32 \<Rightarrow> byte list option \<times> sd_state" where
  "data_cache_read s blk_num =
     (case cache_find (g_data_cache s) blk_num of
        Some i \<Rightarrow> (Some (cl_data (g_data_cache s ! i)), s\<lparr>g_data_cache := cache_touch (g_data_cache s) i\<rparr>)
      | None \<Rightarrow> (None, s))"

definition data_cache_insert :: "sd_state \<Rightarrow> u32 \<Rightarrow> byte list \<Rightarrow> sd_state" where
  "data_cache_insert s blk_num buf =
     (let evict = cache_evict (g_data_cache s) 0 0 0 in
      s\<lparr>g_data_cache := (g_data_cache s)[evict := \<lparr>cl_num = blk_num, cl_data = buf, cl_age = 0, cl_valid = True\<rparr>]\<rparr>)"

definition data_cache_invalidate :: "sd_state \<Rightarrow> u32 \<Rightarrow> sd_state" where
  "data_cache_invalidate s blk_num =
     s\<lparr>g_data_cache := map (\<lambda>c. if cl_valid c \<and> cl_num c = blk_num then c\<lparr>cl_valid := False\<rparr> else c) (g_data_cache s)\<rparr>"

subsection \<open>Binary search\<close>

text \<open>The loop of \<open>index_find\<close> and \<open>fidx_find\<close> over an array of keys.\<close>

function key_search :: "(nat \<Rightarrow> u32) \<Rightarrow> u32 \<Rightarrow> int \<Rightarrow> int \<Rightarrow> int" where
  "key_search f key lo hi =
     (if lo \<le> hi then
        let mid = (lo + hi) div 2 in
        if f (nat mid) = key then mid
        else if f (nat mid) < key then key_search f key (mid + 1) hi
        else key_search f key lo (mid - 1)
      else - (lo + 1))"
  by pat_completeness auto
termination
  by (relation "measure (\<lambda>(f, key, lo, hi). nat (hi - lo + 1))") auto

declare key_search.simps [simp del]

subsection \<open>The SRAM index\<close>

definition index_find :: "(u32 \<times> u32) list \<Rightarrow> u32 \<Rightarrow> int" where
  "index_find ix key = key_search (\<lambda>i. fst (ix ! i)) key 0 (int (length ix) - 1)"

definition index_put_at :: "(u32 \<times> u32) list \<Rightarrow> int \<Rightarrow> u32 \<Rightarrow> u32 \<Rightarrow> (u32 \<times> u32) list" where
  "index_put_at ix pos key slot = (let at = nat (- (pos + 1)) in take at ix @ (key, slot) # drop at ix)"

definition index_insert :: "(u32 \<times> u32) list \<Rightarrow> u32 \<Rightarrow> u32 \<Rightarrow> (u32 \<times> u32) list" where
  "index_insert ix key slot =
     (let pos = index_find ix key in
      if 0 \<le> pos then ix[nat pos := (fst (ix ! nat pos), slot)]
      else if KVSD_INDEX_MAX \<le> length ix then
        let ix1 = drop 1 ix; pos1 = index_find ix1 key in
        if 0 \<le> pos1 then ix1[nat pos1 := (fst (ix1 ! nat pos1), slot)] else index_put_at ix1 pos1 key slot
      else index_put_at ix pos key slot)"

definition index_remove :: "(u32 \<times> u32) list \<Rightarrow> u32 \<Rightarrow> bool \<times> (u32 \<times> u32) list" where
  "index_remove ix key =
     (let pos = index_find ix key in
      if pos < 0 then (False, ix) else (True, take (nat pos) ix @ drop (nat pos + 1) ix))"

subsection \<open>The flash index\<close>

text \<open>The table of this file has the same entries as the one of \<open>kv_flash.c\<close>.\<close>

definition crc32_range :: "byte list \<Rightarrow> u32" where
  "crc32_range data = crc32 data"

definition fidx_addr :: "nat \<Rightarrow> nat" where
  "fidx_addr idx = FIDX_FLASH_OFFSET + FIDX_ENTRY_OFFSET + idx * FIDX_ENTRY_SIZE"

definition fidx_xip :: "sd_state \<Rightarrow> nat \<Rightarrow> u32 \<times> u32" where
  "fidx_xip s idx = (ld32 (sd_flash s) (fidx_addr idx), ld32 (sd_flash s) (fidx_addr idx + 4))"

definition fidx_find :: "sd_state \<Rightarrow> u32 \<Rightarrow> int" where
  "fidx_find s key =
     (if g_fidx_count s = 0 then - 1
      else key_search (\<lambda>i. fst (fidx_xip s i)) key 0 (sint (g_fidx_count s) - 1))"

definition fidx_lookup :: "sd_state \<Rightarrow> u32 \<Rightarrow> int" where
  "fidx_lookup s key =
     (let pos = fidx_find s key in if 0 \<le> pos then sint (snd (fidx_xip s (nat pos))) else - 1)"

definition fidx_count_entries :: "sd_state \<Rightarrow> sd_state" where
  "fidx_count_entries s =
     (let f = sd_flash s; b = FIDX_FLASH_OFFSET; s0 = s\<lparr>g_fidx_count := 0\<rparr>;
          entry_count = ld32 f (b + 12) in
      if ld32 f b \<noteq> FIDX_MAGIC then s0
      else if f (b + 4) \<noteq> FIDX_VERSION then s0
      else if FIDX_MAX_ENTRIES < unat entry_count then s0
      else if crc32_range (xip f (fidx_addr 0) (unat entry_count * FIDX_ENTRY_SIZE)) \<noteq> ld32 f (b + 16) then s0
      else s0\<lparr>g_fidx_count := entry_count, g_fidx_sequence := ld32 f (b + 8)\<rparr>)"

definition fidx_entry_bytes :: "u32 \<times> u32 \<Rightarrow> byte list" where
  "fidx_entry_bytes e = bytes32 (fst e) @ bytes32 (snd e)"

text \<open>One page of at most 32 entries from number \<open>i\<close>.\<close>

definition fidx_page :: "(u32 \<times> u32) list \<Rightarrow> nat \<Rightarrow> byte list" where
  "fidx_page es i =
     (let batch = take 32 (drop i es); bs = concat (map fidx_entry_bytes batch) in bs @ replicate (256 - length bs) 0xFF)"

definition fidx_header :: "u32 \<Rightarrow> nat \<Rightarrow> u32 \<Rightarrow> byte list" where
  "fidx_header sequence count crc =
     bytes32 FIDX_MAGIC @ [FIDX_VERSION, 0, 0, 0] @ bytes32 sequence @ bytes32 (word_of_nat count) @ bytes32 crc
     @ replicate 236 0xFF"

definition fidx_erase_all :: "flash_dev \<Rightarrow> flash \<Rightarrow> flash" where
  "fidx_erase_all dev f =
     fold (\<lambda>i f. fd_erase dev f (FIDX_FLASH_OFFSET + i * FIDX_SECTOR_SIZE) FIDX_SECTOR_SIZE) [0..<FIDX_SECTORS] f"

definition fidx_program_all :: "flash_dev \<Rightarrow> (u32 \<times> u32) list \<Rightarrow> flash \<Rightarrow> flash" where
  "fidx_program_all dev es f =
     fold (\<lambda>p f. fd_program dev f (FIDX_FLASH_OFFSET + FIDX_ENTRY_OFFSET + p * 32 * 8) (fidx_page es (p * 32)))
       [0..<(length es + 31) div 32] f"

definition fidx_write_all :: "flash_dev \<Rightarrow> sd_state \<Rightarrow> (u32 \<times> u32) list \<Rightarrow> sd_state" where
  "fidx_write_all dev s entries =
     (let es = take FIDX_MAX_ENTRIES entries; count = length es;
          f = fidx_program_all dev es (fidx_erase_all dev (sd_flash s));
          crc = crc32_range (xip f (fidx_addr 0) (count * FIDX_ENTRY_SIZE));
          sequence = g_fidx_sequence s + 1 in
      s\<lparr>sd_flash := fd_program dev f FIDX_FLASH_OFFSET (fidx_header sequence count crc),
        g_fidx_sequence := sequence, g_fidx_count := word_of_nat count\<rparr>)"

subsection \<open>Lists of pairs with distinct keys\<close>

lemma split_pairs:
  assumes "distinct (map fst ps)" "i < length ps" "fst (ps ! i) = key"
  obtains xs old ys where "ps = xs @ (key, old) # ys" "length xs = i" "key \<notin> fst ` set xs" "key \<notin> fst ` set ys" "ps ! i = (key, old)"
proof
  show e: "ps ! i = (key, snd (ps ! i))" using assms(3) by (metis prod.collapse)
  show "ps = take i ps @ (key, snd (ps ! i)) # drop (Suc i) ps"
    unfolding e [symmetric] using assms(2) by (rule id_take_nth_drop)
  then have "distinct (map fst (take i ps @ (key, snd (ps ! i)) # drop (Suc i) ps))" using assms(1) by simp
  then show "key \<notin> fst ` set (take i ps)" "key \<notin> fst ` set (drop (Suc i) ps)" by auto
qed (use assms in simp)

lemma update_pairs:
  assumes "distinct (map fst ps)" "i < length ps" "fst (ps ! i) = key"
  shows "map fst (ps[i := (key, v)]) = map fst ps" and "map_of (ps[i := (key, v)]) = (map_of ps)(key \<mapsto> v)"
proof -
  obtain xs old ys where ps: "ps = xs @ (key, old) # ys" "length xs = i" "key \<notin> fst ` set xs"
    using split_pairs [OF assms] by metis
  then have upd: "ps[i := (key, v)] = xs @ (key, v) # ys" by (simp add: list_update_append)
  then show "map fst (ps[i := (key, v)]) = map fst ps" using ps(1) by simp
  have "map_of xs key = None" using ps(3) by (simp add: map_of_eq_None_iff)
  then show "map_of (ps[i := (key, v)]) = (map_of ps)(key \<mapsto> v)"
    by (subst upd, subst ps(1)) (auto simp: fun_eq_iff map_add_def split: option.split)
qed

end
