(* ===== verification/SdHash.thy ===== *)
theory SdHash
  imports SdStore
begin

text \<open>
  The hash table of \<open>src/kv_sd.c\<close> on the card (tier 3): buckets of 63 entries with a checksum, two candidate
  buckets for each key, and a cache of 16 buckets.
\<close>

unbundle bit_operations_syntax

subsection \<open>Hashes and checksum\<close>

definition crc16_bit :: "u16 \<Rightarrow> u16" where
  "crc16_bit crc = (if crc AND 0x8000 \<noteq> 0 then push_bit 1 crc XOR 0x1021 else push_bit 1 crc)"

definition ht_crc16 :: "byte list \<Rightarrow> u16" where
  "ht_crc16 data = foldl (\<lambda>crc b. (crc16_bit ^^ 8) (crc XOR push_bit 8 (ucast b))) HT_MAGIC_CRC_SEED data"

definition ht_hash1 :: "u32 \<Rightarrow> u32" where
  "ht_hash1 key =
     (let k1 = key XOR drop_bit 16 key; k2 = k1 * 0x45d9f3b in k2 XOR drop_bit 16 k2)"

definition ht_hash2 :: "u32 \<Rightarrow> u32" where
  "ht_hash2 key =
     (let k1 = key XOR drop_bit 15 key; k2 = k1 * 0x735a2d97 in k2 XOR drop_bit 15 k2)"

subsection \<open>A bucket\<close>

definition ht_count :: "byte list \<Rightarrow> nat" where
  "ht_count buf = rd16 buf 2"

definition ht_set_count :: "byte list \<Rightarrow> nat \<Rightarrow> byte list" where
  "ht_set_count buf n = blit buf 2 (bytes16 (word_of_nat n))"

definition ht_at :: "nat \<Rightarrow> nat" where
  "ht_at i = HT_BUCKET_HDR_SIZE + i * 8"

definition ht_bucket_find :: "byte list \<Rightarrow> u32 \<Rightarrow> nat option" where
  "ht_bucket_find buf key = find (\<lambda>i. rd32 buf (ht_at i) = key) [0..<ht_count buf]"

text \<open>The slot as \<open>int32_t\<close>, or -1.\<close>

definition ht_bucket_get_slot :: "byte list \<Rightarrow> u32 \<Rightarrow> int" where
  "ht_bucket_get_slot buf key =
     (case ht_bucket_find buf key of None \<Rightarrow> - 1 | Some i \<Rightarrow> sint (rd32 buf (ht_at i + 4)))"

definition ht_append_entry :: "byte list \<Rightarrow> u32 \<Rightarrow> u32 \<Rightarrow> byte list" where
  "ht_append_entry buf key slot =
     ht_set_count (blit buf (ht_at (ht_count buf)) (bytes32 key @ bytes32 slot)) (ht_count buf + 1)"

definition ht_set_slot :: "byte list \<Rightarrow> nat \<Rightarrow> u32 \<Rightarrow> byte list" where
  "ht_set_slot buf i slot = blit buf (ht_at i + 4) (bytes32 slot)"

text \<open>The last entry takes the place of the removed one.\<close>

definition ht_remove_entry :: "byte list \<Rightarrow> nat \<Rightarrow> byte list" where
  "ht_remove_entry buf idx =
     (let n = ht_count buf;
          buf1 = (if idx < n - 1 then blit buf (ht_at idx) (segment (ht_at (n - 1)) 8 buf) else buf);
          buf2 = blit buf1 (ht_at (n - 1)) (replicate 8 0) in
      ht_set_count buf2 (n - 1))"

subsection \<open>Reading and writing buckets\<close>

definition ht_cache_store :: "sd_state \<Rightarrow> u32 \<Rightarrow> byte list \<Rightarrow> sd_state" where
  "ht_cache_store s bucket_idx buf =
     (let evict = cache_evict (g_ht_cache s) 0 0 0; c = g_ht_cache s ! evict in
      s\<lparr>g_ht_cache := cache_touch ((g_ht_cache s)[evict := c\<lparr>cl_num := bucket_idx, cl_data := buf, cl_valid := True\<rparr>]) evict\<rparr>)"

definition ht_read_bucket :: "sd_state \<Rightarrow> u32 \<Rightarrow> byte list option \<times> sd_state" where
  "ht_read_bucket s bucket_idx =
     (if sb_hashtab_blocks (g_sb s) \<le> bucket_idx then (None, s)
      else case cache_find (g_ht_cache s) bucket_idx of
             Some i \<Rightarrow> (Some (cl_data (g_ht_cache s ! i)), s\<lparr>g_ht_cache := cache_touch (g_ht_cache s) i\<rparr>)
           | None \<Rightarrow>
               (case sd_read_block s (sb_hashtab_start (g_sb s) + bucket_idx) of
                  (None, s1) \<Rightarrow> (None, s1)
                | (Some buf, s1) \<Rightarrow>
                    if le16 (buf ! 0) (buf ! 1) \<noteq> ht_crc16 (drop 2 buf) \<or> HT_ENTRIES_PER_BKT < ht_count buf
                    then (Some (replicate 512 0), s1)
                    else (Some buf, ht_cache_store s1 bucket_idx buf)))"

definition ht_write_bucket :: "sd_state \<Rightarrow> u32 \<Rightarrow> byte list \<Rightarrow> bool \<times> sd_state" where
  "ht_write_bucket s bucket_idx buf =
     (if sb_hashtab_blocks (g_sb s) \<le> bucket_idx then (False, s)
      else
        let buf' = blit buf 0 (bytes16 (ht_crc16 (drop 2 buf)));
            (ok, s1) = sd_write_block s (sb_hashtab_start (g_sb s) + bucket_idx) buf' in
        if \<not> ok then (False, s1)
        else case cache_find (g_ht_cache s1) bucket_idx of
               Some i \<Rightarrow>
                 (True, s1\<lparr>g_ht_cache := cache_touch ((g_ht_cache s1)[i := (g_ht_cache s1 ! i)\<lparr>cl_data := buf'\<rparr>]) i\<rparr>)
             | None \<Rightarrow> (True, s1))"

subsection \<open>The table\<close>

definition ht_bucket1 :: "sd_state \<Rightarrow> u32 \<Rightarrow> u32" where
  "ht_bucket1 s key = ht_hash1 key mod sb_hashtab_blocks (g_sb s)"

definition ht_bucket2 :: "sd_state \<Rightarrow> u32 \<Rightarrow> u32" where
  "ht_bucket2 s key = ht_hash2 key mod sb_hashtab_blocks (g_sb s)"

definition ht_lookup :: "sd_state \<Rightarrow> u32 \<Rightarrow> int \<times> sd_state" where
  "ht_lookup s key =
     (if sb_hashtab_blocks (g_sb s) = 0 then (- 1, s)
      else
        let b1 = ht_bucket1 s key; b2 = ht_bucket2 s key;
            (r1, s1) = ht_read_bucket s b1;
            slot1 = (case r1 of Some buf \<Rightarrow> ht_bucket_get_slot buf key | None \<Rightarrow> - 1) in
        if 0 \<le> slot1 then (slot1, s1)
        else if b2 = b1 then (- 1, s1)
        else
          let (r2, s2) = ht_read_bucket s1 b2;
              slot2 = (case r2 of Some buf \<Rightarrow> ht_bucket_get_slot buf key | None \<Rightarrow> - 1) in
          if 0 \<le> slot2 then (slot2, s2) else (- 1, s2))"

text \<open>Adding an entry; whether the write succeeds is not looked at.\<close>

definition ht_add :: "sd_state \<Rightarrow> u32 \<Rightarrow> byte list \<Rightarrow> u32 \<Rightarrow> u32 \<Rightarrow> sd_state" where
  "ht_add s b buf key slot = snd (ht_write_bucket s b (ht_append_entry buf key slot))"

text \<open>Step 2 of an update: the old entry goes.\<close>

definition ht_drop_old :: "sd_state \<Rightarrow> u32 \<Rightarrow> u32 \<Rightarrow> sd_state" where
  "ht_drop_old s b key =
     (case ht_read_bucket s b of
        (None, s1) \<Rightarrow> s1
      | (Some buf, s1) \<Rightarrow>
          (case ht_bucket_find buf key of
             None \<Rightarrow> s1
           | Some i \<Rightarrow> snd (ht_write_bucket s1 b (ht_remove_entry buf i))))"

text \<open>
  Step 1: \<open>Inr b\<close> when a new entry was added to bucket \<open>b\<close>, \<open>Inl r\<close> when \<open>ht_insert\<close> returns \<open>r\<close>
  without a step 2. \<open>r1\<close> and \<open>r2\<close> are the two buckets as read.
\<close>

definition ht_place ::
  "sd_state \<Rightarrow> u32 \<Rightarrow> u32 \<Rightarrow> byte list option \<Rightarrow> byte list option \<Rightarrow> u32 \<Rightarrow> u32 \<Rightarrow> (bool + u32) \<times> sd_state" where
  "ht_place s b1 b2 r1 r2 key slot =
     (let find_in = (\<lambda>r. case r of Some buf \<Rightarrow> ht_bucket_find buf key | None \<Rightarrow> None);
          room = (\<lambda>r. case r of Some buf \<Rightarrow> ht_count buf < HT_ENTRIES_PER_BKT | None \<Rightarrow> False) in
      if find_in r1 \<noteq> None \<and> room r2 then (Inr b2, ht_add s b2 (the r2) key slot)
      else if find_in r2 \<noteq> None \<and> room r1 then (Inr b1, ht_add s b1 (the r1) key slot)
      else case find_in r1 of
             Some i \<Rightarrow> (case ht_write_bucket s b1 (ht_set_slot (the r1) i slot) of (ok, s1) \<Rightarrow> (Inl ok, s1))
           | None \<Rightarrow>
               if room r1 then (Inr b1, ht_add s b1 (the r1) key slot)
               else case find_in r2 of
                      Some i \<Rightarrow> (case ht_write_bucket s b2 (ht_set_slot (the r2) i slot) of (ok, s1) \<Rightarrow> (Inl ok, s1))
                    | None \<Rightarrow>
                        if room r2 then (Inr b2, ht_add s b2 (the r2) key slot) else (Inl False, s))"

definition ht_insert :: "sd_state \<Rightarrow> u32 \<Rightarrow> u32 \<Rightarrow> bool \<times> sd_state" where
  "ht_insert s key slot =
     (if sb_hashtab_blocks (g_sb s) = 0 then (False, s)
      else
        let b1 = ht_bucket1 s key; b2 = ht_bucket2 s key;
            (r1, s1) = ht_read_bucket s b1;
            (r2, s2) = (if b2 \<noteq> b1 then ht_read_bucket s1 b2 else (None, s1));
            old1 = (case r1 of Some buf \<Rightarrow> ht_bucket_find buf key | None \<Rightarrow> None);
            old2 = (case r2 of Some buf \<Rightarrow> ht_bucket_find buf key | None \<Rightarrow> None) in
        case ht_place s2 b1 b2 r1 r2 key slot of
          (Inl ok, s3) \<Rightarrow> (ok, s3)
        | (Inr new_bucket, s3) \<Rightarrow>
            let s4 = (if old1 \<noteq> None \<and> new_bucket \<noteq> b1 then ht_drop_old s3 b1 key else s3);
                s5 = (if old2 \<noteq> None \<and> new_bucket \<noteq> b2 then ht_drop_old s4 b2 key else s4) in
            (True, s5))"

text \<open>One round of the loop of \<open>ht_remove\<close>: \<open>None\<close> when it goes on to the next bucket.\<close>

definition ht_remove_from :: "sd_state \<Rightarrow> u32 \<Rightarrow> u32 \<Rightarrow> bool option \<times> sd_state" where
  "ht_remove_from s b key =
     (case ht_read_bucket s b of
        (None, s1) \<Rightarrow> (None, s1)
      | (Some buf, s1) \<Rightarrow>
          (case ht_bucket_find buf key of
             None \<Rightarrow> (None, s1)
           | Some i \<Rightarrow> (case ht_write_bucket s1 b (ht_remove_entry buf i) of (ok, s2) \<Rightarrow> (Some ok, s2))))"

definition ht_remove :: "sd_state \<Rightarrow> u32 \<Rightarrow> bool \<times> sd_state" where
  "ht_remove s key =
     (if sb_hashtab_blocks (g_sb s) = 0 then (False, s)
      else
        let b1 = ht_bucket1 s key; b2 = ht_bucket2 s key in
        case ht_remove_from s b1 key of
          (Some ok, s1) \<Rightarrow> (ok, s1)
        | (None, s1) \<Rightarrow>
            if b2 = b1 then (False, s1)
            else case ht_remove_from s1 b2 key of
                   (Some ok, s2) \<Rightarrow> (ok, s2)
                 | (None, s2) \<Rightarrow> (False, s2))"

end
