(* ===== verification/KvSd.thy ===== *)
theory KvSd
  imports SdHash
begin

text \<open>
  The upper half of the SD card store \<open>src/kv_sd.c\<close>: blocks packed with compressed cards, the open block,
  slot allocation, formatting, and the operations that the rest of the program calls.

  \<open>None\<close> as the result of an operation on blocks is a write outside of a 512-byte block buffer; \<open>Fault\<close>
  of a read is one of the decompressor.
\<close>

unbundle bit_operations_syntax

subsection \<open>Packed blocks\<close>

text \<open>The result of \<open>pc_compress_card\<close>, whose length is 0 when compression fails.\<close>

definition pc_compress_card :: "byte list \<Rightarrow> nat \<Rightarrow> byte list" where
  "pc_compress_card inp out_max =
     (case pc_compress_buffer (Some inp) (length inp) (Some out_max) of Some (Inr out) \<Rightarrow> out | _ \<Rightarrow> [])"

text \<open>\<open>Miss\<close> is the length 0 of a failed or empty decompression.\<close>

definition pc_decompress_card :: "byte list \<Rightarrow> nat \<Rightarrow> byte list read_result" where
  "pc_decompress_card inp out_max =
     (case pc_decompress_buffer (Some inp) (length inp) (Some out_max) of
        None \<Rightarrow> Fault
      | Some (Inr out) \<Rightarrow> if out = [] then Miss else Found out
      | Some (Inl e) \<Rightarrow> Miss)"

definition blk_count :: "byte list \<Rightarrow> nat" where
  "blk_count blk = unat (blk ! 0)"

definition blk_used :: "byte list \<Rightarrow> nat" where
  "blk_used blk = rd16 blk 2"

definition set_count_used :: "byte list \<Rightarrow> nat \<Rightarrow> nat \<Rightarrow> byte list" where
  "set_count_used blk count used = blit (blk[0 := word_of_nat count]) 2 (bytes16 (word_of_nat used))"

text \<open>A zeroed block with an empty header.\<close>

definition empty_blk :: "byte list" where
  "empty_blk = set_count_used (replicate 512 0) 0 PACKED_BLK_HDR"

definition blk_addr :: "sd_state \<Rightarrow> u32 \<Rightarrow> u32" where
  "blk_addr s blk_num = sb_data_start (g_sb s) + blk_num"

definition packed_read :: "sd_state \<Rightarrow> u32 \<Rightarrow> byte list option \<times> sd_state" where
  "packed_read s blk_num =
     (case data_cache_read s blk_num of
        (Some buf, s1) \<Rightarrow> (Some buf, s1)
      | (None, s1) \<Rightarrow>
          (case sd_read_block s1 (blk_addr s1 blk_num) of
             (None, s2) \<Rightarrow> (None, s2)
           | (Some buf, s2) \<Rightarrow>
               let buf' = (if 512 < blk_used buf \<or> 60 < blk_count buf then empty_blk else buf) in
               (Some buf', data_cache_insert s2 blk_num buf')))"

definition pe_key :: "byte list \<Rightarrow> nat \<Rightarrow> u32" where
  "pe_key blk off = rd32 blk off"

definition pe_comp_len :: "byte list \<Rightarrow> nat \<Rightarrow> nat" where
  "pe_comp_len blk off = rd16 blk (off + 4)"

definition pe_raw_len :: "byte list \<Rightarrow> nat \<Rightarrow> nat" where
  "pe_raw_len blk off = rd16 blk (off + 6)"

text \<open>The scan of \<open>packed_find\<close> over \<open>n\<close> more entries from offset \<open>off\<close>; 0 when there is none.\<close>

fun packed_scan :: "byte list \<Rightarrow> u32 \<Rightarrow> nat \<Rightarrow> nat \<Rightarrow> nat" where
  "packed_scan blk key 0 off = 0"
| "packed_scan blk key (Suc n) off =
     (if blk_used blk < off + PACKED_ENTRY_HDR then 0
      else if pe_key blk off = key then off
      else packed_scan blk key n (cast16 (off + PACKED_ENTRY_HDR + pe_comp_len blk off)))"

definition packed_find :: "byte list \<Rightarrow> u32 \<Rightarrow> nat" where
  "packed_find blk key = packed_scan blk key (blk_count blk) PACKED_BLK_HDR"

definition packed_read_card :: "sd_state \<Rightarrow> u32 \<Rightarrow> u32 \<Rightarrow> nat \<Rightarrow> byte list read_result \<times> sd_state" where
  "packed_read_card s blk_num key out_max =
     (case packed_read s blk_num of
        (None, s1) \<Rightarrow> (Miss, s1)
      | (Some blk, s1) \<Rightarrow>
          let off = packed_find blk key in
          if off = 0 then (Miss, s1)
          else if 512 < off + PACKED_ENTRY_HDR + pe_comp_len blk off then (Miss, s1)
          else (pc_decompress_card (segment (off + PACKED_ENTRY_HDR) (pe_comp_len blk off) blk) out_max, s1))"

text \<open>The block without the entry at \<open>off\<close>.\<close>

definition packed_cut :: "byte list \<Rightarrow> nat \<Rightarrow> byte list option" where
  "packed_cut blk off =
     (let entry_size = cast16 (PACKED_ENTRY_HDR + pe_comp_len blk off); used = blk_used blk in
      if used < off + entry_size then None
      else
        let tail = used - off - entry_size;
            blk1 = blit blk off (segment (off + entry_size) tail blk);
            blk2 = blit blk1 (used - entry_size) (replicate entry_size 0) in
        Some (set_count_used blk2 (blk_count blk - 1) (used - entry_size)))"

definition packed_remove_card :: "sd_state \<Rightarrow> u32 \<Rightarrow> u32 \<Rightarrow> (bool \<times> sd_state) option" where
  "packed_remove_card s blk_num key =
     (case packed_read s blk_num of
        (None, s1) \<Rightarrow> Some (False, s1)
      | (Some blk, s1) \<Rightarrow>
          let off = packed_find blk key in
          if off = 0 then Some (False, s1)
          else case packed_cut blk off of
                 None \<Rightarrow> None
               | Some blk' \<Rightarrow>
                   let s2 = data_cache_invalidate (snd (sd_write_block s1 (blk_addr s1 blk_num) blk')) blk_num;
                       s3 = (if blk_num = sb_open_block (g_sb s2) then s2\<lparr>g_open_cached := False\<rparr> else s2) in
                   if blk_count blk' \<noteq> 0 then Some (True, s3)
                   else
                     let s4 = snd (bitmap_set s3 blk_num False) in
                     if blk_num = sb_open_block (g_sb s4)
                     then Some (True, s4\<lparr>g_sb := (g_sb s4)\<lparr>sb_open_used := word_of_nat PACKED_BLK_HDR, sb_open_count := 0\<rparr>,
                                       g_open_cached := False\<rparr>)
                     else Some (True, s4))"

subsection \<open>Slot allocation\<close>

text \<open>The first zero bit of a bitmap block below the end of the map.\<close>

definition free_in_block :: "byte list \<Rightarrow> u32 \<Rightarrow> u32 \<Rightarrow> u32 option" where
  "free_in_block buf base_slot max_cards =
     map_option (\<lambda>i. base_slot + word_of_nat i)
       (find (\<lambda>i. buf ! (i div 8) \<noteq> 0xFF \<and> \<not> bit (buf ! (i div 8)) (i mod 8) \<and> base_slot + word_of_nat i < max_cards) [0..<4096])"

lemma sd_read_block_sb: "sd_read_block s blk = (r, s1) \<Longrightarrow> g_sb s1 = g_sb s"
  by (auto simp: sd_read_block_def)

text \<open>
  The loop of \<open>alloc_slot\<close> after \<open>tries\<close> rounds; \<open>cached\<close> is the number of the bitmap block in the buffer, and
  the buffer, which a failed read leaves as it is.
\<close>

function alloc_loop :: "sd_state \<Rightarrow> u32 \<Rightarrow> nat \<Rightarrow> u32 \<times> byte list \<Rightarrow> u32 option \<times> sd_state" where
  "alloc_loop s hint tries cached =
     (let max_cards = sb_max_cards (g_sb s);
          slot = (hint + word_of_nat tries) mod max_cards; blk = bitmap_block s slot in
      if unat max_cards \<le> tries then (None, s)
      else if blk \<noteq> fst cached then
        (case sd_read_block s blk of
           (None, s1) \<Rightarrow> alloc_loop s1 hint (tries + 1) cached
         | (Some buf, s1) \<Rightarrow>
             (case free_in_block buf (slot div 4096 * 4096) max_cards of
                Some free_slot \<Rightarrow>
                  (Some free_slot, s1\<lparr>g_sb := (g_sb s1)\<lparr>sb_next_free_hint := (free_slot + 1) mod max_cards\<rparr>\<rparr>)
              | None \<Rightarrow> alloc_loop s1 hint (tries + (4095 - unat (slot mod 4096)) + 1) (blk, buf)))
      else if snd cached ! byte_off slot AND slot_bit slot = 0
      then (Some slot, s\<lparr>g_sb := (g_sb s)\<lparr>sb_next_free_hint := (slot + 1) mod max_cards\<rparr>\<rparr>)
      else alloc_loop s hint (tries + 1) cached)"
  by pat_completeness auto
termination
  by (relation "measure (\<lambda>(s, hint, tries, cached). unat (sb_max_cards (g_sb s)) - tries)") (auto dest!: sd_read_block_sb sym [of _ "sd_read_block _ _"])

declare alloc_loop.simps [simp del]

definition alloc_slot :: "sd_state \<Rightarrow> u32 option \<times> sd_state" where
  "alloc_slot s = alloc_loop s (sb_next_free_hint (g_sb s)) 0 (0xFFFFFFFF, [])"

subsection \<open>Appending\<close>

text \<open>Brings the open block into \<open>g_open_blk\<close>, a new one when the entry does not fit.\<close>

definition open_for :: "sd_state \<Rightarrow> nat \<Rightarrow> bool \<times> sd_state" where
  "open_for s entry_size =
     (if unat (sb_open_used (g_sb s)) + entry_size \<le> 512 \<and> sb_open_count (g_sb s) < 60 then
        if g_open_cached s then (True, s)
        else case packed_read s (sb_open_block (g_sb s)) of
               (r, s1) \<Rightarrow> (True, s1\<lparr>g_open_blk := (case r of Some b \<Rightarrow> b | None \<Rightarrow> empty_blk), g_open_cached := True\<rparr>)
      else case alloc_slot s of
             (None, s1) \<Rightarrow> (False, s1)
           | (Some new_blk, s1) \<Rightarrow>
               let s2 = snd (bitmap_set s1 new_blk True) in
               (True, s2\<lparr>g_sb := (g_sb s2)\<lparr>sb_open_block := new_blk, sb_open_used := word_of_nat PACKED_BLK_HDR, sb_open_count := 0\<rparr>,
                         g_open_blk := empty_blk, g_open_cached := True\<rparr>))"

text \<open>
  The entry header is written through a pointer into the block, and \<open>hdr->used\<close> is read again for the copy and for
  the update of the block header: when \<open>used\<close> is below 8 the two headers overlap. \<open>None\<close> is a write
  outside of the block.
\<close>

definition entry_header :: "u32 \<Rightarrow> byte list \<Rightarrow> nat \<Rightarrow> byte list" where
  "entry_header key cmp raw_len = bytes32 key @ bytes16 (word_of_nat (length cmp)) @ bytes16 (word_of_nat raw_len)"

definition put_entry :: "byte list \<Rightarrow> u32 \<Rightarrow> byte list \<Rightarrow> nat \<Rightarrow> nat \<Rightarrow> byte list option" where
  "put_entry blk key cmp raw_len entry_size =
     (if 512 < blk_used blk + PACKED_ENTRY_HDR then None
      else
        let b1 = blit blk (blk_used blk) (entry_header key cmp raw_len) in
        if 512 < blk_used b1 + PACKED_ENTRY_HDR + length cmp then None
        else
          let b2 = blit b1 (blk_used b1 + PACKED_ENTRY_HDR) cmp;
              b3 = blit b2 2 (bytes16 (word_of_nat (blk_used b2 + entry_size))) in
          Some (b3[0 := b3 ! 0 + 1]))"

definition entry_bytes :: "u32 \<Rightarrow> byte list \<Rightarrow> nat \<Rightarrow> byte list" where
  "entry_bytes key cmp raw_len = entry_header key cmp raw_len @ cmp"

text \<open>\<open>Some (None, s)\<close> is the result \<open>UINT32_MAX\<close>.\<close>

definition packed_append :: "sd_state \<Rightarrow> u32 \<Rightarrow> byte list \<Rightarrow> nat \<Rightarrow> (u32 option \<times> sd_state) option" where
  "packed_append s key cmp raw_len =
     (let entry_size = cast16 (PACKED_ENTRY_HDR + length cmp) in
      if PACKED_DATA_MAX < entry_size then Some (None, s)
      else case open_for s entry_size of
             (False, s1) \<Rightarrow> Some (None, s1)
           | (True, s1) \<Rightarrow>
               (case put_entry (g_open_blk s1) key cmp raw_len entry_size of
                  None \<Rightarrow> None
                | Some blk' \<Rightarrow>
                 let s2 = s1\<lparr>g_open_blk := blk', g_sb := (g_sb s1)\<lparr>sb_open_used := word_of_nat (blk_used blk'),
                              sb_open_count := word_of_nat (blk_count blk')\<rparr>\<rparr>;
                     ob = sb_open_block (g_sb s2) in
                 Some (Some ob, data_cache_invalidate (snd (sd_write_block s2 (blk_addr s2 ob) blk')) ob)))"

subsection \<open>Formatting and starting\<close>

definition format_sd :: "sd_state \<Rightarrow> u32 \<Rightarrow> sd_state" where
  "format_sd s total_blocks =
     (let usable = total_blocks - SDRING_GUARD_BLOCKS; reserved = 1 + KVSD_OTA_BLOCKS;
          available = usable - reserved; index_total = available * 15 div 100; data_total = available - index_total;
          max_cards = data_total; bitmap_blks = (max_cards + 4095) div 4096;
          est_total_cards = data_total * 4; ht_max = index_total - bitmap_blks;
          ht_blks = (est_total_cards + 31) div 32; ht_blks = (if ht_max < ht_blks then ht_max else ht_blks);
          sb = \<lparr>sb_magic = SD_MAGIC, sb_version = KVSD_SB_VERSION, sb_total_cards = 0, sb_index_start = reserved,
                sb_index_blocks = index_total, sb_bitmap_start = reserved, sb_bitmap_blocks = bitmap_blks,
                sb_hashtab_start = reserved + bitmap_blks, sb_hashtab_blocks = ht_blks, sb_reserved_start = 0, sb_reserved_blocks = 0,
                sb_data_start = reserved + index_total, sb_data_blocks = data_total, sb_max_cards = max_cards, sb_next_free_hint = 0,
                sb_dirty = 0, sb_open_block = 0, sb_open_used = word_of_nat PACKED_BLK_HDR, sb_open_count = 0, sb_pad2 = 0,
                sb_ota_start = 1, sb_ota_blocks = KVSD_OTA_BLOCKS\<rparr>;
          s1 = snd (bitmap_set (s\<lparr>g_sb := sb\<rparr>) 0 True) in
      snd (sb_write s1))"

text \<open>
  The scan that a superblock with cards but without a hash table falls back to. \<open>multi\<close> is the static buffer of eight
  blocks: the result of a read into it is not looked at, so a failed one leaves what was there.
\<close>

fun scan_cards :: "byte list \<Rightarrow> nat \<Rightarrow> nat \<Rightarrow> u32 \<Rightarrow> (u32 \<times> u32) list \<Rightarrow> (u32 \<times> u32) list" where
  "scan_cards blk 0 off slot ix = ix"
| "scan_cards blk (Suc n) off slot ix =
     (if KVSD_INDEX_MAX \<le> length ix then ix
      else if blk_used blk < off + PACKED_ENTRY_HDR then ix
      else
        let k = pe_key blk off; ix' = (if k \<noteq> 0 \<and> k \<noteq> 0xFFFFFFFF then ix @ [(k, slot)] else ix) in
        scan_cards blk n (cast16 (off + PACKED_ENTRY_HDR + pe_comp_len blk off)) slot ix')"

definition scan_block :: "byte list \<Rightarrow> u32 \<Rightarrow> (u32 \<times> u32) list \<Rightarrow> (u32 \<times> u32) list" where
  "scan_block blk slot ix =
     (if 512 < blk_used blk \<or> 60 < blk_count blk then ix else scan_cards blk (blk_count blk) PACKED_BLK_HDR slot ix)"

definition scan_run :: "byte list \<Rightarrow> u32 \<Rightarrow> nat \<Rightarrow> (u32 \<times> u32) list \<Rightarrow> (u32 \<times> u32) list" where
  "scan_run multi run_start run_len ix =
     fold (\<lambda>ri ix. if KVSD_INDEX_MAX \<le> length ix then ix else scan_block (segment (512 * ri) 512 multi) (run_start + word_of_nat ri) ix)
       [0..<run_len] ix"

text \<open>A transfer of several blocks stops at the first that fails.\<close>

primrec sd_read_blocks :: "nat \<Rightarrow> nat \<Rightarrow> sd_state \<Rightarrow> u32 \<Rightarrow> byte list \<Rightarrow> byte list \<times> sd_state" where
  "sd_read_blocks 0 i s a multi = (multi, s)"
| "sd_read_blocks (Suc n) i s a multi =
     (case sd_read_block s (a + word_of_nat i) of
        (None, s1) \<Rightarrow> (multi, s1)
      | (Some buf, s1) \<Rightarrow> sd_read_blocks n (i + 1) s1 a (blit multi (512 * i) buf))"

type_synonym scan = "sd_state \<times> byte list \<times> (u32 \<times> u32) list \<times> u32 \<times> nat"

definition flush_run :: "scan \<Rightarrow> scan" where
  "flush_run = (\<lambda>(s, multi, ix, run_start, run_len).
     case sd_read_blocks run_len 0 s (blk_addr s run_start) multi of
       (multi', s1) \<Rightarrow> (s1, multi', scan_run multi' run_start run_len ix, run_start, 0))"

definition scan_bit :: "byte \<Rightarrow> u32 \<Rightarrow> nat \<Rightarrow> scan \<Rightarrow> scan" where
  "scan_bit w base bi = (\<lambda>(s, multi, ix, run_start, run_len).
     if bit w bi then
       let run_start' = (if run_len = 0 then base + word_of_nat bi else run_start); st = (s, multi, ix, run_start', run_len + 1) in
       if 8 \<le> run_len + 1 \<or> bi = 7 then flush_run st else st
     else if 0 < run_len then flush_run (s, multi, ix, run_start, run_len)
     else (s, multi, ix, run_start, run_len))"

primrec scan_bytes :: "byte list \<Rightarrow> u32 \<Rightarrow> scan \<Rightarrow> scan" where
  "scan_bytes [] base st = st"
| "scan_bytes (w # ws) base st =
     (case st of (s, multi, ix, run_start, run_len) \<Rightarrow>
        if KVSD_INDEX_MAX \<le> length ix then st
        else if w = 0 then scan_bytes ws (base + 8) (s, multi, ix, run_start, 0)
        else scan_bytes ws (base + 8) (fold (scan_bit w base) [0..<8] st))"

primrec scan_bitmap :: "nat \<Rightarrow> nat \<Rightarrow> sd_state \<Rightarrow> byte list \<Rightarrow> (u32 \<times> u32) list \<Rightarrow> sd_state \<times> (u32 \<times> u32) list" where
  "scan_bitmap 0 bm s multi ix = (s, ix)"
| "scan_bitmap (Suc n) bm s multi ix =
     (if KVSD_INDEX_MAX \<le> length ix then (s, ix)
      else case sd_read_block s (sb_bitmap_start (g_sb s) + word_of_nat bm) of
             (None, s1) \<Rightarrow> scan_bitmap n (bm + 1) s1 multi ix
           | (Some buf, s1) \<Rightarrow>
               if \<forall>x \<in> set buf. x = 0 then scan_bitmap n (bm + 1) s1 multi ix
               else case scan_bytes buf (word_of_nat bm * 4096) (s1, multi, ix, 0, 0) of
                      (s2, multi', ix', run_start, run_len) \<Rightarrow> scan_bitmap n (bm + 1) s2 multi' ix')"

text \<open>The insertion sort of the index: an entry moves back over the greater ones before it.\<close>

definition sort_step :: "(u32 \<times> u32) list \<Rightarrow> u32 \<times> u32 \<Rightarrow> (u32 \<times> u32) list" where
  "sort_step done e = (let above = takeWhile (\<lambda>x. fst e < fst x) (rev done) in
     take (length done - length above) done @ [e] @ rev above)"

definition sort_index :: "(u32 \<times> u32) list \<Rightarrow> (u32 \<times> u32) list" where
  "sort_index ix = foldl sort_step [] ix"

definition bitmap_fallback :: "byte list \<Rightarrow> sd_state \<Rightarrow> sd_state" where
  "bitmap_fallback multi s =
     (case scan_bitmap (unat (sb_bitmap_blocks (g_sb s))) 0 s multi [] of (s1, ix) \<Rightarrow> s1\<lparr>g_sram := sort_index ix\<rparr>)"

definition kvsd_init :: "byte list \<Rightarrow> sd_state \<Rightarrow> sd_state" where
  "kvsd_init multi s =
     (let s0 = s\<lparr>g_sram := [], g_ready := False, g_open_cached := False, g_fidx_count := 0, g_fidx_sequence := 0\<rparr> in
      case sd_info s of
        None \<Rightarrow> s0
      | Some (block_count, capacity_mb) \<Rightarrow>
          (case sb_read (fidx_count_entries s0) of
             (True, s1) \<Rightarrow>
               let s2 = (if sb_version (g_sb s1) \<noteq> KVSD_SB_VERSION then format_sd s1 block_count else s1) in
               (if 0 < sb_total_cards (g_sb s2) \<and> sb_hashtab_blocks (g_sb s2) = 0 then bitmap_fallback multi s2 else s2)\<lparr>g_ready := True\<rparr>
           | (False, s1) \<Rightarrow> (format_sd s1 block_count)\<lparr>g_ready := True\<rparr>))"

subsection \<open>Operations\<close>

definition promote :: "sd_state \<Rightarrow> u32 \<Rightarrow> int \<Rightarrow> int \<times> sd_state" where
  "promote s key slot = (slot, s\<lparr>g_sram := index_insert (g_sram s) key (word_of_int slot)\<rparr>)"

definition find_slot_for_key :: "sd_state \<Rightarrow> u32 \<Rightarrow> int \<times> sd_state" where
  "find_slot_for_key s key =
     (let pos = index_find (g_sram s) key in
      if 0 \<le> pos then (sint (snd (g_sram s ! nat pos)), s)
      else
        let fslot = fidx_lookup s key in
        if 0 \<le> fslot then promote s key fslot
        else
          let (hslot, s1) = ht_lookup s key in
          if 0 \<le> hslot then promote s1 key hslot else (- 1, s1))"

definition kvsd_put :: "sd_state \<Rightarrow> u32 \<Rightarrow> byte list \<Rightarrow> (bool \<times> sd_state) option" where
  "kvsd_put s key val =
     (if \<not> g_ready s \<or> KVSD_MAX_PAYLOAD < length val then Some (False, s)
      else if 2 \<le> length val \<and> (val ! 0 \<noteq> KVSD_MAGIC_LO \<or> val ! 1 \<noteq> KVSD_MAGIC_HI) then Some (False, s)
      else
        let (old_blk, s1) = find_slot_for_key s key; cmp = pc_compress_card val PACKED_DATA_MAX in
        if cmp = [] then Some (False, s1)
        else case packed_append s1 key cmp (length val) of
               None \<Rightarrow> None
             | Some (None, s2) \<Rightarrow> Some (False, s2)
             | Some (Some new_blk, s2) \<Rightarrow>
                 let s3 = snd (ht_insert s2 key new_blk);
                     s4 = s3\<lparr>g_sram := index_insert (g_sram s3) key new_blk, g_fidx_count := 0\<rparr>;
                     is_new = (old_blk < 0) in
                 case (if \<not> is_new \<and> word_of_int old_blk \<noteq> new_blk
                       then map_option snd (packed_remove_card s4 (word_of_int old_blk) key) else Some s4) of
                   None \<Rightarrow> None
                 | Some s5 \<Rightarrow>
                     Some (True, s5\<lparr>g_sb := (g_sb s5)\<lparr>
                       sb_total_cards := (if is_new then sb_total_cards (g_sb s5) + 1 else sb_total_cards (g_sb s5)),
                       sb_dirty := 1\<rparr>\<rparr>))"

text \<open>
  The two readers write into a buffer, the caller's or \<open>g_card_buf\<close>, given here with its previous contents; the
  result is the buffer and the length.
\<close>

definition read_into :: "sd_state \<Rightarrow> u32 \<Rightarrow> byte list \<Rightarrow> nat \<Rightarrow> (byte list \<times> nat) read_result \<times> sd_state" where
  "read_into s key out cap =
     (if \<not> g_ready s then (Miss, s)
      else
        let (blk, s1) = find_slot_for_key s key in
        if blk < 0 then (Miss, s1)
        else case packed_read_card s1 (word_of_int blk) key cap of
               (Fault, s2) \<Rightarrow> (Fault, s2)
             | (Miss, s2) \<Rightarrow> (Miss, s2)
             | (Found raw, s2) \<Rightarrow>
                 let out' = blit out 0 raw in
                 if length out' < 2 then (Fault, s2)
                 else if out' ! 0 \<noteq> KVSD_MAGIC_LO \<or> out' ! 1 \<noteq> KVSD_MAGIC_HI then (Miss, s2)
                 else (Found (out', length raw), s2))"

definition kvsd_get :: "sd_state \<Rightarrow> byte list \<Rightarrow> u32 \<Rightarrow> (byte list \<times> nat) read_result \<times> sd_state" where
  "kvsd_get s card_buf key = read_into s key card_buf KVSD_MAX_PAYLOAD"

definition kvsd_get_copy :: "sd_state \<Rightarrow> u32 \<Rightarrow> byte list \<Rightarrow> (byte list \<times> nat) read_result \<times> sd_state" where
  "kvsd_get_copy s key out = read_into s key out (length out)"

definition kvsd_get_raw :: "sd_state \<Rightarrow> u32 \<Rightarrow> nat \<Rightarrow> (byte list \<times> nat) option \<times> sd_state" where
  "kvsd_get_raw s key cap =
     (if \<not> g_ready s then (None, s)
      else
        let (blk, s1) = find_slot_for_key s key in
        if blk < 0 then (None, s1)
        else case packed_read s1 (word_of_int blk) of
               (None, s2) \<Rightarrow> (None, s2)
             | (Some b, s2) \<Rightarrow>
                 let off = packed_find b key in
                 if off = 0 then (None, s2)
                 else if 512 < off + PACKED_ENTRY_HDR + pe_comp_len b off then (None, s2)
                 else if cap < pe_comp_len b off then (None, s2)
                 else (Some (segment (off + PACKED_ENTRY_HDR) (pe_comp_len b off) b, pe_raw_len b off), s2))"

definition kvsd_delete :: "sd_state \<Rightarrow> u32 \<Rightarrow> (bool \<times> sd_state) option" where
  "kvsd_delete s key =
     (if \<not> g_ready s then Some (False, s)
      else
        let (blk, s1) = find_slot_for_key s key in
        if blk < 0 then Some (False, s1)
        else case packed_remove_card s1 (word_of_int blk) key of
               None \<Rightarrow> None
             | Some (removed, s2) \<Rightarrow>
                 let s3 = snd (ht_remove s2 key); (found, ix) = index_remove (g_sram s3) key; s4 = s3\<lparr>g_sram := ix\<rparr> in
                 Some (True, if found then s4\<lparr>g_sb := (g_sb s4)\<lparr>sb_total_cards := sb_total_cards (g_sb s4) - 1, sb_dirty := 1\<rparr>\<rparr>
                             else s4))"

definition kvsd_exists :: "sd_state \<Rightarrow> u32 \<Rightarrow> bool \<times> sd_state" where
  "kvsd_exists s key =
     (if \<not> g_ready s then (False, s)
      else case find_slot_for_key s key of (slot, s1) \<Rightarrow> (0 \<le> slot, s1))"

text \<open>The two scans of \<open>kvsd_range\<close>; \<open>hi\<close> is the greatest key with the prefix.\<close>

fun range_sram :: "(u32 \<times> u32) list \<Rightarrow> u32 \<Rightarrow> u32 \<Rightarrow> u32 \<Rightarrow> nat \<Rightarrow> u32 list \<Rightarrow> u32 list" where
  "range_sram [] msk masked hi mx out = out"
| "range_sram ((k, slot) # ix) msk masked hi mx out =
     (if mx \<le> length out then out
      else if k AND msk = masked then range_sram ix msk masked hi mx (out @ [k])
      else if hi < k then out
      else range_sram ix msk masked hi mx out)"

text \<open>\<open>sram\<close> is what the first scan found and has not been passed by the merge pointer.\<close>

fun range_flash :: "u32 list \<Rightarrow> u32 \<Rightarrow> u32 \<Rightarrow> u32 \<Rightarrow> nat \<Rightarrow> u32 list \<Rightarrow> u32 list \<Rightarrow> u32 list" where
  "range_flash [] msk masked hi mx sram out = out"
| "range_flash (k # ks) msk masked hi mx sram out =
     (if mx \<le> length out then out
      else if k = 0xFFFFFFFF then out
      else if k AND msk \<noteq> masked then
        if hi < k then out else range_flash ks msk masked hi mx sram out
      else
        let sram' = dropWhile (\<lambda>x. x < k) sram in
        if sram' \<noteq> [] \<and> hd sram' = k then range_flash ks msk masked hi mx sram' out
        else range_flash ks msk masked hi mx sram' (out @ [k]))"

definition kvsd_range :: "sd_state \<Rightarrow> u32 \<Rightarrow> u32 \<Rightarrow> nat \<Rightarrow> u32 list" where
  "kvsd_range s prefix msk mx =
     (if \<not> g_ready s then []
      else
        let masked = prefix AND msk; hi = masked OR NOT msk;
            sram = range_sram (g_sram s) msk masked hi mx [] in
        range_flash (map (\<lambda>i. fst (fidx_xip s i)) [0..<unat (g_fidx_count s)]) msk masked hi mx sram sram)"

definition kvsd_flush :: "flash_dev \<Rightarrow> sd_state \<Rightarrow> bool \<times> sd_state" where
  "kvsd_flush dev s =
     (if \<not> g_ready s then (False, s)
      else
        let s1 = snd (sb_write (s\<lparr>g_sb := (g_sb s)\<lparr>sb_dirty := 0\<rparr>\<rparr>)) in
        (True, fidx_write_all dev s1 (g_sram s1)))"

record kvsd_stats_t =
  ks_active :: u32
  ks_index_max :: u32
  ks_max_cards :: u32
  ks_sd_mb :: u32

definition kvsd_stats :: "sd_state \<Rightarrow> kvsd_stats_t" where
  "kvsd_stats s =
     \<lparr>ks_active = word_of_nat (length (g_sram s)), ks_index_max = word_of_nat KVSD_INDEX_MAX, ks_max_cards = sb_max_cards (g_sb s),
      ks_sd_mb = (case sd_info s of Some (block_count, mb) \<Rightarrow> mb | None \<Rightarrow> 0)\<rparr>"

definition kvsd_record_count :: "sd_state \<Rightarrow> u32" where
  "kvsd_record_count s = sb_total_cards (g_sb s)"

fun sd_type_counts :: "u32 list \<Rightarrow> nat \<Rightarrow> u16 \<Rightarrow> (u16 \<times> nat) list \<Rightarrow> (u16 \<times> nat) list" where
  "sd_type_counts [] max_types lst out = out"
| "sd_type_counts (k # ks) max_types lst out =
     (let t = ucast (drop_bit 22 k) in
      if t = lst then sd_type_counts ks max_types lst (butlast out @ [(fst (last out), snd (last out) + 1)])
      else if max_types \<le> length out then out
      else sd_type_counts ks max_types t (out @ [(t, 1)]))"

definition kvsd_type_counts :: "sd_state \<Rightarrow> nat \<Rightarrow> (u16 \<times> nat) list" where
  "kvsd_type_counts s max_types = sd_type_counts (map fst (g_sram s)) max_types 0xFFFF []"

definition kvsd_dirty :: "sd_state \<Rightarrow> bool" where
  "kvsd_dirty s \<longleftrightarrow> g_ready s \<and> sb_dirty (g_sb s) \<noteq> 0"

definition kvsd_ota_start_block :: "sd_state \<Rightarrow> u32" where
  "kvsd_ota_start_block s =
     (if \<not> g_ready s then 0
      else if sb_ota_start (g_sb s) = 0 \<or> sb_ota_blocks (g_sb s) = 0 then 1
      else sb_ota_start (g_sb s))"

end
