(* ===== verification/SdBlocks.thy ===== *)
theory SdBlocks
  imports KvSd
begin

text \<open>
  The packed blocks of \<open>src/kv_sd.c\<close>: a block is the sequence of its cards. \<open>block_holds\<close> relates the 512 bytes
  of a block with that sequence; the lemmas say what finding, appending and cutting out a card do to it.
\<close>

unbundle bit_operations_syntax

subsection \<open>Loads at a known place\<close>

lemma rd32_append [simp]: "rd32 (xs @ bytes32 k @ ys) (length xs) = k"
  by (simp add: rd32_def bytes32_def nth_append)

lemma rd32_append_off: "length xs = i \<Longrightarrow> rd32 (xs @ bytes32 k @ ys) i = k"
  using rd32_append [of xs k ys] by simp

lemma rd16_append_off: "length xs = i \<Longrightarrow> rd16 (xs @ bytes16 w @ ys) i = unat w"
  by (auto simp: rd16_def bytes16_def nth_append)

subsection \<open>A block as the sequence of its cards\<close>

type_synonym card = "u32 \<times> byte list \<times> nat"

definition card_bytes :: "card \<Rightarrow> byte list" where
  "card_bytes e = entry_bytes (fst e) (fst (snd e)) (snd (snd e))"

definition cards_bytes :: "card list \<Rightarrow> byte list" where
  "cards_bytes es = concat (map card_bytes es)"

abbreviation card_keys :: "card list \<Rightarrow> u32 set" where
  "card_keys es \<equiv> fst ` set es"

definition block_holds :: "byte list \<Rightarrow> card list \<Rightarrow> bool" where
  "block_holds blk es \<longleftrightarrow> length blk = 512 \<and> length es \<le> 60 \<and> 8 + length (cards_bytes es) \<le> 512
     \<and> blk_count blk = length es \<and> blk_used blk = 8 + length (cards_bytes es)
     \<and> blk = take 8 blk @ cards_bytes es @ drop (8 + length (cards_bytes es)) blk"

lemma length_card_bytes [simp]: "length (card_bytes (k, c, r)) = 8 + length c"
  by (simp add: card_bytes_def entry_bytes_def entry_header_def bytes16_def)

lemma cards_bytes_simps [simp]:
  "cards_bytes [] = []" "cards_bytes (e # es) = card_bytes e @ cards_bytes es"
  "cards_bytes (xs @ ys) = cards_bytes xs @ cards_bytes ys"
  by (simp_all add: cards_bytes_def)

lemma split_four: "4 \<le> length xs \<Longrightarrow> \<exists>a b c d e. xs = a # b # c # d # e"
  by (auto simp: Suc_le_length_iff numeral_eq_Suc)

lemma set_count_used_props:
  assumes "length blk = 512" "n < 256" "u < 65536"
  shows "length (set_count_used blk n u) = 512" "blk_count (set_count_used blk n u) = n"
    "blk_used (set_count_used blk n u) = u" "drop 8 (set_count_used blk n u) = drop 8 blk"
proof -
  have "4 \<le> length blk" using assms(1) by simp
  then obtain a b c d e where blk: "blk = a # b # c # d # e" using split_four by blast
  have s: "set_count_used blk n u = word_of_nat n # b # bytes16 (word_of_nat u) @ e"
    unfolding set_count_used_def blit_def blk by (simp add: numeral_2_eq_2 bytes16_def)
  have "length (set_count_used blk n u) = length blk" unfolding s unfolding blk by (simp add: bytes16_def)
  then show "length (set_count_used blk n u) = 512" using assms(1) by simp
  show "blk_count (set_count_used blk n u) = n"
    unfolding s blk_count_def using assms(2) by (simp add: unat_of_nat)
  show "blk_used (set_count_used blk n u) = u"
    unfolding s blk_used_def rd16_def using assms(3) by (simp add: bytes16_def unat_of_nat)
  show "drop 8 (set_count_used blk n u) = drop 8 blk"
    unfolding s unfolding blk by (simp add: bytes16_def)
qed

lemma block_holds_empty: "block_holds empty_blk []"
  using set_count_used_props [of "replicate 512 0" 0 PACKED_BLK_HDR]
    append_take_drop_id [of 8 empty_blk]
  by (simp add: block_holds_def empty_blk_def PACKED_BLK_HDR_def)

text \<open>Where a card is, and its fields.\<close>

lemma card_fields:
  assumes "block_holds blk (xs @ (k, c, r) # ys)"
  defines "off \<equiv> 8 + length (cards_bytes xs)"
  shows "pe_key blk off = k" "pe_comp_len blk off = length c" "r < 65536 \<Longrightarrow> pe_raw_len blk off = r"
    "segment (off + 8) (length c) blk = c" "off + 8 + length c \<le> blk_used blk"
proof -
  define h where "h = take 8 blk @ cards_bytes xs"
  define z where "z = cards_bytes ys @ drop (8 + length (cards_bytes (xs @ (k, c, r) # ys))) blk"
  have len: "length blk = 512" "8 + length (cards_bytes (xs @ (k, c, r) # ys)) \<le> 512" using assms(1) by (auto simp: block_holds_def)
  then have h: "length h = off" by (simp add: h_def off_def)
  have c: "length c < 65536" using len(2) by simp
  have blk: "blk = h @ bytes32 k @ bytes16 (word_of_nat (length c)) @ bytes16 (word_of_nat r) @ c @ z"
    using assms(1) unfolding block_holds_def h_def z_def by (simp add: card_bytes_def entry_bytes_def entry_header_def)
  show "pe_key blk off = k" by (subst blk) (simp add: pe_key_def rd32_append_off h)
  have "rd16 ((h @ bytes32 k) @ bytes16 (word_of_nat (length c)) @ bytes16 (word_of_nat r) @ c @ z) (off + 4) = length c"
    using c by (subst rd16_append_off) (simp_all add: h unat_of_nat)
  then show "pe_comp_len blk off = length c" by (subst blk) (simp add: pe_comp_len_def)
  have "rd16 ((h @ bytes32 k @ bytes16 (word_of_nat (length c))) @ bytes16 (word_of_nat r) @ c @ z) (off + 6) = r" if "r < 65536"
    using that by (subst rd16_append_off) (simp_all add: h unat_of_nat)
  then show "r < 65536 \<Longrightarrow> pe_raw_len blk off = r" by (subst blk) (simp add: pe_raw_len_def)
  show "segment (off + 8) (length c) blk = c"
    by (subst blk) (simp add: segment_def h)
  show "off + 8 + length c \<le> blk_used blk" using assms(1) by (simp add: block_holds_def off_def)
qed

lemma packed_scan_spec:
  assumes "block_holds blk (xs @ ys)"
  shows "packed_scan blk k (length ys) (8 + length (cards_bytes xs)) =
    (case dropWhile (\<lambda>e. fst e \<noteq> k) ys of [] \<Rightarrow> 0 | _ \<Rightarrow> 8 + length (cards_bytes (xs @ takeWhile (\<lambda>e. fst e \<noteq> k) ys)))"
  using assms
proof (induction ys arbitrary: xs)
  case (Cons y ys)
  obtain k' c r where y: "y = (k', c, r)" by (cases y)
  note f = card_fields [of blk xs k' c r ys, folded y, OF Cons.prems]
  have fit: "\<not> blk_used blk < 8 + length (cards_bytes xs) + PACKED_ENTRY_HDR" using f(5) by (simp add: PACKED_ENTRY_HDR_def)
  show ?case
  proof (cases "k' = k")
    case True
    then show ?thesis using f(1) fit by (simp add: y)
  next
    case False
    have "blk_used blk \<le> 512" using Cons.prems by (simp add: block_holds_def)
    then have "cast16 (8 + length (cards_bytes xs) + PACKED_ENTRY_HDR + length c) = 8 + length (cards_bytes (xs @ [y]))"
      using f(5) by (simp add: PACKED_ENTRY_HDR_def y)
    moreover have "block_holds blk ((xs @ [y]) @ ys)" using Cons.prems by simp
    ultimately show ?thesis using Cons.IH [of "xs @ [y]"] f(1,2) fit False
      by (cases "dropWhile (\<lambda>e. fst e \<noteq> k) ys") (simp_all add: y del: dropWhile_eq_Nil_conv)
  qed
qed simp

lemma packed_find_hit:
  assumes "block_holds blk (xs @ (k, c, r) # ys)" "k \<notin> card_keys xs"
  shows "packed_find blk k = 8 + length (cards_bytes xs)"
proof -
  have "blk_count blk = length (xs @ (k, c, r) # ys)" using assms(1) by (simp add: block_holds_def)
  moreover have "\<forall>e \<in> set xs. fst e \<noteq> k" using assms(2) by auto
  ultimately show ?thesis
    using packed_scan_spec [of blk "[]" "xs @ (k, c, r) # ys" k] assms(1)
    by (simp add: packed_find_def PACKED_BLK_HDR_def dropWhile_append2 takeWhile_append2 del: length_append)
qed

lemma packed_find_miss:
  assumes "block_holds blk es" "k \<notin> card_keys es"
  shows "packed_find blk k = 0"
proof -
  have "dropWhile (\<lambda>e. fst e \<noteq> k) es = []" using assms(2) by (auto simp: dropWhile_eq_Nil_conv)
  then have "packed_scan blk k (length es) 8 = 0"
    using packed_scan_spec [of blk "[]" es k] assms(1) by (simp del: dropWhile_eq_Nil_conv)
  then show ?thesis using assms(1) by (simp add: packed_find_def PACKED_BLK_HDR_def block_holds_def)
qed

lemma first_card:
  assumes "k \<in> card_keys es"
  obtains xs c r ys where "es = xs @ (k, c, r) # ys" "k \<notin> card_keys xs"
proof -
  have "\<exists>x \<in> set es. fst x = k" using assms by auto
  from split_list_first_prop [OF this]
  obtain xs y ys where "es = xs @ y # ys" "fst y = k" "\<forall>x \<in> set xs. fst x \<noteq> k" by blast
  moreover have "k \<notin> card_keys xs" using calculation(3) by auto
  ultimately show ?thesis using that [of xs "fst (snd y)" "snd (snd y)" ys] by (cases y) simp
qed

lemma packed_find_zero: "block_holds blk es \<Longrightarrow> packed_find blk k = 0 \<longleftrightarrow> k \<notin> card_keys es"
  using packed_find_miss packed_find_hit first_card by (metis add_is_0 zero_neq_numeral)

subsection \<open>Appending and cutting out\<close>

lemma block_holds_header:
  assumes "length b = 512" "drop 8 b = cards_bytes es @ z" "length es \<le> 60" "8 + length (cards_bytes es) \<le> 512"
  shows "block_holds (set_count_used b (length es) (8 + length (cards_bytes es))) es"
proof -
  define b2 where "b2 = set_count_used b (length es) (8 + length (cards_bytes es))"
  have p: "length b2 = 512" "blk_count b2 = length es" "blk_used b2 = 8 + length (cards_bytes es)" "drop 8 b2 = cards_bytes es @ z"
    using set_count_used_props [OF assms(1), of "length es" "8 + length (cards_bytes es)"] assms by (auto simp: b2_def)
  have "drop (8 + length (cards_bytes es)) b2 = drop (length (cards_bytes es)) (drop 8 b2)" by (simp add: add.commute)
  also have "\<dots> = z" by (simp only: p(4)) simp
  finally have "b2 = take 8 b2 @ cards_bytes es @ drop (8 + length (cards_bytes es)) b2"
    using append_take_drop_id [of 8 b2] p(4) by metis
  then show ?thesis using p assms(3,4) by (simp add: block_holds_def b2_def)
qed

text \<open>Away from the header of the block the entry is written in one piece.\<close>

lemma length_entry_header [simp]: "length (entry_header k c r) = 8"
  by (simp add: entry_header_def bytes16_def)

lemma blit_blit: "p + length ys \<le> length xs \<Longrightarrow> blit (blit xs p ys) (p + length ys) zs = blit xs p (ys @ zs)"
  by (simp add: blit_def ac_simps)

lemma put_entry_ok:
  assumes l: "length blk = 512" and u: "8 \<le> blk_used blk" "blk_used blk + 8 + length c \<le> 512"
  shows "put_entry blk k c r (8 + length c)
    = Some (set_count_used (blit blk (blk_used blk) (entry_bytes k c r)) (blk_count blk + 1) (blk_used blk + (8 + length c)))"
proof -
  have "4 \<le> length blk" using l by simp
  then obtain x0 x1 x2 x3 e where blk: "blk = x0 # x1 # x2 # x3 # e" using split_four by blast
  define q where "q = blk_used blk - 4"
  define h where "h = entry_header k c r"
  have q: "blk_used blk = q + 4" "q + 8 + length c \<le> length e" using u l by (auto simp: q_def blk)
  have rd: "blk_used (x0 # x1 # x2 # x3 # e') = q + 4" for e' using q(1) by (simp add: blk_used_def blk rd16_def)
  have four: "take (q + 4) blk = x0 # x1 # x2 # x3 # take q e" "drop (q + 4 + n) blk = drop (q + n) e" for n
    by (simp_all add: blk numeral_eq_Suc)
  have b1: "blit blk (q + 4) h = x0 # x1 # x2 # x3 # blit e q h" unfolding blit_def four by simp
  have "blit (x0 # x1 # x2 # x3 # blit e q h) (q + 4 + 8) c = x0 # x1 # x2 # x3 # blit (blit e q h) (q + 8) c"
    by (simp add: blit_def numeral_eq_Suc)
  also have "blit (blit e q h) (q + 8) c = blit e q (h @ c)" using blit_blit [of q h e c] q(2) by (simp add: h_def)
  finally have b2: "blit (x0 # x1 # x2 # x3 # blit e q h) (q + 4 + 8) c = x0 # x1 # x2 # x3 # blit e q (h @ c)" .
  have b: "blit blk (q + 4) (entry_bytes k c r) = x0 # x1 # x2 # x3 # blit e q (h @ c)"
    unfolding blit_def four entry_bytes_def h_def by simp
  have w: "word_of_nat (blk_count blk + 1) = x0 + 1" by (simp add: blk_count_def blk)
  have n: "\<not> 512 < q + 4 + 8" "\<not> 512 < q + 4 + 8 + length c" using u(2) q(1) by auto
  show ?thesis
    unfolding put_entry_def PACKED_ENTRY_HDR_def Let_def h_def [symmetric] q(1) b1 rd b2 b set_count_used_def w
    using n by (simp add: blit_def bytes16_def numeral_eq_Suc)
qed

lemma put_entry_block:
  assumes "block_holds blk es" "blk_used blk + 8 + length c \<le> 512"
  shows "put_entry blk k c r (8 + length c)
    = Some (set_count_used (blit blk (blk_used blk) (entry_bytes k c r)) (blk_count blk + 1) (blk_used blk + (8 + length c)))"
  using assms by (intro put_entry_ok) (auto simp: block_holds_def)

lemma block_append:
  assumes "block_holds blk es" "length es < 60" "blk_used blk + 8 + length c \<le> 512"
  shows "block_holds (set_count_used (blit blk (blk_used blk) (entry_bytes k c r)) (blk_count blk + 1) (blk_used blk + (8 + length c)))
    (es @ [(k, c, r)])"
proof -
  define u where "u = blk_used blk"
  have b: "length blk = 512" "u = 8 + length (cards_bytes es)" "blk_count blk = length es"
    "blk = take 8 blk @ cards_bytes es @ drop u blk"
    using assms(1) by (auto simp: block_holds_def u_def)
  have le: "length (entry_bytes k c r) = 8 + length c" using length_card_bytes [of k c r] by (simp add: card_bytes_def)
  define b1 where "b1 = blit blk u (entry_bytes k c r)"
  have "take u blk = take 8 blk @ cards_bytes es" by (subst b(4)) (simp add: b(1,2))
  then have "b1 = take 8 blk @ cards_bytes (es @ [(k, c, r)]) @ drop (u + (8 + length c)) blk"
    unfolding b1_def blit_def le by (simp add: card_bytes_def)
  then have "drop 8 b1 = cards_bytes (es @ [(k, c, r)]) @ drop (u + (8 + length c)) blk" by (simp add: b(1))
  moreover have "length b1 = 512" using assms(3) le b(1) by (simp add: b1_def u_def)
  ultimately show ?thesis
    using block_holds_header [of b1 "es @ [(k, c, r)]"] assms(2,3) b by (simp add: b1_def u_def)
qed

lemma block_cut:
  assumes "block_holds blk (xs @ (k, c, r) # ys)"
  shows "\<exists>blk'. packed_cut blk (8 + length (cards_bytes xs)) = Some blk' \<and> block_holds blk' (xs @ ys)"
proof -
  define off where "off = 8 + length (cards_bytes xs)"
  define sz where "sz = 8 + length c"
  define u where "u = blk_used blk"
  define tail where "tail = length (cards_bytes ys)"
  define z where "z = drop u blk"
  have b: "length blk = 512" "u = off + sz + tail" "u \<le> 512" "blk_count blk = length xs + length ys + 1"
    "blk = take 8 blk @ cards_bytes xs @ card_bytes (k, c, r) @ cards_bytes ys @ z" "length xs + length ys < 60"
    using assms by (auto simp: block_holds_def u_def off_def sz_def tail_def z_def)
  have sg: "segment (off + sz) tail blk = cards_bytes ys"
    unfolding segment_def by (subst b(5)) (simp add: tail_def off_def sz_def b(1))
  have tk: "take off blk = take 8 blk @ cards_bytes xs" by (subst b(5)) (simp add: off_def b(1))
  define b1 where "b1 = blit blk off (segment (off + sz) tail blk)"
  have b1: "b1 = take 8 blk @ cards_bytes xs @ cards_bytes ys @ drop (off + tail) blk"
    unfolding b1_def blit_def sg tk unfolding tail_def by simp
  define b2 where "b2 = blit b1 (u - sz) (replicate sz 0)"
  have "take (u - sz) b1 = take 8 blk @ cards_bytes xs @ cards_bytes ys"
    unfolding b1 using b(1,2) by (simp add: off_def tail_def)
  then have b2: "b2 = take 8 blk @ cards_bytes xs @ cards_bytes ys @ replicate sz 0 @ drop u b1"
    unfolding b2_def blit_def using b(2) by (simp add: sz_def ac_simps)
  have "length b1 = 512" using b by (simp add: b1_def sg tail_def)
  then have "length b2 = 512" using b by (simp add: b2_def)
  moreover have "drop 8 b2 = cards_bytes (xs @ ys) @ replicate sz 0 @ drop u b1" using b2 b(1) by simp
  ultimately have h: "block_holds (set_count_used b2 (length (xs @ ys)) (8 + length (cards_bytes (xs @ ys)))) (xs @ ys)"
    using b by (intro block_holds_header) (auto simp: off_def tail_def)
  have es: "cast16 (PACKED_ENTRY_HDR + pe_comp_len blk off) = sz"
    using card_fields(2) [OF assms] b(2,3) by (simp add: off_def sz_def PACKED_ENTRY_HDR_def)
  have ts: "u - off - sz = tail" "\<not> u < off + sz" "u - sz = 8 + length (cards_bytes (xs @ ys))" "blk_count blk - 1 = length (xs @ ys)"
    using b(2,4) by (auto simp: off_def tail_def)
  have "packed_cut blk off = Some (set_count_used b2 (length (xs @ ys)) (8 + length (cards_bytes (xs @ ys))))"
    unfolding packed_cut_def Let_def es u_def [symmetric] ts b1_def [symmetric]
    by (simp only: ts b2_def if_False flip: ts(3))
  with h show ?thesis unfolding off_def by blast
qed

end
