(* ===== verification/SdTable.thy ===== *)
theory SdTable
  imports SdHash KeyMap
begin

text \<open>
  The hash table of \<open>src/kv_sd.c\<close> refines a finite map when transfers succeed: a bucket is the list of its
  entries, the cache of buckets is coherent with the card, and inserting, looking up and removing act on the map that
  the two candidate buckets of each key make up.
\<close>

unbundle bit_operations_syntax

subsection \<open>A bucket as the list of its entries\<close>

definition bkt :: "byte list \<Rightarrow> (u32 \<times> u32) list" where
  "bkt buf = map (\<lambda>i. (rd32 buf (ht_at i), rd32 buf (ht_at i + 4))) [0..<ht_count buf]"

definition bucket_ok :: "byte list \<Rightarrow> bool" where
  "bucket_ok buf \<longleftrightarrow> length buf = 512 \<and> ht_count buf \<le> HT_ENTRIES_PER_BKT"

lemma length_bkt [simp]: "length (bkt buf) = ht_count buf"
  by (simp add: bkt_def)

lemma rd_blit:
  "i + 4 \<le> pos \<or> pos + length ys \<le> i \<Longrightarrow> pos + length ys \<le> length xs \<Longrightarrow> i + 4 \<le> length xs \<Longrightarrow> rd32 (blit xs pos ys) i = rd32 xs i"
  "i + 2 \<le> pos \<or> pos + length ys \<le> i \<Longrightarrow> pos + length ys \<le> length xs \<Longrightarrow> i + 2 \<le> length xs \<Longrightarrow> rd16 (blit xs pos ys) i = rd16 xs i"
  by (auto simp: rd32_def rd16_def nth_blit)

lemma rd_blit_same:
  "pos + 4 \<le> length xs \<Longrightarrow> rd32 (blit xs pos (bytes32 w)) pos = w"
  "pos + 2 \<le> length xs \<Longrightarrow> rd16 (blit xs pos (bytes16 v)) pos = unat v"
proof -
  assume "pos + 4 \<le> length xs"
  then show "rd32 (blit xs pos (bytes32 w)) pos = w"
    by (simp add: rd32_def nth_blit) (simp add: bytes32_def numeral_3_eq_3 numeral_2_eq_2)
next
  assume "pos + 2 \<le> length xs"
  then show "rd16 (blit xs pos (bytes16 v)) pos = unat v"
    by (simp add: rd16_def nth_blit) (simp add: bytes16_def)
qed

lemma rd_blit_entry:
  assumes "pos + 8 \<le> length xs"
  shows "rd32 (blit xs pos (bytes32 k @ bytes32 v)) pos = k" "rd32 (blit xs pos (bytes32 k @ bytes32 v)) (pos + 4) = v"
proof -
  have b: "blit xs pos (bytes32 k @ bytes32 v) = blit (blit xs pos (bytes32 k)) (pos + 4) (bytes32 v)"
    using assms by (intro nth_equalityI) (auto simp: nth_blit nth_append)
  show "rd32 (blit xs pos (bytes32 k @ bytes32 v)) pos = k"
    unfolding b using assms by (subst rd_blit(1)) (auto simp: rd_blit_same)
  show "rd32 (blit xs pos (bytes32 k @ bytes32 v)) (pos + 4) = v"
    unfolding b using assms by (simp add: rd_blit_same)
qed

lemma ht_at_bound: "i < HT_ENTRIES_PER_BKT \<Longrightarrow> ht_at i + 8 \<le> 512" "8 \<le> ht_at i"
  by (auto simp: ht_at_def HT_BUCKET_HDR_SIZE_def HT_ENTRIES_PER_BKT_def)

lemma ht_at_disjoint: "i \<noteq> j \<Longrightarrow> ht_at i + 8 \<le> ht_at j \<or> ht_at j + 8 \<le> ht_at i"
  by (auto simp: ht_at_def)

text \<open>Two buckets with the same entries.\<close>

lemma bkt_eqI:
  assumes "ht_count b' = length es" and "\<And>i. i < length es \<Longrightarrow> rd32 b' (ht_at i) = fst (es ! i) \<and> rd32 b' (ht_at i + 4) = snd (es ! i)"
  shows "bkt b' = es"
  using assms by (auto simp: bkt_def intro!: nth_equalityI)

lemma bkt_nth: "i < ht_count buf \<Longrightarrow> rd32 buf (ht_at i) = fst (bkt buf ! i)" "i < ht_count buf \<Longrightarrow> rd32 buf (ht_at i + 4) = snd (bkt buf ! i)"
  by (simp_all add: bkt_def)

lemma set_count_simps:
  assumes "length buf = 512" "n < 65536"
  shows "ht_count (ht_set_count buf n) = n" "length (ht_set_count buf n) = 512"
    "8 \<le> i \<Longrightarrow> i + 4 \<le> 512 \<Longrightarrow> rd32 (ht_set_count buf n) i = rd32 buf i"
  using assms by (simp_all add: ht_count_def ht_set_count_def rd_blit_same rd_blit unat_of_nat)

lemma ht_append_bkt:
  assumes "bucket_ok buf" "ht_count buf < HT_ENTRIES_PER_BKT"
  shows "bkt (ht_append_entry buf k v) = bkt buf @ [(k, v)]" "bucket_ok (ht_append_entry buf k v)"
proof -
  define n where "n = ht_count buf"
  define b1 where "b1 = blit buf (ht_at n) (bytes32 k @ bytes32 v)"
  have n: "n < HT_ENTRIES_PER_BKT" "ht_at n + 8 \<le> 512" "length buf = 512" "n + 1 < 65536"
    using assms ht_at_bound [of n] by (auto simp: n_def bucket_ok_def HT_ENTRIES_PER_BKT_def)
  have l: "length b1 = 512" using n by (simp add: b1_def)
  have e: "ht_append_entry buf k v = ht_set_count b1 (n + 1)" by (simp add: ht_append_entry_def b1_def n_def)
  show "bucket_ok (ht_append_entry buf k v)"
    unfolding e bucket_ok_def using n set_count_simps [OF l n(4)] by simp
  show "bkt (ht_append_entry buf k v) = bkt buf @ [(k, v)]"
    unfolding e
  proof (rule bkt_eqI)
    show "ht_count (ht_set_count b1 (n + 1)) = length (bkt buf @ [(k, v)])"
      using set_count_simps [OF l n(4)] by (simp add: n_def)
    fix i
    assume i: "i < length (bkt buf @ [(k, v)])"
    then have b: "ht_at i + 8 \<le> 512" "8 \<le> ht_at i" using n(1) ht_at_bound [of i] by (auto simp: n_def)
    have r: "rd32 (ht_set_count b1 (n + 1)) (ht_at i) = rd32 b1 (ht_at i)"
      "rd32 (ht_set_count b1 (n + 1)) (ht_at i + 4) = rd32 b1 (ht_at i + 4)"
      using b set_count_simps(3) [OF l n(4), of "ht_at i"] set_count_simps(3) [OF l n(4), of "ht_at i + 4"] by simp_all
    show "rd32 (ht_set_count b1 (n + 1)) (ht_at i) = fst ((bkt buf @ [(k, v)]) ! i)
      \<and> rd32 (ht_set_count b1 (n + 1)) (ht_at i + 4) = snd ((bkt buf @ [(k, v)]) ! i)"
    proof (cases "i = n")
      case True
      then show ?thesis using n rd_blit_entry [of "ht_at n" buf k v] unfolding r unfolding b1_def by (simp add: n_def nth_append)
    next
      case False
      then have "i < n" using i by (simp add: n_def)
      then show ?thesis using n b ht_at_disjoint [OF False]
        unfolding r unfolding b1_def by (auto simp: rd_blit bkt_nth nth_append n_def)
    qed
  qed
qed

lemma ht_set_slot_bkt:
  assumes "bucket_ok buf" "i < ht_count buf"
  shows "bkt (ht_set_slot buf i v) = (bkt buf)[i := (fst (bkt buf ! i), v)]" "bucket_ok (ht_set_slot buf i v)"
proof -
  have b: "ht_at i + 8 \<le> 512" "8 \<le> ht_at i" "length buf = 512"
    using assms ht_at_bound [of i] by (auto simp: bucket_ok_def)
  have c: "ht_count (ht_set_slot buf i v) = ht_count buf"
    using b by (simp add: ht_set_slot_def ht_count_def rd_blit)
  then show "bucket_ok (ht_set_slot buf i v)" using assms b by (simp add: bucket_ok_def ht_set_slot_def)
  show "bkt (ht_set_slot buf i v) = (bkt buf)[i := (fst (bkt buf ! i), v)]"
  proof (rule bkt_eqI)
    fix j
    assume "j < length ((bkt buf)[i := (fst (bkt buf ! i), v)])"
    then have j: "j < ht_count buf" "ht_at j + 8 \<le> 512" using assms ht_at_bound [of j] by (auto simp: bucket_ok_def)
    show "rd32 (ht_set_slot buf i v) (ht_at j) = fst ((bkt buf)[i := (fst (bkt buf ! i), v)] ! j)
      \<and> rd32 (ht_set_slot buf i v) (ht_at j + 4) = snd ((bkt buf)[i := (fst (bkt buf ! i), v)] ! j)"
    proof (cases "j = i")
      case True
      then show ?thesis using b j by (simp add: ht_set_slot_def rd_blit rd_blit_same bkt_nth)
    next
      case False
      then show ?thesis using b j ht_at_disjoint [OF False]
        unfolding ht_set_slot_def by (auto simp: rd_blit bkt_nth nth_list_update)
    qed
  qed (simp add: c)
qed

text \<open>Removing an entry: the last one takes its place.\<close>

definition drop_swap :: "'a list \<Rightarrow> nat \<Rightarrow> 'a list" where
  "drop_swap es i = butlast (es[i := last es])"

lemma ht_remove_bkt:
  assumes "bucket_ok buf" "i < ht_count buf"
  shows "bkt (ht_remove_entry buf i) = drop_swap (bkt buf) i" "bucket_ok (ht_remove_entry buf i)"
proof -
  define n where "n = ht_count buf - 1"
  have n: "ht_count buf = Suc n" "n < HT_ENTRIES_PER_BKT" "i \<le> n" "length buf = 512" using assms by (auto simp: n_def bucket_ok_def)
  have bi: "ht_at i + 8 \<le> 512" "ht_at n + 8 \<le> 512" "8 \<le> ht_at n"
    using n ht_at_bound [of i] ht_at_bound [of n] by auto
  define b1 where "b1 = (if i < n then blit buf (ht_at i) (segment (ht_at n) 8 buf) else buf)"
  define b2 where "b2 = blit b1 (ht_at n) (replicate 8 0)"
  have e: "ht_remove_entry buf i = ht_set_count b2 n"
    by (simp add: ht_remove_entry_def Let_def b1_def b2_def n_def)
  have sl: "length (segment (ht_at n) 8 buf) = 8" using bi n(4) by simp
  have l1: "length b1 = 512" using bi n(4) sl by (simp add: b1_def)
  have l: "length b2 = 512" "n < 65536" using bi l1 n(2) by (simp_all add: b2_def HT_ENTRIES_PER_BKT_def)
  show "bucket_ok (ht_remove_entry buf i)" unfolding e bucket_ok_def using n set_count_simps [OF l] by simp
  have sg: "rd32 (blit buf (ht_at i) (segment (ht_at n) 8 buf)) (ht_at i + d) = rd32 buf (ht_at n + d)" if "d = 0 \<or> d = 4" for d
    using that bi n(4) sl by (auto simp: rd32_def nth_blit ac_simps)
  have last: "last (bkt buf) = bkt buf ! n" using n(1) by (subst last_conv_nth) (auto simp: bkt_def)
  show "bkt (ht_remove_entry buf i) = drop_swap (bkt buf) i"
    unfolding e
  proof (rule bkt_eqI)
    show "ht_count (ht_set_count b2 n) = length (drop_swap (bkt buf) i)"
      using n set_count_simps [OF l] by (simp add: drop_swap_def)
    fix j
    assume "j < length (drop_swap (bkt buf) i)"
    then have j: "j < n" using n by (simp add: drop_swap_def)
    then have bj: "ht_at j + 8 \<le> 512" "8 \<le> ht_at j" "ht_at j + 8 \<le> ht_at n"
      using n(2) ht_at_bound [of j] by (auto simp: ht_at_def)
    have d: "drop_swap (bkt buf) i ! j = (if j = i then bkt buf ! n else bkt buf ! j)"
      using j n last by (auto simp: drop_swap_def nth_butlast nth_list_update)
    have r: "rd32 (ht_set_count b2 n) (ht_at j) = rd32 b1 (ht_at j)" "rd32 (ht_set_count b2 n) (ht_at j + 4) = rd32 b1 (ht_at j + 4)"
      using bj l1 bi set_count_simps(3) [OF l, of "ht_at j"] set_count_simps(3) [OF l, of "ht_at j + 4"]
      by (simp_all add: b2_def rd_blit)
    show "rd32 (ht_set_count b2 n) (ht_at j) = fst (drop_swap (bkt buf) i ! j)
      \<and> rd32 (ht_set_count b2 n) (ht_at j + 4) = snd (drop_swap (bkt buf) i ! j)"
    proof (cases "j = i")
      case True
      then show ?thesis using j n sg [of 0] sg [of 4] unfolding r d by (simp add: b1_def bkt_nth)
    next
      case False
      then have "rd32 b1 (ht_at j) = rd32 buf (ht_at j)" "rd32 b1 (ht_at j + 4) = rd32 buf (ht_at j + 4)"
        using bj n(4) sl bi ht_at_disjoint [OF False] by (auto simp: b1_def rd_blit)
      then show ?thesis using False j n unfolding r d by (simp add: bkt_nth)
    qed
  qed
qed

text \<open>The checksum is not part of the entries.\<close>

definition seal :: "byte list \<Rightarrow> byte list" where
  "seal buf = blit buf 0 (bytes16 (ht_crc16 (drop 2 buf)))"

definition sealed :: "byte list \<Rightarrow> bool" where
  "sealed buf \<longleftrightarrow> le16 (buf ! 0) (buf ! 1) = ht_crc16 (drop 2 buf)"

lemma seal_props:
  assumes "bucket_ok buf"
  shows "bkt (seal buf) = bkt buf" "bucket_ok (seal buf)" "sealed (seal buf)"
proof -
  have l: "length buf = 512" using assms by (simp add: bucket_ok_def)
  have c: "ht_count (seal buf) = ht_count buf" using l by (simp add: seal_def ht_count_def rd_blit)
  then show "bucket_ok (seal buf)" using assms l by (simp add: bucket_ok_def seal_def)
  show "bkt (seal buf) = bkt buf"
  proof (rule bkt_eqI)
    fix i
    assume "i < length (bkt buf)"
    then have i: "i < ht_count buf" "ht_at i + 8 \<le> 512" "8 \<le> ht_at i"
      using assms ht_at_bound [of i] by (auto simp: bucket_ok_def)
    then show "rd32 (seal buf) (ht_at i) = fst (bkt buf ! i) \<and> rd32 (seal buf) (ht_at i + 4) = snd (bkt buf ! i)"
      using l by (simp add: seal_def rd_blit bkt_nth)
  qed (simp add: c)
  have "drop 2 (seal buf) = drop 2 buf" using l by (simp add: seal_def blit_def numeral_2_eq_2)
  then show "sealed (seal buf)" using l by (simp add: sealed_def seal_def nth_blit) (simp add: bytes16_def)
qed

lemma bucket_ok_zero: "bucket_ok (replicate 512 0)" "bkt (replicate 512 0) = []"
  by (simp_all add: bucket_ok_def bkt_def ht_count_def rd16_def le16_def)

lemma ht_bucket_find_spec:
  "ht_bucket_find buf k = find (\<lambda>i. fst (bkt buf ! i) = k) [0..<ht_count buf]"
  unfolding ht_bucket_find_def by (rule find_cong) (auto simp: bkt_nth)

lemma find_key:
  "case find (\<lambda>i. fst (es ! i) = k) [0..<length es] of None \<Rightarrow> map_of es k = None
   | Some i \<Rightarrow> i < length es \<and> fst (es ! i) = k \<and> map_of es k = Some (snd (es ! i))"
proof (cases "find (\<lambda>i. fst (es ! i) = k) [0..<length es]")
  case None
  then have "\<forall>i < length es. fst (es ! i) \<noteq> k" by (auto simp: find_None_iff)
  then have "k \<notin> fst ` set es" by (metis (mono_tags) image_iff in_set_conv_nth)
  with None show ?thesis by (simp add: map_of_eq_None_iff)
next
  case (Some i)
  then have i: "i < length es" "fst (es ! i) = k" "\<forall>j < i. fst (es ! j) \<noteq> k"
    by (auto simp: find_Some_iff)
  have es: "es = take i es @ (k, snd (es ! i)) # drop (Suc i) es"
    using id_take_nth_drop [OF i(1)] i(2) by (metis prod.collapse)
  have "map_of (take i es) k = None"
    using i(1,3) by (auto simp: map_of_eq_None_iff in_set_conv_nth) (metis fst_conv)
  then have "map_of es k = Some (snd (es ! i))" by (subst es) (simp add: map_add_def)
  with Some i show ?thesis by simp
qed

lemma bucket_find:
  "case ht_bucket_find buf k of None \<Rightarrow> map_of (bkt buf) k = None
   | Some i \<Rightarrow> i < ht_count buf \<and> fst (bkt buf ! i) = k \<and> map_of (bkt buf) k = Some (snd (bkt buf ! i))"
  using find_key [of "bkt buf" k, unfolded length_bkt] by (simp only: ht_bucket_find_spec)

lemma bucket_get: "ht_bucket_get_slot buf k = (case map_of (bkt buf) k of None \<Rightarrow> - 1 | Some v \<Rightarrow> sint v)"
  using bucket_find [of buf k] by (auto simp: ht_bucket_get_slot_def bkt_nth split: option.splits)

lemma map_of_drop_swap:
  assumes "distinct (map fst es)" "i < length es" "fst (es ! i) = k"
  shows "distinct (map fst (drop_swap es i))" "map_of (drop_swap es i) = (map_of es)(k := None)"
    "set (drop_swap es i) \<subseteq> set es"
proof -
  define xs ys z where "xs = take i es" and "ys = drop (Suc i) es" and "z = es ! i"
  have es: "es = xs @ z # ys" "length xs = i" using assms(2) by (simp_all add: xs_def ys_def z_def id_take_nth_drop)
  obtain v where z: "z = (k, v)" using assms(3) by (cases z) (simp add: z_def)
  have nk: "k \<notin> fst ` set xs" "k \<notin> fst ` set ys" using assms(1) es(1) z by auto
  have "distinct (map fst (drop_swap es i)) \<and> map_of (drop_swap es i) = (map_of es)(k := None) \<and> set (drop_swap es i) \<subseteq> set es"
  proof (cases ys rule: rev_cases)
    case Nil
    then have "drop_swap es i = xs" using es by (simp add: drop_swap_def list_update_append)
    moreover have "map_of xs k = None" using nk by (simp add: map_of_eq_None_iff)
    then have "map_of xs = (map_of es)(k := None)"
      unfolding es(1) z Nil by (auto simp: fun_eq_iff map_add_def split: option.split)
    ultimately show ?thesis using assms(1) es(1) by auto
  next
    case (snoc ys' w)
    have ds: "drop_swap es i = xs @ w # ys'"
      using es snoc by (simp add: drop_swap_def list_update_append butlast_append)
    have d: "distinct (map fst (xs @ z # ys' @ [w]))" using assms(1) es(1) snoc by simp
    have "map_of xs k = None" "map_of xs (fst w) = None" "map_of ys' k = None" "map_of ys' (fst w) = None" "fst w \<noteq> k"
      using nk d z unfolding map_of_eq_None_iff by (auto simp: snoc)
    then have "map_of (xs @ w # ys') = (map_of es)(k := None)"
      unfolding es(1) z snoc by (cases w) (auto simp: fun_eq_iff map_add_def split: option.split)
    then show ?thesis using d unfolding ds by (auto simp: es(1) snoc)
  qed
  then show "distinct (map fst (drop_swap es i))" "map_of (drop_swap es i) = (map_of es)(k := None)"
    "set (drop_swap es i) \<subseteq> set es" by auto
qed

end
