(* ===== verification/SdCache.thy ===== *)
theory SdCache
  imports SdHash
begin

text \<open>
  The two caches of \<open>src/kv_sd.c\<close>, of data blocks and of hash buckets, are lists of lines with the same search,
  ageing and eviction. A coherent cache holds, for each number at most once, what the card holds.
\<close>

definition cache_ok :: "(u32 \<Rightarrow> byte list) \<Rightarrow> (u32 \<Rightarrow> bool) \<Rightarrow> cache_line list \<Rightarrow> bool" where
  "cache_ok view ok cs \<longleftrightarrow> cs \<noteq> []
     \<and> (\<forall>i < length cs. cl_valid (cs ! i) \<longrightarrow> ok (cl_num (cs ! i)) \<and> cl_data (cs ! i) = view (cl_num (cs ! i)))
     \<and> (\<forall>i < length cs. \<forall>j < length cs. cl_valid (cs ! i) \<longrightarrow> cl_valid (cs ! j) \<longrightarrow> cl_num (cs ! i) = cl_num (cs ! j) \<longrightarrow> i = j)"

text \<open>All lines invalid, as at boot.\<close>

definition cold_cache :: "nat \<Rightarrow> cache_line list" where
  "cold_cache n = replicate n \<lparr>cl_num = 0, cl_data = replicate 512 0, cl_age = 0, cl_valid = False\<rparr>"

lemma cache_ok_cold: "0 < n \<Longrightarrow> cache_ok view ok (cold_cache n)"
  by (simp add: cache_ok_def cold_cache_def)

lemma cache_find_Some: "cache_find cs b = Some i \<Longrightarrow> i < length cs \<and> cl_valid (cs ! i) \<and> cl_num (cs ! i) = b"
  by (auto simp: cache_find_def find_Some_iff)

lemma cache_find_None: "cache_find cs b = None \<Longrightarrow> i < length cs \<Longrightarrow> cl_valid (cs ! i) \<Longrightarrow> cl_num (cs ! i) \<noteq> b"
  by (auto simp: cache_find_def find_None_iff)

lemma cache_hit: "cache_ok view ok cs \<Longrightarrow> cache_find cs b = Some i \<Longrightarrow> cl_data (cs ! i) = view b \<and> ok b"
  using cache_find_Some [of cs b i] by (auto simp: cache_ok_def)

text \<open>Ageing changes neither the number, the data nor the validity of a line.\<close>

lemma length_cache_touch [simp]: "length (cache_touch cs i) = length cs"
  by (simp add: cache_touch_def Let_def)

lemma cache_touch_nth:
  assumes "i < length cs" "j < length cs"
  shows "cl_num (cache_touch cs i ! j) = cl_num (cs ! j)" "cl_data (cache_touch cs i ! j) = cl_data (cs ! j)"
    "cl_valid (cache_touch cs i ! j) = cl_valid (cs ! j)"
  using assms by (simp_all add: cache_touch_def Let_def nth_list_update)

lemma cache_ok_touch: "cache_ok view ok cs \<Longrightarrow> i < length cs \<Longrightarrow> cache_ok view ok (cache_touch cs i)"
  by (auto simp: cache_ok_def cache_touch_nth simp flip: length_0_conv)

lemma cache_evict_less: "i \<le> n \<Longrightarrow> n = i + length cs \<Longrightarrow> e < n \<Longrightarrow> cache_evict cs i e m < n"
  by (induction cs i e m rule: cache_evict.induct) auto

lemma cache_evict_bound: "cs \<noteq> [] \<Longrightarrow> cache_evict cs 0 0 0 < length cs"
  using cache_evict_less [of 0 "length cs" cs 0 0] by simp

lemma cache_ok_update:
  assumes "cache_ok view ok cs" "i < length cs" "ok (cl_num c)" "cl_data c = view (cl_num c)"
    "\<And>j. j < length cs \<Longrightarrow> j \<noteq> i \<Longrightarrow> cl_valid (cs ! j) \<Longrightarrow> cl_num (cs ! j) \<noteq> cl_num c"
  shows "cache_ok view ok (cs[i := c])"
  unfolding cache_ok_def
proof (intro conjI allI impI)
  show "cs[i := c] \<noteq> []" using assms(1) by (simp add: cache_ok_def)
next
  fix j
  assume "j < length (cs[i := c])" "cl_valid (cs[i := c] ! j)"
  then show "ok (cl_num (cs[i := c] ! j))" "cl_data (cs[i := c] ! j) = view (cl_num (cs[i := c] ! j))"
    using assms by (auto simp: nth_list_update cache_ok_def)
next
  fix j l
  assume "j < length (cs[i := c])" "l < length (cs[i := c])" "cl_valid (cs[i := c] ! j)" "cl_valid (cs[i := c] ! l)"
    "cl_num (cs[i := c] ! j) = cl_num (cs[i := c] ! l)"
  then show "j = l"
    using assms(5) [of l] assms(5) [of j] assms(1,2) by (auto simp: nth_list_update cache_ok_def split: if_splits)
qed

lemma cache_ok_invalidate:
  assumes "cache_ok view ok cs" "\<And>b'. b' \<noteq> b \<Longrightarrow> ok b' \<Longrightarrow> view' b' = view b'"
  shows "cache_ok view' ok (map (\<lambda>c. if cl_valid c \<and> cl_num c = b then c\<lparr>cl_valid := False\<rparr> else c) cs)"
  using assms(1) unfolding cache_ok_def by (auto simp: assms(2) split: if_splits)

lemma cache_ok_view: "cache_ok view ok cs \<Longrightarrow> (\<And>b. ok b \<Longrightarrow> view' b = view b) \<Longrightarrow> cache_ok view' ok cs"
  unfolding cache_ok_def by auto

text \<open>A write to the card updates the line of its number, when there is one.\<close>

lemma cache_ok_write:
  assumes "cache_ok view ok cs" "cache_find cs b = Some i"
  shows "cache_ok (view(b := d)) ok (cs[i := (cs ! i)\<lparr>cl_data := d\<rparr>])"
proof -
  have i: "i < length cs" "cl_valid (cs ! i)" "cl_num (cs ! i) = b" using cache_find_Some [OF assms(2)] by auto
  have u: "cl_num (cs ! j) \<noteq> b" if "j < length cs" "cl_valid (cs ! j)" "j \<noteq> i" for j
    using assms(1) i that unfolding cache_ok_def by blast
  have n: "cl_num (cs[i := (cs ! i)\<lparr>cl_data := d\<rparr>] ! j) = cl_num (cs ! j)"
    "cl_valid (cs[i := (cs ! i)\<lparr>cl_data := d\<rparr>] ! j) = cl_valid (cs ! j)" if "j < length cs" for j
    using that i(1) by (cases "j = i"; simp)+
  show ?thesis
    using assms(1) i u unfolding cache_ok_def by (auto simp: n nth_list_update)
qed

lemma cache_ok_write_miss: "cache_ok view ok cs \<Longrightarrow> cache_find cs b = None \<Longrightarrow> cache_ok (view(b := d)) ok cs"
  using cache_find_None [of cs b] unfolding cache_ok_def by auto

subsection \<open>A blank card\<close>

text \<open>A device with a zeroed card on which every transfer succeeds, an erased flash chip and cold caches.\<close>

definition sd_blank :: sd_state where
  "sd_blank = \<lparr>sd_blocks = (\<lambda>b. replicate 512 0), sd_ok = (\<lambda>n. True), sd_ops = 0, sd_info = Some (20000, 9), sd_flash = (\<lambda>a. 0xFF),
     g_fidx_sequence = 0, g_fidx_count = 0, g_sb = sb_of_bytes (replicate 512 0), g_sram = [], g_ready = False,
     g_open_blk = replicate 512 0, g_open_cached = False, g_data_cache = cold_cache DATA_CACHE_SLOTS, g_ht_cache = cold_cache HT_CACHE_SLOTS\<rparr>"

end
