(* ===== verification/SdTableMap.thy ===== *)
theory SdTableMap
  imports SdTable SdCache
begin

text \<open>
  The hash table of \<open>src/kv_sd.c\<close> as a finite map. First the table as a function from bucket numbers to entry
  lists, then the operations of the code as updates of that function, through the cache and the card.
\<close>

subsection \<open>Tables of buckets\<close>

type_synonym table = "u32 \<Rightarrow> (u32 \<times> u32) list"

definition table_map :: "u32 \<Rightarrow> table \<Rightarrow> u32 \<Rightarrow> u32 option" where
  "table_map n tb k = (case map_of (tb (ht_hash1 k mod n)) k of Some v \<Rightarrow> Some v | None \<Rightarrow> map_of (tb (ht_hash2 k mod n)) k)"

definition key_bucket :: "u32 \<Rightarrow> u32 \<Rightarrow> u32 \<Rightarrow> bool" where
  "key_bucket n k b \<longleftrightarrow> b = ht_hash1 k mod n \<or> b = ht_hash2 k mod n"

text \<open>Keys are in one of their two buckets, once, and slots are not negative as \<open>int32_t\<close>.\<close>

definition table_ok :: "u32 \<Rightarrow> table \<Rightarrow> bool" where
  "table_ok n tb \<longleftrightarrow> (\<forall>b < n. distinct (map fst (tb b)) \<and> (\<forall>(k, v) \<in> set (tb b). key_bucket n k b \<and> 0 \<le> sint v))
     \<and> (\<forall>b < n. \<forall>b' < n. \<forall>k. map_of (tb b) k \<noteq> None \<longrightarrow> map_of (tb b') k \<noteq> None \<longrightarrow> b = b')"

lemma table_ok_bucket: "table_ok n tb \<Longrightarrow> b < n \<Longrightarrow> map_of (tb b) k = Some v \<Longrightarrow> key_bucket n k b \<and> 0 \<le> sint v"
  unfolding table_ok_def using map_of_SomeD [of "tb b" k v] by fastforce

lemma table_ok_distinct: "table_ok n tb \<Longrightarrow> b < n \<Longrightarrow> distinct (map fst (tb b))"
  by (simp add: table_ok_def)

lemma table_ok_once: "table_ok n tb \<Longrightarrow> b < n \<Longrightarrow> b' < n \<Longrightarrow> map_of (tb b) k = Some v \<Longrightarrow> b' \<noteq> b \<Longrightarrow> map_of (tb b') k = None"
  unfolding table_ok_def by (metis option.distinct(1))

lemma mod_less_u32: "0 < (n :: u32) \<Longrightarrow> x mod n < n"
  by (simp add: word_mod_less_divisor)

lemma table_map_eq:
  assumes "table_ok n tb" "0 < n" "b < n" "map_of (tb b) k = Some v"
  shows "table_map n tb k = Some v"
proof -
  have "b = ht_hash1 k mod n \<or> b = ht_hash2 k mod n" using table_ok_bucket [OF assms(1,3,4)] by (simp add: key_bucket_def)
  then show ?thesis
  proof (cases "b = ht_hash1 k mod n")
    case False
    with \<open>b = _ \<or> _\<close> have "b = ht_hash2 k mod n" "ht_hash1 k mod n \<noteq> b" by auto
    then show ?thesis using table_ok_once [OF assms(1,3) mod_less_u32 [OF assms(2)] assms(4)] assms(4)
      by (simp add: table_map_def)
  qed (use assms(4) in \<open>simp add: table_map_def\<close>)
qed

lemma table_map_None:
  assumes "table_ok n tb" "0 < n"
  shows "table_map n tb k = None \<longleftrightarrow> (\<forall>b < n. map_of (tb b) k = None)"
  using table_map_eq [OF assms, of _ k] mod_less_u32 [OF assms(2)]
  by (auto simp: table_map_def split: option.split) (metis option.exhaust)

text \<open>One bucket changes at one key.\<close>

lemma table_update:
  assumes ok: "table_ok n tb" and n: "0 < n" and b: "b < n" and d: "distinct (map fst es)"
    and es: "map_of es = (map_of (tb b))(k := x)"
    and x: "\<And>v. x = Some v \<Longrightarrow> key_bucket n k b \<and> 0 \<le> sint v"
    and other: "\<And>b'. b' < n \<Longrightarrow> b' \<noteq> b \<Longrightarrow> map_of (tb b') k = None"
  shows "table_ok n (tb(b := es))" and "table_map n (tb(b := es)) = (table_map n tb)(k := x)"
proof -
  let ?t = "tb(b := es)"
  have m: "map_of (?t b') k' = (if k' = k then if b' = b then x else None else map_of (tb b') k')" if "b' < n" for b' k'
    using that other [OF that] by (auto simp: es)
  show ok': "table_ok n ?t"
    unfolding table_ok_def
  proof (intro conjI allI impI)
    fix b'
    assume b': "b' < n"
    show dd: "distinct (map fst (?t b'))" using d table_ok_distinct [OF ok b'] by simp
    show "\<forall>(k, v) \<in> set (?t b'). key_bucket n k b' \<and> 0 \<le> sint v"
    proof clarify
      fix k' v
      assume "(k', v) \<in> set (?t b')"
      then have "map_of (?t b') k' = Some v" using dd by simp
      then show "key_bucket n k' b' \<and> 0 \<le> sint v"
        using m [OF b', of k'] x [of v] table_ok_bucket [OF ok b', of k' v] by (auto split: if_splits)
    qed
  next
    fix b' b'' k'
    assume a: "b' < n" "b'' < n" "map_of (?t b') k' \<noteq> None" "map_of (?t b'') k' \<noteq> None"
    then show "b' = b''"
      using m [OF a(1), of k'] m [OF a(2), of k'] table_ok_once [OF ok a(1,2), of k'] by (auto split: if_splits)
  qed
  show "table_map n ?t = (table_map n tb)(k := x)"
  proof
    fix k'
    show "table_map n ?t k' = ((table_map n tb)(k := x)) k'"
    proof (cases "k' = k")
      case True
      show ?thesis
      proof (cases x)
        case None
        then have "\<forall>b' < n. map_of (?t b') k = None" using m [of _ k] by auto
        then show ?thesis using table_map_None [OF ok' n, of k] True None by simp
      next
        case (Some v)
        then have "map_of (?t b) k = Some v" by (simp add: es)
        from table_map_eq [OF ok' n b this] True Some show ?thesis by (simp only: fun_upd_same)
      qed
    next
      case False
      then have m1: "map_of (?t (y mod n)) k' = map_of (tb (y mod n)) k'" for y
        using m [OF mod_less_u32 [OF n], of y k'] by simp
      show ?thesis using False unfolding table_map_def m1 by (simp add: table_map_def)
    qed
  qed
qed

subsection \<open>Buckets on the card\<close>

definition bucket_addr :: "sd_state \<Rightarrow> u32 \<Rightarrow> u32" where
  "bucket_addr s i = sb_hashtab_start (g_sb s) + i"

text \<open>What the code sees of a bucket: a bad checksum or count is an empty bucket.\<close>

definition bucket_view :: "sd_state \<Rightarrow> u32 \<Rightarrow> byte list" where
  "bucket_view s i = (let buf = sd_blocks s (bucket_addr s i) in
     if sealed buf \<and> ht_count buf \<le> HT_ENTRIES_PER_BKT then buf else replicate 512 0)"

abbreviation ht_blocks :: "sd_state \<Rightarrow> u32" where
  "ht_blocks s \<equiv> sb_hashtab_blocks (g_sb s)"

definition tbl :: "sd_state \<Rightarrow> table" where
  "tbl s i = bkt (bucket_view s i)"

definition ht_ready :: "sd_state \<Rightarrow> bool" where
  "ht_ready s \<longleftrightarrow> (\<forall>n. sd_ok s n) \<and> (\<forall>b. length (sd_blocks s b) = 512)
     \<and> cache_ok (bucket_view s) (\<lambda>i. i < ht_blocks s) (g_ht_cache s)"

text \<open>What an operation on the table leaves alone: everything but its cache and its blocks.\<close>

definition ht_frame :: "sd_state \<Rightarrow> sd_state \<Rightarrow> bool" where
  "ht_frame s s' \<longleftrightarrow> s' = s\<lparr>sd_blocks := sd_blocks s', sd_ops := sd_ops s', g_ht_cache := g_ht_cache s'\<rparr>
     \<and> (\<forall>a. (\<forall>i < ht_blocks s. a \<noteq> bucket_addr s i) \<longrightarrow> sd_blocks s' a = sd_blocks s a)"

lemma ht_frame_simps:
  assumes "ht_frame s s'"
  shows "sd_ok s' = sd_ok s" "sd_info s' = sd_info s" "sd_flash s' = sd_flash s" "g_fidx_sequence s' = g_fidx_sequence s"
    "g_fidx_count s' = g_fidx_count s" "g_sb s' = g_sb s" "g_sram s' = g_sram s" "g_ready s' = g_ready s"
    "g_open_blk s' = g_open_blk s" "g_open_cached s' = g_open_cached s" "g_data_cache s' = g_data_cache s"
proof -
  obtain B m c where s': "s' = s\<lparr>sd_blocks := B, sd_ops := m, g_ht_cache := c\<rparr>" using assms unfolding ht_frame_def by blast
  show "sd_ok s' = sd_ok s" "sd_info s' = sd_info s" "sd_flash s' = sd_flash s" "g_fidx_sequence s' = g_fidx_sequence s"
    "g_fidx_count s' = g_fidx_count s" "g_sb s' = g_sb s" "g_sram s' = g_sram s" "g_ready s' = g_ready s"
    "g_open_blk s' = g_open_blk s" "g_open_cached s' = g_open_cached s" "g_data_cache s' = g_data_cache s"
    by (simp_all add: s')
qed

lemma bucket_addr_frame: "ht_frame s s' \<Longrightarrow> bucket_addr s' i = bucket_addr s i"
  by (simp add: bucket_addr_def ht_frame_simps)

lemma ht_frame_refl [simp]: "ht_frame s s"
  by (simp add: ht_frame_def)

lemma ht_frame_trans: "ht_frame s s1 \<Longrightarrow> ht_frame s1 s2 \<Longrightarrow> ht_frame s s2"
proof -
  assume a: "ht_frame s s1" "ht_frame s1 s2"
  have "s2 = s\<lparr>sd_blocks := sd_blocks s2, sd_ops := sd_ops s2, g_ht_cache := g_ht_cache s2\<rparr>"
    using ht_frame_simps [OF a(1)] ht_frame_simps [OF a(2)] by (cases s, cases s2) simp
  moreover have "sd_blocks s2 b = sd_blocks s b" if "\<forall>i < ht_blocks s. b \<noteq> bucket_addr s i" for b
    using that a(2) a(1) unfolding ht_frame_def by (metis bucket_addr_frame [OF a(1)] ht_frame_simps(6) [OF a(1)])
  ultimately show ?thesis by (simp add: ht_frame_def)
qed

text \<open>Only the blocks matter for what the table holds.\<close>

lemma tbl_frame: "ht_frame s s' \<Longrightarrow> sd_blocks s' = sd_blocks s \<Longrightarrow> tbl s' = tbl s \<and> bucket_view s' = bucket_view s"
  by (simp add: tbl_def bucket_view_def bucket_addr_frame fun_eq_iff)

lemma bucket_view_ok: "ht_ready s \<Longrightarrow> bucket_ok (bucket_view s i)"
  by (auto simp: ht_ready_def bucket_view_def Let_def bucket_ok_def bucket_ok_zero [unfolded bucket_ok_def])

lemma sd_read_ok: "(\<forall>n. sd_ok s n) \<Longrightarrow> sd_read_block s b = (Some (sd_blocks s b), s\<lparr>sd_ops := sd_ops s + 1\<rparr>)"
  by (simp add: sd_read_block_def)

lemma sd_write_ok:
  "(\<forall>n. sd_ok s n) \<Longrightarrow> sd_write_block s b buf = (True, s\<lparr>sd_ops := sd_ops s + 1, sd_blocks := (sd_blocks s)(b := buf)\<rparr>)"
  by (simp add: sd_write_block_def Let_def)

lemma ht_read_spec:
  assumes "ht_ready s" "i < ht_blocks s"
  shows "\<exists>s'. ht_read_bucket s i = (Some (bucket_view s i), s') \<and> ht_frame s s' \<and> ht_ready s' \<and> sd_blocks s' = sd_blocks s"
proof -
  have ok: "\<forall>n. sd_ok s n" and len: "\<forall>b. length (sd_blocks s b) = 512"
    and c: "cache_ok (bucket_view s) (\<lambda>i. i < ht_blocks s) (g_ht_cache s)" using assms(1) by (auto simp: ht_ready_def)
  have view: "bucket_view (s\<lparr>sd_ops := m, g_ht_cache := cs\<rparr>) = bucket_view s" for m cs
    by (simp add: bucket_view_def bucket_addr_def fun_eq_iff)
  have ready: "ht_ready (s\<lparr>sd_ops := m, g_ht_cache := cs\<rparr>)" if "cache_ok (bucket_view s) (\<lambda>i. i < ht_blocks s) cs" for m cs
    using that ok len by (simp add: ht_ready_def view)
  have frame: "ht_frame s (s\<lparr>sd_ops := m, g_ht_cache := cs\<rparr>)" for m cs by (simp add: ht_frame_def)
  show ?thesis
  proof (cases "cache_find (g_ht_cache s) i")
    case (Some j)
    then have "cl_data (g_ht_cache s ! j) = bucket_view s i" "j < length (g_ht_cache s)"
      using cache_hit [OF c Some] cache_find_Some [OF Some] by auto
    then show ?thesis using Some assms(2) cache_ok_touch [OF c, of j]
        ready [where m = "sd_ops s" and cs = "cache_touch (g_ht_cache s) j"] frame [where m = "sd_ops s" and cs = "cache_touch (g_ht_cache s) j"]
      by (simp add: ht_read_bucket_def)
  next
    case None
    define buf where "buf = sd_blocks s (bucket_addr s i)"
    define s1 where "s1 = s\<lparr>sd_ops := sd_ops s + 1\<rparr>"
    have rd: "sd_read_block s (sb_hashtab_start (g_sb s) + i) = (Some buf, s1)"
      using sd_read_ok [OF ok] by (simp add: buf_def s1_def bucket_addr_def)
    show ?thesis
    proof (cases "sealed buf \<and> ht_count buf \<le> HT_ENTRIES_PER_BKT")
      case False
      then have "bucket_view s i = replicate 512 0" by (auto simp: bucket_view_def Let_def buf_def)
      moreover have "ht_read_bucket s i = (Some (replicate 512 0), s1)"
        using False None assms(2) rd by (simp add: ht_read_bucket_def sealed_def not_le)
      moreover have "ht_ready s1" "ht_frame s s1" "sd_blocks s1 = sd_blocks s"
        using ready [where m = "sd_ops s + 1", OF c] frame [where m = "sd_ops s + 1" and cs = "g_ht_cache s"] by (simp_all add: s1_def)
      ultimately show ?thesis by simp
    next
      case True
      then have v: "bucket_view s i = buf" by (simp add: bucket_view_def Let_def buf_def)
      define e where "e = cache_evict (g_ht_cache s) 0 0 0"
      define l where "l = (g_ht_cache s ! e)\<lparr>cl_num := i, cl_data := buf, cl_valid := True\<rparr>"
      have e: "e < length (g_ht_cache s)" using c cache_evict_bound by (auto simp: cache_ok_def e_def)
      define cs where "cs = cache_touch ((g_ht_cache s)[e := l]) e"
      have "cache_ok (bucket_view s) (\<lambda>i. i < ht_blocks s) cs"
        unfolding cs_def using e assms(2) v cache_find_None [OF None]
        by (intro cache_ok_touch cache_ok_update [OF c e]) (auto simp: l_def)
      moreover have "ht_read_bucket s i = (Some buf, s\<lparr>sd_ops := sd_ops s + 1, g_ht_cache := cs\<rparr>)"
        using True None assms(2) rd by (auto simp: ht_read_bucket_def sealed_def ht_cache_store_def Let_def s1_def cs_def l_def e_def)
      ultimately show ?thesis using v ready [where m = "sd_ops s + 1" and cs = cs] frame [where m = "sd_ops s + 1" and cs = cs] by simp
    qed
  qed
qed

lemma ht_write_spec:
  assumes "ht_ready s" "i < ht_blocks s" "bucket_ok buf"
  shows "\<exists>s'. ht_write_bucket s i buf = (True, s') \<and> ht_frame s s' \<and> ht_ready s' \<and> tbl s' = (tbl s)(i := bkt buf)"
proof -
  have ok: "\<forall>n. sd_ok s n" and len: "\<forall>b. length (sd_blocks s b) = 512"
    and c: "cache_ok (bucket_view s) (\<lambda>i. i < ht_blocks s) (g_ht_cache s)" using assms(1) by (auto simp: ht_ready_def)
  note sl = seal_props [OF assms(3)]
  define s1 where "s1 cs = s\<lparr>sd_ops := sd_ops s + 1, sd_blocks := (sd_blocks s)(bucket_addr s i := seal buf), g_ht_cache := cs\<rparr>" for cs
  have s1: "s\<lparr>sd_ops := sd_ops s + 1, sd_blocks := (sd_blocks s)(bucket_addr s i := seal buf)\<rparr> = s1 (g_ht_cache s)"
    "s1 cs\<lparr>g_ht_cache := cs'\<rparr> = s1 cs'" "g_ht_cache (s1 cs) = cs" for cs cs' by (simp_all add: s1_def)
  have wr: "sd_write_block s (bucket_addr s i) (seal buf) = (True, s1 (g_ht_cache s))"
    unfolding s1(1) [symmetric] by (rule sd_write_ok [OF ok])
  have view: "bucket_view (s1 cs) = (bucket_view s)(i := seal buf)" for cs
  proof
    fix j
    show "bucket_view (s1 cs) j = ((bucket_view s)(i := seal buf)) j"
      using sl(2,3) by (cases "j = i") (auto simp: bucket_view_def bucket_addr_def s1_def Let_def bucket_ok_def)
  qed
  have good: "ht_frame s (s1 cs) \<and> ht_ready (s1 cs) \<and> tbl (s1 cs) = (tbl s)(i := bkt buf)"
    if "cache_ok ((bucket_view s)(i := seal buf)) (\<lambda>i. i < ht_blocks s) cs" for cs
  proof (intro conjI)
    show "ht_frame s (s1 cs)" using assms(2) by (auto simp: ht_frame_def s1_def)
    show "ht_ready (s1 cs)" using that ok len sl(2) view [of cs] by (auto simp: ht_ready_def s1_def bucket_ok_def)
    show "tbl (s1 cs) = (tbl s)(i := bkt buf)" by (auto simp: tbl_def view sl(1) fun_eq_iff)
  qed
  show ?thesis
  proof (cases "cache_find (g_ht_cache s) i")
    case None
    then have "ht_write_bucket s i buf = (True, s1 (g_ht_cache s))"
      using assms(2) wr by (simp add: ht_write_bucket_def seal_def Let_def bucket_addr_def s1(3))
    then show ?thesis using good [OF cache_ok_write_miss [OF c None]] by blast
  next
    case (Some j)
    define cs where "cs = cache_touch ((g_ht_cache s)[j := (g_ht_cache s ! j)\<lparr>cl_data := seal buf\<rparr>]) j"
    have "ht_write_bucket s i buf = (True, s1 cs)"
      using Some assms(2) wr by (simp add: ht_write_bucket_def seal_def Let_def bucket_addr_def s1(2,3) cs_def)
    moreover have "cache_ok ((bucket_view s)(i := seal buf)) (\<lambda>i. i < ht_blocks s) cs"
      unfolding cs_def using cache_find_Some [OF Some] by (intro cache_ok_touch cache_ok_write [OF c Some]) simp
    ultimately show ?thesis using good by blast
  qed
qed

subsection \<open>The operations\<close>

definition ht_inv :: "sd_state \<Rightarrow> bool" where
  "ht_inv s \<longleftrightarrow> ht_ready s \<and> 0 < ht_blocks s \<and> table_ok (ht_blocks s) (tbl s)"

definition ht_map :: "sd_state \<Rightarrow> u32 \<Rightarrow> u32 option" where
  "ht_map s = table_map (ht_blocks s) (tbl s)"

lemma ht_inv_frame:
  assumes "ht_frame s s'" "ht_ready s'" "tbl s' = tbl s" "ht_inv s"
  shows "ht_inv s'" "ht_map s' = ht_map s"
  using assms by (simp_all add: ht_inv_def ht_map_def ht_frame_simps(6))

lemma ht_map_bucket:
  assumes "ht_inv s" "map_of (tbl s b) k = Some v" "b < ht_blocks s"
  shows "ht_map s k = Some v" "0 \<le> sint v"
  using assms table_map_eq [of "ht_blocks s" "tbl s" b k v] table_ok_bucket [of "ht_blocks s" "tbl s" b k v]
  by (auto simp: ht_inv_def ht_map_def)

lemma ht_map_sint: "ht_inv s \<Longrightarrow> ht_map s k = Some v \<Longrightarrow> 0 \<le> sint v"
  using table_ok_bucket [of "ht_blocks s" "tbl s" _ k v] mod_less_u32 [of "ht_blocks s"]
  unfolding ht_inv_def ht_map_def table_map_def by (metis option.case_eq_if option.collapse option.sel)

lemma ht_buckets_less:
  assumes "ht_inv s"
  shows "ht_bucket1 s k < ht_blocks s" "ht_bucket2 s k < ht_blocks s"
  using assms by (simp_all add: ht_inv_def ht_bucket1_def ht_bucket2_def mod_less_u32)

lemma ht_map_buckets: "ht_map s k = (case map_of (tbl s (ht_bucket1 s k)) k of Some v \<Rightarrow> Some v | None \<Rightarrow> map_of (tbl s (ht_bucket2 s k)) k)"
  unfolding ht_map_def table_map_def ht_bucket1_def ht_bucket2_def ..

lemma ht_read_inv:
  assumes "ht_inv s" "i < ht_blocks s"
  obtains s' where "ht_read_bucket s i = (Some (bucket_view s i), s')" "ht_frame s s'" "ht_inv s'" "ht_map s' = ht_map s"
    "tbl s' = tbl s" "bucket_view s' = bucket_view s"
proof -
  from ht_read_spec [of s i] assms obtain s' where s': "ht_read_bucket s i = (Some (bucket_view s i), s')" "ht_frame s s'" "ht_ready s'"
    "sd_blocks s' = sd_blocks s" by (auto simp: ht_inv_def)
  note t = tbl_frame [OF s'(2,4)]
  from that [OF s'(1,2)] ht_inv_frame [OF s'(2,3) _ assms(1)] t show ?thesis by blast
qed

lemma ht_slot_view: "ht_bucket_get_slot (bucket_view s b) k = (case map_of (tbl s b) k of None \<Rightarrow> - 1 | Some v \<Rightarrow> sint v)"
  by (simp add: bucket_get tbl_def)

lemma ht_lookup_spec:
  assumes "ht_inv s"
  shows "\<exists>s'. ht_lookup s k = ((case ht_map s k of None \<Rightarrow> - 1 | Some v \<Rightarrow> sint v), s') \<and> ht_frame s s' \<and> ht_inv s' \<and> ht_map s' = ht_map s"
proof -
  define b1 b2 where "b1 = ht_bucket1 s k" and "b2 = ht_bucket2 s k"
  note bl = ht_buckets_less [OF assms, of k, folded b1_def b2_def]
  have nz: "ht_blocks s \<noteq> 0" using assms by (auto simp: ht_inv_def)
  obtain s1 where s1: "ht_read_bucket s b1 = (Some (bucket_view s b1), s1)" "ht_frame s s1" "ht_inv s1" "ht_map s1 = ht_map s"
    "tbl s1 = tbl s" "bucket_view s1 = bucket_view s" by (rule ht_read_inv [OF assms bl(1)])
  have b2: "b2 < ht_blocks s1" using bl(2) ht_frame_simps(6) [OF s1(2)] by simp
  obtain s2 where s2: "ht_read_bucket s1 b2 = (Some (bucket_view s b2), s2)" "ht_frame s s2" "ht_inv s2" "ht_map s2 = ht_map s"
    using ht_read_inv [OF s1(3) b2] s1(2,4,6) ht_frame_trans by metis
  have m: "ht_map s k = (case map_of (tbl s b1) k of Some v \<Rightarrow> Some v | None \<Rightarrow> map_of (tbl s b2) k)"
    unfolding ht_map_buckets b1_def b2_def ..
  show ?thesis
  proof (cases "map_of (tbl s b1) k")
    case (Some v)
    then show ?thesis using ht_map_bucket [OF assms Some bl(1)] s1 nz m
      by (auto simp: ht_lookup_def Let_def b1_def [symmetric] ht_slot_view)
  next
    case None
    then have l1: "ht_lookup s k = (if b2 = b1 then (- 1, s1) else
        let slot2 = (case map_of (tbl s b2) k of None \<Rightarrow> - 1 | Some v \<Rightarrow> sint v) in if 0 \<le> slot2 then (slot2, s2) else (- 1, s2))"
      using s1(1) s2(1) nz by (simp add: ht_lookup_def Let_def b1_def [symmetric] b2_def [symmetric] ht_slot_view)
    show ?thesis
    proof (cases "map_of (tbl s b2) k")
      case None
      then show ?thesis using l1 \<open>map_of (tbl s b1) k = None\<close> s1 s2 m by auto
    next
      case (Some v)
      with \<open>map_of (tbl s b1) k = None\<close> have "b2 \<noteq> b1" by auto
      with Some l1 ht_map_bucket [OF assms Some bl(2)] s2 show ?thesis by auto
    qed
  qed
qed

text \<open>One write changes the map at one key.\<close>

lemma ht_write_key:
  assumes "ht_inv s" "b < ht_blocks s" "bucket_ok buf" "distinct (map fst (bkt buf))" "map_of (bkt buf) = (map_of (tbl s b))(k := x)"
    and "\<And>v. x = Some v \<Longrightarrow> key_bucket (ht_blocks s) k b \<and> 0 \<le> sint v"
    and "\<And>b'. b' < ht_blocks s \<Longrightarrow> b' \<noteq> b \<Longrightarrow> map_of (tbl s b') k = None"
  shows "\<exists>s'. ht_write_bucket s b buf = (True, s') \<and> ht_frame s s' \<and> ht_inv s' \<and> ht_map s' = (ht_map s)(k := x)"
proof -
  from ht_write_spec [of s b buf] assms(1-3) obtain s' where s': "ht_write_bucket s b buf = (True, s')" "ht_frame s s'" "ht_ready s'"
    "tbl s' = (tbl s)(b := bkt buf)" by (auto simp: ht_inv_def)
  have t: "table_ok (ht_blocks s) (tbl s)" "0 < ht_blocks s" using assms(1) by (auto simp: ht_inv_def)
  note u = table_update [OF t assms(2,4,5) assms(6,7)]
  show ?thesis using s' u t(2) ht_frame_simps(6) [OF s'(2)] by (simp add: ht_inv_def ht_map_def)
qed

lemma bkt_view: "bkt (bucket_view s b) = tbl s b"
  by (simp add: tbl_def)

lemma ht_add_new:
  assumes "ht_inv s" "b < ht_blocks s" "ht_map s k = None" "ht_count (bucket_view s b) < HT_ENTRIES_PER_BKT"
    "key_bucket (ht_blocks s) k b" "0 \<le> sint slot"
  shows "ht_frame s (ht_add s b (bucket_view s b) k slot)" "ht_inv (ht_add s b (bucket_view s b) k slot)"
    "ht_map (ht_add s b (bucket_view s b) k slot) = (ht_map s)(k \<mapsto> slot)"
proof -
  have t: "table_ok (ht_blocks s) (tbl s)" "0 < ht_blocks s" and r: "ht_ready s" using assms(1) by (auto simp: ht_inv_def)
  have none: "map_of (tbl s b') k = None" if "b' < ht_blocks s" for b'
    using assms(3) table_map_None [OF t] that by (simp add: ht_map_def)
  note a = ht_append_bkt [OF bucket_view_ok [OF r] assms(4), of k slot, unfolded bkt_view]
  have k: "k \<notin> fst ` set (tbl s b)" using none [OF assms(2)] by (simp add: map_of_eq_None_iff)
  have m: "map_of (tbl s b @ [(k, slot)]) = (map_of (tbl s b))(k \<mapsto> slot)"
    using none [OF assms(2)] by (auto simp: fun_eq_iff map_add_def split: option.split)
  have "\<exists>s'. ht_write_bucket s b (ht_append_entry (bucket_view s b) k slot) = (True, s') \<and> ht_frame s s' \<and> ht_inv s'
    \<and> ht_map s' = (ht_map s)(k := Some slot)"
    using a k m none assms(5,6) table_ok_distinct [OF t(1) assms(2)]
    by (intro ht_write_key [OF assms(1,2)]) auto
  then show "ht_frame s (ht_add s b (bucket_view s b) k slot)" "ht_inv (ht_add s b (bucket_view s b) k slot)"
    "ht_map (ht_add s b (bucket_view s b) k slot) = (ht_map s)(k \<mapsto> slot)"
    by (auto simp: ht_add_def)
qed

lemma ht_set_old:
  assumes "ht_inv s" "b < ht_blocks s" "ht_bucket_find (bucket_view s b) k = Some i" "0 \<le> sint slot"
  shows "\<exists>s'. ht_write_bucket s b (ht_set_slot (bucket_view s b) i slot) = (True, s') \<and> ht_frame s s' \<and> ht_inv s'
    \<and> ht_map s' = (ht_map s)(k \<mapsto> slot)"
proof -
  have t: "table_ok (ht_blocks s) (tbl s)" "0 < ht_blocks s" and r: "ht_ready s" using assms(1) by (auto simp: ht_inv_def)
  have i: "i < length (tbl s b)" "fst (tbl s b ! i) = k" "map_of (tbl s b) k = Some (snd (tbl s b ! i))"
    using bucket_find [of "bucket_view s b" k] assms(3) by (auto simp: bkt_view simp flip: length_bkt)
  have kb: "key_bucket (ht_blocks s) k b" using table_ok_bucket [OF t(1) assms(2) i(3)] by simp
  note d = table_ok_distinct [OF t(1) assms(2)]
  note m = update_pairs [OF d i(1,2), of slot]
  have i': "i < ht_count (bucket_view s b)" using i(1) by (simp add: tbl_def)
  note a = ht_set_slot_bkt [OF bucket_view_ok [OF r] i', of slot, unfolded bkt_view i(2)]
  show ?thesis
    using a m d kb assms(4) table_ok_once [OF t(1) assms(2) _ i(3)]
    by (intro ht_write_key [OF assms(1,2)]) auto
qed

text \<open>The update of the code writes the new entry first: the key is in both buckets between the two writes.\<close>

lemma ht_move:
  assumes "ht_inv s" "b < ht_blocks s" "b' < ht_blocks s" "b' \<noteq> b" "map_of (tbl s b) k = Some old"
    "ht_count (bucket_view s b') < HT_ENTRIES_PER_BKT" "key_bucket (ht_blocks s) k b'" "0 \<le> sint slot"
  defines "s' \<equiv> ht_drop_old (ht_add s b' (bucket_view s b') k slot) b k"
  shows "ht_frame s s'" "ht_inv s'" "ht_map s' = (ht_map s)(k \<mapsto> slot)"
proof -
  have t: "table_ok (ht_blocks s) (tbl s)" "0 < ht_blocks s" and r: "ht_ready s" using assms(1) by (auto simp: ht_inv_def)
  note a = ht_append_bkt [OF bucket_view_ok [OF r] assms(6), of k slot, unfolded bkt_view]
  obtain s1 where s1: "ht_write_bucket s b' (ht_append_entry (bucket_view s b') k slot) = (True, s1)" "ht_frame s s1" "ht_ready s1"
    "tbl s1 = (tbl s)(b' := tbl s b' @ [(k, slot)])"
    using ht_write_spec [OF r assms(3) a(2)] a(1) by auto
  have b1: "b < ht_blocks s1" and tb: "tbl s1 b = tbl s b"
    using assms(2,4) ht_frame_simps(6) [OF s1(2)] s1(4) by auto
  obtain s2 where s2: "ht_read_bucket s1 b = (Some (bucket_view s1 b), s2)" "ht_frame s1 s2" "ht_ready s2" "sd_blocks s2 = sd_blocks s1"
    using ht_read_spec [OF s1(3) b1] by blast
  have v2: "tbl s2 = tbl s1" using tbl_frame [OF s2(2,4)] by simp
  obtain i where i: "ht_bucket_find (bucket_view s1 b) k = Some i" "i < length (tbl s b)" "fst (tbl s b ! i) = k"
    using bucket_find [of "bucket_view s1 b" k] assms(5) by (auto simp: bkt_view tb split: option.splits simp flip: length_bkt)
  have i': "i < ht_count (bucket_view s1 b)" using i(2) tb by (simp add: tbl_def) (metis length_bkt)
  note rm = ht_remove_bkt [OF bucket_view_ok [OF s1(3)] i', unfolded bkt_view tb]
  have b2: "b < ht_blocks s2" using b1 ht_frame_simps(6) [OF s2(2)] by simp
  obtain s3 where s3: "ht_write_bucket s2 b (ht_remove_entry (bucket_view s1 b) i) = (True, s3)" "ht_frame s2 s3" "ht_ready s3"
    "tbl s3 = (tbl s2)(b := drop_swap (tbl s b) i)"
    using ht_write_spec [OF s2(3) b2 rm(2)] rm(1) by auto
  have "s' = s3" by (simp add: s'_def ht_add_def s1(1) ht_drop_old_def s2(1) i(1) s3(1))
  note fr = ht_frame_trans [OF ht_frame_trans [OF s1(2) s2(2)] s3(2)]
  show "ht_frame s s'" using fr by (simp add: \<open>s' = s3\<close>)
  note ds = map_of_drop_swap [OF table_ok_distinct [OF t(1) assms(2)] i(2,3)]
  note once = table_ok_once [OF t(1) assms(2) _ assms(5)]
  note u = table_update [OF t assms(2) ds(1,2), simplified]
  define t1 where "t1 = (tbl s)(b := drop_swap (tbl s b) i)"
  have u: "table_ok (ht_blocks s) t1" "table_map (ht_blocks s) t1 = (table_map (ht_blocks s) (tbl s))(k := None)"
    using u once unfolding t1_def by auto
  have none: "map_of (t1 b'') k = None" if "b'' < ht_blocks s" for b''
    using that table_map_None [OF u(1) t(2), of k] u(2) by simp
  have tb': "t1 b' = tbl s b'" using assms(4) by (simp add: t1_def)
  have d': "distinct (map fst (tbl s b' @ [(k, slot)]))"
    using table_ok_distinct [OF t(1) assms(3)] none [OF assms(3)] by (simp add: tb' map_of_eq_None_iff)
  have m': "map_of (tbl s b' @ [(k, slot)]) = (map_of (t1 b'))(k \<mapsto> slot)"
    using none [OF assms(3)] by (auto simp: tb' fun_eq_iff map_add_def split: option.split)
  note w = table_update [OF u(1) t(2) assms(3) d' m']
  have "tbl s3 = t1(b' := tbl s b' @ [(k, slot)])" using assms(4) s1(4) s3(4) v2 by (auto simp: t1_def)
  moreover have "table_ok (ht_blocks s) (t1(b' := tbl s b' @ [(k, slot)]))"
    "table_map (ht_blocks s) (t1(b' := tbl s b' @ [(k, slot)])) = (table_map (ht_blocks s) t1)(k \<mapsto> slot)"
    using w none assms(7,8) by auto
  ultimately show "ht_inv s'" "ht_map s' = (ht_map s)(k \<mapsto> slot)"
    using s3(3) t(2) ht_frame_simps(6) [OF fr] u(2) by (simp_all add: \<open>s' = s3\<close> ht_inv_def ht_map_def)
qed

definition ht_stored :: "sd_state \<Rightarrow> u32 \<Rightarrow> u32 \<Rightarrow> bool \<times> sd_state \<Rightarrow> bool" where
  "ht_stored s k slot r \<longleftrightarrow> ht_frame s (snd r) \<and> ht_inv (snd r)
     \<and> (if fst r then ht_map (snd r) = (ht_map s)(k \<mapsto> slot) else ht_map (snd r) = ht_map s \<and> ht_map s k = None \<and> HT_ENTRIES_PER_BKT \<le> card (dom (ht_map s)))"

text \<open>A full bucket holds 63 different keys of the table.\<close>

lemma ht_map_full:
  assumes inv: "ht_inv s" and b: "b < ht_blocks s" and full: "\<not> ht_count (bucket_view s b) < HT_ENTRIES_PER_BKT"
  shows "HT_ENTRIES_PER_BKT \<le> card (dom (ht_map s))"
proof -
  have t: "table_ok (ht_blocks s) (tbl s)" using inv by (simp add: ht_inv_def)
  have "fst ` set (tbl s b) \<subseteq> dom (ht_map s)"
  proof
    fix x
    assume "x \<in> fst ` set (tbl s b)"
    then have "map_of (tbl s b) x \<noteq> None" by (auto simp: map_of_eq_None_iff)
    then obtain y where y: "map_of (tbl s b) x = Some y" by blast
    have "key_bucket (ht_blocks s) x b" using table_ok_bucket [OF t b y] ..
    then show "x \<in> dom (ht_map s)" using y by (auto simp: ht_map_def table_map_def key_bucket_def split: option.splits)
  qed
  then have "card (fst ` set (tbl s b)) \<le> card (dom (ht_map s))" by (intro card_mono) auto
  moreover have "distinct (map fst (tbl s b))" using t b by (simp add: table_ok_def)
  then have "card (fst ` set (tbl s b)) = length (tbl s b)" by (metis distinct_card length_map set_map)
  ultimately show ?thesis using full by (simp add: tbl_def)
qed

lemma ht_place_spec:
  fixes k slot :: u32
  assumes inv: "ht_inv s" and slot: "0 \<le> sint slot"
  defines "b1 \<equiv> ht_bucket1 s k" and "b2 \<equiv> ht_bucket2 s k"
  defines "r1 \<equiv> Some (bucket_view s b1)" and "r2 \<equiv> (if b2 \<noteq> b1 then Some (bucket_view s b2) else None)"
  defines "old1 \<equiv> ht_bucket_find (bucket_view s b1) k"
    and "old2 \<equiv> (case r2 of Some buf \<Rightarrow> ht_bucket_find buf k | None \<Rightarrow> None)"
  shows "ht_stored s k slot (case ht_place s b1 b2 r1 r2 k slot of
      (Inl ok, s3) \<Rightarrow> (ok, s3)
    | (Inr nb, s3) \<Rightarrow>
        let s4 = (if old1 \<noteq> None \<and> nb \<noteq> b1 then ht_drop_old s3 b1 k else s3);
            s5 = (if old2 \<noteq> None \<and> nb \<noteq> b2 then ht_drop_old s4 b2 k else s4) in (True, s5))"
proof -
  note bl = ht_buckets_less [OF inv, of k, folded b1_def b2_def]
  have kb: "key_bucket (ht_blocks s) k b1" "key_bucket (ht_blocks s) k b2"
    by (simp_all add: key_bucket_def b1_def b2_def ht_bucket1_def ht_bucket2_def)
  have ok: "table_ok (ht_blocks s) (tbl s)" using inv by (simp add: ht_inv_def)
  have o: "ht_bucket_find (bucket_view s b) k = None \<longleftrightarrow> map_of (tbl s b) k = None" for b
    using bucket_find [of "bucket_view s b" k] by (auto simp: bkt_view split: option.splits)
  have m: "ht_map s k = (case map_of (tbl s b1) k of Some v \<Rightarrow> Some v | None \<Rightarrow> map_of (tbl s b2) k)"
    unfolding ht_map_buckets b1_def b2_def ..
  define room where "room b \<longleftrightarrow> ht_count (bucket_view s b) < HT_ENTRIES_PER_BKT" for b
  have place: "ht_place s b1 b2 r1 r2 k slot =
    (if old1 \<noteq> None \<and> b2 \<noteq> b1 \<and> room b2 then (Inr b2, ht_add s b2 (bucket_view s b2) k slot)
     else if old2 \<noteq> None \<and> room b1 then (Inr b1, ht_add s b1 (bucket_view s b1) k slot)
     else case old1 of
            Some i \<Rightarrow> (case ht_write_bucket s b1 (ht_set_slot (bucket_view s b1) i slot) of (ok, s1) \<Rightarrow> (Inl ok, s1))
          | None \<Rightarrow>
              if room b1 then (Inr b1, ht_add s b1 (bucket_view s b1) k slot)
              else case old2 of
                     Some i \<Rightarrow> (case ht_write_bucket s b2 (ht_set_slot (bucket_view s b2) i slot) of (ok, s1) \<Rightarrow> (Inl ok, s1))
                   | None \<Rightarrow> if b2 \<noteq> b1 \<and> room b2 then (Inr b2, ht_add s b2 (bucket_view s b2) k slot) else (Inl False, s))"
    by (auto simp: ht_place_def Let_def r1_def r2_def old1_def old2_def room_def split: option.split)
  show ?thesis
  proof (cases old1)
    case (Some i)
    then obtain v where v: "map_of (tbl s b1) k = Some v" using o [of b1] by (auto simp: old1_def)
    then have "map_of (tbl s b2) k = None" if "b2 \<noteq> b1" using table_ok_once [OF ok bl v] that by simp
    then have old2: "old2 = None" using o [of b2] by (simp add: old2_def r2_def)
    show ?thesis
    proof (cases "b2 \<noteq> b1 \<and> room b2")
      case True
      with Some old2 ht_move [OF inv bl _ v _ kb(2) slot] show ?thesis
        unfolding place by (simp add: room_def ht_stored_def)
    next
      case False
      with Some old2 ht_set_old [OF inv bl(1) _ slot, of k i] show ?thesis
        unfolding place by (auto simp: old1_def ht_stored_def)
    qed
  next
    case None
    then have n1: "map_of (tbl s b1) k = None" using o [of b1] by (simp add: old1_def)
    show ?thesis
    proof (cases old2)
      case (Some i)
      then have ne: "b2 \<noteq> b1" and f: "ht_bucket_find (bucket_view s b2) k = Some i" by (auto simp: old2_def r2_def split: if_splits)
      then obtain v where v: "map_of (tbl s b2) k = Some v" using o [of b2] by auto
      show ?thesis
      proof (cases "room b1")
        case True
        with None Some ne ht_move [OF inv bl(2,1) _ v _ kb(1) slot] show ?thesis
          unfolding place by (simp add: room_def ht_stored_def)
      next
        case False
        with None Some ht_set_old [OF inv bl(2) f slot] show ?thesis
          unfolding place by (auto simp: ht_stored_def)
      qed
    next
      case n: None
      have "map_of (tbl s b2) k = None" using n n1 o [of b2] by (cases "b2 = b1") (auto simp: old2_def r2_def)
      then have none: "ht_map s k = None" using m n1 by simp
      note add = ht_add_new [OF inv _ none _ _ slot]
      show ?thesis
        using None n none add [OF bl(1) _ kb(1)] add [OF bl(2) _ kb(2)] inv ht_map_full [OF inv bl(1)]
        unfolding place by (simp add: room_def ht_stored_def)
    qed
  qed
qed

lemma ht_stored_frame: "ht_frame s s1 \<Longrightarrow> ht_map s1 = ht_map s \<Longrightarrow> ht_stored s1 k slot r \<Longrightarrow> ht_stored s k slot r"
  by (auto simp: ht_stored_def intro: ht_frame_trans)

lemma ht_insert_spec:
  assumes inv: "ht_inv s" and slot: "0 \<le> sint slot"
  shows "ht_stored s k slot (ht_insert s k slot)"
proof -
  define b1 b2 where "b1 = ht_bucket1 s k" and "b2 = ht_bucket2 s k"
  note bl = ht_buckets_less [OF inv, of k, folded b1_def b2_def]
  have nz: "ht_blocks s \<noteq> 0" using inv by (auto simp: ht_inv_def)
  obtain s1 where s1: "ht_read_bucket s b1 = (Some (bucket_view s b1), s1)" "ht_frame s s1" "ht_inv s1" "ht_map s1 = ht_map s"
    "bucket_view s1 = bucket_view s" by (rule ht_read_inv [OF inv bl(1)])
  have b2: "b2 < ht_blocks s1" using bl(2) ht_frame_simps(6) [OF s1(2)] by simp
  obtain s2 where s2: "(if b2 \<noteq> b1 then ht_read_bucket s1 b2 else (None, s1)) = ((if b2 \<noteq> b1 then Some (bucket_view s b2) else None), s2)"
    "ht_frame s s2" "ht_inv s2" "ht_map s2 = ht_map s" "bucket_view s2 = bucket_view s"
  proof (cases "b2 \<noteq> b1")
    case True
    obtain s2 where "ht_read_bucket s1 b2 = (Some (bucket_view s1 b2), s2)" "ht_frame s1 s2" "ht_inv s2" "ht_map s2 = ht_map s1"
      "bucket_view s2 = bucket_view s1" by (rule ht_read_inv [OF s1(3) b2])
    with True that [of s2] s1 ht_frame_trans [OF s1(2)] show ?thesis by simp
  next
    case False
    with that [of s1] s1 show ?thesis by simp
  qed
  have b: "ht_bucket1 s2 k = b1" "ht_bucket2 s2 k = b2"
    by (simp_all add: ht_bucket1_def ht_bucket2_def b1_def b2_def ht_frame_simps(6) [OF s2(2)])
  define r2 where "r2 = (if b2 \<noteq> b1 then Some (bucket_view s b2) else None)"
  have "ht_insert s k slot = (case ht_place s2 b1 b2 (Some (bucket_view s b1)) r2 k slot of
      (Inl ok, s3) \<Rightarrow> (ok, s3)
    | (Inr nb, s3) \<Rightarrow>
        let s4 = (if ht_bucket_find (bucket_view s b1) k \<noteq> None \<and> nb \<noteq> b1 then ht_drop_old s3 b1 k else s3);
            s5 = (if (case r2 of Some buf \<Rightarrow> ht_bucket_find buf k | None \<Rightarrow> None) \<noteq> None \<and> nb \<noteq> b2 then ht_drop_old s4 b2 k else s4) in (True, s5))"
    unfolding ht_insert_def Let_def b1_def [symmetric] b2_def [symmetric] s1(1) prod.case s2(1) r2_def [symmetric] option.case
    using nz by simp
  moreover note ht_place_spec [OF s2(3) slot, of k, unfolded b s2(5), folded r2_def]
  ultimately have "ht_stored s2 k slot (ht_insert s k slot)" by simp
  then show ?thesis by (rule ht_stored_frame [OF s2(2,4)])
qed

lemma ht_remove_from_spec:
  assumes "ht_inv s" "b < ht_blocks s"
  shows "\<exists>s'. ht_remove_from s b k = (if map_of (tbl s b) k = None then None else Some True, s') \<and> ht_frame s s' \<and> ht_inv s'
    \<and> ht_map s' = (if map_of (tbl s b) k = None then ht_map s else (ht_map s)(k := None))
    \<and> (map_of (tbl s b) k = None \<longrightarrow> tbl s' = tbl s)"
proof -
  obtain s1 where s1: "ht_read_bucket s b = (Some (bucket_view s b), s1)" "ht_frame s s1" "ht_inv s1" "ht_map s1 = ht_map s"
    "tbl s1 = tbl s" by (rule ht_read_inv [OF assms])
  show ?thesis
  proof (cases "ht_bucket_find (bucket_view s b) k")
    case None
    then have "map_of (tbl s b) k = None" using bucket_find [of "bucket_view s b" k] by (simp add: bkt_view)
    with s1 None show ?thesis by (intro exI [of _ s1]) (simp add: ht_remove_from_def)
  next
    case (Some i)
    then have i: "i < ht_count (bucket_view s b)" "fst (tbl s b ! i) = k" "map_of (tbl s b) k = Some (snd (tbl s b ! i))" "i < length (tbl s b)"
      using bucket_find [of "bucket_view s b" k] by (simp_all add: bkt_view) (simp add: tbl_def)
    have t: "table_ok (ht_blocks s) (tbl s)" and r: "ht_ready s" using assms(1) by (auto simp: ht_inv_def)
    note rm = ht_remove_bkt [OF bucket_view_ok [OF r] i(1), unfolded bkt_view]
    note ds = map_of_drop_swap [OF table_ok_distinct [OF t assms(2)] i(4,2)]
    have b1: "b < ht_blocks s1" using assms(2) ht_frame_simps(6) [OF s1(2)] by simp
    have "\<exists>s'. ht_write_bucket s1 b (ht_remove_entry (bucket_view s b) i) = (True, s') \<and> ht_frame s1 s' \<and> ht_inv s'
      \<and> ht_map s' = (ht_map s1)(k := None)"
      using rm ds table_ok_once [OF t assms(2) _ i(3)] s1(5) ht_frame_simps(6) [OF s1(2)]
      by (intro ht_write_key [OF s1(3) b1]) auto
    then obtain s2 where s2: "ht_write_bucket s1 b (ht_remove_entry (bucket_view s b) i) = (True, s2)" "ht_frame s1 s2" "ht_inv s2"
      "ht_map s2 = (ht_map s1)(k := None)" by blast
    show ?thesis
      using s2 s1 Some i(3) ht_frame_trans [OF s1(2) s2(2)] by (intro exI [of _ s2]) (simp add: ht_remove_from_def)
  qed
qed

lemma ht_remove_spec:
  assumes inv: "ht_inv s"
  obtains s' where "ht_remove s k = (ht_map s k \<noteq> None, s')" "ht_frame s s'" "ht_inv s'" "ht_map s' = (ht_map s)(k := None)"
proof -
  define b1 b2 where "b1 = ht_bucket1 s k" and "b2 = ht_bucket2 s k"
  note bl = ht_buckets_less [OF inv, of k, folded b1_def b2_def]
  have nz: "ht_blocks s \<noteq> 0" using inv by (auto simp: ht_inv_def)
  have m: "ht_map s k = (case map_of (tbl s b1) k of Some v \<Rightarrow> Some v | None \<Rightarrow> map_of (tbl s b2) k)"
    unfolding ht_map_buckets b1_def b2_def ..
  obtain s1 where s1: "ht_remove_from s b1 k = (if map_of (tbl s b1) k = None then None else Some True, s1)" "ht_frame s s1" "ht_inv s1"
    "ht_map s1 = (if map_of (tbl s b1) k = None then ht_map s else (ht_map s)(k := None))"
    "map_of (tbl s b1) k = None \<longrightarrow> tbl s1 = tbl s"
    using ht_remove_from_spec [OF inv bl(1), of k] by (elim exE conjE)
  note rm = ht_remove_def [of s k, unfolded Let_def, folded b1_def b2_def, unfolded s1(1)]
  show ?thesis
  proof (cases "map_of (tbl s b1) k = None")
    case False
    then show ?thesis using that [of s1] s1 rm nz m by auto
  next
    case n1: True
    have b2: "b2 < ht_blocks s1" using bl(2) ht_frame_simps(6) [OF s1(2)] by simp
    obtain s2 where s2: "ht_remove_from s1 b2 k = (if map_of (tbl s b2) k = None then None else Some True, s2)" "ht_frame s1 s2" "ht_inv s2"
      "ht_map s2 = (if map_of (tbl s b2) k = None then ht_map s else (ht_map s)(k := None))"
      using ht_remove_from_spec [OF s1(3) b2, of k] unfolding s1(5) [rule_format, OF n1] s1(4) if_P [OF n1] by (elim exE conjE)
    have none: "ht_map s = (ht_map s)(k := None)" if "map_of (tbl s b2) k = None" using that m n1 by auto
    have r: "ht_remove s k = (if b2 = b1 then (False, s1) else (case (if map_of (tbl s b2) k = None then None else Some True, s2) of
        (Some ok, s2) \<Rightarrow> (ok, s2) | (None, s2) \<Rightarrow> (False, s2)))"
      using rm nz n1 s2(1) by simp
    show ?thesis
    proof (cases "b2 = b1")
      case True
      then show ?thesis using that [of s1] r s1 n1 m none by simp
    next
      case False
      then show ?thesis using that [of s2] r s2 n1 m none ht_frame_trans [OF s1(2) s2(2)] by (auto split: option.splits)
    qed
  qed
qed

subsection \<open>The contract of an index\<close>

text \<open>
  Slots are block numbers below \<open>2\<^sup>31\<close>, since the code reads them as \<open>int32_t\<close>. On these the table satisfies the contract of
  the in-memory index of \<open>kv_flash.c\<close>.
\<close>

definition ht_get :: "sd_state \<Rightarrow> u32 \<Rightarrow> 31 word option" where
  "ht_get s k = (let slot = fst (ht_lookup s k) in if 0 \<le> slot then Some (word_of_int slot) else None)"

definition ht_put :: "sd_state \<Rightarrow> u32 \<Rightarrow> 31 word \<Rightarrow> bool \<times> sd_state" where
  "ht_put s k v = ht_insert s k (ucast v)"

definition ht_del :: "sd_state \<Rightarrow> u32 \<Rightarrow> sd_state" where
  "ht_del s k = snd (ht_remove s k)"

definition ht_contents :: "sd_state \<Rightarrow> u32 \<Rightarrow> 31 word option" where
  "ht_contents s k = map_option ucast (ht_map s k)"

lemma sint_nonneg: "0 \<le> sint (w :: u32) \<longleftrightarrow> uint w < 2147483648"
proof -
  have "uint w < 4294967296" "0 \<le> uint w" using uint_range_size [of w] by (auto simp: word_size)
  then have "uint w div 2147483648 = (if uint w < 2147483648 then 0 else 1)" by auto
  then have "bit (uint w) 31 \<longleftrightarrow> \<not> uint w < 2147483648" by (simp add: bit_iff_odd)
  then show ?thesis by (simp add: sint_uint)
qed
lemma sint_slot: "0 \<le> sint (w :: u32) \<Longrightarrow> sint w = uint w"
  using sint_nonneg [of w] by (simp add: sint_uint signed_take_bit_eq_if_positive take_bit_int_eq_self)
lemma sint_small: "unat (w :: u32) < 2147483648 \<longleftrightarrow> 0 \<le> sint w"
proof -
  have "uint w = int (unat w)" by simp
  then show ?thesis unfolding sint_nonneg by linarith
qed
lemma ucast_slot: "0 \<le> sint (ucast (v :: 31 word) :: u32)"
  by (auto simp: sint_uint bit_simps dest: bit_imp_le_length)
lemma ucast_back: "ucast (ucast (v :: 31 word) :: u32) = v"
  by (rule bit_word_eqI) (auto simp: bit_simps)
lemma scast_slot: "(scast (w :: u32) :: 31 word) = ucast w"
  by (rule bit_word_eqI) (auto simp: bit_simps)

interpretation ht: key_map ht_inv ht_contents ht_get ht_put ht_del
proof
  fix s :: sd_state and k :: u32 and v :: "31 word" and s'
  assume inv: "ht_inv s"
  show "ht_get s k = ht_contents s k"
    using ht_lookup_spec [OF inv, of k] ht_map_sint [OF inv, of k]
    by (auto simp: ht_get_def ht_contents_def scast_slot split: option.splits)
  note ins = ht_insert_spec [OF inv ucast_slot [of v], of k]
  show "ht_put s k v = (True, s') \<Longrightarrow> ht_inv s' \<and> ht_contents s' = (ht_contents s)(k \<mapsto> v)"
    using ins by (auto simp: ht_put_def ht_stored_def ht_contents_def ucast_back fun_eq_iff)
  show "ht_put s k v = (False, s') \<Longrightarrow> ht_inv s' \<and> ht_contents s' = ht_contents s \<and> ht_contents s k = None"
    using ins by (auto simp: ht_put_def ht_stored_def ht_contents_def ucast_back fun_eq_iff)
  show "ht_inv (ht_del s k) \<and> ht_contents (ht_del s k) = (ht_contents s)(k := None)"
    by (rule ht_remove_spec [OF inv, of k]) (auto simp: ht_del_def ht_contents_def fun_eq_iff)
qed

text \<open>The zeroed card with a table of four buckets.\<close>

definition ht_blank :: sd_state where
  "ht_blank = sd_blank\<lparr>g_sb := (g_sb sd_blank)\<lparr>sb_hashtab_start := 3, sb_hashtab_blocks := 4\<rparr>\<rparr>"

lemma ht_inv_blank: "ht_inv ht_blank"
proof -
  have z: "bkt (bucket_view ht_blank i) = []" for i
    by (simp add: bucket_view_def Let_def ht_blank_def sd_blank_def bucket_ok_zero)
  have "ht_ready ht_blank" by (simp add: ht_ready_def ht_blank_def sd_blank_def cache_ok_cold HT_CACHE_SLOTS_def)
  moreover have "ht_blocks ht_blank = 4" by (simp add: ht_blank_def)
  ultimately show ?thesis by (simp add: ht_inv_def table_ok_def tbl_def z)
qed

text \<open>
  C23: the hash table refines a finite map. While transfers succeed, any sequence of insertions and removals through the bucket
  cache, the checksums and the two candidate buckets of each key leaves the table well formed and holding what a
  map holds to which the same operations are applied, where the insertion of a new key may be refused for lack of room;
  \<open>ht_lookup\<close> reads it back.
\<close>

theorem ht_refines_map:
  assumes "ht_inv s" and "s' = fold (map_step ht_put ht_del) ops s"
  shows "ht_inv s' \<and> map_runs (ht_get s) ops (ht_get s')"
proof -
  have r: "ht_inv s'" "map_runs (ht_contents s) ops (ht_contents s')" using ht.run_refines [OF assms(1), of ops] assms(2) by auto
  have "ht_get s = ht_contents s" "ht_get s' = ht_contents s'" using ht.get_lookup assms(1) r(1) by auto
  with r show ?thesis by simp
qed

theorem ht_refines_map_witness:
  "ht_inv (fold (map_step ht_put ht_del) [Put 7 3, Put 9 3, Put 7 5, Del 9] ht_blank)
   \<and> map_runs (ht_get ht_blank) [Put 7 3, Put 9 3, Put 7 5, Del 9] (ht_get (fold (map_step ht_put ht_del) [Put 7 3, Put 9 3, Put 7 5, Del 9] ht_blank))"
  by (rule ht_refines_map [OF ht_inv_blank refl])

end
