(* ===== verification/SdBitmap.thy ===== *)
theory SdBitmap
  imports KvSd SdTableMap
begin

text \<open>
  The bitmap of \<open>src/kv_sd.c\<close>: setting a bit changes that bit only, and \<open>alloc_slot\<close> gives a block whose bit is
  clear.
\<close>

unbundle bit_operations_syntax

subsection \<open>The bit of a slot\<close>

definition bit_of :: "sd_state \<Rightarrow> u32 \<Rightarrow> bool" where
  "bit_of s slot \<longleftrightarrow> sd_blocks s (bitmap_block s slot) ! byte_off slot AND slot_bit slot \<noteq> 0"

lemma unat_mod8: "unat (slot mod 8 :: u32) = unat slot mod 8" "unat (slot mod 8 :: u32) < 8"
  by (simp_all add: unat_mod)

lemma byte_off_eq: "byte_off slot = unat slot mod 4096 div 8" "byte_off slot < 512"
proof -
  show "byte_off slot = unat slot mod 4096 div 8" by (simp add: byte_off_def unat_mod unat_div)
  then show "byte_off slot < 512" by simp
qed

lemma and_slot_bit: "w AND slot_bit slot \<noteq> 0 \<longleftrightarrow> bit w (unat (slot mod 8))"
proof -
  have e: "w AND push_bit n 1 = (if bit w n then push_bit n 1 else 0)" for n and w :: byte
    by (rule bit_word_eqI) (auto simp: bit_simps)
  have "push_bit n (1 :: byte) \<noteq> 0" if "n < 8" for n
    using that by (auto simp: bit_eq_iff bit_simps intro!: exI [of _ n])
  then show ?thesis using unat_mod8(2) [of slot] unfolding slot_bit_def e by simp
qed

lemma bit_of_bit: "bit_of s slot \<longleftrightarrow> bit (sd_blocks s (bitmap_block s slot) ! byte_off slot) (unat (slot mod 8))"
  by (simp add: bit_of_def and_slot_bit)

lemma slot_parts_nat:
  assumes "(a :: nat) div 4096 = b div 4096" "a mod 4096 div 8 = b mod 4096 div 8" "a mod 8 = b mod 8"
  shows "a = b"
proof -
  have m: "n mod 4096 = n mod 4096 div 8 * 8 + n mod 8" for n :: nat
    using div_mult_mod_eq [of "n mod 4096" 8] mod_mod_cancel [of 8 4096 n] by simp
  have "a mod 4096 = b mod 4096" using m [of a] m [of b] assms(2,3) by simp
  then show ?thesis using assms(1) div_mult_mod_eq [of a 4096] div_mult_mod_eq [of b 4096] by metis
qed

lemma slot_parts_eq:
  assumes "(a :: u32) div 4096 = b div 4096" "byte_off a = byte_off b" "unat (a mod 8) = unat (b mod 8)"
  shows "a = b"
proof -
  have "unat a div 4096 = unat b div 4096" using arg_cong [OF assms(1), of unat] by (simp add: unat_div)
  then have "unat a = unat b" using slot_parts_nat [of "unat a" "unat b"] assms(2,3) by (simp add: byte_off_eq unat_mod)
  then show ?thesis by (simp add: word_unat_eq_iff)
qed

lemma bitmap_block_eq: "g_sb s' = g_sb s \<Longrightarrow> bitmap_block s' slot = bitmap_block s slot"
  by (simp add: bitmap_block_def)

lemma bitmap_block_inj: "bitmap_block s a = bitmap_block s b \<longleftrightarrow> a div 4096 = b div 4096"
  by (simp add: bitmap_block_def)

text \<open>Setting or clearing one bit.\<close>

lemma bitmap_set_spec:
  assumes ok: "\<forall>n. sd_ok s n" and len: "\<forall>b. length (sd_blocks s b) = 512"
  obtains buf n where "bitmap_set s slot used = (True, s\<lparr>sd_ops := n, sd_blocks := (sd_blocks s)(bitmap_block s slot := buf)\<rparr>)"
    "length buf = 512"
    "\<And>m a. bit_of (s\<lparr>sd_ops := m, sd_blocks := (sd_blocks s)(bitmap_block s slot := buf)\<rparr>) a = (if a = slot then used else bit_of s a)"
proof -
  define old where "old = sd_blocks s (bitmap_block s slot)"
  define w where "w = (if used then old ! byte_off slot OR slot_bit slot else old ! byte_off slot AND NOT (slot_bit slot))"
  define buf where "buf = old[byte_off slot := w]"
  define s1 where "s1 = s\<lparr>sd_ops := sd_ops s + 1\<rparr>"
  have rd: "sd_read_block s (bitmap_block s slot) = (Some old, s1)" unfolding old_def s1_def by (rule sd_read_ok [OF ok])
  have wr: "sd_write_block s1 (bitmap_block s slot) buf
      = (True, s\<lparr>sd_ops := sd_ops s + 1 + 1, sd_blocks := (sd_blocks s)(bitmap_block s slot := buf)\<rparr>)"
    using sd_write_ok [of s1 "bitmap_block s slot" buf] ok by (simp add: s1_def)
  have set: "bitmap_set s slot used = (True, s\<lparr>sd_ops := sd_ops s + 1 + 1, sd_blocks := (sd_blocks s)(bitmap_block s slot := buf)\<rparr>)"
    unfolding bitmap_set_def rd prod.case option.case Let_def w_def [symmetric] buf_def [symmetric] by (rule wr)
  have l: "length buf = 512" "length old = 512" using len by (simp_all add: buf_def old_def)
  define r where "r = unat (slot mod 8)"
  have r: "r < 8" by (simp add: r_def unat_mod8)
  have bw: "bit w n = (if n = r then used else bit (old ! byte_off slot) n)" if "n < 8" for n
  proof -
    have "bit (slot_bit slot) n \<longleftrightarrow> n = r" using that r by (auto simp: slot_bit_def r_def [symmetric] bit_simps)
    then show ?thesis using that by (auto simp: w_def bit_simps)
  qed
  have bits: "bit_of (s\<lparr>sd_ops := m, sd_blocks := (sd_blocks s)(bitmap_block s slot := buf)\<rparr>) a = (if a = slot then used else bit_of s a)"
    (is "bit_of ?s a = _") for m a
  proof (cases "bitmap_block s a = bitmap_block s slot \<and> byte_off a = byte_off slot")
    case False
    then have "a \<noteq> slot" by auto
    moreover have "sd_blocks ?s (bitmap_block ?s a) ! byte_off a = sd_blocks s (bitmap_block s a) ! byte_off a"
      using False by (auto simp: bitmap_block_def buf_def old_def)
    ultimately show ?thesis by (simp add: bit_of_def)
  next
    case True
    then have v: "sd_blocks ?s (bitmap_block ?s a) ! byte_off a = w" "sd_blocks s (bitmap_block s a) ! byte_off a = old ! byte_off slot"
      using l byte_off_eq(2) [of slot] by (simp_all add: bitmap_block_def buf_def old_def)
    have "unat (a mod 8) = r \<longleftrightarrow> a = slot"
      using slot_parts_eq [of a slot] True by (auto simp: r_def bitmap_block_inj)
    then show ?thesis using bw [OF unat_mod8(2) [of a]] True unfolding bit_of_bit v by auto
  qed
  show ?thesis by (rule that [OF set l(1) bits])
qed

subsection \<open>Allocation\<close>

lemma free_in_block_spec:
  assumes "free_in_block buf (slot div 4096 * 4096) mx = Some b"
  shows "b < mx" "b div 4096 = slot div 4096" "\<not> bit (buf ! byte_off b) (unat (b mod 8))"
proof -
  define base where "base = slot div 4096 * 4096"
  obtain i where i: "i < 4096" "\<not> bit (buf ! (i div 8)) (i mod 8)" "base + word_of_nat i < mx" "b = base + word_of_nat i"
    using assms by (auto simp: free_in_block_def find_Some_iff base_def)
  have ub: "unat base = unat slot div 4096 * 4096"
  proof -
    have "unat slot div 4096 * 4096 \<le> unat slot" by simp
    also have "unat slot < 2 ^ 32" by (rule order_less_le_trans [OF unsigned_less]) simp
    finally have "unat slot div 4096 * 4096 < 2 ^ 32" .
    then show ?thesis by (simp add: base_def unat_mult_lem [THEN iffD1] unat_div)
  qed
  have "unat base + i < 2 ^ 32"
  proof -
    have "unat slot < 2 ^ 32" by (rule order_less_le_trans [OF unsigned_less]) simp
    then have "unat slot div 4096 < 2 ^ 20" by simp
    then show ?thesis using ub i(1) by simp
  qed
  then have u: "unat b = unat base + i" using i(1) by (simp add: i(4) unat_word_ariths unat_of_nat)
  show "b < mx" using i by simp
  have "unat b div 4096 = unat slot div 4096" "unat b mod 4096 = i" using i(1) by (simp_all add: u ub)
  then show "b div 4096 = slot div 4096" by (intro word_unat_eq_iff [THEN iffD2]) (simp add: unat_div)
  have "unat b mod 8 = i mod 8" using \<open>unat b mod 4096 = i\<close> mod_mod_cancel [of 8 4096 "unat b"] by simp
  show "\<not> bit (buf ! byte_off b) (unat (b mod 8))"
    using i(2) \<open>unat b mod 4096 = i\<close> \<open>unat b mod 8 = i mod 8\<close> by (simp add: byte_off_eq unat_mod)
qed

definition alloc_result :: "sd_state \<Rightarrow> u32 option \<times> sd_state \<Rightarrow> bool" where
  "alloc_result s r \<longleftrightarrow> (\<exists>n h. snd r = s\<lparr>sd_ops := n, g_sb := (g_sb s)\<lparr>sb_next_free_hint := h\<rparr>\<rparr>)
     \<and> (case fst r of None \<Rightarrow> True | Some b \<Rightarrow> b < sb_max_cards (g_sb s) \<and> \<not> bit_of s b)"

lemma alloc_loop_spec:
  assumes "\<forall>n. sd_ok s n" "\<forall>slot < sb_max_cards (g_sb s). bitmap_block s slot \<noteq> 0xFFFFFFFF"
    and "fst cached = 0xFFFFFFFF \<or> snd cached = sd_blocks s (fst cached)"
  shows "alloc_result s (alloc_loop s hint tries cached)"
  using assms
proof (induction s hint tries cached rule: alloc_loop.induct)
  case (1 s hint tries cached)
  define mx where "mx = sb_max_cards (g_sb s)"
  define slot where "slot = (hint + word_of_nat tries) mod mx"
  define blk where "blk = bitmap_block s slot"
  define s1 where "s1 = s\<lparr>sd_ops := sd_ops s + 1\<rparr>"
  define buf where "buf = sd_blocks s blk"
  have rd: "sd_read_block s blk = (Some buf, s1)" unfolding buf_def s1_def by (rule sd_read_ok [OF "1.prems"(1)])
  note simps = alloc_loop.simps [of s hint tries cached, unfolded Let_def, folded mx_def, folded slot_def, folded blk_def]
  note ih = "1.IH" [OF mx_def slot_def blk_def]
  have hint: "alloc_result s (Some b, t\<lparr>g_sb := (g_sb t)\<lparr>sb_next_free_hint := h\<rparr>\<rparr>)"
    if "b < mx" "\<not> bit_of s b" "t = s \<or> t = s1" for b t h
    using that by (auto simp: alloc_result_def mx_def s1_def intro!: exI [of _ "sd_ops t"] exI [of _ h])
  have step: "alloc_result s r" if "alloc_result s1 r" for r
    using that by (auto simp: alloc_result_def s1_def bit_of_def bitmap_block_def split: option.splits)
  show ?case
  proof (cases "unat mx \<le> tries")
    case True
    then have "alloc_loop s hint tries cached = (None, s)" unfolding simps by simp
    then show ?thesis by (auto simp: alloc_result_def intro!: exI [of _ "sd_ops s"] exI [of _ "sb_next_free_hint (g_sb s)"])
  next
    case tr: False
    then have "0 < mx" by (metis le0 not_le unat_0 word_less_nat_alt gr_zeroI)
    then have slot: "slot < mx" by (simp add: slot_def mod_less_u32)
    then have nb: "blk \<noteq> 0xFFFFFFFF" using "1.prems"(2) by (simp add: blk_def mx_def)
    show ?thesis
    proof (cases "blk = fst cached")
      case True
      then have snd: "snd cached = buf" using "1.prems"(3) nb by (simp add: buf_def)
      have bit: "snd cached ! byte_off slot AND slot_bit slot = 0 \<longleftrightarrow> \<not> bit_of s slot"
        unfolding snd buf_def blk_def bit_of_def by simp
      show ?thesis
      proof (cases "snd cached ! byte_off slot AND slot_bit slot = 0")
        case free: True
        with hint [of slot s "(slot + 1) mod mx"] slot bit show ?thesis unfolding simps using True tr by simp
      next
        case False
        then have e: "alloc_loop s hint tries cached = alloc_loop s hint (tries + 1) cached"
          unfolding simps using True tr by simp
        show ?thesis unfolding e by (rule ih(3) [OF tr _ False "1.prems"]) (use True in simp)
      qed
    next
      case ne: False
      show ?thesis
      proof (cases "free_in_block buf (slot div 4096 * 4096) mx")
        case (Some b)
        note f = free_in_block_spec [OF Some]
        have "bitmap_block s b = blk" using f(2) by (simp add: blk_def bitmap_block_inj)
        then have "\<not> bit_of s b" using f(3) by (simp add: bit_of_bit buf_def)
        then have "alloc_result s (Some b, s1\<lparr>g_sb := (g_sb s1)\<lparr>sb_next_free_hint := (b + 1) mod mx\<rparr>\<rparr>)"
          using f(1) hint by blast
        then show ?thesis unfolding simps rd prod.case option.case Some using ne tr by simp
      next
        case None
        have e: "alloc_loop s hint tries cached = alloc_loop s1 hint (tries + (4095 - unat (slot mod 4096)) + 1) (blk, buf)"
          unfolding simps rd prod.case option.case None using ne tr by simp
        show ?thesis unfolding e
        proof (rule step, rule ih(2) [OF tr ne rd [symmetric] refl None])
          show "\<forall>n. sd_ok s1 n" "\<forall>slot < sb_max_cards (g_sb s1). bitmap_block s1 slot \<noteq> 0xFFFFFFFF"
            using "1.prems"(1,2) by (simp_all add: s1_def bitmap_block_def)
          show "fst (blk, buf) = 0xFFFFFFFF \<or> snd (blk, buf) = sd_blocks s1 (fst (blk, buf))" by (simp add: s1_def buf_def)
        qed
      qed
    qed
  qed
qed

lemma alloc_slot_spec:
  assumes "\<forall>n. sd_ok s n" "\<forall>slot < sb_max_cards (g_sb s). bitmap_block s slot \<noteq> 0xFFFFFFFF"
  shows "alloc_result s (alloc_slot s)"
  unfolding alloc_slot_def by (rule alloc_loop_spec [OF assms]) simp

end
