(* ===== verification/SdIndex.thy ===== *)
theory SdIndex
  imports SdStore KeyMap
begin

text \<open>
  The SRAM index of \<open>src/kv_sd.c\<close> (tier 1) as a cache of a finite map: the binary search, sortedness, the
  bound of 512 entries with the eviction of the lowest key, and the contract of a cache that its
  callers rely on.
\<close>

subsection \<open>The contract of a cache\<close>

text \<open>A store into the cache may drop other keys but never gives one of them a wrong value.\<close>

definition cache_step :: "('s \<Rightarrow> 'k \<Rightarrow> 'v \<Rightarrow> 's) \<Rightarrow> ('s \<Rightarrow> 'k \<Rightarrow> 's) \<Rightarrow> ('k, 'v) map_op \<Rightarrow> 's \<Rightarrow> 's" where
  "cache_step put del x s = (case x of Put k v \<Rightarrow> put s k v | Del k \<Rightarrow> del s k)"

definition map_apply :: "('k, 'v) map_op \<Rightarrow> ('k \<Rightarrow> 'v option) \<Rightarrow> ('k \<Rightarrow> 'v option)" where
  "map_apply x m = (case x of Put k v \<Rightarrow> m(k \<mapsto> v) | Del k \<Rightarrow> m(k := None))"

locale evicting_cache =
  fixes inv :: "'s \<Rightarrow> bool" and lookup :: "'s \<Rightarrow> 'k \<Rightarrow> 'v option"
    and put :: "'s \<Rightarrow> 'k \<Rightarrow> 'v \<Rightarrow> 's" and del :: "'s \<Rightarrow> 'k \<Rightarrow> 's"
  assumes put_inv: "inv s \<Longrightarrow> inv (put s k v)"
    and put_hit: "inv s \<Longrightarrow> lookup (put s k v) k = Some v"
    and put_other: "inv s \<Longrightarrow> k' \<noteq> k \<Longrightarrow> lookup (put s k v) k' = None \<or> lookup (put s k v) k' = lookup s k'"
    and del_inv: "inv s \<Longrightarrow> inv (del s k)"
    and del_lookup: "inv s \<Longrightarrow> lookup (del s k) = (lookup s)(k := None)"
begin

lemma put_submap: "inv s \<Longrightarrow> lookup s \<subseteq>\<^sub>m m \<Longrightarrow> lookup (put s k v) \<subseteq>\<^sub>m m(k \<mapsto> v)"
proof -
  assume s: "inv s" "lookup s \<subseteq>\<^sub>m m"
  have "(m(k \<mapsto> v)) k' = lookup (put s k v) k'" if "lookup (put s k v) k' \<noteq> None" for k'
  proof (cases "k' = k")
    case True
    then show ?thesis using put_hit [OF s(1), of k v] by simp
  next
    case False
    then have "lookup (put s k v) k' = lookup s k'" using that put_other [OF s(1) False, of v] by auto
    with False that s(2) show ?thesis by (auto simp: map_le_def dom_def)
  qed
  then show ?thesis by (auto simp: map_le_def dom_def simp del: fun_upd_apply)
qed

lemma step_submap:
  "inv s \<Longrightarrow> lookup s \<subseteq>\<^sub>m m \<Longrightarrow> inv (cache_step put del x s) \<and> lookup (cache_step put del x s) \<subseteq>\<^sub>m map_apply x m"
proof (cases x)
  case (Put k v)
  then show "inv s \<Longrightarrow> lookup s \<subseteq>\<^sub>m m \<Longrightarrow> ?thesis"
    by (simp add: cache_step_def map_apply_def put_inv put_submap)
next
  case (Del k)
  then show "inv s \<Longrightarrow> lookup s \<subseteq>\<^sub>m m \<Longrightarrow> ?thesis"
    by (auto simp: cache_step_def map_apply_def del_inv del_lookup map_le_def)
qed

lemma run_submap:
  "inv s \<Longrightarrow> lookup s \<subseteq>\<^sub>m m \<Longrightarrow>
    inv (fold (cache_step put del) xs s) \<and> lookup (fold (cache_step put del) xs s) \<subseteq>\<^sub>m fold map_apply xs m"
proof (induction xs arbitrary: s m)
  case (Cons x xs)
  from step_submap [OF Cons.prems, of x] Cons.IH [of "cache_step put del x s" "map_apply x m"] show ?case by simp
qed simp

end

subsection \<open>Binary search\<close>

lemma key_search_result:
  assumes "\<And>i j. i < j \<Longrightarrow> j < n \<Longrightarrow> f i < f j" "0 \<le> lo" "hi < int n" "lo \<le> hi + 1"
    and "\<forall>i. int i < lo \<longrightarrow> f i < key" and "\<forall>i < n. hi < int i \<longrightarrow> key < f i"
  shows "(\<exists>i < n. key_search f key lo hi = int i \<and> f i = key)
    \<or> (\<exists>pos \<le> n. key_search f key lo hi = - int pos - 1 \<and> (\<forall>i < pos. f i < key) \<and> (\<forall>i < n. pos \<le> i \<longrightarrow> key < f i))"
  using assms
proof (induction f key lo hi rule: key_search.induct)
  case (1 f key lo hi)
  define mid where "mid = (lo + hi) div 2"
  note simps = key_search.simps [of f key lo hi, unfolded Let_def, folded mid_def]
  show ?case
  proof (cases "lo \<le> hi")
    case False
    with "1.prems" have "lo = hi + 1" by simp
    moreover have "key_search f key lo hi = - lo - 1" using False by (simp add: simps)
    ultimately show ?thesis using "1.prems"
      by (intro disjI2 exI [of _ "nat lo"]) auto
  next
    case True
    then have m: "lo \<le> mid" "mid \<le> hi" "0 \<le> mid" "nat mid < n" "int (nat mid) = mid"
      using "1.prems"(2,3) by (auto simp: mid_def)
    have below: "\<forall>i. int i < mid \<longrightarrow> f i < f (nat mid)"
      using "1.prems"(1) [of _ "nat mid"] m by auto
    have above: "\<forall>i < n. mid < int i \<longrightarrow> f (nat mid) < f i"
      using "1.prems"(1) [of "nat mid"] m(3) by (simp add: nat_less_iff)
    consider "f (nat mid) = key" | "f (nat mid) < key" | "key < f (nat mid)"
      by (metis linorder_neqE)
    then show ?thesis
    proof cases
      case 1
      with True m show ?thesis by (intro disjI1 exI [of _ "nat mid"]) (simp add: simps)
    next
      case 2
      then have ne: "f (nat mid) \<noteq> key" by auto
      have "\<forall>i. int i < mid + 1 \<longrightarrow> f i < key"
        using below 2 m by (metis less_trans nat_int zle_add1_eq_le order_le_less)
      from "1.IH"(1) [OF True mid_def ne 2 "1.prems"(1) _ "1.prems"(3) _ this "1.prems"(6)] m True 2 ne
      show ?thesis by (simp add: simps)
    next
      case 3
      then have ne: "f (nat mid) \<noteq> key" "\<not> f (nat mid) < key" by auto
      have "\<forall>i < n. mid - 1 < int i \<longrightarrow> key < f i"
        using above 3 m by (metis less_trans nat_int zle_diff1_eq linorder_not_le order_le_less)
      from "1.IH"(2) [OF True mid_def ne "1.prems"(1,2) _ _ "1.prems"(5) this] m True ne "1.prems"(3)
      show ?thesis by (simp add: simps)
    qed
  qed
qed

subsection \<open>The index is a map with sorted keys\<close>

definition index_ok :: "(u32 \<times> u32) list \<Rightarrow> bool" where
  "index_ok ix \<longleftrightarrow> sorted_wrt (<) (map fst ix) \<and> length ix \<le> KVSD_INDEX_MAX"

lemma index_ok_Nil [simp]: "index_ok []"
  by (simp add: index_ok_def)

lemma index_nth_less: "sorted_wrt (<) (map fst ix) \<Longrightarrow> i < j \<Longrightarrow> j < length ix \<Longrightarrow> fst (ix ! i) < (fst (ix ! j) :: u32)"
  using sorted_wrt_nth_less [of "(<)" "map fst ix" i j] by simp

lemma index_distinct: "sorted_wrt (<) (map fst ix) \<Longrightarrow> distinct (map fst (ix :: (u32 \<times> 'a) list))"
  by (induction ix) auto

lemma index_find_cases:
  assumes "sorted_wrt (<) (map fst (ix :: (u32 \<times> u32) list))"
  obtains (found) i where "i < length ix" "index_find ix key = int i" "fst (ix ! i) = key"
  | (missing) pos where "pos \<le> length ix" "index_find ix key = - int pos - 1"
      "\<forall>i < pos. fst (ix ! i) < key" "\<forall>i < length ix. pos \<le> i \<longrightarrow> key < fst (ix ! i)"
  using key_search_result [of "length ix" "\<lambda>i. fst (ix ! i)" 0 "int (length ix) - 1" key] index_nth_less [OF assms]
  by (auto simp: index_find_def)

lemma index_find_map:
  assumes "sorted_wrt (<) (map fst (ix :: (u32 \<times> u32) list))"
  shows "case map_of ix key of None \<Rightarrow> index_find ix key < 0
    | Some slot \<Rightarrow> \<exists>i < length ix. index_find ix key = int i \<and> ix ! i = (key, slot)"
  using assms
proof (cases rule: index_find_cases [where key = key])
  case (found i)
  then have e: "ix ! i = (key, snd (ix ! i))" by auto
  then have "(key, snd (ix ! i)) \<in> set ix" using found(1) by (metis nth_mem)
  then have "map_of ix key = Some (snd (ix ! i))" using index_distinct [OF assms] by (simp add: map_of_is_SomeI)
  moreover have "\<exists>j < length ix. index_find ix key = int j \<and> ix ! j = (key, snd (ix ! i))"
    using found(1,2) e by (intro exI [of _ i]) simp
  ultimately show ?thesis by simp
next
  case (missing pos)
  then have "\<forall>i < length ix. fst (ix ! i) \<noteq> key" by (metis linorder_not_less order_less_irrefl)
  then have "key \<notin> fst ` set ix" by (metis (mono_tags) image_iff in_set_conv_nth)
  then have "map_of ix key = None" unfolding map_of_eq_None_iff .
  with missing(2) show ?thesis by simp
qed

lemma index_put_missing:
  assumes "sorted_wrt (<) (map fst (ix :: (u32 \<times> u32) list))" "pos \<le> length ix"
    "\<forall>i < pos. fst (ix ! i) < key" "\<forall>i < length ix. pos \<le> i \<longrightarrow> key < fst (ix ! i)"
  shows "sorted_wrt (<) (map fst (take pos ix @ (key, slot) # drop pos ix))"
    and "map_of (take pos ix @ (key, slot) # drop pos ix) = (map_of ix)(key \<mapsto> slot)"
proof -
  have lo: "\<forall>x\<in>set (take pos ix). fst x < key"
  proof
    fix x
    assume "x \<in> set (take pos ix)"
    then obtain i where "i < pos" "x = ix ! i" by (auto simp: in_set_conv_nth)
    then show "fst x < key" using assms(3) by simp
  qed
  have hi: "\<forall>x\<in>set (drop pos ix). key < fst x"
  proof
    fix x
    assume "x \<in> set (drop pos ix)"
    then obtain i where "i < length ix - pos" "x = ix ! (pos + i)" by (auto simp: in_set_conv_nth)
    then show "key < fst x" using assms(2,4) by simp
  qed
  have "sorted_wrt (<) (map fst (take pos ix @ drop pos ix))" using assms(1) by simp
  then have sp: "sorted_wrt (<) (map fst (take pos ix))" "sorted_wrt (<) (map fst (drop pos ix))"
    unfolding map_append sorted_wrt_append by auto
  show "sorted_wrt (<) (map fst (take pos ix @ (key, slot) # drop pos ix))"
    using lo hi sp by (auto simp: sorted_wrt_append intro: less_trans)
  have "key \<notin> fst ` set (take pos ix)" using lo by auto
  then have "map_of (take pos ix) key = None" by (simp add: map_of_eq_None_iff)
  then have "map_of (take pos ix @ (key, slot) # drop pos ix) = (map_of (take pos ix @ drop pos ix))(key \<mapsto> slot)"
    by (auto simp: fun_eq_iff map_add_def split: option.split simp del: append_take_drop_id)
  then show "map_of (take pos ix @ (key, slot) # drop pos ix) = (map_of ix)(key \<mapsto> slot)" by simp
qed

lemma index_cut:
  assumes "sorted_wrt (<) (map fst (ix :: (u32 \<times> u32) list))" "i < length ix" "ix ! i = (key, old)"
  shows "sorted_wrt (<) (map fst (take i ix @ drop (i + 1) ix))"
    and "map_of (take i ix @ drop (i + 1) ix) = (map_of ix)(key := None)"
proof -
  have "fst (ix ! i) = key" using assms(3) by simp
  then obtain xs old' ys where ix: "ix = xs @ (key, old') # ys" "length xs = i" "key \<notin> fst ` set xs" "key \<notin> fst ` set ys"
    by (rule split_pairs [OF index_distinct [OF assms(1)] assms(2)])
  then have cut: "take i ix @ drop (i + 1) ix = xs @ ys" by auto
  show "sorted_wrt (<) (map fst (take i ix @ drop (i + 1) ix))"
    using assms(1) unfolding cut unfolding ix(1) by (auto simp: sorted_wrt_append)
  have "map_of xs key = None" "map_of ys key = None" using ix(3,4) by (simp_all add: map_of_eq_None_iff)
  then show "map_of (take i ix @ drop (i + 1) ix) = (map_of ix)(key := None)"
    unfolding cut unfolding ix(1) by (auto simp: fun_eq_iff map_add_def split: option.split)
qed

text \<open>What the code does when the index is full: the lowest key goes.\<close>

definition index_room :: "(u32 \<times> u32) list \<Rightarrow> u32 \<Rightarrow> (u32 \<times> u32) list" where
  "index_room ix key = (if map_of ix key = None \<and> KVSD_INDEX_MAX \<le> length ix then drop 1 ix else ix)"

lemma index_insert_spec:
  assumes "index_ok ix"
  shows "index_ok (index_insert ix key slot)"
    and "map_of (index_insert ix key slot) = (map_of (index_room ix key))(key \<mapsto> slot)"
proof -
  have s: "sorted_wrt (<) (map fst ix)" and len: "length ix \<le> KVSD_INDEX_MAX" using assms by (auto simp: index_ok_def)
  have "index_ok (index_insert ix key slot) \<and> map_of (index_insert ix key slot) = (map_of (index_room ix key))(key \<mapsto> slot)"
  proof (cases "map_of ix key")
    case (Some old)
    with index_find_map [OF s, of key] obtain i where i: "i < length ix" "index_find ix key = int i" "ix ! i = (key, old)" by auto
    then have "index_insert ix key slot = ix[i := (key, slot)]" by (simp add: index_insert_def)
    with update_pairs [OF index_distinct [OF s] i(1), of key slot] i(3) s len show ?thesis
      by (simp add: index_ok_def index_room_def Some)
  next
    case None
    define r where "r = index_room ix key"
    have r: "r = (if KVSD_INDEX_MAX \<le> length ix then drop 1 ix else ix)" by (simp add: r_def index_room_def None)
    have sr: "sorted_wrt (<) (map fst r)" using s by (cases ix) (auto simp: r)
    have "map_of r key = None" using None by (cases ix) (auto simp: r split: if_splits)
    with index_find_map [OF sr, of key] have neg: "index_find r key < 0" by simp
    with sr obtain pos where pos: "pos \<le> length r" "index_find r key = - int pos - 1"
      "\<forall>i < pos. fst (r ! i) < key" "\<forall>i < length r. pos \<le> i \<longrightarrow> key < fst (r ! i)"
      by (cases rule: index_find_cases [where key = key]) auto
    have "index_find ix key < 0" using index_find_map [OF s, of key] None by simp
    then have "index_insert ix key slot = index_put_at r (index_find r key) key slot"
      using neg by (auto simp: index_insert_def r Let_def)
    also have "\<dots> = take pos r @ (key, slot) # drop pos r"
      by (simp add: index_put_at_def pos(2) Let_def)
    finally have e: "index_insert ix key slot = take pos r @ (key, slot) # drop pos r" .
    have "length r + 1 \<le> KVSD_INDEX_MAX" using len by (auto simp: r KVSD_INDEX_MAX_def)
    with index_put_missing [OF sr pos(1,3,4), of slot] show ?thesis
      unfolding e r_def [symmetric] by (simp add: index_ok_def)
  qed
  then show "index_ok (index_insert ix key slot)"
    and "map_of (index_insert ix key slot) = (map_of (index_room ix key))(key \<mapsto> slot)" by auto
qed

lemma index_room_submap: "index_ok ix \<Longrightarrow> map_of (index_room ix key) k' = None \<or> map_of (index_room ix key) k' = map_of ix k'"
proof (cases ix)
  case (Cons e es)
  assume "index_ok ix"
  then have "fst e \<notin> fst ` set es" using Cons by (auto simp: index_ok_def)
  then have "map_of es (fst e) = None" by (simp add: map_of_eq_None_iff)
  with Cons show ?thesis by (auto simp: index_room_def)
qed (simp add: index_room_def)

lemma index_remove_spec:
  assumes "index_ok ix"
  shows "index_ok (snd (index_remove ix key))" and "map_of (snd (index_remove ix key)) = (map_of ix)(key := None)"
    and "fst (index_remove ix key) \<longleftrightarrow> map_of ix key \<noteq> None"
proof -
  have s: "sorted_wrt (<) (map fst ix)" and len: "length ix \<le> KVSD_INDEX_MAX" using assms by (auto simp: index_ok_def)
  have "index_ok (snd (index_remove ix key)) \<and> map_of (snd (index_remove ix key)) = (map_of ix)(key := None)
    \<and> (fst (index_remove ix key) \<longleftrightarrow> map_of ix key \<noteq> None)"
  proof (cases "map_of ix key")
    case None
    with index_find_map [OF s, of key] assms show ?thesis by (auto simp: index_remove_def fun_eq_iff)
  next
    case (Some old)
    with index_find_map [OF s, of key] obtain i where i: "i < length ix" "index_find ix key = int i" "ix ! i = (key, old)" by auto
    then have "index_remove ix key = (True, take i ix @ drop (i + 1) ix)" by (simp add: index_remove_def)
    with index_cut [OF s i(1,3)] len Some show ?thesis by (simp add: index_ok_def)
  qed
  then show "index_ok (snd (index_remove ix key))" "map_of (snd (index_remove ix key)) = (map_of ix)(key := None)"
    "fst (index_remove ix key) \<longleftrightarrow> map_of ix key \<noteq> None" by auto
qed

interpretation sram: evicting_cache index_ok map_of index_insert "\<lambda>ix key. snd (index_remove ix key)"
proof unfold_locales
  fix s :: "(u32 \<times> u32) list" and k k' v :: u32
  assume "index_ok s" "k' \<noteq> k"
  then show "map_of (index_insert s k v) k' = None \<or> map_of (index_insert s k v) k' = map_of s k'"
    using index_room_submap [of s k k'] by (simp add: index_insert_spec)
qed (simp_all add: index_insert_spec index_remove_spec)

lemma index_lookup: "index_ok ix \<Longrightarrow>
    (0 \<le> index_find ix key \<longleftrightarrow> map_of ix key \<noteq> None)
    \<and> (\<forall>slot. map_of ix key = Some slot \<longrightarrow> snd (ix ! nat (index_find ix key)) = slot)"
  using index_find_map [of ix key] by (auto simp: index_ok_def split: option.splits)

text \<open>
  The SRAM index caches a map. After any sequence of insertions and removals it is sorted, holds at most 512 keys, and a
  binary search that finds a key gives the slot stored last for it: evictions lose keys but never leave a stale slot.
\<close>

theorem sram_index_hits_last:
  assumes "index_ok ix" and "r = fold (cache_step index_insert (\<lambda>ix key. snd (index_remove ix key))) ops ix"
  shows "index_ok r \<and> (0 \<le> index_find r key \<longrightarrow>
    fold map_apply ops (map_of ix) key = Some (snd (r ! nat (index_find r key))))"
proof -
  have r: "index_ok r" "map_of r \<subseteq>\<^sub>m fold map_apply ops (map_of ix)"
    using sram.run_submap [OF assms(1), of "map_of ix" ops] assms(2) by auto
  then show ?thesis using index_lookup [OF r(1), of key] by (auto simp: map_le_def dom_def)
qed

theorem sram_index_hits_last_witness:
  "let r = fold (cache_step index_insert (\<lambda>ix key. snd (index_remove ix key))) [Put (7 :: u32) (3 :: u32), Put 2 5, Put 7 4, Del 2] [] in
     r = [(7, 4)] \<and> index_ok r \<and> (0 \<le> index_find r 7 \<longrightarrow>
       fold map_apply [Put (7 :: u32) (3 :: u32), Put 2 5, Put 7 4, Del 2] (map_of []) 7 = Some (snd (r ! nat (index_find r 7))))"
  unfolding Let_def
  by (rule conjI [OF _ sram_index_hits_last [OF index_ok_Nil refl]]) code_simp

end
