(* ===== verification/SdCards.thy ===== *)
theory SdCards
  imports SdBlocks SdBitmap SdIndex
begin

text \<open>
  The card store of \<open>src/kv_sd.c\<close> against its specification, a map from keys to values. \<open>sd_rel\<close> relates a state with the
  target map \<open>M\<close> from keys to blocks and the cards \<open>E b\<close> of each live block \<open>b\<close>; each step of \<open>kvsd_put\<close>,
  \<open>kvsd_delete\<close> and \<open>kvsd_get_copy\<close> is followed through the caches, the bitmap and the card.
\<close>

subsection \<open>Views\<close>

abbreviation mx :: "sd_state \<Rightarrow> u32" where
  "mx s \<equiv> sb_max_cards (g_sb s)"

text \<open>What the code sees of a data block.\<close>

definition data_view :: "sd_state \<Rightarrow> u32 \<Rightarrow> byte list" where
  "data_view s b = (let buf = sd_blocks s (blk_addr s b) in if 512 < blk_used buf \<or> 60 < blk_count buf then empty_blk else buf)"

text \<open>The regions of the card do not overlap, and block numbers are not negative as \<open>int32_t\<close>.\<close>

definition sd_layout :: "kvsd_superblock_t \<Rightarrow> bool" where
  "sd_layout sb \<longleftrightarrow> 0 < sb_max_cards sb \<and> unat (sb_max_cards sb) < 2147483648
     \<and> (\<forall>b < sb_max_cards sb. \<forall>i < sb_hashtab_blocks sb. sb_data_start sb + b \<noteq> sb_hashtab_start sb + i)
     \<and> (\<forall>b < sb_max_cards sb. \<forall>a < sb_max_cards sb. sb_data_start sb + b \<noteq> sb_bitmap_start sb + a div 4096)
     \<and> (\<forall>i < sb_hashtab_blocks sb. \<forall>a < sb_max_cards sb. sb_hashtab_start sb + i \<noteq> sb_bitmap_start sb + a div 4096)
     \<and> (\<forall>a < sb_max_cards sb. sb_bitmap_start sb + a div 4096 \<noteq> 0xFFFFFFFF)"

definition same_layout :: "kvsd_superblock_t \<Rightarrow> kvsd_superblock_t \<Rightarrow> bool" where
  "same_layout sb sb' \<longleftrightarrow> sb_max_cards sb' = sb_max_cards sb \<and> sb_hashtab_blocks sb' = sb_hashtab_blocks sb
     \<and> sb_hashtab_start sb' = sb_hashtab_start sb \<and> sb_data_start sb' = sb_data_start sb \<and> sb_bitmap_start sb' = sb_bitmap_start sb"

lemma same_layout_simps:
  assumes "same_layout (g_sb s) (g_sb s')"
  shows "mx s' = mx s" "ht_blocks s' = ht_blocks s" "bucket_addr s' i = bucket_addr s i" "blk_addr s' b = blk_addr s b"
    "bitmap_block s' b = bitmap_block s b" "sd_layout (g_sb s') = sd_layout (g_sb s)"
  using assms by (simp_all add: same_layout_def bucket_addr_def blk_addr_def bitmap_block_def sd_layout_def)

lemma same_layout_refl [simp]: "same_layout sb sb"
  by (simp add: same_layout_def)

lemma layout_disjoint:
  assumes "sd_layout (g_sb s)"
  shows "b < mx s \<Longrightarrow> i < ht_blocks s \<Longrightarrow> blk_addr s b \<noteq> bucket_addr s i"
    "b < mx s \<Longrightarrow> a < mx s \<Longrightarrow> blk_addr s b \<noteq> bitmap_block s a"
    "i < ht_blocks s \<Longrightarrow> a < mx s \<Longrightarrow> bucket_addr s i \<noteq> bitmap_block s a"
    "\<forall>a < mx s. bitmap_block s a \<noteq> 0xFFFFFFFF"
  using assms unfolding sd_layout_def blk_addr_def bucket_addr_def bitmap_block_def by auto

lemma blk_addr_inj: "blk_addr s a = blk_addr s b \<longleftrightarrow> a = b"
  by (simp add: blk_addr_def)

text \<open>The table depends on the blocks of the buckets only.\<close>

lemma table_cong:
  assumes "\<And>b. b < n \<Longrightarrow> tb' b = tb b"
  shows "table_ok n tb' = table_ok n tb" "0 < n \<Longrightarrow> table_map n tb' = table_map n tb"
proof -
  show "table_ok n tb' = table_ok n tb" using assms unfolding table_ok_def by auto
  assume "0 < n"
  then have e: "tb' (y mod n) = tb (y mod n)" for y using assms mod_less_u32 by blast
  show "table_map n tb' = table_map n tb" unfolding table_map_def e ..
qed

lemma ht_inv_cong:
  assumes "ht_inv s" "sd_ok s' = sd_ok s" "\<forall>b. length (sd_blocks s' b) = 512" "g_ht_cache s' = g_ht_cache s"
    "same_layout (g_sb s) (g_sb s')" "\<And>i. i < ht_blocks s \<Longrightarrow> sd_blocks s' (bucket_addr s i) = sd_blocks s (bucket_addr s i)"
  shows "ht_inv s'" "ht_map s' = ht_map s"
proof -
  have v: "bucket_view s' i = bucket_view s i" if "i < ht_blocks s" for i
    using assms(5,6) that by (simp add: bucket_view_def same_layout_simps)
  then have t: "tbl s' i = tbl s i" if "i < ht_blocks s" for i using that by (simp add: tbl_def)
  have n: "0 < ht_blocks s" "ht_blocks s' = ht_blocks s" using assms(1,5) by (auto simp: ht_inv_def same_layout_simps)
  show "ht_inv s'"
    using assms(1-4) n table_cong(1) [OF t] unfolding ht_inv_def ht_ready_def
    by (auto intro: cache_ok_view v)
  show "ht_map s' = ht_map s" using table_cong(2) [OF t n(1)] by (simp add: ht_map_def n(2))
qed

subsection \<open>Cards\<close>

definition card_ok :: "byte list \<Rightarrow> nat \<Rightarrow> bool" where
  "card_ok c r \<longleftrightarrow> c \<noteq> [] \<and> (\<exists>v. c = pc_compress_card v PACKED_DATA_MAX \<and> r = length v \<and> 2 \<le> length v \<and> length v \<le> KVSD_MAX_PAYLOAD
     \<and> v ! 0 = KVSD_MAGIC_LO \<and> v ! 1 = KVSD_MAGIC_HI)"

lemma compress_length:
  assumes "length v \<le> 508"
  shows "length (pc_compress_card v cap) \<le> 516"
proof (cases "pc_compress_buffer (Some v) (length v) (Some cap)")
  case (Some res)
  show ?thesis
  proof (cases res)
    case (Inr out)
    with Some have "pc_compress_buffer (Some v) (length v) (Some cap) = Some (Inr out)" by simp
    from pc_compress_buffer_frames [OF this] obtain blocks l where
      b: "list_all (\<lambda>raw. length raw = PC_BLOCK_SIZE) blocks" "length l < PC_BLOCK_SIZE"
        "v = concat blocks @ l" "out = frames [] (blocks @ (if l = [] then [] else [l]))" by blast
    have "PC_BLOCK_SIZE * length blocks \<le> 508" using full_blocks_length [OF b(1)] b(3) assms by simp
    then have "length blocks \<le> 1" by (simp add: PC_BLOCK_SIZE_def)
    moreover have "length out \<le> length v + 4 * length (blocks @ (if l = [] then [] else [l]))"
      using frames_length [of "[]" "blocks @ (if l = [] then [] else [l])"] b(3,4) by (cases "l = []") simp_all
    ultimately have "length out \<le> 508 + 4 * 2" using assms by (auto split: if_splits)
    with Some Inr show ?thesis by (simp add: pc_compress_card_def)
  qed (simp add: pc_compress_card_def Some)
qed (simp add: pc_compress_card_def)

lemma decompress_card:
  assumes "pc_compress_card v m \<noteq> []" "length v \<le> cap" "length v \<le> 508" "v \<noteq> []"
  shows "pc_decompress_card (pc_compress_card v m) cap = Found v"
proof -
  from assms(1) obtain out where "pc_compress_buffer (Some v) (length v) (Some m) = Some (Inr out)" "pc_compress_card v m = out"
    by (auto simp: pc_compress_card_def split: option.splits sum.splits)
  then show ?thesis using decompress_compress [of v m out cap] assms by (simp add: pc_decompress_card_def)
qed

text \<open>Every key is in one block at most, except for the stale cards \<open>st\<close> that an update still has to remove.\<close>

definition cards_ok :: "u32 set \<Rightarrow> (u32 \<Rightarrow> u32 option) \<Rightarrow> (u32 \<Rightarrow> u32 \<Rightarrow> bool) \<Rightarrow> (u32 \<Rightarrow> card list) \<Rightarrow> u32
    \<Rightarrow> (u32 \<Rightarrow> byte list) \<Rightarrow> (u32 \<Rightarrow> bool) \<Rightarrow> bool" where
  "cards_ok L M st E n V B \<longleftrightarrow>
     (\<forall>b \<in> L. b < n \<and> B b \<and> block_holds (V b) (E b) \<and> distinct (map fst (E b))
        \<and> (\<forall>(k, c, r) \<in> set (E b). card_ok c r \<and> (M k = Some b \<or> st b k)))
     \<and> (\<forall>k b. M k = Some b \<longrightarrow> b \<in> L \<and> k \<in> card_keys (E b))"

definition open_ok :: "u32 set \<Rightarrow> sd_state \<Rightarrow> bool" where
  "open_ok L s \<longleftrightarrow> (let ob = sb_open_block (g_sb s); v = data_view s ob in
     ob \<in> L \<and> blk_used v \<le> unat (sb_open_used (g_sb s)) \<and> blk_count v \<le> unat (sb_open_count (g_sb s))
     \<and> (g_open_cached s \<longrightarrow> g_open_blk s = v))"

definition sd_rel :: "u32 set \<Rightarrow> (u32 \<Rightarrow> u32 option) \<Rightarrow> (u32 \<Rightarrow> u32 \<Rightarrow> bool) \<Rightarrow> (u32 \<Rightarrow> card list) \<Rightarrow> sd_state \<Rightarrow> bool" where
  "sd_rel L M st E s \<longleftrightarrow> sd_layout (g_sb s) \<and> ht_inv s \<and> cache_ok (data_view s) (\<lambda>b. b < mx s) (g_data_cache s)
     \<and> cards_ok L M st E (mx s) (data_view s) (bit_of s) \<and> open_ok L s"

text \<open>The three tiers that lead to a block agree with the map.\<close>

definition tiers_ok :: "(u32 \<Rightarrow> u32 option) \<Rightarrow> sd_state \<Rightarrow> bool" where
  "tiers_ok M s \<longleftrightarrow> ht_map s = M \<and> index_ok (g_sram s) \<and> map_of (g_sram s) \<subseteq>\<^sub>m M
     \<and> (\<forall>k. 0 \<le> fidx_lookup s k \<longrightarrow> (\<exists>b. M k = Some b \<and> fidx_lookup s k = sint b))"

definition same_rest :: "sd_state \<Rightarrow> sd_state \<Rightarrow> bool" where
  "same_rest s s' \<longleftrightarrow> ht_map s' = ht_map s \<and> g_sram s' = g_sram s \<and> g_fidx_count s' = g_fidx_count s \<and> sd_flash s' = sd_flash s
     \<and> g_ready s' = g_ready s \<and> same_layout (g_sb s) (g_sb s')"

lemma fidx_lookup_cong: "g_fidx_count s' = g_fidx_count s \<Longrightarrow> sd_flash s' = sd_flash s \<Longrightarrow> fidx_lookup s' k = fidx_lookup s k"
  by (simp add: fidx_lookup_def fidx_find_def fidx_xip_def Let_def)

lemma tiers_same_rest: "same_rest s s' \<Longrightarrow> tiers_ok M s \<Longrightarrow> tiers_ok M s'"
proof -
  assume s: "same_rest s s'" "tiers_ok M s"
  then have "fidx_lookup s' = fidx_lookup s" by (intro ext fidx_lookup_cong) (simp_all add: same_rest_def)
  with s show ?thesis by (simp add: same_rest_def tiers_ok_def)
qed

lemma same_rest_trans: "same_rest s s1 \<Longrightarrow> same_rest s1 s2 \<Longrightarrow> same_rest s s2"
  by (simp add: same_rest_def same_layout_def)

lemma fidx_none: "g_fidx_count s = 0 \<Longrightarrow> fidx_lookup s k = - 1"
  by (simp add: fidx_lookup_def fidx_find_def)

subsection \<open>Reading and writing data blocks\<close>

lemma sd_rel_ready:
  assumes "sd_rel L M st E s"
  shows "sd_layout (g_sb s)" "ht_inv s" "\<forall>n. sd_ok s n" "\<forall>b. length (sd_blocks s b) = 512"
    "cache_ok (data_view s) (\<lambda>b. b < mx s) (g_data_cache s)" "cards_ok L M st E (mx s) (data_view s) (bit_of s)" "open_ok L s"
  using assms by (auto simp: sd_rel_def ht_inv_def ht_ready_def)

lemma cards_okD:
  assumes "cards_ok L M st E n V B" "b \<in> L"
  shows "b < n" "B b" "block_holds (V b) (E b)" "distinct (map fst (E b))"
    "(k, c, r) \<in> set (E b) \<Longrightarrow> card_ok c r" "(k, c, r) \<in> set (E b) \<Longrightarrow> M k = Some b \<or> st b k"
  using assms unfolding cards_ok_def by fastforce+

lemma cards_okM: "cards_ok L M st E n V B \<Longrightarrow> M k = Some b \<Longrightarrow> b \<in> L \<and> k \<in> card_keys (E b)"
  by (simp add: cards_ok_def)

text \<open>Only the data cache and the count of transfers change.\<close>

definition read_only :: "sd_state \<Rightarrow> sd_state \<Rightarrow> bool" where
  "read_only s s' \<longleftrightarrow> (\<exists>n cs. s' = s\<lparr>sd_ops := n, g_data_cache := cs\<rparr>)"

lemma read_only_same: "read_only s s' \<Longrightarrow> same_layout (g_sb s) (g_sb s') \<and> data_view s' = data_view s \<and> bit_of s' = bit_of s
    \<and> g_sb s' = g_sb s \<and> g_open_cached s' = g_open_cached s \<and> g_open_blk s' = g_open_blk s"
  by (auto simp: read_only_def data_view_def blk_addr_def bit_of_def bitmap_block_def fun_eq_iff)

lemma read_only_ht: "read_only s s' \<Longrightarrow> ht_inv s \<Longrightarrow> ht_inv s' \<and> ht_map s' = ht_map s"
proof -
  assume r: "read_only s s'" and ht: "ht_inv s"
  then have f: "sd_ok s' = sd_ok s" "\<forall>b. length (sd_blocks s' b) = 512" "g_ht_cache s' = g_ht_cache s" "same_layout (g_sb s) (g_sb s')"
    and e: "sd_blocks s' (bucket_addr s i) = sd_blocks s (bucket_addr s i)" for i
    by (auto simp: read_only_def ht_inv_def ht_ready_def)
  show ?thesis using ht_inv_cong [OF ht f e] by simp
qed

lemma packed_read_spec:
  assumes ok: "\<forall>n. sd_ok s n" and c: "cache_ok (data_view s) (\<lambda>b. b < mx s) (g_data_cache s)" and b: "b < mx s"
  obtains s' where "packed_read s b = (Some (data_view s b), s')" "read_only s s'"
    "cache_ok (data_view s) (\<lambda>b. b < mx s) (g_data_cache s')"
proof (cases "cache_find (g_data_cache s) b")
  case (Some i)
  define s' where "s' = s\<lparr>g_data_cache := cache_touch (g_data_cache s) i\<rparr>"
  have "packed_read s b = (Some (data_view s b), s')"
    using cache_hit [OF c Some] by (simp add: packed_read_def data_cache_read_def Some s'_def)
  moreover have "read_only s s'" unfolding read_only_def s'_def by (intro exI [of _ "sd_ops s"] exI) simp
  moreover have "cache_ok (data_view s) (\<lambda>b. b < mx s) (g_data_cache s')"
    using cache_ok_touch [OF c] cache_find_Some [OF Some] by (simp add: s'_def)
  ultimately show ?thesis by (rule that)
next
  case None
  define cs where "cs = (g_data_cache s)[cache_evict (g_data_cache s) 0 0 0 := \<lparr>cl_num = b, cl_data = data_view s b, cl_age = 0, cl_valid = True\<rparr>]"
  define s' where "s' = s\<lparr>sd_ops := sd_ops s + 1, g_data_cache := cs\<rparr>"
  have "packed_read s b = (Some (data_view s b), s')"
    unfolding packed_read_def data_cache_read_def None option.case prod.case sd_read_ok [OF ok] Let_def
    by (simp add: data_cache_insert_def Let_def s'_def cs_def) (simp add: data_view_def)
  moreover have "read_only s s'" unfolding read_only_def s'_def by blast
  moreover have "cache_ok (data_view s) (\<lambda>b. b < mx s) (g_data_cache s')"
  proof -
    have "cache_evict (g_data_cache s) 0 0 0 < length (g_data_cache s)"
      using c by (intro cache_evict_bound) (simp add: cache_ok_def)
    then show ?thesis using b cache_find_None [OF None]
      by (simp add: s'_def cs_def) (intro cache_ok_update [OF c]; simp)
  qed
  ultimately show ?thesis by (rule that)
qed

lemma sd_rel_read_only:
  assumes "sd_rel L M st E s" "read_only s s'" "cache_ok (data_view s) (\<lambda>b. b < mx s) (g_data_cache s')"
  shows "sd_rel L M st E s'" "same_rest s s'"
proof -
  note r = read_only_same [OF assms(2)]
  have "open_ok L s'" using assms(1) r by (simp add: sd_rel_def open_ok_def)
  then show "sd_rel L M st E s'" using assms(1,3) r read_only_ht [OF assms(2)] by (simp add: sd_rel_def)
  show "same_rest s s'" using read_only_ht [OF assms(2)] assms(1,2) by (auto simp: same_rest_def sd_rel_def read_only_def)
qed

text \<open>A write to a data block, with its line of the data cache dropped.\<close>

definition put_block :: "sd_state \<Rightarrow> u32 \<Rightarrow> byte list \<Rightarrow> sd_state" where
  "put_block s b blk = data_cache_invalidate (snd (sd_write_block s (blk_addr s b) blk)) b"

lemma put_block_spec:
  assumes lay: "sd_layout (g_sb s)" and ht: "ht_inv s" and c: "cache_ok (data_view s) (\<lambda>b. b < mx s) (g_data_cache s)"
    and b: "b < mx s" and blk: "block_holds blk es"
  defines "s' \<equiv> put_block s b blk"
  shows "ht_inv s'" "ht_map s' = ht_map s" "cache_ok (data_view s') (\<lambda>b. b < mx s') (g_data_cache s')"
    "data_view s' = (data_view s)(b := blk)" "\<And>a. a < mx s \<Longrightarrow> bit_of s' a = bit_of s a"
    "s' = s\<lparr>sd_blocks := sd_blocks s', sd_ops := sd_ops s', g_data_cache := g_data_cache s'\<rparr>"
proof -
  have ok: "\<forall>n. sd_ok s n" and len: "\<forall>b. length (sd_blocks s b) = 512" using ht by (auto simp: ht_inv_def ht_ready_def)
  define cs where "cs = map (\<lambda>c. if cl_valid c \<and> cl_num c = b then c\<lparr>cl_valid := False\<rparr> else c) (g_data_cache s)"
  have s': "s' = s\<lparr>sd_ops := sd_ops s + 1, sd_blocks := (sd_blocks s)(blk_addr s b := blk), g_data_cache := cs\<rparr>"
    by (simp add: s'_def put_block_def sd_write_ok [OF ok] data_cache_invalidate_def cs_def)
  have h: "length blk = 512" "\<not> 512 < blk_used blk" "\<not> 60 < blk_count blk" using blk by (auto simp: block_holds_def)
  have l: "\<forall>a. length (sd_blocks s' a) = 512" using len h(1) by (simp add: s')
  have e: "sd_blocks s' (bucket_addr s i) = sd_blocks s (bucket_addr s i)" if "i < ht_blocks s" for i
    using layout_disjoint(1) [OF lay b that] by (simp add: s')
  have f: "sd_ok s' = sd_ok s" "g_ht_cache s' = g_ht_cache s" "same_layout (g_sb s) (g_sb s')" by (simp_all add: s')
  show "ht_inv s'" "ht_map s' = ht_map s" using ht_inv_cong [OF ht f(1) l f(2,3) e] by auto
  show dv: "data_view s' = (data_view s)(b := blk)"
  proof
    fix a
    show "data_view s' a = ((data_view s)(b := blk)) a"
      using h blk_addr_inj [of s a b] by (cases "a = b") (auto simp: data_view_def s' blk_addr_def Let_def)
  qed
  show "cache_ok (data_view s') (\<lambda>b. b < mx s') (g_data_cache s')"
    unfolding dv using cache_ok_invalidate [OF c, of b "(data_view s)(b := blk)"] by (simp add: s' cs_def)
  show "bit_of s' a = bit_of s a" if "a < mx s" for a
    using layout_disjoint(2) [OF lay b that] by (auto simp: bit_of_def s' bitmap_block_def blk_addr_def)
  show "s' = s\<lparr>sd_blocks := sd_blocks s', sd_ops := sd_ops s', g_data_cache := g_data_cache s'\<rparr>" by (simp add: s')
qed

subsection \<open>What leaves the relation alone\<close>

lemma cards_ok_views:
  assumes "cards_ok L M st E n V B" "\<And>b. b < n \<Longrightarrow> V' b = V b" "\<And>b. b < n \<Longrightarrow> B' b = B b"
  shows "cards_ok L M st E n V' B'"
  using assms unfolding cards_ok_def by auto

lemma sd_rel_cong:
  assumes "sd_rel L M st E s" "ht_inv s'" "same_layout (g_sb s) (g_sb s')" "g_data_cache s' = g_data_cache s"
    "g_open_blk s' = g_open_blk s" "g_open_cached s' = g_open_cached s"
    "sb_open_block (g_sb s') = sb_open_block (g_sb s)" "sb_open_used (g_sb s') = sb_open_used (g_sb s)"
    "sb_open_count (g_sb s') = sb_open_count (g_sb s)"
    "\<And>b. b < mx s \<Longrightarrow> sd_blocks s' (blk_addr s b) = sd_blocks s (blk_addr s b)"
    "\<And>b. b < mx s \<Longrightarrow> sd_blocks s' (bitmap_block s b) = sd_blocks s (bitmap_block s b)"
  shows "sd_rel L M st E s'"
proof -
  note r = sd_rel_ready [OF assms(1)]
  note sl = same_layout_simps [OF assms(3)]
  have v: "data_view s' b = data_view s b" if "b < mx s" for b using assms(10) that by (simp add: data_view_def sl)
  have bt: "bit_of s' b = bit_of s b" if "b < mx s" for b using assms(11) that by (simp add: bit_of_def sl)
  have "sb_open_block (g_sb s) < mx s" using r(7) cards_okD(1) [OF r(6)] by (auto simp: open_ok_def Let_def)
  then have "open_ok L s'" using r(7) v by (simp add: open_ok_def assms(5-9) Let_def)
  moreover have "cache_ok (data_view s') (\<lambda>b. b < mx s') (g_data_cache s')"
    unfolding sl assms(4) by (rule cache_ok_view [OF r(5) v])
  moreover have "cards_ok L M st E (mx s') (data_view s') (bit_of s')"
    unfolding sl by (rule cards_ok_views [OF r(6) v bt])
  ultimately show ?thesis using r(1) assms(2) by (simp add: sd_rel_def sl)
qed

lemma sd_rel_ht_frame:
  assumes "sd_rel L M st E s" "ht_frame s s'" "ht_inv s'"
  shows "sd_rel L M st E s'"
proof (rule sd_rel_cong [OF assms(1,3)])
  note f = ht_frame_simps [OF assms(2)]
  note lay = layout_disjoint [OF sd_rel_ready(1) [OF assms(1)]]
  have out: "sd_blocks s' a = sd_blocks s a" if "\<forall>i < ht_blocks s. a \<noteq> bucket_addr s i" for a
    using assms(2) that by (simp add: ht_frame_def)
  show "same_layout (g_sb s) (g_sb s')" "g_data_cache s' = g_data_cache s" "g_open_blk s' = g_open_blk s" "g_open_cached s' = g_open_cached s"
    "sb_open_block (g_sb s') = sb_open_block (g_sb s)" "sb_open_used (g_sb s') = sb_open_used (g_sb s)"
    "sb_open_count (g_sb s') = sb_open_count (g_sb s)" by (simp_all add: f)
  show "sd_blocks s' (blk_addr s b) = sd_blocks s (blk_addr s b)" if "b < mx s" for b using lay(1) [OF that] out by blast
  show "sd_blocks s' (bitmap_block s b) = sd_blocks s (bitmap_block s b)" if "b < mx s" for b
    using lay(3) [OF _ that] by (intro out) metis
qed

text \<open>The same blocks and caches.\<close>

definition same_store :: "sd_state \<Rightarrow> sd_state \<Rightarrow> bool" where
  "same_store s s' \<longleftrightarrow> sd_ok s' = sd_ok s \<and> sd_blocks s' = sd_blocks s \<and> g_ht_cache s' = g_ht_cache s \<and> g_data_cache s' = g_data_cache s
     \<and> g_open_blk s' = g_open_blk s \<and> g_open_cached s' = g_open_cached s \<and> same_layout (g_sb s) (g_sb s')
     \<and> sb_open_block (g_sb s') = sb_open_block (g_sb s) \<and> sb_open_used (g_sb s') = sb_open_used (g_sb s)
     \<and> sb_open_count (g_sb s') = sb_open_count (g_sb s)"

lemma same_store_ht:
  assumes "same_store s s'" "ht_inv s"
  shows "ht_inv s'" "ht_map s' = ht_map s"
  using ht_inv_cong [OF assms(2), of s'] assms by (simp_all add: same_store_def ht_inv_def ht_ready_def)

lemma sd_rel_same_store: "sd_rel L M st E s \<Longrightarrow> same_store s s' \<Longrightarrow> sd_rel L M st E s'"
  using same_store_ht(1) [of s s'] by (intro sd_rel_cong [of L M st E s s']) (auto simp: same_store_def sd_rel_def)

subsection \<open>Finding the block of a key\<close>

lemma word_of_sint [simp]: "word_of_int (sint (w :: u32)) = w"
  by simp

lemma promote_ok:
  assumes "sd_rel L M st E s" "tiers_ok M s" "M k = Some b"
  shows "sd_rel L M st E (snd (promote s k (sint b)))" "tiers_ok M (snd (promote s k (sint b)))"
proof -
  define s' where "s' = snd (promote s k (sint b))"
  have s': "s' = s\<lparr>g_sram := index_insert (g_sram s) k b\<rparr>" by (simp add: s'_def promote_def)
  have ss: "same_store s s'" by (simp add: s' same_store_def)
  show "sd_rel L M st E (snd (promote s k (sint b)))"
    using sd_rel_same_store [OF assms(1) ss] by (simp add: s'_def)
  have ix: "index_ok (g_sram s)" "map_of (g_sram s) \<subseteq>\<^sub>m M" using assms(2) by (auto simp: tiers_ok_def)
  have "M(k \<mapsto> b) = M" using assms(3) by auto
  then have "map_of (g_sram s') \<subseteq>\<^sub>m M" "index_ok (g_sram s')"
    using sram.put_submap [OF ix, of k b] sram.put_inv [OF ix(1)] by (simp_all add: s')
  moreover have "ht_map s' = ht_map s" using same_store_ht(2) [OF ss] assms(1) by (simp add: sd_rel_def)
  moreover have "fidx_lookup s' k' = fidx_lookup s k'" for k' by (rule fidx_lookup_cong) (simp_all add: s')
  ultimately show "tiers_ok M (snd (promote s k (sint b)))"
    using assms(2) unfolding s'_def [symmetric] by (simp add: tiers_ok_def)
qed

definition key_slot :: "(u32 \<Rightarrow> u32 option) \<Rightarrow> u32 \<Rightarrow> int" where
  "key_slot M k = (case M k of None \<Rightarrow> - 1 | Some b \<Rightarrow> sint b)"

lemma find_slot_spec:
  assumes rel: "sd_rel L M st E s" and t: "tiers_ok M s"
  obtains s' where "find_slot_for_key s k = (key_slot M k, s')" "sd_rel L M st E s'" "tiers_ok M s'"
    "g_sb s' = g_sb s" "g_ready s' = g_ready s" "g_fidx_count s' = g_fidx_count s"
proof (cases "map_of (g_sram s) k")
  case (Some b)
  have "index_ok (g_sram s)" "map_of (g_sram s) \<subseteq>\<^sub>m M" using t by (auto simp: tiers_ok_def)
  then have "0 \<le> index_find (g_sram s) k" "snd (g_sram s ! nat (index_find (g_sram s) k)) = b" "M k = Some b"
    using index_lookup [of "g_sram s" k] Some by (auto simp: map_le_def dom_def)
  then have "find_slot_for_key s k = (key_slot M k, s)" by (simp add: find_slot_for_key_def Let_def key_slot_def)
  then show ?thesis using rel t by (intro that) auto
next
  case None
  have "index_ok (g_sram s)" using t by (simp add: tiers_ok_def)
  then have n: "\<not> 0 \<le> index_find (g_sram s) k" using index_lookup [of "g_sram s" k] None by auto
  show ?thesis
  proof (cases "0 \<le> fidx_lookup s k")
    case True
    then obtain b where b: "M k = Some b" "fidx_lookup s k = sint b" using t by (auto simp: tiers_ok_def)
    then have "find_slot_for_key s k = (key_slot M k, snd (promote s k (sint b)))"
      using n True by (simp add: find_slot_for_key_def Let_def key_slot_def promote_def)
    then show ?thesis using promote_ok [OF rel t b(1)] that [of "snd (promote s k (sint b))"]
      by (simp add: promote_def)
  next
    case False
    have ht: "ht_inv s" and m: "ht_map s = M" using rel t by (auto simp: sd_rel_def tiers_ok_def)
    have "\<exists>s1. ht_lookup s k = (key_slot M k, s1) \<and> ht_frame s s1 \<and> ht_inv s1 \<and> ht_map s1 = ht_map s"
      using ht_lookup_spec [OF ht, of k] by (simp only: key_slot_def m)
    then obtain s1 where s1: "ht_lookup s k = (key_slot M k, s1)" "ht_frame s s1" "ht_inv s1" "ht_map s1 = ht_map s" by blast
    note f = ht_frame_simps [OF s1(2)]
    have r1: "sd_rel L M st E s1" by (rule sd_rel_ht_frame [OF rel s1(2,3)])
    have t1: "tiers_ok M s1" using s1(4) by (intro tiers_same_rest [OF _ t]) (simp add: same_rest_def f)
    show ?thesis
    proof (cases "M k")
      case None
      then have "find_slot_for_key s k = (key_slot M k, s1)"
        using n False s1(1) by (simp add: find_slot_for_key_def Let_def key_slot_def)
      then show ?thesis using r1 t1 that [of s1] by (simp add: f)
    next
      case (Some b)
      then have "0 \<le> sint b" using ht_map_sint [OF ht, of k b] m by simp
      then have "find_slot_for_key s k = (key_slot M k, snd (promote s1 k (sint b)))"
        using n False s1(1) Some by (simp add: find_slot_for_key_def Let_def key_slot_def promote_def)
      then show ?thesis using promote_ok [OF r1 t1 Some] that [of "snd (promote s1 k (sint b))"]
        by (simp add: promote_def f)
    qed
  qed
qed

subsection \<open>Appending a card\<close>

text \<open>A state whose open block is in memory only, as after the allocation of a new one.\<close>

definition open_rel :: "u32 set \<Rightarrow> (u32 \<Rightarrow> u32 option) \<Rightarrow> (u32 \<Rightarrow> u32 \<Rightarrow> bool) \<Rightarrow> (u32 \<Rightarrow> card list) \<Rightarrow> sd_state \<Rightarrow> bool" where
  "open_rel L M st E s \<longleftrightarrow> sd_layout (g_sb s) \<and> ht_inv s \<and> cache_ok (data_view s) (\<lambda>b. b < mx s) (g_data_cache s)
     \<and> sb_open_block (g_sb s) \<in> L \<and> g_open_cached s
     \<and> cards_ok L M st E (mx s) ((data_view s)(sb_open_block (g_sb s) := g_open_blk s)) (bit_of s)"

text \<open>The stale card that the new one leaves behind.\<close>

definition stale :: "(u32 \<Rightarrow> u32 option) \<Rightarrow> u32 \<Rightarrow> u32 \<Rightarrow> u32 \<Rightarrow> bool" where
  "stale M k b k' \<longleftrightarrow> k' = k \<and> M k = Some b"

definition append_state :: "sd_state \<Rightarrow> byte list \<Rightarrow> sd_state" where
  "append_state s blk = s\<lparr>g_open_blk := blk, g_sb := (g_sb s)\<lparr>sb_open_used := word_of_nat (blk_used blk),
     sb_open_count := word_of_nat (blk_count blk)\<rparr>\<rparr>"

lemma cards_ok_append:
  assumes ok: "cards_ok L M (\<lambda>b k. False) E n (V(ob := blk)) B" and ob: "ob \<in> L" and k: "k \<notin> card_keys (E ob)"
    and c: "card_ok c r" and blk': "block_holds blk' (E ob @ [(k, c, r)])"
  shows "cards_ok L (M(k \<mapsto> ob)) (stale M k) (E(ob := E ob @ [(k, c, r)])) n (V(ob := blk')) B"
  unfolding cards_ok_def
proof (intro conjI ballI allI impI)
  fix b
  assume b: "b \<in> L"
  note d = cards_okD [OF ok b]
  show "b < n" "B b" by (fact d)+
  show "block_holds ((V(ob := blk')) b) ((E(ob := E ob @ [(k, c, r)])) b)" using d(3) blk' by (auto split: if_splits)
  show "distinct (map fst ((E(ob := E ob @ [(k, c, r)])) b))" using d(4) k by auto
  show "case x of (k', c', r') \<Rightarrow> card_ok c' r' \<and> ((M(k \<mapsto> ob)) k' = Some b \<or> stale M k b k')"
    if x: "x \<in> set ((E(ob := E ob @ [(k, c, r)])) b)" for x
  proof (cases "x \<in> set (E b)")
    case True
    moreover obtain k' c' r' where x': "x = (k', c', r')" by (cases x)
    ultimately have "card_ok c' r'" "M k' = Some b" using d(5,6) [of k' c' r'] by auto
    then show ?thesis unfolding x' by (cases "k' = k") (simp_all add: stale_def)
  next
    case False
    then have "b = ob" "x = (k, c, r)" using x by (auto split: if_splits)
    then show ?thesis using c by simp
  qed
next
  fix k' b
  assume "(M(k \<mapsto> ob)) k' = Some b"
  then show "b \<in> L" "k' \<in> card_keys ((E(ob := E ob @ [(k, c, r)])) b)"
    using ob cards_okM [OF ok, of k' b] by (auto split: if_splits)
qed

lemma append_block:
  fixes k r
  assumes lay: "sd_layout (g_sb s)" and ht: "ht_inv s" and ca: "cache_ok (data_view s) (\<lambda>b. b < mx s) (g_data_cache s)"
    and obm: "sb_open_block (g_sb s) < mx s" and oc: "g_open_cached s" and h0: "block_holds (g_open_blk s) es"
    and n: "blk_count (g_open_blk s) < 60" and fit: "blk_used (g_open_blk s) + 8 + length c \<le> 512"
  defines "ob \<equiv> sb_open_block (g_sb s)"
    and "blk' \<equiv> set_count_used (blit (g_open_blk s) (blk_used (g_open_blk s)) (entry_bytes k c r)) (blk_count (g_open_blk s) + 1)
      (blk_used (g_open_blk s) + (8 + length c))"
  defines "s' \<equiv> put_block (append_state s blk') ob blk'"
  shows "block_holds blk' (es @ [(k, c, r)])" "ht_inv s'" "cache_ok (data_view s') (\<lambda>b. b < mx s') (g_data_cache s')"
    "data_view s' = (data_view s)(ob := blk')" "\<And>a. a < mx s \<Longrightarrow> bit_of s' a = bit_of s a" "same_rest s s'"
    "sb_open_block (g_sb s') = ob" "g_open_cached s'" "g_open_blk s' = blk'"
    "sb_open_used (g_sb s') = word_of_nat (blk_used blk')" "sb_open_count (g_sb s') = word_of_nat (blk_count blk')"
proof -
  show h: "block_holds blk' (es @ [(k, c, r)])"
    unfolding blk'_def using h0 n fit by (intro block_append) (auto simp: block_holds_def)
  define s1 where "s1 = append_state s blk'"
  have s1: "same_layout (g_sb s) (g_sb s1)" "sd_ok s1 = sd_ok s" "sd_blocks s1 = sd_blocks s" "g_ht_cache s1 = g_ht_cache s"
    "g_data_cache s1 = g_data_cache s" "sb_open_block (g_sb s1) = ob" "g_open_cached s1" "g_open_blk s1 = blk'"
    "sb_open_used (g_sb s1) = word_of_nat (blk_used blk')" "sb_open_count (g_sb s1) = word_of_nat (blk_count blk')"
    "g_sram s1 = g_sram s" "g_fidx_count s1 = g_fidx_count s" "sd_flash s1 = sd_flash s" "g_ready s1 = g_ready s"
    using oc by (simp_all add: s1_def append_state_def same_layout_def ob_def)
  have v1: "data_view s1 = data_view s" "bit_of s1 = bit_of s"
    using s1(1,3) by (auto simp: data_view_def bit_of_def same_layout_simps fun_eq_iff)
  have ht1: "ht_inv s1" "ht_map s1 = ht_map s"
    using ht_inv_cong [OF ht s1(2) _ s1(4,1)] ht by (auto simp: s1(3) ht_inv_def ht_ready_def)
  note sl = same_layout_simps [OF s1(1)]
  have "sd_layout (g_sb s1)" "cache_ok (data_view s1) (\<lambda>b. b < mx s1) (g_data_cache s1)" "ob < mx s1"
    using lay ca obm by (simp_all add: sl v1 s1(5) ob_def)
  note q = put_block_spec [OF this(1) ht1(1) this(2,3) h]
  have p: "ht_inv s'" "ht_map s' = ht_map s1" "cache_ok (data_view s') (\<lambda>b. b < mx s') (g_data_cache s')"
    "data_view s' = (data_view s1)(ob := blk')" "\<And>a. a < mx s1 \<Longrightarrow> bit_of s' a = bit_of s1 a"
    "s' = s1\<lparr>sd_blocks := sd_blocks s', sd_ops := sd_ops s', g_data_cache := g_data_cache s'\<rparr>"
    unfolding s'_def s1_def [symmetric] by (fact q)+
  have sb: "g_sb s' = g_sb s1" "g_open_blk s' = g_open_blk s1" "g_open_cached s' = g_open_cached s1" "g_sram s' = g_sram s1"
    "g_fidx_count s' = g_fidx_count s1" "sd_flash s' = sd_flash s1" "g_ready s' = g_ready s1"
    by (subst p(6), simp)+
  show "ht_inv s'" "cache_ok (data_view s') (\<lambda>b. b < mx s') (g_data_cache s')" by (fact p)+
  show "data_view s' = (data_view s)(ob := blk')" "\<And>a. a < mx s \<Longrightarrow> bit_of s' a = bit_of s a"
    using p(4,5) by (simp_all add: v1 sl)
  show "same_rest s s'" using p(2) ht1(2) s1(1) by (simp add: same_rest_def sb s1)
  show "sb_open_block (g_sb s') = ob" "g_open_cached s'" "g_open_blk s' = blk'" "sb_open_used (g_sb s') = word_of_nat (blk_used blk')"
    "sb_open_count (g_sb s') = word_of_nat (blk_count blk')" by (simp_all add: sb s1)
qed

lemma append_card:
  assumes rel: "open_rel L M (\<lambda>b k. False) E s" and k: "k \<notin> card_keys (E (sb_open_block (g_sb s)))" and c: "card_ok c r"
    and n: "blk_count (g_open_blk s) < 60" and fit: "blk_used (g_open_blk s) + 8 + length c \<le> 512"
  defines "ob \<equiv> sb_open_block (g_sb s)"
    and "blk' \<equiv> set_count_used (blit (g_open_blk s) (blk_used (g_open_blk s)) (entry_bytes k c r)) (blk_count (g_open_blk s) + 1)
      (blk_used (g_open_blk s) + (8 + length c))"
  defines "s' \<equiv> put_block (append_state s blk') ob blk'"
  shows "sd_rel L (M(k \<mapsto> ob)) (stale M k) (E(ob := E ob @ [(k, c, r)])) s'" "same_rest s s'"
proof -
  have lay: "sd_layout (g_sb s)" and ht: "ht_inv s" and ca: "cache_ok (data_view s) (\<lambda>b. b < mx s) (g_data_cache s)"
    and ob: "ob \<in> L" and oc: "g_open_cached s"
    and ok: "cards_ok L M (\<lambda>b k. False) E (mx s) ((data_view s)(ob := g_open_blk s)) (bit_of s)"
    using rel by (auto simp: open_rel_def ob_def)
  have obm: "ob < mx s" and h0: "block_holds (g_open_blk s) (E ob)" using cards_okD(1,3) [OF ok ob] by auto
  note p = append_block [OF lay ht ca obm [unfolded ob_def] oc h0 n fit, where k = k and r = r, folded ob_def, folded blk'_def, folded s'_def]
  show same: "same_rest s s'" by (fact p(6))
  then have "same_layout (g_sb s) (g_sb s')" by (simp add: same_rest_def)
  note sl = same_layout_simps(1) [OF this] same_layout_simps(6) [OF this]
  have "blk_used blk' \<le> 512" "blk_count blk' \<le> 60" using p(1) by (auto simp: block_holds_def)
  then have "open_ok L s'" using ob by (simp add: open_ok_def Let_def p(4,7-11) unat_of_nat)
  moreover have "cards_ok L (M(k \<mapsto> ob)) (stale M k) (E(ob := E ob @ [(k, c, r)])) (mx s') (data_view s') (bit_of s')"
    using cards_ok_views [OF cards_ok_append [OF ok ob k [folded ob_def] c p(1)]] p(5) unfolding p(4) sl(1) by auto
  ultimately show "sd_rel L (M(k \<mapsto> ob)) (stale M k) (E(ob := E ob @ [(k, c, r)])) s'"
    using sl(2) lay p(2,3) by (simp add: sd_rel_def)
qed

lemma bitmap_set_rel:
  fixes used :: bool
  assumes lay: "sd_layout (g_sb s)" and ht: "ht_inv s" and ca: "cache_ok (data_view s) (\<lambda>b. b < mx s) (g_data_cache s)" and b: "slot < mx s"
  defines "s' \<equiv> snd (bitmap_set s slot used)"
  shows "ht_inv s'" "ht_map s' = ht_map s" "cache_ok (data_view s') (\<lambda>b. b < mx s') (g_data_cache s')"
    "\<And>a. a < mx s \<Longrightarrow> data_view s' a = data_view s a" "\<And>a. bit_of s' a = (if a = slot then used else bit_of s a)"
    "s' = s\<lparr>sd_ops := sd_ops s', sd_blocks := sd_blocks s'\<rparr>"
proof -
  have ok: "\<forall>n. sd_ok s n" and len: "\<forall>b. length (sd_blocks s b) = 512" using ht by (auto simp: ht_inv_def ht_ready_def)
  obtain buf n where e: "bitmap_set s slot used = (True, s\<lparr>sd_ops := n, sd_blocks := (sd_blocks s)(bitmap_block s slot := buf)\<rparr>)"
    "length buf = 512"
    "\<And>m a. bit_of (s\<lparr>sd_ops := m, sd_blocks := (sd_blocks s)(bitmap_block s slot := buf)\<rparr>) a = (if a = slot then used else bit_of s a)"
    by (rule bitmap_set_spec [OF ok len, of slot used]) blast
  have s': "s' = s\<lparr>sd_ops := n, sd_blocks := (sd_blocks s)(bitmap_block s slot := buf)\<rparr>" by (simp add: s'_def e(1))
  show "\<And>a. bit_of s' a = (if a = slot then used else bit_of s a)" unfolding s' by (rule e(3))
  show "s' = s\<lparr>sd_ops := sd_ops s', sd_blocks := sd_blocks s'\<rparr>" by (simp add: s')
  have l: "\<forall>a. length (sd_blocks s' a) = 512" using len e(2) by (simp add: s')
  have bk: "sd_blocks s' (bucket_addr s i) = sd_blocks s (bucket_addr s i)" if "i < ht_blocks s" for i
    using layout_disjoint(3) [OF lay that b] by (simp add: s')
  have f: "sd_ok s' = sd_ok s" "g_ht_cache s' = g_ht_cache s" "same_layout (g_sb s) (g_sb s')" by (simp_all add: s')
  show "ht_inv s'" "ht_map s' = ht_map s" using ht_inv_cong [OF ht f(1) l f(2,3) bk] by auto
  show v: "data_view s' a = data_view s a" if "a < mx s" for a
    using layout_disjoint(2) [OF lay that b] by (simp add: s' data_view_def blk_addr_def)
  show "cache_ok (data_view s') (\<lambda>b. b < mx s') (g_data_cache s')"
    using cache_ok_view [OF ca, of "data_view s'"] v by (simp add: s')
qed

text \<open>The compressed card of a key.\<close>

definition card_of :: "(u32 \<Rightarrow> u32 option) \<Rightarrow> (u32 \<Rightarrow> card list) \<Rightarrow> u32 \<Rightarrow> byte list option" where
  "card_of M E k = (case M k of None \<Rightarrow> None | Some b \<Rightarrow> map_option fst (map_of (E b) k))"

lemma card_of_append:
  assumes "k \<notin> card_keys (E nb)"
  shows "card_of (M(k \<mapsto> nb)) (E(nb := E nb @ [(k, c, r)])) = (card_of M E)(k \<mapsto> c)"
proof
  fix k'
  have k: "map_of (E nb) k = None" using assms by (simp add: map_of_eq_None_iff)
  show "card_of (M(k \<mapsto> nb)) (E(nb := E nb @ [(k, c, r)])) k' = ((card_of M E)(k \<mapsto> c)) k'"
  proof (cases "k' = k")
    case True
    then show ?thesis using k by (simp add: card_of_def map_add_def)
  next
    case False
    then show ?thesis by (auto simp: card_of_def map_add_def split: option.split)
  qed
qed

lemma card_of_cong: "(\<And>k b. M k = Some b \<Longrightarrow> E' b = E b) \<Longrightarrow> card_of M E' = card_of M E"
  by (auto simp: card_of_def fun_eq_iff split: option.split)

text \<open>A new open block.\<close>

lemma open_new_block:
  assumes rel: "sd_rel L M (\<lambda>b k. False) E s" and nb: "nb < mx s" "\<not> bit_of s nb"
  defines "s2 \<equiv> snd (bitmap_set s nb True)"
  defines "s3 \<equiv> s2\<lparr>g_sb := (g_sb s2)\<lparr>sb_open_block := nb, sb_open_used := word_of_nat PACKED_BLK_HDR, sb_open_count := 0\<rparr>,
    g_open_blk := empty_blk, g_open_cached := True\<rparr>"
  shows "open_rel (insert nb L) M (\<lambda>b k. False) (E(nb := [])) s3" "same_rest s s3" "nb \<notin> L" "card_of M (E(nb := [])) = card_of M E"
proof -
  note r = sd_rel_ready [OF rel]
  have notin: "nb \<notin> L" using cards_okD(2) [OF r(6)] nb(2) by blast
  then show "nb \<notin> L" .
  then have noM: "M k \<noteq> Some nb" for k using cards_okM [OF r(6)] by blast
  then show "card_of M (E(nb := [])) = card_of M E" by (intro card_of_cong) auto
  note b = bitmap_set_rel [OF r(1,2,5) nb(1), where used = True, folded s2_def]
  have s3: "sd_ok s3 = sd_ok s2" "sd_blocks s3 = sd_blocks s2" "g_ht_cache s3 = g_ht_cache s2" "g_data_cache s3 = g_data_cache s2"
    "same_layout (g_sb s2) (g_sb s3)" "sb_open_block (g_sb s3) = nb" "g_open_cached s3" "g_open_blk s3 = empty_blk"
    "g_sram s3 = g_sram s2" "g_fidx_count s3 = g_fidx_count s2" "sd_flash s3 = sd_flash s2" "g_ready s3 = g_ready s2"
    by (simp_all add: s3_def same_layout_def)
  have s2: "g_sb s2 = g_sb s" "g_sram s2 = g_sram s" "g_fidx_count s2 = g_fidx_count s" "sd_flash s2 = sd_flash s" "g_ready s2 = g_ready s"
    by (subst b(6), simp)+
  note sl = same_layout_simps [OF s3(5)]
  have v3: "data_view s3 = data_view s2" "bit_of s3 = bit_of s2" by (auto simp: data_view_def bit_of_def sl s3(2) fun_eq_iff)
  have ht3: "ht_inv s3" "ht_map s3 = ht_map s2"
    using ht_inv_cong [OF b(1) s3(1) _ s3(3,5)] b(1) by (auto simp: s3(2) ht_inv_def ht_ready_def)
  show "same_rest s s3" using ht3(2) b(2) s3(5) by (simp add: same_rest_def s3 s2)
  have "cards_ok (insert nb L) M (\<lambda>b k. False) (E(nb := [])) (mx s) ((data_view s2)(nb := empty_blk)) (bit_of s2)"
    unfolding cards_ok_def
  proof (intro conjI ballI allI impI)
    fix b'
    assume b': "b' \<in> insert nb L"
    note d = cards_okD [OF r(6), of b']
    show "b' < mx s" using b' d(1) nb(1) by auto
    show "bit_of s2 b'" using b' d(2) by (auto simp: b(5))
    show "block_holds (((data_view s2)(nb := empty_blk)) b') ((E(nb := [])) b')"
      using b' d(1,3) b(4) block_holds_empty notin by auto
    show "distinct (map fst ((E(nb := [])) b'))" using b' d(4) by auto
    show "case x of (k, c, r) \<Rightarrow> card_ok c r \<and> (M k = Some b' \<or> False)" if "x \<in> set ((E(nb := [])) b')" for x
    proof -
      obtain k c r where x: "x = (k, c, r)" by (cases x)
      then have "b' \<in> L" "(k, c, r) \<in> set (E b')" using that b' by (auto split: if_splits)
      from d(5,6) [OF this] show ?thesis by (simp add: x)
    qed
  next
    fix k b'
    assume "M k = Some b'"
    then show "b' \<in> insert nb L" "k \<in> card_keys ((E(nb := [])) b')" using cards_okM [OF r(6), of k b'] noM [of k] by auto
  qed
  then show "open_rel (insert nb L) M (\<lambda>b k. False) (E(nb := [])) s3"
    using r(1) ht3(1) b(3) by (simp add: open_rel_def sl s3(4,6-8) s2(1) v3)
qed

lemma entry_size_eq: "length c \<le> 516 \<Longrightarrow> cast16 (PACKED_ENTRY_HDR + length c) = 8 + length c"
  by (simp add: PACKED_ENTRY_HDR_def)

lemma packed_append_tail:
  assumes of: "open_for s (8 + length c) = (True, s1)" and rel: "open_rel L M (\<lambda>b k. False) E s1"
    and k: "k \<notin> card_keys (E (sb_open_block (g_sb s1)))" and c: "card_ok c r" "8 + length c \<le> 504"
    and n: "blk_count (g_open_blk s1) < 60" and fit: "blk_used (g_open_blk s1) + 8 + length c \<le> 512"
  defines "ob \<equiv> sb_open_block (g_sb s1)"
  shows "\<exists>s'. packed_append s k c r = Some (Some ob, s') \<and> same_rest s1 s' \<and> sb_open_block (g_sb s') = ob
    \<and> sd_rel L (M(k \<mapsto> ob)) (stale M k) (E(ob := E ob @ [(k, c, r)])) s'"
proof -
  define blk' where "blk' = set_count_used (blit (g_open_blk s1) (blk_used (g_open_blk s1)) (entry_bytes k c r))
    (blk_count (g_open_blk s1) + 1) (blk_used (g_open_blk s1) + (8 + length c))"
  define s' where "s' = put_block (append_state s1 blk') ob blk'"
  note a = append_card [OF rel k c(1) n fit, folded ob_def, folded blk'_def, folded s'_def]
  have e: "cast16 (PACKED_ENTRY_HDR + length c) = 8 + length c" using c(2) by (intro entry_size_eq) simp
  have ob': "sb_open_block (g_sb s') = ob"
  proof -
    have ok: "\<forall>n. sd_ok s1 n" using rel by (auto simp: open_rel_def ht_inv_def ht_ready_def)
    have "g_sb (put_block t b blk) = g_sb t" for t b blk
      by (auto simp: put_block_def data_cache_invalidate_def sd_write_block_def Let_def)
    then show ?thesis by (simp add: s'_def append_state_def ob_def)
  qed
  have "block_holds (g_open_blk s1) (E ob)"
    using rel cards_okD(3) [of L M _ E "mx s1" "(data_view s1)(ob := g_open_blk s1)" "bit_of s1" ob] by (auto simp: open_rel_def ob_def)
  note put = put_entry_block [OF this fit, of k r]
  have "packed_append s k c r = Some (Some ob, s')"
    unfolding packed_append_def Let_def e of prod.case put option.case
    using c(2) by (simp add: PACKED_DATA_MAX_def PACKED_ENTRY_HDR_def s'_def put_block_def append_state_def blk'_def ob_def blk_addr_def)
  then show ?thesis using a ob' by blast
qed

lemma open_rel_cached:
  assumes rel: "sd_rel L M (\<lambda>b k. False) E s"
  defines "s1 \<equiv> s\<lparr>g_open_blk := data_view s (sb_open_block (g_sb s)), g_open_cached := True\<rparr>"
  shows "open_rel L M (\<lambda>b k. False) E s1" "same_rest s s1"
proof -
  note r = sd_rel_ready [OF rel]
  have f: "sd_ok s1 = sd_ok s" "\<forall>b. length (sd_blocks s1 b) = 512" "g_ht_cache s1 = g_ht_cache s" "same_layout (g_sb s) (g_sb s1)"
    "sd_blocks s1 (bucket_addr s i) = sd_blocks s (bucket_addr s i)" for i
    using r(4) by (simp_all add: s1_def)
  note ht = ht_inv_cong [OF r(2) f]
  have v: "data_view s1 = data_view s" "bit_of s1 = bit_of s"
    by (auto simp: s1_def data_view_def blk_addr_def bit_of_def bitmap_block_def fun_eq_iff)
  show "same_rest s s1" using ht(2) by (simp add: same_rest_def s1_def)
  show "open_rel L M (\<lambda>b k. False) E s1"
    unfolding open_rel_def using r ht(1) by (simp add: v) (simp add: s1_def open_ok_def Let_def)
qed

text \<open>The open block is kept when the entry fits.\<close>

lemma open_same:
  assumes rel: "sd_rel L M (\<lambda>b k. False) E s"
    and fits: "unat (sb_open_used (g_sb s)) + (8 + length c) \<le> 512 \<and> sb_open_count (g_sb s) < 60"
  obtains s1 where "open_for s (8 + length c) = (True, s1)" "open_rel L M (\<lambda>b k. False) E s1" "same_rest s s1"
    "sb_open_block (g_sb s1) = sb_open_block (g_sb s)" "g_open_blk s1 = data_view s (sb_open_block (g_sb s))"
proof -
  define ob where "ob = sb_open_block (g_sb s)"
  note r = sd_rel_ready [OF rel]
  have o: "ob \<in> L" "g_open_cached s \<Longrightarrow> g_open_blk s = data_view s ob" using r(7) by (auto simp: open_ok_def ob_def Let_def)
  show thesis
  proof (cases "g_open_cached s")
    case True
    have of: "open_for s (8 + length c) = (True, s)" unfolding open_for_def using fits True by simp
    have id: "s\<lparr>g_open_blk := data_view s ob, g_open_cached := True\<rparr> = s" using o(2) True by simp
    show thesis
      by (rule that [OF of open_rel_cached [OF rel, folded ob_def, unfolded id] refl o(2) [OF True, unfolded ob_def]])
  next
    case False
    obtain s0 where s0: "packed_read s ob = (Some (data_view s ob), s0)" "read_only s s0"
      "cache_ok (data_view s) (\<lambda>b. b < mx s) (g_data_cache s0)"
      by (rule packed_read_spec [OF r(3,5) cards_okD(1) [OF r(6) o(1)]])
    note q = sd_rel_read_only [OF rel s0(2,3)] read_only_same [OF s0(2)]
    have "open_for s (8 + length c) = (True, s0\<lparr>g_open_blk := data_view s ob, g_open_cached := True\<rparr>)"
      unfolding open_for_def using fits False s0(1) by (simp add: ob_def)
    then show thesis
      using open_rel_cached [OF q(1)] q(2,3) that [of "s0\<lparr>g_open_blk := data_view s ob, g_open_cached := True\<rparr>"]
        same_rest_trans [OF q(2)] by (simp add: ob_def)
  qed
qed

text \<open>The three outcomes: too large or no room, appended to a block that already had the key, appended elsewhere.\<close>

lemma packed_append_spec:
  assumes rel: "sd_rel L M (\<lambda>b k. False) E s" and c: "card_ok c r" "length c \<le> 516"
  shows "(\<exists>s'. packed_append s k c r = Some (None, s') \<and> same_rest s s' \<and> sd_rel L M (\<lambda>b k. False) E s')
    \<or> (\<exists>nb s'. packed_append s k c r = Some (Some nb, s')
         \<and> (M k = Some nb \<and> nb = sb_open_block (g_sb s) \<and> unat (sb_open_used (g_sb s)) + (8 + length c) \<le> 512 \<and> sb_open_count (g_sb s) < 60
              \<or> M k \<noteq> Some nb \<and> same_rest s s' \<and> sb_open_block (g_sb s') = nb
              \<and> (\<exists>L' E'. sd_rel L' (M(k \<mapsto> nb)) (stale M k) E' s' \<and> card_of (M(k \<mapsto> nb)) E' = (card_of M E)(k \<mapsto> c)
                   \<and> (\<forall>b. M k = Some b \<longrightarrow> b \<in> L' \<and> k \<in> card_keys (E' b)))))"
proof (cases "504 < 8 + length c")
  case True
  then have "packed_append s k c r = Some (None, s)"
    using entry_size_eq [OF c(2)] by (simp add: packed_append_def PACKED_DATA_MAX_def)
  moreover have "same_rest s s" by (simp add: same_rest_def)
  ultimately show ?thesis using rel by blast
next
  case small: False
  note r = sd_rel_ready [OF rel]
  show ?thesis
  proof (cases "unat (sb_open_used (g_sb s)) + (8 + length c) \<le> 512 \<and> sb_open_count (g_sb s) < 60")
    case fits: True
    define ob where "ob = sb_open_block (g_sb s)"
    have o: "ob \<in> L" "blk_used (data_view s ob) \<le> unat (sb_open_used (g_sb s))" "blk_count (data_view s ob) \<le> unat (sb_open_count (g_sb s))"
      using r(7) by (auto simp: open_ok_def ob_def Let_def)
    have n: "blk_count (data_view s ob) < 60" "blk_used (data_view s ob) + 8 + length c \<le> 512"
      using o(2,3) fits by (auto simp: word_less_nat_alt)
    obtain s1 where s1: "open_for s (8 + length c) = (True, s1)" "open_rel L M (\<lambda>b k. False) E s1" "same_rest s s1"
      "sb_open_block (g_sb s1) = ob" "g_open_blk s1 = data_view s ob"
      by (rule open_same [OF rel fits, folded ob_def])
    show ?thesis
    proof (cases "M k = Some ob")
      case True
      have "packed_append s k c r \<noteq> None \<and> (\<forall>s'. packed_append s k c r \<noteq> Some (None, s'))
        \<and> (\<forall>b s'. packed_append s k c r = Some (Some b, s') \<longrightarrow> b = ob)"
        unfolding packed_append_def Let_def entry_size_eq [OF c(2)] s1(1) prod.case s1(5) put_entry_block [OF cards_okD(3) [OF r(6) o(1)] n(2)] option.case
        using small s1(4) by (simp add: PACKED_DATA_MAX_def PACKED_ENTRY_HDR_def)
      then have "\<exists>s'. packed_append s k c r = Some (Some ob, s')" by (metis option.exhaust prod.exhaust)
      with True fits show ?thesis unfolding ob_def by blast
    next
      case False
      have "k \<notin> card_keys (E ob)"
      proof
        assume "k \<in> card_keys (E ob)"
        then obtain c' r' where "(k, c', r') \<in> set (E ob)" by auto
        from cards_okD(6) [OF r(6) o(1) this] False show False by simp
      qed
      then have "\<exists>s'. packed_append s k c r = Some (Some ob, s') \<and> same_rest s1 s' \<and> sb_open_block (g_sb s') = ob
          \<and> sd_rel L (M(k \<mapsto> ob)) (stale M k) (E(ob := E ob @ [(k, c, r)])) s'"
        and "card_of (M(k \<mapsto> ob)) (E(ob := E ob @ [(k, c, r)])) = (card_of M E)(k \<mapsto> c)"
        using packed_append_tail [OF s1(1,2), of k r] small c(1) n card_of_append [of k E ob M c r] unfolding s1(4,5) by auto
      moreover have "\<forall>b. M k = Some b \<longrightarrow> b \<in> L \<and> k \<in> card_keys ((E(ob := E ob @ [(k, c, r)])) b)"
        using cards_okM [OF r(6), of k] False by auto
      ultimately show ?thesis using same_rest_trans [OF s1(3)] False by blast
    qed
  next
    case full: False
    have al: "alloc_result s (alloc_slot s)" by (rule alloc_slot_spec [OF r(3) layout_disjoint(4) [OF r(1)]])
    show ?thesis
    proof (cases "alloc_slot s")
      case (Pair ob s1)
      then obtain n h where s1: "s1 = s\<lparr>sd_ops := n, g_sb := (g_sb s)\<lparr>sb_next_free_hint := h\<rparr>\<rparr>"
        using al by (auto simp: alloc_result_def)
      have ss: "same_store s s1" by (simp add: s1 same_store_def same_layout_def)
      have rel1: "sd_rel L M (\<lambda>b k. False) E s1" by (rule sd_rel_same_store [OF rel ss])
      have same1: "same_rest s s1" using same_store_ht(2) [OF ss r(2)] by (simp add: same_rest_def s1 same_layout_def)
      show ?thesis
      proof (cases ob)
        case None
        then have "open_for s (8 + length c) = (False, s1)" unfolding open_for_def using full Pair by auto
        then have "packed_append s k c r = Some (None, s1)"
          using small entry_size_eq [OF c(2)] by (simp add: packed_append_def PACKED_DATA_MAX_def)
        then show ?thesis using same1 rel1 by blast
      next
        case (Some nb)
        have nb: "nb < mx s1" "\<not> bit_of s1 nb"
          using al Pair Some by (auto simp: alloc_result_def s1 bit_of_def bitmap_block_def)
        note o = open_new_block [OF rel1 nb]
        define s3 where "s3 = (snd (bitmap_set s1 nb True))\<lparr>g_sb := (g_sb (snd (bitmap_set s1 nb True)))\<lparr>sb_open_block := nb,
          sb_open_used := word_of_nat PACKED_BLK_HDR, sb_open_count := 0\<rparr>, g_open_blk := empty_blk, g_open_cached := True\<rparr>"
        have of: "open_for s (8 + length c) = (True, s3)"
          unfolding open_for_def s3_def using full Pair Some by (auto simp: Let_def)
        have g: "sb_open_block (g_sb s3) = nb" "g_open_blk s3 = empty_blk" by (simp_all add: s3_def)
        have e: "blk_count empty_blk = 0" "blk_used empty_blk = 8" using block_holds_empty by (auto simp: block_holds_def)
        have "\<exists>s'. packed_append s k c r = Some (Some nb, s') \<and> same_rest s3 s' \<and> sb_open_block (g_sb s') = nb
          \<and> sd_rel (insert nb L) (M(k \<mapsto> nb)) (stale M k) ((E(nb := []))(nb := (E(nb := [])) nb @ [(k, c, r)])) s'"
          using packed_append_tail [OF of o(1) [folded s3_def], of k r] small c(1) by (simp add: g e)
        moreover have "card_of (M(k \<mapsto> nb)) ((E(nb := []))(nb := (E(nb := [])) nb @ [(k, c, r)])) = (card_of M E)(k \<mapsto> c)"
          using card_of_append [of k "E(nb := [])" nb M c r] o(4) by simp
        moreover have "\<forall>b. M k = Some b \<longrightarrow> b \<in> insert nb L \<and> k \<in> card_keys (((E(nb := []))(nb := (E(nb := [])) nb @ [(k, c, r)])) b)"
          using cards_okM [OF r(6), of k] o(3) by auto
        moreover have "M k \<noteq> Some nb" using cards_okM [OF r(6), of k nb] o(3) by auto
        ultimately show ?thesis using same_rest_trans [OF same1 same_rest_trans [OF o(2) [folded s3_def]]] by blast
      qed
    qed
  qed
qed

subsection \<open>Removing a card\<close>

definition unstale :: "(u32 \<Rightarrow> u32 \<Rightarrow> bool) \<Rightarrow> u32 \<Rightarrow> u32 \<Rightarrow> u32 \<Rightarrow> u32 \<Rightarrow> bool" where
  "unstale st b k b' k' \<longleftrightarrow> st b' k' \<and> \<not> (b' = b \<and> k' = k)"

lemma cards_ok_cut:
  assumes ok: "cards_ok L M st E n V B" and b: "b \<in> L" and E: "E b = xs @ (k, c, r) # ys" and k: "M k \<noteq> Some b"
    and h: "block_holds blk' (xs @ ys)"
  shows "cards_ok L M (unstale st b k) (E(b := xs @ ys)) n (V(b := blk')) B" "card_of M (E(b := xs @ ys)) = card_of M E"
    "xs @ ys = [] \<Longrightarrow> M k' \<noteq> Some b"
proof -
  have d0: "distinct (map fst (xs @ (k, c, r) # ys))" using cards_okD(4) [OF ok b] E by simp
  have other: "k' \<noteq> k" if "M k' = Some b" for k' using that k by auto
  show "cards_ok L M (unstale st b k) (E(b := xs @ ys)) n (V(b := blk')) B"
    unfolding cards_ok_def
  proof (intro conjI ballI allI impI)
    fix b'
    assume b': "b' \<in> L"
    note d = cards_okD [OF ok b']
    show "b' < n" "B b'" by (fact d)+
    show "block_holds ((V(b := blk')) b') ((E(b := xs @ ys)) b')" using d(3) h by auto
    show "distinct (map fst ((E(b := xs @ ys)) b'))" using d(4) d0 by auto
    show "case x of (k', c', r') \<Rightarrow> card_ok c' r' \<and> (M k' = Some b' \<or> unstale st b k b' k')"
      if x: "x \<in> set ((E(b := xs @ ys)) b')" for x
    proof -
      obtain k' c' r' where x': "x = (k', c', r')" by (cases x)
      have "x \<in> set (E b')" using x E by (auto split: if_splits)
      moreover have "\<not> (b' = b \<and> k' = k)" using x d0 x' by force
      ultimately show ?thesis using d(5,6) [of k' c' r'] by (auto simp: x' unstale_def)
    qed
  next
    fix k' b'
    assume m: "M k' = Some b'"
    then show "b' \<in> L" "k' \<in> card_keys ((E(b := xs @ ys)) b')"
      using cards_okM [OF ok m] other [of k'] E by auto
  qed
  show "card_of M (E(b := xs @ ys)) = card_of M E"
  proof
    fix k'
    show "card_of M (E(b := xs @ ys)) k' = card_of M E k'"
      using other [of k'] E by (auto simp: card_of_def map_of_append map_add_def split: option.split)
  qed
  show "M k' \<noteq> Some b" if "xs @ ys = []" for k'
    using cards_okM [OF ok, of k' b] other [of k'] E that by auto
qed

lemma cards_ok_drop: "cards_ok L M st E n V B \<Longrightarrow> (\<And>k. M k \<noteq> Some b) \<Longrightarrow> cards_ok (L - {b}) M st E n V (\<lambda>a. a \<noteq> b \<and> B a)"
  unfolding cards_ok_def by auto

lemma packed_remove_spec:
  assumes rel: "sd_rel L M st E s" and b: "b \<in> L" and kb: "k \<in> card_keys (E b)" and m: "M k \<noteq> Some b"
    and ob: "b \<noteq> sb_open_block (g_sb s) \<or> 2 \<le> length (E b)"
  shows "\<exists>s' L' E'. packed_remove_card s b k = Some (True, s') \<and> same_rest s s' \<and> sd_rel L' M (unstale st b k) E' s'
    \<and> card_of M E' = card_of M E"
proof -
  note r = sd_rel_ready [OF rel]
  note d = cards_okD [OF r(6) b]
  obtain s1 where s1: "packed_read s b = (Some (data_view s b), s1)" "read_only s s1" "cache_ok (data_view s) (\<lambda>b. b < mx s) (g_data_cache s1)"
    by (rule packed_read_spec [OF r(3,5) d(1)])
  note rel1 = sd_rel_read_only [OF rel s1(2,3)]
  note ro = read_only_same [OF s1(2)]
  note r1 = sd_rel_ready [OF rel1(1)]
  obtain xs c rl ys where E: "E b = xs @ (k, c, rl) # ys" "k \<notin> card_keys xs" by (rule first_card [OF kb])
  have hb: "block_holds (data_view s b) (xs @ (k, c, rl) # ys)" using d(3) E(1) by simp
  have find: "packed_find (data_view s b) k = 8 + length (cards_bytes xs)" by (rule packed_find_hit [OF hb E(2)])
  obtain blk' where cut: "packed_cut (data_view s b) (8 + length (cards_bytes xs)) = Some blk'" "block_holds blk' (xs @ ys)"
    using block_cut [OF hb] by blast
  have b1: "b < mx s1" using d(1) ro by simp
  define s2 where "s2 = put_block s1 b blk'"
  note p = put_block_spec [OF r1(1,2,5) b1 cut(2), folded s2_def]
  define s3 where "s3 = (if b = sb_open_block (g_sb s) then s2\<lparr>g_open_cached := False\<rparr> else s2)"
  have sb2: "g_sb s2 = g_sb s" "g_sram s2 = g_sram s1" "g_fidx_count s2 = g_fidx_count s1" "sd_flash s2 = sd_flash s1" "g_ready s2 = g_ready s1"
    "g_open_cached s2 = g_open_cached s" "g_open_blk s2 = g_open_blk s"
    using ro by (subst p(6), simp)+
  have s3: "sd_ok s3 = sd_ok s2" "sd_blocks s3 = sd_blocks s2" "g_ht_cache s3 = g_ht_cache s2" "same_layout (g_sb s2) (g_sb s3)"
    "g_sb s3 = g_sb s" "g_data_cache s3 = g_data_cache s2" "g_sram s3 = g_sram s1" "g_fidx_count s3 = g_fidx_count s1" "sd_flash s3 = sd_flash s1"
    "g_ready s3 = g_ready s1" "g_open_blk s3 = g_open_blk s"
    "g_open_cached s3 \<longleftrightarrow> b \<noteq> sb_open_block (g_sb s) \<and> g_open_cached s"
    by (simp_all add: s3_def sb2)
  have l3: "\<forall>a. length (sd_blocks s3 a) = 512" using p(1) by (simp add: s3(2) ht_inv_def ht_ready_def)
  have ht3: "ht_inv s3" "ht_map s3 = ht_map s1"
    using ht_inv_cong [OF p(1) s3(1) l3 s3(3,4)] p(2) by (simp_all add: s3(2))
  have v3: "data_view s3 = (data_view s)(b := blk')" "\<And>a. a < mx s \<Longrightarrow> bit_of s3 a = bit_of s a"
  proof -
    have "data_view s3 = data_view s2" "bit_of s3 = bit_of s2"
      using s3(5) by (auto simp: data_view_def bit_of_def blk_addr_def bitmap_block_def s3(2) sb2 fun_eq_iff)
    then show "data_view s3 = (data_view s)(b := blk')" "\<And>a. a < mx s \<Longrightarrow> bit_of s3 a = bit_of s a"
      using p(4,5) ro by auto
  qed
  note cc = cards_ok_cut [OF r(6) b E(1) m cut(2)]
  have c3: "cards_ok L M (unstale st b k) (E(b := xs @ ys)) (mx s3) (data_view s3) (bit_of s3)"
    using cards_ok_views [OF cc(1), of "data_view s3" "bit_of s3"] v3 by (simp add: s3(5))
  have ca3: "cache_ok (data_view s3) (\<lambda>b. b < mx s3) (g_data_cache s3)"
    using p(3,4) v3(1) ro by (simp add: s3(5,6) sb2(1))
  have o3: "open_ok L s3"
  proof (cases "b = sb_open_block (g_sb s)")
    case True
    have "blk_used blk' \<le> blk_used (data_view s b)" "blk_count blk' \<le> blk_count (data_view s b)"
      using cut(2) hb by (auto simp: block_holds_def)
    then show ?thesis using r(7) True s3(12) by (simp add: open_ok_def Let_def s3(5) v3(1))
  next
    case False
    then show ?thesis using r(7) s3(11,12) by (simp add: open_ok_def Let_def s3(5) v3(1))
  qed
  have rel3: "sd_rel L M (unstale st b k) (E(b := xs @ ys)) s3"
    using r(1) ht3(1) c3 ca3 o3 by (simp add: sd_rel_def s3(5))
  have same3: "same_rest s s3" using rel1(2) ht3(2) by (simp add: same_rest_def s3(5,7-10))
  have cnt: "blk_count blk' = length (xs @ ys)" using cut(2) by (simp add: block_holds_def)
  have s2e: "data_cache_invalidate (snd (sd_write_block s1 (blk_addr s1 b) blk')) b = s2" by (simp add: s2_def put_block_def)
  have rm: "packed_remove_card s b k = (if xs @ ys \<noteq> [] then Some (True, s3) else
      let s4 = snd (bitmap_set s3 b False) in if b = sb_open_block (g_sb s4)
      then Some (True, s4\<lparr>g_sb := (g_sb s4)\<lparr>sb_open_used := word_of_nat PACKED_BLK_HDR, sb_open_count := 0\<rparr>, g_open_cached := False\<rparr>)
      else Some (True, s4))"
    unfolding packed_remove_card_def s1(1) prod.case option.case Let_def find cut(1) s2e sb2(1) s3_def [symmetric]
    by (simp add: cnt)
  show ?thesis
  proof (cases "xs @ ys = []")
    case False
    then have "packed_remove_card s b k = Some (True, s3)" unfolding rm by simp
    then show ?thesis using rel3 same3 cc(2) by blast
  next
    case True
    then have "length (E b) = 1" using E(1) by simp
    then have nob: "b \<noteq> sb_open_block (g_sb s)" using ob by simp
    define s4 where "s4 = snd (bitmap_set s3 b False)"
    have b3: "b < mx s3" using d(1) by (simp add: s3(5))
    note r3 = sd_rel_ready [OF rel3]
    note q = bitmap_set_rel [OF r3(1,2,5) b3, where used = False, folded s4_def]
    have sb4: "g_sb s4 = g_sb s" "g_sram s4 = g_sram s3" "g_fidx_count s4 = g_fidx_count s3" "sd_flash s4 = sd_flash s3" "g_ready s4 = g_ready s3"
      "g_open_cached s4 = g_open_cached s3" "g_open_blk s4 = g_open_blk s3"
      by (subst q(6), simp add: s3(5))+
    have "packed_remove_card s b k = Some (True, s4)" unfolding rm using True nob by (simp add: s4_def [symmetric] sb4(1))
    moreover have "sd_rel (L - {b}) M (unstale st b k) (E(b := xs @ ys)) s4"
    proof -
      have "cards_ok (L - {b}) M (unstale st b k) (E(b := xs @ ys)) (mx s3) (data_view s3) (\<lambda>a. a \<noteq> b \<and> bit_of s3 a)"
        by (rule cards_ok_drop [OF c3 cc(3) [OF True]])
      then have "cards_ok (L - {b}) M (unstale st b k) (E(b := xs @ ys)) (mx s4) (data_view s4) (bit_of s4)"
        using cards_ok_views [of "L - {b}" M "unstale st b k" "E(b := xs @ ys)" "mx s3" "data_view s3" "\<lambda>a. a \<noteq> b \<and> bit_of s3 a"
          "data_view s4" "bit_of s4"] q(4,5) by (simp add: s3(5) sb4(1))
      moreover have "sb_open_block (g_sb s) < mx s3" using r(7) cards_okD(1) [OF r(6)] by (auto simp: open_ok_def Let_def s3(5))
      then have "open_ok (L - {b}) s4" using o3 nob q(4) by (auto simp: open_ok_def Let_def sb4 s3(5))
      ultimately show ?thesis using r(1) q(1,3) by (simp add: sd_rel_def sb4(1))
    qed
    moreover have "same_rest s s4" using same3 q(2) by (simp add: same_rest_def sb4 s3(5))
    ultimately show ?thesis using cc(2) by blast
  qed
qed

end
