(* ===== verification/SdRefine.thy ===== *)
theory SdRefine
  imports SdCards
begin

text \<open>
  The operations of \<open>src/kv_sd.c\<close> refine a map: reading back, writing, deleting and flushing, with the
  conditions under which they do, and the states where the code departs from them.
\<close>

subsection \<open>The invariant and the contents of the store\<close>

abbreviation nost :: "u32 \<Rightarrow> u32 \<Rightarrow> bool" where
  "nost \<equiv> \<lambda>b k. False"

definition sd_inv :: "sd_state \<Rightarrow> bool" where
  "sd_inv s \<longleftrightarrow> g_ready s \<and> (\<exists>L M E. sd_rel L M nost E s \<and> tiers_ok M s)"

definition kvsd_value :: "sd_state \<Rightarrow> u32 \<Rightarrow> byte list option" where
  "kvsd_value s k = (case fst (kvsd_get_copy s k (replicate KVSD_MAX_PAYLOAD 0)) of Found (buf, n) \<Rightarrow> Some (take n buf) | _ \<Rightarrow> None)"

definition val_of :: "byte list \<Rightarrow> byte list" where
  "val_of c = (case pc_decompress_card c KVSD_MAX_PAYLOAD of Found v \<Rightarrow> v | _ \<Rightarrow> [])"

lemma card_val:
  assumes "card_ok c r" "KVSD_MAX_PAYLOAD \<le> cap"
  shows "pc_decompress_card c cap = Found (val_of c)" "2 \<le> length (val_of c)" "length (val_of c) \<le> KVSD_MAX_PAYLOAD"
    "val_of c ! 0 = KVSD_MAGIC_LO" "val_of c ! 1 = KVSD_MAGIC_HI" "r = length (val_of c)"
proof -
  from assms(1) obtain v where v: "c = pc_compress_card v PACKED_DATA_MAX" "c \<noteq> []" "r = length v" "2 \<le> length v"
    "length v \<le> KVSD_MAX_PAYLOAD" "v ! 0 = KVSD_MAGIC_LO" "v ! 1 = KVSD_MAGIC_HI" by (auto simp: card_ok_def)
  have d: "pc_decompress_card c cap' = Found v" if "KVSD_MAX_PAYLOAD \<le> cap'" for cap'
  proof -
    have "v \<noteq> []" using v(4) by auto
    then show ?thesis using decompress_card [of v PACKED_DATA_MAX cap'] v(1,2,5) that by (simp add: KVSD_MAX_PAYLOAD_def)
  qed
  then have "val_of c = v" by (simp add: val_of_def)
  then show "pc_decompress_card c cap = Found (val_of c)" "2 \<le> length (val_of c)" "length (val_of c) \<le> KVSD_MAX_PAYLOAD"
    "val_of c ! 0 = KVSD_MAGIC_LO" "val_of c ! 1 = KVSD_MAGIC_HI" "r = length (val_of c)"
    using d [OF assms(2)] v by auto
qed

text \<open>Reading a card out of a live block.\<close>

lemma read_card_spec:
  assumes rel: "sd_rel L M st E s" and m: "M k = Some b" and cap: "KVSD_MAX_PAYLOAD \<le> cap"
  obtains c s' where "card_of M E k = Some c" "card_ok c (length (val_of c))" "packed_read_card s b k cap = (Found (val_of c), s')"
    "sd_rel L M st E s'" "same_rest s s'" "g_ready s' = g_ready s"
proof -
  note r = sd_rel_ready [OF rel]
  have b: "b \<in> L" and kb: "k \<in> card_keys (E b)" using cards_okM [OF r(6) m] by auto
  note d = cards_okD [OF r(6) b]
  obtain s' where s': "packed_read s b = (Some (data_view s b), s')" "read_only s s'" "cache_ok (data_view s) (\<lambda>b. b < mx s) (g_data_cache s')"
    by (rule packed_read_spec [OF r(3,5) d(1)])
  note rel' = sd_rel_read_only [OF rel s'(2,3)]
  obtain xs c rl ys where E: "E b = xs @ (k, c, rl) # ys" "k \<notin> card_keys xs" by (rule first_card [OF kb])
  have hb: "block_holds (data_view s b) (xs @ (k, c, rl) # ys)" using d(3) E(1) by simp
  have ck: "card_ok c rl" using d(5) [of k c rl] E(1) by simp
  note v = card_val [OF ck cap]
  have c0: "card_of M E k = Some c"
  proof -
    have "map_of xs k = None" using E(2) by (simp add: map_of_eq_None_iff)
    then show ?thesis by (simp add: card_of_def m E(1) map_add_def)
  qed
  note f = card_fields [OF hb]
  have "blk_used (data_view s b) \<le> 512" using hb by (simp add: block_holds_def)
  then have "packed_read_card s b k cap = (Found (val_of c), s')"
    unfolding packed_read_card_def s'(1) prod.case option.case Let_def packed_find_hit [OF hb E(2)]
    using f(2,4,5) v(1) by (simp add: PACKED_ENTRY_HDR_def)
  moreover have "g_ready s' = g_ready s" using s'(2) by (auto simp: read_only_def)
  ultimately show ?thesis using that [OF c0 _ _ rel'] ck v(6) by simp
qed

lemma blit_front: "length v \<le> length out \<Longrightarrow> take (length v) (blit out 0 v) = v" "length v \<le> length out \<Longrightarrow> i < length v \<Longrightarrow> blit out 0 v ! i = v ! i"
  by (simp_all add: blit_def nth_append)

lemma read_into_spec:
  assumes rel: "sd_rel L M nost E s" "tiers_ok M s" "g_ready s" and cap: "KVSD_MAX_PAYLOAD \<le> length out" "KVSD_MAX_PAYLOAD \<le> cap"
  obtains s' where "read_into s k out cap = ((case card_of M E k of None \<Rightarrow> Miss | Some c \<Rightarrow> Found (blit out 0 (val_of c), length (val_of c))), s')"
    "sd_rel L M nost E s'" "tiers_ok M s'" "g_ready s'"
proof -
  obtain s1 where s1: "find_slot_for_key s k = (key_slot M k, s1)" "sd_rel L M nost E s1" "tiers_ok M s1"
    "g_sb s1 = g_sb s" "g_ready s1 = g_ready s" by (rule find_slot_spec [OF rel(1,2), of k]) blast
  show ?thesis
  proof (cases "M k")
    case None
    then have "read_into s k out cap = (Miss, s1)" using s1(1) rel(3) by (simp add: read_into_def key_slot_def)
    moreover have "card_of M E k = None" using None by (simp add: card_of_def)
    ultimately show ?thesis using that [of s1] s1 rel(3) by simp
  next
    case (Some b)
    have ht: "ht_inv s" "ht_map s = M" using rel(1,2) by (auto simp: sd_rel_def tiers_ok_def)
    then have nn: "0 \<le> sint b" using ht_map_sint [OF ht(1), of k b] Some by simp
    obtain c s2 where c: "card_of M E k = Some c" "card_ok c (length (val_of c))" "packed_read_card s1 b k cap = (Found (val_of c), s2)"
      "sd_rel L M nost E s2" "same_rest s1 s2" "g_ready s2 = g_ready s1"
      by (rule read_card_spec [OF s1(2) Some cap(2)]) blast
    note v = card_val [OF c(2) cap(2)]
    have l: "length (val_of c) \<le> length out" "val_of c \<noteq> []" using v(2,3) cap(1) by auto
    have b01: "blit out 0 (val_of c) ! 0 = KVSD_MAGIC_LO" "blit out 0 (val_of c) ! 1 = KVSD_MAGIC_HI" "length (blit out 0 (val_of c)) = length out"
      using blit_front(2) [OF l(1), of 0] blit_front(2) [OF l(1), of 1] v(2,4,5) l by simp_all
    have "\<not> length out < 2" using cap(1) by (simp add: KVSD_MAX_PAYLOAD_def)
    then have "read_into s k out cap = (Found (blit out 0 (val_of c), length (val_of c)), s2)"
      unfolding read_into_def using s1(1) rel(3) nn c(3) b01 by (simp add: key_slot_def Some)
    then show ?thesis using that [of s2] c(1,4-6) tiers_same_rest [OF c(5) s1(3)] s1(5) rel(3) by simp
  qed
qed

lemma kvsd_value_card:
  assumes "sd_rel L M nost E s" "tiers_ok M s" "g_ready s"
  shows "kvsd_value s k = map_option val_of (card_of M E k)"
proof -
  obtain s' where r: "read_into s k (replicate KVSD_MAX_PAYLOAD 0) KVSD_MAX_PAYLOAD
      = ((case card_of M E k of None \<Rightarrow> Miss | Some c \<Rightarrow> Found (blit (replicate KVSD_MAX_PAYLOAD 0) 0 (val_of c), length (val_of c))), s')"
    by (rule read_into_spec [OF assms, of "replicate KVSD_MAX_PAYLOAD 0" KVSD_MAX_PAYLOAD k]) simp_all
  show ?thesis
  proof (cases "card_of M E k")
    case None
    then show ?thesis using r by (simp add: kvsd_value_def kvsd_get_copy_def)
  next
    case (Some c)
    then obtain b where b: "M k = Some b" by (auto simp: card_of_def split: option.splits)
    have "length (val_of c) \<le> KVSD_MAX_PAYLOAD"
      by (rule read_card_spec [OF assms(1) b order_refl]) (use Some card_val(3) in auto)
    then show ?thesis using r Some by (simp add: kvsd_value_def kvsd_get_copy_def blit_front)
  qed
qed

subsection \<open>Writing\<close>

lemma same_rest_ready: "same_rest s s' \<Longrightarrow> g_ready s' = g_ready s"
  by (simp add: same_rest_def)

lemma rel_slot:
  assumes "sd_rel L M st E s" "M k = Some b"
  shows "0 \<le> sint b"
proof -
  note r = sd_rel_ready [OF assms(1)]
  have "unat b < unat (mx s)" using cards_okM [OF r(6) assms(2)] cards_okD(1) [OF r(6)] by (auto simp: word_less_nat_alt)
  then show ?thesis using r(1) sint_small [of b] by (simp add: sd_layout_def)
qed

text \<open>
  The new version of a key goes to another block than the old one: the key is new, or not in the open block, or the
  open block has no room.
\<close>

definition put_moves :: "sd_state \<Rightarrow> u32 \<Rightarrow> byte list \<Rightarrow> bool" where
  "put_moves s k val \<longleftrightarrow> fst (find_slot_for_key s k) \<noteq> sint (sb_open_block (g_sb s))
     \<or> 512 < unat (sb_open_used (g_sb s)) + (8 + length (pc_compress_card val PACKED_DATA_MAX)) \<or> 60 \<le> sb_open_count (g_sb s)"

text \<open>After the append: the table, the index, and the removal of the old version.\<close>

lemma put_tiers:
  assumes rel: "sd_rel L (M(k \<mapsto> nb)) st E s" and m: "ht_map s = M" and ix: "index_ok (g_sram s)" "map_of (g_sram s) \<subseteq>\<^sub>m M"
  defines "s3 \<equiv> snd (ht_insert s k nb)"
  defines "s4 \<equiv> s3\<lparr>g_sram := index_insert (g_sram s3) k nb, g_fidx_count := 0\<rparr>"
  shows "sd_rel L (M(k \<mapsto> nb)) st E s4" "g_sb s4 = g_sb s" "g_ready s4 = g_ready s"
    "ht_map s4 = M(k \<mapsto> nb) \<Longrightarrow> tiers_ok (M(k \<mapsto> nb)) s4" "ht_map s4 = M(k \<mapsto> nb) \<or> ht_map s4 = M \<and> M k = None \<and> HT_ENTRIES_PER_BKT \<le> card (dom M)"
proof -
  have ht: "ht_inv s" using rel by (simp add: sd_rel_def)
  have st: "ht_stored s k nb (ht_insert s k nb)"
    by (rule ht_insert_spec [OF ht rel_slot [OF rel, of k]]) simp
  then have fr: "ht_frame s s3" and i3: "ht_inv s3" by (auto simp: ht_stored_def s3_def)
  note f = ht_frame_simps [OF fr]
  have rel3: "sd_rel L (M(k \<mapsto> nb)) st E s3" by (rule sd_rel_ht_frame [OF rel fr i3])
  have ss: "same_store s3 s4" by (simp add: s4_def same_store_def)
  show "sd_rel L (M(k \<mapsto> nb)) st E s4" by (rule sd_rel_same_store [OF rel3 ss])
  show "g_sb s4 = g_sb s" "g_ready s4 = g_ready s" by (simp_all add: s4_def f)
  have h4: "ht_map s4 = ht_map s3" by (rule same_store_ht(2) [OF ss i3])
  show "ht_map s4 = M(k \<mapsto> nb) \<or> ht_map s4 = M \<and> M k = None \<and> HT_ENTRIES_PER_BKT \<le> card (dom M)"
    using st m unfolding h4 by (auto simp: ht_stored_def s3_def split: if_splits)
  assume "ht_map s4 = M(k \<mapsto> nb)"
  moreover have "index_ok (g_sram s4)" "map_of (g_sram s4) \<subseteq>\<^sub>m M(k \<mapsto> nb)"
    using sram.put_inv [OF ix(1)] sram.put_submap [OF ix] by (simp_all add: s4_def f)
  ultimately show "tiers_ok (M(k \<mapsto> nb)) s4" by (simp add: tiers_ok_def fidx_none s4_def)
qed

lemma put_remove_old:
  assumes rel: "sd_rel L (M(k \<mapsto> nb)) (stale M k) E s" and t: "tiers_ok (M(k \<mapsto> nb)) s"
    and old: "M k = Some ob" "ob \<noteq> nb" "ob \<in> L" "k \<in> card_keys (E ob)" and nb: "sb_open_block (g_sb s) = nb"
  obtains s' L' E' where "packed_remove_card s ob k = Some (True, s')" "sd_rel L' (M(k \<mapsto> nb)) nost E' s'"
    "tiers_ok (M(k \<mapsto> nb)) s'" "g_ready s' = g_ready s" "card_of (M(k \<mapsto> nb)) E' = card_of (M(k \<mapsto> nb)) E"
proof -
  have "\<exists>s' L' E'. packed_remove_card s ob k = Some (True, s') \<and> same_rest s s' \<and> sd_rel L' (M(k \<mapsto> nb)) (unstale (stale M k) ob k) E' s'
    \<and> card_of (M(k \<mapsto> nb)) E' = card_of (M(k \<mapsto> nb)) E"
    using old nb by (intro packed_remove_spec [OF rel]) auto
  then obtain s' L' E' where p: "packed_remove_card s ob k = Some (True, s')" "same_rest s s'"
    "sd_rel L' (M(k \<mapsto> nb)) (unstale (stale M k) ob k) E' s'" "card_of (M(k \<mapsto> nb)) E' = card_of (M(k \<mapsto> nb)) E" by blast
  have "unstale (stale M k) ob k = nost" using old(1) by (auto simp: unstale_def stale_def fun_eq_iff)
  then show ?thesis using that [OF p(1) _ tiers_same_rest [OF p(2) t] same_rest_ready [OF p(2)] p(4)] p(3) by simp
qed

text \<open>The part of \<open>kvsd_put\<close> after the append; \<open>old\<close> is the slot that the key had before.\<close>

definition put_commit :: "sd_state \<Rightarrow> u32 \<Rightarrow> int \<Rightarrow> u32 \<Rightarrow> (bool \<times> sd_state) option" where
  "put_commit s2 k old nb =
     (let s3 = snd (ht_insert s2 k nb); s4 = s3\<lparr>g_sram := index_insert (g_sram s3) k nb, g_fidx_count := 0\<rparr>; is_new = (old < 0) in
      case (if \<not> is_new \<and> word_of_int old \<noteq> nb then map_option snd (packed_remove_card s4 (word_of_int old) k) else Some s4) of
        None \<Rightarrow> None
      | Some s5 \<Rightarrow> Some (True, s5\<lparr>g_sb := (g_sb s5)\<lparr>
          sb_total_cards := (if is_new then sb_total_cards (g_sb s5) + 1 else sb_total_cards (g_sb s5)), sb_dirty := 1\<rparr>\<rparr>))"

lemma put_unfold:
  assumes "g_ready s" "length val \<le> KVSD_MAX_PAYLOAD" "val ! 0 = KVSD_MAGIC_LO" "val ! 1 = KVSD_MAGIC_HI"
    and "find_slot_for_key s k = (old, s1)" "pc_compress_card val PACKED_DATA_MAX \<noteq> []"
  shows "kvsd_put s k val = (case packed_append s1 k (pc_compress_card val PACKED_DATA_MAX) (length val) of
      None \<Rightarrow> None
    | Some (None, s2) \<Rightarrow> Some (False, s2)
    | Some (Some nb, s2) \<Rightarrow> put_commit s2 k old nb)"
  using assms unfolding kvsd_put_def Let_def put_commit_def assms(5) prod.case by simp

lemma put_commit_spec:
  assumes rel: "sd_rel L (M(k \<mapsto> nb)) (stale M k) E s2" and m: "ht_map s2 = M" "g_ready s2" and ix: "index_ok (g_sram s2)" "map_of (g_sram s2) \<subseteq>\<^sub>m M"
    and nb: "sb_open_block (g_sb s2) = nb" "M k \<noteq> Some nb" and old: "\<forall>b. M k = Some b \<longrightarrow> b \<in> L \<and> k \<in> card_keys (E b) \<and> 0 \<le> sint b"
  shows "\<exists>s' L' E'. put_commit s2 k (key_slot M k) nb = Some (True, s') \<and> g_ready s'
    \<and> (0 \<le> fst (ht_lookup s' k) \<or> card (dom M) < HT_ENTRIES_PER_BKT \<longrightarrow> tiers_ok (M(k \<mapsto> nb)) s' \<and> sd_rel L' (M(k \<mapsto> nb)) nost E' s'
         \<and> card_of (M(k \<mapsto> nb)) E' = card_of (M(k \<mapsto> nb)) E)"
proof -
  define s3 where "s3 = snd (ht_insert s2 k nb)"
  define s4 where "s4 = s3\<lparr>g_sram := index_insert (g_sram s3) k nb, g_fidx_count := 0\<rparr>"
  note t = put_tiers [OF rel m(1) ix, folded s3_def, folded s4_def]
  have fin: "same_store s (s\<lparr>g_sb := (g_sb s)\<lparr>sb_total_cards := n, sb_dirty := 1\<rparr>\<rparr>)" for s n
    by (simp add: same_store_def same_layout_def)
  have tiers_fin: "tiers_ok M' (s\<lparr>g_sb := (g_sb s)\<lparr>sb_total_cards := n, sb_dirty := 1\<rparr>\<rparr>)" if "tiers_ok M' s" "ht_inv s" for M' s n
    using that(1) same_store_ht(2) [OF fin that(2), of n] by (intro tiers_same_rest [OF _ that(1)]) (simp add: same_rest_def same_layout_def)
  show ?thesis
  proof (cases "M k")
    case None
    define s' where "s' = s4\<lparr>g_sb := (g_sb s4)\<lparr>sb_total_cards := sb_total_cards (g_sb s4) + 1, sb_dirty := 1\<rparr>\<rparr>"
    have "put_commit s2 k (key_slot M k) nb = Some (True, s')"
      unfolding put_commit_def Let_def s3_def [symmetric] s4_def [symmetric] s'_def by (simp add: key_slot_def None)
    moreover have "g_ready s'" using t(3) m(2) by (simp add: s'_def)
    moreover have st: "stale M k = nost" by (simp add: stale_def None fun_eq_iff)
    have ht4: "ht_inv s4" using t(1) by (simp add: sd_rel_def)
    have h': "ht_inv s'" "ht_map s' = ht_map s4" using same_store_ht [OF fin ht4] by (simp_all add: s'_def)
    have "tiers_ok (M(k \<mapsto> nb)) s'" if "0 \<le> fst (ht_lookup s' k) \<or> card (dom M) < HT_ENTRIES_PER_BKT"
    proof -
      have "ht_map s' k \<noteq> None \<or> card (dom M) < HT_ENTRIES_PER_BKT" using ht_lookup_spec [OF h'(1), of k] that by (auto split: option.splits)
      then have "ht_map s4 = M(k \<mapsto> nb)" using t(5) None h'(2) by auto
      then show ?thesis using tiers_fin [OF t(4) ht4] by (simp add: s'_def)
    qed
    moreover have "sd_rel L (M(k \<mapsto> nb)) nost E s'" using sd_rel_same_store [OF t(1) fin] by (simp add: s'_def st)
    ultimately show ?thesis by blast
  next
    case (Some ob)
    then have o: "ob \<in> L" "k \<in> card_keys (E ob)" "0 \<le> sint ob" "ob \<noteq> nb" using old nb(2) by auto
    have t4: "tiers_ok (M(k \<mapsto> nb)) s4" using t(4,5) Some by auto
    have nb4: "sb_open_block (g_sb s4) = nb" using t(2) nb(1) by simp
    obtain s5 L' E' where s5: "packed_remove_card s4 ob k = Some (True, s5)" "sd_rel L' (M(k \<mapsto> nb)) nost E' s5"
      "tiers_ok (M(k \<mapsto> nb)) s5" "g_ready s5 = g_ready s4" "card_of (M(k \<mapsto> nb)) E' = card_of (M(k \<mapsto> nb)) E"
      by (rule put_remove_old [OF t(1) t4 Some o(4,1,2) nb4])
    define s' where "s' = s5\<lparr>g_sb := (g_sb s5)\<lparr>sb_total_cards := sb_total_cards (g_sb s5), sb_dirty := 1\<rparr>\<rparr>"
    have "put_commit s2 k (key_slot M k) nb = Some (True, s')"
      unfolding put_commit_def Let_def s3_def [symmetric] s4_def [symmetric] s'_def using o(3,4) s5(1) by (simp add: key_slot_def Some)
    moreover have "g_ready s'" using t(3) m(2) s5(4) by (simp add: s'_def)
    moreover have "sd_rel L' (M(k \<mapsto> nb)) nost E' s'" using sd_rel_same_store [OF s5(2) fin] by (simp only: s'_def)
    moreover have "tiers_ok (M(k \<mapsto> nb)) s'"
      using tiers_fin [OF s5(3)] s5(2) by (simp only: s'_def sd_rel_def)
    ultimately show ?thesis using s5(5) by blast
  qed
qed

lemma put_spec:
  assumes rel: "sd_rel L M nost E s" "tiers_ok M s" "g_ready s" and val: "2 \<le> length val" and mv: "put_moves s k val"
  shows "(\<exists>s'. kvsd_put s k val = Some (False, s') \<and> g_ready s' \<and> tiers_ok M s' \<and> sd_rel L M nost E s')
    \<or> (\<exists>s' E' L' nb. kvsd_put s k val = Some (True, s') \<and> g_ready s'
         \<and> (0 \<le> fst (ht_lookup s' k) \<or> card (dom M) < HT_ENTRIES_PER_BKT \<longrightarrow> tiers_ok (M(k \<mapsto> nb)) s' \<and> sd_rel L' (M(k \<mapsto> nb)) nost E' s'
              \<and> map_option val_of \<circ> card_of (M(k \<mapsto> nb)) E' = (map_option val_of \<circ> card_of M E)(k \<mapsto> val)))"
proof -
  define cmp where "cmp = pc_compress_card val PACKED_DATA_MAX"
  obtain s1 where s1: "find_slot_for_key s k = (key_slot M k, s1)" "sd_rel L M nost E s1" "tiers_ok M s1"
    "g_sb s1 = g_sb s" "g_ready s1 = g_ready s" by (rule find_slot_spec [OF rel(1,2), of k]) blast
  define bad where "bad \<longleftrightarrow> KVSD_MAX_PAYLOAD < length val \<or> val ! 0 \<noteq> KVSD_MAGIC_LO \<or> val ! 1 \<noteq> KVSD_MAGIC_HI"
  show ?thesis
  proof (cases "bad \<or> cmp = []")
    case True
    then have "kvsd_put s k val = Some (False, if bad then s else s1)"
      using rel(3) val s1(1) unfolding kvsd_put_def Let_def cmp_def [symmetric] by (auto simp: bad_def)
    then show ?thesis using rel s1 by (cases bad) auto
  next
    case good: False
    have ck: "card_ok cmp (length val)"
      using good val unfolding card_ok_def bad_def cmp_def by (intro conjI exI [of _ val]) auto
    have lc: "length cmp \<le> 516" using good compress_length [of val] by (simp add: bad_def cmp_def KVSD_MAX_PAYLOAD_def)
    have vc: "val_of cmp = val"
    proof -
      have "val \<noteq> []" using val by auto
      then show ?thesis using decompress_card [of val PACKED_DATA_MAX KVSD_MAX_PAYLOAD] good
        by (simp add: val_of_def cmp_def bad_def KVSD_MAX_PAYLOAD_def)
    qed
    have "length val \<le> KVSD_MAX_PAYLOAD" "val ! 0 = KVSD_MAGIC_LO" "val ! 1 = KVSD_MAGIC_HI" "cmp \<noteq> []"
      using good by (auto simp: bad_def)
    note put = put_unfold [OF rel(3) this(1-3) s1(1), folded cmp_def, OF this(4)]
    from packed_append_spec [OF s1(2) ck lc, of k] show ?thesis
    proof (elim disjE exE conjE)
      fix s'
      assume "packed_append s1 k cmp (length val) = Some (None, s')" "same_rest s1 s'" "sd_rel L M nost E s'"
      then show ?thesis using tiers_same_rest [OF _ s1(3)] same_rest_ready [of s1 s'] s1(5) rel(3) unfolding put by auto
    next
      fix nb s'
      assume "M k = Some nb" "nb = sb_open_block (g_sb s1)" "unat (sb_open_used (g_sb s1)) + (8 + length cmp) \<le> 512"
        "sb_open_count (g_sb s1) < 60"
      then have False using mv s1(1,4) by (simp add: put_moves_def key_slot_def cmp_def)
      then show ?thesis ..
    next
      fix nb s2 L' E'
      assume a: "packed_append s1 k cmp (length val) = Some (Some nb, s2)" "M k \<noteq> Some nb" "same_rest s1 s2" "sb_open_block (g_sb s2) = nb"
        "sd_rel L' (M(k \<mapsto> nb)) (stale M k) E' s2" "card_of (M(k \<mapsto> nb)) E' = (card_of M E)(k \<mapsto> cmp)"
        "\<forall>b. M k = Some b \<longrightarrow> b \<in> L' \<and> k \<in> card_keys (E' b)"
      have t2: "tiers_ok M s2" by (rule tiers_same_rest [OF a(3) s1(3)])
      then have t2': "ht_map s2 = M" "index_ok (g_sram s2)" "map_of (g_sram s2) \<subseteq>\<^sub>m M" by (auto simp: tiers_ok_def)
      have r2: "g_ready s2" using same_rest_ready [OF a(3)] s1(5) rel(3) by simp
      have old: "\<forall>b. M k = Some b \<longrightarrow> b \<in> L' \<and> k \<in> card_keys (E' b) \<and> 0 \<le> sint b"
        using a(7) rel_slot [OF rel(1), of k] by blast
      obtain s' L'' E'' where c: "put_commit s2 k (key_slot M k) nb = Some (True, s')" "g_ready s'"
        "0 \<le> fst (ht_lookup s' k) \<or> card (dom M) < HT_ENTRIES_PER_BKT \<longrightarrow> tiers_ok (M(k \<mapsto> nb)) s' \<and> sd_rel L'' (M(k \<mapsto> nb)) nost E'' s'
           \<and> card_of (M(k \<mapsto> nb)) E'' = card_of (M(k \<mapsto> nb)) E'"
        using put_commit_spec [OF a(5) t2'(1) r2 t2'(2,3) a(4,2) old] by blast
      have "map_option val_of \<circ> (card_of M E)(k \<mapsto> cmp) = (map_option val_of \<circ> card_of M E)(k \<mapsto> val)"
        by (simp add: fun_eq_iff vc)
      note vals = this
      have "0 \<le> fst (ht_lookup s' k) \<or> card (dom M) < HT_ENTRIES_PER_BKT \<longrightarrow> tiers_ok (M(k \<mapsto> nb)) s' \<and> sd_rel L'' (M(k \<mapsto> nb)) nost E'' s'
          \<and> map_option val_of \<circ> card_of (M(k \<mapsto> nb)) E'' = (map_option val_of \<circ> card_of M E)(k \<mapsto> val)" (is "?found \<longrightarrow> _")
      proof
        assume ?found
        from mp [OF c(3) this] show "tiers_ok (M(k \<mapsto> nb)) s' \<and> sd_rel L'' (M(k \<mapsto> nb)) nost E'' s'
          \<and> map_option val_of \<circ> card_of (M(k \<mapsto> nb)) E'' = (map_option val_of \<circ> card_of M E)(k \<mapsto> val)" using a(6) vals by simp
      qed
      moreover have "kvsd_put s k val = Some (True, s')" unfolding put a(1) by (simp add: c(1))
      ultimately show ?thesis using c(2) by blast
    qed
  qed
qed

subsection \<open>Refinement\<close>

lemma kvsd_value_inv:
  assumes "sd_rel L M nost E s" "tiers_ok M s" "g_ready s"
  shows "sd_inv s" "kvsd_value s = map_option val_of \<circ> card_of M E"
  using assms kvsd_value_card [OF assms] by (auto simp: sd_inv_def fun_eq_iff)

lemma put_few_spec:
  assumes "sd_rel L M nost E s" "tiers_ok M s" "g_ready s" "2 \<le> length val" "put_moves s k val" "kvsd_put s k val = Some (True, s')"
    and few: "card (dom M) < HT_ENTRIES_PER_BKT"
  obtains L' E' nb where "g_ready s'" "tiers_ok (M(k \<mapsto> nb)) s'" "sd_rel L' (M(k \<mapsto> nb)) nost E' s'"
    "map_option val_of \<circ> card_of (M(k \<mapsto> nb)) E' = (map_option val_of \<circ> card_of M E)(k \<mapsto> val)"
  using put_spec [OF assms(1-5)] assms(6) few by auto

lemma put_few_found:
  assumes "sd_rel L M nost E s" "tiers_ok M s" "g_ready s" "2 \<le> length val" "put_moves s k val" "kvsd_put s k val = Some (True, s')"
    and few: "card (dom M) < HT_ENTRIES_PER_BKT"
  shows "0 \<le> fst (ht_lookup s' k)"
proof -
  obtain L' E' nb where r: "g_ready s'" "tiers_ok (M(k \<mapsto> nb)) s'" "sd_rel L' (M(k \<mapsto> nb)) nost E' s'"
    by (rule put_few_spec [OF assms])
  have "ht_inv s'" "ht_map s' k = Some nb" using r by (auto simp: sd_rel_def tiers_ok_def)
  then show ?thesis using ht_lookup_spec [of s' k] rel_slot [OF r(3), of k nb] by auto
qed

text \<open>A store of four blocks, formatted and empty.\<close>

definition sd_small :: sd_state where
  "sd_small = sd_blank\<lparr>sd_blocks := (\<lambda>b. if b = 10 then 1 # replicate 511 0 else if b = 30 then empty_blk else replicate 512 0),
     g_sb := (g_sb sd_blank)\<lparr>sb_bitmap_start := 10, sb_bitmap_blocks := 1, sb_hashtab_start := 20, sb_hashtab_blocks := 2, sb_data_start := 30,
       sb_data_blocks := 4, sb_max_cards := 4, sb_open_block := 0, sb_open_used := 8, sb_open_count := 0\<rparr>, g_ready := True\<rparr>"

lemma word_less_4: "(a :: u32) < 4 \<longleftrightarrow> a = 0 \<or> a = 1 \<or> a = 2 \<or> a = 3"
proof -
  have "unat a < 4 \<longleftrightarrow> unat a = 0 \<or> unat a = 1 \<or> unat a = 2 \<or> unat a = 3" by linarith
  then show ?thesis by (simp add: word_less_nat_alt word_unat_eq_iff)
qed

lemma word_less_2: "(a :: u32) < 2 \<longleftrightarrow> a = 0 \<or> a = 1"
proof -
  have "unat a < 2 \<longleftrightarrow> unat a = 0 \<or> unat a = 1" by linarith
  then show ?thesis by (simp add: word_less_nat_alt word_unat_eq_iff)
qed

lemma sd_small_rel: "sd_rel {0} Map.empty nost (\<lambda>b. []) sd_small" "tiers_ok Map.empty sd_small" "g_ready sd_small"
proof -
  have lay: "sd_layout (g_sb sd_small)" by (auto simp: sd_layout_def sd_small_def word_less_4 word_less_2)
  have b: "sd_blocks sd_small (bucket_addr sd_small i) = replicate 512 0" if "i < 2" for i
    using that by (auto simp: sd_small_def bucket_addr_def word_less_2)
  have z: "bkt (bucket_view sd_small i) = []" if "i < 2" for i
    by (simp add: bucket_view_def Let_def b [OF that] bucket_ok_zero)
  have l: "length empty_blk = 512" using block_holds_empty by (simp add: block_holds_def)
  have "ht_ready sd_small" by (simp add: ht_ready_def sd_small_def sd_blank_def cache_ok_cold HT_CACHE_SLOTS_def l)
  moreover have n: "ht_blocks sd_small = 2" by (simp add: sd_small_def)
  ultimately have ht: "ht_inv sd_small" by (simp add: ht_inv_def table_ok_def tbl_def z)
  have "ht_map sd_small k = None" for k
  proof -
    have "ht_hash1 k mod 2 < 2" "ht_hash2 k mod 2 < 2" by (rule mod_less_u32, simp)+
    then show ?thesis by (simp add: ht_map_def table_map_def n tbl_def z)
  qed
  then have m: "ht_map sd_small = Map.empty" by auto
  have e: "blk_count empty_blk = 0" "blk_used empty_blk = 8" using block_holds_empty by (auto simp: block_holds_def)
  have v: "data_view sd_small 0 = empty_blk" by (simp add: data_view_def blk_addr_def sd_small_def e)
  have bit0: "bit_of sd_small 0" by (simp add: bit_of_def sd_small_def bitmap_block_def byte_off_eq slot_bit_def)
  have "cards_ok {0} Map.empty nost (\<lambda>b. []) (mx sd_small) (data_view sd_small) (bit_of sd_small)"
    using v bit0 block_holds_empty by (simp add: cards_ok_def) (simp add: sd_small_def)
  moreover have "open_ok {0} sd_small"
  proof -
    have "sb_open_block (g_sb sd_small) = 0" "sb_open_used (g_sb sd_small) = 8" "sb_open_count (g_sb sd_small) = 0" "\<not> g_open_cached sd_small"
      by (simp_all add: sd_small_def sd_blank_def)
    then show ?thesis by (simp add: open_ok_def v e)
  qed
  ultimately show "sd_rel {0} Map.empty nost (\<lambda>b. []) sd_small"
    using lay ht by (simp add: sd_rel_def) (simp add: sd_small_def sd_blank_def cache_ok_cold DATA_CACHE_SLOTS_def)
  show "tiers_ok Map.empty sd_small" using m by (simp add: tiers_ok_def) (simp add: sd_small_def sd_blank_def index_ok_def fidx_none)
  show "g_ready sd_small" by (simp add: sd_small_def)
qed

lemma sd_small_inv: "sd_inv sd_small"
  using sd_small_rel unfolding sd_inv_def by blast

lemma put_moves_first:
  assumes "sd_rel L M nost E s" "tiers_ok M s" "M k = None"
  shows "put_moves s k val"
proof -
  note r = sd_rel_ready [OF assms(1)]
  have "fst (find_slot_for_key s k) = - 1"
    by (rule find_slot_spec [OF assms(1,2), of k]) (simp add: key_slot_def assms(3))
  moreover have "0 \<le> sint (sb_open_block (g_sb s))"
  proof -
    have "sb_open_block (g_sb s) < mx s" using r(7) cards_okD(1) [OF r(6)] by (auto simp: open_ok_def Let_def)
    then show ?thesis using r(1) sint_small [of "sb_open_block (g_sb s)"] by (simp add: sd_layout_def word_less_nat_alt)
  qed
  ultimately show ?thesis by (simp add: put_moves_def)
qed

lemma put_refines:
  assumes "sd_inv s" "2 \<le> length val" "put_moves s k val"
    and "\<forall>s'. kvsd_put s k val = Some (True, s') \<longrightarrow> 0 \<le> fst (ht_lookup s' k)"
  shows "\<exists>ok s'. kvsd_put s k val = Some (ok, s') \<and> sd_inv s' \<and> kvsd_value s' = (if ok then (kvsd_value s)(k \<mapsto> val) else kvsd_value s)"
proof -
  obtain L M E where rel: "g_ready s" "sd_rel L M nost E s" "tiers_ok M s" using assms(1) by (auto simp: sd_inv_def)
  note v = kvsd_value_inv [OF rel(2,3,1)]
  from put_spec [OF rel(2,3,1) assms(2,3)] show ?thesis
  proof (elim disjE exE conjE)
    fix s'
    assume a: "kvsd_put s k val = Some (False, s')" "g_ready s'" "tiers_ok M s'" "sd_rel L M nost E s'"
    show ?thesis using kvsd_value_inv [OF a(4,3,2)] a(1) v(2) by auto
  next
    fix s' E' L' nb
    assume a: "kvsd_put s k val = Some (True, s')" "g_ready s'"
      "0 \<le> fst (ht_lookup s' k) \<or> card (dom M) < HT_ENTRIES_PER_BKT \<longrightarrow> tiers_ok (M(k \<mapsto> nb)) s' \<and> sd_rel L' (M(k \<mapsto> nb)) nost E' s'
         \<and> map_option val_of \<circ> card_of (M(k \<mapsto> nb)) E' = (map_option val_of \<circ> card_of M E)(k \<mapsto> val)"
    then have b: "tiers_ok (M(k \<mapsto> nb)) s'" "sd_rel L' (M(k \<mapsto> nb)) nost E' s'"
      "map_option val_of \<circ> card_of (M(k \<mapsto> nb)) E' = (map_option val_of \<circ> card_of M E)(k \<mapsto> val)" using assms(4) by auto
    show ?thesis using kvsd_value_inv [OF b(2,1) a(2)] a(1) b(3) v(2) by auto
  qed
qed

text \<open>
  C22: a write refines the update of a map. From a well-formed store, \<open>kvsd_put\<close> of a value of two bytes or more whose
  new version goes to another block than the old one (\<open>put_moves\<close>) ends in a well-formed store, whose values
  are those before with the key updated when it returns true and those before when it returns false. The last hypothesis
  says that the hash table, the failure of which \<open>kvsd_put\<close> ignores, had room for the key.
\<close>

theorem kvsd_put_refines:
  assumes "sd_inv s" "2 \<le> length val" "put_moves s k val"
    and "\<forall>s'. kvsd_put s k val = Some (True, s') \<longrightarrow> 0 \<le> fst (ht_lookup s' k)"
  shows "\<exists>ok s'. kvsd_put s k val = Some (ok, s') \<and> sd_inv s' \<and> kvsd_value s' = (if ok then (kvsd_value s)(k \<mapsto> val) else kvsd_value s)"
  by (rule put_refines [OF assms])

theorem kvsd_put_refines_witness:
  "\<exists>ok s'. kvsd_put sd_small 5 [0x7D, 0xCA, 9] = Some (ok, s') \<and> sd_inv s'
     \<and> kvsd_value s' = (if ok then (kvsd_value sd_small)(5 \<mapsto> [0x7D, 0xCA, 9]) else kvsd_value sd_small)"
proof (rule kvsd_put_refines [OF sd_small_inv])
  show "put_moves sd_small 5 [0x7D, 0xCA, 9]" by (rule put_moves_first [OF sd_small_rel(1,2)]) simp
  then show "\<forall>s'. kvsd_put sd_small 5 [0x7D, 0xCA, 9] = Some (True, s') \<longrightarrow> 0 \<le> fst (ht_lookup s' 5)"
    using put_few_found [OF sd_small_rel, of "[0x7D, 0xCA, 9]" 5] by (auto simp: HT_ENTRIES_PER_BKT_def)
qed simp

end
