(* ===== verification/SdStale.thy ===== *)
theory SdStale
  imports SdRefine
begin

text \<open>
  Where \<open>kvsd_put\<close> departs from a map: a key whose block is the open block and has room for the new version gets both
  versions into that block, and \<open>packed_find\<close> stops at the first, the old one.
\<close>

subsection \<open>Reading without the whole relation\<close>

lemma packed_read_card_first:
  assumes ok: "\<forall>n. sd_ok s n" and c: "cache_ok (data_view s) (\<lambda>b. b < mx s) (g_data_cache s)" and b: "b < mx s"
    and hb: "block_holds (data_view s b) es" and kb: "map_of es k = Some (cd, rl)" and ck: "card_ok cd rl" and cap: "KVSD_MAX_PAYLOAD \<le> cap"
  shows "fst (packed_read_card s b k cap) = Found (val_of cd)"
proof -
  obtain s' where s': "packed_read s b = (Some (data_view s b), s')" by (rule packed_read_spec [OF ok c b])
  have "k \<in> card_keys es" using map_of_SomeD [OF kb] by force
  then obtain xs c' rl' ys where E: "es = xs @ (k, c', rl') # ys" "k \<notin> card_keys xs" by (rule first_card)
  then have "map_of xs k = None" by (simp add: map_of_eq_None_iff)
  then have "c' = cd" "rl' = rl" using kb E(1) by (simp_all add: map_add_def)
  then have E': "es = xs @ (k, cd, rl) # ys" using E(1) by simp
  note f = card_fields [OF hb [unfolded E']]
  have "blk_used (data_view s b) \<le> 512" using hb by (simp add: block_holds_def)
  then show ?thesis
    unfolding packed_read_card_def s' prod.case option.case Let_def packed_find_hit [OF hb [unfolded E'] E(2)]
    using f(2,4,5) card_val(1) [OF ck cap] by (simp add: PACKED_ENTRY_HDR_def)
qed

lemma kvsd_value_read:
  assumes "g_ready s" "find_slot_for_key s k = (sint b, s1)" "0 \<le> sint b" "fst (packed_read_card s1 b k KVSD_MAX_PAYLOAD) = Found v"
    and "2 \<le> length v" "length v \<le> KVSD_MAX_PAYLOAD" "v ! 0 = KVSD_MAGIC_LO" "v ! 1 = KVSD_MAGIC_HI"
  shows "kvsd_value s k = Some v"
proof -
  obtain s2 where p: "packed_read_card s1 b k KVSD_MAX_PAYLOAD = (Found v, s2)" using assms(4) by (cases "packed_read_card s1 b k KVSD_MAX_PAYLOAD") auto
  have l: "length v \<le> length (replicate KVSD_MAX_PAYLOAD (0 :: byte))" "0 < length v" "1 < length v" using assms(5,6) by auto
  define out where "out = blit (replicate KVSD_MAX_PAYLOAD 0) 0 v"
  have o: "out ! 0 = KVSD_MAGIC_LO" "out ! 1 = KVSD_MAGIC_HI" "take (length v) out = v" "length out = KVSD_MAX_PAYLOAD"
    using blit_front [OF l(1)] l assms(7,8) by (simp_all add: out_def)
  have "\<not> length out < 2" by (simp add: o(4) KVSD_MAX_PAYLOAD_def)
  then have "read_into s k (replicate KVSD_MAX_PAYLOAD 0) KVSD_MAX_PAYLOAD = (Found (out, length v), s2)"
    unfolding read_into_def using assms(1-3) p o(1,2) by (simp add: out_def Let_def)
  then show ?thesis by (simp add: kvsd_value_def kvsd_get_copy_def o(3))
qed

subsection \<open>The second version in the same block\<close>

text \<open>The append to the open block, whether or not it already has the key.\<close>

lemma append_here:
  assumes rel: "sd_rel L M nost E s" "tiers_ok M s" "g_ready s"
    and c: "card_ok c r" "8 + length c \<le> 504"
    and fits: "unat (sb_open_used (g_sb s)) + (8 + length c) \<le> 512" "sb_open_count (g_sb s) < 60"
  defines "ob \<equiv> sb_open_block (g_sb s)"
  obtains s3 where "packed_append s k c r = Some (Some ob, s3)" "ht_inv s3" "cache_ok (data_view s3) (\<lambda>b. b < mx s3) (g_data_cache s3)"
    "block_holds (data_view s3 ob) (E ob @ [(k, c, r)])" "sd_layout (g_sb s3)" "ob < mx s3" "g_ready s3" "index_ok (g_sram s3)"
    "sb_open_block (g_sb s3) = ob" "sb_open_used (g_sb s3) = word_of_nat (blk_used (data_view s3 ob))"
    "sb_open_count (g_sb s3) = word_of_nat (blk_count (data_view s3 ob))"
proof -
  obtain s2 where s2: "open_for s (8 + length c) = (True, s2)" "open_rel L M nost E s2" "same_rest s s2" "sb_open_block (g_sb s2) = ob"
    "g_open_blk s2 = data_view s ob" by (rule open_same [OF rel(1) conjI [OF fits], folded ob_def])
  have o: "sd_layout (g_sb s2)" "ht_inv s2" "cache_ok (data_view s2) (\<lambda>b. b < mx s2) (g_data_cache s2)" "ob \<in> L" "g_open_cached s2"
    "cards_ok L M nost E (mx s2) ((data_view s2)(ob := g_open_blk s2)) (bit_of s2)" using s2(2,4) by (auto simp: open_rel_def)
  have obm: "ob < mx s2" and h0: "block_holds (g_open_blk s2) (E ob)" using cards_okD(1,3) [OF o(6,4)] by auto
  have "blk_used (data_view s ob) \<le> unat (sb_open_used (g_sb s))" "blk_count (data_view s ob) \<le> unat (sb_open_count (g_sb s))"
    using sd_rel_ready(7) [OF rel(1)] by (auto simp: open_ok_def ob_def Let_def)
  then have n: "blk_count (g_open_blk s2) < 60" "blk_used (g_open_blk s2) + 8 + length c \<le> 512"
    using fits by (auto simp: word_less_nat_alt s2(5))
  define blk' where "blk' = set_count_used (blit (g_open_blk s2) (blk_used (g_open_blk s2)) (entry_bytes k c r))
    (blk_count (g_open_blk s2) + 1) (blk_used (g_open_blk s2) + (8 + length c))"
  define s3 where "s3 = put_block (append_state s2 blk') ob blk'"
  note p = append_block [OF o(1-3) obm [folded s2(4)] o(5) h0 n, where k = k and r = r, unfolded s2(4), folded blk'_def, folded s3_def]
  have sl: "same_layout (g_sb s2) (g_sb s3)" using p(6) by (simp add: same_rest_def)
  have "packed_append s k c r = Some (Some ob, s3)"
    unfolding packed_append_def Let_def entry_size_eq [OF order_trans [OF le_add2 order_trans [OF c(2)]], simplified] s2(1) prod.case
      put_entry_block [OF h0 n(2)] option.case
    using c(2) by (simp add: PACKED_DATA_MAX_def PACKED_ENTRY_HDR_def s3_def put_block_def append_state_def blk'_def s2(4) blk_addr_def)
  moreover have "g_ready s3" "index_ok (g_sram s3)"
    using same_rest_trans [OF s2(3) p(6)] rel(2,3) by (simp_all add: same_rest_def tiers_ok_def)
  ultimately show thesis
    using that [of s3] p(1-4,7,10,11) o(1) obm same_layout_simps [OF sl] by simp
qed

lemma put_stays:
  assumes rel: "sd_rel L M nost E s" "tiers_ok M s" and "\<not> put_moves s k val"
  defines "ob \<equiv> sb_open_block (g_sb s)"
  obtains s1 where "find_slot_for_key s k = (sint ob, s1)" "M k = Some ob" "0 \<le> sint ob" "sd_rel L M nost E s1" "tiers_ok M s1"
    "g_sb s1 = g_sb s" "g_ready s1 = g_ready s"
proof -
  obtain s1 where s1: "find_slot_for_key s k = (key_slot M k, s1)" "sd_rel L M nost E s1" "tiers_ok M s1" "g_sb s1 = g_sb s"
    "g_ready s1 = g_ready s" by (rule find_slot_spec [OF rel, of k]) blast
  have e: "key_slot M k = sint ob" using assms(3) s1(1) by (simp add: put_moves_def ob_def)
  have "M k \<noteq> None" using put_moves_first [OF rel, of k val] assms(3) by auto
  then obtain b where b: "M k = Some b" by auto
  then have "sint b = sint ob" using e by (simp add: key_slot_def)
  then have "b = ob" by (metis word_of_sint)
  then show thesis using that [of s1] s1 b rel_slot [OF rel(1) b] e by simp
qed

lemma sram_hit:
  assumes "index_ok ix" "g_sram s = index_insert ix k b"
  shows "find_slot_for_key s k = (sint b, s)"
proof -
  have "map_of (g_sram s) k = Some b" "index_ok (g_sram s)"
    using sram.put_hit [OF assms(1)] sram.put_inv [OF assms(1)] assms(2) by auto
  then show ?thesis using index_lookup [of "g_sram s" k] by (simp add: find_slot_for_key_def Let_def)
qed

text \<open>The table and the index leave the data blocks alone.\<close>

lemma insert_view:
  assumes "ht_inv s" "sd_layout (g_sb s)" "0 \<le> sint v" "b < mx s"
    and "sd_blocks s' = sd_blocks (snd (ht_insert s k v))" "same_layout (g_sb s) (g_sb s')"
  shows "data_view s' b = data_view s b"
proof -
  have "ht_frame s (snd (ht_insert s k v))" using ht_insert_spec [OF assms(1,3), of k] by (simp add: ht_stored_def)
  then have "sd_blocks s' (blk_addr s b) = sd_blocks s (blk_addr s b)"
    using layout_disjoint(1) [OF assms(2,4)] assms(5) by (simp add: ht_frame_def)
  then show ?thesis unfolding data_view_def same_layout_simps(4) [OF assms(6)] by simp
qed

text \<open>
  C25: an update in the same block is lost. When the old version of the key is in the open block and the open block has
  room for the new one, \<open>kvsd_put\<close> returns true and the key keeps its old value: the removal of the old card is
  skipped because both slots are equal, and the search of a block stops at the first card of a key.
\<close>

theorem kvsd_put_same_block:
  assumes "sd_inv s" and "2 \<le> length val" and "\<not> put_moves s k val" and "kvsd_put s k val = Some (True, s')"
  shows "kvsd_value s' k = kvsd_value s k \<and> kvsd_value s k \<noteq> None"
proof -
  obtain L M E where rel: "g_ready s" "sd_rel L M nost E s" "tiers_ok M s" using assms(1) by (auto simp: sd_inv_def)
  define ob where "ob = sb_open_block (g_sb s)"
  define c where "c = pc_compress_card val PACKED_DATA_MAX"
  obtain s1 where s1: "find_slot_for_key s k = (sint ob, s1)" "M k = Some ob" "0 \<le> sint ob" "sd_rel L M nost E s1" "tiers_ok M s1"
    "g_sb s1 = g_sb s" "g_ready s1" by (rule put_stays [OF rel(2,3) assms(3), folded ob_def]) (use rel(1) in simp)
  have good: "length val \<le> KVSD_MAX_PAYLOAD" "val ! 0 = KVSD_MAGIC_LO" "val ! 1 = KVSD_MAGIC_HI" "c \<noteq> []"
    using assms(2,4) rel(1) s1(1) unfolding kvsd_put_def c_def by (auto simp: Let_def split: if_splits)
  have ck: "card_ok c (length val)" using good assms(2) unfolding card_ok_def c_def by blast
  note put = put_unfold [OF rel(1) good(1-3) s1(1), folded c_def, OF good(4)]
  have fits: "unat (sb_open_used (g_sb s1)) + (8 + length c) \<le> 512" "sb_open_count (g_sb s1) < 60"
    using assms(3) by (simp_all add: put_moves_def s1(6) c_def not_le)
  have small: "8 + length c \<le> 504"
  proof (rule ccontr)
    assume "\<not> ?thesis"
    moreover have "length c \<le> 516" using compress_length [of val] good(1) by (simp add: c_def KVSD_MAX_PAYLOAD_def)
    ultimately have "packed_append s1 k c (length val) = Some (None, s1)"
      using entry_size_eq [of c] by (simp add: packed_append_def PACKED_DATA_MAX_def)
    then show False using assms(4) put by simp
  qed
  obtain s3 where s3: "packed_append s1 k c (length val) = Some (Some ob, s3)" "ht_inv s3" "cache_ok (data_view s3) (\<lambda>b. b < mx s3) (g_data_cache s3)"
    "block_holds (data_view s3 ob) (E ob @ [(k, c, length val)])" "sd_layout (g_sb s3)" "ob < mx s3" "g_ready s3" "index_ok (g_sram s3)"
    by (rule append_here [OF s1(4,5,7) ck small fits, where k = k, unfolded s1(6), folded ob_def])
  define s4 where "s4 = snd (ht_insert s3 k ob)"
  define s5 where "s5 = s4\<lparr>g_sram := index_insert (g_sram s4) k ob, g_fidx_count := 0\<rparr>"
  have fr: "ht_frame s3 s4" and i4: "ht_inv s4" using ht_insert_spec [OF s3(2) s1(3), of k] by (simp_all add: ht_stored_def s4_def)
  note f = ht_frame_simps [OF fr]
  have s': "s' = s5\<lparr>g_sb := (g_sb s5)\<lparr>sb_total_cards := sb_total_cards (g_sb s5), sb_dirty := 1\<rparr>\<rparr>"
    using assms(4) put s3(1) s1(3) unfolding put_commit_def s5_def s4_def Let_def by simp
  have hit: "find_slot_for_key s' k = (sint ob, s')" by (rule sram_hit [OF s3(8)]) (simp add: s' s5_def f)
  have lay: "same_layout (g_sb s3) (g_sb s')" by (simp add: s' s5_def f same_layout_def)
  note sl = same_layout_simps [OF lay]
  have v: "data_view s' b = data_view s3 b" if "b < mx s3" for b
    by (rule insert_view [OF s3(2,5) s1(3) that _ lay]) (simp add: s' s5_def s4_def)
  have "map_of (E ob) k \<noteq> None"
    using cards_okM [OF sd_rel_ready(6) [OF rel(2)] s1(2)] by (auto simp: map_of_eq_None_iff)
  then obtain cd rl where cd: "map_of (E ob) k = Some (cd, rl)" by auto
  have ok: "card_ok cd rl" using map_of_SomeD [OF cd] cards_okD(5) [OF sd_rel_ready(6) [OF rel(2)]] cards_okM [OF sd_rel_ready(6) [OF rel(2)] s1(2)] by blast
  have "fst (packed_read_card s' ob k KVSD_MAX_PAYLOAD) = Found (val_of cd)"
  proof (rule packed_read_card_first [OF _ _ _ _ _ ok order_refl])
    show "\<forall>n. sd_ok s' n" using i4 by (simp add: ht_inv_def ht_ready_def s' s5_def)
    show "cache_ok (data_view s') (\<lambda>b. b < mx s') (g_data_cache s')"
      using cache_ok_view [OF s3(3) v] unfolding sl(1) by (simp add: s' s5_def f)
    show "ob < mx s'" using s3(6) by (simp add: sl(1))
    show "block_holds (data_view s' ob) (E ob @ [(k, c, length val)])" using s3(4) v [OF s3(6)] by simp
    show "map_of (E ob @ [(k, c, length val)]) k = Some (cd, rl)" using cd by (simp add: map_add_def)
  qed
  moreover have "g_ready s'" using s3(7) by (simp add: s' s5_def f)
  ultimately have "kvsd_value s' k = Some (val_of cd)"
    using kvsd_value_read [OF _ hit s1(3)] card_val [OF ok order_refl] by simp
  moreover have "kvsd_value s k = Some (val_of cd)"
    using kvsd_value_card [OF rel(2,3,1)] by (simp add: card_of_def s1(2) cd)
  ultimately show ?thesis by simp
qed

subsection \<open>A lost update\<close>

lemma put_new_here:
  assumes rel: "sd_rel L M nost E s" "tiers_ok M s" "g_ready s" and new: "M k = None"
    and val: "2 \<le> length val" "length val \<le> KVSD_MAX_PAYLOAD" "val ! 0 = KVSD_MAGIC_LO" "val ! 1 = KVSD_MAGIC_HI"
    and c: "pc_compress_card val PACKED_DATA_MAX = c" "c \<noteq> []" "8 + length c \<le> 504"
    and fits: "unat (sb_open_used (g_sb s)) + (8 + length c) \<le> 512" "sb_open_count (g_sb s) < 60"
  defines "ob \<equiv> sb_open_block (g_sb s)"
  obtains s' where "kvsd_put s k val = Some (True, s')" "sb_open_block (g_sb s') = ob"
    "sb_open_used (g_sb s') = word_of_nat (16 + length (cards_bytes (E ob)) + length c)" "sb_open_count (g_sb s') = word_of_nat (length (E ob) + 1)"
    "fst (find_slot_for_key s' k) = sint ob" "g_fidx_count s' = 0" "blk_count (data_view s' ob) = length (E ob) + 1"
proof -
  obtain s1 where s1: "find_slot_for_key s k = (key_slot M k, s1)" "sd_rel L M nost E s1" "tiers_ok M s1"
    "g_sb s1 = g_sb s" "g_ready s1 = g_ready s" by (rule find_slot_spec [OF rel(1,2), of k]) blast
  have ck: "card_ok c (length val)" using c val unfolding card_ok_def by blast
  have "g_ready s1" using s1(5) rel(3) by simp
  then obtain s3 where s3: "packed_append s1 k c (length val) = Some (Some ob, s3)" "ht_inv s3" "block_holds (data_view s3 ob) (E ob @ [(k, c, length val)])"
    "sb_open_block (g_sb s3) = ob" "sb_open_used (g_sb s3) = word_of_nat (blk_used (data_view s3 ob))"
    "sb_open_count (g_sb s3) = word_of_nat (blk_count (data_view s3 ob))" "index_ok (g_sram s3)" "sd_layout (g_sb s3)" "ob < mx s3"
    by (rule append_here [OF s1(2,3) _ ck c(3) fits [folded s1(4)], where k = k, unfolded s1(4), folded ob_def])
  note put = put_unfold [OF rel(3) val(2-4) s1(1), unfolded c(1), OF c(2)]
  define s4 where "s4 = snd (ht_insert s3 k ob)"
  define s' where "s' = s4\<lparr>g_sram := index_insert (g_sram s4) k ob, g_fidx_count := 0, g_sb := (g_sb s4)\<lparr>sb_total_cards := sb_total_cards (g_sb s4) + 1, sb_dirty := 1\<rparr>\<rparr>"
  have slot: "0 \<le> sint ob"
  proof -
    note r = sd_rel_ready [OF rel(1)]
    have "ob < mx s" using r(7) cards_okD(1) [OF r(6)] by (auto simp: open_ok_def Let_def ob_def)
    then show ?thesis using r(1) sint_small [of ob] by (simp add: sd_layout_def word_less_nat_alt)
  qed
  have "ht_frame s3 s4" using ht_insert_spec [OF s3(2) slot, of k] by (simp add: ht_stored_def s4_def)
  note f = ht_frame_simps [OF this]
  have "kvsd_put s k val = Some (True, s')"
    unfolding put s3(1) put_commit_def Let_def s'_def s4_def by (simp add: key_slot_def new)
  moreover have "find_slot_for_key s' k = (sint ob, s')" by (rule sram_hit [OF s3(7)]) (simp add: s'_def f)
  moreover have lay: "same_layout (g_sb s3) (g_sb s')" by (simp add: s'_def f same_layout_def)
  have "data_view s' ob = data_view s3 ob"
    by (rule insert_view [OF s3(2,8) slot s3(9) _ lay]) (simp add: s'_def s4_def)
  ultimately show thesis
    using s3(3-6) that [of s'] by (simp add: s'_def f block_holds_def)
qed

lemma put_again_here:
  assumes rel: "sd_rel L M nost E s" "tiers_ok M s" "g_ready s" and mv: "\<not> put_moves s k val"
    and val: "2 \<le> length val" "length val \<le> KVSD_MAX_PAYLOAD" "val ! 0 = KVSD_MAGIC_LO" "val ! 1 = KVSD_MAGIC_HI"
    and c: "pc_compress_card val PACKED_DATA_MAX = c" "c \<noteq> []" "8 + length c \<le> 504"
  shows "\<exists>s'. kvsd_put s k val = Some (True, s')"
proof -
  define ob where "ob = sb_open_block (g_sb s)"
  obtain s1 where s1: "find_slot_for_key s k = (sint ob, s1)" "M k = Some ob" "0 \<le> sint ob" "sd_rel L M nost E s1" "tiers_ok M s1"
    "g_sb s1 = g_sb s" "g_ready s1" by (rule put_stays [OF rel(1,2) mv, folded ob_def]) (use rel(3) in simp)
  have ck: "card_ok c (length val)" using c val unfolding card_ok_def by blast
  have fits: "unat (sb_open_used (g_sb s1)) + (8 + length c) \<le> 512" "sb_open_count (g_sb s1) < 60"
    using mv by (simp_all add: put_moves_def s1(6) c(1) not_le)
  obtain s3 where "packed_append s1 k c (length val) = Some (Some ob, s3)"
    by (rule append_here [OF s1(4,5,7) ck c(3) fits, where k = k, unfolded s1(6), folded ob_def])
  then show ?thesis
    using s1(3) unfolding put_unfold [OF rel(3) val(2-4) s1(1), unfolded c(1), OF c(2)] put_commit_def by (simp add: Let_def)
qed

lemma put_first_value:
  assumes "sd_rel L Map.empty nost E s" "tiers_ok Map.empty s" "g_ready s" "2 \<le> length val" "kvsd_put s k val = Some (True, s')"
  shows "sd_inv s'" "kvsd_value s' k = Some val"
proof -
  have mv: "put_moves s k val" by (rule put_moves_first [OF assms(1,2)]) simp
  obtain L' E' nb where r: "g_ready s'" "tiers_ok (Map.empty(k \<mapsto> nb)) s'" "sd_rel L' (Map.empty(k \<mapsto> nb)) nost E' s'"
    "map_option val_of \<circ> card_of (Map.empty(k \<mapsto> nb)) E' = (map_option val_of \<circ> card_of Map.empty E)(k \<mapsto> val)"
    by (rule put_few_spec [OF assms(1-4) mv assms(5)]) (simp add: HT_ENTRIES_PER_BKT_def)
  note v = kvsd_value_inv [OF r(3,2,1)]
  show "sd_inv s'" by (rule v(1))
  show "kvsd_value s' k = Some val" using v(2) r(4) by simp
qed

theorem kvsd_put_same_block_witness:
  "\<exists>s s'. sd_inv s \<and> kvsd_put s 5 [0x7D, 0xCA, 7] = Some (True, s')
     \<and> kvsd_value s 5 = Some [0x7D, 0xCA, 9] \<and> kvsd_value s' 5 = Some [0x7D, 0xCA, 9]"
proof -
  define v1 v2 :: "byte list" where "v1 = [0x7D, 0xCA, 9]" and "v2 = [0x7D, 0xCA, 7]"
  have c1: "pc_compress_card v1 PACKED_DATA_MAX = [3, 0, 0, 0, 0x7D, 0xCA, 9]" unfolding v1_def by code_simp
  have c2: "pc_compress_card v2 PACKED_DATA_MAX = [3, 0, 0, 0, 0x7D, 0xCA, 7]" unfolding v2_def by code_simp
  have f: "sb_open_block (g_sb sd_small) = 0" "sb_open_used (g_sb sd_small) = 8" "sb_open_count (g_sb sd_small) = 0"
    by (simp_all add: sd_small_def)
  have g: "2 \<le> length v" "length v \<le> KVSD_MAX_PAYLOAD" "v ! 0 = KVSD_MAGIC_LO" "v ! 1 = KVSD_MAGIC_HI" if "v = v1 \<or> v = v2" for v
    using that by (auto simp: v1_def v2_def KVSD_MAGIC_LO_def KVSD_MAGIC_HI_def KVSD_MAX_PAYLOAD_def)
  have g1: "2 \<le> length v1" "length v1 \<le> KVSD_MAX_PAYLOAD" "v1 ! 0 = KVSD_MAGIC_LO" "v1 ! 1 = KVSD_MAGIC_HI" using g [of v1] by auto
  have g2: "2 \<le> length v2" "length v2 \<le> KVSD_MAX_PAYLOAD" "v2 ! 0 = KVSD_MAGIC_LO" "v2 ! 1 = KVSD_MAGIC_HI" using g [of v2] by auto
  obtain s where s: "kvsd_put sd_small 5 v1 = Some (True, s)" "sb_open_block (g_sb s) = 0" "sb_open_used (g_sb s) = 23" "sb_open_count (g_sb s) = 1"
    "fst (find_slot_for_key s 5) = 0"
    by (rule put_new_here [OF sd_small_rel _ g1 c1, of 5])
      (simp_all add: f)
  note v = put_first_value [OF sd_small_rel g1(1) s(1)]
  obtain L M E where rel: "g_ready s" "sd_rel L M nost E s" "tiers_ok M s" using v(1) by (auto simp: sd_inv_def)
  have mv: "\<not> put_moves s 5 v2" by (simp add: put_moves_def s(2-5) c2 word_le_nat_alt)
  obtain s' where s': "kvsd_put s 5 v2 = Some (True, s')"
    using put_again_here [OF rel(2,3,1) mv g2 c2] by auto
  have "kvsd_value s' 5 = kvsd_value s 5"
    using kvsd_put_same_block [OF v(1) g2(1) mv s'] by simp
  then show ?thesis using v s' unfolding v1_def v2_def by (intro exI [of _ s] exI [of _ s']) simp
qed

end
