(* ===== verification/SdDelete.thy ===== *)
theory SdDelete
  imports SdStale
begin

text \<open>
  \<open>kvsd_delete\<close> of \<open>src/kv_sd.c\<close> against the removal of a key from a map, under the two conditions that it needs: the flash
  index is not in use, and the key is not the only one of the open block.
\<close>

definition delete_safe :: "sd_state \<Rightarrow> u32 \<Rightarrow> bool" where
  "delete_safe s k \<longleftrightarrow> g_fidx_count s = 0 \<and> (fst (find_slot_for_key s k) = sint (sb_open_block (g_sb s))
     \<longrightarrow> 2 \<le> blk_count (data_view s (sb_open_block (g_sb s))))"

text \<open>Forgetting a key turns its card into a stale one.\<close>

lemma cards_ok_forget:
  assumes ok: "cards_ok L M nost E n V B"
  shows "cards_ok L (M(k := None)) (stale M k) E n V B"
  unfolding cards_ok_def
proof (intro conjI ballI allI impI)
  fix b
  assume b: "b \<in> L"
  note d = cards_okD [OF ok b]
  show "b < n" "B b" "block_holds (V b) (E b)" "distinct (map fst (E b))" by (fact d)+
  show "case x of (k', c, r) \<Rightarrow> card_ok c r \<and> ((M(k := None)) k' = Some b \<or> stale M k b k')" if x: "x \<in> set (E b)" for x
  proof -
    obtain k' c r where x': "x = (k', c, r)" by (cases x)
    have "card_ok c r" "M k' = Some b" using d(5,6) x unfolding x' by auto
    then show ?thesis unfolding x' by (cases "k' = k") (simp_all add: stale_def)
  qed
next
  fix k' b
  assume "(M(k := None)) k' = Some b"
  then have "M k' = Some b" by (auto split: if_splits)
  from cards_okM [OF ok this] show "b \<in> L" "k' \<in> card_keys (E b)" by auto
qed

lemma sd_rel_forget: "sd_rel L M nost E s \<Longrightarrow> sd_rel L (M(k := None)) (stale M k) E s"
  using cards_ok_forget [of L M E "mx s" "data_view s" "bit_of s" k] by (auto simp: sd_rel_def)

lemma card_of_forget: "card_of (M(k := None)) E = (card_of M E)(k := None)"
  by (auto simp: card_of_def fun_eq_iff)

lemma delete_found:
  assumes rel: "sd_rel L M nost E s" "tiers_ok M s" "g_ready s" and b: "M k = Some b"
    and safe: "g_fidx_count s = 0" "b \<noteq> sb_open_block (g_sb s) \<or> 2 \<le> length (E b)"
  obtains s1 s2 L' E' where "find_slot_for_key s k = (sint b, s1)" "packed_remove_card s1 b k = Some (True, s2)" "0 \<le> sint b"
    "g_ready s2" "ht_map s2 = M" "index_ok (g_sram s2)" "map_of (g_sram s2) \<subseteq>\<^sub>m M" "g_fidx_count s2 = 0"
    "sd_rel L' (M(k := None)) nost E' s2" "card_of (M(k := None)) E' = (card_of M E)(k := None)"
proof -
  obtain s1 where s1: "find_slot_for_key s k = (key_slot M k, s1)" "sd_rel L M nost E s1" "tiers_ok M s1"
    "g_sb s1 = g_sb s" "g_ready s1 = g_ready s" "g_fidx_count s1 = g_fidx_count s" by (rule find_slot_spec [OF rel(1,2), of k]) blast
  have bk: "b \<in> L" "k \<in> card_keys (E b)" using cards_okM [OF sd_rel_ready(6) [OF rel(1)] b] by auto
  have ob: "b \<noteq> sb_open_block (g_sb s1) \<or> 2 \<le> length (E b)" using safe(2) s1(4) by simp
  obtain s2 L' E' where s2: "packed_remove_card s1 b k = Some (True, s2)" "same_rest s1 s2"
    "sd_rel L' (M(k := None)) (unstale (stale M k) b k) E' s2" "card_of (M(k := None)) E' = card_of (M(k := None)) E"
    using packed_remove_spec [OF sd_rel_forget [OF s1(2), of k] bk _ ob] by auto
  have "unstale (stale M k) b k = nost" using b by (auto simp: unstale_def stale_def fun_eq_iff)
  moreover have "g_ready s2" "ht_map s2 = M" "index_ok (g_sram s2)" "map_of (g_sram s2) \<subseteq>\<^sub>m M" "g_fidx_count s2 = 0"
    using s2(2) s1(3,5,6) rel(3) safe(1) by (simp_all add: same_rest_def tiers_ok_def)
  ultimately show thesis
    using that [of s1 s2 L' E'] s1(1) s2 rel_slot [OF rel(1) b] by (simp add: key_slot_def b card_of_forget)
qed

text \<open>What is left after the card is gone: the table, the index and the counters.\<close>

lemma delete_tiers:
  assumes rel: "sd_rel L (M(k := None)) nost E s" "g_ready s" and m: "ht_map s = M" and ix: "index_ok (g_sram s)" "map_of (g_sram s) \<subseteq>\<^sub>m M"
    and fx: "g_fidx_count s = 0"
  defines "s1 \<equiv> snd (ht_remove s k)"
  defines "s2 \<equiv> s1\<lparr>g_sram := snd (index_remove (g_sram s1) k)\<rparr>"
  shows "sd_rel L (M(k := None)) nost E s2 \<and> tiers_ok (M(k := None)) s2 \<and> g_ready s2"
    "sd_rel L (M(k := None)) nost E (s2\<lparr>g_sb := (g_sb s2)\<lparr>sb_total_cards := n, sb_dirty := 1\<rparr>\<rparr>)
      \<and> tiers_ok (M(k := None)) (s2\<lparr>g_sb := (g_sb s2)\<lparr>sb_total_cards := n, sb_dirty := 1\<rparr>\<rparr>)
      \<and> g_ready (s2\<lparr>g_sb := (g_sb s2)\<lparr>sb_total_cards := n, sb_dirty := 1\<rparr>\<rparr>)"
proof -
  have ht: "ht_inv s" using rel(1) by (simp add: sd_rel_def)
  have r: "ht_frame s s1" "ht_inv s1" "ht_map s1 = M(k := None)"
    unfolding s1_def using m by (auto intro: ht_remove_spec [OF ht, of k])
  note f = ht_frame_simps [OF r(1)]
  have rel1: "sd_rel L (M(k := None)) nost E s1" by (rule sd_rel_ht_frame [OF rel(1) r(1,2)])
  have ss: "same_store s1 s2" by (simp add: s2_def same_store_def)
  have rel2: "sd_rel L (M(k := None)) nost E s2" by (rule sd_rel_same_store [OF rel1 ss])
  have "map_of (g_sram s2) \<subseteq>\<^sub>m M(k := None)"
    using ix(2) sram.del_lookup [OF ix(1), of k] by (auto simp: s2_def f map_le_def)
  then have t2: "tiers_ok (M(k := None)) s2"
    using same_store_ht(2) [OF ss r(2)] r(3) sram.del_inv [OF ix(1), of k] fx by (simp add: tiers_ok_def s2_def f fidx_none)
  show "sd_rel L (M(k := None)) nost E s2 \<and> tiers_ok (M(k := None)) s2 \<and> g_ready s2"
    using rel2 t2 rel(2) by (simp add: s2_def f)
  define s3 where "s3 = s2\<lparr>g_sb := (g_sb s2)\<lparr>sb_total_cards := n, sb_dirty := 1\<rparr>\<rparr>"
  have ss3: "same_store s2 s3" by (simp add: s3_def same_store_def same_layout_def)
  have "same_rest s2 s3"
    using same_store_ht(2) [OF ss3] rel2 by (simp add: same_rest_def sd_rel_def) (simp add: s3_def same_layout_def)
  then have "tiers_ok (M(k := None)) s3" by (rule tiers_same_rest [OF _ t2])
  moreover have "g_ready s3" using rel(2) by (simp add: s3_def s2_def f)
  ultimately show "sd_rel L (M(k := None)) nost E (s2\<lparr>g_sb := (g_sb s2)\<lparr>sb_total_cards := n, sb_dirty := 1\<rparr>\<rparr>)
      \<and> tiers_ok (M(k := None)) (s2\<lparr>g_sb := (g_sb s2)\<lparr>sb_total_cards := n, sb_dirty := 1\<rparr>\<rparr>)
      \<and> g_ready (s2\<lparr>g_sb := (g_sb s2)\<lparr>sb_total_cards := n, sb_dirty := 1\<rparr>\<rparr>)"
    unfolding s3_def [symmetric] using sd_rel_same_store [OF rel2 ss3] by simp
qed

text \<open>
  C24: a delete refines the removal of a key. From a well-formed store \<open>kvsd_delete\<close> returns whether the key had a value and leaves
  a well-formed store with the values before, less that of the key, provided that the flash index is empty and the
  key is not alone in the open block.
\<close>

theorem kvsd_delete_refines:
  assumes "sd_inv s" and "delete_safe s k"
  shows "\<exists>s'. kvsd_delete s k = Some (kvsd_value s k \<noteq> None, s') \<and> sd_inv s' \<and> kvsd_value s' = (kvsd_value s)(k := None)"
proof -
  obtain L M E where rel: "g_ready s" "sd_rel L M nost E s" "tiers_ok M s" using assms(1) by (auto simp: sd_inv_def)
  note v = kvsd_value_inv [OF rel(2,3,1)]
  show ?thesis
  proof (cases "M k")
    case None
    obtain s1 where s1: "find_slot_for_key s k = (key_slot M k, s1)" "sd_rel L M nost E s1" "tiers_ok M s1" "g_ready s1"
      by (rule find_slot_spec [OF rel(2,3), of k]) (use rel(1) in blast)
    have "kvsd_value s k = None" by (simp add: v(2) card_of_def None)
    moreover have "kvsd_delete s k = Some (False, s1)" using rel(1) s1(1) by (simp add: kvsd_delete_def key_slot_def None)
    ultimately show ?thesis using kvsd_value_inv [OF s1(2-4)] v(2) by (auto simp: fun_upd_idem)
  next
    case (Some b)
    note r = sd_rel_ready [OF rel(2)]
    have "blk_count (data_view s b) = length (E b)"
      using cards_okD(3) [OF r(6)] cards_okM [OF r(6) Some] by (auto simp: block_holds_def)
    moreover have "fst (find_slot_for_key s k) = sint b"
      by (rule find_slot_spec [OF rel(2,3), of k]) (simp add: key_slot_def Some)
    ultimately have safe: "g_fidx_count s = 0" "b \<noteq> sb_open_block (g_sb s) \<or> 2 \<le> length (E b)"
      using assms(2) by (auto simp: delete_safe_def)
    obtain s1 s2 L' E' where d: "find_slot_for_key s k = (sint b, s1)" "packed_remove_card s1 b k = Some (True, s2)" "0 \<le> sint b"
      "g_ready s2" "ht_map s2 = M" "index_ok (g_sram s2)" "map_of (g_sram s2) \<subseteq>\<^sub>m M" "g_fidx_count s2 = 0"
      "sd_rel L' (M(k := None)) nost E' s2" "card_of (M(k := None)) E' = (card_of M E)(k := None)"
      by (rule delete_found [OF rel(2,3,1) Some safe])
    note t = delete_tiers [OF d(9,4-8)]
    obtain found ix where i: "index_remove (g_sram (snd (ht_remove s2 k))) k = (found, ix)"
      by (cases "index_remove (g_sram (snd (ht_remove s2 k))) k")
    obtain s' where s': "kvsd_delete s k = Some (True, s')" "sd_rel L' (M(k := None)) nost E' s'" "tiers_ok (M(k := None)) s'" "g_ready s'"
      using t rel(1) d(1-3) i unfolding kvsd_delete_def by (cases found) (auto simp: Let_def)
    have "card_of M E k \<noteq> None" using cards_okM [OF r(6) Some] by (auto simp: card_of_def Some map_of_eq_None_iff)
    then have "kvsd_value s k \<noteq> None" by (simp add: v(2))
    moreover have "kvsd_value s' = (kvsd_value s)(k := None)"
      using kvsd_value_inv(2) [OF s'(2-4)] by (simp add: v(2) d(10) fun_eq_iff)
    ultimately show ?thesis using s'(1) kvsd_value_inv(1) [OF s'(2-4)] by auto
  qed
qed

text \<open>Two keys in the open block of a new store.\<close>

lemma small_block:
  assumes "kvsd_put sd_small 5 v1 = Some (True, s)" "2 \<le> length v1" "blk_count (data_view s 0) = 1"
  obtains L E nb where "g_ready s" "tiers_ok [5 \<mapsto> nb] s" "sd_rel L [5 \<mapsto> nb] nost E s" "0 \<in> L \<longrightarrow> length (E 0) = 1"
    "kvsd_value s = [5 \<mapsto> v1]"
proof -
  have mv: "put_moves sd_small 5 v1" by (rule put_moves_first [OF sd_small_rel(1,2)]) simp
  obtain L E nb where r: "g_ready s" "tiers_ok [5 \<mapsto> nb] s" "sd_rel L [5 \<mapsto> nb] nost E s"
    "map_option val_of \<circ> card_of [5 \<mapsto> nb] E = (map_option val_of \<circ> card_of Map.empty (\<lambda>b. []))(5 \<mapsto> v1)"
    by (rule put_few_spec [OF sd_small_rel assms(2) mv assms(1)]) (simp add: HT_ENTRIES_PER_BKT_def)
  have "0 \<in> L \<longrightarrow> length (E 0) = 1"
    using cards_okD(3) [OF sd_rel_ready(6) [OF r(3)], of 0] assms(3) by (auto simp: block_holds_def)
  moreover have "map_option val_of \<circ> card_of Map.empty (\<lambda>b. []) = Map.empty" by (simp add: card_of_def fun_eq_iff)
  then have "kvsd_value s = [5 \<mapsto> v1]" using kvsd_value_inv(2) [OF r(3,2,1)] r(4) by simp
  ultimately show thesis using that r by blast
qed

theorem kvsd_delete_refines_witness:
  "\<exists>s s'. sd_inv s \<and> kvsd_value s = [5 \<mapsto> [0x7D, 0xCA, 9], 6 \<mapsto> [0x7D, 0xCA, 7]]
     \<and> kvsd_delete s 5 = Some (True, s') \<and> kvsd_value s' = [6 \<mapsto> [0x7D, 0xCA, 7]]"
proof -
  define v1 v2 :: "byte list" where "v1 = [0x7D, 0xCA, 9]" and "v2 = [0x7D, 0xCA, 7]"
  have c1: "pc_compress_card v1 PACKED_DATA_MAX = [3, 0, 0, 0, 0x7D, 0xCA, 9]" unfolding v1_def by code_simp
  have c2: "pc_compress_card v2 PACKED_DATA_MAX = [3, 0, 0, 0, 0x7D, 0xCA, 7]" unfolding v2_def by code_simp
  have g1: "2 \<le> length v1" "length v1 \<le> KVSD_MAX_PAYLOAD" "v1 ! 0 = KVSD_MAGIC_LO" "v1 ! 1 = KVSD_MAGIC_HI"
    by (simp_all add: v1_def KVSD_MAGIC_LO_def KVSD_MAGIC_HI_def KVSD_MAX_PAYLOAD_def)
  have g2: "2 \<le> length v2" "length v2 \<le> KVSD_MAX_PAYLOAD" "v2 ! 0 = KVSD_MAGIC_LO" "v2 ! 1 = KVSD_MAGIC_HI"
    by (simp_all add: v2_def KVSD_MAGIC_LO_def KVSD_MAGIC_HI_def KVSD_MAX_PAYLOAD_def)
  have f: "sb_open_block (g_sb sd_small) = 0" "sb_open_used (g_sb sd_small) = 8" "sb_open_count (g_sb sd_small) = 0"
    by (simp_all add: sd_small_def)
  obtain s where s: "kvsd_put sd_small 5 v1 = Some (True, s)" "sb_open_block (g_sb s) = 0" "sb_open_used (g_sb s) = 23" "sb_open_count (g_sb s) = 1"
    "blk_count (data_view s 0) = 1"
    by (rule put_new_here [OF sd_small_rel _ g1 c1, of 5]) (simp_all add: f)
  obtain L E nb where r: "g_ready s" "tiers_ok [5 \<mapsto> nb] s" "sd_rel L [5 \<mapsto> nb] nost E s" "0 \<in> L \<longrightarrow> length (E 0) = 1"
    "kvsd_value s = [5 \<mapsto> v1]" by (rule small_block [OF s(1) g1(1) s(5)])
  have "0 \<in> L" using sd_rel_ready(7) [OF r(3)] by (simp add: open_ok_def Let_def s(2))
  then have e1: "length (E 0) = 1" using r(4) by simp
  obtain t where t: "kvsd_put s 6 v2 = Some (True, t)" "sb_open_block (g_sb t) = 0" "g_fidx_count t = 0" "blk_count (data_view t 0) = 2"
    by (rule put_new_here [OF r(3,2,1) _ g2 c2, of 6]) (simp_all add: s(2-4) e1)
  have mv: "put_moves s 6 v2" by (rule put_moves_first [OF r(3,2)]) simp
  obtain L' E' nb' where q: "g_ready t" "tiers_ok [5 \<mapsto> nb, 6 \<mapsto> nb'] t" "sd_rel L' [5 \<mapsto> nb, 6 \<mapsto> nb'] nost E' t"
    "map_option val_of \<circ> card_of [5 \<mapsto> nb, 6 \<mapsto> nb'] E' = (map_option val_of \<circ> card_of [5 \<mapsto> nb] E)(6 \<mapsto> v2)"
    by (rule put_few_spec [OF r(3,2,1) g2(1) mv t(1)]) (simp add: HT_ENTRIES_PER_BKT_def)
  note v = kvsd_value_inv [OF q(3,2,1)]
  have val: "kvsd_value t = [5 \<mapsto> v1, 6 \<mapsto> v2]" using v(2) q(4) kvsd_value_inv(2) [OF r(3,2,1)] r(5) by simp
  have "delete_safe t 5" by (simp add: delete_safe_def t(2-4))
  from kvsd_delete_refines [OF v(1) this] obtain t' where "kvsd_delete t 5 = Some (True, t')" "kvsd_value t' = (kvsd_value t)(5 := None)"
    unfolding val by auto
  moreover have "(kvsd_value t)(5 := None) = [6 \<mapsto> v2]" unfolding val by (auto simp: fun_eq_iff)
  ultimately show ?thesis using v(1) val unfolding v1_def v2_def by metis
qed

end
