(* ===== verification/SdStart.thy ===== *)
theory SdStart
  imports SdDelete
begin

text \<open>
  Starting \<open>src/kv_sd.c\<close> on a card without a superblock: the layout that \<open>format_sd\<close> computes, when the formatted
  store is well formed and empty, and what the unwritten first data block does to the first write.
\<close>

subsection \<open>The layout of a formatted card\<close>

text \<open>The computation of \<open>format_sd\<close> in natural numbers: the blocks available, those of the index, of the bitmap and of the table.\<close>

definition avail :: "nat \<Rightarrow> nat" where "avail n = n - 1457"
definition index_n :: "nat \<Rightarrow> nat" where "index_n n = avail n * 15 div 100"
definition data_n :: "nat \<Rightarrow> nat" where "data_n n = avail n - index_n n"
definition bitmap_n :: "nat \<Rightarrow> nat" where "bitmap_n n = (data_n n + 4095) div 4096"
definition table_n :: "nat \<Rightarrow> nat" where "table_n n = min ((data_n n * 4 + 31) div 32) (index_n n - bitmap_n n)"

text \<open>Cards from 800 kB to 128 GB: large enough for every region, and no product of the computation overflows.\<close>

definition good_size :: "u32 \<Rightarrow> bool" where
  "good_size bc \<longleftrightarrow> 1600 \<le> unat bc \<and> unat bc < 268435456"

lemma region_bounds:
  assumes "good_size bc"
  defines "n \<equiv> unat bc"
  shows "avail n \<le> 268433998" "143 \<le> avail n" "index_n n \<le> avail n" "0 < data_n n" "index_n n + data_n n = avail n"
    "bitmap_n n < index_n n" "0 < table_n n" "bitmap_n n + table_n n \<le> index_n n" "data_n n \<le> 4096 * bitmap_n n"
proof -
  have n: "1600 \<le> n" "n < 268435456" using assms(1) by (auto simp: good_size_def n_def)
  define a where "a = avail n"
  have a: "143 \<le> a" "a \<le> 268433998" using n by (auto simp: a_def avail_def)
  define i where "i = index_n n"
  have i: "i = a * 15 div 100" by (simp add: i_def index_n_def a_def)
  have i2: "100 * i \<le> 15 * a" "15 * a < 100 * i + 100" unfolding i by simp_all
  define d where "d = data_n n"
  have d: "d = a - i" by (simp add: d_def data_n_def a_def i_def)
  define b where "b = bitmap_n n"
  have b: "4096 * b \<le> d + 4095" "d \<le> 4096 * b" unfolding b_def bitmap_n_def d_def by simp_all
  have t: "table_n n = min ((d * 4 + 31) div 32) (i - b)" by (simp add: table_n_def d_def i_def b_def)
  have id: "i \<le> a" "0 < d" "i + d = a" using i2 a(1) d by auto
  have bi: "b < i"
  proof (cases "d \<le> 4096")
    case True
    then have "b \<le> 1" using b(1) by simp
    moreover have "1 < i" using i2 a(1) by simp
    ultimately show ?thesis by simp
  next
    case False
    then show ?thesis using i2 b id by simp
  qed
  have "0 < (d * 4 + 31) div 32" using id by simp
  then have "0 < table_n n" "b + table_n n \<le> i" using bi by (auto simp: t)
  then show "avail n \<le> 268433998" "143 \<le> avail n" "index_n n \<le> avail n" "0 < data_n n" "index_n n + data_n n = avail n"
    "bitmap_n n < index_n n" "0 < table_n n" "bitmap_n n + table_n n \<le> index_n n" "data_n n \<le> 4096 * bitmap_n n"
    using a id bi b(2) by (auto simp: a_def i_def d_def b_def)
qed

definition formatted_sb :: "u32 \<Rightarrow> kvsd_superblock_t" where
  "formatted_sb bc = (let n = unat bc in
     \<lparr>sb_magic = SD_MAGIC, sb_version = KVSD_SB_VERSION, sb_total_cards = 0, sb_index_start = 1201,
      sb_index_blocks = word_of_nat (index_n n), sb_bitmap_start = 1201, sb_bitmap_blocks = word_of_nat (bitmap_n n),
      sb_hashtab_start = word_of_nat (1201 + bitmap_n n), sb_hashtab_blocks = word_of_nat (table_n n), sb_reserved_start = 0,
      sb_reserved_blocks = 0, sb_data_start = word_of_nat (1201 + index_n n), sb_data_blocks = word_of_nat (data_n n),
      sb_max_cards = word_of_nat (data_n n), sb_next_free_hint = 0, sb_dirty = 0, sb_open_block = 0, sb_open_used = 8,
      sb_open_count = 0, sb_pad2 = 0, sb_ota_start = 1, sb_ota_blocks = KVSD_OTA_BLOCKS\<rparr>)"

lemma word_div: "n < 2 ^ 32 \<Longrightarrow> m < 2 ^ 32 \<Longrightarrow> (word_of_nat n :: u32) div word_of_nat m = word_of_nat (n div m)"
  by (simp add: word_unat_eq_iff unat_div unat_of_nat) (metis div_le_dividend le_less_trans mod_less)

lemma format_sd_sb:
  assumes "good_size bc"
  shows "format_sd s bc = snd (sb_write (snd (bitmap_set (s\<lparr>g_sb := formatted_sb bc\<rparr>) 0 True)))"
proof -
  define n where "n = unat bc"
  note r = region_bounds [OF assms, folded n_def]
  have n: "1600 \<le> n" "n < 268435456" using assms by (auto simp: good_size_def n_def)
  have bc: "bc = word_of_nat n" by (simp add: n_def)
  have av: "bc - SDRING_GUARD_BLOCKS - (1 + KVSD_OTA_BLOCKS) = word_of_nat (avail n)"
    using n by (simp add: avail_def of_nat_diff SDRING_GUARD_BLOCKS_def KVSD_OTA_BLOCKS_def bc)
  have ix: "word_of_nat (avail n) * 15 div 100 = (word_of_nat (index_n n) :: u32)"
    using word_div [of "avail n * 15" 100] r(1) by (simp add: index_n_def)
  have dt: "word_of_nat (avail n) - word_of_nat (index_n n) = (word_of_nat (data_n n) :: u32)"
    using r(3) by (simp add: data_n_def of_nat_diff)
  have bm: "(word_of_nat (data_n n) + 4095) div 4096 = (word_of_nat (bitmap_n n) :: u32)"
    using word_div [of "data_n n + 4095" 4096] r(1,5) by (simp add: bitmap_n_def)
  have et: "(word_of_nat (data_n n) * 4 + 31) div 32 = (word_of_nat ((data_n n * 4 + 31) div 32) :: u32)"
    using word_div [of "data_n n * 4 + 31" 32] r(1,5) by simp
  have hm: "word_of_nat (index_n n) - word_of_nat (bitmap_n n) = (word_of_nat (index_n n - bitmap_n n) :: u32)"
    using r(6) by (simp add: of_nat_diff)
  have "(word_of_nat (index_n n - bitmap_n n) :: u32) < word_of_nat ((data_n n * 4 + 31) div 32) \<longleftrightarrow> index_n n - bitmap_n n < (data_n n * 4 + 31) div 32"
    using r(1,3,5) by (simp add: word_less_nat_alt unat_of_nat)
  then have tb: "(if (word_of_nat (index_n n - bitmap_n n) :: u32) < word_of_nat ((data_n n * 4 + 31) div 32)
      then word_of_nat (index_n n - bitmap_n n) else word_of_nat ((data_n n * 4 + 31) div 32)) = (word_of_nat (table_n n) :: u32)"
    by (auto simp: table_n_def min_def)
  have st: "1 + KVSD_OTA_BLOCKS = (1201 :: u32)" by (simp add: KVSD_OTA_BLOCKS_def)
  show ?thesis
    unfolding format_sd_def Let_def unfolding av unfolding ix unfolding dt unfolding bm et hm unfolding tb st
    by (simp add: formatted_sb_def Let_def n_def [symmetric] PACKED_BLK_HDR_def)
qed

subsection \<open>Starting on a card without a superblock\<close>

text \<open>
  No superblock, no flash index, cold caches, and zeroes where the bitmap and the table will be, which \<open>format_sd\<close>
  does not write. \<open>b0\<close> is the content of the first data block, which it does not write either.
\<close>

definition fresh_card :: "u32 \<Rightarrow> byte list \<Rightarrow> sd_state \<Rightarrow> bool" where
  "fresh_card bc b0 s \<longleftrightarrow> good_size bc \<and> map_option fst (sd_info s) = Some bc \<and> (\<forall>n. sd_ok s n) \<and> (\<forall>b. length (sd_blocks s b) = 512)
     \<and> take 8 (sd_blocks s 0) \<noteq> SD_MAGIC \<and> ld32 (sd_flash s) FIDX_FLASH_OFFSET \<noteq> FIDX_MAGIC
     \<and> g_data_cache s = cold_cache DATA_CACHE_SLOTS \<and> g_ht_cache s = cold_cache HT_CACHE_SLOTS
     \<and> (\<forall>b. 1201 \<le> unat b \<and> unat b < 1201 + index_n (unat bc) \<longrightarrow> sd_blocks s b = replicate 512 0)
     \<and> sd_blocks s (word_of_nat (1201 + index_n (unat bc))) = b0"

text \<open>The addresses of a formatted card as numbers.\<close>

lemma unat_small: "m < 4294967296 \<Longrightarrow> unat (word_of_nat m :: u32) = m"
  by (simp add: unat_of_nat)

lemma formatted_addr:
  assumes "good_size bc" "g_sb s = formatted_sb bc"
  defines "n \<equiv> unat bc"
  shows "unat (mx s) = data_n n" "unat (ht_blocks s) = table_n n"
    "b < mx s \<Longrightarrow> unat (blk_addr s b) = 1201 + index_n n + unat b"
    "i < ht_blocks s \<Longrightarrow> unat (bucket_addr s i) = 1201 + bitmap_n n + unat i"
    "a < mx s \<Longrightarrow> unat (bitmap_block s a) = 1201 + unat a div 4096 \<and> unat a div 4096 < bitmap_n n"
proof -
  note r = region_bounds [OF assms(1), folded n_def]
  have f: "mx s = word_of_nat (data_n n)" "ht_blocks s = word_of_nat (table_n n)"
    by (simp_all add: assms(2) formatted_sb_def Let_def n_def)
  show m: "unat (mx s) = data_n n" "unat (ht_blocks s) = table_n n" unfolding f using r by (simp_all add: unat_of_nat)
  show "unat (blk_addr s b) = 1201 + index_n n + unat b" if "b < mx s"
  proof -
    have "blk_addr s b = word_of_nat (1201 + index_n n + unat b)"
      by (simp add: blk_addr_def assms(2) formatted_sb_def Let_def n_def)
    moreover have "unat b < data_n n" using that m(1) by (simp add: word_less_nat_alt)
    then have "1201 + index_n n + unat b < 4294967296" using r by linarith
    ultimately show ?thesis by (simp only: unat_small)
  qed
  show "unat (bucket_addr s i) = 1201 + bitmap_n n + unat i" if "i < ht_blocks s"
  proof -
    have "bucket_addr s i = word_of_nat (1201 + bitmap_n n + unat i)"
      by (simp add: bucket_addr_def assms(2) formatted_sb_def Let_def n_def)
    moreover have "unat i < table_n n" using that m(2) by (simp add: word_less_nat_alt)
    then have "1201 + bitmap_n n + unat i < 4294967296" using r by linarith
    ultimately show ?thesis by (simp only: unat_small)
  qed
  show "unat (bitmap_block s a) = 1201 + unat a div 4096 \<and> unat a div 4096 < bitmap_n n" if "a < mx s"
  proof -
    have d: "unat a div 4096 < bitmap_n n" using that r(9) m(1) by (simp add: word_less_nat_alt)
    have "bitmap_block s a = word_of_nat (1201 + unat a div 4096)"
      by (simp add: bitmap_block_def assms(2) formatted_sb_def Let_def word_unat_eq_iff unat_div) (simp add: unat_of_nat unat_word_ariths unat_div)
    moreover have "1201 + unat a div 4096 < 4294967296" using d r by linarith
    ultimately show ?thesis using d by (simp only: unat_small)
  qed
qed

lemma formatted_layout:
  fixes s :: sd_state
  assumes "good_size bc" "g_sb s = formatted_sb bc"
  shows "sd_layout (g_sb s)"
proof -
  define n where "n = unat bc"
  note r = region_bounds [OF assms(1), folded n_def]
  note a = formatted_addr [OF assms, folded n_def]
  have ne: "x \<noteq> y" if "unat x \<noteq> unat y" for x y :: u32 using that by auto
  have ff: "x \<noteq> 0xFFFFFFFF" if "unat x < 4294967295" for x :: u32 using that by auto
  have "blk_addr s b \<noteq> bucket_addr s i" if "b < mx s" "i < ht_blocks s" for b i
    using a(3) [OF that(1)] a(4) [OF that(2)] a(2) that(2) r(8) by (intro ne) (simp add: word_less_nat_alt)
  moreover have "blk_addr s b \<noteq> bitmap_block s c" if "b < mx s" "c < mx s" for b c
    using a(3) [OF that(1)] a(5) [OF that(2)] r(6) by (intro ne) simp
  moreover have "bucket_addr s i \<noteq> bitmap_block s c" if "i < ht_blocks s" "c < mx s" for i c
    using a(4) [OF that(1)] a(5) [OF that(2)] by (intro ne) simp
  moreover have "bitmap_block s c \<noteq> 0xFFFFFFFF" if "c < mx s" for c
    using a(5) [OF that] r by (intro ff) simp
  moreover have "0 < mx s" "unat (mx s) < 2147483648" using a(1) r by (auto simp: word_less_nat_alt)
  ultimately show ?thesis unfolding sd_layout_def blk_addr_def bucket_addr_def bitmap_block_def by blast
qed

lemma init_fresh:
  assumes fr: "fresh_card bc b0 s"
  obtains buf sbb n where
    "kvsd_init multi s = s\<lparr>g_sram := [], g_ready := True, g_open_cached := False, g_fidx_count := 0, g_fidx_sequence := 0,
       g_sb := formatted_sb bc, sd_ops := n, sd_blocks := (sd_blocks s)(1201 := buf, 0 := sbb)\<rparr>"
    "length buf = 512" "length sbb = 512" "\<And>a. a < mx (kvsd_init multi s) \<Longrightarrow> bit_of (kvsd_init multi s) a \<longleftrightarrow> a = 0"
proof -
  define s0 where "s0 = s\<lparr>g_sram := [], g_ready := False, g_open_cached := False, g_fidx_count := 0, g_fidx_sequence := 0\<rparr>"
  obtain mb where info: "sd_info s = Some (bc, mb)" using fr by (auto simp: fresh_card_def)
  have f: "good_size bc" "\<forall>n. sd_ok s n" "\<forall>b. length (sd_blocks s b) = 512" "take 8 (sd_blocks s 0) \<noteq> SD_MAGIC"
    "ld32 (sd_flash s) FIDX_FLASH_OFFSET \<noteq> FIDX_MAGIC"
    "\<And>b. 1201 \<le> unat b \<Longrightarrow> unat b < 1201 + index_n (unat bc) \<Longrightarrow> sd_blocks s b = replicate 512 0" using fr by (auto simp: fresh_card_def)
  have fx: "fidx_count_entries s0 = s0" using f(5) by (simp add: fidx_count_entries_def Let_def s0_def)
  define s1 where "s1 = s0\<lparr>sd_ops := sd_ops s + 1\<rparr>"
  have rd: "sb_read s0 = (False, s1)"
    using sd_read_ok [of s0 0] f(2,4) by (simp add: sb_read_def s1_def s0_def)
  define t where "t = s1\<lparr>g_sb := formatted_sb bc\<rparr>"
  have tb: "sd_blocks t = sd_blocks s" "\<forall>n. sd_ok t n" "\<forall>b. length (sd_blocks t b) = 512" "bitmap_block t 0 = 1201"
    using f(2,3) by (simp_all add: t_def s1_def s0_def bitmap_block_def formatted_sb_def Let_def)
  obtain buf m where b: "bitmap_set t 0 True = (True, t\<lparr>sd_ops := m, sd_blocks := (sd_blocks t)(1201 := buf)\<rparr>)" "length buf = 512"
    "\<And>m a. bit_of (t\<lparr>sd_ops := m, sd_blocks := (sd_blocks t)(1201 := buf)\<rparr>) a = (if a = 0 then True else bit_of t a)"
    by (rule bitmap_set_spec [OF tb(2,3), of 0 True, unfolded tb(4)]) blast
  define u where "u = t\<lparr>sd_ops := m, sd_blocks := (sd_blocks t)(1201 := buf)\<rparr>"
  define sbb where "sbb = sb_bytes (formatted_sb bc) @ replicate (512 - length (sb_bytes (formatted_sb bc))) 0"
  have "length (sb_bytes (formatted_sb bc)) = 84" by (simp add: sb_bytes_def formatted_sb_def Let_def SD_MAGIC_def bytes16_def)
  then have lb: "length sbb = 512" by (simp add: sbb_def)
  define s' where "s' = (snd (sb_write u))\<lparr>g_ready := True\<rparr>"
  have w: "snd (sb_write u) = u\<lparr>sd_ops := m + 1, sd_blocks := (sd_blocks u)(0 := sbb)\<rparr>"
    using sd_write_ok [of u 0 sbb] tb(2) by (simp add: sb_write_def u_def t_def sbb_def)
  have init: "kvsd_init multi s = s'"
    using format_sd_sb [OF f(1), of s1] rd fx unfolding kvsd_init_def Let_def s0_def [symmetric] info
    by (simp add: s'_def u_def t_def [symmetric] b(1))
  have e: "s' = s\<lparr>g_sram := [], g_ready := True, g_open_cached := False, g_fidx_count := 0, g_fidx_sequence := 0,
       g_sb := formatted_sb bc, sd_ops := m + 1, sd_blocks := (sd_blocks s)(1201 := buf, 0 := sbb)\<rparr>"
    unfolding s'_def w by (simp add: u_def t_def s1_def s0_def)
  have "bit_of s' a \<longleftrightarrow> a = 0" if "a < mx s'" for a
  proof -
    have sb: "g_sb s' = formatted_sb bc" "g_sb t = formatted_sb bc" by (simp_all add: e t_def)
    have "a < mx t" using that by (simp add: sb)
    note ad = formatted_addr(5) [OF f(1) sb(2) this]
    have z: "sd_blocks t (bitmap_block t a) = replicate 512 0"
      using ad region_bounds(6) [OF f(1)] unfolding tb(1) by (intro f(6)) auto
    have "bitmap_block t a \<noteq> 0" using ad by auto
    moreover have "bitmap_block s' a = bitmap_block t a" "bitmap_block u a = bitmap_block t a" by (simp_all add: bitmap_block_def sb u_def)
    ultimately have "bit_of s' a = bit_of u a" by (simp add: bit_of_def s'_def w)
    also have "\<dots> = (a = 0 \<or> bit_of t a)" unfolding u_def by (simp add: b(3))
    finally have "bit_of s' a = (a = 0 \<or> bit_of t a)" .
    moreover have "\<not> bit_of t a" using byte_off_eq(2) [of a] by (simp add: bit_of_def z)
    ultimately show ?thesis by simp
  qed
  then show thesis using that [of buf sbb "m + 1"] b(2) lb e unfolding init by blast
qed

text \<open>The state after the start, whatever the first data block holds.\<close>

lemma fresh_state:
  fixes multi :: "byte list"
  assumes fr: "fresh_card bc b0 s"
  defines "s' \<equiv> kvsd_init multi s"
  shows "sd_layout (g_sb s')" "ht_inv s'" "ht_map s' = Map.empty" "g_sb s' = formatted_sb bc" "g_ready s'" "\<not> g_open_cached s'"
    "g_sram s' = []" "g_fidx_count s' = 0" "g_data_cache s' = cold_cache DATA_CACHE_SLOTS" "bit_of s' 0" "\<forall>n. sd_ok s' n"
    "data_view s' 0 = (if 512 < blk_used b0 \<or> 60 < blk_count b0 then empty_blk else b0)"
proof -
  obtain buf sbb n where e: "s' = s\<lparr>g_sram := [], g_ready := True, g_open_cached := False, g_fidx_count := 0, g_fidx_sequence := 0,
       g_sb := formatted_sb bc, sd_ops := n, sd_blocks := (sd_blocks s)(1201 := buf, 0 := sbb)\<rparr>"
    and l: "length buf = 512" "length sbb = 512" and bit: "\<And>a. a < mx s' \<Longrightarrow> bit_of s' a \<longleftrightarrow> a = 0"
    unfolding s'_def by (rule init_fresh [OF fr, of multi]) blast
  have f: "good_size bc" "\<forall>n. sd_ok s n" "\<forall>b. length (sd_blocks s b) = 512" "g_data_cache s = cold_cache DATA_CACHE_SLOTS"
    "g_ht_cache s = cold_cache HT_CACHE_SLOTS" "sd_blocks s (word_of_nat (1201 + index_n (unat bc))) = b0"
    "\<And>b. 1201 \<le> unat b \<Longrightarrow> unat b < 1201 + index_n (unat bc) \<Longrightarrow> sd_blocks s b = replicate 512 0" using fr by (auto simp: fresh_card_def)
  note r = region_bounds [OF f(1)]
  show sb: "g_sb s' = formatted_sb bc" by (simp add: e)
  note a = formatted_addr [OF f(1) sb]
  show "sd_layout (g_sb s')" by (rule formatted_layout [OF f(1) sb])
  show "g_ready s'" "\<not> g_open_cached s'" "g_sram s' = []" "g_fidx_count s' = 0" "g_data_cache s' = cold_cache DATA_CACHE_SLOTS" "\<forall>n. sd_ok s' n"
    using f(2,4) by (simp_all add: e)
  have m: "0 < mx s'" "0 < ht_blocks s'" using a(1,2) r by (auto simp: word_less_nat_alt)
  show "bit_of s' 0" using bit [OF m(1)] by simp
  have z: "bkt (bucket_view s' i) = []" if "i < ht_blocks s'" for i
  proof -
    note ad = a(4) [OF that]
    have i: "unat i < table_n (unat bc)" using that a(2) by (simp add: word_less_nat_alt)
    have "bitmap_n (unat bc) \<noteq> 0" using r(4,9) by auto
    then have "bucket_addr s' i \<noteq> 0" "bucket_addr s' i \<noteq> 1201" using ad by auto
    then have "sd_blocks s' (bucket_addr s' i) = sd_blocks s (bucket_addr s' i)" by (simp add: e)
    also have "\<dots> = replicate 512 0" using ad i r(8) by (intro f(7)) auto
    finally show ?thesis by (simp add: bucket_view_def Let_def bucket_ok_zero)
  qed
  have "ht_ready s'" using f(2,3,5) l by (simp add: ht_ready_def e cache_ok_cold HT_CACHE_SLOTS_def)
  then show "ht_inv s'" using m(2) z by (simp add: ht_inv_def table_ok_def tbl_def)
  have "ht_map s' k = None" for k
    using z [OF mod_less_u32 [OF m(2)], of "ht_hash1 k"] z [OF mod_less_u32 [OF m(2)], of "ht_hash2 k"]
    by (simp add: ht_map_def table_map_def tbl_def)
  then show "ht_map s' = Map.empty" by auto
  note d = a(3) [OF m(1)]
  have "1201 + index_n (unat bc) < 4294967296" using r by linarith
  then have w: "blk_addr s' 0 = word_of_nat (1201 + index_n (unat bc))" using d by (simp only: word_unat_eq_iff unat_small) simp
  have "blk_addr s' 0 \<noteq> 0" "blk_addr s' 0 \<noteq> 1201" using d r(6) by auto
  then have "sd_blocks s' (blk_addr s' 0) = b0" using f(6) by (simp add: e w [unfolded e])
  then show "data_view s' 0 = (if 512 < blk_used b0 \<or> 60 < blk_count b0 then empty_blk else b0)" by (simp add: data_view_def)
qed

text \<open>
  When the start on a new card is right. If the first data block does not look like a block of cards, or is an empty one,
  \<open>kvsd_init\<close> of a card without a superblock, with zeroes where the bitmap and the table go, ends in a
  well-formed store that holds nothing.
\<close>

theorem kvsd_init_fresh:
  assumes "fresh_card bc b0 s" and "512 < blk_used b0 \<or> 60 < blk_count b0 \<or> block_holds b0 []"
  shows "sd_inv (kvsd_init multi s) \<and> kvsd_value (kvsd_init multi s) = Map.empty"
proof -
  define s' where "s' = kvsd_init multi s"
  note f = fresh_state [OF assms(1), of multi, folded s'_def]
  have o: "sb_open_block (g_sb s') = 0" "sb_open_used (g_sb s') = 8" "sb_open_count (g_sb s') = 0"
    by (simp_all add: f(4) formatted_sb_def Let_def)
  have v: "block_holds (data_view s' 0) []" using assms(2) block_holds_empty f(12) by auto
  then have "blk_used (data_view s' 0) = 8" "blk_count (data_view s' 0) = 0" by (auto simp: block_holds_def)
  then have "open_ok {0} s'" using f(6) by (simp add: open_ok_def Let_def o)
  moreover have "cards_ok {0} Map.empty nost (\<lambda>b. []) (mx s') (data_view s') (bit_of s')"
    using v f(1,10) by (simp add: cards_ok_def sd_layout_def)
  ultimately have rel: "sd_rel {0} Map.empty nost (\<lambda>b. []) s'"
    using f(1,2) by (simp add: sd_rel_def f(9) cache_ok_cold DATA_CACHE_SLOTS_def)
  have t: "tiers_ok Map.empty s'" by (simp add: tiers_ok_def f(3,7) fidx_none [OF f(8)])
  from kvsd_value_inv [OF rel t f(5)] show ?thesis by (simp add: s'_def [symmetric] card_of_def fun_eq_iff)
qed

text \<open>A card as it comes: zeroes, but for the first data block.\<close>

definition sd_fresh :: sd_state where
  "sd_fresh = sd_blank\<lparr>sd_blocks := (\<lambda>b. if b = 3982 then replicate 512 0xFF else replicate 512 0)\<rparr>"

lemma good_size_20000: "good_size 20000" "index_n 20000 = 2781"
  by (simp_all add: good_size_def index_n_def avail_def)

theorem kvsd_init_fresh_witness: "sd_inv (kvsd_init [] sd_fresh) \<and> kvsd_value (kvsd_init [] sd_fresh) = Map.empty"
proof (rule kvsd_init_fresh)
  have "unat b < 3982 \<Longrightarrow> b \<noteq> 3982" for b :: u32 by auto
  moreover have "replicate 8 (0 :: byte) \<noteq> SD_MAGIC" by code_simp
  ultimately show "fresh_card 20000 (replicate 512 0xFF) sd_fresh"
    by (auto simp: fresh_card_def good_size_20000 sd_fresh_def sd_blank_def ld32_def le32_def FIDX_MAGIC_def)
  show "512 < blk_used (replicate 512 0xFF) \<or> 60 < blk_count (replicate 512 0xFF) \<or> block_holds (replicate 512 0xFF) []"
    by (simp add: blk_count_def)
qed

subsection \<open>A card of zeroes\<close>

text \<open>The first entry goes over the header of the block, and the length that it overwrites places the payload.\<close>

lemma put_entry_zero:
  "put_entry (replicate 512 0) k c r n = None" if "504 < unat (drop_bit 16 k) + length c"
proof -
  have z: "blk_used (replicate 512 0) = 0" by (simp add: blk_used_def rd16_def le16_def)
  define h :: u16 where "h = ucast (drop_bit 16 k)"
  have "(ucast (drop_bit 16 k) :: byte) = ucast h" "(ucast (drop_bit 24 k) :: byte) = ucast (drop_bit 8 h)"
    by (rule bit_word_eqI; auto simp: h_def bit_simps)+
  then have le: "le16 (ucast (drop_bit 16 k)) (ucast (drop_bit 24 k)) = h" using le16_bytes16 [of h] by simp
  have "unat (drop_bit 16 k) < 65536" using unsigned_less [of k, where 'a = nat] by (simp add: drop_bit_eq_div unat_div)
  then have "unat h = unat (drop_bit 16 k)" by (simp add: h_def unsigned_ucast_eq take_bit_eq_mod)
  then have "blk_used (blit (replicate 512 0) 0 (entry_header k c r)) = unat (drop_bit 16 k)"
    by (simp add: blk_used_def rd16_def blit_def entry_header_def bytes32_def le)
  then show ?thesis using that by (simp add: put_entry_def z PACKED_ENTRY_HDR_def Let_def)
qed

lemma fresh_find:
  assumes fr: "fresh_card bc b0 s"
  obtains s1 where "find_slot_for_key (kvsd_init multi s) k = (- 1, s1)" "ht_frame (kvsd_init multi s) s1"
proof -
  define s' where "s' = kvsd_init multi s"
  note f = fresh_state [OF fr, of multi, folded s'_def]
  obtain s1 where s1: "ht_lookup s' k = (- 1, s1)" "ht_frame s' s1" using ht_lookup_spec [OF f(2), of k] by (auto simp: f(3))
  have "\<not> 0 \<le> index_find (g_sram s') k" using index_lookup [of "g_sram s'" k] by (simp add: f(7))
  then have "find_slot_for_key s' k = (- 1, s1)" using s1(1) fidx_none [OF f(8), of k] by (simp add: find_slot_for_key_def Let_def)
  then show thesis using that s1(2) by (simp add: s'_def)
qed

text \<open>
  A new card of zeroes is written out of bounds. When the first data block holds zeroes, as on a card that was erased,
  the first write of any acceptable value under a key of pack 8 or above leaves the 512 bytes of the block buffer: the block
  passes for a valid one with \<open>used = 0\<close>, the entry goes over its header, and the length read back is the upper half of the key.
\<close>

theorem kvsd_put_zero_card_overflow:
  assumes fr: "fresh_card bc (replicate 512 0) s" and k: "8 \<le> drop_bit 22 k"
    and val: "2 \<le> length val" "length val \<le> KVSD_MAX_PAYLOAD" "val ! 0 = KVSD_MAGIC_LO" "val ! 1 = KVSD_MAGIC_HI"
    and c: "pc_compress_card val PACKED_DATA_MAX \<noteq> []" "length (pc_compress_card val PACKED_DATA_MAX) \<le> 496"
  shows "kvsd_put (kvsd_init multi s) k val = None"
proof -
  define c' where "c' = pc_compress_card val PACKED_DATA_MAX"
  define s' where "s' = kvsd_init multi s"
  note f = fresh_state [OF fr, of multi, folded s'_def]
  obtain s1 where s1: "find_slot_for_key s' k = (- 1, s1)" "ht_frame s' s1" by (rule fresh_find [OF fr, of multi k, folded s'_def])
  note h = ht_frame_simps [OF s1(2)]
  have o: "sb_open_block (g_sb s') = 0" "sb_open_used (g_sb s') = 8" "sb_open_count (g_sb s') = 0"
    by (simp_all add: f(4) formatted_sb_def Let_def)
  have m: "0 < mx s1" using f(1) by (simp add: h sd_layout_def)
  have "cache_ok (data_view s1) (\<lambda>b. b < mx s1) (g_data_cache s1)" by (simp add: h f(9) cache_ok_cold DATA_CACHE_SLOTS_def)
  moreover have "\<forall>n. sd_ok s1 n" using f(11) by (simp add: h)
  ultimately obtain s2 where s2: "packed_read s1 0 = (Some (data_view s1 0), s2)" using packed_read_spec [OF _ _ m] by blast
  have "blk_addr s' 0 \<noteq> bucket_addr s' i" if "i < ht_blocks s'" for i using layout_disjoint(1) [OF f(1) _ that, of 0] m by (simp add: h)
  then have "sd_blocks s1 (blk_addr s' 0) = sd_blocks s' (blk_addr s' 0)" using s1(2) by (simp add: ht_frame_def)
  then have "data_view s1 0 = data_view s' 0" by (simp add: data_view_def blk_addr_def h)
  then have z: "data_view s1 0 = replicate 512 0" using f(12) by (simp add: blk_used_def rd16_def le16_def blk_count_def)
  have of: "open_for s1 (8 + length c') = (True, s2\<lparr>g_open_blk := replicate 512 0, g_open_cached := True\<rparr>)"
    unfolding open_for_def using s2 f(6) c(2) by (simp add: h o z c'_def)
  have "512 \<le> unat (drop_bit 16 k)"
  proof -
    have "8 \<le> unat k div 4194304" using k by (simp add: word_le_nat_alt drop_bit_eq_div unat_div)
    then show ?thesis by (simp add: drop_bit_eq_div unat_div)
  qed
  then have put: "put_entry (replicate 512 0) k c' (length val) (8 + length c') = None" using c(1) by (intro put_entry_zero) simp
  have "packed_append s1 k c' (length val) = None"
    using of put c(2) by (simp add: packed_append_def PACKED_ENTRY_HDR_def PACKED_DATA_MAX_def c'_def)
  then show ?thesis using put_unfold [OF f(5) val(2-4) s1(1) c(1)] by (simp add: c'_def s'_def)
qed

theorem kvsd_put_zero_card_overflow_witness: "kvsd_put (kvsd_init [] sd_blank) 0x02000001 [0x7D, 0xCA, 9] = None"
proof (rule kvsd_put_zero_card_overflow)
  have "replicate 8 (0 :: byte) \<noteq> SD_MAGIC" by code_simp
  then show "fresh_card 20000 (replicate 512 0) sd_blank"
    by (simp add: fresh_card_def good_size_20000 sd_blank_def ld32_def le32_def FIDX_MAGIC_def)
  show "8 \<le> drop_bit 22 (0x02000001 :: u32)" by simp
  show "pc_compress_card [0x7D, 0xCA, 9] PACKED_DATA_MAX \<noteq> []" "length (pc_compress_card [0x7D, 0xCA, 9] PACKED_DATA_MAX) \<le> 496"
    by code_simp+
qed (simp_all add: KVSD_MAX_PAYLOAD_def KVSD_MAGIC_LO_def KVSD_MAGIC_HI_def)

end
