(* ===== verification/KvRouter.thy ===== *)
theory KvRouter
  imports SdStart KvStore
begin

text \<open>
  The unified store of \<open>src/kv_store.h\<close>: keys of the system packs 0 and 1 go to the flash store, those of the other
  packs to the card when it is ready. The two stores share the flash chip, but not its sectors: the store
  begins at 1 MB, where the flash index of the card store ends, so each model keeps its own view of the chip.
\<close>

unbundle bit_operations_syntax

record kv_stores =
  st_flash :: kv_state
  st_sd :: sd_state

definition KV_PACK_FROM_KEY :: "u32 \<Rightarrow> u32" where
  "KV_PACK_FROM_KEY key = drop_bit 22 key AND 0x3FF"

definition KV_SYSTEM_PACK_MAX :: u32 where "KV_SYSTEM_PACK_MAX = 1"

definition kvsd_ready :: "sd_state \<Rightarrow> bool" where
  "kvsd_ready s = g_ready s"

definition kv_use_sd :: "kv_stores \<Rightarrow> u32 \<Rightarrow> bool" where
  "kv_use_sd st key \<longleftrightarrow> kvsd_ready (st_sd st) \<and> KV_SYSTEM_PACK_MAX < KV_PACK_FROM_KEY key"

definition kv_use_sd_pack :: "kv_stores \<Rightarrow> u16 \<Rightarrow> bool" where
  "kv_use_sd_pack st pack \<longleftrightarrow> kvsd_ready (st_sd st) \<and> KV_SYSTEM_PACK_MAX < ucast pack"

text \<open>\<open>None\<close> is a write of the card store outside of its block buffer.\<close>

definition kv_store_put :: "flash_dev \<Rightarrow> kv_stores \<Rightarrow> u32 \<Rightarrow> byte list \<Rightarrow> (bool \<times> kv_stores) option" where
  "kv_store_put dev st key val =
     (if kv_use_sd st key then
        if KVSD_MAX_PAYLOAD < length val then Some (False, st)
        else (case kvsd_put (st_sd st) key val of
                None \<Rightarrow> None
              | Some (ok, s) \<Rightarrow> Some (ok, st\<lparr>st_sd := s\<rparr>))
      else case kv_put dev (st_flash st) key val of (ok, f) \<Rightarrow> Some (ok, st\<lparr>st_flash := f\<rparr>))"

text \<open>The version of a card is read from the bytes 2 and 3 of the buffer, whatever the length of the value.\<close>

definition kv_store_get_copy :: "kv_stores \<Rightarrow> u32 \<Rightarrow> byte list \<Rightarrow> (byte list \<times> nat \<times> u16) read_result \<times> kv_stores" where
  "kv_store_get_copy st key out =
     (if kv_use_sd st key then
        (case kvsd_get_copy (st_sd st) key out of
           (Fault, s) \<Rightarrow> (Fault, st\<lparr>st_sd := s\<rparr>)
         | (Miss, s) \<Rightarrow> (Miss, st\<lparr>st_sd := s\<rparr>)
         | (Found (buf, n), s) \<Rightarrow>
             (if length buf < 4 then Fault else Found (buf, n, le16 (buf ! 2) (buf ! 3)), st\<lparr>st_sd := s\<rparr>))
      else
        (case kv_get_copy (st_flash st) key True (Some (length out)) of
           Found (Some xs, n, ver) \<Rightarrow> (Found (blit out 0 xs, n, ver), st)
         | Found (None, n, ver) \<Rightarrow> (Found (out, n, ver), st)
         | Miss \<Rightarrow> (Miss, st)
         | Fault \<Rightarrow> (Fault, st)))"

text \<open>The bytes as stored, with the length of the value and whether they are compressed.\<close>

definition kv_store_get_raw :: "kv_stores \<Rightarrow> u32 \<Rightarrow> nat \<Rightarrow> (byte list \<times> nat \<times> bool) option \<times> kv_stores" where
  "kv_store_get_raw st key cap =
     (if kv_use_sd st key then
        (case kvsd_get_raw (st_sd st) key cap of
           (None, s) \<Rightarrow> (None, st\<lparr>st_sd := s\<rparr>)
         | (Some (xs, raw_len), s) \<Rightarrow> (Some (xs, raw_len, True), st\<lparr>st_sd := s\<rparr>))
      else (kv_get_raw (st_flash st) key, st))"

definition kv_store_delete :: "flash_dev \<Rightarrow> kv_stores \<Rightarrow> u32 \<Rightarrow> (bool \<times> kv_stores) option" where
  "kv_store_delete dev st key =
     (if kv_use_sd st key then
        (case kvsd_delete (st_sd st) key of
           None \<Rightarrow> None
         | Some (ok, s) \<Rightarrow> Some (ok, st\<lparr>st_sd := s\<rparr>))
      else case kv_delete dev (st_flash st) key of (ok, f) \<Rightarrow> Some (ok, st\<lparr>st_flash := f\<rparr>))"

definition kv_store_range :: "kv_stores \<Rightarrow> u32 \<Rightarrow> u32 \<Rightarrow> nat \<Rightarrow> u32 list" where
  "kv_store_range st prefix msk maxr =
     (if kv_use_sd_pack st (ucast (KV_PACK_FROM_KEY prefix)) then kvsd_range (st_sd st) prefix msk maxr
      else map fst (kv_range (st_flash st) prefix msk maxr))"

definition kv_store_record_count :: "kv_stores \<Rightarrow> u32" where
  "kv_store_record_count st =
     (let n = word_of_nat (kv_record_count (st_flash st)) in
      if kvsd_ready (st_sd st) then n + kvsd_record_count (st_sd st) else n)"

subsection \<open>One map over both stores\<close>

definition store_value :: "kv_stores \<Rightarrow> u32 \<Rightarrow> byte list option" where
  "store_value st k = (if kv_use_sd st k then kvsd_value (st_sd st) k else kv_contents (st_flash st) k)"

definition stores_inv :: "kv_stores \<Rightarrow> bool" where
  "stores_inv st \<longleftrightarrow> store_inv (st_flash st) \<and> (g_ready (st_sd st) \<longrightarrow> sd_inv (st_sd st))"

text \<open>What each store asks of a value.\<close>

definition put_accepts :: "kv_stores \<Rightarrow> u32 \<Rightarrow> byte list \<Rightarrow> bool" where
  "put_accepts st k val \<longleftrightarrow> (if kv_use_sd st k then 2 \<le> length val \<and> put_moves (st_sd st) k val else kv_small val)"

lemma use_sd_cong: "g_ready (st_sd st') = g_ready (st_sd st) \<Longrightarrow> kv_use_sd st' k = kv_use_sd st k"
  by (simp add: kv_use_sd_def kvsd_ready_def)


definition stores_small :: kv_stores where
  "stores_small = \<lparr>st_flash = kv_boot, st_sd = sd_small\<rparr>"


end
