(* ===== verification/UserCards.thy ===== *)
theory UserCards
  imports KvStore
begin

text \<open>
  The cards of \<open>src/user_auth.c\<close>: the binary format of a card (magic, version, then fields of an ordinal, a length and
  data), the builders of user and schema cards, and the parser of user cards.

  Pointers of \<open>parsed_user_t\<close> into the card are offsets; a read through one that leaves the card is \<open>None\<close>.
\<close>

unbundle bit_operations_syntax

definition CARD_MAGIC_LO :: byte where "CARD_MAGIC_LO = 0x7D"
definition CARD_MAGIC_HI :: byte where "CARD_MAGIC_HI = 0xCA"
definition USER_PACK :: u32 where "USER_PACK = 1"
definition USER_MAX_NAME :: nat where "USER_MAX_NAME = 31"
definition USER_MAX_PASS :: nat where "USER_MAX_PASS = 31"
definition USER_SALT_LEN :: nat where "USER_SALT_LEN = 16"
definition USER_HASH_LEN :: nat where "USER_HASH_LEN = 32"
definition USER_FLAG_ADMIN :: byte where "USER_FLAG_ADMIN = 1"
definition USER_FLAG_LOCKED :: byte where "USER_FLAG_LOCKED = 2"
definition USER_FLAG_MUST_CHANGE :: byte where "USER_FLAG_MUST_CHANGE = 4"

definition PACK_KEY :: "u32 \<Rightarrow> u32 \<Rightarrow> u32" where
  "PACK_KEY pack crd = push_bit 22 pack OR (crd AND 0x3FFFFF)"

definition USER_KEY :: "u32 \<Rightarrow> u32" where "USER_KEY crd = PACK_KEY USER_PACK crd"
definition SCHEMA_KEY :: "u32 \<Rightarrow> u32" where "SCHEMA_KEY pack = PACK_KEY 0 pack"

text \<open>One block of writes behind its check of the space left; \<open>None\<close> is the length 0.\<close>

definition card_put :: "nat \<Rightarrow> nat \<Rightarrow> byte list \<Rightarrow> byte list \<Rightarrow> byte list option" where
  "card_put cap need xs buf = (if cap < length buf + need then None else Some (buf @ xs))"

definition card_header :: "byte list" where
  "card_header = [CARD_MAGIC_LO, CARD_MAGIC_HI, 1, 0]"

text \<open>A field of 16-bit pack numbers, its length doubled by a byte count.\<close>

definition packs_field :: "byte \<Rightarrow> u16 list \<Rightarrow> byte list" where
  "packs_field ord ps = [ord, 1 + word_of_nat (length ps * 2), word_of_nat (length ps * 2)] @ concat (map bytes16 ps)"

definition build_user_card ::
  "nat \<Rightarrow> byte list \<Rightarrow> byte list \<Rightarrow> byte list \<Rightarrow> byte \<Rightarrow> byte \<Rightarrow> u16 list \<Rightarrow> u16 list \<Rightarrow> u16 list \<Rightarrow> byte list option" where
  "build_user_card cap username hash salt flags fail_count rpacks wpacks dpacks =
     Option.bind (card_put cap 4 card_header []) (\<lambda>b.
     Option.bind (card_put cap (3 + length username) ([0, 1 + word_of_nat (length username), word_of_nat (length username)] @ username) b) (\<lambda>b.
     Option.bind (card_put cap (2 + USER_HASH_LEN) ([1, word_of_nat USER_HASH_LEN] @ hash) b) (\<lambda>b.
     Option.bind (card_put cap (2 + USER_SALT_LEN) ([2, word_of_nat USER_SALT_LEN] @ salt) b) (\<lambda>b.
     Option.bind (card_put cap 3 [3, 1, flags] b) (\<lambda>b.
     Option.bind (card_put cap 3 [4, 1, fail_count] b) (\<lambda>b.
     Option.bind (card_put cap (3 + length rpacks * 2) (packs_field 5 rpacks) b) (\<lambda>b.
     Option.bind (card_put cap (3 + length wpacks * 2) (packs_field 6 wpacks) b) (\<lambda>b.
     card_put cap (3 + length dpacks * 2) (packs_field 7 dpacks) b))))))))"

subsection \<open>Schema cards\<close>

record schema_field_t =
  sf_ord :: byte
  sf_type :: byte
  sf_maxlen :: byte
  sf_name :: "byte list"

definition names_bytes :: "schema_field_t list \<Rightarrow> byte list" where
  "names_bytes flds = concat (map (\<lambda>f. take (length (sf_name f) mod 256) (sf_name f) @ [0]) flds)"

definition build_schema_card_full ::
  "nat \<Rightarrow> byte list \<Rightarrow> schema_field_t list \<Rightarrow> byte \<Rightarrow> byte list option \<Rightarrow> byte list option" where
  "build_schema_card_full cap pack_name flds flags modname =
     (let nlen = length pack_name mod 256; defs_len = length flds * 3;
          names_total = cast16 (\<Sum>f \<leftarrow> flds. length (sf_name f) + 1) in
      Option.bind (card_put cap 4 card_header []) (\<lambda>b.
      Option.bind (card_put cap (3 + nlen) ([0, 1 + word_of_nat nlen, word_of_nat nlen] @ take nlen pack_name) b) (\<lambda>b.
      Option.bind (card_put cap 3 [1, 1, word_of_nat (length flds)] b) (\<lambda>b.
      Option.bind (card_put cap (2 + defs_len)
        ([2, word_of_nat defs_len] @ concat (map (\<lambda>f. [sf_ord f AND 0x1F, sf_type f, sf_maxlen f]) flds)) b) (\<lambda>b.
      Option.bind (card_put cap 3 [3, 1, flags] b) (\<lambda>b.
      let b' = (case modname of
                  None \<Rightarrow> b
                | Some mn \<Rightarrow>
                    let mlen = length mn mod 256 in
                    if mn = [] then b
                    else if length b + 2 + 1 + mlen \<le> cap then b @ [4, 1 + word_of_nat mlen, word_of_nat mlen] @ take mlen mn else b) in
      if cap < length b' + 2 + names_total \<or> 255 < names_total then None
      else Some (b' @ [5, word_of_nat names_total] @ names_bytes flds)))))))"

definition build_schema_card_ex :: "nat \<Rightarrow> byte list \<Rightarrow> schema_field_t list \<Rightarrow> byte \<Rightarrow> byte list option" where
  "build_schema_card_ex cap pack_name flds flags = build_schema_card_full cap pack_name flds flags None"

definition build_schema_card :: "nat \<Rightarrow> byte list \<Rightarrow> schema_field_t list \<Rightarrow> byte list option" where
  "build_schema_card cap pack_name flds = build_schema_card_ex cap pack_name flds 0"

subsection \<open>Parsing\<close>

text \<open>The ordinal, the length, the offset of the data and the offset behind it.\<close>

definition parse_field :: "byte list \<Rightarrow> nat \<Rightarrow> (nat \<times> nat \<times> nat \<times> nat) option" where
  "parse_field crd off =
     (if length crd < off + 2 then None
      else
        let ord = unat (crd ! off AND 0x1F); flen = unat (crd ! (off + 1)); dat = off + 2 in
        if length crd < dat + flen then None else Some (ord, flen, dat, dat + flen))"

text \<open>An offset is \<open>None\<close> where the pointer is NULL.\<close>

record parsed_user_t =
  pu_username :: "nat option"
  pu_ulen :: nat
  pu_hash :: "nat option"
  pu_salt :: "nat option"
  pu_flags :: byte
  pu_fail_count :: byte
  pu_read :: "nat option"
  pu_read_bytes :: nat
  pu_write :: "nat option"
  pu_write_bytes :: nat
  pu_del :: "nat option"
  pu_del_bytes :: nat

definition no_user :: parsed_user_t where
  "no_user = \<lparr>pu_username = None, pu_ulen = 0, pu_hash = None, pu_salt = None, pu_flags = 0, pu_fail_count = 0, pu_read = None,
     pu_read_bytes = 0, pu_write = None, pu_write_bytes = 0, pu_del = None, pu_del_bytes = 0\<rparr>"

definition user_field :: "byte list \<Rightarrow> nat \<Rightarrow> nat \<Rightarrow> nat \<Rightarrow> parsed_user_t \<Rightarrow> parsed_user_t" where
  "user_field crd ord flen dat u =
     (let pre = min (unat (crd ! dat)) (flen - 1); one = (if 1 \<le> flen then crd ! dat else 0) in
      if ord = 0 then (if 1 \<le> flen then u\<lparr>pu_username := Some (dat + 1), pu_ulen := pre\<rparr> else u)
      else if ord = 1 then u\<lparr>pu_hash := Some dat\<rparr>
      else if ord = 2 then u\<lparr>pu_salt := Some dat\<rparr>
      else if ord = 3 then u\<lparr>pu_flags := one\<rparr>
      else if ord = 4 then u\<lparr>pu_fail_count := one\<rparr>
      else if ord = 5 then (if 1 \<le> flen then u\<lparr>pu_read := Some (dat + 1), pu_read_bytes := pre\<rparr> else u)
      else if ord = 6 then (if 1 \<le> flen then u\<lparr>pu_write := Some (dat + 1), pu_write_bytes := pre\<rparr> else u)
      else if ord = 7 then (if 1 \<le> flen then u\<lparr>pu_del := Some (dat + 1), pu_del_bytes := pre\<rparr> else u)
      else u)"

lemma parse_field_Some: "parse_field crd off = Some (ord, flen, dat, nxt) \<Longrightarrow> dat = off + 2 \<and> nxt = off + 2 + flen \<and> nxt \<le> length crd"
  by (auto simp: parse_field_def Let_def split: if_splits)

function user_fields :: "byte list \<Rightarrow> nat \<Rightarrow> parsed_user_t \<Rightarrow> parsed_user_t" where
  "user_fields crd off u =
     (if length crd \<le> off then u
      else case parse_field crd off of
             None \<Rightarrow> u
           | Some (ord, flen, dat, nxt) \<Rightarrow> user_fields crd nxt (user_field crd ord flen dat u))"
  by pat_completeness auto
termination
  by (relation "measure (\<lambda>(crd, off, u). length crd - off)") (auto dest: parse_field_Some)

declare user_fields.simps [simp del]

definition parse_user_card :: "byte list \<Rightarrow> parsed_user_t option" where
  "parse_user_card crd =
     (if length crd < 4 then None
      else if crd ! 0 \<noteq> CARD_MAGIC_LO \<or> crd ! 1 \<noteq> CARD_MAGIC_HI then None
      else
        let u = user_fields crd 4 no_user in
        if pu_username u \<noteq> None \<and> pu_hash u \<noteq> None \<and> pu_salt u \<noteq> None then Some u else None)"

text \<open>\<open>n\<close> bytes through a pointer into the card.\<close>

definition bytes_at :: "byte list \<Rightarrow> nat option \<Rightarrow> nat \<Rightarrow> byte list option" where
  "bytes_at crd p n =
     (case p of
        None \<Rightarrow> (if n = 0 then Some [] else None)
      | Some dat \<Rightarrow> if dat + n \<le> length crd then Some (segment dat n crd) else None)"

fun u16_pairs :: "byte list \<Rightarrow> u16 list" where
  "u16_pairs (a # b # xs) = le16 a b # u16_pairs xs"
| "u16_pairs xs = []"

text \<open>The parser keeps the data of a list inside its field, so this never leaves the card.\<close>

definition extract_packs :: "byte list \<Rightarrow> nat option \<Rightarrow> nat \<Rightarrow> nat \<Rightarrow> u16 list" where
  "extract_packs crd data n maxn =
     (case data of None \<Rightarrow> [] | Some dat \<Rightarrow> take maxn (u16_pairs (segment dat n crd)))"

end
