(* ===== verification/UserAuth.thy ===== *)
theory UserAuth
  imports UserCards
begin

text \<open>
  Accounts and sessions of \<open>src/user_auth.c\<close> over the flash store: login with its count of failures, the table of eight
  sessions, access rights, passwords, new users, the session cookie, and the data seeded at the first start.

  SHA-256 (mbedtls), the random numbers and the clock of the Pico SDK are parameters: a function of the bytes, and two
  sequences that the state consumes. The outer \<open>None\<close> of a result is a read outside of a card or a fault of the decompressor.
\<close>

unbundle bit_operations_syntax

definition SESSION_TOKEN_LEN :: nat where "SESSION_TOKEN_LEN = 16"
definition SESSION_MAX :: nat where "SESSION_MAX = 8"
definition SESSION_TIMEOUT_S :: u32 where "SESSION_TIMEOUT_S = 3600"
definition SCHEMA_FLAG_PUBLIC_READ :: byte where "SCHEMA_FLAG_PUBLIC_READ = 1"

record session_slot_t =
  ss_token :: "byte list"
  ss_user_card :: u32
  ss_created_ms :: u32
  ss_last_ms :: u32
  ss_active :: bool

record user_session_t =
  us_user_card :: u32
  us_flags :: byte
  us_read_packs :: "u16 list"
  us_write_packs :: "u16 list"
  us_delete_packs :: "u16 list"

text \<open>What surrounds the module, and what it keeps: the store, the sessions, and how far the two sequences are used.\<close>

record auth_env =
  en_dev :: flash_dev
  en_sha :: "byte list \<Rightarrow> byte list"
  en_rand :: "nat \<Rightarrow> u32"
  en_clock :: "nat \<Rightarrow> u32"

record auth_state =
  au_kv :: kv_state
  g_sessions :: "session_slot_t list"
  au_rands :: nat
  au_clocks :: nat

subsection \<open>Helpers\<close>

definition now_ms :: "auth_env \<Rightarrow> auth_state \<Rightarrow> u32 \<times> auth_state" where
  "now_ms en s = (en_clock en (au_clocks s), s\<lparr>au_clocks := au_clocks s + 1\<rparr>)"

definition sha256_hash :: "auth_env \<Rightarrow> byte list \<Rightarrow> byte list \<Rightarrow> byte list" where
  "sha256_hash en salt pass = en_sha en (salt @ pass)"

definition gen_random :: "auth_env \<Rightarrow> auth_state \<Rightarrow> nat \<Rightarrow> byte list \<times> auth_state" where
  "gen_random en s n =
     (let k = (n + 3) div 4 in
      (take n (concat (map (\<lambda>i. bytes32 (en_rand en (au_rands s + i))) [0..<k])), s\<lparr>au_rands := au_rands s + k\<rparr>))"

definition hex_digit :: "byte \<Rightarrow> byte option" where
  "hex_digit c =
     (if 0x30 \<le> c \<and> c \<le> 0x39 then Some (c - 0x30)
      else if 0x61 \<le> c \<and> c \<le> 0x66 then Some (c - 0x61 + 10)
      else if 0x41 \<le> c \<and> c \<le> 0x46 then Some (c - 0x41 + 10)
      else None)"

definition hex_decode_byte :: "byte \<Rightarrow> byte \<Rightarrow> byte option" where
  "hex_decode_byte hi lo =
     (case hex_digit hi of
        None \<Rightarrow> None
      | Some h \<Rightarrow> (case hex_digit lo of None \<Rightarrow> None | Some l \<Rightarrow> Some (push_bit 4 h OR l)))"

text \<open>The comparison without early exit.\<close>

definition bytes_diff :: "nat \<Rightarrow> byte list \<Rightarrow> byte list \<Rightarrow> byte" where
  "bytes_diff n xs ys = fold (\<lambda>i d. d OR (xs ! i XOR ys ! i)) [0..<n] 0"

text \<open>A card read into a buffer of \<open>cap\<close> bytes.\<close>

definition read_card :: "kv_state \<Rightarrow> u32 \<Rightarrow> nat \<Rightarrow> byte list read_result" where
  "read_card kv key cap =
     (case kv_get_copy kv key True (Some cap) of
        Found (Some xs, n, ver) \<Rightarrow> Found (take n xs)
      | Found (None, n, ver) \<Rightarrow> Miss
      | Miss \<Rightarrow> Miss
      | Fault \<Rightarrow> Fault)"

subsection \<open>Finding a user\<close>

text \<open>The keys of the user pack, at most 256 of them.\<close>

definition user_keys :: "kv_state \<Rightarrow> u32 list" where
  "user_keys kv = map fst (kv_range kv (USER_KEY 0) 0xFFC00000 256)"

primrec find_user_in :: "kv_state \<Rightarrow> byte list \<Rightarrow> u32 list \<Rightarrow> (u32 \<times> byte list) read_result" where
  "find_user_in kv name [] = Miss"
| "find_user_in kv name (k # ks) =
     (case read_card kv k 512 of
        Fault \<Rightarrow> Fault
      | Miss \<Rightarrow> find_user_in kv name ks
      | Found crd \<Rightarrow>
          (case parse_user_card crd of
             None \<Rightarrow> find_user_in kv name ks
           | Some u \<Rightarrow>
               if pu_ulen u = length name \<and> bytes_at crd (pu_username u) (length name) = Some name
               then Found (k AND 0x3FFFFF, crd)
               else find_user_in kv name ks))"

definition find_user_by_name :: "kv_state \<Rightarrow> byte list \<Rightarrow> (u32 \<times> byte list) read_result" where
  "find_user_by_name kv name = find_user_in kv name (user_keys kv)"

subsection \<open>Login\<close>

text \<open>The card of a user with other flags and another count of failures.\<close>

definition rebuild_card :: "byte list \<Rightarrow> parsed_user_t \<Rightarrow> byte \<Rightarrow> byte \<Rightarrow> byte list option option" where
  "rebuild_card crd u flags fails =
     (case (bytes_at crd (pu_username u) (pu_ulen u), bytes_at crd (pu_hash u) USER_HASH_LEN, bytes_at crd (pu_salt u) USER_SALT_LEN) of
        (Some name, Some hash, Some salt) \<Rightarrow>
          Some (build_user_card 256 name hash salt flags fails
            (extract_packs crd (pu_read u) (pu_read_bytes u) 127) (extract_packs crd (pu_write u) (pu_write_bytes u) 127)
            (extract_packs crd (pu_del u) (pu_del_bytes u) 127))
      | _ \<Rightarrow> None)"

definition store_card :: "auth_env \<Rightarrow> auth_state \<Rightarrow> u32 \<Rightarrow> byte list option \<Rightarrow> auth_state" where
  "store_card en s key c = (case c of None \<Rightarrow> s | Some xs \<Rightarrow> s\<lparr>au_kv := snd (kv_put (en_dev en) (au_kv s) key xs)\<rparr>)"

text \<open>The first slot that is free, or that of the oldest session.\<close>

fun pick_slot :: "session_slot_t list \<Rightarrow> nat \<Rightarrow> u32 \<Rightarrow> nat \<Rightarrow> nat" where
  "pick_slot [] i oldest_ms oldest_slot = oldest_slot"
| "pick_slot (x # xs) i oldest_ms oldest_slot =
     (if \<not> ss_active x then i
      else if ss_created_ms x < oldest_ms then pick_slot xs (i + 1) (ss_created_ms x) i
      else pick_slot xs (i + 1) oldest_ms oldest_slot)"

definition new_session :: "auth_env \<Rightarrow> auth_state \<Rightarrow> u32 \<Rightarrow> byte list \<times> auth_state" where
  "new_session en s card_id =
     (let slot = pick_slot (g_sessions s) 0 0xFFFFFFFF 0; (token, s1) = gen_random en s SESSION_TOKEN_LEN;
          (t1, s2) = now_ms en s1; (t2, s3) = now_ms en s2 in
      (token, s3\<lparr>g_sessions := (g_sessions s3)[slot := \<lparr>ss_token = token, ss_user_card = card_id, ss_created_ms = t1,
         ss_last_ms = t2, ss_active = True\<rparr>]\<rparr>))"

definition user_auth_login :: "auth_env \<Rightarrow> auth_state \<Rightarrow> byte list \<Rightarrow> byte list \<Rightarrow> ((u32 \<times> byte list) option \<times> auth_state) option" where
  "user_auth_login en s name pass =
     (if length name = 0 \<or> USER_MAX_NAME < length name then Some (None, s)
      else if length pass = 0 \<or> USER_MAX_PASS < length pass then Some (None, s)
      else case find_user_by_name (au_kv s) name of
             Fault \<Rightarrow> None
           | Miss \<Rightarrow> Some (None, s)
           | Found (card_id, crd) \<Rightarrow>
               (case parse_user_card crd of
                  None \<Rightarrow> Some (None, s)
                | Some u \<Rightarrow>
                    if pu_flags u AND USER_FLAG_LOCKED \<noteq> 0 then Some (None, s)
                    else case (bytes_at crd (pu_salt u) USER_SALT_LEN, bytes_at crd (pu_hash u) USER_HASH_LEN) of
                           (Some salt, Some hash) \<Rightarrow>
                             if bytes_diff USER_HASH_LEN (sha256_hash en salt pass) hash \<noteq> 0 then
                               let fails = pu_fail_count u + 1;
                                   flags = (if 10 \<le> fails then pu_flags u OR USER_FLAG_LOCKED else pu_flags u) in
                               map_option (\<lambda>c. (None, store_card en s (USER_KEY card_id) c)) (rebuild_card crd u flags fails)
                             else
                               Option.bind (if 0 < pu_fail_count u
                                            then map_option (store_card en s (USER_KEY card_id)) (rebuild_card crd u (pu_flags u) 0)
                                            else Some s)
                                 (\<lambda>s1. case new_session en s1 card_id of (token, s2) \<Rightarrow> Some (Some (card_id, token), s2))
                         | _ \<Rightarrow> None))"

subsection \<open>Sessions\<close>

definition token_slot :: "session_slot_t list \<Rightarrow> byte list \<Rightarrow> nat option" where
  "token_slot ss token = find (\<lambda>i. ss_active (ss ! i) \<and> bytes_diff SESSION_TOKEN_LEN (ss_token (ss ! i)) token = 0) [0..<length ss]"

definition user_auth_logout :: "auth_state \<Rightarrow> byte list \<Rightarrow> auth_state" where
  "user_auth_logout s token =
     (case token_slot (g_sessions s) token of
        None \<Rightarrow> s
      | Some i \<Rightarrow> s\<lparr>g_sessions := (g_sessions s)[i := (g_sessions s ! i)\<lparr>ss_active := False\<rparr>]\<rparr>)"

definition session_of :: "u32 \<Rightarrow> byte list \<Rightarrow> parsed_user_t \<Rightarrow> user_session_t" where
  "session_of card_id crd u =
     \<lparr>us_user_card = card_id, us_flags = pu_flags u, us_read_packs = extract_packs crd (pu_read u) (pu_read_bytes u) 20,
      us_write_packs = extract_packs crd (pu_write u) (pu_write_bytes u) 20, us_delete_packs = extract_packs crd (pu_del u) (pu_del_bytes u) 20\<rparr>"

definition user_auth_check :: "auth_env \<Rightarrow> auth_state \<Rightarrow> byte list \<Rightarrow> (user_session_t option \<times> auth_state) option" where
  "user_auth_check en s token =
     (case token_slot (g_sessions s) token of
        None \<Rightarrow> Some (None, s)
      | Some i \<Rightarrow>
          let slot = g_sessions s ! i; (t1, s1) = now_ms en s; elapsed = t1 - ss_last_ms slot in
          if SESSION_TIMEOUT_S * 1000 < elapsed
          then Some (None, s1\<lparr>g_sessions := (g_sessions s1)[i := slot\<lparr>ss_active := False\<rparr>]\<rparr>)
          else
            let (t2, s2) = now_ms en s1; slot' = slot\<lparr>ss_last_ms := t2\<rparr>; s3 = s2\<lparr>g_sessions := (g_sessions s2)[i := slot']\<rparr> in
            case read_card (au_kv s3) (USER_KEY (ss_user_card slot)) 512 of
              Fault \<Rightarrow> None
            | Miss \<Rightarrow> Some (None, s3\<lparr>g_sessions := (g_sessions s3)[i := slot'\<lparr>ss_active := False\<rparr>]\<rparr>)
            | Found crd \<Rightarrow>
                (case parse_user_card crd of
                   None \<Rightarrow> Some (None, s3)
                 | Some u \<Rightarrow> Some (Some (session_of (ss_user_card slot) crd u), s3)))"

subsection \<open>Access\<close>

definition pack_in_list :: "u16 list \<Rightarrow> u16 \<Rightarrow> bool" where
  "pack_in_list ps pack \<longleftrightarrow> (\<exists>p \<in> set ps. p = 0xFFFF \<or> p = pack)"

function public_flag :: "byte list \<Rightarrow> nat \<Rightarrow> bool" where
  "public_flag crd off =
     (if length crd \<le> off + 1 then False
      else
        let ord = crd ! off AND 0x1F; flen = unat (crd ! (off + 1)); dat = off + 2 in
        if length crd < dat + flen then False
        else if ord = 3 \<and> 1 \<le> flen then crd ! dat AND SCHEMA_FLAG_PUBLIC_READ \<noteq> 0
        else public_flag crd (dat + flen))"
  by pat_completeness auto
termination
  by (relation "measure (\<lambda>(crd, off). length crd - off)") auto

declare public_flag.simps [simp del]

definition pack_is_public_read :: "kv_state \<Rightarrow> u16 \<Rightarrow> bool option" where
  "pack_is_public_read kv pack =
     (case read_card kv (SCHEMA_KEY (ucast pack)) 128 of
        Fault \<Rightarrow> None
      | Miss \<Rightarrow> Some False
      | Found crd \<Rightarrow>
          Some (4 \<le> length crd \<and> crd ! 0 = CARD_MAGIC_LO \<and> crd ! 1 = CARD_MAGIC_HI \<and> public_flag crd 4))"

definition user_auth_can_read :: "kv_state \<Rightarrow> user_session_t \<Rightarrow> u16 \<Rightarrow> bool option" where
  "user_auth_can_read kv s pack = (if pack_in_list (us_read_packs s) pack then Some True else pack_is_public_read kv pack)"

definition user_auth_can_write :: "user_session_t \<Rightarrow> u16 \<Rightarrow> bool" where
  "user_auth_can_write s pack = pack_in_list (us_write_packs s) pack"

definition user_auth_can_delete :: "user_session_t \<Rightarrow> u16 \<Rightarrow> bool" where
  "user_auth_can_delete s pack = pack_in_list (us_delete_packs s) pack"

definition user_auth_is_admin :: "user_session_t \<Rightarrow> bool" where
  "user_auth_is_admin s \<longleftrightarrow> us_flags s AND USER_FLAG_ADMIN \<noteq> 0"

subsection \<open>Passwords and new users\<close>

definition user_auth_change_password :: "auth_env \<Rightarrow> auth_state \<Rightarrow> u32 \<Rightarrow> byte list \<Rightarrow> byte list \<Rightarrow> (bool \<times> auth_state) option" where
  "user_auth_change_password en s user_card old_pass new_pass =
     (case read_card (au_kv s) (USER_KEY user_card) 512 of
        Fault \<Rightarrow> None
      | Miss \<Rightarrow> Some (False, s)
      | Found crd \<Rightarrow>
          (case parse_user_card crd of
             None \<Rightarrow> Some (False, s)
           | Some u \<Rightarrow>
               (case (bytes_at crd (pu_salt u) USER_SALT_LEN, bytes_at crd (pu_hash u) USER_HASH_LEN) of
                  (Some salt, Some hash) \<Rightarrow>
                    if bytes_diff USER_HASH_LEN (sha256_hash en salt old_pass) hash \<noteq> 0 then Some (False, s)
                    else
                      let (new_salt, s1) = gen_random en s USER_SALT_LEN;
                          new_hash = sha256_hash en new_salt new_pass;
                          rpacks = extract_packs crd (pu_read u) (pu_read_bytes u) 20;
                          wpacks = extract_packs crd (pu_write u) (pu_write_bytes u) 20;
                          dpacks = extract_packs crd (pu_del u) (pu_del_bytes u) 20;
                          ulen = min (pu_ulen u) USER_MAX_NAME in
                      (case bytes_at crd (pu_username u) ulen of
                         None \<Rightarrow> None
                       | Some uname \<Rightarrow>
                           (case build_user_card 256 uname new_hash new_salt (pu_flags u) 0 rpacks wpacks dpacks of
                              None \<Rightarrow> Some (False, s1)
                            | Some new_card \<Rightarrow>
                                (case kv_put (en_dev en) (au_kv s1) (USER_KEY user_card) new_card of
                                   (ok, kv) \<Rightarrow> Some (ok, s1\<lparr>au_kv := kv\<rparr>))))
                | _ \<Rightarrow> None)))"

text \<open>The number behind the largest of the keys.\<close>

definition next_user_id :: "u32 list \<Rightarrow> u32" where
  "next_user_id ks = fold (\<lambda>k next_id. let i = k AND 0x3FFFFF in if next_id \<le> i then i + 1 else next_id) ks 0"

definition user_auth_create_user ::
  "auth_env \<Rightarrow> auth_state \<Rightarrow> byte list \<Rightarrow> byte list \<Rightarrow> byte \<Rightarrow> u16 list \<Rightarrow> u16 list \<Rightarrow> u16 list \<Rightarrow> (u32 option \<times> auth_state) option" where
  "user_auth_create_user en s name pass flags read_packs write_packs delete_packs =
     (if length name = 0 \<or> USER_MAX_NAME < length name then Some (None, s)
      else if length pass = 0 \<or> USER_MAX_PASS < length pass then Some (None, s)
      else case find_user_by_name (au_kv s) name of
             Fault \<Rightarrow> None
           | Found _ \<Rightarrow> Some (None, s)
           | Miss \<Rightarrow>
               let next_id = next_user_id (user_keys (au_kv s)); (salt, s1) = gen_random en s USER_SALT_LEN;
                   hash = sha256_hash en salt pass in
               (case build_user_card 256 name hash salt flags 0 read_packs write_packs delete_packs of
                  None \<Rightarrow> Some (None, s1)
                | Some crd \<Rightarrow>
                    (case kv_put (en_dev en) (au_kv s1) (USER_KEY next_id) crd of
                       (ok, kv) \<Rightarrow> Some (if ok then Some next_id else None, s1\<lparr>au_kv := kv\<rparr>))))"

end
