(* ===== verification/UserView.thy ===== *)
theory UserView
  imports UserAuth
begin

text \<open>
  The account that a stored card describes, and the proof that the builder and the parser of user cards agree on it.
\<close>

unbundle bit_operations_syntax

record user_acct =
  uc_name :: "byte list"
  uc_hash :: "byte list"
  uc_salt :: "byte list"
  uc_flags :: byte
  uc_fails :: byte
  uc_read :: "u16 list"
  uc_write :: "u16 list"
  uc_del :: "u16 list"

definition acct_of :: "byte list \<Rightarrow> parsed_user_t \<Rightarrow> user_acct option" where
  "acct_of crd u =
     (case (bytes_at crd (pu_username u) (pu_ulen u), bytes_at crd (pu_hash u) USER_HASH_LEN, bytes_at crd (pu_salt u) USER_SALT_LEN) of
        (Some name, Some hash, Some salt) \<Rightarrow>
          Some \<lparr>uc_name = name, uc_hash = hash, uc_salt = salt, uc_flags = pu_flags u, uc_fails = pu_fail_count u,
                uc_read = extract_packs crd (pu_read u) (pu_read_bytes u) 127,
                uc_write = extract_packs crd (pu_write u) (pu_write_bytes u) 127,
                uc_del = extract_packs crd (pu_del u) (pu_del_bytes u) 127\<rparr>
      | _ \<Rightarrow> None)"

definition user_acct_of :: "byte list \<Rightarrow> user_acct option" where
  "user_acct_of crd = Option.bind (parse_user_card crd) (acct_of crd)"

definition build_acct :: "nat \<Rightarrow> user_acct \<Rightarrow> byte list option" where
  "build_acct cap a = build_user_card cap (uc_name a) (uc_hash a) (uc_salt a) (uc_flags a) (uc_fails a) (uc_read a) (uc_write a) (uc_del a)"

text \<open>What fits into the fields of a card.\<close>

definition acct_ok :: "user_acct \<Rightarrow> bool" where
  "acct_ok a \<longleftrightarrow> length (uc_name a) < 255 \<and> length (uc_hash a) = USER_HASH_LEN \<and> length (uc_salt a) = USER_SALT_LEN
     \<and> length (uc_read a) \<le> 127 \<and> length (uc_write a) \<le> 127 \<and> length (uc_del a) \<le> 127"

lemma length_bytes_at: "bytes_at crd p n = Some xs \<Longrightarrow> length xs = n"
  by (auto simp: bytes_at_def split: option.split_asm if_split_asm)

subsection \<open>The bytes of a card\<close>

definition acct_bytes :: "user_acct \<Rightarrow> byte list" where
  "acct_bytes a = card_header @ [0, 1 + word_of_nat (length (uc_name a)), word_of_nat (length (uc_name a))] @ uc_name a
     @ [1, word_of_nat USER_HASH_LEN] @ uc_hash a @ [2, word_of_nat USER_SALT_LEN] @ uc_salt a @ [3, 1, uc_flags a] @ [4, 1, uc_fails a]
     @ packs_field 5 (uc_read a) @ packs_field 6 (uc_write a) @ packs_field 7 (uc_del a)"

lemma length_packs_bytes [simp]: "length (concat (map bytes16 ps)) = 2 * length ps"
  by (induction ps) simp_all

lemma length_packs_field [simp]: "length (packs_field ord ps) = 3 + 2 * length ps"
  by (simp add: packs_field_def)

lemma card_put_Some: "card_put cap need xs b = Some b' \<longleftrightarrow> length b + need \<le> cap \<and> b' = b @ xs"
  by (auto simp: card_put_def)

lemma bind_Some_iff: "Option.bind x f = Some y \<longleftrightarrow> (\<exists>z. x = Some z \<and> f z = Some y)"
  by (cases x) auto

lemma build_acct_bytes:
  assumes "acct_ok a"
  shows "build_acct cap a = (if length (acct_bytes a) \<le> cap then Some (acct_bytes a) else None)"
proof -
  note len = assms [unfolded acct_ok_def]
  have "build_acct cap a = Some b \<longleftrightarrow> length (acct_bytes a) \<le> cap \<and> b = acct_bytes a" for b
    unfolding build_acct_def build_user_card_def bind_Some_iff card_put_Some acct_bytes_def
    using len by (auto simp: card_header_def algebra_simps)
  then show ?thesis by (metis not_None_eq)
qed

subsection \<open>Parsing a card field by field\<close>

lemma user_fields_step:
  assumes "drop off crd = ord # n # dat @ rest" "unat n = length dat"
  shows "user_fields crd off u = user_fields crd (off + 2 + length dat) (user_field crd (unat (ord AND 0x1F)) (length dat) (off + 2) u)"
    and "drop (off + 2 + length dat) crd = rest" and "off + 2 + length dat \<le> length crd"
    and "j < length dat \<Longrightarrow> crd ! (off + 2 + j) = dat ! j" and "segment (off + 2) (length dat) crd = dat"
    and "dat = b # bs \<Longrightarrow> crd ! (off + 2) = b \<and> segment (off + 3) (length bs) crd = bs"
proof -
  have l: "length crd = off + 2 + length dat + length rest"
    using arg_cong [OF assms(1), of length] by (cases "off \<le> length crd") auto
  have n0: "crd ! off = ord" "crd ! (off + 1) = n"
    using l assms(1) nth_drop [of off crd 0] nth_drop [of off crd 1] by simp_all
  have d2: "drop (off + 2) crd = dat @ rest"
    using arg_cong [OF assms(1), of "drop 2"] by (simp add: add.commute)
  show "user_fields crd off u = user_fields crd (off + 2 + length dat) (user_field crd (unat (ord AND 0x1F)) (length dat) (off + 2) u)"
    using l n0 assms(2) by (subst user_fields.simps) (simp add: parse_field_def Let_def)
  show r: "drop (off + 2 + length dat) crd = rest"
    using arg_cong [OF d2, of "drop (length dat)"] by (simp add: add.commute)
  show "off + 2 + length dat \<le> length crd" using l by simp
  show nt: "crd ! (off + 2 + j) = dat ! j" if j: "j < length dat" for j
  proof -
    have "crd ! (off + 2 + j) = drop (off + 2) crd ! j" by (rule nth_drop [symmetric]) (use l in simp)
    then show ?thesis by (simp only: d2 nth_append j if_True)
  qed
  show "segment (off + 2) (length dat) crd = dat" by (simp only: segment_def d2) simp
  show "dat = b # bs \<Longrightarrow> crd ! (off + 2) = b \<and> segment (off + 3) (length bs) crd = bs"
  proof
    assume dat: "dat = b # bs"
    then show "crd ! (off + 2) = b" using nt [of 0] by simp
    have "drop (off + 3) crd = bs @ rest" using arg_cong [OF d2, of "drop 1"] dat by (simp add: numeral_3_eq_3)
    then show "segment (off + 3) (length bs) crd = bs" by (simp add: segment_def)
  qed
qed

lemma u16_pairs_bytes [simp]: "u16_pairs (concat (map bytes16 ps)) = ps"
  by (induction ps) (simp_all add: bytes16_def)

lemma unat_prefix: "n < 255 \<Longrightarrow> unat (1 + word_of_nat n :: byte) = n + 1" "n < 255 \<Longrightarrow> unat (word_of_nat n :: byte) = n"
  by (simp_all add: unat_word_ariths unat_of_nat)

lemma length_u16_pairs: "length (u16_pairs xs) = length xs div 2"
  by (induction xs rule: u16_pairs.induct) auto

lemma user_field_prefixed:
  assumes "crd ! dat = word_of_nat n" "n < 255" "flen = Suc n"
  shows "user_field crd 0 flen dat u = u\<lparr>pu_username := Some (dat + 1), pu_ulen := n\<rparr>"
    and "user_field crd 5 flen dat u = u\<lparr>pu_read := Some (dat + 1), pu_read_bytes := n\<rparr>"
    and "user_field crd 6 flen dat u = u\<lparr>pu_write := Some (dat + 1), pu_write_bytes := n\<rparr>"
    and "user_field crd 7 flen dat u = u\<lparr>pu_del := Some (dat + 1), pu_del_bytes := n\<rparr>"
  using assms by (simp_all add: user_field_def Let_def unat_prefix)

lemma user_field_plain:
  "user_field crd (Suc 0) flen dat u = u\<lparr>pu_hash := Some dat\<rparr>" "user_field crd 2 flen dat u = u\<lparr>pu_salt := Some dat\<rparr>"
  "user_field crd 3 (Suc 0) dat u = u\<lparr>pu_flags := crd ! dat\<rparr>" "user_field crd 4 (Suc 0) dat u = u\<lparr>pu_fail_count := crd ! dat\<rparr>"
  by (simp_all add: user_field_def Let_def)

lemma user_fields_end: "length crd \<le> off \<Longrightarrow> user_fields crd off u = u"
  by (subst user_fields.simps) simp

text \<open>A field whose data begin with their own length.\<close>

lemma text_step:
  assumes "drop off c = [ord, 1 + word_of_nat n, word_of_nat n] @ xs @ rest" "n = length xs" "n < 255" "next_off = off + 3 + n"
  shows "user_fields c off u = user_fields c next_off (user_field c (unat (ord AND 0x1F)) (Suc n) (off + 2) u)"
    and "drop next_off c = rest" and "c ! (off + 2) = word_of_nat n" and "segment (off + 3) n c = xs" and "next_off \<le> length c"
proof -
  have d: "drop off c = ord # (1 + word_of_nat n) # (word_of_nat n # xs) @ rest" using assms(1) by simp
  have n: "unat (1 + word_of_nat n :: byte) = length (word_of_nat n # xs :: byte list)" using assms(2,3) by (simp add: unat_prefix)
  note st = user_fields_step [OF d n]
  show "user_fields c off u = user_fields c next_off (user_field c (unat (ord AND 0x1F)) (Suc n) (off + 2) u)"
    and "drop next_off c = rest" and "next_off \<le> length c"
    using st(1) [of u] st(2,3) assms(2,4) by (simp_all add: numeral_3_eq_3)
  show "c ! (off + 2) = word_of_nat n" "segment (off + 3) n c = xs" using st(6) [OF refl] assms(2) by simp_all
qed

lemma blob_step:
  assumes "drop off c = [ord, word_of_nat n] @ xs @ rest" "n = length xs" "n < 256" "next_off = off + 2 + n"
  shows "user_fields c off u = user_fields c next_off (user_field c (unat (ord AND 0x1F)) n (off + 2) u)"
    and "drop next_off c = rest" and "segment (off + 2) n c = xs" and "next_off \<le> length c"
    and "xs = [b] \<Longrightarrow> c ! (off + 2) = b"
proof -
  have d: "drop off c = ord # word_of_nat n # xs @ rest" using assms(1) by simp
  have n: "unat (word_of_nat n :: byte) = length xs" using assms(2,3) by (simp add: unat_of_nat)
  note st = user_fields_step [OF d n]
  show "user_fields c off u = user_fields c next_off (user_field c (unat (ord AND 0x1F)) n (off + 2) u)"
    and "drop next_off c = rest" and "segment (off + 2) n c = xs" and "next_off \<le> length c"
    using st(1) [of u] st(2,3,5) assms(2,4) by simp_all
  show "xs = [b] \<Longrightarrow> c ! (off + 2) = b" using st(6) by blast
qed

lemma packs_step:
  assumes "drop off c = packs_field ord ps @ rest" "n = 2 * length ps" "length ps \<le> 127" "next_off = off + 3 + n"
  shows "user_fields c off u = user_fields c next_off (user_field c (unat (ord AND 0x1F)) (Suc n) (off + 2) u)"
    and "drop next_off c = rest" and "c ! (off + 2) = word_of_nat n" and "n < 255"
    and "extract_packs c (Some (Suc (off + 2))) n 127 = ps"
proof -
  have d: "drop off c = [ord, 1 + word_of_nat n, word_of_nat n] @ concat (map bytes16 ps) @ rest"
    using assms(1) by (simp add: packs_field_def assms(2) mult.commute)
  have n: "n = length (concat (map bytes16 ps))" "n < 255" using assms(2,3) by simp_all
  note st = text_step [OF d n assms(4)]
  show "user_fields c off u = user_fields c next_off (user_field c (unat (ord AND 0x1F)) (Suc n) (off + 2) u)"
    and "drop next_off c = rest" and "c ! (off + 2) = word_of_nat n" and "n < 255"
    using st n by simp_all
  have "segment (Suc (off + 2)) n c = concat (map bytes16 ps)" using st(4) by (simp add: numeral_3_eq_3)
  then show "extract_packs c (Some (Suc (off + 2))) n 127 = ps" using assms(3) by (simp add: extract_packs_def)
qed

lemma acct_bytes_parse:
  assumes "acct_ok a"
  shows "user_acct_of (acct_bytes a) = Some a"
proof -
  define c n r w d where "c = acct_bytes a" and "n = length (uc_name a)" and "r = 2 * length (uc_read a)"
    and "w = 2 * length (uc_write a)" and "d = 2 * length (uc_del a)"
  define o5 where "o5 = 65 + n"
  define o6 where "o6 = o5 + 3 + r"
  define o7 where "o7 = o6 + 3 + w"
  note ok = assms [unfolded acct_ok_def USER_HASH_LEN_def USER_SALT_LEN_def]
  have "n < 255" using ok by (simp add: n_def)
  have d0: "drop 4 c = [0, 1 + word_of_nat n, word_of_nat n] @ uc_name a @ [1, word_of_nat 32] @ uc_hash a @ [2, word_of_nat 16] @ uc_salt a
      @ [3, word_of_nat 1] @ [uc_flags a] @ [4, word_of_nat 1] @ [uc_fails a]
      @ packs_field 5 (uc_read a) @ packs_field 6 (uc_write a) @ packs_field 7 (uc_del a) @ []"
    by (simp add: c_def n_def acct_bytes_def card_header_def USER_HASH_LEN_def USER_SALT_LEN_def)
  note s0 = text_step [OF d0 n_def \<open>n < 255\<close>, of "7 + n"]
  note s1 = blob_step [OF s0(2), of "41 + n"]
  note s2 = blob_step [OF s1(2), of "59 + n"]
  note s3 = blob_step [OF s2(2), of "62 + n"]
  have o5: "o5 = 62 + n + 2 + 1" by (simp add: o5_def)
  note s4 = blob_step [OF s3(2) _ _ o5]
  note s5 = packs_step [OF s4(2) r_def _ o6_def]
  note s6 = packs_step [OF s5(2) w_def _ o7_def]
  note s7 = packs_step [OF s6(2) d_def _ refl]
  note steps = s0 s1 s2 s3 s4 s5 s6 s7
  let ?u = "\<lparr>pu_username = Some 7, pu_ulen = n, pu_hash = Some (9 + n), pu_salt = Some (43 + n), pu_flags = uc_flags a,
      pu_fail_count = uc_fails a, pu_read = Some (Suc (o5 + 2)), pu_read_bytes = r, pu_write = Some (Suc (o6 + 2)), pu_write_bytes = w,
      pu_del = Some (Suc (o7 + 2)), pu_del_bytes = d\<rparr>"
  have c6: "c ! 6 = word_of_nat n" using s0(3) by simp
  have f: "user_fields c 4 no_user = user_fields c (o7 + 3 + d) ?u"
    using ok \<open>n < 255\<close> s3(5) s4(5) s5(3,4) s6(3,4) s7(3,4)
    by (simp add: s0(1) s1(1) s2(1) s3(1) s4(1) s5(1) s6(1) s7(1) c6 user_field_prefixed user_field_plain no_user_def)
  have e: "length c \<le> o7 + 3 + d"
    using ok by (simp add: c_def acct_bytes_def card_header_def o7_def o6_def o5_def n_def r_def w_def d_def)
  have hd: "4 \<le> length c" "c ! 0 = CARD_MAGIC_LO" "c ! 1 = CARD_MAGIC_HI" by (simp_all add: c_def acct_bytes_def card_header_def)
  have "parse_user_card c = Some ?u" using hd f user_fields_end [OF e] by (simp add: parse_user_card_def Let_def)
  moreover have "acct_of c ?u = Some a"
    using ok s0(4,5) s1(3,4) s2(3,4) s5(5) s6(5) s7(5)
    by (simp add: acct_of_def bytes_at_def USER_HASH_LEN_def USER_SALT_LEN_def)
  ultimately show ?thesis by (simp add: user_acct_of_def c_def)
qed

end
