(* ===== verification/UserStore.thy ===== *)
theory UserStore
  imports UserView
begin

text \<open>
  The accounts in the flash store: what a write of a card does to the accounts and to the keys that the search for a name
  walks, and the search itself as the first key whose card answers.
\<close>

unbundle bit_operations_syntax

definition accounts :: "kv_state \<Rightarrow> u32 \<Rightarrow> user_acct option" where
  "accounts kv i = (if i AND 0x3FFFFF \<noteq> i then None else case read_card kv (USER_KEY i) 512 of Found crd \<Rightarrow> user_acct_of crd | _ \<Rightarrow> None)"

subsection \<open>Writing a card\<close>

lemma put_card:
  assumes nor: "nor_flash dev" and inv: "store_inv kv" and v: "kv_small val" and run: "kv_put dev kv key val = (b, kv')"
  shows "store_inv kv'" and "k \<noteq> key \<or> \<not> b \<Longrightarrow> kv_get_copy kv' k out cap = kv_get_copy kv k out cap"
    and "b \<Longrightarrow> read_card kv' key 512 = Found val"
    and "idx_get kv' k \<noteq> None \<longleftrightarrow> idx_get kv k \<noteq> None \<or> b \<and> k = key"
proof -
  obtain r where r: "kv_put_if_version dev kv key val KV_VERSION_ANY = (r, kv')" "b = (r \<noteq> None)"
    using run by (auto simp: kv_put_def split: prod.split_asm)
  note p = put_store [OF nor inv r(1)]
  show "store_inv kv'" by (rule p(1))
  show "k \<noteq> key \<or> \<not> b \<Longrightarrow> kv_get_copy kv' k out cap = kv_get_copy kv k out cap" using p(2) r(2) by blast
  show "read_card kv' key 512 = Found val" if b
  proof -
    from that r(2) obtain ver where "r = Some ver" by auto
    from p(3) [OF this] obtain loc where "idx_get kv' key = Some (loc, ver, 0)"
      "kv_get_copy kv' key True (Some KV_MAX_VALUE) = Found (Some val, length val, ver)"
      using small_fits [OF v] by auto
    then show ?thesis
      using read_record_cap [of "kv_flash kv'" loc key KV_MAX_VALUE val "length val" ver 512] v
      by (simp add: kv_get_copy_def read_card_def kv_small_def)
  qed
  have idx: "idx_inv kv" using inv by (simp add: store_inv_def)
  show "idx_get kv' k \<noteq> None \<longleftrightarrow> idx_get kv k \<noteq> None \<or> b \<and> k = key"
    using put_index(2,3) [OF idx r(1)] r(2) by (cases r) (auto split: if_split_asm)
qed

lemma put_card_other:
  assumes "nor_flash dev" "store_inv kv" "kv_small val" "kv_put dev kv key val = (b, kv')" "k \<noteq> key \<or> \<not> b"
  shows "read_card kv' k cap = read_card kv k cap"
  using put_card(2) [OF assms] by (simp add: read_card_def)

subsection \<open>Keys\<close>

lemma user_key_mask: "k AND 0xFFC00000 = USER_KEY 0 AND 0xFFC00000 \<longleftrightarrow> USER_KEY (k AND 0x3FFFFF) = k" for k :: u32
proof -
  have c: "USER_KEY 0 AND 0xFFC00000 = 0x400000" "push_bit 22 USER_PACK = (0x400000 :: u32)"
    by (simp_all add: USER_KEY_def PACK_KEY_def USER_PACK_def)
  have split: "k = (k AND 0xFFC00000) OR (k AND 0x3FFFFF)" for k :: u32
  proof -
    have "(k AND 0xFFC00000) OR (k AND 0x3FFFFF) = k AND (0xFFC00000 OR 0x3FFFFF)" by (simp only: bit.conj_disj_distrib)
    also have "(0xFFC00000 OR 0x3FFFFF :: u32) = - 1" by simp
    finally show ?thesis by simp
  qed
  have "(0x400000 OR (k AND 0x3FFFFF)) AND 0xFFC00000 = (0x400000 :: u32)"
    by (simp add: bit.conj_disj_distrib2 and.assoc)
  then show ?thesis
    unfolding c(1) using split [of k] by (auto simp: USER_KEY_def PACK_KEY_def c(2) and.assoc)
qed

lemma user_key_id: "USER_KEY i AND 0x3FFFFF = i AND 0x3FFFFF"
  by (simp add: USER_KEY_def PACK_KEY_def USER_PACK_def bit.conj_disj_distrib2 and.assoc)

lemma user_key_eq: "USER_KEY i = USER_KEY j \<longleftrightarrow> i AND 0x3FFFFF = j AND 0x3FFFFF"
  by (metis user_key_id USER_KEY_def PACK_KEY_def)

definition all_user_keys :: "kv_state \<Rightarrow> u32 list" where
  "all_user_keys kv = filter (\<lambda>k. USER_KEY (k AND 0x3FFFFF) = k) (map e_key (g_index kv))"

lemma user_keys_all: "user_keys kv = take 256 (all_user_keys kv)"
  unfolding user_keys_def kv_range_def take_map [symmetric] all_user_keys_def user_key_mask
  by (simp add: take_map [symmetric] filter_map comp_def)

lemma all_user_keys_sorted: "idx_inv kv \<Longrightarrow> sorted_wrt (<) (all_user_keys kv)"
  by (simp add: all_user_keys_def idx_inv_def idx_sorted_def sorted_wrt_filter)

lemma set_all_user_keys:
  assumes "idx_inv kv"
  shows "k \<in> set (all_user_keys kv) \<longleftrightarrow> USER_KEY (k AND 0x3FFFFF) = k \<and> idx_get kv k \<noteq> None"
proof -
  have "idx_get kv k \<noteq> None \<longleftrightarrow> k \<in> set (map e_key (g_index kv))"
    using assms idx_get_map [of kv k] by (auto simp: idx_inv_def idx_map_def map_of_eq_None_iff image_image)
  then show ?thesis by (auto simp: all_user_keys_def)
qed

lemma put_card_keys:
  assumes "nor_flash dev" "store_inv kv" "kv_small val" "kv_put dev kv (USER_KEY i) val = (b, kv')"
  shows "set (all_user_keys kv') = (if b then insert (USER_KEY i) (set (all_user_keys kv)) else set (all_user_keys kv))"
    and "\<not> b \<or> USER_KEY i \<in> set (all_user_keys kv) \<Longrightarrow> all_user_keys kv' = all_user_keys kv"
proof -
  have idx: "idx_inv kv" "idx_inv kv'" using assms(2) put_card(1) [OF assms] by (simp_all add: store_inv_def)
  have "USER_KEY (USER_KEY i AND 0x3FFFFF) = USER_KEY i" by (simp add: user_key_id user_key_eq and.assoc)
  then show eq: "set (all_user_keys kv') = (if b then insert (USER_KEY i) (set (all_user_keys kv)) else set (all_user_keys kv))"
    using put_card(4) [OF assms] by (auto simp: set_all_user_keys idx)
  assume "\<not> b \<or> USER_KEY i \<in> set (all_user_keys kv)"
  with eq have "set (all_user_keys kv') = set (all_user_keys kv)" by auto
  then show "all_user_keys kv' = all_user_keys kv"
    using all_user_keys_sorted idx by (metis strict_sorted_equal)
qed

subsection \<open>Numbers of new users\<close>

lemma user_id_le: "k AND 0x3FFFFF = k \<longleftrightarrow> k \<le> 0x3FFFFF" for k :: u32
proof
  assume "k AND 0x3FFFFF = k"
  then show "k \<le> 0x3FFFFF" by (metis word_and_le1)
next
  assume le: "k \<le> 0x3FFFFF"
  then have "unat k \<le> unat (0x3FFFFF :: u32)" by (simp only: word_le_nat_alt)
  then have "unat (take_bit 22 k) = unat k" by (simp add: unsigned_take_bit_eq take_bit_nat_eq_self)
  then have "take_bit 22 k = k" by (simp only: word_unat_eq_iff)
  moreover have "(0x3FFFFF :: u32) = mask 22" by (simp add: mask_eq_exp_minus_1)
  ultimately show "k AND 0x3FFFFF = k" by (simp only: take_bit_eq_mask)
qed

lemma next_user_id_spec:
  assumes "\<And>k. k \<in> set ks \<Longrightarrow> k AND 0x3FFFFF \<noteq> 0x3FFFFF"
  shows "next_user_id ks \<le> 0x3FFFFF \<and> (\<forall>k \<in> set ks. k AND 0x3FFFFF < next_user_id ks)"
proof -
  have "let r = fold (\<lambda>k n. let i = k AND 0x3FFFFF in if n \<le> i then i + 1 else n) ks n in
      n \<le> r \<and> r \<le> 0x3FFFFF \<and> (\<forall>k \<in> set ks. k AND 0x3FFFFF < r)" if "n \<le> 0x3FFFFF" for n
    using that assms
  proof (induction ks arbitrary: n)
    case (Cons k ks)
    define i where "i = k AND 0x3FFFFF"
    have "i \<le> 0x3FFFFF" "i \<noteq> 0x3FFFFF" using Cons.prems(2) [of k] by (auto simp: i_def word_and_le1)
    then have lt: "i < 0x3FFFFF" by simp
    then have "unat i < 0x3FFFFF" by (simp add: word_less_nat_alt)
    then have u: "unat (i + 1) = unat i + 1" by (simp add: unat_word_ariths)
    have i: "i + 1 \<le> 0x3FFFFF" "i < i + 1" using \<open>unat i < 0x3FFFFF\<close> by (simp_all add: word_le_nat_alt word_less_nat_alt u)
    define n' where "n' = (if n \<le> i then i + 1 else n)"
    have n': "n' \<le> 0x3FFFFF" "n \<le> n'" "i < n'" using i Cons.prems(1) by (auto simp: n'_def)
    have step: "(let i = k AND 0x3FFFFF in if n \<le> i then i + 1 else n) = n'" by (simp add: n'_def i_def Let_def)
    define r where "r = fold (\<lambda>k n. let i = k AND 0x3FFFFF in if n \<le> i then i + 1 else n) ks n'"
    have "n' \<le> r \<and> r \<le> 0x3FFFFF \<and> (\<forall>k \<in> set ks. k AND 0x3FFFFF < r)"
      using Cons.IH [OF n'(1)] Cons.prems(2) by (simp add: r_def Let_def)
    moreover have "fold (\<lambda>k n. let i = k AND 0x3FFFFF in if n \<le> i then i + 1 else n) (k # ks) n = r"
      by (simp only: fold_Cons comp_def step r_def)
    ultimately show ?case using n'(2,3) by (simp only: Let_def set_simps ball_simps i_def [symmetric]) auto
  qed simp
  from this [of 0] show ?thesis by (simp add: next_user_id_def Let_def)
qed
subsection \<open>The search\<close>

definition probe :: "kv_state \<Rightarrow> byte list \<Rightarrow> u32 \<Rightarrow> byte list read_result" where
  "probe kv name k =
     (case read_card kv k 512 of
        Found crd \<Rightarrow>
          (case parse_user_card crd of
             None \<Rightarrow> Miss
           | Some u \<Rightarrow> if pu_ulen u = length name \<and> bytes_at crd (pu_username u) (length name) = Some name then Found crd else Miss)
      | r \<Rightarrow> r)"

lemma find_user_in_Cons:
  "find_user_in kv name (k # ks) =
     (case probe kv name k of Fault \<Rightarrow> Fault | Miss \<Rightarrow> find_user_in kv name ks | Found crd \<Rightarrow> Found (k AND 0x3FFFFF, crd))"
  by (simp add: probe_def split: read_result.split option.split)

lemma find_user_in_Miss: "find_user_in kv name ks = Miss \<longleftrightarrow> (\<forall>k \<in> set ks. probe kv name k = Miss)"
  by (induction ks) (auto simp: find_user_in_Cons simp del: find_user_in.simps(2) split: read_result.split)

lemma find_user_in_Found:
  "find_user_in kv name ks = Found (i, crd) \<Longrightarrow> \<exists>k \<in> set ks. i = k AND 0x3FFFFF \<and> probe kv name k = Found crd"
  by (induction ks) (auto simp: find_user_in_Cons simp del: find_user_in.simps(2) split: read_result.split_asm)

lemma find_user_in_only:
  assumes "key \<in> set ks" "probe kv name key = Found crd" "\<And>k. k \<in> set ks \<Longrightarrow> k \<noteq> key \<Longrightarrow> probe kv name k = Miss"
  shows "find_user_in kv name ks = Found (key AND 0x3FFFFF, crd)"
  using assms
proof (induction ks)
  case (Cons k ks)
  show ?case
  proof (cases "k = key")
    case True
    with Cons.prems(2) show ?thesis by (simp only: find_user_in_Cons read_result.case)
  next
    case False
    with Cons.prems(1,3) have "key \<in> set ks" "probe kv name k = Miss" by auto
    with Cons show ?thesis by (simp add: find_user_in_Cons del: find_user_in.simps(2))
  qed
qed simp

lemma find_user_in_cong: "(\<And>k. k \<in> set ks \<Longrightarrow> probe kv' name k = probe kv name k) \<Longrightarrow> find_user_in kv' name ks = find_user_in kv name ks"
  by (induction ks) (auto simp: find_user_in_Cons simp del: find_user_in.simps(2) split: read_result.split)

lemma probe_Found: "probe kv name k = Found crd \<Longrightarrow> read_card kv k 512 = Found crd
    \<and> (\<exists>u. parse_user_card crd = Some u \<and> pu_ulen u = length name \<and> bytes_at crd (pu_username u) (pu_ulen u) = Some name)"
  by (auto simp: probe_def split: read_result.split_asm option.split_asm if_split_asm)

lemma probe_acct:
  assumes "read_card kv k 512 = Found crd" "user_acct_of crd = Some a"
  shows "probe kv name k = (if uc_name a = name then Found crd else Miss)"
proof -
  from assms(2) obtain u where u: "parse_user_card crd = Some u" "acct_of crd u = Some a"
    by (auto simp: user_acct_of_def bind_Some_iff)
  then have "bytes_at crd (pu_username u) (pu_ulen u) = Some (uc_name a)"
    by (auto simp: acct_of_def split: option.split_asm)
  moreover from this have "length (uc_name a) = pu_ulen u" by (rule length_bytes_at)
  ultimately have "pu_ulen u = length name \<and> bytes_at crd (pu_username u) (length name) = Some name \<longleftrightarrow> uc_name a = name"
    by (metis option.inject)
  with assms(1) u(1) show ?thesis by (simp add: probe_def)
qed

lemma find_user_found:
  assumes "idx_inv kv" "find_user_by_name kv name = Found (i, crd)"
  shows "read_card kv (USER_KEY i) 512 = Found crd" and "probe kv name (USER_KEY i) = Found crd"
    and "USER_KEY i \<in> set (all_user_keys kv)" and "i AND 0x3FFFFF = i"
proof -
  from find_user_in_Found [OF assms(2) [unfolded find_user_by_name_def]]
  obtain k where k: "k \<in> set (user_keys kv)" "i = k AND 0x3FFFFF" "probe kv name k = Found crd" by blast
  then have "k \<in> set (all_user_keys kv)" by (auto simp: user_keys_all dest: in_set_takeD)
  moreover from this have "USER_KEY i = k" using k(2) by (simp add: set_all_user_keys [OF assms(1)])
  ultimately show "read_card kv (USER_KEY i) 512 = Found crd" "probe kv name (USER_KEY i) = Found crd" "USER_KEY i \<in> set (all_user_keys kv)"
    using k(3) probe_Found by auto
  show "i AND 0x3FFFFF = i" by (simp add: k(2) and.assoc)
qed

subsection \<open>Accounts after a write\<close>

lemma put_card_accounts:
  assumes "nor_flash dev" "store_inv kv" "kv_small val" "kv_put dev kv (USER_KEY i) val = (b, kv')" "i AND 0x3FFFFF = i"
  shows "accounts kv' = (if b then (accounts kv)(i := user_acct_of val) else accounts kv)"
proof
  fix j
  show "accounts kv' j = (if b then (accounts kv)(i := user_acct_of val) else accounts kv) j"
  proof (cases "j AND 0x3FFFFF = j \<and> (b \<longrightarrow> j \<noteq> i)")
    case True
    then have "USER_KEY j \<noteq> USER_KEY i \<or> \<not> b" using assms(5) by (auto simp: user_key_eq)
    from put_card_other [OF assms(1-4) this] True show ?thesis by (simp add: accounts_def)
  next
    case False
    show ?thesis
    proof (cases "j AND 0x3FFFFF = j")
      case True
      with False have "b" "j = i" by auto
      with put_card(3) [OF assms(1-4)] assms(5) show ?thesis by (simp add: accounts_def)
    next
      case nj: False
      with assms(5) have "j \<noteq> i" by blast
      with nj show ?thesis by (simp add: accounts_def)
    qed
  qed
qed

lemma put_card_probe:
  assumes "nor_flash dev" "store_inv kv" "kv_small val" "kv_put dev kv key val = (b, kv')" "k \<noteq> key \<or> \<not> b"
  shows "probe kv' name k = probe kv name k"
  using put_card_other [OF assms] by (simp add: probe_def)

text \<open>Rewriting the card of a user, under the same name.\<close>

lemma put_card_same_user:
  assumes put: "nor_flash dev" "store_inv kv" "kv_small val" "kv_put dev kv (USER_KEY i) val = (b, kv')"
    and find: "find_user_by_name kv name = Found (i, crd)" and a: "user_acct_of val = Some a" "uc_name a = name"
  shows "find_user_by_name kv' name = Found (i, if b then val else crd)"
proof -
  have idx: "idx_inv kv" using put(2) by (simp add: store_inv_def)
  note f = find_user_found [OF idx find]
  have keys: "user_keys kv' = user_keys kv" using put_card_keys(2) [OF put] f(3) by (simp add: user_keys_all)
  show ?thesis
  proof (cases b)
    case False
    then show ?thesis using find find_user_in_cong [of "user_keys kv" kv' name kv] put_card_probe [OF put]
      by (simp add: find_user_by_name_def keys)
  next
    case True
    have p: "probe kv' name (USER_KEY i) = Found val" using probe_acct [OF put_card(3) [OF put True] a(1)] a(2) by simp
    have "find_user_in kv' name ks = Found (i, val)" if "find_user_in kv name ks = Found (i, crd)" "set ks \<subseteq> set (all_user_keys kv)" for ks
      using that
    proof (induction ks)
      case (Cons k ks)
      show ?case
      proof (cases "k = USER_KEY i")
        case True
        with p f(4) show ?thesis by (simp add: find_user_in_Cons user_key_id del: find_user_in.simps(2))
      next
        case False
        have "k AND 0x3FFFFF \<noteq> i" using Cons.prems(2) False by (auto simp: set_all_user_keys [OF idx])
        with Cons put_card_probe [OF put, of k name] False show ?thesis
          by (auto simp: find_user_in_Cons simp del: find_user_in.simps(2) split: read_result.split_asm)
      qed
    qed simp
    moreover have "set (user_keys kv) \<subseteq> set (all_user_keys kv)" by (simp add: user_keys_all set_take_subset)
    ultimately show ?thesis using find True by (simp add: find_user_by_name_def keys)
  qed
qed

lemma build_acct_small: "build_acct 256 a = Some crd \<Longrightarrow> kv_small crd"
  unfolding build_acct_def build_user_card_def bind_Some_iff card_put_Some
  by (auto simp: kv_small_def)

end
