(* ===== verification/UserCookie.thy ===== *)
theory UserCookie
  imports UserAuth
begin

text \<open>
  The session cookie of \<open>src/user_auth.c\<close>: a token as 32 hexadecimal digits, and the search for it in the headers
  of a request. A string is its characters without the final zero; a pointer into it is an offset.
\<close>

unbundle bit_operations_syntax

text \<open>\<open>strstr\<close>, as the offset of the first occurrence at or behind an offset.\<close>

fun starts_with :: "byte list \<Rightarrow> byte list \<Rightarrow> bool" where
  "starts_with xs [] = True"
| "starts_with [] (y # ys) = False"
| "starts_with (x # xs) (y # ys) = (x = y \<and> starts_with xs ys)"

fun find_text :: "byte list \<Rightarrow> byte list \<Rightarrow> nat option" where
  "find_text pat [] = (if pat = [] then Some 0 else None)"
| "find_text pat (x # xs) = (if starts_with (x # xs) pat then Some 0 else map_option Suc (find_text pat xs))"

definition strstr :: "byte list \<Rightarrow> nat \<Rightarrow> byte list \<Rightarrow> nat option" where
  "strstr xs off pat = map_option (\<lambda>i. off + i) (find_text pat (drop off xs))"

lemma find_text_bound: "find_text pat xs = Some i \<Longrightarrow> i + length pat \<le> length xs"
proof (induction pat xs arbitrary: i rule: find_text.induct)
  case (2 pat x xs)
  have "starts_with ys zs \<Longrightarrow> length zs \<le> length ys" for ys zs :: "byte list"
    by (induction ys zs rule: starts_with.induct) auto
  with 2 show ?case by (fastforce split: if_splits)
qed (auto split: if_splits)

lemma strstr_bound: "strstr xs off pat = Some i \<Longrightarrow> pat \<noteq> [] \<Longrightarrow> off \<le> i \<and> i + length pat \<le> length xs"
  by (auto simp: strstr_def dest!: find_text_bound) (cases pat; simp)

text \<open>The loop over the occurrences of \<open>sid=\<close>: one that is not a cookie's name of its own is skipped.\<close>

function find_sid :: "byte list \<Rightarrow> nat \<Rightarrow> nat \<Rightarrow> nat option" where
  "find_sid hs start sid =
     (case strstr hs sid (cstr ''sid='') of
        None \<Rightarrow> None
      | Some i \<Rightarrow>
          if i = start \<or> hs ! (i - 1) = 0x3B \<or> hs ! (i - 1) = 0x20 \<or> hs ! (i - 1) = 0x09 then Some i
          else find_sid hs start (i + 4))"
  by pat_completeness auto
termination
  by (relation "measure (\<lambda>(hs, start, sid). length hs - sid)") (auto dest!: strstr_bound simp: cstr_def)

declare find_sid.simps [simp del]

text \<open>Pairs of digits as bytes, \<open>n\<close> of them.\<close>

fun hex_decode :: "nat \<Rightarrow> byte list \<Rightarrow> byte list option" where
  "hex_decode 0 cs = Some []"
| "hex_decode (Suc n) (hi # lo # cs) =
     (case hex_decode_byte hi lo of None \<Rightarrow> None | Some b \<Rightarrow> map_option (\<lambda>bs. b # bs) (hex_decode n cs))"
| "hex_decode (Suc n) cs = None"

definition user_auth_parse_cookie :: "byte list \<Rightarrow> byte list option" where
  "user_auth_parse_cookie headers =
     (let p = (case strstr headers 0 (cstr ''Cookie:'') of Some i \<Rightarrow> Some i | None \<Rightarrow> strstr headers 0 (cstr ''cookie:'')) in
      case p of
        None \<Rightarrow> None
      | Some i \<Rightarrow>
          (case find_sid headers (i + 7) (i + 7) of
             None \<Rightarrow> None
           | Some j \<Rightarrow>
               let sid = drop (j + 4) headers in
               if length sid < SESSION_TOKEN_LEN * 2 then None else hex_decode SESSION_TOKEN_LEN sid))"

definition hex_char :: "byte \<Rightarrow> byte" where
  "hex_char d = cstr ''0123456789abcdef'' ! unat d"

text \<open>The final zero is left out.\<close>

definition user_auth_format_token :: "byte list \<Rightarrow> byte list" where
  "user_auth_format_token token =
     concat (map (\<lambda>i. [hex_char (drop_bit 4 (token ! i)), hex_char (token ! i AND 0x0F)]) [0..<SESSION_TOKEN_LEN])"

subsection \<open>A token in a header\<close>

lemma hex_digit_char:
  assumes "d < 16"
  shows "hex_digit (hex_char d) = Some d"
proof -
  have "\<forall>n \<in> set [0..<16]. hex_digit (hex_char (word_of_nat n)) = Some (word_of_nat n)"
    by (simp add: upt_rec hex_char_def hex_digit_def cstr_def)
  moreover from assms have "unat d \<in> set [0..<16]" by (simp add: word_less_nat_alt)
  ultimately have "hex_digit (hex_char (word_of_nat (unat d))) = Some (word_of_nat (unat d))" by blast
  then show ?thesis by simp
qed

lemma hex_byte_char: "hex_decode_byte (hex_char (drop_bit 4 b)) (hex_char (b AND 0x0F)) = Some b"
proof -
  have "b AND 0x0F \<le> 15" by (rule word_and_le1)
  then have lo: "b AND 0x0F < 16" by (simp add: order_le_less_trans)
  have "unat b < 256" using unsigned_less [of b] by simp
  then have hi: "drop_bit 4 b < 16" by (simp add: word_less_nat_alt drop_bit_eq_div unat_div)
  have m: "(0x0F :: byte) = mask 4" by (simp add: mask_eq_exp_minus_1)
  have "push_bit 4 (drop_bit 4 b) OR (b AND 0x0F) = b"
    unfolding m take_bit_eq_mask [symmetric] by (rule bit_word_eqI) (auto simp: bit_simps)
  with hex_digit_char [OF lo] hex_digit_char [OF hi] show ?thesis by (simp add: hex_decode_byte_def)
qed

lemma hex_decode_chars:
  "hex_decode (length bs) (concat (map (\<lambda>b. [hex_char (drop_bit 4 b), hex_char (b AND 0x0F)]) bs) @ cs) = Some bs"
  by (induction bs) (simp_all add: hex_byte_char)

lemma format_token_map: "length token = SESSION_TOKEN_LEN \<Longrightarrow>
    user_auth_format_token token = concat (map (\<lambda>b. [hex_char (drop_bit 4 b), hex_char (b AND 0x0F)]) token)"
  unfolding user_auth_format_token_def by (metis (no_types, lifting) map_map map_nth comp_def map_eq_conv)

lemma length_format_token: "length (user_auth_format_token token) = 2 * SESSION_TOKEN_LEN"
proof -
  have "length (concat (map (\<lambda>i. [f i, g i]) is)) = 2 * length is" for f g :: "nat \<Rightarrow> byte" and "is" by (induction "is") auto
  then show ?thesis by (simp add: user_auth_format_token_def)
qed

text \<open>
  C34: the cookie carries the token. From headers whose first \<open>Cookie:\<close> is followed by a first \<open>sid=\<close> at its beginning or behind a
  semicolon, a space or a tab, and then by the token as \<open>user_auth_format_token\<close> writes it, \<open>user_auth_parse_cookie\<close> reads
  exactly the token, whatever comes before and after.
\<close>

theorem user_cookie_roundtrip:
  assumes "length token = SESSION_TOKEN_LEN"
    and "hs = pre @ cstr ''Cookie:'' @ mid @ cstr ''sid='' @ user_auth_format_token token @ rest"
    and "strstr hs 0 (cstr ''Cookie:'') = Some (length pre)" "strstr hs (length pre + 7) (cstr ''sid='') = Some (length pre + 7 + length mid)"
    and "mid = [] \<or> last mid \<in> {0x3B, 0x20, 0x09}"
  shows "user_auth_parse_cookie hs = Some token"
proof -
  define start where "start = length pre + 7"
  define i where "i = start + length mid"
  have l7: "length (cstr ''Cookie:'') = 7" "length (cstr ''sid='') = 4" by (simp_all add: cstr_def)
  have "i = start \<or> hs ! (i - 1) = 0x3B \<or> hs ! (i - 1) = 0x20 \<or> hs ! (i - 1) = 0x09"
  proof (cases "mid = []")
    case False
    then have "hs ! (i - 1) = (pre @ cstr ''Cookie:'' @ mid) ! (i - 1)"
      unfolding assms(2) using l7 by (simp add: i_def start_def nth_append)
    also have "\<dots> = last mid" using False l7 by (simp add: i_def start_def nth_append last_conv_nth)
    finally show ?thesis using assms(5) False by auto
  qed (simp add: i_def)
  then have sid: "find_sid hs start start = Some i"
    using assms(4) by (subst find_sid.simps) (simp add: start_def [symmetric] i_def [symmetric])
  have "hs = (pre @ cstr ''Cookie:'' @ mid @ cstr ''sid='') @ user_auth_format_token token @ rest" by (simp add: assms(2))
  moreover have "length (pre @ cstr ''Cookie:'' @ mid @ cstr ''sid='') = i + 4" using l7 by (simp add: i_def start_def)
  ultimately have d: "drop (i + 4) hs = user_auth_format_token token @ rest" by (metis append_eq_conv_conj)
  have "hex_decode SESSION_TOKEN_LEN (user_auth_format_token token @ rest) = Some token"
    using hex_decode_chars [of token rest] assms(1) by (simp add: format_token_map)
  then show ?thesis
    using assms(3) sid d by (simp add: user_auth_parse_cookie_def start_def length_format_token)
qed

theorem user_cookie_roundtrip_witness:
  "user_auth_parse_cookie (cstr ''Host: x '' @ cstr ''Cookie:'' @ cstr '' a=1; '' @ cstr ''sid='' @ user_auth_format_token (replicate 16 0xAB) @ [0x0D])
     = Some (replicate 16 0xAB)"
proof -
  let ?hs = "cstr ''Host: x '' @ cstr ''Cookie:'' @ cstr '' a=1; '' @ cstr ''sid='' @ user_auth_format_token (replicate 16 0xAB) @ [0x0D]"
  have c: "strstr ?hs 0 (cstr ''Cookie:'') = Some 8" "strstr ?hs 15 (cstr ''sid='') = Some 21"
    by (simp_all add: strstr_def cstr_def)
  show ?thesis
    by (rule user_cookie_roundtrip [where pre = "cstr ''Host: x ''" and mid = "cstr '' a=1; ''" and rest = "[0x0D]"])
      (use c in \<open>simp_all add: SESSION_TOKEN_LEN_def, simp_all add: cstr_def\<close>)
qed

end
