(* ===== verification/UserSeed.thy ===== *)
theory UserSeed
  imports UserAuth
begin

text \<open>
  What \<open>src/user_auth.c\<close> writes at the start: the schema of the users, the reference packs of days, countries and
  currencies where they are missing, and the first administrator.
\<close>

unbundle bit_operations_syntax

definition FT_UINT8 :: byte where "FT_UINT8 = 0x01"
definition FT_UTF8 :: byte where "FT_UTF8 = 0x09"
definition FT_ARRAY_U16 :: byte where "FT_ARRAY_U16 = 0x10"
definition FT_BLOB :: byte where "FT_BLOB = 0x11"

definition put_schema :: "flash_dev \<Rightarrow> kv_state \<Rightarrow> u16 \<Rightarrow> byte list option \<Rightarrow> bool \<times> kv_state" where
  "put_schema dev kv pack_ord c = (case c of None \<Rightarrow> (False, kv) | Some crd \<Rightarrow> kv_put dev kv (SCHEMA_KEY (ucast pack_ord)) crd)"

definition seed_schema :: "flash_dev \<Rightarrow> kv_state \<Rightarrow> u16 \<Rightarrow> byte list \<Rightarrow> schema_field_t list \<Rightarrow> bool \<times> kv_state" where
  "seed_schema dev kv pack_ord pack_name flds = put_schema dev kv pack_ord (build_schema_card 256 pack_name flds)"

definition seed_schema_public :: "flash_dev \<Rightarrow> kv_state \<Rightarrow> u16 \<Rightarrow> byte list \<Rightarrow> schema_field_t list \<Rightarrow> bool \<times> kv_state" where
  "seed_schema_public dev kv pack_ord pack_name flds =
     put_schema dev kv pack_ord (build_schema_card_full 256 pack_name flds SCHEMA_FLAG_PUBLIC_READ (Some (cstr ''Reference'')))"

definition user_auth_seed_schema :: "flash_dev \<Rightarrow> kv_state \<Rightarrow> u16 \<Rightarrow> byte list \<Rightarrow> schema_field_t list \<Rightarrow> bool \<times> kv_state" where
  "user_auth_seed_schema dev kv pack_ord pack_name flds = seed_schema dev kv pack_ord pack_name flds"

definition user_auth_seed_schema_module ::
  "flash_dev \<Rightarrow> kv_state \<Rightarrow> u16 \<Rightarrow> byte list \<Rightarrow> schema_field_t list \<Rightarrow> byte list option \<Rightarrow> bool \<times> kv_state" where
  "user_auth_seed_schema_module dev kv pack_ord pack_name flds modname =
     put_schema dev kv pack_ord (build_schema_card_full 256 pack_name flds 0 modname)"

subsection \<open>The tables\<close>

definition schema_of :: "(byte \<times> byte \<times> byte \<times> string) list \<Rightarrow> schema_field_t list" where
  "schema_of = map (\<lambda>(ord, t, n, name). \<lparr>sf_ord = ord, sf_type = t, sf_maxlen = n, sf_name = cstr name\<rparr>)"

definition init_user_fields :: "schema_field_t list" where
  "init_user_fields = schema_of
     [(0, FT_UTF8, 31, ''username''), (1, FT_BLOB, 32, ''password_hash''), (2, FT_BLOB, 16, ''salt''), (3, FT_UINT8, 1, ''flags''),
      (4, FT_UINT8, 1, ''fail_count''), (5, FT_ARRAY_U16, 40, ''readPacks''), (6, FT_ARRAY_U16, 40, ''writePacks''),
      (7, FT_ARRAY_U16, 40, ''deletePacks'')]"

definition days_fields :: "schema_field_t list" where
  "days_fields = schema_of [(0, FT_UTF8, 12, ''name''), (1, FT_UTF8, 3, ''abbr'')]"

definition days_cards :: "(string \<times> string) list" where
  "days_cards = zip [''Monday'', ''Tuesday'', ''Wednesday'', ''Thursday'', ''Friday'', ''Saturday'', ''Sunday'']
     [''Mon'', ''Tue'', ''Wed'', ''Thu'', ''Fri'', ''Sat'', ''Sun'']"

definition countries_fields :: "schema_field_t list" where
  "countries_fields = schema_of [(0, FT_UTF8, 48, ''name''), (1, FT_UTF8, 2, ''code'')]"

definition countries_cards :: "(string \<times> string) list" where
  "countries_cards = zip [''United Kingdom'', ''United States'', ''Germany'', ''France'', ''Japan'', ''Canada'', ''Australia'',
       ''Italy'', ''Spain'', ''Netherlands'', ''Switzerland'', ''Sweden'']
     [''GB'', ''US'', ''DE'', ''FR'', ''JP'', ''CA'', ''AU'', ''IT'', ''ES'', ''NL'', ''CH'', ''SE'']"

definition currencies_fields :: "schema_field_t list" where
  "currencies_fields = schema_of [(0, FT_UTF8, 32, ''name''), (1, FT_UTF8, 3, ''code'')]"

definition currencies_cards :: "(string \<times> string) list" where
  "currencies_cards = zip [''British Pound'', ''US Dollar'', ''Euro'', ''Japanese Yen'', ''Swiss Franc'', ''Canadian Dollar'',
       ''Australian Dollar'', ''Chinese Yuan'', ''Indian Rupee'', ''Brazilian Real'', ''South Korean Won'', ''Swedish Krona'',
       ''Norwegian Krone'', ''Danish Krone'', ''Singapore Dollar'']
     [''GBP'', ''USD'', ''EUR'', ''JPY'', ''CHF'', ''CAD'', ''AUD'', ''CNY'', ''INR'', ''BRL'', ''KRW'', ''SEK'', ''NOK'', ''DKK'', ''SGD'']"

text \<open>The card of a pair of texts, as the body of the three seeding loops writes it.\<close>

definition text_field :: "byte \<Rightarrow> byte list \<Rightarrow> byte list" where
  "text_field ord xs = [ord, 1 + word_of_nat (length xs), word_of_nat (length xs)] @ xs"

definition ref_card :: "string \<Rightarrow> string \<Rightarrow> byte list" where
  "ref_card name code = card_header @ text_field 0 (cstr name) @ text_field 1 (cstr code)"

fun seed_cards :: "flash_dev \<Rightarrow> u32 \<Rightarrow> u32 \<Rightarrow> (string \<times> string) list \<Rightarrow> kv_state \<Rightarrow> kv_state" where
  "seed_cards dev pack i [] kv = kv"
| "seed_cards dev pack i ((name, code) # cs) kv =
     seed_cards dev pack (i + 1) cs (snd (kv_put dev kv (PACK_KEY pack i) (ref_card name code)))"

definition seed_reference ::
  "flash_dev \<Rightarrow> u16 \<Rightarrow> string \<Rightarrow> schema_field_t list \<Rightarrow> (string \<times> string) list \<Rightarrow> kv_state \<Rightarrow> kv_state" where
  "seed_reference dev pack pack_name flds cs kv =
     (if kv_exists kv (SCHEMA_KEY (ucast pack)) then kv
      else seed_cards dev (ucast pack) 0 cs (snd (seed_schema_public dev kv pack (cstr pack_name) flds)))"

definition seed_packs :: "flash_dev \<Rightarrow> kv_state \<Rightarrow> kv_state" where
  "seed_packs dev kv =
     (let kv1 = snd (seed_schema dev kv (ucast USER_PACK) (cstr ''users'') init_user_fields);
          kv2 = seed_reference dev 2 ''days'' days_fields days_cards kv1;
          kv3 = seed_reference dev 3 ''countries'' countries_fields countries_cards kv2 in
      seed_reference dev 4 ''currencies'' currencies_fields currencies_cards kv3)"

definition no_session :: session_slot_t where
  "no_session = \<lparr>ss_token = replicate SESSION_TOKEN_LEN 0, ss_user_card = 0, ss_created_ms = 0, ss_last_ms = 0, ss_active = False\<rparr>"

definition user_auth_init :: "auth_env \<Rightarrow> auth_state \<Rightarrow> auth_state option" where
  "user_auth_init en s =
     (let s1 = s\<lparr>g_sessions := replicate SESSION_MAX no_session, au_kv := seed_packs (en_dev en) (au_kv s)\<rparr> in
      case kv_get_copy (au_kv s1) (USER_KEY 0) True (Some 512) of
        Fault \<Rightarrow> None
      | Found _ \<Rightarrow> Some s1
      | Miss \<Rightarrow>
          let (salt, s2) = gen_random en s1 USER_SALT_LEN; hash = sha256_hash en salt (cstr ''admin'');
              crd = build_user_card 256 (cstr ''admin'') hash salt (USER_FLAG_ADMIN OR USER_FLAG_MUST_CHANGE) 0 [0xFFFF] [0xFFFF] [0xFFFF] in
          Some (store_card en s2 (USER_KEY 0) crd))"

end
