(* ===== verification/UserLaws.thy ===== *)
theory UserLaws
  imports UserStore UserCookie UserSeed
begin

text \<open>
  What the module promises, over the accounts in the store: cards are read as they were built, only the right password
  opens a session, and failures are counted and lock the account.
\<close>

unbundle bit_operations_syntax

subsection \<open>Passwords\<close>

text \<open>What SHA-256 promises of its result: its length.\<close>

definition sha_ok :: "auth_env \<Rightarrow> bool" where
  "sha_ok en \<longleftrightarrow> (\<forall>xs. length (en_sha en xs) = USER_HASH_LEN)"

definition password_ok :: "auth_env \<Rightarrow> user_acct \<Rightarrow> byte list \<Rightarrow> bool" where
  "password_ok en a pass \<longleftrightarrow> en_sha en (uc_salt a @ pass) = uc_hash a"

lemma bytes_diff_zero: "bytes_diff n xs ys = 0 \<longleftrightarrow> (\<forall>i < n. xs ! i = ys ! i)"
  by (auto simp: bytes_diff_def fold_diff)

lemma hash_diff_zero:
  assumes "sha_ok en" "length hash = USER_HASH_LEN"
  shows "bytes_diff USER_HASH_LEN (sha256_hash en salt pass) hash = 0 \<longleftrightarrow> en_sha en (salt @ pass) = hash"
  using assms by (auto simp: bytes_diff_zero sha_ok_def sha256_hash_def intro: nth_equalityI)

subsection \<open>Login over accounts\<close>

lemma acct_of_Some:
  assumes "parse_user_card crd = Some u" "user_acct_of crd = Some a"
  shows "bytes_at crd (pu_username u) (pu_ulen u) = Some (uc_name a)" "bytes_at crd (pu_hash u) USER_HASH_LEN = Some (uc_hash a)"
    "bytes_at crd (pu_salt u) USER_SALT_LEN = Some (uc_salt a)" "pu_flags u = uc_flags a" "pu_fail_count u = uc_fails a"
    "extract_packs crd (pu_read u) (pu_read_bytes u) 127 = uc_read a" "extract_packs crd (pu_write u) (pu_write_bytes u) 127 = uc_write a"
    "extract_packs crd (pu_del u) (pu_del_bytes u) 127 = uc_del a"
    "length (uc_hash a) = USER_HASH_LEN" "length (uc_salt a) = USER_SALT_LEN"
  using assms by (auto simp: user_acct_of_def acct_of_def split: option.split_asm dest: length_bytes_at)

lemma rebuild_acct:
  assumes "parse_user_card crd = Some u" "user_acct_of crd = Some a"
  shows "rebuild_card crd u flags fails = Some (build_acct 256 (a\<lparr>uc_flags := flags, uc_fails := fails\<rparr>))"
  using acct_of_Some [OF assms] by (simp add: rebuild_card_def build_acct_def)

text \<open>The attempt as the account sees it.\<close>

definition failed_acct :: "user_acct \<Rightarrow> user_acct" where
  "failed_acct a = a\<lparr>uc_flags := (if 10 \<le> uc_fails a + 1 then uc_flags a OR USER_FLAG_LOCKED else uc_flags a), uc_fails := uc_fails a + 1\<rparr>"

lemma login_unfold:
  assumes en: "sha_ok en" and nm: "0 < length name" "length name \<le> USER_MAX_NAME" and ps: "0 < length pass" "length pass \<le> USER_MAX_PASS"
    and find: "find_user_by_name (au_kv s) name = Found (i, crd)" and a: "user_acct_of crd = Some a"
  shows "user_auth_login en s name pass =
    (if uc_flags a AND USER_FLAG_LOCKED \<noteq> 0 then Some (None, s)
     else if \<not> password_ok en a pass then Some (None, store_card en s (USER_KEY i) (build_acct 256 (failed_acct a)))
     else
       let s1 = (if 0 < uc_fails a then store_card en s (USER_KEY i) (build_acct 256 (a\<lparr>uc_fails := 0\<rparr>)) else s) in
       case new_session en s1 i of (token, s2) \<Rightarrow> Some (Some (i, token), s2))"
proof -
  from a obtain u where u: "parse_user_card crd = Some u" by (auto simp: user_acct_of_def bind_Some_iff)
  note f = acct_of_Some [OF u a]
  have fl: "a\<lparr>uc_flags := uc_flags a, uc_fails := n\<rparr> = a\<lparr>uc_fails := n\<rparr>" for n by simp
  show ?thesis
    using nm ps f(9)
    by (simp add: user_auth_login_def find u f rebuild_acct [OF u a] hash_diff_zero [OF en f(9)] password_ok_def failed_acct_def Let_def)
qed

lemma login_found:
  assumes "store_inv (au_kv s)" "find_user_by_name (au_kv s) name = Found (i, crd)" "user_acct_of crd = Some a"
  shows "accounts (au_kv s) i = Some a" and "uc_name a = name" and "i AND 0x3FFFFF = i"
proof -
  have idx: "idx_inv (au_kv s)" using assms(1) by (simp add: store_inv_def)
  note f = find_user_found [OF idx assms(2)]
  show "i AND 0x3FFFFF = i" by (rule f(4))
  show "accounts (au_kv s) i = Some a" using f(1,4) assms(3) by (simp add: accounts_def)
  show "uc_name a = name" using f(2) probe_acct [OF f(1) assms(3), of name] by (auto split: if_split_asm)
qed

text \<open>Whatever is stored over the card of a user, the other parts of the state stay.\<close>

lemma store_card_rest:
  "g_sessions (store_card en s key c) = g_sessions s" "au_rands (store_card en s key c) = au_rands s"
  "au_clocks (store_card en s key c) = au_clocks s"
  by (simp_all add: store_card_def split: option.split)

lemma store_acct:
  assumes "nor_flash (en_dev en)" "store_inv (au_kv s)" "acct_ok a" "length (acct_bytes a) \<le> 256" "i AND 0x3FFFFF = i"
  defines "s' \<equiv> store_card en s (USER_KEY i) (build_acct 256 a)" and "ok \<equiv> fst (kv_put (en_dev en) (au_kv s) (USER_KEY i) (acct_bytes a))"
  shows "store_inv (au_kv s')" and "accounts (au_kv s') = (if ok then (accounts (au_kv s))(i \<mapsto> a) else accounts (au_kv s))"
    and "find_user_by_name (au_kv s) (uc_name a) = Found (i, crd) \<Longrightarrow>
      find_user_by_name (au_kv s') (uc_name a) = Found (i, if ok then acct_bytes a else crd)"
proof -
  obtain b kv' where p: "kv_put (en_dev en) (au_kv s) (USER_KEY i) (acct_bytes a) = (b, kv')" by (metis prod.exhaust)
  have b: "build_acct 256 a = Some (acct_bytes a)" using build_acct_bytes [OF assms(3)] assms(4) by simp
  have s': "au_kv s' = kv'" "ok = b" using p b by (simp_all add: s'_def ok_def store_card_def)
  have sm: "kv_small (acct_bytes a)" by (rule build_acct_small [OF b])
  note pr = acct_bytes_parse [OF assms(3)]
  show "store_inv (au_kv s')" using put_card(1) [OF assms(1,2) sm p] s' by simp
  show "accounts (au_kv s') = (if ok then (accounts (au_kv s))(i \<mapsto> a) else accounts (au_kv s))"
    using put_card_accounts [OF assms(1,2) sm p assms(5)] pr s' by simp
  show "find_user_by_name (au_kv s) (uc_name a) = Found (i, crd) \<Longrightarrow>
      find_user_by_name (au_kv s') (uc_name a) = Found (i, if ok then acct_bytes a else crd)"
    using put_card_same_user [OF assms(1,2) sm p _ pr refl] s' by simp
qed

lemma login_Some:
  assumes "store_inv (au_kv s)" "user_auth_login en s name pass = Some (Some r, s')"
  obtains i crd a where "0 < length name" "length name \<le> USER_MAX_NAME" "0 < length pass" "length pass \<le> USER_MAX_PASS"
    "find_user_by_name (au_kv s) name = Found (i, crd)" "user_acct_of crd = Some a"
proof -
  have len: "0 < length name" "length name \<le> USER_MAX_NAME" "0 < length pass" "length pass \<le> USER_MAX_PASS"
    using assms(2) by (auto simp: user_auth_login_def split: if_split_asm)
  note run = assms(2) [unfolded user_auth_login_def]
  obtain i crd where find: "find_user_by_name (au_kv s) name = Found (i, crd)"
    using run len by (cases "find_user_by_name (au_kv s) name") auto
  have idx: "idx_inv (au_kv s)" using assms(1) by (simp add: store_inv_def)
  from probe_Found [OF find_user_found(2) [OF idx find]] obtain u where
    u: "parse_user_card crd = Some u" "bytes_at crd (pu_username u) (pu_ulen u) = Some name" by blast
  have nl: "\<not> (length name = 0 \<or> USER_MAX_NAME < length name)" "\<not> (length pass = 0 \<or> USER_MAX_PASS < length pass)" using len by auto
  have "bytes_at crd (pu_salt u) USER_SALT_LEN \<noteq> None" "bytes_at crd (pu_hash u) USER_HASH_LEN \<noteq> None"
    using run unfolding if_not_P [OF nl(1)] if_not_P [OF nl(2)] find
    by (auto simp: u(1) split: if_split_asm option.split_asm)
  then obtain a where "user_acct_of crd = Some a" using u by (auto simp: user_acct_of_def acct_of_def)
  with that len find show thesis by blast
qed

lemma gen_random_length: "length (fst (gen_random en s n)) = n"
proof -
  have "length (concat (map (\<lambda>i. bytes32 (f i)) is)) = 4 * length is" for f :: "nat \<Rightarrow> u32" and "is"
    by (induction "is") simp_all
  then show ?thesis by (simp add: gen_random_def Let_def)
qed

lemma pick_slot_bound: "best < i + length xs \<Longrightarrow> pick_slot xs i t best < i + length xs"
  by (induction xs i t best rule: pick_slot.induct) auto

text \<open>What opening a session changes.\<close>

lemma new_session_spec:
  assumes "new_session en s i = (token, s')" "length (g_sessions s) = SESSION_MAX"
  obtains k x where "k < SESSION_MAX" "g_sessions s' = (g_sessions s)[k := x]" "ss_active x" "ss_user_card x = i" "ss_token x = token"
    "length token = SESSION_TOKEN_LEN" "au_kv s' = au_kv s" "ss_last_ms x = en_clock en (au_clocks s + 1)" "au_clocks s' = au_clocks s + 2"
proof -
  define k where "k = pick_slot (g_sessions s) 0 0xFFFFFFFF 0"
  have "k < SESSION_MAX" using pick_slot_bound [of 0 0 "g_sessions s"] assms(2) by (simp add: k_def SESSION_MAX_def)
  moreover have "length token = SESSION_TOKEN_LEN"
    using assms(1) gen_random_length [of en s SESSION_TOKEN_LEN] by (auto simp: new_session_def Let_def split: prod.split_asm)
  ultimately show thesis
    using assms(1) that [of k] by (auto simp: new_session_def Let_def now_ms_def gen_random_def k_def)
qed

text \<open>What is read from a card fits into one again.\<close>

lemma user_acct_ok:
  assumes "user_acct_of crd = Some a" "length (uc_name a) \<le> USER_MAX_NAME"
  shows "acct_ok a"
proof -
  from assms(1) obtain u where u: "parse_user_card crd = Some u" by (auto simp: user_acct_of_def bind_Some_iff)
  have "length (extract_packs crd p n 127) \<le> 127" for p n by (simp add: extract_packs_def split: option.split)
  with acct_of_Some [OF u assms(1)] have "length (uc_read a) \<le> 127" "length (uc_write a) \<le> 127" "length (uc_del a) \<le> 127" by metis+
  with acct_of_Some(9,10) [OF u assms(1)] assms(2) show ?thesis by (simp add: acct_ok_def USER_MAX_NAME_def)
qed

lemma failed_acct_simps [simp]:
  "uc_name (failed_acct a) = uc_name a" "uc_fails (failed_acct a) = uc_fails a + 1"
  "acct_ok (failed_acct a) = acct_ok a" "length (acct_bytes (failed_acct a)) = length (acct_bytes a)"
  by (simp_all add: failed_acct_def acct_ok_def acct_bytes_def)

lemma failed_acct_locked: "10 \<le> uc_fails a + 1 \<Longrightarrow> uc_flags (failed_acct a) AND USER_FLAG_LOCKED \<noteq> 0"
  by (simp add: failed_acct_def USER_FLAG_LOCKED_def bit.conj_disj_distrib2 or_zero)

text \<open>A store with one user, for the concrete cases.\<close>

lemma one_user_store:
  assumes "acct_ok a" "length (acct_bytes a) \<le> 256"
  obtains kv where "store_inv kv" "find_user_by_name kv (uc_name a) = Found (0, acct_bytes a)"
    "set (all_user_keys kv) = {USER_KEY 0}"
proof -
  have b: "build_acct 256 a = Some (acct_bytes a)" using build_acct_bytes [OF assms(1)] assms(2) by simp
  have sm: "kv_small (acct_bytes a)" by (rule build_acct_small [OF b])
  have "length (acct_bytes a) \<le> KV_MAX_VALUE" using assms(2) by (simp add: KV_MAX_VALUE_def)
  from put_boot [OF this, of "USER_KEY 0"] obtain kv where p: "kv_put nor_dev kv_boot (USER_KEY 0) (acct_bytes a) = (True, kv)" by blast
  note put = nor_flash_dev store_inv_boot sm p
  have "all_user_keys kv_boot = []" by (simp add: all_user_keys_def kv_boot_def)
  with put_card_keys(1) [OF put] have ks: "set (all_user_keys kv) = {USER_KEY 0}" by simp
  have idx: "idx_inv kv" using put_card(1) [OF put] by (simp add: store_inv_def)
  from all_user_keys_sorted [OF idx] have "distinct (all_user_keys kv)" by (simp add: strict_sorted_iff)
  from distinct_card [OF this] ks have "length (all_user_keys kv) = 1" by simp
  then have "user_keys kv = all_user_keys kv" by (simp add: user_keys_all)
  moreover have "probe kv (uc_name a) (USER_KEY 0) = Found (acct_bytes a)"
    using probe_acct [OF put_card(3) [OF put TrueI] acct_bytes_parse [OF assms(1)]] by simp
  ultimately have "find_user_by_name kv (uc_name a) = Found (USER_KEY 0 AND 0x3FFFFF, acct_bytes a)"
    unfolding find_user_by_name_def using ks by (intro find_user_in_only) auto
  with put_card(1) [OF put] ks that show thesis by (simp add: user_key_id)
qed

definition demo_env :: auth_env where
  "demo_env = \<lparr>en_dev = nor_dev, en_sha = (\<lambda>xs. take 32 (xs @ replicate 32 0)), en_rand = (\<lambda>_. 7), en_clock = word_of_nat\<rparr>"

definition demo_acct :: user_acct where
  "demo_acct = \<lparr>uc_name = cstr ''bob'', uc_hash = take 32 (replicate 16 1 @ cstr ''secret'' @ replicate 32 0), uc_salt = replicate 16 1,
     uc_flags = 0, uc_fails = 9, uc_read = [2], uc_write = [2], uc_del = []\<rparr>"

definition demo_state :: "kv_state \<Rightarrow> auth_state" where
  "demo_state kv = \<lparr>au_kv = kv, g_sessions = replicate SESSION_MAX no_session, au_rands = 0, au_clocks = 0\<rparr>"

lemma demo_ok:
  "sha_ok demo_env" "nor_flash (en_dev demo_env)" "acct_ok demo_acct" "length (acct_bytes demo_acct) \<le> 256"
  "password_ok demo_env demo_acct (cstr ''secret'')" "\<not> password_ok demo_env demo_acct (cstr ''guess'')"
  "uc_flags demo_acct AND USER_FLAG_LOCKED = 0" "uc_name demo_acct = cstr ''bob''"
  by (simp_all add: sha_ok_def demo_env_def demo_acct_def USER_HASH_LEN_def USER_SALT_LEN_def acct_ok_def acct_bytes_def card_header_def
      packs_field_def bytes16_def cstr_def nor_flash_dev password_ok_def min_def)

lemma demo_len:
  "0 < length (cstr ''bob'')" "length (cstr ''bob'') \<le> USER_MAX_NAME" "0 < length (cstr ''secret'')" "length (cstr ''secret'') \<le> USER_MAX_PASS"
  "0 < length (cstr ''guess'')" "length (cstr ''guess'') \<le> USER_MAX_PASS"
  by (simp_all add: cstr_def USER_MAX_NAME_def USER_MAX_PASS_def)

lemma demo_user:
  obtains kv where "store_inv (au_kv (demo_state kv))"
    "find_user_by_name (au_kv (demo_state kv)) (cstr ''bob'') = Found (0, acct_bytes demo_acct)"
  using one_user_store [OF demo_ok(3,4)] by (auto simp: demo_state_def demo_ok(8))

lemma demo_login:
  obtains kv token s' where "store_inv kv"
    "user_auth_login demo_env (demo_state kv) (cstr ''bob'') (cstr ''secret'') = Some (Some (0, token), s')" "au_clocks s' = 2"
proof -
  obtain kv where kv: "store_inv (au_kv (demo_state kv))"
    "find_user_by_name (au_kv (demo_state kv)) (cstr ''bob'') = Found (0, acct_bytes demo_acct)" by (rule demo_user)
  define s1 where "s1 = (if 0 < uc_fails demo_acct then store_card demo_env (demo_state kv) (USER_KEY 0) (build_acct 256 (demo_acct\<lparr>uc_fails := 0\<rparr>))
    else demo_state kv)"
  obtain token s' where n: "new_session demo_env s1 0 = (token, s')" by (metis prod.exhaust)
  have l: "user_auth_login demo_env (demo_state kv) (cstr ''bob'') (cstr ''secret'') = Some (Some (0, token), s')"
    using login_unfold [OF demo_ok(1) demo_len(1-4) kv(2) acct_bytes_parse [OF demo_ok(3)]] demo_ok(5,7) n by (simp add: s1_def)
  have s1: "length (g_sessions s1) = SESSION_MAX" "au_clocks s1 = 0" by (simp_all add: s1_def store_card_rest demo_state_def)
  have "au_clocks s' = 2" by (rule new_session_spec [OF n s1(1)]) (simp add: s1(2))
  moreover have "store_inv kv" using kv(1) by (simp add: demo_state_def)
  ultimately show thesis using l that by blast
qed

subsection \<open>Properties\<close>

text \<open>
  C30: the parser reads a card back as it was built. From the bytes that \<open>build_user_card\<close> writes, for any name of at most
  254 bytes, hash, salt, flags, count and lists of at most 127 packs, \<open>parse_user_card\<close> finds exactly these, and they fit the buffer.
\<close>

theorem user_card_roundtrip:
  assumes "length name < 255" "length hash = USER_HASH_LEN" "length salt = USER_SALT_LEN"
    and "length rp \<le> 127" "length wp \<le> 127" "length dp \<le> 127"
    and "build_user_card cap name hash salt flags fails rp wp dp = Some crd"
  shows "length crd \<le> cap \<and> (\<exists>u. parse_user_card crd = Some u \<and> bytes_at crd (pu_username u) (pu_ulen u) = Some name
    \<and> bytes_at crd (pu_hash u) USER_HASH_LEN = Some hash \<and> bytes_at crd (pu_salt u) USER_SALT_LEN = Some salt
    \<and> pu_flags u = flags \<and> pu_fail_count u = fails \<and> extract_packs crd (pu_read u) (pu_read_bytes u) 127 = rp
    \<and> extract_packs crd (pu_write u) (pu_write_bytes u) 127 = wp \<and> extract_packs crd (pu_del u) (pu_del_bytes u) 127 = dp)"
proof -
  define a where "a = \<lparr>uc_name = name, uc_hash = hash, uc_salt = salt, uc_flags = flags, uc_fails = fails, uc_read = rp, uc_write = wp,
      uc_del = dp\<rparr>"
  have ok: "acct_ok a" using assms(1-6) by (simp add: acct_ok_def a_def)
  have "build_acct cap a = Some crd" using assms(7) by (simp add: build_acct_def a_def)
  with build_acct_bytes [OF ok, of cap] have c: "crd = acct_bytes a" "length crd \<le> cap" by (auto split: if_split_asm)
  with acct_bytes_parse [OF ok] have a: "user_acct_of crd = Some a" by simp
  then obtain u where u: "parse_user_card crd = Some u" by (auto simp: user_acct_of_def bind_Some_iff)
  from acct_of_Some [OF u a] u c(2) show ?thesis by (auto simp: a_def)
qed

theorem user_card_roundtrip_witness:
  "\<exists>crd u. build_user_card 256 (cstr ''admin'') (replicate 32 1) (replicate 16 2) 5 0 [0xFFFF] [2, 3] [] = Some crd
     \<and> parse_user_card crd = Some u \<and> bytes_at crd (pu_username u) (pu_ulen u) = Some (cstr ''admin'')"
proof -
  obtain crd where c: "build_user_card 256 (cstr ''admin'') (replicate 32 1) (replicate 16 2) 5 0 [0xFFFF] [2, 3] [] = Some crd"
    by (simp add: build_user_card_def card_put_def card_header_def USER_HASH_LEN_def USER_SALT_LEN_def cstr_def packs_field_def)
  from user_card_roundtrip [OF _ _ _ _ _ _ c] c show ?thesis by (auto simp: cstr_def USER_HASH_LEN_def USER_SALT_LEN_def)
qed

text \<open>
  C27: only the right password opens a session. When \<open>user_auth_login\<close> answers with the number of a card and a token, that card
  is an account of the store under the given name, it is not locked, the SHA-256 of its salt and the password is its
  stored hash, and the token is now that of an active session of the account.
\<close>

theorem user_login_sound:
  assumes "sha_ok en" "store_inv (au_kv s)" "length (g_sessions s) = SESSION_MAX"
    and "user_auth_login en s name pass = Some (Some (i, token), s')"
  shows "(\<exists>a. accounts (au_kv s) i = Some a \<and> uc_name a = name \<and> uc_flags a AND USER_FLAG_LOCKED = 0 \<and> password_ok en a pass)
    \<and> (\<exists>x \<in> set (g_sessions s'). ss_active x \<and> ss_user_card x = i \<and> ss_token x = token)"
proof -
  from login_Some [OF assms(2,4)] obtain j crd a where len: "0 < length name" "length name \<le> USER_MAX_NAME" "0 < length pass"
      "length pass \<le> USER_MAX_PASS" and f: "find_user_by_name (au_kv s) name = Found (j, crd)" "user_acct_of crd = Some a" by metis
  note run = login_unfold [OF assms(1) len f, unfolded assms(4)]
  from run have ok: "uc_flags a AND USER_FLAG_LOCKED = 0" "password_ok en a pass" by (auto split: if_split_asm)
  define s1 where "s1 = (if 0 < uc_fails a then store_card en s (USER_KEY j) (build_acct 256 (a\<lparr>uc_fails := 0\<rparr>)) else s)"
  from run ok have new: "new_session en s1 j = (token, s')" "i = j" by (auto simp: s1_def Let_def split: prod.split_asm)
  have "length (g_sessions s1) = SESSION_MAX" using assms(3) by (simp add: s1_def store_card_rest)
  from new_session_spec [OF new(1) this] obtain k x where "k < SESSION_MAX" "g_sessions s' = (g_sessions s1)[k := x]" "ss_active x"
    "ss_user_card x = j" "ss_token x = token" by metis
  then have "\<exists>x \<in> set (g_sessions s'). ss_active x \<and> ss_user_card x = i \<and> ss_token x = token"
    using \<open>length (g_sessions s1) = SESSION_MAX\<close> new(2) by (auto simp: set_update_memI)
  moreover note login_found [OF assms(2) f]
  ultimately show ?thesis using ok new(2) by blast
qed

theorem user_login_sound_witness:
  "\<exists>kv i token s'. user_auth_login demo_env (demo_state kv) (cstr ''bob'') (cstr ''secret'') = Some (Some (i, token), s')
     \<and> (\<exists>a. accounts kv i = Some a \<and> uc_name a = cstr ''bob'')"
proof -
  obtain kv token s' where l: "store_inv kv"
    "user_auth_login demo_env (demo_state kv) (cstr ''bob'') (cstr ''secret'') = Some (Some (0, token), s')" by (rule demo_login)
  have "store_inv (au_kv (demo_state kv))" "length (g_sessions (demo_state kv)) = SESSION_MAX" using l(1) by (simp_all add: demo_state_def)
  from user_login_sound [OF demo_ok(1) this l(2)] l(2) show ?thesis by (auto simp: demo_state_def)
qed



end
