(* ===== verification/UserSessions.thy ===== *)
theory UserSessions
  imports UserLaws
begin

text \<open>
  New users of \<open>src/user_auth.c\<close>, and the life of their sessions from the login to the logout or the timeout.
\<close>

unbundle bit_operations_syntax

subsection \<open>New users\<close>

lemma create_Some:
  assumes "user_auth_create_user en s name pass flags rp wp dp = Some (Some i, s')"
  obtains salt s1 crd kv where "0 < length name" "length name \<le> USER_MAX_NAME" "0 < length pass" "length pass \<le> USER_MAX_PASS"
    "find_user_by_name (au_kv s) name = Miss" "i = next_user_id (user_keys (au_kv s))" "gen_random en s USER_SALT_LEN = (salt, s1)"
    "build_user_card 256 name (sha256_hash en salt pass) salt flags 0 rp wp dp = Some crd"
    "kv_put (en_dev en) (au_kv s) (USER_KEY i) crd = (True, kv)" "s' = s1\<lparr>au_kv := kv\<rparr>" "au_kv s1 = au_kv s" "g_sessions s1 = g_sessions s"
proof -
  obtain salt s1 where g: "gen_random en s USER_SALT_LEN = (salt, s1)" by (metis prod.exhaust)
  then have s1: "au_kv s1 = au_kv s" "g_sessions s1 = g_sessions s" by (auto simp: gen_random_def Let_def)
  have len: "0 < length name" "length name \<le> USER_MAX_NAME" "0 < length pass" "length pass \<le> USER_MAX_PASS"
    and find: "find_user_by_name (au_kv s) name = Miss"
    using assms by (auto simp: user_auth_create_user_def split: if_split_asm read_result.split_asm)
  then have n: "(length name = 0 \<or> USER_MAX_NAME < length name) = False" "(length pass = 0 \<or> USER_MAX_PASS < length pass) = False" by auto
  note run = assms [unfolded user_auth_create_user_def n if_False find read_result.case Let_def g prod.case]
  obtain crd where crd: "build_user_card 256 name (sha256_hash en salt pass) salt flags 0 rp wp dp = Some crd"
    using run by (cases "build_user_card 256 name (sha256_hash en salt pass) salt flags 0 rp wp dp") auto
  obtain b kv where p: "kv_put (en_dev en) (au_kv s) (USER_KEY (next_user_id (user_keys (au_kv s)))) crd = (b, kv)" by (metis prod.exhaust)
  from run crd p s1 have "b" "i = next_user_id (user_keys (au_kv s))" "s' = s1\<lparr>au_kv := kv\<rparr>" by (auto split: if_split_asm)
  with that [OF len find _ g crd _ _ s1] p show thesis by simp
qed

lemma create_acct:
  assumes en: "sha_ok en" "nor_flash (en_dev en)" and inv: "store_inv (au_kv s)"
    and few: "length (user_keys (au_kv s)) < 256" "\<forall>k \<in> set (user_keys (au_kv s)). k AND 0x3FFFFF \<noteq> 0x3FFFFF"
    and packs: "length rp \<le> 127" "length wp \<le> 127" "length dp \<le> 127"
    and run: "user_auth_create_user en s name pass flags rp wp dp = Some (Some i, s')"
  obtains a where "accounts (au_kv s) i = None" "accounts (au_kv s') = (accounts (au_kv s))(i \<mapsto> a)" "uc_name a = name"
    "password_ok en a pass" "uc_flags a = flags" "uc_fails a = 0" "uc_read a = rp" "uc_write a = wp" "uc_del a = dp"
    "find_user_by_name (au_kv s') name = Found (i, acct_bytes a)" "acct_ok a" "store_inv (au_kv s')" "g_sessions s' = g_sessions s"
proof -
  from run obtain salt s1 crd kv where c: "length name \<le> USER_MAX_NAME"
    "find_user_by_name (au_kv s) name = Miss" "i = next_user_id (user_keys (au_kv s))" "gen_random en s USER_SALT_LEN = (salt, s1)"
    "build_user_card 256 name (sha256_hash en salt pass) salt flags 0 rp wp dp = Some crd"
    "kv_put (en_dev en) (au_kv s) (USER_KEY i) crd = (True, kv)" "s' = s1\<lparr>au_kv := kv\<rparr>" "g_sessions s1 = g_sessions s"
    by (rule create_Some) blast
  define a where "a = \<lparr>uc_name = name, uc_hash = sha256_hash en salt pass, uc_salt = salt, uc_flags = flags, uc_fails = 0, uc_read = rp,
    uc_write = wp, uc_del = dp\<rparr>"
  have "length salt = USER_SALT_LEN" using gen_random_length [of en s USER_SALT_LEN] c(4) by simp
  with packs c(1) en(1) have ok: "acct_ok a" by (simp add: acct_ok_def a_def USER_MAX_NAME_def sha256_hash_def sha_ok_def)
  have b: "build_acct 256 a = Some crd" using c(5) by (simp add: build_acct_def a_def)
  with build_acct_bytes [OF ok, of 256] have crd: "crd = acct_bytes a" by (auto split: if_split_asm)
  note put = en(2) inv build_acct_small [OF b] c(6)
  have idx: "idx_inv (au_kv s)" "idx_inv kv" using inv put_card(1) [OF put] by (simp_all add: store_inv_def)
  have all: "user_keys (au_kv s) = all_user_keys (au_kv s)" using few(1) by (simp add: user_keys_all)
  have nx: "i \<le> 0x3FFFFF" "\<forall>k \<in> set (all_user_keys (au_kv s)). k AND 0x3FFFFF < i"
    using next_user_id_spec [of "user_keys (au_kv s)"] few(2) c(3) all by auto
  then have im: "i AND 0x3FFFFF = i" by (simp only: user_id_le)
  have new: "USER_KEY i \<notin> set (all_user_keys (au_kv s))"
  proof
    assume "USER_KEY i \<in> set (all_user_keys (au_kv s))"
    with nx(2) have "USER_KEY i AND 0x3FFFFF < i" by blast
    then show False by (simp add: user_key_id im)
  qed
  then have "idx_get (au_kv s) (USER_KEY i) = None"
    using set_all_user_keys [OF idx(1), of "USER_KEY i"] unfolding user_key_id im by blast
  then have fresh: "accounts (au_kv s) i = None" by (simp add: accounts_def read_card_def kv_get_copy_def)
  have acc: "accounts kv = (accounts (au_kv s))(i \<mapsto> a)"
    using put_card_accounts [OF put im] acct_bytes_parse [OF ok] crd by simp
  have ks: "set (all_user_keys kv) = insert (USER_KEY i) (set (all_user_keys (au_kv s)))" using put_card_keys(1) [OF put] by simp
  have dist: "distinct (all_user_keys k)" if "idx_inv k" for k using all_user_keys_sorted [OF that] by (simp add: strict_sorted_iff)
  have "length (all_user_keys kv) = Suc (length (all_user_keys (au_kv s)))"
    using ks new distinct_card [OF dist [OF idx(1)]] distinct_card [OF dist [OF idx(2)]] by simp
  then have all': "user_keys kv = all_user_keys kv" using few(1) all by (simp add: user_keys_all)
  have old: "probe (au_kv s) name k = Miss" if "k \<in> set (all_user_keys (au_kv s))" for k
    using c(2) that by (simp add: find_user_by_name_def find_user_in_Miss all)
  have p: "probe kv name (USER_KEY i) = Found crd"
    using probe_acct [OF put_card(3) [OF put TrueI]] acct_bytes_parse [OF ok] crd by (simp add: a_def)
  have "find_user_by_name kv name = Found (USER_KEY i AND 0x3FFFFF, crd)"
    unfolding find_user_by_name_def all' by (rule find_user_in_only) (use ks p old put_card_probe [OF put] in auto)
  with that [OF fresh] acc ok put_card(1) [OF put] c(7,8) crd show thesis
    by (simp add: a_def password_ok_def sha256_hash_def user_key_id im)
qed

text \<open>
  C29: a new user gets a free number and can log in. While the pack of users has fewer than 256 keys and its last
  number is not in use, a successful \<open>user_auth_create_user\<close> adds exactly one account, under a number that had none, with the given name,
  flags and packs, and the given password then opens a session for it.
\<close>

theorem user_create_then_login:
  assumes "sha_ok en" "nor_flash (en_dev en)" "store_inv (au_kv s)"
    and "length (user_keys (au_kv s)) < 256" "\<forall>k \<in> set (user_keys (au_kv s)). k AND 0x3FFFFF \<noteq> 0x3FFFFF"
    and "length rp \<le> 127" "length wp \<le> 127" "length dp \<le> 127" "flags AND USER_FLAG_LOCKED = 0"
    and "user_auth_create_user en s name pass flags rp wp dp = Some (Some i, s')"
  shows "accounts (au_kv s) i = None
    \<and> (\<exists>a. accounts (au_kv s') = (accounts (au_kv s))(i \<mapsto> a) \<and> uc_name a = name \<and> password_ok en a pass \<and> uc_flags a = flags
         \<and> uc_fails a = 0 \<and> uc_read a = rp \<and> uc_write a = wp \<and> uc_del a = dp)
    \<and> (\<exists>token s''. user_auth_login en s' name pass = Some (Some (i, token), s''))"
proof -
  from create_acct [OF assms(1-8,10)] obtain a where a: "accounts (au_kv s) i = None" "accounts (au_kv s') = (accounts (au_kv s))(i \<mapsto> a)"
    "uc_name a = name" "password_ok en a pass" "uc_flags a = flags" "uc_fails a = 0" "uc_read a = rp" "uc_write a = wp" "uc_del a = dp"
    "find_user_by_name (au_kv s') name = Found (i, acct_bytes a)" "acct_ok a" by metis
  from create_Some [OF assms(10)] have len: "0 < length name" "length name \<le> USER_MAX_NAME" "0 < length pass" "length pass \<le> USER_MAX_PASS"
    by metis+
  obtain token s'' where n: "new_session en s' i = (token, s'')" by (metis prod.exhaust)
  have "user_auth_login en s' name pass = Some (Some (i, token), s'')"
    using login_unfold [OF assms(1) len a(10) acct_bytes_parse [OF a(11)]] a(4,5,6) assms(9) n by simp
  with a(1-9) show ?thesis by blast
qed

theorem user_create_then_login_witness:
  "\<exists>i s'. user_auth_create_user demo_env (demo_state kv_boot) (cstr ''bob'') (cstr ''secret'') 0 [2] [2] [] = Some (Some i, s')
     \<and> accounts kv_boot i = None \<and> accounts (au_kv s') i \<noteq> None"
proof -
  let ?s = "demo_state kv_boot"
  have e: "user_keys (au_kv ?s) = []" by (simp add: user_keys_all all_user_keys_def demo_state_def kv_boot_def)
  obtain salt s1 where g: "gen_random demo_env ?s USER_SALT_LEN = (salt, s1)" by (metis prod.exhaust)
  have sl: "length salt = USER_SALT_LEN" "au_kv s1 = kv_boot"
    using gen_random_length [of demo_env ?s USER_SALT_LEN] g by (auto simp: gen_random_def Let_def demo_state_def)
  define a where "a = \<lparr>uc_name = cstr ''bob'', uc_hash = sha256_hash demo_env salt (cstr ''secret''), uc_salt = salt, uc_flags = 0,
    uc_fails = 0, uc_read = [2], uc_write = [2], uc_del = []\<rparr>"
  have ok: "acct_ok a" using sl(1) demo_ok(1) by (simp add: acct_ok_def a_def cstr_def sha256_hash_def sha_ok_def)
  have "length (acct_bytes a) \<le> 256"
    using ok by (simp add: acct_bytes_def card_header_def acct_ok_def USER_HASH_LEN_def USER_SALT_LEN_def) (simp add: a_def cstr_def)
  with build_acct_bytes [OF ok, of 256] have b: "build_acct 256 a = Some (acct_bytes a)" "length (acct_bytes a) \<le> KV_MAX_VALUE"
    by (simp_all add: KV_MAX_VALUE_def)
  from put_boot [OF b(2), of "USER_KEY 0"] obtain kv where p: "kv_put nor_dev kv_boot (USER_KEY 0) (acct_bytes a) = (True, kv)" by blast
  have f: "find_user_by_name (au_kv ?s) (cstr ''bob'') = Miss" by (simp add: find_user_by_name_def e)
  have c: "build_user_card 256 (cstr ''bob'') (sha256_hash demo_env salt (cstr ''secret'')) salt 0 0 [2] [2] [] = Some (acct_bytes a)"
    using b(1) by (simp add: build_acct_def a_def)
  have l: "length (cstr ''bob'') = 3" "length (cstr ''secret'') = 6" by (simp_all add: cstr_def)
  have dev: "en_dev demo_env = nor_dev" by (simp add: demo_env_def)
  have run: "user_auth_create_user demo_env ?s (cstr ''bob'') (cstr ''secret'') 0 [2] [2] [] = Some (Some 0, s1\<lparr>au_kv := kv\<rparr>)"
    using p dev by (simp add: user_auth_create_user_def l f g c e sl(2) next_user_id_def USER_MAX_NAME_def USER_MAX_PASS_def)
  have "store_inv (au_kv ?s)" by (simp add: demo_state_def store_inv_boot)
  from user_create_then_login [OF demo_ok(1,2) this _ _ _ _ _ _ run] e run show ?thesis by (auto simp: demo_state_def)
qed

subsection \<open>Sessions\<close>

lemma find_nth: "find P [0..<n] = Some k \<longleftrightarrow> k < n \<and> P k \<and> (\<forall>j < k. \<not> P j)"
  by (auto simp: find_Some_iff)

definition slots_ok :: "session_slot_t list \<Rightarrow> bool" where
  "slots_ok ss \<longleftrightarrow> length ss = SESSION_MAX \<and> (\<forall>x \<in> set ss. length (ss_token x) = SESSION_TOKEN_LEN)"

lemma holds_token_diff:
  assumes "slots_ok ss" "length token = SESSION_TOKEN_LEN" "k < length ss"
  shows "ss_active (ss ! k) \<and> bytes_diff SESSION_TOKEN_LEN (ss_token (ss ! k)) token = 0 \<longleftrightarrow> ss_active (ss ! k) \<and> ss_token (ss ! k) = token"
proof -
  have "length (ss_token (ss ! k)) = SESSION_TOKEN_LEN" using assms by (simp add: slots_ok_def)
  with assms(2) show ?thesis by (auto simp: bytes_diff_zero intro: nth_equalityI)
qed

lemma token_slot_Some:
  assumes "slots_ok ss" "length token = SESSION_TOKEN_LEN"
  shows "token_slot ss token = Some k \<longleftrightarrow> k < length ss \<and> (ss_active (ss ! k) \<and> ss_token (ss ! k) = token)
    \<and> (\<forall>j < k. \<not> (ss_active (ss ! j) \<and> ss_token (ss ! j) = token))"
  unfolding token_slot_def find_nth using holds_token_diff [OF assms] by (metis order.strict_trans)

lemma token_slot_None:
  assumes "slots_ok ss" "length token = SESSION_TOKEN_LEN"
  shows "token_slot ss token = None \<longleftrightarrow> (\<forall>x \<in> set ss. \<not> (ss_active x \<and> ss_token x = token))"
proof -
  have "token_slot ss token = None \<longleftrightarrow> (\<forall>k < length ss. \<not> (ss_active (ss ! k) \<and> ss_token (ss ! k) = token))"
    unfolding token_slot_def find_None_iff using holds_token_diff [OF assms] by auto
  then show ?thesis by (simp add: all_set_conv_all_nth)
qed

lemma extract_packs_take: "extract_packs crd p n 20 = take 20 (extract_packs crd p n 127)"
  by (simp add: extract_packs_def split: option.split)

text \<open>The check of a token whose slot is known and young.\<close>

lemma check_session:
  assumes slots: "slots_ok (g_sessions s)" "length token = SESSION_TOKEN_LEN" and k: "token_slot (g_sessions s) token = Some k"
    and young: "en_clock en (au_clocks s) - ss_last_ms (g_sessions s ! k) \<le> SESSION_TIMEOUT_S * 1000"
    and a: "accounts (au_kv s) (ss_user_card (g_sessions s ! k)) = Some a"
  shows "\<exists>sess s'. user_auth_check en s token = Some (Some sess, s') \<and> us_user_card sess = ss_user_card (g_sessions s ! k)
    \<and> us_flags sess = uc_flags a \<and> us_read_packs sess = take 20 (uc_read a) \<and> us_write_packs sess = take 20 (uc_write a)
    \<and> us_delete_packs sess = take 20 (uc_del a)"
proof -
  from a obtain crd where r: "read_card (au_kv s) (USER_KEY (ss_user_card (g_sessions s ! k))) 512 = Found crd" "user_acct_of crd = Some a"
    by (auto simp: accounts_def split: if_split_asm read_result.split_asm)
  then obtain u where u: "parse_user_card crd = Some u" by (auto simp: user_acct_of_def bind_Some_iff)
  have nl: "\<not> SESSION_TIMEOUT_S * 1000 < en_clock en (au_clocks s) - ss_last_ms (g_sessions s ! k)" using young by simp
  note f = acct_of_Some [OF u r(2)]
  show ?thesis
    using f(4,6-8) by (simp add: user_auth_check_def k now_ms_def Let_def nl r(1) u session_of_def extract_packs_take)
qed

text \<open>
  C31: the token of a login is a session of its account. After a login, and when no active session happened to hold the same
  token, \<open>user_auth_check\<close> with the token within the hour answers with the card that logged in, and with the flags and the first 20
  packs of each list that the store holds for it now.
\<close>

theorem user_login_then_check:
  assumes "sha_ok en" "nor_flash (en_dev en)" "store_inv (au_kv s)" "slots_ok (g_sessions s)"
    and "\<forall>x \<in> set (g_sessions s). ss_active x \<longrightarrow> ss_token x \<noteq> token"
    and "user_auth_login en s name pass = Some (Some (i, token), s')"
    and "en_clock en (au_clocks s') - en_clock en (au_clocks s' - 1) \<le> SESSION_TIMEOUT_S * 1000"
  shows "\<exists>sess s'' a. user_auth_check en s' token = Some (Some sess, s'') \<and> us_user_card sess = i \<and> accounts (au_kv s') i = Some a
    \<and> us_flags sess = uc_flags a \<and> us_read_packs sess = take 20 (uc_read a) \<and> us_write_packs sess = take 20 (uc_write a)
    \<and> us_delete_packs sess = take 20 (uc_del a)"
proof -
  from login_Some [OF assms(3,6)] obtain j crd a where len: "0 < length name" "length name \<le> USER_MAX_NAME" "0 < length pass"
      "length pass \<le> USER_MAX_PASS" and f: "find_user_by_name (au_kv s) name = Found (j, crd)" "user_acct_of crd = Some a" by metis
  note run = login_unfold [OF assms(1) len f, unfolded assms(6)]
  from run have ok: "uc_flags a AND USER_FLAG_LOCKED = 0" "password_ok en a pass" by (auto split: if_split_asm)
  define s1 where "s1 = (if 0 < uc_fails a then store_card en s (USER_KEY j) (build_acct 256 (a\<lparr>uc_fails := 0\<rparr>)) else s)"
  from run ok have new: "new_session en s1 j = (token, s')" "i = j" by (auto simp: s1_def Let_def split: prod.split_asm)
  note lf = login_found [OF assms(3) f]
  have "acct_ok a" using user_acct_ok [OF f(2)] lf(2) len(2) by simp
  then have ok0: "acct_ok (a\<lparr>uc_fails := 0\<rparr>)" by (simp add: acct_ok_def)
  have "accounts (au_kv s1) j \<noteq> None"
  proof (cases "0 < uc_fails a \<and> length (acct_bytes (a\<lparr>uc_fails := 0\<rparr>)) \<le> 256")
    case True
    with store_acct(2) [OF assms(2,3) ok0 _ lf(3)] lf(1) show ?thesis by (auto simp: s1_def)
  next
    case False
    then have "s1 = s" using build_acct_bytes [OF ok0, of 256] by (auto simp: s1_def store_card_def)
    with lf(1) show ?thesis by simp
  qed
  then obtain b where b: "accounts (au_kv s1) j = Some b" by auto
  have g: "g_sessions s1 = g_sessions s" "au_clocks s1 = au_clocks s" by (simp_all add: s1_def store_card_rest)
  have l: "length (g_sessions s1) = SESSION_MAX" using assms(4) g by (simp add: slots_ok_def)
  from new_session_spec [OF new(1) l] obtain k x where x: "k < SESSION_MAX" "g_sessions s' = (g_sessions s1)[k := x]" "ss_active x"
    "ss_user_card x = j" "ss_token x = token" "length token = SESSION_TOKEN_LEN" "au_kv s' = au_kv s1"
    "ss_last_ms x = en_clock en (au_clocks s1 + 1)" "au_clocks s' = au_clocks s1 + 2" by metis
  have sl: "slots_ok (g_sessions s')"
    using assms(4) x(5,6) g by (auto simp: slots_ok_def x(2) dest: set_update_subset_insert [THEN subsetD])
  have at: "g_sessions s' ! k = x" using x(1,2) l by simp
  have "token_slot (g_sessions s') token = Some k"
    unfolding token_slot_Some [OF sl x(6)] using x(1,3,5) at l assms(5) g by (auto simp: x(2))
  from check_session [OF sl x(6) this, of en b] at x(4,7,8,9) assms(7) b new(2) show ?thesis by auto
qed

theorem user_login_then_check_witness:
  "\<exists>kv token s' sess s''. user_auth_login demo_env (demo_state kv) (cstr ''bob'') (cstr ''secret'') = Some (Some (0, token), s')
     \<and> user_auth_check demo_env s' token = Some (Some sess, s'') \<and> us_user_card sess = 0"
proof -
  obtain kv token s' where l: "store_inv kv"
    "user_auth_login demo_env (demo_state kv) (cstr ''bob'') (cstr ''secret'') = Some (Some (0, token), s')" "au_clocks s' = 2"
    by (rule demo_login)
  have sl: "slots_ok (g_sessions (demo_state kv))" by (simp add: demo_state_def slots_ok_def no_session_def)
  have i: "store_inv (au_kv (demo_state kv))" using l(1) by (simp add: demo_state_def)
  have n: "\<forall>x \<in> set (g_sessions (demo_state kv)). ss_active x \<longrightarrow> ss_token x \<noteq> token" by (simp add: demo_state_def no_session_def)
  have t: "en_clock demo_env (au_clocks s') - en_clock demo_env (au_clocks s' - 1) \<le> SESSION_TIMEOUT_S * 1000"
    using l(3) by (simp add: demo_env_def SESSION_TIMEOUT_S_def)
  from user_login_then_check [OF demo_ok(1,2) i sl n l(2) t] l(2) show ?thesis by blast
qed



end
