(* ===== verification/UserInvariant.thy ===== *)
theory UserInvariant
  imports UserSessions
begin

text \<open>
  The states the module can reach from its start, as a step relation over its operations, and what holds in all of them.
\<close>

unbundle bit_operations_syntax

subsection \<open>The invariant\<close>

definition auth_inv :: "auth_state \<Rightarrow> bool" where
  "auth_inv s \<longleftrightarrow> store_inv (au_kv s) \<and> slots_ok (g_sessions s)"

lemma auth_inv_store: "auth_inv s \<Longrightarrow> store_inv (au_kv s)"
  by (simp add: auth_inv_def)

inductive auth_step :: "auth_env \<Rightarrow> auth_state \<Rightarrow> auth_state \<Rightarrow> bool" for en where
  login: "user_auth_login en s name pass = Some (r, s') \<Longrightarrow> auth_step en s s'"
| logout: "auth_step en s (user_auth_logout s token)"
| check: "user_auth_check en s token = Some (c, s') \<Longrightarrow> auth_step en s s'"
| password: "user_auth_change_password en s i old_pass new_pass = Some (ok, s') \<Longrightarrow> auth_step en s s'"
| create: "user_auth_create_user en s name pass flags rp wp dp = Some (r, s') \<Longrightarrow> auth_step en s s'"
| restart: "user_auth_init en s = Some s' \<Longrightarrow> auth_step en s s'"

inductive_cases auth_stepE: "auth_step en s s'"

lemma build_small: "build_user_card 256 name hash salt flags fails rp wp dp = Some crd \<Longrightarrow> kv_small crd"
  unfolding build_user_card_def bind_Some_iff card_put_Some by (auto simp: kv_small_def)

lemma put_inv: "nor_flash dev \<Longrightarrow> store_inv kv \<Longrightarrow> kv_small crd \<Longrightarrow> kv_put dev kv key crd = (b, kv') \<Longrightarrow> store_inv kv'"
  by (rule put_card(1))

lemma snd_put_inv: "nor_flash dev \<Longrightarrow> store_inv kv \<Longrightarrow> kv_small crd \<Longrightarrow> store_inv (snd (kv_put dev kv key crd))"
  by (metis put_inv prod.collapse)

lemma slots_ok_update: "slots_ok ss \<Longrightarrow> length (ss_token x) = SESSION_TOKEN_LEN \<Longrightarrow> slots_ok (ss[k := x])"
  by (auto simp: slots_ok_def dest: set_update_subset_insert [THEN subsetD])

lemma slots_ok_token: "slots_ok ss \<Longrightarrow> k < length ss \<Longrightarrow> length (ss_token (ss ! k)) = SESSION_TOKEN_LEN"
  by (simp add: slots_ok_def)

lemma token_slot_bound: "token_slot ss token = Some k \<Longrightarrow> k < length ss"
  by (auto simp: token_slot_def find_nth)

lemma gen_random_rest:
  "gen_random en s n = (xs, s') \<Longrightarrow> au_kv s' = au_kv s \<and> g_sessions s' = g_sessions s \<and> length xs = n"
  using gen_random_length [of en s n] by (auto simp: gen_random_def Let_def)

lemma store_card_inv:
  assumes "nor_flash (en_dev en)" "auth_inv s" "\<And>crd. c = Some crd \<Longrightarrow> kv_small crd"
  shows "auth_inv (store_card en s key c)"
  using assms by (auto simp: auth_inv_def store_card_def intro: snd_put_inv split: option.split)

lemma rebuild_small: "rebuild_card crd u fl fa = Some (Some xs) \<Longrightarrow> kv_small xs"
  by (auto simp: rebuild_card_def split: option.split_asm intro: build_small)

lemma new_session_inv:
  assumes "auth_inv s" "new_session en s i = (token, s')"
  shows "auth_inv s'"
proof -
  have "length (g_sessions s) = SESSION_MAX" using assms(1) by (simp add: auth_inv_def slots_ok_def)
  from new_session_spec [OF assms(2) this] obtain k x where "g_sessions s' = (g_sessions s)[k := x]" "ss_token x = token"
    "length token = SESSION_TOKEN_LEN" "au_kv s' = au_kv s" by metis
  with assms(1) show ?thesis by (simp add: auth_inv_def slots_ok_update)
qed

lemma login_inv:
  assumes nor: "nor_flash (en_dev en)" and inv: "auth_inv s" and run: "user_auth_login en s name pass = Some (r, s')"
  shows "auth_inv s'"
proof -
  have st: "auth_inv (store_card en s key c)" if "rebuild_card crd u fl fa = Some c" for crd u fl fa c key
    by (rule store_card_inv [OF nor inv]) (use rebuild_small that in blast)
  have ns: "auth_inv (snd (new_session en s1 i))" if "auth_inv s1" for s1 i
    using new_session_inv [OF that] by (metis prod.collapse)
  show ?thesis
    using run inv by (auto simp: user_auth_login_def Let_def bind_Some_iff case_prod_beta intro: st ns
      split: if_split_asm read_result.split_asm option.split_asm)
qed

lemma check_inv: "auth_inv s \<Longrightarrow> user_auth_check en s token = Some (c, s') \<Longrightarrow> auth_inv s'"
  by (auto simp: user_auth_check_def Let_def now_ms_def auth_inv_def slots_ok_update slots_ok_token
      split: if_split_asm read_result.split_asm option.split_asm dest!: token_slot_bound)

lemma logout_inv: "auth_inv s \<Longrightarrow> auth_inv (user_auth_logout s token)"
  by (auto simp: user_auth_logout_def auth_inv_def slots_ok_update slots_ok_token split: option.split dest!: token_slot_bound)

lemma create_inv:
  assumes "nor_flash (en_dev en)" "auth_inv s" "user_auth_create_user en s name pass flags rp wp dp = Some (r, s')"
  shows "auth_inv s'"
  using assms by (auto simp: user_auth_create_user_def Let_def auth_inv_def intro: put_inv [OF _ _ build_small] dest!: gen_random_rest
      split: if_split_asm read_result.split_asm option.split_asm prod.split_asm)

lemma password_inv:
  assumes "nor_flash (en_dev en)" "auth_inv s" "user_auth_change_password en s i old_pass new_pass = Some (ok, s')"
  shows "auth_inv s'"
  using assms by (auto simp: user_auth_change_password_def Let_def auth_inv_def intro: put_inv [OF _ _ build_small] dest!: gen_random_rest
      split: if_split_asm read_result.split_asm option.split_asm prod.split_asm)

subsection \<open>The first start\<close>

lemma schema_small:
  assumes "build_schema_card_full 256 pack_name flds flags modname = Some crd" "length (names_bytes flds) \<le> 200"
  shows "kv_small crd"
proof -
  have "length crd \<le> 256 + length (names_bytes flds)"
    using assms(1) by (auto simp: build_schema_card_full_def Let_def bind_Some_iff split: if_split_asm)
  with assms(2) show ?thesis by (simp add: kv_small_def)
qed

lemma put_schema_inv:
  assumes "nor_flash dev" "store_inv kv" "\<And>crd. c = Some crd \<Longrightarrow> kv_small crd"
  shows "store_inv (snd (put_schema dev kv pack c))"
  using assms by (auto simp: put_schema_def intro: snd_put_inv split: option.split)

lemma seed_cards_inv:
  "nor_flash dev \<Longrightarrow> \<forall>(name, code) \<in> set cs. length name + length code \<le> 400 \<Longrightarrow> store_inv kv \<Longrightarrow>
    store_inv (seed_cards dev pack i cs kv)"
proof (induction dev pack i cs kv rule: seed_cards.induct)
  case (2 dev pack i name code cs kv)
  then have "kv_small (ref_card name code)"
    by (simp add: kv_small_def ref_card_def text_field_def card_header_def cstr_def)
  with 2 show ?case by (auto intro: snd_put_inv)
qed simp

lemma seed_reference_inv:
  assumes "nor_flash dev" "store_inv kv" "length (names_bytes flds) \<le> 200" "\<forall>(name, code) \<in> set cs. length name + length code \<le> 400"
  shows "store_inv (seed_reference dev pack pack_name flds cs kv)"
  using assms by (auto simp: seed_reference_def seed_schema_public_def intro!: seed_cards_inv put_schema_inv dest: schema_small)

lemma seed_tables:
  "length (names_bytes init_user_fields) \<le> 200" "length (names_bytes days_fields) \<le> 200" "length (names_bytes countries_fields) \<le> 200"
  "length (names_bytes currencies_fields) \<le> 200" "\<forall>(name, code) \<in> set days_cards. length name + length code \<le> 400"
  "\<forall>(name, code) \<in> set countries_cards. length name + length code \<le> 400"
  "\<forall>(name, code) \<in> set currencies_cards. length name + length code \<le> 400"
  by (simp_all add: names_bytes_def init_user_fields_def days_fields_def countries_fields_def currencies_fields_def schema_of_def cstr_def
      days_cards_def countries_cards_def currencies_cards_def)

lemma seed_packs_inv: "nor_flash dev \<Longrightarrow> store_inv kv \<Longrightarrow> store_inv (seed_packs dev kv)"
  unfolding seed_packs_def Let_def seed_schema_def build_schema_card_def build_schema_card_ex_def
  by (intro seed_reference_inv seed_tables put_schema_inv schema_small) (assumption | rule seed_tables)+

lemma init_inv:
  assumes "nor_flash (en_dev en)" "store_inv (au_kv s)" "user_auth_init en s = Some s'"
  shows "auth_inv s'"
proof -
  have s1: "auth_inv (s\<lparr>g_sessions := replicate SESSION_MAX no_session, au_kv := seed_packs (en_dev en) (au_kv s)\<rparr>)"
    using seed_packs_inv [OF assms(1,2)] by (simp add: auth_inv_def slots_ok_def no_session_def)
  have "auth_inv s2 \<Longrightarrow> auth_inv (store_card en s2 key (build_user_card 256 nm h sa fl fa rp wp dp))" for s2 key nm h sa fl fa rp wp dp
    by (rule store_card_inv [OF assms(1)]) (auto intro: build_small)
  with s1 show ?thesis
    using assms(3) by (auto simp: user_auth_init_def Let_def auth_inv_def dest!: gen_random_rest
      split: read_result.split_asm prod.split_asm)
qed

text \<open>The seeding writes to other packs than that of the users.\<close>

lemma pack_key_mask: "PACK_KEY p j AND 0xFFC00000 = push_bit 22 p AND 0xFFC00000"
  by (simp add: PACK_KEY_def bit.conj_disj_distrib2 and.assoc)

lemma pack_not_user:
  assumes "push_bit 22 p AND 0xFFC00000 \<noteq> (0x400000 :: u32)"
  shows "PACK_KEY p j \<noteq> USER_KEY i"
proof
  assume "PACK_KEY p j = USER_KEY i"
  from arg_cong [OF this, of "\<lambda>k. k AND 0xFFC00000"] assms show False
    by (simp add: USER_KEY_def pack_key_mask USER_PACK_def)
qed

definition same_users :: "kv_state \<Rightarrow> kv_state \<Rightarrow> bool" where
  "same_users kv kv' \<longleftrightarrow> (\<forall>i out cap. kv_get_copy kv' (USER_KEY i) out cap = kv_get_copy kv (USER_KEY i) out cap)"

lemma same_users_trans: "same_users a b \<Longrightarrow> same_users b c \<Longrightarrow> same_users a c"
  by (simp add: same_users_def)

lemma put_same_users:
  assumes "nor_flash dev" "store_inv kv" "kv_small crd" "push_bit 22 p AND 0xFFC00000 \<noteq> (0x400000 :: u32)"
  shows "same_users kv (snd (kv_put dev kv (PACK_KEY p j) crd))"
proof -
  have "USER_KEY i \<noteq> PACK_KEY p j \<or> \<not> b" for i b using pack_not_user [OF assms(4)] by metis
  then show ?thesis
    using put_card(2) [OF assms(1-3) prod.collapse [symmetric]] unfolding same_users_def by blast
qed

lemma put_schema_users:
  assumes "nor_flash dev" "store_inv kv" "\<And>crd. c = Some crd \<Longrightarrow> kv_small crd"
  shows "same_users kv (snd (put_schema dev kv pack c))"
proof (cases c)
  case None
  then show ?thesis by (simp add: put_schema_def same_users_def)
next
  case (Some crd)
  with put_same_users [OF assms(1,2) assms(3) [OF Some], of 0] show ?thesis by (simp add: put_schema_def SCHEMA_KEY_def)
qed

lemma seed_cards_users:
  "nor_flash dev \<Longrightarrow> \<forall>(name, code) \<in> set cs. length name + length code \<le> 400 \<Longrightarrow> store_inv kv \<Longrightarrow>
    push_bit 22 pack AND 0xFFC00000 \<noteq> (0x400000 :: u32) \<Longrightarrow> same_users kv (seed_cards dev pack i cs kv)"
proof (induction dev pack i cs kv rule: seed_cards.induct)
  case (2 dev pack i name code cs kv)
  have sm: "kv_small (ref_card name code)"
    using 2(3) by (simp add: kv_small_def ref_card_def text_field_def card_header_def cstr_def)
  from 2 have "same_users (snd (kv_put dev kv (PACK_KEY pack i) (ref_card name code))) (seed_cards dev pack i ((name, code) # cs) kv)"
    by (simp add: snd_put_inv sm)
  with put_same_users [OF 2(2,4) sm 2(5)] show ?case by (rule same_users_trans)
qed (simp add: same_users_def)

lemma seed_reference_users:
  assumes "nor_flash dev" "store_inv kv" "length (names_bytes flds) \<le> 200" "\<forall>(name, code) \<in> set cs. length name + length code \<le> 400"
    and "push_bit 22 (ucast pack) AND 0xFFC00000 \<noteq> (0x400000 :: u32)"
  shows "same_users kv (seed_reference dev pack pack_name flds cs kv)"
proof (cases "kv_exists kv (SCHEMA_KEY (ucast pack))")
  case True
  then show ?thesis by (simp add: seed_reference_def same_users_def)
next
  case False
  define kv1 where "kv1 = snd (seed_schema_public dev kv pack (cstr pack_name) flds)"
  have "same_users kv kv1" "store_inv kv1"
    using put_schema_users [OF assms(1,2)] put_schema_inv [OF assms(1,2)] schema_small assms(3)
    by (auto simp: kv1_def seed_schema_public_def)
  with seed_cards_users [OF assms(1,4) _ assms(5)] False show ?thesis
    by (auto simp: seed_reference_def kv1_def [symmetric] intro: same_users_trans)
qed

lemma seed_packs_users:
  assumes "nor_flash dev" "store_inv kv"
  shows "same_users kv (seed_packs dev kv)"
proof -
  define kv1 where "kv1 = snd (seed_schema dev kv (ucast USER_PACK) (cstr ''users'') init_user_fields)"
  define kv2 where "kv2 = seed_reference dev 2 ''days'' days_fields days_cards kv1"
  define kv3 where "kv3 = seed_reference dev 3 ''countries'' countries_fields countries_cards kv2"
  have sm: "build_schema_card 256 (cstr ''users'') init_user_fields = Some crd \<Longrightarrow> kv_small crd" for crd
    unfolding build_schema_card_def build_schema_card_ex_def by (erule schema_small) (rule seed_tables)
  have 1: "same_users kv kv1" "store_inv kv1"
    using put_schema_users [OF assms sm] put_schema_inv [OF assms sm] by (simp_all add: kv1_def seed_schema_def)
  have 2: "same_users kv1 kv2" "store_inv kv2"
    using seed_reference_users [OF assms(1) 1(2) seed_tables(2,5)] seed_reference_inv [OF assms(1) 1(2) seed_tables(2,5)] by (simp_all add: kv2_def)
  have 3: "same_users kv2 kv3" "store_inv kv3"
    using seed_reference_users [OF assms(1) 2(2) seed_tables(3,6)] seed_reference_inv [OF assms(1) 2(2) seed_tables(3,6)] by (simp_all add: kv3_def)
  have "same_users kv3 (seed_packs dev kv)"
    using seed_reference_users [OF assms(1) 3(2) seed_tables(4,7)] by (simp add: seed_packs_def Let_def kv1_def kv2_def kv3_def)
  with 1 2 3 show ?thesis by (blast intro: same_users_trans)
qed

lemma same_users_accounts: "same_users kv kv' \<Longrightarrow> accounts kv' = accounts kv"
  by (rule ext) (simp add: accounts_def read_card_def same_users_def)

lemma demo_boot:
  "store_inv (au_kv (demo_state kv_boot))" "kv_get_copy (au_kv (demo_state kv_boot)) (USER_KEY 0) True (Some 512) = Miss"
  by (simp add: demo_state_def store_inv_boot)
    (simp add: demo_state_def kv_get_copy_def idx_get_def kv_boot_def idx_find_linear_def idx_search.simps)

lemma demo_start:
  obtains s0 where "user_auth_init demo_env (demo_state kv_boot) = Some s0"
proof -
  have "kv_get_copy (seed_packs (en_dev demo_env) kv_boot) (USER_KEY 0) True (Some 512) = Miss"
    using seed_packs_users [OF demo_ok(2) demo_boot(1)] demo_boot(2) by (simp add: same_users_def demo_state_def)
  then show thesis by (intro that) (simp add: user_auth_init_def Let_def demo_state_def case_prod_beta)
qed

subsection \<open>Properties\<close>



text \<open>
  The first start. \<open>user_auth_init\<close> leaves every account as it is, save that an administrator is made when there is no
  card 0: unless the flash refuses the write, account 0 is then \<open>admin\<close> with password \<open>admin\<close>, the flag
  of administrators and all packs.
\<close>

theorem user_auth_init_accounts:
  assumes "sha_ok en" "nor_flash (en_dev en)" "store_inv (au_kv s)" "user_auth_init en s = Some s'"
  shows "case kv_get_copy (au_kv s) (USER_KEY 0) True (Some 512) of
      Miss \<Rightarrow> accounts (au_kv s') = accounts (au_kv s)
        \<or> (\<exists>a. accounts (au_kv s') = (accounts (au_kv s))(0 \<mapsto> a) \<and> uc_name a = cstr ''admin'' \<and> password_ok en a (cstr ''admin'')
             \<and> uc_flags a = USER_FLAG_ADMIN OR USER_FLAG_MUST_CHANGE \<and> uc_read a = [0xFFFF] \<and> uc_write a = [0xFFFF] \<and> uc_del a = [0xFFFF])
    | _ \<Rightarrow> accounts (au_kv s') = accounts (au_kv s)"
proof -
  define s1 where "s1 = s\<lparr>g_sessions := replicate SESSION_MAX no_session, au_kv := seed_packs (en_dev en) (au_kv s)\<rparr>"
  have su: "same_users (au_kv s) (au_kv s1)" using seed_packs_users [OF assms(2,3)] by (simp add: s1_def)
  have inv1: "store_inv (au_kv s1)" using seed_packs_inv [OF assms(2,3)] by (simp add: s1_def)
  have get: "kv_get_copy (au_kv s1) (USER_KEY 0) True (Some 512) = kv_get_copy (au_kv s) (USER_KEY 0) True (Some 512)"
    using su by (simp add: same_users_def)
  note run = assms(4) [unfolded user_auth_init_def Let_def, folded s1_def, unfolded get]
  note acc = same_users_accounts [OF su]
  show ?thesis
  proof (cases "kv_get_copy (au_kv s) (USER_KEY 0) True (Some 512)")
    case Miss
    obtain salt s2 where g: "gen_random en s1 USER_SALT_LEN = (salt, s2)" by (metis prod.exhaust)
    define a where "a = \<lparr>uc_name = cstr ''admin'', uc_hash = sha256_hash en salt (cstr ''admin''), uc_salt = salt,
      uc_flags = USER_FLAG_ADMIN OR USER_FLAG_MUST_CHANGE, uc_fails = 0, uc_read = [0xFFFF], uc_write = [0xFFFF], uc_del = [0xFFFF]\<rparr>"
    note gr = gen_random_rest [OF g]
    have s': "s' = store_card en s2 (USER_KEY 0) (build_acct 256 a)" using run Miss g by (simp add: build_acct_def a_def)
    have ok: "acct_ok a" using gr assms(1) by (simp add: acct_ok_def a_def cstr_def sha256_hash_def sha_ok_def)
    have len: "length (acct_bytes a) \<le> 256"
      using ok by (simp add: acct_bytes_def card_header_def acct_ok_def USER_HASH_LEN_def USER_SALT_LEN_def) (simp add: a_def cstr_def)
    have inv2: "store_inv (au_kv s2)" using inv1 gr by simp
    from store_acct(2) [OF assms(2) inv2 ok len, of 0] s' gr acc
    have "accounts (au_kv s') = accounts (au_kv s) \<or> accounts (au_kv s') = (accounts (au_kv s))(0 \<mapsto> a)" by (auto split: if_split_asm)
    with Miss show ?thesis by (auto simp: a_def password_ok_def sha256_hash_def)
  next
    case (Found x)
    with run acc show ?thesis by simp
  next
    case Fault
    with run show ?thesis by simp
  qed
qed

theorem user_auth_init_accounts_witness:
  "\<exists>s'. user_auth_init demo_env (demo_state kv_boot) = Some s'
     \<and> (accounts (au_kv s') = accounts kv_boot \<or> (\<exists>a. accounts (au_kv s') 0 = Some a \<and> uc_name a = cstr ''admin''))"
proof -
  obtain s0 where s0: "user_auth_init demo_env (demo_state kv_boot) = Some s0" by (rule demo_start)
  from user_auth_init_accounts [OF demo_ok(1,2) demo_boot(1) s0] s0 demo_boot(2) show ?thesis by (auto simp: demo_state_def)
qed

end
