(* ===== verification/QueryText.thy ===== *)
theory QueryText
  imports KvRouter
begin

text \<open>
  The texts of \<open>src/query.c\<close>: C strings as the characters before their final zero, the conversions between numbers and
  decimal digits, and the parser of queries.

  A fixed array of characters that is filled with \<open>strncpy\<close> and closed by hand is the cut string. \<open>long\<close> has 32 bits
  on the target, so \<open>strtol\<close> stops at the bounds of \<open>int32_t\<close>.
\<close>

unbundle bit_operations_syntax

subsection \<open>Strings of C\<close>

text \<open>The string that an array of bytes holds.\<close>

definition c_string :: "byte list \<Rightarrow> byte list" where
  "c_string xs = takeWhile (\<lambda>c. c \<noteq> 0) xs"

text \<open>\<open>strcmp\<close>: the difference of the first two characters that differ, the final zero included.\<close>

fun strcmp :: "byte list \<Rightarrow> byte list \<Rightarrow> int" where
  "strcmp [] [] = 0"
| "strcmp [] (b # bs) = - uint b"
| "strcmp (a # as) [] = uint a"
| "strcmp (a # as) (b # bs) = (if a = b then strcmp as bs else uint a - uint b)"

fun strcasecmp_local :: "byte list \<Rightarrow> byte list \<Rightarrow> int" where
  "strcasecmp_local [] [] = 0"
| "strcasecmp_local [] (b # bs) = - uint b"
| "strcasecmp_local (a # as) [] = uint a"
| "strcasecmp_local (a # as) (b # bs) =
     (if tolower a \<noteq> tolower b then uint (tolower a) - uint (tolower b) else strcasecmp_local as bs)"

text \<open>The comparison of pack names: equal lengths, and equal characters without regard to case.\<close>

definition name_match :: "byte list \<Rightarrow> byte list \<Rightarrow> bool" where
  "name_match a b \<longleftrightarrow> length a = length b \<and> list_all2 (\<lambda>x y. tolower x = tolower y) a b"

definition skip_spaces :: "byte list \<Rightarrow> byte list" where
  "skip_spaces xs = dropWhile (\<lambda>c. c = 0x20) xs"

text \<open>The text before the first character \<open>c\<close>, and what follows it if there is one.\<close>

fun split_char :: "byte \<Rightarrow> byte list \<Rightarrow> byte list \<times> byte list option" where
  "split_char c [] = ([], None)"
| "split_char c (x # xs) = (if x = c then ([], Some xs) else case split_char c xs of (a, r) \<Rightarrow> (x # a, r))"

subsection \<open>Numbers\<close>

function dec_nat :: "nat \<Rightarrow> byte list" where
  "dec_nat n = (if n < 10 then [0x30 + word_of_nat n] else dec_nat (n div 10) @ [0x30 + word_of_nat (n mod 10)])"
  by pat_completeness auto
termination
  by (relation "measure id") auto

declare dec_nat.simps [simp del]

definition dec_int :: "int \<Rightarrow> byte list" where
  "dec_int i = (if i < 0 then 0x2D # dec_nat (nat (- i)) else dec_nat (nat i))"

definition is_digit :: "byte \<Rightarrow> bool" where
  "is_digit c \<longleftrightarrow> 0x30 \<le> c \<and> c \<le> 0x39"

definition is_space :: "byte \<Rightarrow> bool" where
  "is_space c \<longleftrightarrow> c = 0x20 \<or> (0x09 \<le> c \<and> c \<le> 0x0D)"

definition digits_val :: "byte list \<Rightarrow> int" where
  "digits_val ds = foldl (\<lambda>v d. v * 10 + (uint d - 0x30)) 0 ds"

text \<open>The sign and the value of the digits at the front, for \<open>strtol\<close> and \<open>strtoul\<close>.\<close>

definition parse_number :: "byte list \<Rightarrow> bool \<times> int" where
  "parse_number s =
     (let t = dropWhile is_space s;
          (neg, ds) = (case t of [] \<Rightarrow> (False, []) | c # cs \<Rightarrow> if c = 0x2D then (True, cs) else if c = 0x2B then (False, cs) else (False, t)) in
      (neg, digits_val (takeWhile is_digit ds)))"

definition strtol :: "byte list \<Rightarrow> int" where
  "strtol s =
     (let (neg, v) = parse_number s; w = (if neg then - v else v) in
      if w < - 2147483648 then - 2147483648 else if 2147483647 < w then 2147483647 else w)"

definition strtoul :: "byte list \<Rightarrow> u32" where
  "strtoul s =
     (let (neg, v) = parse_number s in
      if 4294967295 < v then 0xFFFFFFFF else if neg then - word_of_int v else word_of_int v)"

subsection \<open>Queries\<close>

datatype query_op_t = QOP_EQ | QOP_NE | QOP_GT | QOP_LT | QOP_GE | QOP_LE | QOP_IN | QOP_NI
datatype query_agg_t = QAGG_NONE | QAGG_SUM | QAGG_AVG | QAGG_MIN | QAGG_MAX | QAGG_COUNT | QAGG_FIRST

definition QUERY_MAX_SELECT :: nat where "QUERY_MAX_SELECT = 16"
definition QUERY_MAX_WHERE :: nat where "QUERY_MAX_WHERE = 8"
definition QUERY_MAX_RESULTS :: nat where "QUERY_MAX_RESULTS = 100"

record query_where_t =
  qw_pack :: "byte list"
  qw_field :: "byte list"
  qw_op :: query_op_t
  qw_value :: "byte list"

record query_select_t =
  qs_pack :: "byte list"
  qs_field :: "byte list"
  qs_agg :: query_agg_t

text \<open>The array of SELECT fields has all its 16 elements, since the code reads beyond \<open>select_count\<close>.\<close>

record query_t =
  q_select_fields :: "query_select_t list"
  q_select_count :: nat
  q_from_decks :: "byte list list"
  q_where :: "query_where_t list"
  q_valid :: bool

definition query_empty :: query_t where
  "query_empty = \<lparr>q_select_fields = replicate QUERY_MAX_SELECT \<lparr>qs_pack = [], qs_field = [], qs_agg = QAGG_NONE\<rparr>, q_select_count = 0,
     q_from_decks = [], q_where = [], q_valid = False\<rparr>"

definition parse_op :: "byte list \<Rightarrow> query_op_t" where
  "parse_op s =
     (if s = cstr ''=='' then QOP_EQ else if s = cstr ''!='' then QOP_NE else if s = cstr ''>'' then QOP_GT else if s = cstr ''<'' then QOP_LT
      else if s = cstr ''>='' then QOP_GE else if s = cstr ''<='' then QOP_LE else if s = cstr ''IN'' \<or> s = cstr ''in'' then QOP_IN
      else if s = cstr ''NI'' \<or> s = cstr ''ni'' then QOP_NI else QOP_EQ)"

definition parse_agg :: "byte list \<Rightarrow> query_agg_t" where
  "parse_agg s =
     (if s = cstr ''SUM'' \<or> s = cstr ''sum'' then QAGG_SUM else if s = cstr ''AVG'' \<or> s = cstr ''avg'' then QAGG_AVG
      else if s = cstr ''MIN'' \<or> s = cstr ''min'' then QAGG_MIN else if s = cstr ''MAX'' \<or> s = cstr ''max'' then QAGG_MAX
      else if s = cstr ''COUNT'' \<or> s = cstr ''count'' then QAGG_COUNT else if s = cstr ''FIRST'' \<or> s = cstr ''first'' then QAGG_FIRST
      else QAGG_NONE)"

text \<open>The pack and the field, in arrays of 32 characters.\<close>

definition split_dotted :: "byte list \<Rightarrow> byte list \<times> byte list" where
  "split_dotted s = (case split_char 0x2E s of (a, Some b) \<Rightarrow> (take 31 a, take 31 b) | (a, None) \<Rightarrow> ([], take 31 s))"

text \<open>Carriage returns become line feeds, other control characters spaces.\<close>

definition sanitize :: "byte \<Rightarrow> byte" where
  "sanitize c = (if c = 0x0D then 0x0A else if c < 0x20 \<and> c \<noteq> 0x0A then 0x20 else c)"

text \<open>At most 16 lines: the end of a line is only cut off when the search for the next one begins, so the last has all the rest.\<close>

fun query_lines :: "nat \<Rightarrow> byte list \<Rightarrow> byte list list" where
  "query_lines 0 xs = []"
| "query_lines (Suc n) xs =
     (let ys = dropWhile (\<lambda>c. c = 0x0A) xs in
      if ys = [] then [] else if n = 0 then [ys]
      else takeWhile (\<lambda>c. c \<noteq> 0x0A) ys # query_lines n (dropWhile (\<lambda>c. c \<noteq> 0x0A) ys))"

text \<open>
  The loop over a list with commas, at most \<open>k\<close> elements: separators are skipped, an element ends before the next comma, and the
  spaces at its end are cut off.
\<close>

definition trim_end :: "byte list \<Rightarrow> byte list" where
  "trim_end xs = rev (dropWhile (\<lambda>c. c = 0x20) (rev xs))"

fun comma_items :: "nat \<Rightarrow> byte list \<Rightarrow> byte list list" where
  "comma_items 0 xs = []"
| "comma_items (Suc k) xs =
     (let f = dropWhile (\<lambda>c. c = 0x20 \<or> c = 0x2C) xs in
      if f = [] then []
      else case split_char 0x2C f of (a, r) \<Rightarrow> trim_end a # comma_items k (case r of None \<Rightarrow> [] | Some b \<Rightarrow> b))"

definition select_item :: "byte list \<Rightarrow> query_select_t" where
  "select_item f =
     (let (agg, g) = (case split_char 0x7C f of (a, None) \<Rightarrow> (QAGG_NONE, f) | (a, Some b) \<Rightarrow> (parse_agg a, skip_spaces b));
          (pack, field) = split_dotted g in
      \<lparr>qs_pack = pack, qs_field = field, qs_agg = agg\<rparr>)"

definition add_select :: "query_select_t \<Rightarrow> query_t \<Rightarrow> query_t" where
  "add_select x q = q\<lparr>q_select_fields := (q_select_fields q)[q_select_count q := x], q_select_count := q_select_count q + 1\<rparr>"

definition parse_line :: "byte list \<Rightarrow> query_t \<Rightarrow> query_t" where
  "parse_line l q =
     (let line = skip_spaces l; rest = drop 2 line in
      if length line < 2 \<or> line ! 1 \<noteq> 0x3A then q
      else if line ! 0 = 0x53 then
        (let f = skip_spaces rest in
         if f \<noteq> [] \<and> f ! 0 = 0x2A then q\<lparr>q_select_count := 0\<rparr>
         else fold (\<lambda>x. add_select (select_item x)) (comma_items (QUERY_MAX_SELECT - q_select_count q) f) q)
      else if line ! 0 = 0x46 then
        q\<lparr>q_from_decks := q_from_decks q @ map (take 31) (comma_items (4 - length (q_from_decks q)) rest)\<rparr>
      else if line ! 0 = 0x57 \<and> length (q_where q) < QUERY_MAX_WHERE then
        (case split_char 0x7C rest of
           (a, None) \<Rightarrow> q
         | (a, Some b) \<Rightarrow>
             (case split_char 0x7C b of
                (o1, None) \<Rightarrow> q
              | (o1, Some v) \<Rightarrow>
                  (case split_dotted (skip_spaces a) of
                     (pack, field) \<Rightarrow>
                       q\<lparr>q_where := q_where q @ [\<lparr>qw_pack = pack, qw_field = field, qw_op = parse_op (skip_spaces o1),
                            qw_value = take 63 (skip_spaces v)\<rparr>]\<rparr>)))
      else q)"

text \<open>The length is taken as 16 bits; the texts here are shorter than that.\<close>

definition query_parse :: "byte list \<Rightarrow> query_t" where
  "query_parse text =
     (if 512 \<le> length text then query_empty
      else
        let q = fold parse_line (query_lines 16 (map sanitize text)) query_empty in
        q\<lparr>q_valid := q_from_decks q \<noteq> []\<rparr>)"

end
