(* ===== verification/QueryFields.thy ===== *)
theory QueryFields
  imports QueryText
begin

text \<open>
  Reading a field of a card as text or as a number, the comparisons of a WHERE clause, and the escaping of a value in the
  output of \<open>src/query.c\<close>. The outer \<open>None\<close> is a read behind the bytes of the card.
\<close>

unbundle bit_operations_syntax

subsection \<open>The fields of a card\<close>

text \<open>The first field with an ordinal: the offset of its data and their length.\<close>

function find_ord :: "byte list \<Rightarrow> nat \<Rightarrow> byte \<Rightarrow> (nat \<times> nat) option" where
  "find_ord crd off ord =
     (if length crd \<le> off + 1 then None
      else
        let flen = unat (crd ! (off + 1)); dat = off + 2 in
        if length crd < dat + flen then None
        else if crd ! off AND 0x1F = ord then Some (dat, flen)
        else find_ord crd (dat + flen) ord)"
  by pat_completeness auto
termination
  by (relation "measure (\<lambda>(crd, off, ord). length crd - off)") auto

declare find_ord.simps [simp del]

definition card_field :: "byte list \<Rightarrow> byte \<Rightarrow> (nat \<times> nat) option" where
  "card_field crd ord = (if length crd < 4 \<or> crd ! 0 \<noteq> 0x7D \<or> crd ! 1 \<noteq> 0xCA then None else find_ord crd 4 ord)"

text \<open>The numbers in a field; a field that is too short counts as 0.\<close>

definition field_u8 :: "byte list \<Rightarrow> nat \<Rightarrow> nat \<Rightarrow> byte" where
  "field_u8 crd dat flen = (if flen = 0 then 0 else crd ! dat)"

definition field_u16 :: "byte list \<Rightarrow> nat \<Rightarrow> nat \<Rightarrow> u16" where
  "field_u16 crd dat flen = (if 2 \<le> flen then le16 (crd ! dat) (crd ! (dat + 1)) else 0)"

definition field_u32 :: "byte list \<Rightarrow> nat \<Rightarrow> nat \<Rightarrow> u32" where
  "field_u32 crd dat flen = (if 4 \<le> flen then le32 (crd ! dat) (crd ! (dat + 1)) (crd ! (dat + 2)) (crd ! (dat + 3)) else 0)"

text \<open>The numbers of an array as text with commas, while the text is shorter than \<open>out_max - 6\<close>.\<close>

fun array_text :: "byte list \<Rightarrow> nat \<Rightarrow> nat \<Rightarrow> nat \<Rightarrow> nat list \<Rightarrow> byte list \<Rightarrow> byte list option" where
  "array_text crd dat bc out_max [] out = Some out"
| "array_text crd dat bc out_max (i # is) out =
     (if i + 1 < bc \<and> length out + 6 < out_max then
        if length crd \<le> dat + 2 + i then None
        else array_text crd dat bc out_max is
          (out @ (if out = [] then [] else [0x2C]) @ dec_nat (unat (le16 (crd ! (dat + 1 + i)) (crd ! (dat + 2 + i)))))
      else Some out)"

text \<open>The text is empty where the field is missing.\<close>

definition extract_field_str :: "byte list \<Rightarrow> byte \<Rightarrow> byte \<Rightarrow> nat \<Rightarrow> byte list option" where
  "extract_field_str crd target_ord type_code out_max =
     (case card_field crd target_ord of
        None \<Rightarrow> Some []
      | Some (dat, flen) \<Rightarrow>
          let cut = take (out_max - 1) in
          if type_code = 0x07 then Some (cut (if field_u8 crd dat flen \<noteq> 0 then cstr ''true'' else cstr ''false''))
          else if type_code = 0x01 then Some (cut (dec_nat (unat (field_u8 crd dat flen))))
          else if type_code = 0x02 then Some (cut (dec_nat (unat (field_u16 crd dat flen))))
          else if type_code = 0x03 \<or> type_code = 0x12 then Some (cut (dec_nat (unat (field_u32 crd dat flen))))
          else if type_code = 0x04 then Some (cut (dec_int (sint (field_u8 crd dat flen))))
          else if type_code = 0x05 then Some (cut (dec_int (sint (field_u16 crd dat flen))))
          else if type_code = 0x06 then Some (cut (dec_int (sint (field_u32 crd dat flen))))
          else if type_code = 0x08 \<or> type_code = 0x09 then
            Some (if flen = 0 then []
                  else c_string (segment (dat + 1) (min (min (unat (crd ! dat)) (flen - 1)) (out_max - 1)) crd))
          else if type_code = 0x10 then
            (if flen = 0 then Some [] else array_text crd dat (unat (crd ! dat)) out_max (map (\<lambda>i. 2 * i) [0..<128]) [])
          else Some [])"

text \<open>The same for numbers, without the text.\<close>

definition extract_field_int32 :: "byte list \<Rightarrow> byte \<Rightarrow> byte \<Rightarrow> u32 option" where
  "extract_field_int32 crd target_ord type_code =
     (case card_field crd target_ord of
        None \<Rightarrow> None
      | Some (dat, flen) \<Rightarrow>
          if type_code = 0x01 then Some (ucast (field_u8 crd dat flen))
          else if type_code = 0x02 then Some (ucast (field_u16 crd dat flen))
          else if type_code = 0x03 \<or> type_code = 0x12 then Some (field_u32 crd dat flen)
          else if type_code = 0x04 then Some (scast (field_u8 crd dat flen))
          else if type_code = 0x05 then Some (scast (field_u16 crd dat flen))
          else if type_code = 0x06 then Some (field_u32 crd dat flen)
          else None)"

subsection \<open>Comparisons\<close>

text \<open>The tokens that \<open>strtok\<close> cuts at commas: none of them is empty.\<close>

fun tokens :: "byte list \<Rightarrow> byte list \<Rightarrow> byte list list" where
  "tokens acc [] = (if acc = [] then [] else [rev acc])"
| "tokens acc (x # xs) = (if x = 0x2C then (if acc = [] then tokens [] xs else rev acc # tokens [] xs) else tokens (x # acc) xs)"

definition in_tokens :: "byte list \<Rightarrow> byte list \<Rightarrow> bool" where
  "in_tokens actual expected \<longleftrightarrow> (\<exists>t \<in> set (tokens [] (take 63 expected)). strcmp actual (skip_spaces t) = 0)"

definition compare_str :: "byte list \<Rightarrow> query_op_t \<Rightarrow> byte list \<Rightarrow> bool" where
  "compare_str actual qop expected =
     (let c = strcmp actual expected in
      case qop of
        QOP_EQ \<Rightarrow> c = 0 | QOP_NE \<Rightarrow> c \<noteq> 0 | QOP_GT \<Rightarrow> 0 < c | QOP_LT \<Rightarrow> c < 0 | QOP_GE \<Rightarrow> 0 \<le> c | QOP_LE \<Rightarrow> c \<le> 0
      | QOP_IN \<Rightarrow> in_tokens actual expected
      | QOP_NI \<Rightarrow> \<not> in_tokens actual expected)"

definition compare_long :: "int \<Rightarrow> query_op_t \<Rightarrow> int \<Rightarrow> bool" where
  "compare_long a qop e =
     (case qop of QOP_EQ \<Rightarrow> a = e | QOP_NE \<Rightarrow> a \<noteq> e | QOP_GT \<Rightarrow> e < a | QOP_LT \<Rightarrow> a < e | QOP_GE \<Rightarrow> e \<le> a | QOP_LE \<Rightarrow> a \<le> e | _ \<Rightarrow> False)"

definition compare_int :: "byte list \<Rightarrow> query_op_t \<Rightarrow> byte list \<Rightarrow> bool" where
  "compare_int actual qop expected =
     (if qop = QOP_IN \<or> qop = QOP_NI then compare_str actual qop expected else compare_long (strtol actual) qop (strtol expected))"

definition is_numeric_type :: "byte \<Rightarrow> bool" where
  "is_numeric_type tc \<longleftrightarrow> tc = 0x01 \<or> tc = 0x02 \<or> tc = 0x03 \<or> tc = 0x04 \<or> tc = 0x05 \<or> tc = 0x06 \<or> tc = 0x12"

definition compare_int_direct :: "u32 \<Rightarrow> query_op_t \<Rightarrow> byte list \<Rightarrow> bool" where
  "compare_int_direct actual qop expected =
     (if qop = QOP_IN \<or> qop = QOP_NI then compare_str (take 15 (dec_int (sint actual))) qop expected
      else compare_long (sint actual) qop (strtol expected))"

subsection \<open>Output\<close>

definition escape_char :: "byte \<Rightarrow> byte list" where
  "escape_char c =
     (if c = 0x7C then [0x5C, 0x7C] else if c = 0x0D then [0x5C, 0x72] else if c = 0x0A then [0x5C, 0x6E]
      else if c = 0x5C then [0x5C, 0x5C] else [c])"

text \<open>The loop ends two characters before the end of the buffer.\<close>

fun escape_loop :: "int \<Rightarrow> byte list \<Rightarrow> byte list \<Rightarrow> byte list" where
  "escape_loop maxn out [] = out"
| "escape_loop maxn out (c # cs) = (if int (length out) < maxn - 2 then escape_loop maxn (out @ escape_char c) cs else out)"

definition escape_field :: "int \<Rightarrow> byte list \<Rightarrow> byte list" where
  "escape_field maxn val = escape_loop maxn [] val"

end
