(* ===== verification/QueryExec.thy ===== *)
theory QueryExec
  imports QueryFields
begin

text \<open>
  The execution of a query by \<open>src/query.c\<close>: the packs it names, the rewriting of clauses on joined packs, the selected fields, the
  ordering of the clauses by their estimated cost, and the scan. The cache of pack sizes is that of \<open>src/httpd/web_server.c\<close>.

  The outer \<open>None\<close> of a result is a read or write outside of an object, or an overflow of \<open>long\<close>.
\<close>

unbundle bit_operations_syntax

subsection \<open>The fanout statistics\<close>

definition FANOUT_CACHE_MAX :: nat where "FANOUT_CACHE_MAX = 16"

record fanout_t =
  fo_child :: u16
  fo_link :: byte
  fo_parent :: u16
  fo_total :: u16
  fo_distinct :: u16

definition fanout_update :: "u16 \<Rightarrow> byte \<Rightarrow> u16 \<Rightarrow> u16 \<Rightarrow> u16 \<Rightarrow> fanout_t list \<Rightarrow> fanout_t list" where
  "fanout_update child link parent total_n distinct_n fs =
     (case find (\<lambda>i. fo_child (fs ! i) = child \<and> fo_link (fs ! i) = link) [0..<length fs] of
        Some i \<Rightarrow> fs[i := (fs ! i)\<lparr>fo_total := total_n, fo_distinct := distinct_n\<rparr>]
      | None \<Rightarrow>
          let f = \<lparr>fo_child = child, fo_link = link, fo_parent = parent, fo_total = total_n, fo_distinct = distinct_n\<rparr> in
          if length fs < FANOUT_CACHE_MAX then fs @ [f] else fs[0 := f])"

definition fanout_estimate :: "u16 \<Rightarrow> byte \<Rightarrow> fanout_t list \<Rightarrow> u16" where
  "fanout_estimate child link fs =
     (case find (\<lambda>f. fo_child f = child \<and> fo_link f = link \<and> 0 < fo_distinct f) fs of
        None \<Rightarrow> 0
      | Some f \<Rightarrow> fo_total f div fo_distinct f)"

subsection \<open>The cache of pack sizes\<close>

definition CARD_CACHE_MAX :: nat where "CARD_CACHE_MAX = 32"

record card_cache_t =
  cc_pack :: u16
  cc_bucket :: byte
  cc_dirty :: bool

definition card_count_bucket :: "nat \<Rightarrow> byte" where
  "card_count_bucket count =
     (if count < 10 then 0 else if count < 100 then 1 else if count < 1000 then 2 else if count < 10000 then 3
      else if count < 100000 then 4 else if count < 1000000 then 5 else if count < 10000000 then 6 else 7)"

definition card_cache_find :: "u16 \<Rightarrow> card_cache_t list \<Rightarrow> nat option" where
  "card_cache_find pack cs = find (\<lambda>i. cc_pack (cs ! i) = pack) [0..<length cs]"

definition card_cache_add :: "u16 \<Rightarrow> byte \<Rightarrow> card_cache_t list \<Rightarrow> card_cache_t list" where
  "card_cache_add pack bucket cs =
     (let c = \<lparr>cc_pack = pack, cc_bucket = bucket, cc_dirty = True\<rparr> in
      if length cs < CARD_CACHE_MAX then cs @ [c] else cs[0 := c])"

definition get_cardinality :: "kv_stores \<Rightarrow> u16 \<Rightarrow> card_cache_t list \<Rightarrow> byte \<times> card_cache_t list" where
  "get_cardinality st pack cs =
     (case card_cache_find pack cs of
        Some i \<Rightarrow> (cc_bucket (cs ! i), cs)
      | None \<Rightarrow>
          let bucket = card_count_bucket (length (kv_store_range st (push_bit 22 (ucast (pack AND 0x3FF))) 0xFFC00000 128)) in
          (bucket, card_cache_add pack bucket cs))"

definition set_cardinality :: "u16 \<Rightarrow> nat \<Rightarrow> card_cache_t list \<Rightarrow> card_cache_t list" where
  "set_cardinality pack count cs =
     (let bucket = card_count_bucket count in
      case card_cache_find pack cs of
        Some i \<Rightarrow> (if cc_bucket (cs ! i) \<noteq> bucket then cs[i := (cs ! i)\<lparr>cc_bucket := bucket, cc_dirty := True\<rparr>] else cs)
      | None \<Rightarrow> card_cache_add pack bucket cs)"

subsection \<open>Packs\<close>

record pack_schema_t =
  ps_ord :: u16
  ps_field_ords :: "byte list"
  ps_field_types :: "byte list"
  ps_field_maxlens :: "byte list"
  ps_field_names :: "byte list list"
  ps_field_count :: nat
  ps_name :: "byte list"

definition PACK_CACHE_SIZE :: nat where "PACK_CACHE_SIZE = 8"

record query_state =
  qy_stores :: kv_stores
  s_fanout :: "fanout_t list"
  s_card_cache :: "card_cache_t list"
  g_pack_cache :: "pack_schema_t list"

text \<open>A card in a buffer of \<open>cap\<close> bytes.\<close>

definition get_card :: "query_state \<Rightarrow> u32 \<Rightarrow> nat \<Rightarrow> byte list read_result \<times> query_state" where
  "get_card s key cap =
     (case kv_store_get_copy (qy_stores s) key (replicate cap 0) of
        (Found (buf, n, ver), st) \<Rightarrow> (Found (take n buf), s\<lparr>qy_stores := st\<rparr>)
      | (Miss, st) \<Rightarrow> (Miss, s\<lparr>qy_stores := st\<rparr>)
      | (Fault, st) \<Rightarrow> (Fault, s\<lparr>qy_stores := st\<rparr>))"

definition pack_range :: "query_state \<Rightarrow> u16 \<Rightarrow> nat \<Rightarrow> u32 list" where
  "pack_range s ord maxn = kv_store_range (qy_stores s) (push_bit 22 (scast ord)) 0xFFC00000 maxn"

definition note_count :: "u16 \<Rightarrow> nat \<Rightarrow> query_state \<Rightarrow> query_state" where
  "note_count pack n s = s\<lparr>s_card_cache := set_cardinality pack n (s_card_cache s)\<rparr>"

text \<open>The names of the fields, each cut to 31 characters.\<close>

fun field_names_loop :: "byte list \<Rightarrow> nat \<Rightarrow> nat \<Rightarrow> nat list \<Rightarrow> nat \<Rightarrow> nat \<Rightarrow> byte list list \<Rightarrow> byte list list" where
  "field_names_loop crd off fc [] si ni names = names"
| "field_names_loop crd off fc (j # js) si ni names =
     (if ni < fc \<and> ni < 32 then
        if crd ! (off + j) = 0 then field_names_loop crd off fc js (j + 1) (ni + 1) (names[ni := segment (off + si) (min (j - si) 31) crd])
        else field_names_loop crd off fc js si ni names
      else names)"

fun field_defs :: "byte list \<Rightarrow> nat \<Rightarrow> nat list \<Rightarrow> pack_schema_t \<Rightarrow> pack_schema_t" where
  "field_defs crd off [] ps = ps"
| "field_defs crd off (i # is) ps =
     field_defs crd off is (ps\<lparr>ps_field_ords := (ps_field_ords ps)[i := crd ! (off + i * 3) AND 0x1F],
       ps_field_types := (ps_field_types ps)[i := crd ! (off + i * 3 + 1)],
       ps_field_maxlens := (ps_field_maxlens ps)[i := crd ! (off + i * 3 + 2)]\<rparr>)"

text \<open>One field of a schema card, with the name and the number of fields so far.\<close>

definition schema_field :: "byte list \<Rightarrow> byte \<Rightarrow> nat \<Rightarrow> nat \<Rightarrow> byte list \<times> nat \<times> pack_schema_t \<Rightarrow> (byte list \<times> nat \<times> pack_schema_t) option" where
  "schema_field crd ord flen off v =
     (case v of (pname, fc, ps) \<Rightarrow>
        if ord = 0 \<and> 1 \<le> flen then
          let nl = min (unat (crd ! off)) 31 in
          if length crd < off + 1 + nl then None else Some (c_string (segment (off + 1) nl crd), fc, ps)
        else if ord = 1 \<and> 1 \<le> flen then Some (pname, unat (crd ! off), ps)
        else if ord = 2 then Some (pname, fc, field_defs crd off [0..<min (min fc 32) (flen div 3)] ps)
        else if ord = 5 \<and> 0 < flen then
          Some (pname, fc, ps\<lparr>ps_field_names := field_names_loop crd off fc [0..<flen] 0 0 (ps_field_names ps)\<rparr>)
        else Some v)"

function schema_scan :: "byte list \<Rightarrow> nat \<Rightarrow> byte list \<times> nat \<times> pack_schema_t \<Rightarrow> (byte list \<times> nat \<times> pack_schema_t) option" where
  "schema_scan crd off v =
     (if length crd \<le> off + 1 then Some v
      else
        let flen = unat (crd ! (off + 1)); dat = off + 2 in
        if length crd < dat + flen then Some v
        else case schema_field crd (crd ! off AND 0x1F) flen dat v of
               None \<Rightarrow> None
             | Some v' \<Rightarrow> schema_scan crd (dat + flen) v')"
  by pat_completeness auto
termination
  by (relation "measure (\<lambda>(crd, off, v). length crd - off)") auto

declare schema_scan.simps [simp del]

text \<open>The scan of pack 0. What a card before the match has left in the fields of \<open>ps\<close> stays there.\<close>

fun resolve_scan :: "byte list \<Rightarrow> u32 list \<Rightarrow> pack_schema_t \<Rightarrow> query_state \<Rightarrow> (pack_schema_t option \<times> query_state) option" where
  "resolve_scan name [] ps s = Some (None, s)"
| "resolve_scan name (k # ks) ps s =
     (case get_card s k 256 of
        (Fault, s') \<Rightarrow> None
      | (Miss, s') \<Rightarrow> resolve_scan name ks ps s'
      | (Found crd, s') \<Rightarrow>
          if length crd < 6 \<or> crd ! 0 \<noteq> 0x7D \<or> crd ! 1 \<noteq> 0xCA then resolve_scan name ks ps s'
          else (case schema_scan crd 4 ([], 0, ps) of
                  None \<Rightarrow> None
                | Some (pname, fc, ps') \<Rightarrow>
                    if name_match pname name then
                      let p = ps'\<lparr>ps_ord := ucast (k AND 0x3FFFFF), ps_field_count := fc, ps_name := pname\<rparr> in
                      Some (Some p, s'\<lparr>g_pack_cache :=
                        (if length (g_pack_cache s') < PACK_CACHE_SIZE then g_pack_cache s' @ [p] else g_pack_cache s')\<rparr>)
                    else resolve_scan name ks ps' s'))"

definition resolve_pack :: "pack_schema_t \<Rightarrow> byte list \<Rightarrow> query_state \<Rightarrow> (pack_schema_t option \<times> query_state) option" where
  "resolve_pack junk name s =
     (case find (\<lambda>p. name_match (ps_name p) name) (g_pack_cache s) of
        Some p \<Rightarrow> Some (Some p, s)
      | None \<Rightarrow> resolve_scan name (kv_store_range (qy_stores s) 0 0xFFC00000 64) junk s)"

text \<open>The number of fields is not checked against the 32 elements of the arrays.\<close>

fun first_field :: "(nat \<Rightarrow> bool) \<Rightarrow> nat list \<Rightarrow> nat option option" where
  "first_field P [] = Some None"
| "first_field P (i # is) = (if 32 \<le> i then None else if P i then Some (Some i) else first_field P is)"

definition find_field :: "pack_schema_t \<Rightarrow> byte list \<Rightarrow> nat option option" where
  "find_field ps name = first_field (\<lambda>i. strcmp (ps_field_names ps ! i) name = 0) [0..<ps_field_count ps]"

definition find_lookup_to :: "pack_schema_t \<Rightarrow> pack_schema_t \<Rightarrow> nat option option" where
  "find_lookup_to src dst =
     first_field (\<lambda>i. ps_field_types src ! i = 0x12 \<and> ps_field_maxlens src ! i = ucast (ps_ord dst)) [0..<ps_field_count src]"

fun search_loop :: "pack_schema_t \<Rightarrow> nat \<Rightarrow> byte list \<Rightarrow> query_op_t \<Rightarrow> nat \<Rightarrow> u32 list \<Rightarrow> u32 list \<Rightarrow> query_state \<Rightarrow> (u32 list \<times> query_state) option" where
  "search_loop ps fi val qop maxn [] ids s = Some (ids, s)"
| "search_loop ps fi val qop maxn (k # ks) ids s =
     (if maxn \<le> length ids then Some (ids, s)
      else case get_card s k 512 of
             (Fault, s') \<Rightarrow> None
           | (Miss, s') \<Rightarrow> search_loop ps fi val qop maxn ks ids s'
           | (Found crd, s') \<Rightarrow>
               (case extract_field_str crd (ps_field_ords ps ! fi) (ps_field_types ps ! fi) 64 of
                  None \<Rightarrow> None
                | Some actual \<Rightarrow>
                    let pass = (if is_numeric_type (ps_field_types ps ! fi) then compare_int actual qop val else compare_str actual qop val) in
                    search_loop ps fi val qop maxn ks (if pass then ids @ [k AND 0x3FFFFF] else ids) s'))"

definition search_pack_field ::
  "pack_schema_t \<Rightarrow> nat \<Rightarrow> byte list \<Rightarrow> query_op_t \<Rightarrow> nat \<Rightarrow> query_state \<Rightarrow> (u32 list \<times> query_state) option" where
  "search_pack_field ps fi val qop maxn s =
     (let keys = pack_range s (ps_ord ps) 1024 in
      search_loop ps fi val qop maxn keys [] (note_count (ps_ord ps) (length keys) s))"

end
