(* ===== verification/QueryRun.thy ===== *)
theory QueryRun
  imports QueryExec
begin

text \<open>
  \<open>query_execute\<close> of \<open>src/query.c\<close>, stage by stage: clauses, selection, cost, statistics, the scan with direct output, and the
  scan with groups and aggregates.
\<close>

unbundle bit_operations_syntax

record query_result =
  qr_text :: "byte list"
  qr_len :: nat
  qr_pack :: "byte list"
  qr_count :: nat

text \<open>A stage answers at once or goes on.\<close>

datatype 'a outcome = Reply query_result | Go 'a

text \<open>\<open>snprintf\<close> of a message to the front of the buffer: the length is that of the whole message.\<close>

definition reply_text :: "nat \<Rightarrow> byte list \<Rightarrow> byte list \<Rightarrow> 'a outcome" where
  "reply_text buf_size pname msg = Reply \<lparr>qr_text = take (buf_size - 1) msg, qr_len = length msg, qr_pack = pname, qr_count = 0\<rparr>"

definition crlf :: "byte list" where "crlf = [0x0D, 0x0A]"

subsection \<open>The packs of the query\<close>

fun resolve_all :: "pack_schema_t \<Rightarrow> nat \<Rightarrow> byte list list \<Rightarrow> pack_schema_t list \<Rightarrow> query_state \<Rightarrow> (pack_schema_t list outcome \<times> query_state) option" where
  "resolve_all junk buf_size [] ps s = Some (Go ps, s)"
| "resolve_all junk buf_size (d # ds) ps s =
     (case resolve_pack junk d s of
        None \<Rightarrow> None
      | Some (None, s') \<Rightarrow> Some (reply_text buf_size [] (cstr ''error: pack '' @ [0x27] @ d @ [0x27] @ cstr '' not found'' @ crlf), s')
      | Some (Some p, s') \<Rightarrow> resolve_all junk buf_size ds (ps @ [p]) s')"

subsection \<open>WHERE\<close>

record clause =
  cl_ord :: byte
  cl_type :: byte
  cl_op :: query_op_t
  cl_value :: "byte list"

text \<open>The numbers of the cards found, with commas, in an array of 64 characters: the last one may be cut.\<close>

fun id_list :: "u32 list \<Rightarrow> bool \<Rightarrow> byte list \<Rightarrow> byte list" where
  "id_list [] first out = out"
| "id_list (i # is) first out =
     (if 60 \<le> length out then out
      else id_list is False (take 63 ((if first then out else out @ [0x2C]) @ dec_nat (unat i))))"

definition err_field :: "byte list \<Rightarrow> byte list \<Rightarrow> byte list" where
  "err_field f p = cstr ''error: field '' @ [0x27] @ f @ [0x27] @ cstr '' not found in '' @ [0x27] @ p @ [0x27] @ crlf"

definition pack_named :: "byte list \<Rightarrow> byte list \<Rightarrow> pack_schema_t \<Rightarrow> bool" where
  "pack_named name deck p \<longleftrightarrow> strcasecmp_local name deck = 0 \<or> strcmp name (ps_name p) = 0"

definition resolve_clause ::
  "nat \<Rightarrow> byte list list \<Rightarrow> pack_schema_t list \<Rightarrow> query_where_t \<Rightarrow> query_state \<Rightarrow> (clause outcome \<times> query_state) option" where
  "resolve_clause buf_size decks packs w s =
     (let primary = packs ! 0; reply = reply_text buf_size (take 31 (ps_name primary)) in
      if qw_pack w = [] \<or> pack_named (qw_pack w) (decks ! 0) primary then
        (case find_field primary (qw_field w) of
           None \<Rightarrow> None
         | Some None \<Rightarrow> Some (reply (err_field (qw_field w) (ps_name primary)), s)
         | Some (Some fi) \<Rightarrow>
             Some (Go \<lparr>cl_ord = ps_field_ords primary ! fi, cl_type = ps_field_types primary ! fi, cl_op = qw_op w, cl_value = qw_value w\<rparr>, s))
      else
        (case find (\<lambda>j. pack_named (qw_pack w) (decks ! j) (packs ! j)) [1..<length decks] of
           None \<Rightarrow> Some (reply (cstr ''error: pack '' @ [0x27] @ qw_pack w @ [0x27] @ cstr '' not in FROM'' @ crlf), s)
         | Some j \<Rightarrow>
             let joined = packs ! j in
             (case find_field joined (qw_field w) of
                None \<Rightarrow> None
              | Some None \<Rightarrow> Some (reply (err_field (qw_field w) (ps_name joined)), s)
              | Some (Some jfi) \<Rightarrow>
                  (case search_pack_field joined jfi (qw_value w) (qw_op w) 64 s of
                     None \<Rightarrow> None
                   | Some (ids, s1) \<Rightarrow>
                       if ids = [] then Some (reply [], s1)
                       else
                         (case find_lookup_to primary joined of
                            None \<Rightarrow> None
                          | Some None \<Rightarrow> Some (reply (cstr ''error: no lookup from '' @ [0x27] @ ps_name primary @ [0x27] @ cstr '' to '' @ [0x27]
                              @ ps_name joined @ [0x27] @ crlf), s1)
                          | Some (Some lf) \<Rightarrow>
                              Some (Go \<lparr>cl_ord = ps_field_ords primary ! lf, cl_type = ps_field_types primary ! lf, cl_op = QOP_IN,
                                cl_value = id_list ids True []\<rparr>, s1))))))"

fun resolve_clauses ::
  "nat \<Rightarrow> byte list list \<Rightarrow> pack_schema_t list \<Rightarrow> query_where_t list \<Rightarrow> clause list \<Rightarrow> query_state \<Rightarrow> (clause list outcome \<times> query_state) option" where
  "resolve_clauses buf_size decks packs [] cs s = Some (Go cs, s)"
| "resolve_clauses buf_size decks packs (w # ws) cs s =
     (case resolve_clause buf_size decks packs w s of
        None \<Rightarrow> None
      | Some (Reply r, s') \<Rightarrow> Some (Reply r, s')
      | Some (Go c, s') \<Rightarrow> resolve_clauses buf_size decks packs ws (cs @ [c]) s')"

subsection \<open>SELECT\<close>

text \<open>The index of the pack is \<open>None\<close> where the code has -1; the ordinal 0xFF is that of a field that was not found.\<close>

record selection =
  sl_ord :: byte
  sl_type :: byte
  sl_pack :: "nat option"
  sl_agg :: query_agg_t

definition select_named :: "byte list list \<Rightarrow> pack_schema_t list \<Rightarrow> query_select_t \<Rightarrow> selection option" where
  "select_named decks packs x =
     (let pi = (if qs_pack x = [] then None else find (\<lambda>j. pack_named (qs_pack x) (decks ! j) (packs ! j)) [0..<length decks]);
          target = packs ! (case pi of None \<Rightarrow> 0 | Some j \<Rightarrow> j) in
      case find_field target (qs_field x) of
        None \<Rightarrow> None
      | Some None \<Rightarrow> Some \<lparr>sl_ord = 0xFF, sl_type = 0, sl_pack = pi, sl_agg = qs_agg x\<rparr>
      | Some (Some fi) \<Rightarrow> Some \<lparr>sl_ord = ps_field_ords target ! fi, sl_type = ps_field_types target ! fi, sl_pack = pi, sl_agg = qs_agg x\<rparr>)"

fun select_all :: "byte list list \<Rightarrow> pack_schema_t list \<Rightarrow> query_select_t list \<Rightarrow> selection list option" where
  "select_all decks packs [] = Some []"
| "select_all decks packs (x # xs) =
     (case select_named decks packs x of
        None \<Rightarrow> None
      | Some y \<Rightarrow> map_option (\<lambda>ys. y # ys) (select_all decks packs xs))"

definition selections :: "query_t \<Rightarrow> pack_schema_t list \<Rightarrow> selection list option" where
  "selections q packs =
     (if q_select_count q = 0 then
        let p = packs ! 0 in
        Some (map (\<lambda>i. \<lparr>sl_ord = ps_field_ords p ! i, sl_type = ps_field_types p ! i, sl_pack = None, sl_agg = qs_agg (q_select_fields q ! i)\<rparr>)
          [0..<min (ps_field_count p) QUERY_MAX_SELECT])
      else select_all (q_from_decks q) packs (take (min (q_select_count q) QUERY_MAX_SELECT) (q_select_fields q)))"

subsection \<open>The order of the clauses\<close>

definition value_count :: "byte list \<Rightarrow> u32" where
  "value_count val = ucast (1 + word_of_nat (length (filter (\<lambda>c. c = 0x2C) val)) :: byte)"

definition clause_cost :: "u32 \<Rightarrow> u16 \<Rightarrow> fanout_t list \<Rightarrow> clause \<Rightarrow> u32" where
  "clause_cost est_rows pack fs c =
     (if cl_type c = 0x12 then
        let fo = fanout_estimate pack (cl_ord c) fs; one = (if 0 < fo then ucast fo else est_rows div 4) in
        if cl_op c = QOP_EQ then one
        else if cl_op c = QOP_IN then one * value_count (cl_value c)
        else est_rows div 2
      else if cl_op c = QOP_EQ then est_rows div 10 + 1
      else if cl_op c = QOP_IN \<or> cl_op c = QOP_NI then est_rows * value_count (cl_value c) div 10 + 1
      else if cl_op c = QOP_NE then est_rows
      else est_rows div 2 + 1)"

text \<open>The exchange sort on the clauses with their costs.\<close>

definition swap_at :: "nat \<Rightarrow> nat \<Rightarrow> 'a list \<Rightarrow> 'a list" where
  "swap_at i j xs = xs[i := xs ! j, j := xs ! i]"

definition exchange_sort :: "(u32 \<times> clause) list \<Rightarrow> (u32 \<times> clause) list" where
  "exchange_sort xs =
     fold (\<lambda>i. fold (\<lambda>j ys. if fst (ys ! j) < fst (ys ! i) then swap_at i j ys else ys) [i + 1..<length xs]) [0..<length xs - 1] xs"

definition reorder_clauses :: "u16 \<Rightarrow> clause list \<Rightarrow> query_state \<Rightarrow> clause list \<times> query_state" where
  "reorder_clauses pack cs s =
     (if length cs \<le> 1 then (cs, s)
      else
        let (bucket, cache) = get_cardinality (qy_stores s) pack (s_card_cache s); est_rows = 10 ^ unat bucket in
        (map snd (exchange_sort (map (\<lambda>c. (clause_cost est_rows pack (s_fanout s) c, c)) cs)), s\<lparr>s_card_cache := cache\<rparr>))"

text \<open>The statistics of the lookup fields, from the first 64 cards.\<close>

fun distinct_loop :: "clause \<Rightarrow> u32 list \<Rightarrow> u32 list \<Rightarrow> query_state \<Rightarrow> (u32 list \<times> query_state) option" where
  "distinct_loop c [] seen s = Some (seen, s)"
| "distinct_loop c (k # ks) seen s =
     (case get_card s k 256 of
        (Fault, s') \<Rightarrow> None
      | (Miss, s') \<Rightarrow> distinct_loop c ks seen s'
      | (Found crd, s') \<Rightarrow>
          (case extract_field_str crd (cl_ord c) (cl_type c) 16 of
             None \<Rightarrow> None
           | Some sv \<Rightarrow>
               let vid = strtoul sv in
               distinct_loop c ks (if vid \<notin> set seen \<and> length seen < 64 then seen @ [vid] else seen) s'))"

fun collect_fanout :: "u16 \<Rightarrow> u32 list \<Rightarrow> clause list \<Rightarrow> query_state \<Rightarrow> query_state option" where
  "collect_fanout pack keys [] s = Some s"
| "collect_fanout pack keys (c # cs) s =
     (if cl_type c \<noteq> 0x12 then collect_fanout pack keys cs s
      else case distinct_loop c (take 64 keys) [] s of
             None \<Rightarrow> None
           | Some (seen, s') \<Rightarrow>
               collect_fanout pack keys cs
                 (if seen = [] then s'
                  else s'\<lparr>s_fanout := fanout_update pack (cl_ord c) 0 (word_of_nat (length keys)) (word_of_nat (length seen)) (s_fanout s')\<rparr>))"

subsection \<open>The filter\<close>

definition clause_pass :: "byte list \<Rightarrow> clause \<Rightarrow> bool option" where
  "clause_pass crd c =
     (if is_numeric_type (cl_type c) then
        Some (case extract_field_int32 crd (cl_ord c) (cl_type c) of None \<Rightarrow> False | Some v \<Rightarrow> compare_int_direct v (cl_op c) (cl_value c))
      else map_option (\<lambda>actual. compare_str actual (cl_op c) (cl_value c)) (extract_field_str crd (cl_ord c) (cl_type c) 64))"

fun row_pass :: "byte list \<Rightarrow> clause list \<Rightarrow> bool option" where
  "row_pass crd [] = Some True"
| "row_pass crd (c # cs) = (case clause_pass crd c of None \<Rightarrow> None | Some False \<Rightarrow> Some False | Some True \<Rightarrow> row_pass crd cs)"

text \<open>The text of a selected field of a row, \<open>None\<close> inside where the code leaves it out.\<close>

definition field_text ::
  "pack_schema_t list \<Rightarrow> byte list \<Rightarrow> nat \<Rightarrow> selection \<Rightarrow> query_state \<Rightarrow> (byte list option \<times> query_state) option" where
  "field_text packs crd maxn x s =
     (if sl_ord x = 0xFF then Some (None, s)
      else case sl_pack x of
        Some (Suc j) \<Rightarrow>
          let p = packs ! Suc j; primary = packs ! 0 in
          (case find_lookup_to primary p of
             None \<Rightarrow> None
           | Some None \<Rightarrow> Some (None, s)
           | Some (Some lf) \<Rightarrow>
               let ref = (case extract_field_int32 crd (ps_field_ords primary ! lf) (ps_field_types primary ! lf) of None \<Rightarrow> 0 | Some v \<Rightarrow> v) in
               (case get_card s (push_bit 22 (scast (ps_ord p)) OR (ref AND 0x3FFFFF)) 512 of
                  (Fault, s') \<Rightarrow> None
                | (Miss, s') \<Rightarrow> Some (None, s')
                | (Found rcrd, s') \<Rightarrow> map_option (\<lambda>t. (Some t, s')) (extract_field_str rcrd (sl_ord x) (sl_type x) maxn)))
      | _ \<Rightarrow> map_option (\<lambda>t. (Some t, s)) (extract_field_str crd (sl_ord x) (sl_type x) maxn))"

subsection \<open>Direct output\<close>

text \<open>\<open>n < buf_size - d\<close> of the code, on signed numbers.\<close>

definition room :: "nat \<Rightarrow> byte list \<Rightarrow> int \<Rightarrow> bool" where
  "room buf_size out d \<longleftrightarrow> int (length out) < int buf_size - d"

definition put_sep :: "nat \<Rightarrow> bool \<Rightarrow> byte list \<Rightarrow> byte list" where
  "put_sep buf_size first out = (if \<not> first \<and> room buf_size out 1 then out @ [0x7C] else out)"

definition put_crlf :: "nat \<Rightarrow> byte list \<Rightarrow> byte list" where
  "put_crlf buf_size out = (if room buf_size out 2 then out @ crlf else out)"

definition put_escaped :: "nat \<Rightarrow> byte list \<Rightarrow> byte list \<Rightarrow> byte list" where
  "put_escaped buf_size val out = out @ escape_field (int buf_size - int (length out)) val"

fun row_fields ::
  "nat \<Rightarrow> pack_schema_t list \<Rightarrow> byte list \<Rightarrow> selection list \<Rightarrow> bool \<Rightarrow> byte list \<Rightarrow> query_state \<Rightarrow> (byte list \<times> query_state) option" where
  "row_fields buf_size packs crd [] first out s = Some (out, s)"
| "row_fields buf_size packs crd (x # xs) first out s =
     (if \<not> room buf_size out 100 then Some (out, s)
      else case field_text packs crd 64 x s of
             None \<Rightarrow> None
           | Some (t, s') \<Rightarrow>
               let out1 = put_sep buf_size first out in
               row_fields buf_size packs crd xs False (case t of None \<Rightarrow> out1 | Some val \<Rightarrow> put_escaped buf_size val out1) s')"

fun direct_rows ::
  "nat \<Rightarrow> pack_schema_t list \<Rightarrow> clause list \<Rightarrow> selection list \<Rightarrow> u32 list \<Rightarrow> nat \<Rightarrow> byte list \<Rightarrow> query_state
     \<Rightarrow> (byte list \<times> nat \<times> query_state) option" where
  "direct_rows buf_size packs cs xs [] rows out s = Some (out, rows, s)"
| "direct_rows buf_size packs cs xs (k # ks) rows out s =
     (if QUERY_MAX_RESULTS \<le> rows then Some (out, rows, s)
      else case get_card s k 512 of
             (Fault, s1) \<Rightarrow> None
           | (Miss, s1) \<Rightarrow> direct_rows buf_size packs cs xs ks rows out s1
           | (Found crd, s1) \<Rightarrow>
               (case row_pass crd cs of
                  None \<Rightarrow> None
                | Some False \<Rightarrow> direct_rows buf_size packs cs xs ks rows out s1
                | Some True \<Rightarrow>
                    (case row_fields buf_size packs crd xs True out s1 of
                       None \<Rightarrow> None
                     | Some (out1, s2) \<Rightarrow> direct_rows buf_size packs cs xs ks (rows + 1) (put_crlf buf_size out1) s2)))"

end
