(* ===== verification/QueryAgg.thy ===== *)
theory QueryAgg
  imports QueryRun
begin

text \<open>
  The groups and aggregates of \<open>src/query.c\<close>, and \<open>query_execute\<close> as a whole. \<open>long\<close> has 32 bits: a sum that leaves them is
  undefined in C and \<open>None\<close> here, and so are the zero written behind a full group key and a number printed behind the buffer.
\<close>

unbundle bit_operations_syntax

definition AGG_MAX_ROWS :: nat where "AGG_MAX_ROWS = 32"
definition AGG_MAX_GROUPS :: nat where "AGG_MAX_GROUPS = 16"

subsection \<open>Rows\<close>

fun agg_row :: "pack_schema_t list \<Rightarrow> byte list \<Rightarrow> selection list \<Rightarrow> query_state \<Rightarrow> (byte list list \<times> query_state) option" where
  "agg_row packs crd [] s = Some ([], s)"
| "agg_row packs crd (x # xs) s =
     (case field_text packs crd 32 x s of
        None \<Rightarrow> None
      | Some (t, s') \<Rightarrow> map_option (\<lambda>(ts, s''). ((case t of None \<Rightarrow> [] | Some val \<Rightarrow> val) # ts, s'')) (agg_row packs crd xs s'))"

fun agg_rows ::
  "pack_schema_t list \<Rightarrow> clause list \<Rightarrow> selection list \<Rightarrow> u32 list \<Rightarrow> byte list list list \<Rightarrow> query_state
     \<Rightarrow> (byte list list list \<times> query_state) option" where
  "agg_rows packs cs xs [] rows s = Some (rows, s)"
| "agg_rows packs cs xs (k # ks) rows s =
     (if AGG_MAX_ROWS \<le> length rows then Some (rows, s)
      else case get_card s k 512 of
             (Fault, s1) \<Rightarrow> None
           | (Miss, s1) \<Rightarrow> agg_rows packs cs xs ks rows s1
           | (Found crd, s1) \<Rightarrow>
               (case row_pass crd cs of
                  None \<Rightarrow> None
                | Some False \<Rightarrow> agg_rows packs cs xs ks rows s1
                | Some True \<Rightarrow>
                    (case agg_row packs crd xs s1 of
                       None \<Rightarrow> None
                     | Some (row, s2) \<Rightarrow> agg_rows packs cs xs ks (rows @ [row]) s2)))"

subsection \<open>Groups\<close>

text \<open>The key in its array of 128 characters: the loop ends at the first value of which nothing is added.\<close>

fun key_loop :: "selection list \<Rightarrow> byte list list \<Rightarrow> byte list \<Rightarrow> byte list" where
  "key_loop (x # xs) (t # ts) gk =
     (if sl_agg x \<noteq> QAGG_NONE then key_loop xs ts gk
      else
        let gk1 = (if gk = [] then gk else gk @ [0x7C]); added = (if 128 \<le> length gk1 + length t then take (127 - length gk1) t else t) in
        if added = [] then gk1 else key_loop xs ts (gk1 @ added))"
| "key_loop xs ts gk = gk"

definition group_key :: "selection list \<Rightarrow> byte list list \<Rightarrow> byte list option" where
  "group_key xs row = (let gk = key_loop xs row [] in if 128 \<le> length gk then None else Some gk)"

record agg_group =
  gr_key :: "byte list"
  gr_vals :: "int list"
  gr_count :: nat
  gr_first :: "byte list list"

definition agg_start :: "query_agg_t \<Rightarrow> int" where
  "agg_start a = (case a of QAGG_MIN \<Rightarrow> 2147483647 | QAGG_MAX \<Rightarrow> - 2147483647 | _ \<Rightarrow> 0)"

definition new_group :: "selection list \<Rightarrow> byte list list \<Rightarrow> byte list \<Rightarrow> agg_group" where
  "new_group xs row gk = \<lparr>gr_key = gk, gr_vals = map (\<lambda>x. agg_start (sl_agg x)) xs, gr_count = 0, gr_first = map (take 31) row\<rparr>"

definition add_long :: "int \<Rightarrow> int \<Rightarrow> int option" where
  "add_long a b = (if - 2147483648 \<le> a + b \<and> a + b \<le> 2147483647 then Some (a + b) else None)"

definition agg_add :: "query_agg_t \<Rightarrow> int \<Rightarrow> int \<Rightarrow> int option" where
  "agg_add a acc v =
     (case a of QAGG_SUM \<Rightarrow> add_long acc v | QAGG_AVG \<Rightarrow> add_long acc v | QAGG_MIN \<Rightarrow> Some (if v < acc then v else acc)
      | QAGG_MAX \<Rightarrow> Some (if acc < v then v else acc) | _ \<Rightarrow> Some acc)"

fun agg_add_all :: "selection list \<Rightarrow> int list \<Rightarrow> byte list list \<Rightarrow> int list option" where
  "agg_add_all (x # xs) (a # as) (t # ts) =
     (case agg_add (sl_agg x) a (strtol t) of None \<Rightarrow> None | Some b \<Rightarrow> map_option (\<lambda>bs. b # bs) (agg_add_all xs as ts))"
| "agg_add_all xs as ts = Some []"

definition group_add :: "selection list \<Rightarrow> byte list list \<Rightarrow> agg_group \<Rightarrow> agg_group option" where
  "group_add xs row g = map_option (\<lambda>vs. g\<lparr>gr_vals := vs, gr_count := gr_count g + 1\<rparr>) (agg_add_all xs (gr_vals g) row)"

text \<open>One row: the group with its key, a new one, or none when all 16 are taken.\<close>

definition group_row :: "selection list \<Rightarrow> byte list list \<Rightarrow> agg_group list \<Rightarrow> agg_group list option" where
  "group_row xs row gs =
     (case group_key xs row of
        None \<Rightarrow> None
      | Some gk \<Rightarrow>
          (case find (\<lambda>i. gr_key (gs ! i) = gk) [0..<length gs] of
             Some i \<Rightarrow> map_option (\<lambda>g. gs[i := g]) (group_add xs row (gs ! i))
           | None \<Rightarrow>
               if length gs < AGG_MAX_GROUPS then map_option (\<lambda>g. gs @ [g]) (group_add xs row (new_group xs row gk)) else Some gs))"

fun group_rows :: "selection list \<Rightarrow> byte list list list \<Rightarrow> agg_group list \<Rightarrow> agg_group list option" where
  "group_rows xs [] gs = Some gs"
| "group_rows xs (row # rows) gs = (case group_row xs row gs of None \<Rightarrow> None | Some gs' \<Rightarrow> group_rows xs rows gs')"

subsection \<open>Output of the groups\<close>

text \<open>\<open>snprintf\<close> behind the text: a text that reaches the end of the buffer makes a later write leave it.\<close>

definition put_number :: "nat \<Rightarrow> int \<Rightarrow> byte list \<Rightarrow> byte list option" where
  "put_number buf_size i out = (if buf_size \<le> length out + length (dec_int i) then None else Some (out @ dec_int i))"

definition c_div :: "int \<Rightarrow> int \<Rightarrow> int" where
  "c_div a b = (if a < 0 then - (- a div b) else a div b)"

definition put_aggregate :: "nat \<Rightarrow> selection \<Rightarrow> agg_group \<Rightarrow> nat \<Rightarrow> byte list \<Rightarrow> byte list option" where
  "put_aggregate buf_size x g i out =
     (case sl_agg x of
        QAGG_SUM \<Rightarrow> put_number buf_size (gr_vals g ! i) out
      | QAGG_AVG \<Rightarrow> put_number buf_size (if gr_count g \<noteq> 0 then c_div (gr_vals g ! i) (int (gr_count g)) else 0) out
      | QAGG_MIN \<Rightarrow> put_number buf_size (gr_vals g ! i) out
      | QAGG_MAX \<Rightarrow> put_number buf_size (gr_vals g ! i) out
      | QAGG_COUNT \<Rightarrow> put_number buf_size (int (gr_count g)) out
      | QAGG_FIRST \<Rightarrow> Some (put_escaped buf_size (gr_first g ! i) out)
      | QAGG_NONE \<Rightarrow> Some (put_escaped buf_size (gr_first g ! i) out))"

fun group_fields :: "nat \<Rightarrow> selection list \<Rightarrow> agg_group \<Rightarrow> nat list \<Rightarrow> byte list \<Rightarrow> byte list option" where
  "group_fields buf_size xs g [] out = Some out"
| "group_fields buf_size xs g (i # is) out =
     (case put_aggregate buf_size (xs ! i) g i (put_sep buf_size (i = 0) out) of
        None \<Rightarrow> None
      | Some out' \<Rightarrow> group_fields buf_size xs g is out')"

fun group_output :: "nat \<Rightarrow> selection list \<Rightarrow> agg_group list \<Rightarrow> byte list \<Rightarrow> byte list option" where
  "group_output buf_size xs [] out = Some out"
| "group_output buf_size xs (g # gs) out =
     (if \<not> room buf_size out 100 then Some out
      else case group_fields buf_size xs g [0..<length xs] out of
             None \<Rightarrow> None
           | Some out' \<Rightarrow> group_output buf_size xs gs (put_crlf buf_size out'))"

subsection \<open>The whole query\<close>

text \<open>From the clauses on: the scan and its output.\<close>

definition run_scan ::
  "nat \<Rightarrow> pack_schema_t list \<Rightarrow> clause list \<Rightarrow> selection list \<Rightarrow> query_state \<Rightarrow> (query_result \<times> query_state) option" where
  "run_scan buf_size packs cs xs s =
     (let primary = packs ! 0; pname = take 31 (ps_name primary); ord = ps_ord primary;
          (cs1, s1) = reorder_clauses ord cs s; keys = pack_range s1 ord 256; s2 = note_count ord (length keys) s1 in
      case collect_fanout ord keys cs1 s2 of
        None \<Rightarrow> None
      | Some s3 \<Rightarrow>
          if \<forall>x \<in> set xs. sl_agg x = QAGG_NONE then
            map_option (\<lambda>(out, rows, s4). (\<lparr>qr_text = out, qr_len = length out, qr_pack = pname, qr_count = rows\<rparr>, s4))
              (direct_rows buf_size packs cs1 xs keys 0 [] s3)
          else
            (case agg_rows packs cs1 xs keys [] s3 of
               None \<Rightarrow> None
             | Some (rows, s4) \<Rightarrow>
                 (case group_rows xs rows [] of
                    None \<Rightarrow> None
                  | Some gs \<Rightarrow>
                      map_option (\<lambda>out. (\<lparr>qr_text = out, qr_len = length out, qr_pack = pname, qr_count = length gs\<rparr>, s4))
                        (group_output buf_size xs gs []))))"

text \<open>\<open>junk\<close> is what the array of schemas holds before it is filled.\<close>

definition query_execute :: "pack_schema_t \<Rightarrow> query_t \<Rightarrow> nat \<Rightarrow> query_state \<Rightarrow> (query_result \<times> query_state) option" where
  "query_execute junk q buf_size s =
     (let answer = (\<lambda>r s'. Some (r, s')) in
      if \<not> q_valid q \<or> q_from_decks q = [] then
        (case reply_text buf_size [] (cstr ''error: invalid query'' @ crlf) :: unit outcome of Reply r \<Rightarrow> answer r s | Go _ \<Rightarrow> None)
      else case resolve_all junk buf_size (q_from_decks q) [] s of
             None \<Rightarrow> None
           | Some (Reply r, s1) \<Rightarrow> answer r s1
           | Some (Go packs, s1) \<Rightarrow>
               if \<exists>p \<in> set packs. ps_ord p = 1 then
                 (case reply_text buf_size [] (cstr ''error: query access to users pack denied'' @ crlf) :: unit outcome of
                    Reply r \<Rightarrow> answer r s1 | Go _ \<Rightarrow> None)
               else
                 (case resolve_clauses buf_size (q_from_decks q) packs (q_where q) [] s1 of
                    None \<Rightarrow> None
                  | Some (Reply r, s2) \<Rightarrow> answer r s2
                  | Some (Go cs, s2) \<Rightarrow>
                      (case selections q packs of
                         None \<Rightarrow> None
                       | Some xs \<Rightarrow> run_scan buf_size packs cs xs s2)))"

end
