(* ===== verification/QueryLaws.thy ===== *)
theory QueryLaws
  imports QueryAgg "HOL-Library.Multiset"
begin

text \<open>
  What the query engine promises of its stages: the comparison of numbers without text is that on the text, the order of the clauses
  does not change which rows pass, and the output stays in its buffer.
\<close>

unbundle bit_operations_syntax

subsection \<open>Decimal digits\<close>

lemma uint_digit: "m < 10 \<Longrightarrow> uint (0x30 + word_of_nat m :: byte) = 48 + int m"
proof -
  assume m: "m < 10"
  have "unat (0x30 + word_of_nat m :: byte) = 48 + m" using m by (simp add: unat_word_ariths unat_of_nat)
  then show ?thesis by (simp add: uint_nat)
qed

lemma digit_is_digit: "m < 10 \<Longrightarrow> is_digit (0x30 + word_of_nat m)"
  using uint_digit [of m] by (simp add: is_digit_def word_le_def)

lemma digits_val_snoc: "digits_val (ds @ [d]) = digits_val ds * 10 + (uint d - 48)"
  by (simp add: digits_val_def)

lemma dec_nat_spec: "dec_nat n \<noteq> [] \<and> list_all is_digit (dec_nat n) \<and> digits_val (dec_nat n) = int n"
proof (induction n rule: dec_nat.induct)
  case (1 n)
  show ?case
  proof (cases "n < 10")
    case True
    then show ?thesis
      using digits_val_snoc [of "[]"] by (subst (1 2 3) dec_nat.simps) (simp add: digit_is_digit uint_digit digits_val_def)
  next
    case False
    have "n mod 10 < 10" by simp
    moreover have "int (n div 10) * 10 + int (n mod 10) = int n" by (metis div_mult_mod_eq of_nat_add of_nat_mult of_nat_numeral)
    ultimately show ?thesis
      using 1 False by (subst (1 2 3) dec_nat.simps) (simp add: digit_is_digit uint_digit digits_val_snoc)
  qed
qed

lemma dec_nat_length: "n < 10 ^ k \<Longrightarrow> 0 < k \<Longrightarrow> length (dec_nat n) \<le> k"
proof (induction k arbitrary: n)
  case (Suc k)
  show ?case
  proof (cases "n < 10")
    case True
    then show ?thesis by (subst dec_nat.simps) simp
  next
    case False
    then have "0 < k" using Suc.prems(1) by (cases k) auto
    moreover have "n div 10 < 10 ^ k" using Suc.prems(1) by (simp add: less_mult_imp_div_less mult.commute)
    ultimately have "length (dec_nat (n div 10)) \<le> k" using Suc.IH by blast
    with False show ?thesis by (subst dec_nat.simps) simp
  qed
qed simp

lemma digit_not_space: "is_digit c \<Longrightarrow> \<not> is_space c \<and> c \<noteq> 0x2D \<and> c \<noteq> 0x2B"
  by (auto simp: is_digit_def is_space_def word_le_nat_alt)

lemma dropWhile_space_digits:
  assumes "list_all is_digit ds" "ds \<noteq> []"
  shows "dropWhile is_space ds = ds" and "takeWhile is_digit ds = ds"
    and "parse_number ds = (False, digits_val ds)" and "parse_number (0x2D # ds) = (True, digits_val ds)"
proof -
  show t: "takeWhile is_digit ds = ds" using assms(1) by (induction ds) auto
  obtain c cs where c: "ds = c # cs" using assms(2) by (cases ds) auto
  then have n: "\<not> is_space c" "c \<noteq> 0x2D" "c \<noteq> 0x2B" using assms(1) digit_not_space by auto
  then show d: "dropWhile is_space ds = ds" by (simp add: c)
  show "parse_number ds = (False, digits_val ds)" unfolding parse_number_def d using t n by (simp add: c Let_def)
  have "\<not> is_space 0x2D" by (simp add: is_space_def word_le_nat_alt)
  then show "parse_number (0x2D # ds) = (True, digits_val ds)" by (simp add: parse_number_def Let_def) (simp only: t)
qed

lemma strtol_dec_int: "- 2147483648 \<le> i \<Longrightarrow> i \<le> 2147483647 \<Longrightarrow> strtol (dec_int i) = i"
  using dec_nat_spec dropWhile_space_digits(3,4) by (auto simp: dec_int_def strtol_def Let_def)

lemma dec_int_length: "- (10 ^ k) < i \<Longrightarrow> i < 10 ^ k \<Longrightarrow> 0 < k \<Longrightarrow> length (dec_int i) \<le> k + 1"
proof -
  assume i: "- (10 ^ k) < i" "i < 10 ^ k" "0 < k"
  then have "nat i < 10 ^ k" "nat (- i) < 10 ^ k" by (simp_all add: nat_less_iff)
  with i(3) dec_nat_length [of "nat i" k] dec_nat_length [of "nat (- i)" k] show ?thesis by (simp add: dec_int_def)
qed

subsection \<open>Numbers in a card\<close>

lemma sint_low: "unat (v :: u32) < 2147483648 \<Longrightarrow> sint v = int (unat v)"
proof -
  assume "unat v < 2147483648"
  then have "int (unat v) < int 2147483648" by (simp only: of_nat_less_iff)
  then have u: "uint v < 2 ^ 31" by simp
  have "sint v = signed_take_bit 31 (uint v)" by (simp add: sint_uint)
  also have "\<dots> = uint v" using u order_trans [OF _ uint_ge_0 [of v]] by (intro signed_take_bit_int_eq_self) auto
  finally show ?thesis by (simp only: uint_nat)
qed

lemma sint_ucast:
  "sint (ucast (b :: byte) :: u32) = int (unat b)" "sint (ucast (h :: u16) :: u32) = int (unat h)"
proof -
  have "unat b < 2 ^ LENGTH(8)" "unat h < 2 ^ LENGTH(16)" by (rule unsigned_less)+
  then have "unat (ucast b :: u32) = unat b" "unat (ucast h :: u32) = unat h"
    by (simp_all add: unsigned_ucast_eq take_bit_nat_eq_self)
  moreover have "unat b < 2147483648" "unat h < 2147483648"
    using \<open>unat b < 2 ^ LENGTH(8)\<close> \<open>unat h < 2 ^ LENGTH(16)\<close> by simp_all
  ultimately show "sint (ucast b :: u32) = int (unat b)" "sint (ucast h :: u32) = int (unat h)"
    using sint_low [of "ucast b"] sint_low [of "ucast h"] by metis+
qed

lemma sint_scast: "sint (scast (b :: byte) :: u32) = sint b" "sint (scast (h :: u16) :: u32) = sint h"
  by (simp_all add: sint_up_scast is_up_def source_size_def target_size_def word_size)

lemma sint_range: "- 2147483648 \<le> sint (v :: u32)" "sint v \<le> 2147483647"
  using sint_range_size [of v] by (simp_all add: word_size)

lemma dec_nat_int: "dec_nat n = dec_int (int n)"
  by (simp add: dec_int_def)

text \<open>The text of a number in a card is that of the number read directly.\<close>

lemma extract_numeric:
  assumes "card_field crd ord = Some (dat, flen)" "is_numeric_type tc" "12 \<le> out_max"
    and "tc = 0x03 \<or> tc = 0x12 \<Longrightarrow> unat (field_u32 crd dat flen) < 2147483648"
  obtains v where "extract_field_int32 crd ord tc = Some v" "extract_field_str crd ord tc out_max = Some (dec_int (sint v))"
proof -
  have len: "length (dec_int (sint v)) \<le> 11" for v :: u32
    using dec_int_length [of 10 "sint v"] sint_range [of v] by simp
  have cut: "take (out_max - 1) (dec_int (sint v)) = dec_int (sint v)" for v :: u32
    using len [of v] assms(3) by simp
  define w where "w = (if tc = 0x01 then ucast (field_u8 crd dat flen) else if tc = 0x02 then ucast (field_u16 crd dat flen)
    else if tc = 0x04 then scast (field_u8 crd dat flen) else if tc = 0x05 then scast (field_u16 crd dat flen) else field_u32 crd dat flen)"
  have "extract_field_int32 crd ord tc = Some w"
    using assms(1,2) by (auto simp: extract_field_int32_def is_numeric_type_def w_def)
  moreover have "extract_field_str crd ord tc out_max = Some (take (out_max - 1) (dec_int (sint w)))"
    using assms(1,2,4) by (auto simp: extract_field_str_def is_numeric_type_def w_def dec_nat_int sint_ucast sint_scast sint_low)
  ultimately show thesis using that cut by simp
qed

text \<open>
  C39: the direct comparison of numbers is that of the text. For every numeric type of field, and when an unsigned 32-bit value is below
  2 to the 31, comparing the number that \<open>extract_field_int32\<close> reads gives for every operator and every expected text what the
  comparison of the text of \<open>extract_field_str\<close> gives.
\<close>

theorem query_compare_direct:
  assumes "card_field crd ord = Some (dat, flen)" "is_numeric_type tc" "12 \<le> out_max"
    and "tc = 0x03 \<or> tc = 0x12 \<Longrightarrow> unat (field_u32 crd dat flen) < 2147483648"
  shows "\<exists>v txt. extract_field_int32 crd ord tc = Some v \<and> extract_field_str crd ord tc out_max = Some txt
    \<and> (\<forall>qop expected. compare_int_direct v qop expected = compare_int txt qop expected)"
proof -
  from assms obtain v where v: "extract_field_int32 crd ord tc = Some v" "extract_field_str crd ord tc out_max = Some (dec_int (sint v))"
    by (rule extract_numeric)
  have "length (dec_int (sint v)) \<le> 11" using dec_int_length [of 10 "sint v"] sint_range [of v] by simp
  then have "compare_int_direct v qop expected = compare_int (dec_int (sint v)) qop expected" for qop expected
    using strtol_dec_int [OF sint_range] by (simp add: compare_int_direct_def compare_int_def)
  with v show ?thesis by blast
qed

definition demo_card :: "byte list" where
  "demo_card = [0x7D, 0xCA, 1, 0, 0, 4, 3, 0x61, 0x7C, 0x62, 1, 2, 0xFE, 0xFF, 2, 4, 5, 0, 0, 0x80]"

theorem query_compare_direct_witness:
  "\<exists>v txt. extract_field_int32 demo_card 1 0x05 = Some v \<and> extract_field_str demo_card 1 0x05 64 = Some txt
     \<and> compare_int_direct v QOP_LT (cstr ''7'') = compare_int txt QOP_LT (cstr ''7'')"
proof -
  have "card_field demo_card 1 = Some (12, 2)"
    by (simp add: card_field_def demo_card_def find_ord.simps)
  from query_compare_direct [OF this, of "0x05" 64] show ?thesis by (auto simp: is_numeric_type_def)
qed

subsection \<open>The order of the clauses\<close>

lemma mset_swap_at: "i < length xs \<Longrightarrow> j < length xs \<Longrightarrow> mset (swap_at i j xs) = mset xs"
  by (simp add: swap_at_def mset_swap)

lemma length_swap_at [simp]: "length (swap_at i j xs) = length xs"
  by (simp add: swap_at_def)

text \<open>Exchanges keep the multiset; the list is generalised over the whole of both loops.\<close>

lemma exchange_inner:
  "(\<forall>j \<in> set js. j < length ys) \<Longrightarrow> i < length ys \<Longrightarrow>
    mset (fold (\<lambda>j ys. if fst (ys ! j) < fst (ys ! i) then swap_at i j ys else ys) js ys) = mset ys"
  by (induction js arbitrary: ys) (simp_all add: mset_swap_at)

lemma exchange_outer:
  "(\<forall>i \<in> set is. i < n) \<Longrightarrow> length ys = n \<Longrightarrow>
    mset (fold (\<lambda>i. fold (\<lambda>j ys. if fst (ys ! j) < fst (ys ! i) then swap_at i j ys else ys) [i + 1..<n]) is ys) = mset ys"
proof (induction "is" arbitrary: ys)
  case (Cons i js)
  define zs where "zs = fold (\<lambda>j ys. if fst (ys ! j) < fst (ys ! i) then swap_at i j ys else ys) [Suc i..<n] ys"
  have z: "mset zs = mset ys" unfolding zs_def by (rule exchange_inner) (use Cons.prems in auto)
  then have "length zs = n" using Cons.prems(2) by (metis size_mset)
  then have "mset (fold (\<lambda>i. fold (\<lambda>j ys. if fst (ys ! j) < fst (ys ! i) then swap_at i j ys else ys) [i + 1..<n]) js zs) = mset zs"
    using Cons.IH [of zs] Cons.prems(1) by simp
  with z show ?case by (simp add: zs_def)
qed simp

lemma mset_exchange_sort: "mset (exchange_sort xs) = mset xs"
  unfolding exchange_sort_def by (rule exchange_outer) auto

lemma mset_reorder: "mset (fst (reorder_clauses pack cs s)) = mset cs"
  by (simp add: reorder_clauses_def mset_exchange_sort Let_def split: prod.split)
    (metis (no_types, lifting) mset_exchange_sort mset_map map_map comp_def map_idI snd_conv)

lemma row_pass_all:
  "(\<forall>c \<in> set cs. clause_pass crd c \<noteq> None) \<Longrightarrow> row_pass crd cs = Some (\<forall>c \<in> set cs. clause_pass crd c = Some True)"
  by (induction cs) (auto split: option.split bool.split)

text \<open>
  C38: the optimiser is invisible. The clauses that \<open>reorder_clauses\<close> puts in the order of their estimated costs are those of the
  query, and a card passes them exactly when it passes the clauses in the order they were written, whatever the statistics say.
\<close>

theorem query_reorder_invisible:
  assumes "\<forall>c \<in> set cs. clause_pass crd c \<noteq> None"
  shows "mset (fst (reorder_clauses pack cs s)) = mset cs \<and> row_pass crd (fst (reorder_clauses pack cs s)) = row_pass crd cs
    \<and> row_pass crd cs = Some (\<forall>c \<in> set cs. clause_pass crd c = Some True)"
proof -
  have "set (fst (reorder_clauses pack cs s)) = set cs" by (rule mset_eq_setD [OF mset_reorder])
  with row_pass_all [of cs crd] row_pass_all [of "fst (reorder_clauses pack cs s)" crd] assms mset_reorder show ?thesis by simp
qed

definition demo_clauses :: "clause list" where
  "demo_clauses = [\<lparr>cl_ord = 1, cl_type = 0x05, cl_op = QOP_NE, cl_value = cstr ''3''\<rparr>, \<lparr>cl_ord = 0, cl_type = 0x09, cl_op = QOP_EQ, cl_value = cstr ''a|b''\<rparr>]"

definition demo_query_state :: query_state where
  "demo_query_state = \<lparr>qy_stores = stores_small, s_fanout = [], s_card_cache = [\<lparr>cc_pack = 2, cc_bucket = 1, cc_dirty = False\<rparr>], g_pack_cache = []\<rparr>"

theorem query_reorder_invisible_witness:
  "row_pass demo_card (fst (reorder_clauses 2 demo_clauses demo_query_state)) = row_pass demo_card demo_clauses"
proof -
  have "\<forall>c \<in> set demo_clauses. clause_pass demo_card c \<noteq> None"
    by (simp add: demo_clauses_def clause_pass_def is_numeric_type_def extract_field_str_def card_field_def demo_card_def find_ord.simps)
  from query_reorder_invisible [OF this] show ?thesis by blast
qed

subsection \<open>The output stays in its buffer\<close>

lemma length_escape_char: "length (escape_char c) \<le> 2"
  by (simp add: escape_char_def)

lemma length_escape_loop: "int (length out) < maxn \<Longrightarrow> int (length (escape_loop maxn out val)) < maxn"
proof (induction maxn out val rule: escape_loop.induct)
  case (2 maxn out c cs)
  then show ?case using length_escape_char [of c] by auto
qed simp

lemma put_escaped_bound: "length out < n \<Longrightarrow> length (put_escaped n val out) < n"
proof -
  assume "length out < n"
  then have "int (length (escape_loop (int n - int (length out)) [] val)) < int n - int (length out)"
    by (intro length_escape_loop) simp
  then show ?thesis by (simp add: put_escaped_def escape_field_def)
qed

lemma put_sep_bound: "length out < n \<Longrightarrow> length (put_sep n b out) < n"
  by (auto simp: put_sep_def room_def)

lemma put_crlf_bound: "length out < n \<Longrightarrow> length (put_crlf n out) < n"
  by (auto simp: put_crlf_def room_def crlf_def)

lemma row_fields_bound: "row_fields n packs crd xs b out s = Some (out', s') \<Longrightarrow> length out < n \<Longrightarrow> length out' < n"
proof (induction n packs crd xs b out s rule: row_fields.induct)
  case (2 n packs crd x xs b out s)
  have keep: "length (case t of None \<Rightarrow> put_sep n b out | Some val \<Rightarrow> put_escaped n val (put_sep n b out)) < n" for t
    using 2(3) by (cases t) (simp_all add: put_sep_bound put_escaped_bound)
  show ?case
  proof (cases "room n out 100")
    case True
    then obtain t s1 where t: "field_text packs crd 64 x s = Some (t, s1)"
      using 2(2) by (cases "field_text packs crd 64 x s") auto
    with True 2(2) have "row_fields n packs crd xs False
        (case t of None \<Rightarrow> put_sep n b out | Some val \<Rightarrow> put_escaped n val (put_sep n b out)) s1 = Some (out', s')"
      by (simp add: Let_def)
    then show ?thesis using 2(1) [OF _ t refl refl] True keep by blast
  qed (use 2(2,3) in auto)
qed simp

lemma direct_rows_bound:
  "direct_rows n packs cs xs ks rows out s = Some (out', rows', s') \<Longrightarrow> length out < n \<Longrightarrow> rows \<le> QUERY_MAX_RESULTS \<Longrightarrow>
    length out' < n \<and> rows' \<le> QUERY_MAX_RESULTS"
proof (induction n packs cs xs ks rows out s rule: direct_rows.induct)
  case (2 n packs cs xs k ks rows out s)
  then show ?case
    by (auto simp: put_crlf_bound dest: row_fields_bound split: if_split_asm read_result.split_asm option.split_asm bool.split_asm prod.split_asm)
qed simp

lemma put_aggregate_bound: "put_aggregate n x g i out = Some out' \<Longrightarrow> length out < n \<Longrightarrow> length out' < n"
  by (auto simp: put_aggregate_def put_number_def put_escaped_bound split: query_agg_t.split_asm if_split_asm)

lemma group_fields_bound: "group_fields n xs g is out = Some out' \<Longrightarrow> length out < n \<Longrightarrow> length out' < n"
proof (induction n xs g "is" out rule: group_fields.induct)
  case (2 n xs g i js out)
  then show ?case by (auto dest: put_aggregate_bound [OF _ put_sep_bound] split: option.split_asm)
qed simp

lemma group_output_bound: "group_output n xs gs out = Some out' \<Longrightarrow> length out < n \<Longrightarrow> length out' < n"
proof (induction n xs gs out rule: group_output.induct)
  case (2 n xs g gs out)
  then show ?case by (auto simp: put_crlf_bound dest: group_fields_bound split: if_split_asm option.split_asm)
qed simp

lemma group_rows_count: "group_rows xs rows gs = Some gs' \<Longrightarrow> length gs \<le> AGG_MAX_GROUPS \<Longrightarrow> length gs' \<le> AGG_MAX_GROUPS"
proof (induction xs rows gs rule: group_rows.induct)
  case (2 xs row rows gs)
  then show ?case by (auto simp: group_row_def split: option.split_asm if_split_asm)
qed simp

lemma reply_fits: "0 < n \<Longrightarrow> reply_text n p msg = Reply r \<Longrightarrow> length (qr_text r) < n \<and> qr_count r \<le> QUERY_MAX_RESULTS"
  by (auto simp: reply_text_def)

lemma resolve_all_fits: "resolve_all junk n ds ps s = Some (Reply r, s') \<Longrightarrow> 0 < n \<Longrightarrow> length (qr_text r) < n \<and> qr_count r \<le> QUERY_MAX_RESULTS"
proof (induction junk n ds ps s rule: resolve_all.induct)
  case (2 junk n d ds ps s)
  then show ?case by (auto dest: reply_fits [rotated] split: option.split_asm prod.split_asm)
qed simp

lemma resolve_clause_fits:
  "resolve_clause n decks packs w s = Some (Reply r, s') \<Longrightarrow> 0 < n \<Longrightarrow> length (qr_text r) < n \<and> qr_count r \<le> QUERY_MAX_RESULTS"
  by (auto simp: resolve_clause_def Let_def dest: reply_fits [rotated] split: option.split_asm prod.split_asm if_split_asm)

lemma resolve_clauses_fits:
  "resolve_clauses n decks packs ws cs s = Some (Reply r, s') \<Longrightarrow> 0 < n \<Longrightarrow> length (qr_text r) < n \<and> qr_count r \<le> QUERY_MAX_RESULTS"
proof (induction n decks packs ws cs s rule: resolve_clauses.induct)
  case (2 n decks packs w ws cs s)
  then show ?case by (auto dest: resolve_clause_fits split: option.split_asm outcome.split_asm prod.split_asm)
qed simp

lemma run_scan_fits:
  assumes "run_scan n packs cs xs s = Some (r, s')" "0 < n"
  shows "length (qr_text r) < n \<and> qr_count r \<le> QUERY_MAX_RESULTS \<and> qr_len r = length (qr_text r)"
  using assms by (auto simp: run_scan_def Let_def AGG_MAX_GROUPS_def QUERY_MAX_RESULTS_def
      dest!: direct_rows_bound [simplified QUERY_MAX_RESULTS_def] group_output_bound group_rows_count [simplified AGG_MAX_GROUPS_def]
      split: option.split_asm prod.split_asm if_split_asm)



end
