(* ===== verification/QuerySafety.thy ===== *)
theory QuerySafety
  imports QueryLaws UserStore
begin

text \<open>
  The cards of the users do not reach the answers of the query engine: two stores that differ only in pack 1 answer every query alike.
\<close>

unbundle bit_operations_syntax

subsection \<open>Keys and their packs\<close>

lemma pack_of_prefix: "KV_PACK_FROM_KEY (push_bit 22 x OR (r AND 0x3FFFFF)) = x AND 0x3FF"
proof (rule bit_eqI)
  fix n
  have m: "(0x3FFFFF :: u32) = mask 22" "(0x3FF :: u32) = mask 10" by (simp_all add: mask_eq_exp_minus_1)
  assume "possible_bit TYPE(32 word) n"
  then show "bit (KV_PACK_FROM_KEY (push_bit 22 x OR (r AND 0x3FFFFF))) n \<longleftrightarrow> bit (x AND 0x3FF) n"
    unfolding KV_PACK_FROM_KEY_def m by (auto simp: bit_simps)
qed

lemma pack_of_shift: "KV_PACK_FROM_KEY (push_bit 22 x) = x AND 0x3FF"
  using pack_of_prefix [of x 0] by simp

lemma same_prefix_pack: "k AND 0xFFC00000 = p AND 0xFFC00000 \<Longrightarrow> KV_PACK_FROM_KEY k = KV_PACK_FROM_KEY p"
proof -
  have eq: "KV_PACK_FROM_KEY x = drop_bit 22 (x AND 0xFFC00000)" for x
  proof (rule bit_eqI)
    fix n
    have m: "(0xFFC00000 :: u32) = NOT (mask 22)" "(0x3FF :: u32) = mask 10" by (simp_all add: mask_eq_exp_minus_1)
    assume "possible_bit TYPE(32 word) n"
    then show "bit (KV_PACK_FROM_KEY x) n \<longleftrightarrow> bit (drop_bit 22 (x AND 0xFFC00000)) n"
      unfolding KV_PACK_FROM_KEY_def m by (auto simp: bit_simps dest: bit_imp_le_length)
  qed
  then show "k AND 0xFFC00000 = p AND 0xFFC00000 \<Longrightarrow> KV_PACK_FROM_KEY k = KV_PACK_FROM_KEY p"
    by (simp only: eq)
qed

definition plain_pack :: "u16 \<Rightarrow> bool" where
  "plain_pack ord \<longleftrightarrow> ord < 1024 \<and> ord \<noteq> 1"

lemma plain_pack_bits:
  assumes "plain_pack ord"
  shows "scast ord AND 0x3FF \<noteq> (1 :: u32)" "ucast (ord AND 0x3FF) AND 0x3FF \<noteq> (1 :: u32)"
proof -
  have m: "(0x3FF :: u32) = mask 10" "(0x3FF :: u16) = mask 10" by (simp_all add: mask_eq_exp_minus_1)
  have "unat ord < unat (1024 :: u16)" using assms by (simp only: plain_pack_def word_less_nat_alt)
  then have "take_bit 10 ord = ord" by (simp add: word_unat_eq_iff unsigned_take_bit_eq take_bit_nat_eq_self)
  then have o: "ord AND 0x3FF = ord" unfolding m(2) by (simp only: take_bit_eq_mask)
  have low: "ucast (x AND 0x3FF) = (ord AND 0x3FF)" if "x = scast ord \<or> x = ucast (ord AND 0x3FF)" for x :: u32
    using that unfolding m by (intro bit_eqI) (auto simp: bit_simps)
  show "scast ord AND 0x3FF \<noteq> (1 :: u32)" "ucast (ord AND 0x3FF) AND 0x3FF \<noteq> (1 :: u32)"
    using low [of "scast ord"] low [of "ucast (ord AND 0x3FF)"] o assms by (auto simp: plain_pack_def)
qed

subsection \<open>Two views of the store\<close>

text \<open>\<open>f\<close> holds what \<open>kv\<close> holds outside of pack 1.\<close>

definition public_view :: "kv_state \<Rightarrow> kv_state \<Rightarrow> bool" where
  "public_view kv f \<longleftrightarrow>
     (\<forall>k out cap. KV_PACK_FROM_KEY k \<noteq> 1 \<longrightarrow> kv_get_copy f k out cap = kv_get_copy kv k out cap)
     \<and> (\<forall>p m. KV_PACK_FROM_KEY p \<noteq> 1 \<longrightarrow> map fst (kv_range f p 0xFFC00000 m) = map fst (kv_range kv p 0xFFC00000 m))"

definition hide :: "kv_state \<Rightarrow> query_state \<Rightarrow> query_state" where
  "hide f s = s\<lparr>qy_stores := (qy_stores s)\<lparr>st_flash := f\<rparr>\<rparr>"

definition flash_of :: "query_state \<Rightarrow> kv_state" where
  "flash_of s = st_flash (qy_stores s)"

lemma hide_simps [simp]:
  "s_fanout (hide f s) = s_fanout s" "s_card_cache (hide f s) = s_card_cache s" "g_pack_cache (hide f s) = g_pack_cache s"
  "hide f (s\<lparr>s_fanout := a\<rparr>) = (hide f s)\<lparr>s_fanout := a\<rparr>" "hide f (s\<lparr>s_card_cache := b\<rparr>) = (hide f s)\<lparr>s_card_cache := b\<rparr>"
  "hide f (s\<lparr>g_pack_cache := c\<rparr>) = (hide f s)\<lparr>g_pack_cache := c\<rparr>"
  "flash_of (s\<lparr>s_fanout := a\<rparr>) = flash_of s" "flash_of (s\<lparr>s_card_cache := b\<rparr>) = flash_of s"
  "flash_of (s\<lparr>g_pack_cache := c\<rparr>) = flash_of s"
  by (simp_all add: hide_def flash_of_def)

lemma hide_use_sd [simp]: "kv_use_sd (qy_stores (hide f s)) k = kv_use_sd (qy_stores s) k"
  "kv_use_sd_pack (qy_stores (hide f s)) p = kv_use_sd_pack (qy_stores s) p" "st_sd (qy_stores (hide f s)) = st_sd (qy_stores s)"
  by (simp_all add: hide_def kv_use_sd_def kv_use_sd_pack_def)

lemma get_card_flash: "get_card s key cap = (r, s') \<Longrightarrow> flash_of s' = flash_of s"
  by (auto simp: get_card_def kv_store_get_copy_def flash_of_def split: read_result.split_asm if_split_asm prod.split_asm option.split_asm)

lemma get_card_hide:
  assumes "public_view (flash_of s) f" "KV_PACK_FROM_KEY key \<noteq> 1"
  shows "get_card (hide f s) key cap = (case get_card s key cap of (r, s') \<Rightarrow> (r, hide f s'))"
proof (cases "kv_use_sd (qy_stores s) key")
  case True
  then show ?thesis
    by (simp add: get_card_def kv_store_get_copy_def split: read_result.split prod.split) (auto simp: hide_def)
next
  case False
  have "kv_get_copy f key True (Some cap) = kv_get_copy (st_flash (qy_stores s)) key True (Some cap)"
    using assms by (simp add: public_view_def flash_of_def)
  then have "kv_get_copy (st_flash (qy_stores (hide f s))) key True (Some cap) = kv_get_copy (st_flash (qy_stores s)) key True (Some cap)"
    by (simp add: hide_def)
  with False show ?thesis
    by (simp add: get_card_def kv_store_get_copy_def split: read_result.split prod.split option.split)
qed

subsection \<open>Ranges\<close>

lemma range_sram_keys: "k \<in> set (range_sram ix msk masked hi n out) \<Longrightarrow> k \<in> set out \<or> k AND msk = masked"
  by (induction ix msk masked hi n out rule: range_sram.induct) (auto split: if_split_asm)

lemma range_flash_keys: "k \<in> set (range_flash ks msk masked hi n sram out) \<Longrightarrow> k \<in> set out \<or> k AND msk = masked"
  by (induction ks msk masked hi n sram out rule: range_flash.induct) (auto simp: Let_def split: if_split_asm)

lemma kv_store_range_keys: "k \<in> set (kv_store_range st p msk m) \<Longrightarrow> k AND msk = p AND msk"
  by (auto simp: kv_store_range_def kvsd_range_def kv_range_def Let_def
      dest!: range_flash_keys range_sram_keys in_set_takeD split: if_split_asm)

lemma range_hide:
  assumes "public_view (flash_of s) f" "KV_PACK_FROM_KEY p \<noteq> 1"
  shows "kv_store_range (qy_stores (hide f s)) p 0xFFC00000 m = kv_store_range (qy_stores s) p 0xFFC00000 m"
  using assms by (simp add: kv_store_range_def) (simp add: hide_def flash_of_def public_view_def)

definition public_keys :: "u32 list \<Rightarrow> bool" where
  "public_keys ks \<longleftrightarrow> (\<forall>k \<in> set ks. KV_PACK_FROM_KEY k \<noteq> 1)"

lemma public_keys_simps [simp]: "public_keys []" "public_keys (k # ks) \<longleftrightarrow> KV_PACK_FROM_KEY k \<noteq> 1 \<and> public_keys ks"
  "public_keys ks \<Longrightarrow> public_keys (take n ks)"
  by (auto simp: public_keys_def dest: in_set_takeD)

lemma range_public: "KV_PACK_FROM_KEY p \<noteq> 1 \<Longrightarrow> public_keys (kv_store_range st p 0xFFC00000 m)"
  using kv_store_range_keys same_prefix_pack by (metis public_keys_def)

lemma pack_range_hide:
  assumes "public_view (flash_of s) f" "plain_pack ord"
  shows "pack_range (hide f s) ord m = pack_range s ord m" and "public_keys (pack_range s ord m)"
proof -
  have "KV_PACK_FROM_KEY (push_bit 22 (scast ord)) \<noteq> 1" using plain_pack_bits(1) [OF assms(2)] by (simp only: pack_of_shift not_False_eq_True)
  with assms(1) range_hide range_public show "pack_range (hide f s) ord m = pack_range s ord m" "public_keys (pack_range s ord m)"
    by (auto simp: pack_range_def)
qed

lemma get_cardinality_hide:
  assumes "public_view (flash_of s) f" "plain_pack ord"
  shows "get_cardinality (qy_stores (hide f s)) ord cs = get_cardinality (qy_stores s) ord cs"
proof -
  have "KV_PACK_FROM_KEY (push_bit 22 (ucast (ord AND 0x3FF))) \<noteq> 1"
    using plain_pack_bits(2) [OF assms(2)] by (simp only: pack_of_shift not_False_eq_True)
  from range_hide [OF assms(1) this] show ?thesis by (simp add: get_cardinality_def split: option.split)
qed

subsection \<open>Runs on both views\<close>

text \<open>\<open>x\<close> is the run \<open>y\<close> on the other view, and \<open>y\<close> ends on the flash \<open>kv\<close>.\<close>

definition same_run :: "kv_state \<Rightarrow> kv_state \<Rightarrow> ('a \<times> query_state) option \<Rightarrow> ('a \<times> query_state) option \<Rightarrow> bool" where
  "same_run kv f x y \<longleftrightarrow> x = map_option (map_prod id (hide f)) y \<and> (\<forall>r s'. y = Some (r, s') \<longrightarrow> flash_of s' = kv)"

lemma same_run_None [simp]: "same_run kv f None None"
  by (simp add: same_run_def)

lemma same_run_Some [simp]: "same_run kv f (Some (r', t)) (Some (r, s)) \<longleftrightarrow> r' = r \<and> t = hide f s \<and> flash_of s = kv"
  by (auto simp: same_run_def)

lemma same_run_cases:
  assumes "same_run kv f x y"
  obtains "x = None" "y = None" | r s where "x = Some (r, hide f s)" "y = Some (r, s)" "flash_of s = kv"
  using assms by (cases y) (auto simp: same_run_def)

lemma same_run_map: "same_run kv f x y \<Longrightarrow> same_run kv f (map_option (\<lambda>(r, s). (g r, s)) x) (map_option (\<lambda>(r, s). (g r, s)) y)"
  by (erule same_run_cases) auto

lemma same_get:
  assumes "public_view kv f" "flash_of s = kv" "KV_PACK_FROM_KEY key \<noteq> 1"
  obtains r s' where "get_card s key cap = (r, s')" "get_card (hide f s) key cap = (r, hide f s')" "flash_of s' = kv"
proof (cases "get_card s key cap")
  case (Pair r s')
  with that assms get_card_hide [of s f key cap] get_card_flash [OF Pair] show ?thesis by simp
qed

subsection \<open>The packs of the query\<close>

lemma resolve_scan_same:
  "public_view kv f \<Longrightarrow> flash_of s = kv \<Longrightarrow> public_keys ks \<Longrightarrow>
    same_run kv f (resolve_scan name ks ps (hide f s)) (resolve_scan name ks ps s)"
proof (induction ks arbitrary: ps s)
  case (Cons k ks)
  then have K: "KV_PACK_FROM_KEY k \<noteq> 1" "public_keys ks" by auto
  obtain r s' where g: "get_card s k 256 = (r, s')" "get_card (hide f s) k 256 = (r, hide f s')" "flash_of s' = kv"
    by (rule same_get [OF Cons.prems(1,2) K(1)])
  with Cons.IH [OF Cons.prems(1) _ K(2)] show ?case by (cases r) (auto simp: Let_def split: option.split)
qed simp

lemma pack0: "KV_PACK_FROM_KEY 0 \<noteq> 1"
  by (simp add: KV_PACK_FROM_KEY_def)

lemma resolve_pack_same:
  assumes "public_view kv f" "flash_of s = kv"
  shows "same_run kv f (resolve_pack junk name (hide f s)) (resolve_pack junk name s)"
  using resolve_scan_same [OF assms range_public [OF pack0]] range_hide [OF _ pack0, of s f] assms
  by (auto simp: resolve_pack_def split: option.split)

lemma resolve_all_same:
  "public_view kv f \<Longrightarrow> flash_of s = kv \<Longrightarrow>
    same_run kv f (resolve_all junk n ds ps (hide f s)) (resolve_all junk n ds ps s)"
proof (induction ds arbitrary: ps s)
  case (Cons d ds)
  from resolve_pack_same [OF Cons.prems, of junk d] show ?case
  proof (cases rule: same_run_cases)
    case (2 r t)
    with Cons.IH [OF Cons.prems(1)] show ?thesis by (cases r) (auto simp: reply_text_def)
  qed simp
qed simp

text \<open>The ordinals of the packs are those of the cards of pack 0, or of the cache.\<close>

definition small_ordinals :: "query_state \<Rightarrow> bool" where
  "small_ordinals s \<longleftrightarrow> (\<forall>k \<in> set (kv_store_range (qy_stores s) 0 0xFFC00000 64). k AND 0x3FFFFF < 1024) \<and> (\<forall>p \<in> set (g_pack_cache s). ps_ord p < 1024)"

lemma range_pack0: "kv_store_range (qy_stores s) 0 0xFFC00000 m = map fst (kv_range (flash_of s) 0 0xFFC00000 m)"
  by (simp add: kv_store_range_def kv_use_sd_pack_def KV_PACK_FROM_KEY_def KV_SYSTEM_PACK_MAX_def flash_of_def)

lemma ucast_small: "k < 1024 \<Longrightarrow> (ucast (k :: u32) :: u16) < 1024"
proof -
  assume "k < 1024"
  then have u: "unat k < unat (1024 :: u32)" by (simp only: word_less_nat_alt)
  then have "unat (ucast k :: u16) = unat k" by (simp add: unsigned_ucast_eq take_bit_nat_eq_self)
  with u show ?thesis by (simp add: word_less_nat_alt)
qed

lemma resolve_scan_small:
  "resolve_scan name ks ps s = Some (r, s') \<Longrightarrow> \<forall>k \<in> set ks. k AND 0x3FFFFF < 1024 \<Longrightarrow> \<forall>p \<in> set (g_pack_cache s). ps_ord p < 1024 \<Longrightarrow>
    (\<forall>p \<in> set (g_pack_cache s'). ps_ord p < 1024) \<and> (\<forall>p. r = Some p \<longrightarrow> ps_ord p < 1024)"
proof (induction ks arbitrary: ps s)
  case (Cons k ks)
  obtain x t where g: "get_card s k 256 = (x, t)" by (cases "get_card s k 256")
  then have t: "g_pack_cache t = g_pack_cache s"
    by (auto simp: get_card_def split: prod.split_asm read_result.split_asm)
  have k: "\<forall>k \<in> set ks. k AND 0x3FFFFF < 1024" "k AND 0x3FFFFF < 1024" using Cons.prems(2) by auto
  note ih = Cons.IH [OF _ k(1), of _ t, unfolded t, OF _ Cons.prems(3)]
  show ?case
  proof (cases x)
    case (Found crd)
    show ?thesis
    proof (cases "length crd < 6 \<or> crd ! 0 \<noteq> 0x7D \<or> crd ! 1 \<noteq> 0xCA")
      case True
      then have "resolve_scan name ks ps t = Some (r, s')" using Cons.prems(1) g Found by simp
      then show ?thesis by (rule ih)
    next
      case False
      then obtain pname fc ps' where sc: "schema_scan crd 4 ([], 0, ps) = Some (pname, fc, ps')"
        using Cons.prems(1) g Found by (auto split: option.split_asm)
      show ?thesis
      proof (cases "name_match pname name")
        case True
        with Cons.prems(1,3) g Found False sc t ucast_small [OF k(2)] show ?thesis by (auto simp: Let_def split: if_split_asm)
      next
        case nm: False
        then have "resolve_scan name ks ps' t = Some (r, s')" using Cons.prems(1) g Found False sc by simp
        then show ?thesis by (rule ih)
      qed
    qed
  next
    case Miss
    then have "resolve_scan name ks ps t = Some (r, s')" using Cons.prems(1) g by simp
    then show ?thesis by (rule ih)
  qed (use Cons.prems(1) g in simp)
qed simp

lemma resolve_pack_small:
  assumes "resolve_pack junk name s = Some (r, s')" "small_ordinals s"
  shows "small_ordinals s' \<and> (\<forall>p. r = Some p \<longrightarrow> ps_ord p < 1024)"
proof (cases "find (\<lambda>p. name_match (ps_name p) name) (g_pack_cache s)")
  case None
  with assms(1) have "resolve_scan name (kv_store_range (qy_stores s) 0 0xFFC00000 64) junk s = Some (r, s')" by (simp add: resolve_pack_def)
  from resolve_scan_small [OF this] assms(2)
  have "(\<forall>p \<in> set (g_pack_cache s'). ps_ord p < 1024) \<and> (\<forall>p. r = Some p \<longrightarrow> ps_ord p < 1024)" by (simp add: small_ordinals_def)
  moreover have "flash_of s' = flash_of s"
    using resolve_pack_same [OF _ refl, of s "flash_of s" junk name] assms(1) by (simp add: same_run_def public_view_def)
  ultimately show ?thesis using assms(2) by (simp add: small_ordinals_def range_pack0)
next
  case (Some p)
  with assms show ?thesis by (auto simp: resolve_pack_def small_ordinals_def find_Some_iff)
qed

lemma resolve_all_small:
  "resolve_all junk n ds ps s = Some (Go qs, s') \<Longrightarrow> small_ordinals s \<Longrightarrow> \<forall>p \<in> set ps. ps_ord p < 1024 \<Longrightarrow> \<forall>p \<in> set qs. ps_ord p < 1024"
proof (induction ds arbitrary: ps s)
  case (Cons d ds)
  from Cons.prems(1) obtain p t where p: "resolve_pack junk d s = Some (Some p, t)" "resolve_all junk n ds (ps @ [p]) t = Some (Go qs, s')"
    by (auto simp: reply_text_def split: option.split_asm prod.split_asm)
  from resolve_pack_small [OF p(1) Cons.prems(2)] Cons.prems(3) have "small_ordinals t" "\<forall>q \<in> set (ps @ [p]). ps_ord q < 1024" by auto
  then show ?case by (rule Cons.IH [OF p(2)])
qed simp

lemma resolve_all_length: "resolve_all junk n ds ps s = Some (Go qs, s') \<Longrightarrow> length qs = length ps + length ds"
proof (induction ds arbitrary: ps s)
  case (Cons d ds)
  then show ?case by (auto simp: reply_text_def split: option.split_asm prod.split_asm)
qed simp

subsection \<open>Clauses\<close>

lemma search_loop_same:
  "public_view kv f \<Longrightarrow> flash_of s = kv \<Longrightarrow> public_keys ks \<Longrightarrow>
    same_run kv f (search_loop ps fi val qop m ks ids (hide f s)) (search_loop ps fi val qop m ks ids s)"
proof (induction ks arbitrary: ids s)
  case (Cons k ks)
  then have K: "KV_PACK_FROM_KEY k \<noteq> 1" "public_keys ks" by auto
  obtain r s' where g: "get_card s k 512 = (r, s')" "get_card (hide f s) k 512 = (r, hide f s')" "flash_of s' = kv"
    by (rule same_get [OF Cons.prems(1,2) K(1)])
  with Cons.IH [OF Cons.prems(1) _ K(2)] Cons.prems(2) show ?case by (cases r) (auto simp: Let_def split: option.split)
qed simp

lemma note_count_hide [simp]: "note_count pack n (hide f s) = hide f (note_count pack n s)" "flash_of (note_count pack n s) = flash_of s"
  by (simp_all add: note_count_def)

lemma search_pack_field_same:
  assumes "public_view kv f" "flash_of s = kv" "plain_pack (ps_ord ps)"
  shows "same_run kv f (search_pack_field ps fi val qop m (hide f s)) (search_pack_field ps fi val qop m s)"
  using search_loop_same [OF assms(1), of "note_count (ps_ord ps) (length (pack_range s (ps_ord ps) 1024)) s"]
    pack_range_hide [of s f "ps_ord ps" 1024] assms
  by (simp add: search_pack_field_def Let_def)

lemma resolve_clause_same:
  assumes "public_view kv f" "flash_of s = kv" "\<forall>p \<in> set packs. plain_pack (ps_ord p)" "length packs = length decks"
  shows "same_run kv f (resolve_clause n decks packs w (hide f s)) (resolve_clause n decks packs w s)"
proof (cases "find (\<lambda>j. pack_named (qw_pack w) (decks ! j) (packs ! j)) [1..<length decks]")
  case None
  with assms(2) show ?thesis by (auto simp: resolve_clause_def Let_def reply_text_def split: option.split)
next
  case (Some j)
  then have "packs ! j \<in> set packs" using assms(4) by (auto simp: find_Some_iff)
  with assms(3) have "plain_pack (ps_ord (packs ! j))" by blast
  from search_pack_field_same [OF assms(1,2) this] have
    sp: "same_run kv f (search_pack_field (packs ! j) fi val qop m (hide f s)) (search_pack_field (packs ! j) fi val qop m s)" for fi val qop m .
  show ?thesis
  proof (cases "find_field (packs ! j) (qw_field w)")
    case (Some fo)
    show ?thesis
    proof (cases fo)
      case F: (Some fi)
      from sp [of fi "qw_value w" "qw_op w" 64] show ?thesis
        by (cases rule: same_run_cases)
          (use assms(2) Some F \<open>find _ [1..<length decks] = Some j\<close> in \<open>auto simp: resolve_clause_def Let_def reply_text_def split: option.split\<close>)
    qed (use assms(2) Some \<open>find _ [1..<length decks] = Some j\<close> in \<open>auto simp: resolve_clause_def Let_def reply_text_def split: option.split\<close>)
  qed (use assms(2) \<open>find _ [1..<length decks] = Some j\<close> in \<open>auto simp: resolve_clause_def Let_def reply_text_def split: option.split\<close>)
qed

lemma resolve_clauses_same:
  "public_view kv f \<Longrightarrow> flash_of s = kv \<Longrightarrow> \<forall>p \<in> set packs. plain_pack (ps_ord p) \<Longrightarrow> length packs = length decks \<Longrightarrow>
    same_run kv f (resolve_clauses n decks packs ws cs (hide f s)) (resolve_clauses n decks packs ws cs s)"
proof (induction ws arbitrary: cs s)
  case (Cons w ws)
  from resolve_clause_same [OF Cons.prems, of n w] show ?case
  proof (cases rule: same_run_cases)
    case (2 r t)
    with Cons show ?thesis by (cases r) auto
  qed simp
qed simp

subsection \<open>The scan\<close>

lemma reorder_hide:
  assumes "public_view (flash_of s) f" "plain_pack ord"
  shows "reorder_clauses ord cs (hide f s) = map_prod id (hide f) (reorder_clauses ord cs s)"
  using get_cardinality_hide [OF assms] by (simp add: reorder_clauses_def split: prod.split)

lemma reorder_flash: "reorder_clauses ord cs s = (cs', s') \<Longrightarrow> flash_of s' = flash_of s"
  by (auto simp: reorder_clauses_def split: if_split_asm prod.split_asm)

lemma distinct_loop_same:
  "public_view kv f \<Longrightarrow> flash_of s = kv \<Longrightarrow> public_keys ks \<Longrightarrow>
    same_run kv f (distinct_loop c ks seen (hide f s)) (distinct_loop c ks seen s)"
proof (induction ks arbitrary: seen s)
  case (Cons k ks)
  then have K: "KV_PACK_FROM_KEY k \<noteq> 1" "public_keys ks" by auto
  obtain r s' where g: "get_card s k 256 = (r, s')" "get_card (hide f s) k 256 = (r, hide f s')" "flash_of s' = kv"
    by (rule same_get [OF Cons.prems(1,2) K(1)])
  with Cons.IH [OF Cons.prems(1) g(3) K(2)] show ?case by (cases r) (auto simp: Let_def split: option.split)
qed simp

text \<open>\<open>collect_fanout\<close> returns the state alone.\<close>

lemma collect_fanout_same:
  "public_view kv f \<Longrightarrow> flash_of s = kv \<Longrightarrow> public_keys keys \<Longrightarrow>
    collect_fanout ord keys cs (hide f s) = map_option (hide f) (collect_fanout ord keys cs s)
    \<and> (\<forall>s'. collect_fanout ord keys cs s = Some s' \<longrightarrow> flash_of s' = kv)"
proof (induction cs arbitrary: s)
  case (Cons c cs)
  note ih = Cons.IH [OF Cons.prems(1) _ Cons.prems(3)]
  from Cons.prems have "public_keys (take 64 keys)" by simp
  from distinct_loop_same [OF Cons.prems(1,2) this, of c "[]"] show ?case
  proof (cases rule: same_run_cases)
    case 1
    then show ?thesis using ih [OF Cons.prems(2)] by simp
  next
    case (2 seen t)
    define u where "u = (if seen = [] then t
      else t\<lparr>s_fanout := fanout_update ord (cl_ord c) 0 (word_of_nat (length keys)) (word_of_nat (length seen)) (s_fanout t)\<rparr>)"
    have "flash_of u = kv" using 2(3) by (simp add: u_def)
    with ih [OF this] ih [OF Cons.prems(2)] 2 show ?thesis by (cases "seen = []") (simp_all add: u_def)
  qed
qed simp

lemma field_text_same:
  assumes "public_view kv f" "flash_of s = kv" "\<forall>p \<in> set packs. plain_pack (ps_ord p)" "\<forall>j. sl_pack x = Some j \<longrightarrow> j < length packs"
  shows "same_run kv f (field_text packs crd m x (hide f s)) (field_text packs crd m x s)"
proof (cases "\<exists>j lf. sl_ord x \<noteq> 0xFF \<and> sl_pack x = Some (Suc j) \<and> find_lookup_to (packs ! 0) (packs ! Suc j) = Some (Some lf)")
  case True
  then obtain j lf where x: "sl_ord x \<noteq> 0xFF" "sl_pack x = Some (Suc j)" "find_lookup_to (packs ! 0) (packs ! Suc j) = Some (Some lf)" by blast
  with assms(3,4) have "plain_pack (ps_ord (packs ! Suc j))" by simp
  define ref where "ref = (case extract_field_int32 crd (ps_field_ords (packs ! 0) ! lf) (ps_field_types (packs ! 0) ! lf) of None \<Rightarrow> 0 | Some v \<Rightarrow> v)"
  define key where "key = push_bit 22 (scast (ps_ord (packs ! Suc j))) OR (ref AND 0x3FFFFF)"
  have "KV_PACK_FROM_KEY key \<noteq> 1"
    using plain_pack_bits(1) [OF \<open>plain_pack _\<close>] unfolding key_def pack_of_prefix .
  then obtain r s' where g: "get_card s key 512 = (r, s')" "get_card (hide f s) key 512 = (r, hide f s')" "flash_of s' = kv"
    by (rule same_get [OF assms(1,2)])
  have e: "field_text packs crd m x s = (case get_card s key 512 of (Fault, s') \<Rightarrow> None | (Miss, s') \<Rightarrow> Some (None, s')
      | (Found rcrd, s') \<Rightarrow> map_option (\<lambda>t. (Some t, s')) (extract_field_str rcrd (sl_ord x) (sl_type x) m))" for s
    using x by (simp add: field_text_def Let_def key_def ref_def)
  show ?thesis using g by (cases r; cases "extract_field_str (case r of Found rcrd \<Rightarrow> rcrd) (sl_ord x) (sl_type x) m") (simp_all add: e)
next
  case False
  then show ?thesis using assms(2)
    by (cases "extract_field_str crd (sl_ord x) (sl_type x) m") (auto simp: field_text_def Let_def split: option.split nat.split)
qed

definition selections_ok :: "pack_schema_t list \<Rightarrow> selection list \<Rightarrow> bool" where
  "selections_ok packs xs \<longleftrightarrow> (\<forall>x \<in> set xs. \<forall>j. sl_pack x = Some j \<longrightarrow> j < length packs)"

lemma row_fields_same:
  "public_view kv f \<Longrightarrow> flash_of s = kv \<Longrightarrow> \<forall>p \<in> set packs. plain_pack (ps_ord p) \<Longrightarrow> selections_ok packs xs \<Longrightarrow>
    same_run kv f (row_fields n packs crd xs b out (hide f s)) (row_fields n packs crd xs b out s)"
proof (induction xs arbitrary: b out s)
  case (Cons x xs)
  then have x: "\<forall>j. sl_pack x = Some j \<longrightarrow> j < length packs" "selections_ok packs xs" by (simp_all add: selections_ok_def)
  from field_text_same [OF Cons.prems(1-3) x(1), of crd 64] show ?case
  proof (cases rule: same_run_cases)
    case (2 t u)
    with Cons.IH [OF Cons.prems(1) 2(3) Cons.prems(3) x(2)] Cons.prems(2) show ?thesis by (simp add: Let_def)
  qed (use Cons.prems(2) in simp)
qed simp

lemma direct_rows_same:
  "public_view kv f \<Longrightarrow> flash_of s = kv \<Longrightarrow> \<forall>p \<in> set packs. plain_pack (ps_ord p) \<Longrightarrow> selections_ok packs xs \<Longrightarrow> public_keys ks \<Longrightarrow>
    direct_rows n packs cs xs ks rows out (hide f s) = map_option (\<lambda>(out, rows, s). (out, rows, hide f s)) (direct_rows n packs cs xs ks rows out s)"
proof (induction ks arbitrary: rows out s)
  case (Cons k ks)
  then have K: "KV_PACK_FROM_KEY k \<noteq> 1" "public_keys ks" by auto
  obtain r s' where g: "get_card s k 512 = (r, s')" "get_card (hide f s) k 512 = (r, hide f s')" "flash_of s' = kv"
    by (rule same_get [OF Cons.prems(1,2) K(1)])
  note ih = Cons.IH [OF Cons.prems(1) _ Cons.prems(3,4) K(2)]
  show ?case
  proof (cases r)
    case (Found crd)
    from row_fields_same [OF Cons.prems(1) g(3) Cons.prems(3,4), of n crd True out] show ?thesis
      by (cases rule: same_run_cases) (use g Found ih in \<open>simp_all split: option.split bool.split\<close>)
  qed (use g ih in simp_all)
qed simp

lemma agg_row_same:
  "public_view kv f \<Longrightarrow> flash_of s = kv \<Longrightarrow> \<forall>p \<in> set packs. plain_pack (ps_ord p) \<Longrightarrow> selections_ok packs xs \<Longrightarrow>
    same_run kv f (agg_row packs crd xs (hide f s)) (agg_row packs crd xs s)"
proof (induction xs arbitrary: s)
  case (Cons x xs)
  then have x: "\<forall>j. sl_pack x = Some j \<longrightarrow> j < length packs" "selections_ok packs xs" by (simp_all add: selections_ok_def)
  from field_text_same [OF Cons.prems(1-3) x(1), of crd 32] show ?case
  proof (cases rule: same_run_cases)
    case (2 t u)
    from same_run_map [OF Cons.IH [OF Cons.prems(1) 2(3) Cons.prems(3) x(2)], of "\<lambda>ts. (case t of None \<Rightarrow> [] | Some val \<Rightarrow> val) # ts"] 2
    show ?thesis by simp
  qed simp
qed simp

lemma agg_rows_same:
  "public_view kv f \<Longrightarrow> flash_of s = kv \<Longrightarrow> \<forall>p \<in> set packs. plain_pack (ps_ord p) \<Longrightarrow> selections_ok packs xs \<Longrightarrow> public_keys ks \<Longrightarrow>
    same_run kv f (agg_rows packs cs xs ks rows (hide f s)) (agg_rows packs cs xs ks rows s)"
proof (induction ks arbitrary: rows s)
  case (Cons k ks)
  then have K: "KV_PACK_FROM_KEY k \<noteq> 1" "public_keys ks" by auto
  obtain r s' where g: "get_card s k 512 = (r, s')" "get_card (hide f s) k 512 = (r, hide f s')" "flash_of s' = kv"
    by (rule same_get [OF Cons.prems(1,2) K(1)])
  note ih = Cons.IH [OF Cons.prems(1) _ Cons.prems(3,4) K(2)]
  show ?case
  proof (cases r)
    case (Found crd)
    from agg_row_same [OF Cons.prems(1) g(3) Cons.prems(3,4), of crd] show ?thesis
      by (cases rule: same_run_cases) (use g Found ih Cons.prems(2) in \<open>simp_all split: option.split bool.split\<close>)
  qed (use g ih Cons.prems(2) in simp_all)
qed simp

lemma run_scan_same:
  assumes "public_view kv f" "flash_of s = kv" "\<forall>p \<in> set packs. plain_pack (ps_ord p)" "selections_ok packs xs" "packs \<noteq> []"
  shows "run_scan n packs cs xs (hide f s) = map_option (map_prod id (hide f)) (run_scan n packs cs xs s)"
proof -
  define ord where "ord = ps_ord (packs ! 0)"
  have o: "plain_pack ord" using assms(3,5) by (simp add: ord_def)
  obtain cs1 s1 where r: "reorder_clauses ord cs s = (cs1, s1)" by (cases "reorder_clauses ord cs s")
  have s1: "flash_of s1 = kv" "reorder_clauses ord cs (hide f s) = (cs1, hide f s1)"
    using reorder_hide [OF _ o, of s f cs] reorder_flash [OF r] assms(1,2) r by simp_all
  define keys where "keys = pack_range s1 ord 256"
  have k: "pack_range (hide f s1) ord 256 = keys" "public_keys keys"
    using pack_range_hide [OF _ o, of s1 f 256] assms(1) s1(1) by (simp_all add: keys_def)
  define s2 where "s2 = note_count ord (length keys) s1"
  have "flash_of s2 = kv" using s1(1) by (simp add: s2_def)
  note cf = collect_fanout_same [OF assms(1) this k(2), of ord cs1]
  show ?thesis
  proof (cases "collect_fanout ord keys cs1 s2")
    case None
    with cf show ?thesis using r s1 k by (simp add: run_scan_def Let_def ord_def [symmetric] keys_def [symmetric] s2_def)
  next
    case (Some s3)
    with cf have s3: "collect_fanout ord keys cs1 (hide f s2) = Some (hide f s3)" "flash_of s3 = kv" by simp_all
    have st: "run_scan n packs cs xs s = (let pname = take 31 (ps_name (packs ! 0)) in
          if \<forall>x \<in> set xs. sl_agg x = QAGG_NONE then
            map_option (\<lambda>(out, rows, s4). (\<lparr>qr_text = out, qr_len = length out, qr_pack = pname, qr_count = rows\<rparr>, s4))
              (direct_rows n packs cs1 xs keys 0 [] s3)
          else
            (case agg_rows packs cs1 xs keys [] s3 of
               None \<Rightarrow> None
             | Some (rows, s4) \<Rightarrow>
                 (case group_rows xs rows [] of
                    None \<Rightarrow> None
                  | Some gs \<Rightarrow>
                      map_option (\<lambda>out. (\<lparr>qr_text = out, qr_len = length out, qr_pack = pname, qr_count = length gs\<rparr>, s4))
                        (group_output n xs gs []))))"
      if "reorder_clauses ord cs s = (cs1, s1)" "pack_range s1 ord 256 = keys" "collect_fanout ord keys cs1 (note_count ord (length keys) s1) = Some s3"
      for s s1 s3
      using that by (simp add: run_scan_def Let_def ord_def [symmetric])
    note e = st [OF r keys_def [symmetric] Some [unfolded s2_def]] st [OF s1(2) k(1), of "hide f s3", OF s3(1) [unfolded s2_def, folded note_count_hide]]
    from agg_rows_same [OF assms(1) s3(2) assms(3,4) k(2), of cs1 "[]"] show ?thesis
    proof (cases rule: same_run_cases)
      case 1
      with direct_rows_same [OF assms(1) s3(2) assms(3,4) k(2), of n cs1 0 "[]"] show ?thesis
        unfolding e by (simp add: Let_def option.map_comp comp_def case_prod_unfold map_prod_def)
    next
      case (2 rows s4)
      with direct_rows_same [OF assms(1) s3(2) assms(3,4) k(2), of n cs1 0 "[]"] show ?thesis
        unfolding e by (simp add: Let_def option.map_comp comp_def case_prod_unfold map_prod_def split: option.split)
    qed
  qed
qed

lemma select_all_ok: "select_all decks packs xs = Some ys \<Longrightarrow> length packs = length decks \<Longrightarrow> selections_ok packs ys"
proof (induction xs arbitrary: ys)
  case (Cons x xs)
  then show ?case
    by (auto simp: selections_ok_def select_named_def Let_def find_Some_iff split: option.split_asm if_split_asm)
qed (simp add: selections_ok_def)

lemma selections_select_ok: "selections q packs = Some xs \<Longrightarrow> length packs = length (q_from_decks q) \<Longrightarrow> selections_ok packs xs"
  using select_all_ok by (auto simp: selections_def Let_def selections_ok_def split: if_split_asm)

text \<open>A write to pack 1 keeps the view of the rest.\<close>

lemma index_keys: "idx_inv kv \<Longrightarrow> idx_get kv k \<noteq> None \<longleftrightarrow> k \<in> set (map e_key (g_index kv))"
  using idx_get_map [of kv k] by (auto simp: idx_inv_def idx_map_def map_of_eq_None_iff image_image)

lemma range_keys: "map fst (kv_range kv p msk m) = take m (filter (\<lambda>k. k AND msk = p AND msk) (map e_key (g_index kv)))"
  by (simp add: kv_range_def take_map [symmetric] filter_map comp_def)

lemma public_view_put:
  assumes "nor_flash dev" "store_inv kv" "kv_small val" "kv_put dev kv key val = (b, kv')" "KV_PACK_FROM_KEY key = 1"
  shows "public_view kv kv'"
proof -
  have idx: "idx_inv kv" "idx_inv kv'" using assms(2) put_card(1) [OF assms(1-4)] by (simp_all add: store_inv_def)
  have "filter (\<lambda>k. k AND 0xFFC00000 = p AND 0xFFC00000) (map e_key (g_index kv')) = filter (\<lambda>k. k AND 0xFFC00000 = p AND 0xFFC00000) (map e_key (g_index kv))"
    if p: "KV_PACK_FROM_KEY p \<noteq> 1" for p
  proof (rule strict_sorted_equal)
    show "set (filter (\<lambda>k. k AND 0xFFC00000 = p AND 0xFFC00000) (map e_key (g_index kv'))) = set (filter (\<lambda>k. k AND 0xFFC00000 = p AND 0xFFC00000) (map e_key (g_index kv)))"
      using put_card(4) [OF assms(1-4)] index_keys idx p assms(5) same_prefix_pack [of key p] by (auto simp del: set_map)
  qed (use idx in \<open>auto simp: idx_inv_def idx_sorted_def intro: sorted_wrt_filter\<close>)
  moreover have "kv_get_copy kv' k out cap = kv_get_copy kv k out cap" if "KV_PACK_FROM_KEY k \<noteq> 1" for k out cap
    by (rule put_card(2) [OF assms(1-4)]) (use that assms(5) in auto)
  ultimately show ?thesis by (simp add: public_view_def range_keys)
qed

text \<open>
  C35: a query does not see the accounts. Two stores that hold the same outside of pack 1, the pack of the users, and whose schemas have
  ordinals below 1024 give the same answer to every query, and keep on holding the same.
\<close>

theorem query_hides_users:
  assumes "public_view (flash_of s) f" and "small_ordinals s"
  shows "query_execute junk q n (hide f s) = map_option (map_prod id (hide f)) (query_execute junk q n s)"
proof -
  have "query_execute junk q n (hide f s) = map_option (map_prod id (hide f)) (query_execute junk q n s)"
    if q: "q_valid q" "q_from_decks q \<noteq> []"
    using resolve_all_same [OF assms(1) refl, of junk n "q_from_decks q" "[]"]
  proof (cases rule: same_run_cases)
    case (2 r s1)
    show ?thesis
    proof (cases r)
      case (Go packs)
      have p: "\<forall>p \<in> set packs. ps_ord p < 1024" "length packs = length (q_from_decks q)"
        using resolve_all_small [of junk n _ "[]"] resolve_all_length [of junk n _ "[]"] 2(2) assms(2) Go by auto
      show ?thesis
      proof (cases "\<exists>p \<in> set packs. ps_ord p = 1")
        case False
        then have pl: "\<forall>p \<in> set packs. plain_pack (ps_ord p)" using p(1) by (auto simp: plain_pack_def)
        from assms(1) have v: "public_view (flash_of s) f" .
        from resolve_clauses_same [OF v 2(3) pl p(2), of n "q_where q" "[]"] show ?thesis
        proof (cases rule: same_run_cases)
          case c: (2 rc s2)
          show ?thesis
          proof (cases rc)
            case cl: (Go cs)
            have "packs \<noteq> []" using p(2) q(2) by auto
            then show ?thesis
              using run_scan_same [OF v c(3) pl selections_select_ok [OF _ p(2)]] q 2 Go False c cl
              by (auto simp: query_execute_def Let_def split: option.split)
          qed (use q 2 Go False c in \<open>simp add: query_execute_def Let_def\<close>)
        qed (use q 2 Go False in \<open>simp add: query_execute_def Let_def\<close>)
      qed (use q 2 Go in \<open>simp add: query_execute_def Let_def reply_text_def\<close>)
    qed (use q 2 in \<open>simp add: query_execute_def Let_def\<close>)
  qed (use q in \<open>simp add: query_execute_def Let_def\<close>)
  then show ?thesis
    by (cases "q_valid q \<and> q_from_decks q \<noteq> []") (auto simp: query_execute_def reply_text_def Let_def)
qed

definition empty_schema :: pack_schema_t where
  "empty_schema = \<lparr>ps_ord = 0, ps_field_ords = replicate 32 0, ps_field_types = replicate 32 0, ps_field_maxlens = replicate 32 0,
    ps_field_names = replicate 32 [], ps_field_count = 0, ps_name = []\<rparr>"

theorem query_hides_users_witness:
  "\<exists>kv. kv_put nor_dev kv_boot (USER_KEY 0) demo_card = (True, kv)
    \<and> query_execute empty_schema (query_parse (cstr ''F:users'')) 256 (hide kv demo_query_state)
      = map_option (map_prod id (hide kv)) (query_execute empty_schema (query_parse (cstr ''F:users'')) 256 demo_query_state)"
proof -
  have small: "kv_small demo_card" by (simp add: kv_small_def demo_card_def)
  then have "length demo_card \<le> KV_MAX_VALUE" by (simp add: demo_card_def KV_MAX_VALUE_def)
  from put_boot [OF this, of "USER_KEY 0"] obtain kv where p: "kv_put nor_dev kv_boot (USER_KEY 0) demo_card = (True, kv)" by blast
  have fl: "flash_of demo_query_state = kv_boot" by (simp add: flash_of_def demo_query_state_def stores_small_def)
  have "KV_PACK_FROM_KEY (USER_KEY 0) = 1" by (simp add: KV_PACK_FROM_KEY_def USER_KEY_def PACK_KEY_def USER_PACK_def)
  from public_view_put [OF nor_flash_dev store_inv_boot small p this] have "public_view (flash_of demo_query_state) kv" by (simp only: fl)
  moreover have "small_ordinals demo_query_state"
    by (simp add: small_ordinals_def range_pack0 fl kv_range_def kv_boot_def) (simp add: demo_query_state_def)
  ultimately show ?thesis using p query_hides_users [of demo_query_state kv] by blast
qed

text \<open>With an ordinal of 1024 or more the denial is passed by: a schema card with number 1025 has the keys of pack 1.\<close>

lemma ordinal_1025_is_pack_1: "pack_range s 1025 n = pack_range s 1 n"
proof -
  have "push_bit 22 (scast (1025 :: u16)) = (0x400000 :: u32)" "push_bit 22 (scast (1 :: u16)) = (0x400000 :: u32)" by simp_all
  then show ?thesis by (simp only: pack_range_def)
qed

end
