(* ===== verification/QueryScan.thy ===== *)
theory QueryScan
  imports QuerySafety
begin

text \<open>
  What a scan answers when the store is the flash alone: the cards of the first pack that pass all clauses, in the order of their keys, and
  how the text of a row is read back.
\<close>

unbundle bit_operations_syntax

subsection \<open>Reading from the flash\<close>

definition flash_only :: "query_state \<Rightarrow> bool" where
  "flash_only s \<longleftrightarrow> \<not> kvsd_ready (st_sd (qy_stores s))"

definition card_at :: "query_state \<Rightarrow> u32 \<Rightarrow> nat \<Rightarrow> byte list read_result" where
  "card_at s key cap = fst (get_card s key cap)"

lemma get_card_at: "flash_only s \<Longrightarrow> get_card s key cap = (card_at s key cap, s)"
  by (auto simp: card_at_def get_card_def kv_store_get_copy_def kv_use_sd_def flash_only_def split: read_result.split option.split)

lemma stores_eq:
  assumes "qy_stores s = qy_stores t"
  shows "card_at s key cap = card_at t key cap" "flash_only s = flash_only t" "pack_range s ord m = pack_range t ord m"
  using assms by (auto simp: card_at_def get_card_def flash_only_def pack_range_def split: prod.split read_result.split)

lemma field_text_at:
  assumes "flash_only s" "qy_stores t = qy_stores s"
  shows "field_text packs crd m x s = map_option (\<lambda>p. (fst p, s)) (field_text packs crd m x t)"
  using assms stores_eq [OF assms(2)]
  by (auto simp: field_text_def get_card_at Let_def option.map_comp comp_def split: option.split nat.split read_result.split)

lemma row_fields_at:
  "flash_only s \<Longrightarrow> qy_stores t = qy_stores s \<Longrightarrow>
    row_fields n packs crd xs b out s = map_option (\<lambda>p. (fst p, s)) (row_fields n packs crd xs b out t)"
proof (induction xs arbitrary: b out t)
  case (Cons x xs)
  show ?case
  proof (cases "field_text packs crd 64 x t")
    case None
    with field_text_at [OF Cons.prems, of packs crd 64 x] show ?thesis by simp
  next
    case (Some p)
    then have ft: "field_text packs crd 64 x s = Some (fst p, s)" using field_text_at [OF Cons.prems, of packs crd 64 x] by simp
    have "flash_only t" using Cons.prems stores_eq(2) by metis
    from field_text_at [OF this refl, of packs crd 64 x] Some have "snd p = t" by (cases p) auto
    with ft Some Cons.IH [OF Cons.prems] show ?thesis by (cases p) (simp add: Let_def)
  qed
qed simp

lemma distinct_loop_at: "flash_only s \<Longrightarrow> distinct_loop c ks seen s = Some (seen', s') \<Longrightarrow> s' = s"
proof (induction ks arbitrary: seen)
  case (Cons k ks)
  then show ?case by (auto simp: get_card_at Let_def split: read_result.split_asm option.split_asm)
qed simp

lemma collect_fanout_at: "flash_only s \<Longrightarrow> collect_fanout ord keys cs s = Some s' \<Longrightarrow> qy_stores s' = qy_stores s"
proof (induction cs arbitrary: s)
  case (Cons c cs)
  show ?case
  proof (cases "cl_type c = 0x12")
    case True
    then obtain seen where d: "distinct_loop c (take 64 keys) [] s = Some (seen, s)"
      using Cons.prems distinct_loop_at [OF Cons.prems(1)] by (auto split: option.split_asm)
    define u where "u = (if seen = [] then s
      else s\<lparr>s_fanout := fanout_update ord (cl_ord c) 0 (word_of_nat (length keys)) (word_of_nat (length seen)) (s_fanout s)\<rparr>)"
    have u: "qy_stores u = qy_stores s" by (simp add: u_def)
    then have "flash_only u" using Cons.prems(1) stores_eq(2) by metis
    moreover have "collect_fanout ord keys cs u = Some s'" using Cons.prems(2) True d by (simp add: u_def)
    ultimately show ?thesis using Cons.IH u by metis
  qed (use Cons in simp)
qed simp

lemma reorder_stores: "qy_stores (snd (reorder_clauses ord cs s)) = qy_stores s"
  by (simp add: reorder_clauses_def split: prod.split)

subsection \<open>The rows of a scan\<close>

definition row_hit :: "query_state \<Rightarrow> clause list \<Rightarrow> u32 \<Rightarrow> bool" where
  "row_hit s cs k \<longleftrightarrow> (case card_at s k 512 of Found crd \<Rightarrow> (\<forall>c \<in> set cs. clause_pass crd c = Some True) | _ \<Rightarrow> False)"

text \<open>The text behind \<open>out\<close> of the row of a card.\<close>

definition row_out :: "nat \<Rightarrow> pack_schema_t list \<Rightarrow> selection list \<Rightarrow> query_state \<Rightarrow> u32 \<Rightarrow> byte list \<Rightarrow> byte list" where
  "row_out n packs xs s k out =
     (case card_at s k 512 of
        Found crd \<Rightarrow> (case row_fields n packs crd xs True out s of None \<Rightarrow> out | Some p \<Rightarrow> put_crlf n (fst p))
      | _ \<Rightarrow> out)"

definition clauses_readable :: "query_state \<Rightarrow> clause list \<Rightarrow> u32 list \<Rightarrow> bool" where
  "clauses_readable s cs ks \<longleftrightarrow> (\<forall>k \<in> set ks. \<forall>crd. card_at s k 512 = Found crd \<longrightarrow> (\<forall>c \<in> set cs. clause_pass crd c \<noteq> None))"

lemma direct_rows_at:
  "direct_rows n packs cs xs ks rows out t = Some (out', rows', t') \<Longrightarrow> flash_only s \<Longrightarrow> qy_stores t = qy_stores s \<Longrightarrow> clauses_readable s cs ks \<Longrightarrow>
    rows \<le> QUERY_MAX_RESULTS \<Longrightarrow>
    rows' = min QUERY_MAX_RESULTS (rows + length (filter (row_hit s cs) ks))
    \<and> out' = fold (row_out n packs xs s) (take (QUERY_MAX_RESULTS - rows) (filter (row_hit s cs) ks)) out"
proof (induction ks arbitrary: rows out)
  case (Cons k ks)
  have t: "flash_only t" "card_at t k 512 = card_at s k 512" using Cons.prems(2,3) stores_eq by metis+
  have r: "clauses_readable s cs ks" using Cons.prems(4) by (simp add: clauses_readable_def)
  note ih = Cons.IH [OF _ Cons.prems(2,3) r]
  show ?case
  proof (cases "QUERY_MAX_RESULTS \<le> rows")
    case True
    with Cons.prems(1,5) show ?thesis by simp
  next
    case more: False
    show ?thesis
    proof (cases "card_at s k 512")
      case (Found crd)
      from Cons.prems(4) Found have "\<forall>c \<in> set cs. clause_pass crd c \<noteq> None" by (simp add: clauses_readable_def)
      note rp = row_pass_all [OF this]
      show ?thesis
      proof (cases "\<forall>c \<in> set cs. clause_pass crd c = Some True")
        case True
        then have hit: "row_hit s cs k" using Found by (simp add: row_hit_def)
        obtain o1 where o1: "row_fields n packs crd xs True out t = Some (o1, t)"
          "direct_rows n packs cs xs ks (rows + 1) (put_crlf n o1) t = Some (out', rows', t')"
          using Cons.prems(1) more get_card_at [OF t(1)] t(2) Found rp True row_fields_at [OF t(1) refl, of n packs crd xs True out]
          by (cases "row_fields n packs crd xs True out t") auto
        have "row_fields n packs crd xs True out s = Some (o1, s)"
          using row_fields_at [OF Cons.prems(2,3), of n packs crd xs True out] o1(1) by simp
        then have "row_out n packs xs s k out = put_crlf n o1" using Found by (simp add: row_out_def)
        with ih [OF o1(2)] hit more show ?thesis by (auto simp: take_Cons' Suc_diff_Suc)
      next
        case False
        then have "\<not> row_hit s cs k" using Found by (simp add: row_hit_def)
        moreover have "direct_rows n packs cs xs ks rows out t = Some (out', rows', t')"
          using Cons.prems(1) more get_card_at [OF t(1)] t(2) Found rp False by simp
        ultimately show ?thesis using ih Cons.prems(5) by simp
      qed
    next
      case Miss
      then have "\<not> row_hit s cs k" "direct_rows n packs cs xs ks rows out t = Some (out', rows', t')"
        using Cons.prems(1) more get_card_at [OF t(1)] t(2) by (simp_all add: row_hit_def)
      then show ?thesis using ih Cons.prems(5) by simp
    qed (use Cons.prems(1) more get_card_at [OF t(1)] t(2) in simp)
  qed
qed simp


definition demo_scan :: "kv_state \<Rightarrow> query_state" where
  "demo_scan kv = demo_query_state\<lparr>qy_stores := \<lparr>st_flash = kv, st_sd = sd_small\<lparr>g_ready := False\<rparr>\<rparr>\<rparr>"

definition demo_selection :: "selection list" where
  "demo_selection = [\<lparr>sl_ord = 0, sl_type = 0x09, sl_pack = None, sl_agg = QAGG_NONE\<rparr>, \<lparr>sl_ord = 1, sl_type = 0x05, sl_pack = None, sl_agg = QAGG_NONE\<rparr>]"

lemma demo_fields:
  "card_field demo_card 0 = Some (6, 4)" "card_field demo_card 1 = Some (12, 2)"
  by (simp_all add: card_field_def demo_card_def find_ord.simps)

lemma demo_texts:
  "extract_field_str demo_card 0 0x09 64 = Some (cstr ''a|b'')" "extract_field_int32 demo_card 1 0x05 = Some 0xFFFFFFFE"
  "extract_field_str demo_card 1 0x05 64 = Some (cstr ''-2'')"
  by (simp_all add: extract_field_str_def extract_field_int32_def demo_fields)
    (simp_all add: demo_card_def segment_def c_string_def cstr_def field_u16_def le16_def dec_int_def dec_nat.simps)

lemma put_copy:
  assumes "nor_flash dev" "store_inv kv" "kv_small val" "kv_put dev kv key val = (True, kv')"
  obtains ver where "kv_get_copy kv' key True (Some 512) = Found (Some val, length val, ver)"
proof -
  from assms(4) obtain ver where r: "kv_put_if_version dev kv key val KV_VERSION_ANY = (Some ver, kv')"
    by (auto simp: kv_put_def split: prod.split_asm)
  from put_store(3) [OF assms(1,2) r refl] obtain loc where "idx_get kv' key = Some (loc, ver, 0)"
    "kv_get_copy kv' key True (Some KV_MAX_VALUE) = Found (Some val, length val, ver)"
    using small_fits [OF assms(3)] by auto
  then have "kv_get_copy kv' key True (Some 512) = Found (Some val, length val, ver)"
    using read_record_cap [of "kv_flash kv'" loc key KV_MAX_VALUE val "length val" ver 512] assms(3)
    by (simp add: kv_get_copy_def kv_small_def)
  with that show ?thesis .
qed

lemma demo_scan_card:
  obtains kv where "kv_put nor_dev kv_boot 0x00800005 demo_card = (True, kv)" "card_at (demo_scan kv) 0x00800005 512 = Found demo_card"
    "pack_range (demo_scan kv) 2 256 = [0x00800005]"
proof -
  have small: "kv_small demo_card" "length demo_card \<le> KV_MAX_VALUE" by (simp_all add: kv_small_def demo_card_def KV_MAX_VALUE_def)
  from put_boot [OF small(2), of "0x00800005"] obtain kv where p: "kv_put nor_dev kv_boot 0x00800005 demo_card = (True, kv)" by blast
  note a = nor_flash_dev store_inv_boot small(1) p
  from put_copy [OF a] obtain ver where c: "kv_get_copy kv 0x00800005 True (Some 512) = Found (Some demo_card, length demo_card, ver)" .
  have fl: "\<not> kv_use_sd (qy_stores (demo_scan kv)) k" "\<not> kv_use_sd_pack (qy_stores (demo_scan kv)) q" "st_flash (qy_stores (demo_scan kv)) = kv" for k q
    by (simp_all add: demo_scan_def kv_use_sd_def kv_use_sd_pack_def kvsd_ready_def)
  have "take (length demo_card) (blit (replicate 512 0) 0 demo_card) = demo_card" by (simp add: blit_def)
  then have card: "card_at (demo_scan kv) 0x00800005 512 = Found demo_card"
    by (simp add: card_at_def get_card_def kv_store_get_copy_def fl c)
  have idx: "idx_inv kv_boot" "idx_inv kv" using store_inv_boot put_card(1) [OF a] by (simp_all add: store_inv_def)
  have "idx_get kv_boot k = None" for k by (simp add: idx_get_def kv_boot_def idx_find_linear_def idx_search.simps)
  then have "k \<in> set (map e_key (g_index kv)) \<longleftrightarrow> k = 0x00800005" for k
    using put_card(4) [OF a, of k] index_keys [OF idx(2), of k] by simp
  then have "set (map e_key (g_index kv)) = {0x00800005}" by blast
  then have keys: "map e_key (g_index kv) = [0x00800005]"
    using idx(2) by (intro strict_sorted_equal [symmetric]) (auto simp: idx_inv_def idx_sorted_def)
  have "pack_range (demo_scan kv) 2 256 = [0x00800005]"
    using fl by (simp add: pack_range_def kv_store_range_def range_keys keys)
  with that p card show ?thesis .
qed

lemma collect_fanout_plain: "\<forall>c \<in> set cs. cl_type c \<noteq> 0x12 \<Longrightarrow> collect_fanout ord keys cs s = Some s"
  by (induction cs) auto

lemma demo_scan_runs:
  assumes "card_at (demo_scan kv) 0x00800005 512 = Found demo_card" "pack_range (demo_scan kv) 2 256 = [0x00800005]"
    and "\<forall>c \<in> set demo_clauses. clause_pass demo_card c = Some True"
  shows "\<exists>r s'. run_scan 64 [empty_schema\<lparr>ps_ord := 2\<rparr>] demo_clauses demo_selection (demo_scan kv) = Some (r, s')"
proof -
  obtain cs1 s1 where re: "reorder_clauses 2 demo_clauses (demo_scan kv) = (cs1, s1)" by (cases "reorder_clauses 2 demo_clauses (demo_scan kv)")
  then have s1: "qy_stores s1 = qy_stores (demo_scan kv)" using reorder_stores [of 2 demo_clauses "demo_scan kv"] by simp
  have cs1: "set cs1 = set demo_clauses" using mset_reorder [of 2 demo_clauses "demo_scan kv"] re by (metis fst_conv mset_eq_setD)
  define s2 where "s2 = note_count 2 1 s1"
  have s2: "qy_stores s2 = qy_stores (demo_scan kv)" by (simp add: s2_def note_count_def s1)
  have f: "flash_only s2" using stores_eq(2) [OF s2] by (simp add: flash_only_def demo_scan_def kvsd_ready_def)
  have g: "get_card s2 0x00800005 512 = (Found demo_card, s2)" using get_card_at [OF f] stores_eq(1) [OF s2] assms(1) by simp
  have cf: "collect_fanout 2 [0x00800005] cs1 s2 = Some s2" by (rule collect_fanout_plain) (simp add: cs1 demo_clauses_def)
  have rp: "row_pass demo_card cs1 = Some True" using row_pass_all [of cs1 demo_card] cs1 assms(3) by auto
  have "\<exists>p. row_fields 64 [empty_schema\<lparr>ps_ord := 2\<rparr>] demo_card demo_selection True [] s2 = Some p"
    by (auto simp: demo_selection_def field_text_def demo_texts Let_def)
  then obtain o1 u where rf: "row_fields 64 [empty_schema\<lparr>ps_ord := 2\<rparr>] demo_card demo_selection True [] s2 = Some (o1, u)" by auto
  have "\<forall>x \<in> set demo_selection. sl_agg x = QAGG_NONE" by (simp add: demo_selection_def)
  moreover have "pack_range s1 2 256 = [0x00800005]" using stores_eq(3) [OF s1] assms(2) by simp
  ultimately show ?thesis
    using re cf g rp rf by (simp add: run_scan_def Let_def s2_def QUERY_MAX_RESULTS_def)
qed


subsection \<open>Reading a row back\<close>

definition unescape :: "byte \<Rightarrow> byte" where
  "unescape c = (if c = 0x72 then 0x0D else if c = 0x6E then 0x0A else c)"

text \<open>The values of a row: cut at the bars, with every backslash and the character behind it taken for one character.\<close>

fun split_row :: "byte list \<Rightarrow> byte list \<Rightarrow> byte list list" where
  "split_row acc [] = [rev acc]"
| "split_row acc (c # cs) =
     (if c = 0x5C then (case cs of [] \<Rightarrow> [rev acc] | d # ds \<Rightarrow> split_row (unescape d # acc) ds)
      else if c = 0x7C then rev acc # split_row [] cs
      else split_row (c # acc) cs)"

definition escaped :: "byte list \<Rightarrow> byte list" where
  "escaped val = concat (map escape_char val)"

lemma split_escaped: "split_row acc (escaped val @ rest) = split_row (rev val @ acc) rest"
  by (induction val arbitrary: acc) (simp_all add: escaped_def escape_char_def unescape_def)

lemma escaped_no_line: "0x0D \<notin> set (escaped val) \<and> 0x0A \<notin> set (escaped val)"
  by (induction val) (auto simp: escaped_def escape_char_def)

lemma length_escaped: "length (escaped val) \<le> 2 * length val"
proof (induction val)
  case (Cons c cs)
  then show ?case using length_escape_char [of c] by (simp add: escaped_def)
qed (simp add: escaped_def)

lemma escape_loop_all: "int (length out) + 2 * int (length val) + 2 \<le> m \<Longrightarrow> escape_loop m out val = out @ escaped val"
proof (induction val arbitrary: out)
  case (Cons c cs)
  then have "escape_loop m (out @ escape_char c) cs = (out @ escape_char c) @ escaped cs"
    using length_escape_char [of c] by (intro Cons.IH) simp
  with Cons.prems show ?case by (simp add: escaped_def)
qed (simp add: escaped_def)

lemma put_escaped_all: "length out + 2 * length val + 2 \<le> n \<Longrightarrow> put_escaped n val out = out @ escaped val"
  by (simp add: put_escaped_def escape_field_def escape_loop_all)

fun row_join :: "bool \<Rightarrow> byte list list \<Rightarrow> byte list" where
  "row_join b [] = []"
| "row_join b (t # ts) = (if b then [] else [0x7C]) @ escaped t @ row_join False ts"

lemma split_join: "split_row acc (row_join False ts) = rev acc # ts"
  by (induction ts arbitrary: acc) (simp_all add: split_escaped)

lemma split_row_join: "ts \<noteq> [] \<Longrightarrow> split_row [] (row_join True ts) = ts"
  by (cases ts) (simp_all add: split_escaped split_join)

lemma join_no_line: "0x0D \<notin> set (row_join b ts) \<and> 0x0A \<notin> set (row_join b ts)"
  by (induction b ts rule: row_join.induct) (auto simp: escaped_no_line)

definition shown_text :: "pack_schema_t list \<Rightarrow> byte list \<Rightarrow> query_state \<Rightarrow> selection \<Rightarrow> byte list" where
  "shown_text packs crd s x = (case field_text packs crd 64 x s of Some (Some t, u) \<Rightarrow> t | _ \<Rightarrow> [])"

lemma row_fields_join:
  "row_fields n packs crd xs b out s = Some (out', s') \<Longrightarrow> flash_only s \<Longrightarrow>
    length out + sum_list (map (\<lambda>x. 2 * length (shown_text packs crd s x) + 1) xs) + 102 \<le> n \<Longrightarrow>
    out' = out @ row_join b (map (shown_text packs crd s) xs)"
proof (induction xs arbitrary: b out)
  case (Cons x xs)
  let ?t = "shown_text packs crd s x"
  have r: "room n out 100" using Cons.prems(3) by (simp add: room_def)
  then obtain t where t: "field_text packs crd 64 x s = Some (t, s)"
    using Cons.prems(1) field_text_at [OF Cons.prems(2) refl, of packs crd 64 x] by (cases "field_text packs crd 64 x s") auto
  define out1 where "out1 = put_sep n b out"
  have o1: "out1 = out @ (if b then [] else [0x7C])" using Cons.prems(3) by (simp add: out1_def put_sep_def room_def)
  have "length out1 + 2 * length ?t + 2 \<le> n" using Cons.prems(3) by (simp add: o1)
  from put_escaped_all [OF this] have e: "(case t of None \<Rightarrow> out1 | Some val \<Rightarrow> put_escaped n val out1) = out1 @ escaped ?t"
    using t by (cases t) (simp_all add: shown_text_def escaped_def)
  have "row_fields n packs crd xs False (out1 @ escaped ?t) s = Some (out', s')"
    using Cons.prems(1) r t e [unfolded out1_def] by (simp add: Let_def out1_def)
  from Cons.IH [OF this Cons.prems(2)] show ?case
    using Cons.prems(3) length_escaped [of ?t] by (simp add: o1)
qed simp

text \<open>
  C37: a row is read back. When the buffer has room for the row, its values, cut at the bars and with the escapes undone, are the texts of
  the selected fields of the card, whatever bytes they hold; and no end of line stands in it, so that rows cannot be forged by a value.
\<close>

theorem query_row_roundtrip:
  assumes "flash_only s" and "row_fields n packs crd xs True [] s = Some (out, s')" and "xs \<noteq> []"
    and "sum_list (map (\<lambda>x. 2 * length (shown_text packs crd s x) + 1) xs) + 102 \<le> n"
  shows "split_row [] out = map (shown_text packs crd s) xs \<and> 0x0D \<notin> set out \<and> 0x0A \<notin> set out"
proof -
  have "out = row_join True (map (shown_text packs crd s) xs)" using row_fields_join [OF assms(2,1)] assms(4) by simp
  then show ?thesis using assms(3) split_row_join join_no_line by simp
qed

theorem query_row_roundtrip_witness:
  "\<exists>out s'. row_fields 256 [empty_schema] demo_card demo_selection True [] (demo_scan kv_boot) = Some (out, s')
     \<and> split_row [] out = [cstr ''a|b'', cstr ''-2'']"
proof -
  let ?s = "demo_scan kv_boot" and ?p = "[empty_schema]"
  have f: "flash_only ?s" by (simp add: flash_only_def demo_scan_def kvsd_ready_def)
  have sh: "map (shown_text ?p demo_card ?s) demo_selection = [cstr ''a|b'', cstr ''-2'']"
    by (simp add: demo_selection_def shown_text_def field_text_def demo_texts)
  have "\<exists>p. row_fields 256 ?p demo_card demo_selection True [] ?s = Some p"
    by (auto simp: demo_selection_def field_text_def demo_texts Let_def)
  then obtain out s' where r: "row_fields 256 ?p demo_card demo_selection True [] ?s = Some (out, s')" by auto
  have "sum_list (map (\<lambda>x. 2 * length (shown_text ?p demo_card ?s x) + 1) demo_selection) = sum_list (map (\<lambda>t. 2 * length t + 1) (map (shown_text ?p demo_card ?s) demo_selection))"
    by (simp add: comp_def)
  then have "sum_list (map (\<lambda>x. 2 * length (shown_text ?p demo_card ?s x) + 1) demo_selection) + 102 \<le> 256"
    unfolding sh by (simp add: cstr_def)
  from query_row_roundtrip [OF f r _ this] sh r show ?thesis by (auto simp: demo_selection_def)
qed

end
