(* ===== verification/Spec2Isabelle.thy ===== *)
theory Spec2Isabelle
  imports PicoBuffer KvRecovery Aead MetaDict WalLog KvRouter UserInvariant UserCookie QueryScan
begin

text \<open>
  PicoWAL: a verification library for the storage and query core of the firmware.

  \<^bold>\<open>The program.\<close> PicoWAL is a database on a microcontroller. Values, called cards, are kept under 32-bit keys; the top ten bits of a
  key name its pack, the others the card. Core 1 runs the write-ahead engine (\<open>src/wal_engine.c\<close>) and the stores; Core 0 runs the
  network and the web server and sends it requests through the two FIFOs between the cores. Cards of the system packs 0 (schemas) and 1
  (users) are in flash (\<open>src/kv_flash.c\<close>), those of the other packs on an SD card when one is ready (\<open>src/kv_sd.c\<close>);
  \<open>src/kv_store.h\<close> routes between both. Both stores compress with \<open>lib/picocompress\<close>. On top are the dictionary of types
  (\<open>src/metadata_dict.c\<close>), accounts and sessions (\<open>src/user_auth.c\<close>), queries (\<open>src/query.c\<close>), and the AEAD of the
  network protocol (\<open>src/crypto.c\<close>). File names are those under \<open>src/\<close>.

  \<^bold>\<open>How the code is written here.\<close> A definition has the name of the C function it stands for; the parts of a long function (the body of a
  loop, a branch) have names of their own and are composed the way the function composes them. The static variables of a file are one
  record that each operation takes and returns: \<open>kv_state\<close>, \<open>sd_state\<close>, \<open>wal_state\<close>, \<open>meta_state\<close>, \<open>auth_state\<close>,
  \<open>query_state\<close>. Integers keep their width (\<open>byte\<close>, \<open>u16\<close>, \<open>u32\<close>, \<open>u64\<close> are words) wherever they can wrap;
  counters with a bound are numbers, with the bound proved or the cast written out. A read or write outside of an object, and every other
  undefined step of C, is the value \<open>None\<close> (or \<open>Fault\<close>), so a theorem that a result is \<open>Some\<close> is one of memory safety.

  \<^bold>\<open>The theories.\<close>
  \<^item> \<open>Prelude\<close>: machine types, casts, byte order, buffers, C strings. \<open>KeyMap\<close>: the contract \<open>key_map\<close> of a bounded index.
  \<^item> picocompress: \<open>PicoDict\<close> (static dictionary), \<open>PicoMatch\<close> (hash table and match search), \<open>PicoDecode\<close>, \<open>PicoEncode\<close> (blocks),
    \<open>PicoStream\<close> (streaming encoder and decoder, buffer functions). \<open>PicoRoundtrip\<close>, \<open>PicoChunks\<close> and \<open>PicoBuffer\<close> prove the
    round trips, that chunks do not matter, and the bound; the write callback is the locale \<open>byte_writer\<close>, interpreted by \<open>pc_mem_write\<close>.
  \<^item> flash store: \<open>KvIndex\<close> (sorted arrays and reference counts; interpretation \<open>idx\<close> of \<open>key_map\<close>), \<open>KvCrc\<close>, \<open>KvFlash\<close>
    (pages, records, writing, reading, compaction), \<open>KvInit\<close> (recovery). \<open>KvSafety\<close> holds for any flash contents and any write that
    stops; \<open>KvFlashLemmas\<close>, \<open>KvRefine\<close> and \<open>KvStore\<close> prove that the store is a map (\<open>store_inv\<close>, locale \<open>key_store\<close>, interpretation
    \<open>kvs\<close>); \<open>KvRecovery\<close> proves that recovery ends and indexes committed records only.
  \<^item> AEAD: \<open>ChaCha\<close>, \<open>Poly1305\<close>, \<open>PolySpec\<close> (the limbs compute the polynomial modulo \<open>2 ^ 130 - 5\<close>), \<open>Aead\<close>.
  \<^item> dictionary: \<open>MetaDict\<close>, with the locale \<open>ordinal_cache\<close> interpreted by its three caches.
  \<^item> write-ahead engine: \<open>Wal\<close> (slots, log, handlers, drain loop), \<open>WalMerge\<close> (merging deltas refines an update of a list of fields),
    \<open>WalLog\<close> (invariant, answers, compaction).
  \<^item> SD card store: \<open>SdStore\<close> (card, superblock, bitmap, block cache), \<open>SdIndex\<close> (SRAM index, locale \<open>evicting_cache\<close>), \<open>SdHash\<close>
    (hash table on the card), \<open>KvSd\<close> (packed blocks and the public operations). \<open>SdCache\<close>, \<open>SdTable\<close>, \<open>SdTableMap\<close> (interpretation
    \<open>ht\<close> of \<open>key_map\<close>), \<open>SdBlocks\<close>, \<open>SdBitmap\<close>, \<open>SdCards\<close>, \<open>SdRefine\<close>, \<open>SdDelete\<close>, \<open>SdStart\<close> relate it with a map;
    \<open>SdStale\<close> shows where it is none.
  \<^item> \<open>KvRouter\<close>: routing, and both stores as one map.
  \<^item> accounts: \<open>UserCards\<close> (cards, builder, parser), \<open>UserAuth\<close> (login, sessions, rights, passwords), \<open>UserSeed\<close> (data of the first
    start), \<open>UserCookie\<close>. \<open>UserView\<close>, \<open>UserStore\<close>, \<open>UserLaws\<close>, \<open>UserSessions\<close> and \<open>UserInvariant\<close> prove what they promise; the last has
    the operations as a step relation and an invariant of the reachable states.
  \<^item> queries: \<open>QueryText\<close> (strings of C, parser), \<open>QueryFields\<close> (fields of a card, comparisons, escapes), \<open>QueryExec\<close> (packs, the
    caches of fanouts and of pack sizes, the latter from \<open>src/httpd/web_server.c\<close>), \<open>QueryRun\<close> (clauses, selection, cost order, scan),
    \<open>QueryAgg\<close> (groups, \<open>query_execute\<close>). \<open>QueryLaws\<close> proves comparison, reordering and the bound of the output, \<open>QuerySafety\<close> that no
    answer depends on the cards of users, \<open>QueryScan\<close> that a scan answers the cards that pass, and that rows can be read back.

  \<^bold>\<open>What the properties show.\<close> Compression: round trips of blocks and buffers, safety of the decoder on hostile input, independence of
  chunks, the size bound, equality of the fast and the portable match length, and the frame headers that overflow the decoder's payload array.
  Flash: any sequence of writes and deletes refines a map; what a write stores; recovery from arbitrary contents; compaction keeps live pages
  and ends. AEAD: Poly1305 is computed without overflow, decryption inverts encryption, and only authentic data are released. Dictionary: the
  caches agree with the store. Engine: every request is answered, merges refine, the log stays consistent, compaction keeps the newest
  delta. SD: the hash table refines a map, writes and deletes do under the conditions below. Accounts: only the right password opens a session,
  failures lock, new users can log in, tokens and cookies are read back, sessions end, the state keeps its shape. Queries: as above.

  \<^bold>\<open>Bounds, termination and fuel.\<close> Loops are structural recursion or \<open>function\<close> with a measure. Loops that might not end are
  \<open>partial_function (option)\<close>: the reclaiming of flash pages, with the theorem that it returns, and the search of the engine's merge, with
  one theorem that it returns on whole fields and one that a stored length of 0xFFFC makes it run forever. Nothing runs on fuel.

  \<^bold>\<open>Conditions of the refinements.\<close> The flash theorems assume a NOR flash (\<open>nor_flash\<close>: programming writes erased bytes, erasing sets
  a range to 0xFF) and values of at most 474 bytes, above which a record may not fit its staging buffer and is lost although the write
  returns true (part of the theorem on what a write stores). The SD theorems assume that transfers succeed; a write refines the update of a map when the new
  version goes to another block than the old one and the hash table had room, a delete when the flash index is empty and the key is not alone
  in the open block. \<open>SdStale\<close> proves that the first condition is needed. The row theorems of queries are stated for the flash as the only
  store; the theorem on the cards of users holds with the SD card as well, for schemas with ordinals below 1024.

  \<^bold>\<open>Parameters.\<close> The two functions of the SDK that write the flash (\<open>flash_dev\<close>), the SD driver (an array of blocks with an
  oracle of failing transfers), SHA-256 of mbedTLS, the random numbers and the clock are arguments. Memory that C leaves undefined (stack arrays
  before they are filled) is an argument too. The assumptions on them are named in the theorems that use them.

  \<^bold>\<open>Not modelled.\<close> The TCP server and the web pages over lwIP, the UDP log, the drivers and the DMA channel (register programming), the
  boot loader, the Verilog design and the client programs. Concurrency of the two cores is modelled as far as the engine sees it: requests in the
  order of the FIFO, each slot owned by one side.
\<close>

end
